(* ===== verification/Prelude.thy ===== *)
theory Prelude
  imports Main "HOL-Library.Word" "HOL-Library.Monad_Syntax"
begin

text \<open>
  Shared vocabulary of the development: the C types the components use, reading and writing
  through pointers, and the generic facts about lists, maps and powers of two that several
  components need.

  A C pointer that may be null is a value of an option type. Memory that code reaches
  through pointers is a partial map from addresses to structures; following a null or
  dangling pointer has no result, which the option monad makes the value None. A theorem
  that an operation returns \<open>Some\<close> therefore also says that it follows no bad pointer.
\<close>

unbundle bit_operations_syntax

type_synonym uchar = "8 word"
type_synonym uint = "32 word"
type_synonym ulong = "64 word"

named_theorems store_simps \<open>reading and writing through pointers\<close>
named_theorems repr_intros \<open>introduction rules of the representation predicates\<close>

subsection \<open>Memory\<close>

text \<open>Assignment through a pointer: \<open>p->field = v\<close>.\<close>

definition upd :: "('a \<rightharpoonup> 'b) \<Rightarrow> 'a \<Rightarrow> ('b \<Rightarrow> 'b) \<Rightarrow> ('a \<rightharpoonup> 'b) option" where
  "upd m a f = (case m a of None \<Rightarrow> None | Some v \<Rightarrow> Some (m(a \<mapsto> f v)))"

lemma upd_Some [store_simps]: "m a = Some v \<Longrightarrow> upd m a f = Some (m(a \<mapsto> f v))"
  by (simp add: upd_def)

lemma upd_None [store_simps]: "m a = None \<Longrightarrow> upd m a f = None"
  by (simp add: upd_def)

subsection \<open>Lists\<close>

lemma list_update_swap_same [simp]: "i < length xs \<Longrightarrow> xs[i := xs ! i] = xs"
  by simp

lemma length_eq_1_conv: "length xs = Suc 0 \<longleftrightarrow> (\<exists>x. xs = [x])"
  by (cases xs) auto

subsection \<open>Masks and powers of two\<close>

lemma and_mask_nat: "(n::nat) AND (2 ^ k - 1) = n mod 2 ^ k"
proof -
  have "n AND (2 ^ k - 1) = n AND mask k"
    unfolding mask_eq_exp_minus_1 by simp
  also have "\<dots> = n mod 2 ^ k"
    unfolding take_bit_eq_mask [symmetric] take_bit_eq_mod by simp
  finally show ?thesis .
qed

lemma half_pow2 [simp]: "(2::nat) ^ Suc k div 2 = 2 ^ k"
  by simp

subsection \<open>Comparison functions\<close>

text \<open>A comparison callback that orders its arguments as a total preorder.\<close>

definition total_cmp :: "('k \<Rightarrow> 'k \<Rightarrow> int) \<Rightarrow> bool" where
  "total_cmp cmp \<longleftrightarrow> (\<forall>a b. cmp a b < 0 \<longleftrightarrow> 0 < cmp b a) \<and>
     (\<forall>a b c. cmp a b \<le> 0 \<longrightarrow> cmp b c \<le> 0 \<longrightarrow> cmp a c \<le> 0)"

lemma total_cmpD:
  assumes "total_cmp cmp"
  shows "cmp a b < 0 \<longleftrightarrow> 0 < cmp b a" "cmp a b \<le> 0 \<Longrightarrow> cmp b c \<le> 0 \<Longrightarrow> cmp a c \<le> 0"
    "cmp a b \<le> 0 \<longleftrightarrow> 0 \<le> cmp b a" "cmp a b = 0 \<longleftrightarrow> cmp b a = 0" "cmp a a = 0"
proof -
  show s: "cmp a b < 0 \<longleftrightarrow> 0 < cmp b a" for a b using assms by (simp add: total_cmp_def)
  show "cmp a b \<le> 0 \<Longrightarrow> cmp b c \<le> 0 \<Longrightarrow> cmp a c \<le> 0" using assms unfolding total_cmp_def by blast
  show "cmp a b \<le> 0 \<longleftrightarrow> 0 \<le> cmp b a" "cmp a b = 0 \<longleftrightarrow> cmp b a = 0" "cmp a a = 0"
    using s [of a b] s [of b a] s [of a a] by linarith+
qed

lemma total_cmp_less_trans:
  assumes t: "total_cmp cmp"
  shows "cmp a b < 0 \<Longrightarrow> cmp b c \<le> 0 \<Longrightarrow> cmp a c < 0" "cmp a b \<le> 0 \<Longrightarrow> cmp b c < 0 \<Longrightarrow> cmp a c < 0"
proof -
  show "cmp a c < 0" if "cmp a b < 0" "cmp b c \<le> 0"
  proof (rule ccontr)
    assume "\<not> cmp a c < 0"
    then have "cmp c a \<le> 0" using total_cmpD(3) [OF t, of c a] by simp
    with that(2) have "cmp b a \<le> 0" using total_cmpD(2) [OF t] by blast
    then show False using that(1) total_cmpD(1) [OF t, of a b] by simp
  qed
  show "cmp a c < 0" if "cmp a b \<le> 0" "cmp b c < 0"
  proof (rule ccontr)
    assume "\<not> cmp a c < 0"
    then have "cmp c a \<le> 0" using total_cmpD(3) [OF t, of c a] by simp
    with that(1) have "cmp c b \<le> 0" using total_cmpD(2) [OF t] by blast
    then show False using that(2) total_cmpD(1) [OF t, of b c] by simp
  qed
qed

end
