(* ===== verification/LinkedList.thy ===== *)
theory LinkedList
  imports Prelude
begin

text \<open>
  The doubly linked lists of mysys/list.c, at pointer level: a store maps the address of a
  \<open>LIST\<close> structure to its three fields, and each function is its C body over that store.
  The predicate \<open>dll\<close> says which list of addresses a store represents; the lemmas show
  that every function follows only good pointers and does to that list what its name says.
\<close>

subsection \<open>Structures and functions\<close>

record 'd LIST =
  l_prev :: "nat option"
  l_next :: "nat option"
  l_data :: 'd

type_synonym 'd list_store = "nat \<rightharpoonup> 'd LIST"

definition list_add :: "'d list_store \<Rightarrow> nat option \<Rightarrow> nat \<Rightarrow> ('d list_store \<times> nat option) option" where
  "list_add s root element =
     do {
       s \<leftarrow> (case root of
          Some r \<Rightarrow> do {
            rn \<leftarrow> s r;
            s \<leftarrow> (case l_prev rn of
               Some p \<Rightarrow> upd s p (\<lambda>n. n\<lparr>l_next := Some element\<rparr>)
             | None \<Rightarrow> Some s);
            rn \<leftarrow> s r;
            s \<leftarrow> upd s element (\<lambda>n. n\<lparr>l_prev := l_prev rn\<rparr>);
            upd s r (\<lambda>n. n\<lparr>l_prev := Some element\<rparr>) }
        | None \<Rightarrow> upd s element (\<lambda>n. n\<lparr>l_prev := None\<rparr>));
       s \<leftarrow> upd s element (\<lambda>n. n\<lparr>l_next := root\<rparr>);
       Some (s, Some element)
     }"

definition list_delete :: "'d list_store \<Rightarrow> nat option \<Rightarrow> nat \<Rightarrow> ('d list_store \<times> nat option) option" where
  "list_delete s root element =
     do {
       en \<leftarrow> s element;
       (s, root) \<leftarrow> (case l_prev en of
          Some p \<Rightarrow> do { s \<leftarrow> upd s p (\<lambda>n. n\<lparr>l_next := l_next en\<rparr>); Some (s, root) }
        | None \<Rightarrow> Some (s, l_next en));
       en \<leftarrow> s element;
       s \<leftarrow> (case l_next en of
          Some x \<Rightarrow> upd s x (\<lambda>n. n\<lparr>l_prev := l_prev en\<rparr>)
        | None \<Rightarrow> Some s);
       Some (s, root)
     }"

text \<open>
  \<open>my_free\<close> takes an address out of the store. With \<open>free_data\<close> the data pointers are
  freed too; they are the second component, in the order they are freed.
\<close>

partial_function (option) list_free ::
  "'d list_store \<Rightarrow> nat option \<Rightarrow> bool \<Rightarrow> 'd list \<Rightarrow> ('d list_store \<times> 'd list) option" where
  "list_free s root free_data freed =
     (case root of
        None \<Rightarrow> Some (s, freed)
      | Some r \<Rightarrow> do {
          rn \<leftarrow> s r;
          list_free (s(r := None)) (l_next rn) free_data
            (if free_data then freed @ [l_data rn] else freed) })"

text \<open>\<open>my_malloc\<close> gives the address \<open>fresh\<close> of a new structure, or null.\<close>

definition list_cons ::
  "'d list_store \<Rightarrow> nat option \<Rightarrow> 'd \<Rightarrow> nat option \<Rightarrow> ('d list_store \<times> nat option) option" where
  "list_cons s fresh dt lst =
     (case fresh of
        None \<Rightarrow> Some (s, None)
      | Some a \<Rightarrow> list_add (s(a \<mapsto> \<lparr>l_prev = None, l_next = None, l_data = dt\<rparr>)) lst a)"

partial_function (option) list_reverse_loop ::
  "'d list_store \<Rightarrow> nat option \<Rightarrow> nat option \<Rightarrow> ('d list_store \<times> nat option) option" where
  "list_reverse_loop s lst root =
     (case root of
        None \<Rightarrow> Some (s, lst)
      | Some r \<Rightarrow> do {
          rn \<leftarrow> s r;
          s \<leftarrow> upd s r (\<lambda>n. n\<lparr>l_next := l_prev rn\<rparr>);
          s \<leftarrow> upd s r (\<lambda>n. n\<lparr>l_prev := l_next rn\<rparr>);
          list_reverse_loop s (Some r) (l_next rn) })"

definition list_reverse :: "'d list_store \<Rightarrow> nat option \<Rightarrow> ('d list_store \<times> nat option) option" where
  "list_reverse s root = list_reverse_loop s root root"

partial_function (option) list_length_loop :: "'d list_store \<Rightarrow> nat option \<Rightarrow> uint \<Rightarrow> uint option" where
  "list_length_loop s lst count =
     (case lst of
        None \<Rightarrow> Some count
      | Some a \<Rightarrow> do { n \<leftarrow> s a; list_length_loop s (l_next n) (count + 1) })"

definition list_length :: "'d list_store \<Rightarrow> nat option \<Rightarrow> uint option" where
  "list_length s lst = list_length_loop s lst 0"

text \<open>The action reads and writes a state of its own, \<open>'a\<close>; zero means go on.\<close>

partial_function (option) list_walk ::
  "'d list_store \<Rightarrow> nat option \<Rightarrow> ('d \<Rightarrow> 'a \<Rightarrow> int \<times> 'a) \<Rightarrow> 'a \<Rightarrow> (int \<times> 'a) option" where
  "list_walk s lst action argument =
     (case lst of
        None \<Rightarrow> Some (0, argument)
      | Some a \<Rightarrow> do {
          n \<leftarrow> s a;
          let (error, argument) = action (l_data n) argument in
          if error \<noteq> 0 then Some (error, argument)
          else list_walk s (l_next n) action argument })"

lemmas loop_unfolds = list_free.simps list_reverse_loop.simps list_length_loop.simps list_walk.simps

lemma loop_null [store_simps]:
  "list_free s None b fr = Some (s, fr)"
  "list_reverse_loop s lst None = Some (s, lst)"
  "list_length_loop s None c = Some c"
  "list_walk s None f x = Some (0, x)"
  by (simp_all add: loop_unfolds)

lemma loop_node [store_simps]:
  assumes "s a = Some n"
  shows "list_free s (Some a) b fr =
      list_free (s(a := None)) (l_next n) b (if b then fr @ [l_data n] else fr)"
    and "list_reverse_loop s lst (Some a) =
      list_reverse_loop (s(a \<mapsto> n\<lparr>l_next := l_prev n, l_prev := l_next n\<rparr>)) (Some a) (l_next n)"
    and "list_length_loop s (Some a) c = list_length_loop s (l_next n) (c + 1)"
    and "list_walk s (Some a) f x =
      (let (e, x) = f (l_data n) x in if e \<noteq> 0 then Some (e, x) else list_walk s (l_next n) f x)"
  using assms by (simp_all add: loop_unfolds [of s] upd_Some)

subsection \<open>The list a store represents\<close>

text \<open>
  \<open>dll s p root xs q\<close>: from \<open>root\<close> the next pointers run through \<open>xs\<close> to \<open>q\<close>, and the
  prev pointers run back to \<open>p\<close>.
\<close>

primrec dll :: "'d list_store \<Rightarrow> nat option \<Rightarrow> nat option \<Rightarrow> nat list \<Rightarrow> nat option \<Rightarrow> bool" where
  "dll s p root [] q \<longleftrightarrow> root = q"
| "dll s p root (x # xs) q \<longleftrightarrow>
     root = Some x \<and> (\<exists>n. s x = Some n \<and> l_prev n = p \<and> dll s (Some x) (l_next n) xs q)"

definition lastp :: "nat option \<Rightarrow> nat list \<Rightarrow> nat option" where
  "lastp p xs = (if xs = [] then p else Some (last xs))"

definition is_list :: "'d list_store \<Rightarrow> nat option \<Rightarrow> nat list \<Rightarrow> bool" where
  "is_list s root xs \<longleftrightarrow> dll s None root xs None \<and> distinct xs"

lemma lastp_simps [simp]:
  "lastp p [] = p" "lastp p (x # xs) = lastp (Some x) xs" "lastp p (xs @ [x]) = Some x"
  by (auto simp: lastp_def)

lemma dll_append:
  "dll s p root (xs @ ys) q \<longleftrightarrow> (\<exists>m. dll s p root xs m \<and> dll s (lastp p xs) m ys q)"
  by (induction xs arbitrary: p root) auto

lemma dll_upd [simp]: "a \<notin> set xs \<Longrightarrow> dll (s(a := v)) p root xs q = dll s p root xs q"
  by (induction xs arbitrary: p root) auto

lemma dll_root: "dll s p root xs q \<Longrightarrow> root = (case xs of [] \<Rightarrow> q | x # _ \<Rightarrow> Some x)"
  by (cases xs) auto

lemma dll_mem: "dll s p root xs q \<Longrightarrow> x \<in> set xs \<Longrightarrow> \<exists>n. s x = Some n"
  by (induction xs arbitrary: p root) auto

lemma dll_unique: "dll s p root xs None \<Longrightarrow> dll s p root ys None \<Longrightarrow> xs = ys"
proof (induction xs arbitrary: p root ys)
  case Nil
  then show ?case by (cases ys) auto
next
  case (Cons x xs)
  then show ?case by (cases ys) auto
qed


subsection \<open>Each function on the list represented\<close>

text \<open>
  \<open>list_add\<close> puts the element before \<open>root\<close>, which may be in the middle of the list:
  then \<open>ys\<close> is what comes before it.
\<close>

lemma list_add_correct:
  assumes l: "is_list s r0 (ys @ xs)" and root: "dll s (lastp None ys) root xs None"
    and e: "s e = Some n" "e \<notin> set (ys @ xs)" and xs: "xs = [] \<longrightarrow> ys = []"
  shows "\<exists>s'. list_add s root e = Some (s', Some e) \<and>
     is_list s' (if ys = [] then Some e else r0) (ys @ e # xs) \<and>
     (\<forall>a. map_option l_data (s' a) = map_option l_data (s a)) \<and>
     (\<forall>a. a \<notin> set (ys @ e # xs) \<longrightarrow> s' a = s a)"
proof (cases xs)
  case Nil
  with l xs e root show ?thesis
    by (auto simp: list_add_def store_simps is_list_def)
next
  case (Cons x xt)
  show ?thesis
  proof (cases ys rule: rev_cases)
    case Nil
    with l Cons e root show ?thesis
      by (auto simp: list_add_def store_simps is_list_def)
  next
    case (snoc yi y)
    with l Cons e root show ?thesis
      by (auto simp: list_add_def store_simps is_list_def dll_append)
  qed
qed

lemma list_delete_correct:
  assumes l: "is_list s root (ys @ e # xs)"
  shows "\<exists>s'. list_delete s root e = Some (s', (case ys @ xs of [] \<Rightarrow> None | a # _ \<Rightarrow> Some a)) \<and>
     is_list s' (case ys @ xs of [] \<Rightarrow> None | a # _ \<Rightarrow> Some a) (ys @ xs) \<and>
     (\<forall>a. map_option l_data (s' a) = map_option l_data (s a)) \<and>
     (\<forall>a. a \<notin> set (ys @ xs) \<longrightarrow> s' a = s a)"
proof (cases ys rule: rev_cases)
  case Nil
  with l show ?thesis
    by (cases xs) (auto simp: list_delete_def store_simps is_list_def)
next
  case (snoc yi y)
  from l snoc have "root = (case ys @ xs of [] \<Rightarrow> None | a # _ \<Rightarrow> Some a)"
    by (cases yi) (auto simp: is_list_def)
  with l snoc show ?thesis
    by (cases xs) (auto simp: list_delete_def store_simps is_list_def dll_append)
qed

lemma list_length_loop_correct:
  "dll s p root xs None \<Longrightarrow> list_length_loop s root c = Some (c + of_nat (length xs))"
  by (induction xs arbitrary: p root c) (auto simp: store_simps algebra_simps)

lemma list_length_correct: "is_list s root xs \<Longrightarrow> list_length s root = Some (of_nat (length xs))"
  by (auto simp: list_length_def is_list_def dest: list_length_loop_correct [where c = 0])

lemma list_free_correct:
  "dll s p root xs None \<Longrightarrow> distinct xs \<Longrightarrow>
   list_free s root b fr = Some (s |` (- set xs),
     fr @ (if b then map (\<lambda>a. l_data (the (s a))) xs else []))"
proof (induction xs arbitrary: p root s fr)
  case Nil
  then show ?case by (simp add: store_simps restrict_map_def)
next
  case (Cons x xs)
  from Cons.prems obtain n where n: "root = Some x" "s x = Some n" "dll s (Some x) (l_next n) xs None"
    by auto
  with Cons.prems have "dll (s(x := None)) (Some x) (l_next n) xs None" by simp
  let ?s = "s(x := None)" and ?fr = "if b then fr @ [l_data n] else fr"
  have IH: "list_free ?s (l_next n) b ?fr = Some (?s |` (- set xs),
     ?fr @ (if b then map (\<lambda>a. l_data (the (?s a))) xs else []))"
    using Cons.prems by (intro Cons.IH [OF \<open>dll ?s (Some x) (l_next n) xs None\<close>]) simp
  have "map (\<lambda>a. l_data (the ((s(x := None)) a))) xs = map (\<lambda>a. l_data (the (s a))) xs"
    using Cons.prems by auto
  then show ?case
    using IH Cons.prems n by (auto simp: store_simps restrict_map_def fun_eq_iff)
qed

lemma list_reverse_loop_correct:
  "dll s p root xs None \<Longrightarrow> dll s root q ys None \<Longrightarrow> distinct (xs @ ys) \<Longrightarrow>
   q = (case ys of [] \<Rightarrow> None | y # _ \<Rightarrow> Some y) \<Longrightarrow> (xs \<noteq> [] \<longrightarrow> p = q) \<Longrightarrow>
   \<exists>s'. list_reverse_loop s q root = Some (s', (case rev xs @ ys of [] \<Rightarrow> None | y # _ \<Rightarrow> Some y)) \<and>
     dll s' None (case rev xs @ ys of [] \<Rightarrow> None | y # _ \<Rightarrow> Some y) (rev xs @ ys) None"
proof (induction xs arbitrary: p q root s ys)
  case Nil
  then show ?case by (simp add: store_simps)
next
  case (Cons x xs)
  from Cons.prems obtain n where n: "root = Some x" "s x = Some n" "l_prev n = p"
    "dll s (Some x) (l_next n) xs None"
    by auto
  let ?s = "s(x \<mapsto> n\<lparr>l_next := p, l_prev := l_next n\<rparr>)"
  have d: "dll ?s (Some x) (l_next n) xs None"
    using n Cons.prems by simp
  have y: "dll ?s (l_next n) (Some x) (x # ys) None"
    using n Cons.prems by simp
  have "\<exists>s'. list_reverse_loop ?s (Some x) (l_next n) =
      Some (s', (case rev xs @ x # ys of [] \<Rightarrow> None | y # _ \<Rightarrow> Some y)) \<and>
     dll s' None (case rev xs @ x # ys of [] \<Rightarrow> None | y # _ \<Rightarrow> Some y) (rev xs @ x # ys) None"
    using Cons.prems(3) by (intro Cons.IH [OF d y]) auto
  moreover have "list_reverse_loop s q root = list_reverse_loop ?s (Some x) (l_next n)"
    using n by (simp add: store_simps)
  ultimately show ?case by simp
qed

lemma list_reverse_correct:
  assumes "is_list s root xs"
  shows "\<exists>s'. list_reverse s root = Some (s', (case rev xs of [] \<Rightarrow> None | y # _ \<Rightarrow> Some y)) \<and>
     is_list s' (case rev xs of [] \<Rightarrow> None | y # _ \<Rightarrow> Some y) (rev xs)"
  using assms list_reverse_loop_correct [of s None root xs None "[]"]
  by (cases xs) (auto simp: list_reverse_def is_list_def store_simps)

text \<open>The walk as a fold over the data, up to the first action that returns an error.\<close>

primrec walk_spec :: "('d \<Rightarrow> 'a \<Rightarrow> int \<times> 'a) \<Rightarrow> 'd list \<Rightarrow> 'a \<Rightarrow> int \<times> 'a" where
  "walk_spec f [] a = (0, a)"
| "walk_spec f (d # ds) a =
     (let (e, a) = f d a in if e \<noteq> 0 then (e, a) else walk_spec f ds a)"

lemma list_walk_correct:
  "dll s p root xs None \<Longrightarrow>
   list_walk s root f a = Some (walk_spec f (map (\<lambda>x. l_data (the (s x))) xs) a)"
  by (induction xs arbitrary: p root a) (auto simp: store_simps split: prod.splits)

end
