(* ===== verification/LinkTable.thy ===== *)
theory LinkTable
  imports Prelude "HOL-Library.Multiset"
begin

text \<open>
  The table of linked records behind mysys/hash.c and the hash indexes of heap/: the first
  \<open>records\<close> cells of an array hold one record each and the number of the next cell of the
  same bucket, a bucket starts in the cell that has its number, and the table grows and
  shrinks by one cell at a time (linear hashing), so that an insert splits one bucket and
  a delete joins two.

  The two C modules carry the same code twice, once over \<open>HASH_LINK\<close> numbers and once over
  \<open>HASH_INFO\<close> pointers. The functions here are that code, over the numbers of the cells;
  the number is the null option where C has \<open>NO_RECORD\<close> or a null pointer. A read
  outside the array has no result. The bit operations on hash numbers are those of C, on
  \<open>nat\<close> values of \<open>uint\<close> and \<open>ulong\<close>.
\<close>

subsection \<open>Cells, masks and links\<close>

record 'r hlink =
  hl_next :: "nat option"
  hl_data :: 'r

definition link_at :: "'r hlink list \<Rightarrow> nat \<Rightarrow> 'r hlink option" where
  "link_at e i = (if i < length e then Some (e ! i) else None)"

definition hash_mask :: "nat \<Rightarrow> nat \<Rightarrow> nat \<Rightarrow> nat" where
  "hash_mask hashnr buffmax maxlength =
     (if (hashnr AND (buffmax - 1)) < maxlength then hashnr AND (buffmax - 1)
      else hashnr AND (drop_bit 1 buffmax - 1))"

partial_function (option) movelink ::
  "'r hlink list \<Rightarrow> nat option \<Rightarrow> nat \<Rightarrow> nat option \<Rightarrow> 'r hlink list option" where
  "movelink e fnd next_link newlink =
     do {
       old_link \<leftarrow> link_at e next_link;
       if hl_next old_link = fnd
       then Some (e[next_link := old_link\<lparr>hl_next := newlink\<rparr>])
       else (case hl_next old_link of
               None \<Rightarrow> None
             | Some next_link \<Rightarrow> movelink e fnd next_link newlink)
     }"

subsection \<open>Insert\<close>

text \<open>
  The loop that splits a bucket. Its variables: the bits \<open>LOWFIND\<close>, \<open>LOWUSED\<close>,
  \<open>HIGHFIND\<close> and \<open>HIGHUSED\<close> of \<open>flag\<close>; the last cell of each half with the record that
  belongs in it; and the free cell. The initial values of \<open>gpos\<close> and \<open>ptr_to_rec\<close> are
  never read.
\<close>

record 'r split =
  sp_links :: "'r hlink list"
  lowfind :: bool
  lowused :: bool
  highfind :: bool
  highused :: bool
  sp_gpos :: nat
  sp_rec :: 'r
  sp_gpos2 :: nat
  sp_rec2 :: 'r
  sp_empty :: nat

definition put_link :: "'r hlink list \<Rightarrow> nat \<Rightarrow> 'r \<Rightarrow> nat option \<Rightarrow> 'r hlink list" where
  "put_link e g r nx = e[g := \<lparr>hl_next = nx, hl_data = r\<rparr>]"

definition split_step :: "bool \<Rightarrow> nat \<Rightarrow> 'r \<Rightarrow> 'r split \<Rightarrow> 'r split" where
  "split_step moves pos r s =
     (if \<not> moves then
        (if \<not> lowfind s then
           (if highfind s then
              s\<lparr>lowfind := True, lowused := False, highused := False,
                sp_gpos := sp_empty s, sp_rec := r, sp_empty := pos\<rparr>
            else
              s\<lparr>lowfind := True, lowused := True, highfind := False, highused := False,
                sp_gpos := pos, sp_rec := r\<rparr>)
         else
           (let s = (if \<not> lowused s then
                  s\<lparr>sp_links := put_link (sp_links s) (sp_gpos s) (sp_rec s) (Some pos),
                    lowused := True, highused := False\<rparr>
                else s)
            in s\<lparr>sp_gpos := pos, sp_rec := r\<rparr>))
      else
        (if \<not> highfind s then
           s\<lparr>highfind := True, lowused := False, highused := False,
             sp_gpos2 := sp_empty s, sp_empty := pos, sp_rec2 := r\<rparr>
         else
           (let s = (if \<not> highused s then
                  s\<lparr>sp_links := put_link (sp_links s) (sp_gpos2 s) (sp_rec2 s) (Some pos),
                    highused := True, lowused := False\<rparr>
                else s)
            in s\<lparr>sp_gpos2 := pos, sp_rec2 := r\<rparr>)))"

partial_function (option) split_loop ::
  "('r \<Rightarrow> nat) \<Rightarrow> nat \<Rightarrow> 'r split \<Rightarrow> nat \<Rightarrow> 'r split option" where
  "split_loop hashnr halfbuff s pos =
     do {
       l \<leftarrow> link_at (sp_links s) pos;
       let s = split_step (hashnr (hl_data l) AND halfbuff \<noteq> 0) pos (hl_data l) s;
       l \<leftarrow> link_at (sp_links s) pos;
       case hl_next l of
         None \<Rightarrow> Some s
       | Some pos \<Rightarrow> split_loop hashnr halfbuff s pos
     }"

definition split_bucket ::
  "('r \<Rightarrow> nat) \<Rightarrow> 'r hlink list \<Rightarrow> nat \<Rightarrow> nat \<Rightarrow> 'r \<Rightarrow> ('r hlink list \<times> nat) option" where
  "split_bucket hashnr e blength records r =
     (let halfbuff = drop_bit 1 blength; first_index = records - halfbuff;
        s = \<lparr>sp_links = e, lowfind = False, lowused = False, highfind = False, highused = False,
             sp_gpos = 0, sp_rec = r, sp_gpos2 = 0, sp_rec2 = r, sp_empty = records\<rparr>
      in if first_index = records then Some (e, records)
         else do {
           l \<leftarrow> link_at e first_index;
           s \<leftarrow> (if hash_mask (hashnr (hl_data l)) blength records \<noteq> first_index then Some s
                else split_loop hashnr halfbuff s first_index);
           let e = sp_links s;
           let e = (if lowfind s \<and> \<not> lowused s then put_link e (sp_gpos s) (sp_rec s) None else e);
           let e = (if highfind s \<and> \<not> highused s then put_link e (sp_gpos2 s) (sp_rec2 s) None else e);
           Some (e, sp_empty s)
         })"

text \<open>
  The whole insert of the record \<open>r\<close> whose hash number is \<open>hr\<close>. The second component is
  the cell the head of the bucket was moved to, when the record joined a bucket that was
  not empty: the heap engine goes on from there to look for duplicate keys.
\<close>

definition link_insert ::
  "('r \<Rightarrow> nat) \<Rightarrow> 'r hlink list \<Rightarrow> nat \<Rightarrow> nat \<Rightarrow> 'r \<Rightarrow> nat \<Rightarrow> ('r hlink list \<times> nat option) option" where
  "link_insert hashnr e blength records r hr =
     do {
       (e, emp) \<leftarrow> split_bucket hashnr e blength records r;
       let idx = hash_mask hr blength (records + 1);
       pos \<leftarrow> link_at e idx;
       if idx = emp then Some (put_link e idx r None, None)
       else do {
         let e = e[emp := pos];
         let gpos = hash_mask (hashnr (hl_data pos)) blength (records + 1);
         if idx = gpos then Some (put_link e idx r (Some emp), Some emp)
         else do {
           e \<leftarrow> movelink (put_link e idx r None) (Some idx) gpos (Some emp);
           Some (e, None) } }
     }"

subsection \<open>Delete\<close>

text \<open>The cell of a record in the chain from \<open>pos\<close>, with the cell before it.\<close>

partial_function (option) find_link ::
  "'r hlink list \<Rightarrow> 'r \<Rightarrow> nat option \<Rightarrow> nat \<Rightarrow> (nat option \<times> nat) option option" where
  "find_link e r gpos pos =
     do {
       l \<leftarrow> link_at e pos;
       if hl_data l = r then Some (Some (gpos, pos))
       else (case hl_next l of
               None \<Rightarrow> Some None
             | Some p \<Rightarrow> find_link e r (Some pos) p)
     }"

definition unlink ::
  "'r hlink list \<Rightarrow> nat option \<Rightarrow> nat \<Rightarrow> ('r hlink list \<times> nat) option" where
  "unlink e gpos pos =
     do {
       p \<leftarrow> link_at e pos;
       case gpos of
         Some g \<Rightarrow> do { gl \<leftarrow> link_at e g; Some (e[g := gl\<lparr>hl_next := hl_next p\<rparr>], pos) }
       | None \<Rightarrow>
           (case hl_next p of
              None \<Rightarrow> Some (e, pos)
            | Some emp \<Rightarrow> do { el \<leftarrow> link_at e emp; Some (e[pos := el], emp) })
     }"

text \<open>
  Moving the last cell, number \<open>records\<close>, into the free cell. \<open>blength0\<close> is the buffer
  length the table had with the record, \<open>blength\<close> the one it has without.
\<close>

definition move_last ::
  "('r \<Rightarrow> nat) \<Rightarrow> 'r hlink list \<Rightarrow> nat \<Rightarrow> nat \<Rightarrow> nat \<Rightarrow> nat \<Rightarrow> 'r hlink list option" where
  "move_last hashnr e blength0 blength records emp =
     (if emp = records then Some e
      else do {
        lastpos \<leftarrow> link_at e records;
        let lastpos_hashnr = hashnr (hl_data lastpos);
        let pos = hash_mask lastpos_hashnr blength records;
        if pos = emp then Some (e[emp := lastpos])
        else do {
          pl \<leftarrow> link_at e pos;
          let pos_hashnr = hashnr (hl_data pl);
          let pos3 = hash_mask pos_hashnr blength records;
          if pos \<noteq> pos3 then movelink (e[emp := pl, pos := lastpos]) (Some pos) pos3 (Some emp)
          else do {
            let pos2 = hash_mask lastpos_hashnr blength0 (records + 1);
            let e = e[emp := lastpos];
            if pos2 = hash_mask pos_hashnr blength0 (records + 1) \<and> pos2 \<noteq> records
            then movelink e (Some records) pos (Some emp)
            else do {
              let idx = (if pos2 = hash_mask pos_hashnr blength0 (records + 1) then Some pos else None);
              pl \<leftarrow> link_at e pos;
              e \<leftarrow> movelink e idx emp (hl_next pl);
              pl \<leftarrow> link_at e pos;
              Some (e[pos := pl\<lparr>hl_next := Some emp\<rparr>]) } } }
      })"

subsection \<open>Search\<close>

text \<open>
  The first cell of the chain from \<open>pos\<close> whose record satisfies \<open>P\<close>. With \<open>first\<close> the
  start may hold a record of another bucket, \<open>other\<close>, and then the search ends there.
\<close>

partial_function (option) search_link ::
  "('r \<Rightarrow> bool) \<Rightarrow> ('r \<Rightarrow> bool) \<Rightarrow> 'r hlink list \<Rightarrow> bool \<Rightarrow> nat \<Rightarrow> nat option option" where
  "search_link P other e first pos =
     do {
       l \<leftarrow> link_at e pos;
       if P (hl_data l) then Some (Some pos)
       else if first \<and> other (hl_data l) then Some None
       else (case hl_next l of
               None \<Rightarrow> Some None
             | Some p \<Rightarrow> search_link P other e False p)
     }"

subsection \<open>Evaluation\<close>

lemma movelink_eval [code]:
  "movelink e fnd next_link newlink =
     (if next_link < length e then
        (if hl_next (e ! next_link) = fnd then Some (e[next_link := (e ! next_link)\<lparr>hl_next := newlink\<rparr>])
         else (case hl_next (e ! next_link) of
               None \<Rightarrow> None
             | Some next_link \<Rightarrow> movelink e fnd next_link newlink))
      else None)"
  by (simp add: movelink.simps [of e fnd next_link] link_at_def)

lemma search_link_eval [code]:
  "search_link P other e first pos =
     (if pos < length e then
        (if P (hl_data (e ! pos)) then Some (Some pos)
         else if first \<and> other (hl_data (e ! pos)) then Some None
         else (case hl_next (e ! pos) of
               None \<Rightarrow> Some None
             | Some p \<Rightarrow> search_link P other e False p))
      else None)"
  by (simp add: search_link.simps [of P other e first pos] link_at_def)

lemma find_link_eval [code]:
  "find_link e r gpos pos =
     (if pos < length e then
        (if hl_data (e ! pos) = r then Some (Some (gpos, pos))
         else (case hl_next (e ! pos) of
               None \<Rightarrow> Some None
             | Some p \<Rightarrow> find_link e r (Some pos) p))
      else None)"
  by (simp add: find_link.simps [of e r gpos pos] link_at_def)

end
