(* ===== verification/LinkChains.thy ===== *)
theory LinkChains
  imports LinkTable
begin

text \<open>
  What a table of linked records means: paths through the links, the buckets as chains, and
  the three moves every operation is made of (start a chain, put a cell second in a chain,
  relocate a cell that is not the head of its chain).
\<close>

subsection \<open>Paths\<close>

abbreviation dat :: "'r hlink list \<Rightarrow> nat \<Rightarrow> 'r" where "dat e i \<equiv> hl_data (e ! i)"
abbreviation nxt :: "'r hlink list \<Rightarrow> nat \<Rightarrow> nat option" where "nxt e i \<equiv> hl_next (e ! i)"

primrec path :: "'r hlink list \<Rightarrow> nat option \<Rightarrow> nat list \<Rightarrow> nat option \<Rightarrow> bool" where
  "path e i [] q \<longleftrightarrow> i = q"
| "path e i (x # xs) q \<longleftrightarrow> i = Some x \<and> x < length e \<and> path e (nxt e x) xs q"

lemma path_append: "path e i (xs @ ys) q \<longleftrightarrow> (\<exists>m. path e i xs m \<and> path e m ys q)"
  by (induction xs arbitrary: i) auto

lemma path_snoc: "path e i (xs @ [x]) q \<longleftrightarrow> path e i xs (Some x) \<and> x < length e \<and> nxt e x = q"
  by (auto simp: path_append)

lemma path_cong:
  "length e' = length e \<Longrightarrow> (\<And>x. x \<in> set xs \<Longrightarrow> e' ! x = e ! x) \<Longrightarrow> path e' i xs q = path e i xs q"
  by (induction xs arbitrary: i) auto

lemma path_update [simp]: "k \<notin> set xs \<Longrightarrow> path (e[k := v]) i xs q = path e i xs q"
  by (rule path_cong) (auto, metis nth_list_update_neq)

lemma path_less: "path e i xs q \<Longrightarrow> x \<in> set xs \<Longrightarrow> x < length e"
  by (induction xs arbitrary: i) auto

lemma path_hd: "path e i (x # xs) q \<Longrightarrow> i = Some x"
  by simp

text \<open>\<open>movelink\<close> changes the link of the last cell of a segment that leads to \<open>fnd\<close>.\<close>

lemma movelink_path:
  assumes "path e (Some g) (us @ [u]) fnd" "fnd \<notin> Some ` set (us @ [u])"
  shows "movelink e fnd g new = Some (e[u := (e ! u)\<lparr>hl_next := new\<rparr>])"
  using assms
proof (induction us arbitrary: g)
  case Nil
  then show ?case by (simp add: movelink_eval)
next
  case (Cons x us)
  then have x: "g = x" "x < length e" "path e (nxt e x) (us @ [u]) fnd" by auto
  obtain y where y: "nxt e x = Some y" "y \<in> set (us @ [u])"
    using x(3) by (cases us) auto
  with Cons.prems have "nxt e x \<noteq> fnd" by auto
  with Cons.IH [of y] Cons.prems x y show ?case by (simp add: movelink_eval [of e fnd x])
qed

subsection \<open>Chains\<close>

text \<open>
  \<open>chains A e m ch\<close>: the occupied cells are \<open>A\<close>; \<open>m\<close> gives a record its bucket; \<open>ch h\<close> is
  the chain of bucket \<open>h\<close>, which holds exactly the cells whose records belong there and
  starts in cell \<open>h\<close>.
\<close>

definition chains :: "nat set \<Rightarrow> 'r hlink list \<Rightarrow> ('r \<Rightarrow> nat) \<Rightarrow> (nat \<Rightarrow> nat list) \<Rightarrow> bool" where
  "chains A e m ch \<longleftrightarrow>
     (\<forall>h. distinct (ch h) \<and> set (ch h) = {j \<in> A. m (dat e j) = h} \<and>
        (ch h \<noteq> [] \<longrightarrow> hd (ch h) = h \<and> path e (Some h) (ch h) None))"

definition recs :: "nat set \<Rightarrow> 'r hlink list \<Rightarrow> 'r multiset" where
  "recs A e = image_mset (dat e) (mset_set A)"

lemma chainsI:
  assumes "\<And>h. distinct (ch h)" "\<And>h. set (ch h) = {j \<in> A. m (dat e j) = h}"
    "\<And>h. ch h \<noteq> [] \<Longrightarrow> hd (ch h) = h" "\<And>h. ch h \<noteq> [] \<Longrightarrow> path e (Some h) (ch h) None"
  shows "chains A e m ch"
  using assms by (simp add: chains_def)

lemma chainsD:
  assumes "chains A e m ch"
  shows "distinct (ch h)" "set (ch h) = {j \<in> A. m (dat e j) = h}"
    "ch h \<noteq> [] \<Longrightarrow> hd (ch h) = h" "ch h \<noteq> [] \<Longrightarrow> path e (Some h) (ch h) None"
  using assms by (simp_all add: chains_def)

lemma chain_mem: "chains A e m ch \<Longrightarrow> j \<in> set (ch h) \<longleftrightarrow> j \<in> A \<and> m (dat e j) = h"
  by (simp add: chainsD(2))

lemma chain_bound: "chains A e m ch \<Longrightarrow> j \<in> A \<Longrightarrow> j < length e"
proof -
  assume c: "chains A e m ch" and j: "j \<in> A"
  then have "j \<in> set (ch (m (dat e j)))" by (simp add: chain_mem)
  moreover from this have "ch (m (dat e j)) \<noteq> []" by auto
  ultimately show "j < length e" using chainsD(4) [OF c] path_less by blast
qed

lemma chain_head:
  assumes c: "chains A e m ch" and j: "j \<in> A" "m (dat e j) = h"
  shows "h \<in> A" "m (dat e h) = h" "ch h = h # tl (ch h)"
proof -
  have ne: "ch h \<noteq> []" using chain_mem [OF c, of j h] j by auto
  then show t: "ch h = h # tl (ch h)" using chainsD(3) [OF c ne] by (cases "ch h") auto
  have "h \<in> set (ch h)" by (subst t) simp
  then show "h \<in> A" "m (dat e h) = h" by (simp_all add: chain_mem [OF c])
qed

lemma chain_empty: "chains A e m ch \<Longrightarrow> h \<notin> A \<or> m (dat e h) \<noteq> h \<Longrightarrow> ch h = []"
proof (rule ccontr)
  assume c: "chains A e m ch" and h: "h \<notin> A \<or> m (dat e h) \<noteq> h" and ne: "ch h \<noteq> []"
  from chainsD(3) [OF c ne] ne have "h \<in> set (ch h)" by (metis hd_in_set)
  with h show False by (simp add: chain_mem [OF c])
qed

lemma chain_disjoint: "chains A e m ch \<Longrightarrow> x \<in> set (ch h) \<Longrightarrow> x \<in> set (ch g) \<Longrightarrow> g = h"
  by (simp add: chain_mem)

text \<open>Another bucket function that agrees on the records in the table.\<close>

lemma chains_mask:
  assumes "chains A e m ch" "\<And>j. j \<in> A \<Longrightarrow> m' (dat e j) = m (dat e j)"
  shows "chains A e m' ch"
proof -
  have "{j \<in> A. m' (dat e j) = h} = {j \<in> A. m (dat e j) = h}" for h
    using assms(2) by auto
  with assms(1) show ?thesis by (simp add: chains_def)
qed

lemma recs_insert: "finite A \<Longrightarrow> i \<notin> A \<Longrightarrow> recs (insert i A) e = add_mset (dat e i) (recs A e)"
  by (simp add: recs_def)

lemma recs_cong: "(\<And>j. j \<in> A \<Longrightarrow> dat e' j = dat e j) \<Longrightarrow> recs A e' = recs A e"
  unfolding recs_def by (rule image_mset_cong) (metis elem_mset_set mset_set.infinite empty_iff set_mset_empty)

lemma recs_remove: "finite A \<Longrightarrow> i \<in> A \<Longrightarrow> recs A e = add_mset (dat e i) (recs (A - {i}) e)"
  by (simp add: recs_def mset_set.remove)

lemma recs_Un: "finite A \<Longrightarrow> finite B \<Longrightarrow> A \<inter> B = {} \<Longrightarrow> recs (A \<union> B) e = recs A e + recs B e"
  by (simp add: recs_def mset_set_Union)

lemma recs_list: "distinct xs \<Longrightarrow> recs (set xs) e = mset (map (dat e) xs)"
  by (simp add: recs_def mset_set_set)

subsection \<open>Start a chain\<close>

lemma chains_start:
  assumes c: "chains A e m ch" and h: "h \<notin> A" "h < length e" "m r = h"
  shows "chains (insert h A) (put_link e h r None) m (ch(h := [h]))"
proof -
  have e: "ch h = []" using c h(1) by (simp add: chain_empty)
  have nin: "h \<notin> set (ch g)" for g using h(1) by (simp add: chain_mem [OF c])
  have noh: "m (dat e j) \<noteq> h" if "j \<in> A" for j
    using chain_mem [OF c, of j h] that e by auto
  show ?thesis
  proof (rule chainsI)
    fix g
    show "distinct ((ch(h := [h])) g)" by (simp add: chainsD(1) [OF c])
    show "set ((ch(h := [h])) g) = {j \<in> insert h A. m (dat (put_link e h r None) j) = g}"
    proof (cases "g = h")
      case True
      then show ?thesis using h noh by (auto simp: put_link_def nth_list_update)
    next
      case False
      then show ?thesis using h nin by (auto simp: put_link_def nth_list_update chain_mem [OF c])
    qed
    show "(ch(h := [h])) g \<noteq> [] \<Longrightarrow> hd ((ch(h := [h])) g) = g"
      by (auto simp: chainsD(3) [OF c])
    show "(ch(h := [h])) g \<noteq> [] \<Longrightarrow> path (put_link e h r None) (Some g) ((ch(h := [h])) g) None"
      using h nin by (auto simp: put_link_def chainsD(4) [OF c])
  qed
qed

subsection \<open>Put a cell second in a chain\<close>

text \<open>The head \<open>h\<close> moves to the free cell \<open>p\<close> and the record \<open>r\<close> takes its place.\<close>

lemma chains_push:
  assumes c: "chains A e m ch" and p: "p \<notin> A" "p < length e"
    and h: "h \<in> A" "m (dat e h) = h" and r: "m r = h"
  shows "chains (insert p A) (put_link (e[p := e ! h]) h r (Some p)) m (ch(h := h # p # tl (ch h)))"
proof -
  let ?e = "put_link (e[p := e ! h]) h r (Some p)"
  have hp: "h \<noteq> p" using p h by auto
  have hl: "h < length e" using chain_bound [OF c h(1)] .
  have hc: "ch h = h # tl (ch h)" by (rule chain_head [OF c h(1,2)])
  have nin: "p \<notin> set (ch g)" for g using p by (simp add: chain_mem [OF c])
  have hin: "h \<in> set (ch g) \<longleftrightarrow> g = h" for g using h by (auto simp: chain_mem [OF c])
  have "distinct (h # tl (ch h))" using chainsD(1) [OF c, of h] hc by simp
  then have d: "h \<notin> set (tl (ch h))" "distinct (tl (ch h))" "p \<notin> set (tl (ch h))"
    using nin [of h] by (simp, simp, metis hc list.set_intros(2))
  have "path e (Some h) (h # tl (ch h)) None"
    using chainsD(4) [OF c, of h] hc by (metis list.distinct(1))
  then have tlp: "path e (nxt e h) (tl (ch h)) None" by simp
  have dt: "dat ?e j = (if j = h then r else if j = p then dat e h else dat e j)" if "j < length e" for j
    using that hl p hp by (auto simp: put_link_def nth_list_update)
  show ?thesis
  proof (rule chainsI)
    fix g
    show "distinct ((ch(h := h # p # tl (ch h))) g)"
      using d hp by (simp add: chainsD(1) [OF c])
    show "set ((ch(h := h # p # tl (ch h))) g) = {j \<in> insert p A. m (dat ?e j) = g}" (is "?l = ?r")
    proof -
      have "j \<in> ?l \<longleftrightarrow> j \<in> insert p A \<and> m (dat ?e j) = g" for j
      proof (cases "j < length e")
        case True
        have "j \<in> set (h # tl (ch h)) \<longleftrightarrow> j \<in> A \<and> m (dat e j) = h"
          using chain_mem [OF c, of j h] hc by simp
        then show ?thesis using True dt [OF True] h r p nin
          by (auto simp: chain_mem [OF c] simp del: fun_upd_apply)
             (auto simp: chain_mem [OF c] split: if_splits)
      next
        case False
        then have j: "j \<notin> A" "j \<noteq> p" "j \<noteq> h" using p chain_bound [OF c, of j] hl by auto
        have "j \<notin> set (h # tl (ch h))" using chain_mem [OF c, of j h] hc j by simp
        then show ?thesis using j by (auto simp: chain_mem [OF c])
      qed
      then show ?thesis by blast
    qed
    show "(ch(h := h # p # tl (ch h))) g \<noteq> [] \<Longrightarrow> hd ((ch(h := h # p # tl (ch h))) g) = g"
      by (auto simp: chainsD(3) [OF c])
    show "path ?e (Some g) ((ch(h := h # p # tl (ch h))) g) None" if "(ch(h := h # p # tl (ch h))) g \<noteq> []"
      using that hl p hp d tlp nin hin by (auto simp: put_link_def chainsD(4) [OF c])
  qed
qed

subsection \<open>Relocate a cell\<close>

text \<open>
  The cell \<open>i\<close>, not the head of its chain, moves to the free cell \<open>p\<close>; \<open>movelink\<close> finds the
  link that leads to it. The cell itself may already have been overwritten, with \<open>v\<close>.
\<close>

lemma chains_relocate:
  assumes c: "chains A e m ch" and p: "p \<notin> A" "p < length e"
    and i: "i \<in> A" "m (dat e i) = g" "g \<noteq> i"
  shows "\<exists>e'. movelink (e[p := e ! i, i := v]) (Some i) g (Some p) = Some e' \<and>
     length e' = length e \<and> e' ! i = v \<and>
     (\<forall>j. j \<noteq> i \<longrightarrow> dat e' j = (if j = p then dat e i else dat e j)) \<and>
     chains (insert p (A - {i})) e' m (ch(g := map (\<lambda>x. if x = i then p else x) (ch g)))"
proof -
  have ip: "i \<noteq> p" using i p by auto
  have il: "i < length e" using chain_bound [OF c i(1)] .
  note hd = chain_head [OF c i(1,2)]
  have "i \<in> set (ch g)" using i by (simp add: chain_mem [OF c])
  then obtain us0 ws where us0: "ch g = us0 @ i # ws" by (meson split_list)
  have "us0 \<noteq> []" using us0 hd(3) i(3) by (cases us0) auto
  then obtain us u where us: "ch g = us @ u # i # ws"
    using us0 by (cases us0 rule: rev_cases) auto
  have dist: "distinct (us @ u # i # ws)" using chainsD(1) [OF c, of g] us by simp
  have nin: "p \<notin> set (ch h)" for h using p by (simp add: chain_mem [OF c])
  have pn: "p \<notin> set (us @ u # i # ws)" using nin [of g] us by simp
  let ?e1 = "e[p := e ! i, i := v]"
  let ?e2 = "?e1[u := (?e1 ! u)\<lparr>hl_next := Some p\<rparr>]"
  let ?f = "\<lambda>x. if x = i then p else x"
  let ?ch = "ch(g := map ?f (ch g))"
  have pg: "path e (Some g) (us @ u # i # ws) None"
    using chainsD(4) [OF c, of g] us by simp
  then have seg: "path e (Some g) (us @ [u]) (Some i)" by (auto simp: path_append)
  then have seg1: "path ?e1 (Some g) (us @ [u]) (Some i)"
    using dist pn by simp
  have mv: "movelink ?e1 (Some i) g (Some p) = Some ?e2"
    by (rule movelink_path [OF seg1]) (use dist in auto)
  have ul: "u < length e" using path_less [OF pg, of u] by simp
  have "u \<in> set (ch g)" by (simp add: us)
  then have uA: "u \<in> A" "m (dat e u) = g" by (simp_all add: chain_mem [OF c])
  have up: "u \<noteq> p" "u \<noteq> i" using pn dist by auto
  have u1: "?e1 ! u = e ! u" using up by simp
  have d2: "dat ?e2 j = (if j = i then hl_data v else if j = p then dat e i else dat e j)" if "j < length e" for j
    using that up ip il p by (cases "j = u") (auto simp: nth_list_update)
  have tail: "path e (nxt e i) ws None" using pg by (auto simp: path_append)
  have "path ?e2 (Some g) (us @ u # p # ws) None"
  proof -
    have "path e (Some g) us (Some u)" using pg by (auto simp: path_append)
    then have "path ?e2 (Some g) us (Some u)" using dist pn by simp
    moreover have "path ?e2 (nxt e i) ws None" using tail dist pn by simp
    ultimately show ?thesis
      using up ip il p ul by (auto simp: path_append nth_list_update)
  qed
  moreover have "map ?f (ch g) = us @ u # p # ws"
    using dist by (auto simp: us intro!: map_idI)
  ultimately have pg2: "path ?e2 (Some g) (?ch g) None" by simp
  have "chains (insert p (A - {i})) ?e2 m ?ch"
  proof (rule chainsI)
    fix h
    show "distinct (?ch h)"
      using nin [of g] chainsD(1) [OF c] by (auto simp: distinct_map inj_on_def)
    show "set (?ch h) = {j \<in> insert p (A - {i}). m (dat ?e2 j) = h}"
    proof -
      have "j \<in> set (?ch h) \<longleftrightarrow> j \<in> insert p (A - {i}) \<and> m (dat ?e2 j) = h" for j
      proof (cases "j < length e")
        case True
        have "j \<in> set (map ?f (ch g)) \<longleftrightarrow> (j = p \<or> j \<in> set (ch g) \<and> j \<noteq> i)"
          using i by (auto simp: chain_mem [OF c])
        then show ?thesis using d2 [OF True] i p ip by (auto simp: chain_mem [OF c])
      next
        case False
        then have "j \<notin> A" "j \<noteq> p" using p chain_bound [OF c, of j] by auto
        then show ?thesis by (auto simp: chain_mem [OF c])
      qed
      then show ?thesis by blast
    qed
    show "hd (?ch h) = h" if "?ch h \<noteq> []"
      using that chainsD(3) [OF c, of h] i hd(3) by (cases "ch g") auto
    show "path ?e2 (Some h) (?ch h) None" if ne: "?ch h \<noteq> []"
    proof (cases "h = g")
      case True
      with pg2 show ?thesis by simp
    next
      case False
      then have "u \<notin> set (ch h)" "i \<notin> set (ch h)" using uA i by (auto simp: chain_mem [OF c])
      with False nin ne show ?thesis by (simp add: chainsD(4) [OF c])
    qed
  qed
  moreover have "\<forall>j. j \<noteq> i \<longrightarrow> dat ?e2 j = (if j = p then dat e i else dat e j)"
  proof (intro allI impI)
    fix j assume "j \<noteq> i"
    then show "dat ?e2 j = (if j = p then dat e i else dat e j)"
      using d2 [of j] p ul by (cases "j < length e") auto
  qed
  moreover have "?e2 ! i = v" using up il by simp
  ultimately show ?thesis using mv by auto
qed

end
