(* ===== verification/LinkSplit.thy ===== *)
theory LinkSplit
  imports LinkChains
begin

text \<open>
  The loop that splits a bucket when the table grows by one cell, and the invariant it
  keeps: the cells of the records that stay and of those that move are two segments, each
  complete but for its last cell, whose record may still have to be written.
\<close>

subsection \<open>Segments under construction\<close>

definition seg :: "'r hlink list \<Rightarrow> nat list \<Rightarrow> 'r list \<Rightarrow> nat \<Rightarrow> 'r \<Rightarrow> bool \<Rightarrow> nat option \<Rightarrow> bool" where
  "seg e l d g r used nx \<longleftrightarrow>
     map (dat e) l = d \<and> path e (Some (hd (l @ [g]))) l (Some g) \<and> g < length e \<and>
     (used \<longrightarrow> dat e g = r \<and> nxt e g = nx)"

lemma seg_cong:
  assumes "seg e l d g r used nx" "length e' = length e" "\<forall>j \<in> set (l @ [g]). e' ! j = e ! j" "used' \<longrightarrow> used"
  shows "seg e' l d g r used' nx"
proof -
  have "path e' (Some (hd (l @ [g]))) l (Some g) = path e (Some (hd (l @ [g]))) l (Some g)"
    using assms by (intro path_cong) auto
  with assms show ?thesis by (auto simp: seg_def)
qed

lemma hd_snoc_snoc: "hd (l @ [g] @ [q]) = hd (l @ [g])"
  by (cases l) auto

lemma seg_extend:
  assumes "seg e l d g r True (Some q)" "q < length e"
  shows "seg e (l @ [g]) (d @ [r]) q (dat e q) True (nxt e q)"
  using assms hd_snoc_snoc [of l g q] by (auto simp: seg_def path_snoc)

lemma seg_put:
  assumes s: "seg e l d g r used nx" and d: "g \<notin> set l"
  shows "seg (put_link e g r nx') l d g r True nx'"
proof -
  have "map (dat (put_link e g r nx')) l = map (dat e) l"
    using d by (auto simp: put_link_def intro!: arg_cong [where f = hl_data] nth_list_update_neq)
  with s d show ?thesis by (simp add: seg_def put_link_def)
qed

lemma seg_done:
  assumes "seg e l d g r True None"
  shows "path e (Some (hd (l @ [g]))) (l @ [g]) None" "map (dat e) (l @ [g]) = d @ [r]"
  using assms by (auto simp: seg_def path_snoc)

subsection \<open>Where the records of a bucket end up\<close>

definition lowpos :: "(nat \<Rightarrow> bool) \<Rightarrow> nat \<Rightarrow> nat list \<Rightarrow> nat list" where
  "lowpos hi f ps = (case filter (\<lambda>j. \<not> hi j) ps of [] \<Rightarrow> [] | _ # t \<Rightarrow> f # t)"

definition highpos :: "(nat \<Rightarrow> bool) \<Rightarrow> nat \<Rightarrow> nat list \<Rightarrow> nat list" where
  "highpos hi n ps = (case filter hi ps of [] \<Rightarrow> [] | _ # t \<Rightarrow> n # t)"

definition freepos :: "(nat \<Rightarrow> bool) \<Rightarrow> nat \<Rightarrow> nat \<Rightarrow> nat list \<Rightarrow> nat" where
  "freepos hi f n ps =
     (if filter hi ps = [] then n
      else if filter (\<lambda>j. \<not> hi j) ps = [] then f
      else if hi (hd ps) then hd (filter (\<lambda>j. \<not> hi j) ps) else hd (filter hi ps))"

lemma lowpos_snoc:
  "lowpos hi f (ps @ [q]) =
     (if hi q then lowpos hi f ps
      else if filter (\<lambda>j. \<not> hi j) ps = [] then [f] else lowpos hi f ps @ [q])"
  by (auto simp: lowpos_def split: list.splits)

lemma highpos_snoc:
  "highpos hi n (ps @ [q]) =
     (if \<not> hi q then highpos hi n ps
      else if filter hi ps = [] then [n] else highpos hi n ps @ [q])"
  by (auto simp: highpos_def split: list.splits)

lemma set_lowpos: "set (lowpos hi f ps) \<subseteq> insert f (set ps)"
  by (cases "filter (\<lambda>j. \<not> hi j) ps") (auto simp: lowpos_def dest: filter_eq_ConsD)

lemma set_highpos: "set (highpos hi n ps) \<subseteq> insert n (set ps)"
  by (cases "filter hi ps") (auto simp: highpos_def dest: filter_eq_ConsD)

text \<open>With the bucket's head first, in cell \<open>f\<close>, and cell \<open>n\<close> outside it, the two do not meet.\<close>

lemma filter_tl_subset: "filter P ps = x # t \<Longrightarrow> j \<in> set t \<Longrightarrow> j \<in> set ps \<and> P j"
proof -
  assume "filter P ps = x # t" "j \<in> set t"
  then have "j \<in> set (filter P ps)" by simp
  then show ?thesis by simp
qed

lemma filter_tl_hd:
  assumes "distinct ps" "filter P ps = x # t" "ps \<noteq> []"
  shows "hd ps \<notin> set t"
proof
  assume "hd ps \<in> set t"
  with assms(2) have "P (hd ps)" by (auto dest: filter_tl_subset)
  with assms(2,3) have "x = hd ps" by (cases ps) auto
  with assms(1,2) \<open>hd ps \<in> set t\<close> show False by (metis distinct.simps(2) distinct_filter)
qed

lemma lowpos_highpos:
  assumes "distinct ps" "n \<notin> set ps" "ps \<noteq> [] \<longrightarrow> hd ps = f" "f \<noteq> n"
  shows "set (lowpos hi f ps) \<inter> set (highpos hi n ps) = {}" "distinct (lowpos hi f ps)"
    "distinct (highpos hi n ps)" "n \<notin> set (lowpos hi f ps)" "f \<notin> set (highpos hi n ps)"
proof -
  have h: "f \<notin> set t" if "filter P ps = x # t" for P x t
  proof -
    have "ps \<noteq> []" using that by auto
    with filter_tl_hd [OF assms(1) that] assms(3) show ?thesis by simp
  qed
  have d: "distinct t" if "filter P ps = x # t" for P x t
    using that assms(1) by (metis distinct.simps(2) distinct_filter)
  show "n \<notin> set (lowpos hi f ps)" using set_lowpos [of hi f ps] assms by auto
  show "f \<notin> set (highpos hi n ps)"
    using h [of hi] assms(4) by (cases "filter hi ps") (auto simp: highpos_def)
  show "distinct (lowpos hi f ps)"
    using h [of "\<lambda>j. \<not> hi j"] d [of "\<lambda>j. \<not> hi j"]
    by (cases "filter (\<lambda>j. \<not> hi j) ps") (auto simp: lowpos_def)
  show "distinct (highpos hi n ps)"
    using d [of hi] assms(2)
    by (cases "filter hi ps") (auto simp: highpos_def dest: filter_tl_subset)
  show "set (lowpos hi f ps) \<inter> set (highpos hi n ps) = {}"
    using h [of hi] assms(2,4)
    by (cases "filter hi ps"; cases "filter (\<lambda>j. \<not> hi j) ps")
       (auto simp: highpos_def lowpos_def dest: filter_tl_subset)
qed

subsection \<open>The invariant of the loop\<close>

definition half_inv ::
  "'r hlink list \<Rightarrow> 'r hlink list \<Rightarrow> nat list \<Rightarrow> nat list \<Rightarrow> nat \<Rightarrow> 'r \<Rightarrow> bool \<Rightarrow> nat option \<Rightarrow> bool" where
  "half_inv e es final js g r used nx \<longleftrightarrow>
     (\<exists>l d. final = l @ [g] \<and> map (dat e) js = d @ [r] \<and> seg es l d g r used nx)"

definition split_inv ::
  "'r hlink list \<Rightarrow> nat \<Rightarrow> nat \<Rightarrow> (nat \<Rightarrow> bool) \<Rightarrow> nat list \<Rightarrow> nat option \<Rightarrow> 'r split \<Rightarrow> bool" where
  "split_inv e f n hi ps nx s \<longleftrightarrow>
     length (sp_links s) = length e \<and>
     (lowfind s \<longleftrightarrow> filter (\<lambda>j. \<not> hi j) ps \<noteq> []) \<and> (highfind s \<longleftrightarrow> filter hi ps \<noteq> []) \<and>
     (lowfind s \<longrightarrow> half_inv e (sp_links s) (lowpos hi f ps) (filter (\<lambda>j. \<not> hi j) ps)
        (sp_gpos s) (sp_rec s) (lowused s) nx) \<and>
     (highfind s \<longrightarrow> half_inv e (sp_links s) (highpos hi n ps) (filter hi ps)
        (sp_gpos2 s) (sp_rec2 s) (highused s) nx) \<and>
     (\<forall>j. j \<notin> set (lowpos hi f ps) \<union> set (highpos hi n ps) \<longrightarrow> sp_links s ! j = e ! j) \<and>
     sp_empty s = freepos hi f n ps \<and> \<not> (lowused s \<and> highused s) \<and>
     (lowused s \<longrightarrow> lowfind s) \<and> (highused s \<longrightarrow> highfind s)"

lemma half_frame:
  assumes "half_inv e es final js g r used nx" "length es' = length es"
    "\<forall>j \<in> set final. es' ! j = es ! j" "used' \<longrightarrow> used \<and> nx' = nx"
  shows "half_inv e es' final js g r used' nx'"
proof -
  obtain l d where l: "final = l @ [g]" "map (dat e) js = d @ [r]" "seg es l d g r used nx"
    using assms(1) by (auto simp: half_inv_def)
  have "seg es' l d g r used' nx"
    by (rule seg_cong [OF l(3) assms(2)]) (use assms l in auto)
  then have "seg es' l d g r used' nx'" using assms(4) by (auto simp: seg_def)
  with l show ?thesis by (auto simp: half_inv_def)
qed

text \<open>A record that follows another of its half: with the link already there, or written now.\<close>

lemma half_next:
  assumes h: "half_inv e es final js g r True (Some q)" and q: "q < length es" "es ! q = e ! q"
  shows "half_inv e es (final @ [q]) (js @ [q]) q (dat e q) True (nxt e q)"
proof -
  obtain l d where l: "final = l @ [g]" "map (dat e) js = d @ [r]" "seg es l d g r True (Some q)"
    using h by (auto simp: half_inv_def)
  from seg_extend [OF l(3) q(1)] l q(2) show ?thesis by (auto simp: half_inv_def)
qed

lemma half_put:
  assumes h: "half_inv e es final js g r used nx" and d: "distinct final"
  shows "half_inv e (put_link es g r nx') final js g r True nx'"
proof -
  obtain l ds where l: "final = l @ [g]" "map (dat e) js = ds @ [r]" "seg es l ds g r used nx"
    using h by (auto simp: half_inv_def)
  with seg_put [OF l(3)] d show ?thesis by (auto simp: half_inv_def)
qed

lemma half_last: "half_inv e es final js g r used nx \<Longrightarrow> g \<in> set final \<and> g < length es"
  by (auto simp: half_inv_def seg_def)

lemma half_start:
  assumes "p < length es" "used \<longrightarrow> es ! p = e ! q \<and> nx = nxt e q"
  shows "half_inv e es [p] [q] p (dat e q) used nx"
  using assms by (auto simp: half_inv_def seg_def)


subsection \<open>One step\<close>

lemma freepos_cases:
  assumes "ps \<noteq> [] \<longrightarrow> hd ps = f" "ps = [] \<longrightarrow> q = f"
  shows "\<not> hi q \<Longrightarrow> filter (\<lambda>j. \<not> hi j) ps = [] \<Longrightarrow> filter hi ps \<noteq> [] \<Longrightarrow>
      freepos hi f n ps = f \<and> freepos hi f n (ps @ [q]) = q"
    and "\<not> hi q \<Longrightarrow> filter (\<lambda>j. \<not> hi j) ps \<noteq> [] \<or> filter hi ps = [] \<Longrightarrow>
      freepos hi f n (ps @ [q]) = freepos hi f n ps"
    and "hi q \<Longrightarrow> filter hi ps = [] \<Longrightarrow> freepos hi f n ps = n \<and> freepos hi f n (ps @ [q]) = q"
    and "hi q \<Longrightarrow> filter hi ps \<noteq> [] \<Longrightarrow> freepos hi f n (ps @ [q]) = freepos hi f n ps"
  using assms by (cases ps; auto simp: freepos_def split: if_splits)+

lemma split_step_low:
  assumes inv: "split_inv e f n hi ps (Some q) s" and low: "\<not> hi q"
    and q: "q < length e" "q \<notin> set ps" "q \<noteq> n" and d: "distinct ps" "n \<notin> set ps" "f \<noteq> n"
    and hd: "ps \<noteq> [] \<longrightarrow> hd ps = f" "ps = [] \<longrightarrow> q = f" and fl: "f < length e"
  shows "split_inv e f n hi (ps @ [q]) (nxt e q) (split_step False q (dat e q) s)"
proof -
  let ?lo = "lowpos hi f ps" and ?hp = "highpos hi n ps" and ?es = "sp_links s"
  note ff = freepos_cases [OF hd, of hi n]
  note pos = lowpos_highpos [OF d(1,2) hd(1) d(3), of hi]
  have len: "length ?es = length e" using inv by (simp add: split_inv_def)
  have frame: "\<And>j. j \<notin> set ?lo \<union> set ?hp \<Longrightarrow> ?es ! j = e ! j" using inv by (simp add: split_inv_def)
  have qn: "q \<notin> set ?hp" using set_highpos [of hi n ps] q by auto
  show ?thesis
  proof (cases "lowfind s")
    case False
    then have lo: "filter (\<lambda>j. \<not> hi j) ps = []" "?lo = []" using inv by (auto simp: split_inv_def lowpos_def)
    show ?thesis
    proof (cases "highfind s")
      case True
      then have hi: "filter hi ps \<noteq> []"
        and hh: "half_inv e ?es ?hp (filter hi ps) (sp_gpos2 s) (sp_rec2 s) (highused s) (Some q)"
        and em: "sp_empty s = freepos hi f n ps"
        using inv by (auto simp: split_inv_def)
      have h': "half_inv e ?es ?hp (filter hi ps) (sp_gpos2 s) (sp_rec2 s) False (nxt e q)"
        by (rule half_frame [OF hh]) auto
      have "half_inv e ?es [f] [q] f (dat e q) False (nxt e q)"
        by (rule half_start) (use fl len in auto)
      with h' show ?thesis
        using False True low lo hi em ff(1) [OF low lo(1) hi] len frame
        by (simp add: split_inv_def split_step_def lowpos_snoc highpos_snoc)
    next
      case nohi: False
      then have hi: "filter hi ps = []" "?hp = []" using inv by (auto simp: split_inv_def highpos_def)
      with lo have "ps = []" by (cases ps) (auto split: if_splits)
      with hd have qf: "q = f" by simp
      have "?es ! f = e ! f" using frame lo hi by simp
      then have "half_inv e ?es [f] [q] f (dat e q) True (nxt e q)"
        using qf fl len by (intro half_start) auto
      then show ?thesis
        using False nohi low lo hi len frame inv ff(2) [OF low] qf
        by (simp add: split_inv_def split_step_def lowpos_snoc highpos_snoc)
    qed
  next
    case True
    then have lo: "filter (\<lambda>j. \<not> hi j) ps \<noteq> []"
      and hl: "half_inv e ?es ?lo (filter (\<lambda>j. \<not> hi j) ps) (sp_gpos s) (sp_rec s) (lowused s) (Some q)"
      using inv by (auto simp: split_inv_def)
    have qlo: "q \<notin> set ?lo"
    proof
      assume "q \<in> set ?lo"
      with set_lowpos [of hi f ps] q(2) have "q = f" by auto
      with q(2) hd lo show False by (metis filter.simps(1) hd_in_set)
    qed
    have eq: "?es ! q = e ! q" using frame qlo qn by simp
    note lh = half_last [OF hl]
    have ghp: "sp_gpos s \<notin> set ?hp" using lh pos(1) by auto
    show ?thesis
    proof (cases "lowused s")
      case used: True
      with inv have nh: "\<not> highused s" by (simp add: split_inv_def)
      have hl': "half_inv e ?es (?lo @ [q]) (filter (\<lambda>j. \<not> hi j) ps @ [q]) q (dat e q) True (nxt e q)"
        by (rule half_next) (use hl used q len eq in auto)
      have hh: "highfind s \<longrightarrow> half_inv e ?es ?hp (filter hi ps) (sp_gpos2 s) (sp_rec2 s) False (nxt e q)"
        using inv by (auto simp: split_inv_def nh intro: half_frame)
      show ?thesis
        using hl' hh True used nh low lo len frame inv ff(2) [OF low]
        by (simp add: split_inv_def split_step_def lowpos_snoc highpos_snoc)
    next
      case pend: False
      let ?es' = "put_link ?es (sp_gpos s) (sp_rec s) (Some q)"
      have len': "length ?es' = length e" by (simp add: put_link_def len)
      have off: "\<And>j. j \<noteq> sp_gpos s \<Longrightarrow> ?es' ! j = ?es ! j" by (simp add: put_link_def)
      have qg: "q \<noteq> sp_gpos s" using lh qlo by auto
      have hp: "half_inv e ?es' ?lo (filter (\<lambda>j. \<not> hi j) ps) (sp_gpos s) (sp_rec s) True (Some q)"
        by (rule half_put [OF hl pos(2)])
      have hl': "half_inv e ?es' (?lo @ [q]) (filter (\<lambda>j. \<not> hi j) ps @ [q]) q (dat e q) True (nxt e q)"
        by (rule half_next [OF hp]) (use q len' eq off [OF qg] in auto)
      have hh: "highfind s \<longrightarrow> half_inv e ?es' ?hp (filter hi ps) (sp_gpos2 s) (sp_rec2 s) False (nxt e q)"
      proof
        assume "highfind s"
        then have h0: "half_inv e ?es ?hp (filter hi ps) (sp_gpos2 s) (sp_rec2 s) (highused s) (Some q)"
          using inv by (simp add: split_inv_def)
        show "half_inv e ?es' ?hp (filter hi ps) (sp_gpos2 s) (sp_rec2 s) False (nxt e q)"
          by (rule half_frame [OF h0]) (use len len' ghp in \<open>auto intro!: off\<close>)
      qed
      have fr: "?es' ! j = e ! j" if "j \<notin> set (?lo @ [q]) \<union> set ?hp" for j
      proof -
        have "j \<noteq> sp_gpos s" using that lh by auto
        with off frame that show ?thesis by auto
      qed
      show ?thesis
        using hl' hh True pend low lo len' fr inv ff(2) [OF low]
        by (simp add: split_inv_def split_step_def lowpos_snoc highpos_snoc)
    qed
  qed
qed

lemma split_step_high:
  assumes inv: "split_inv e f n hi ps (Some q) s" and high: "hi q"
    and q: "q < length e" "q \<notin> set ps" "q \<noteq> n" and d: "distinct ps" "n \<notin> set ps" "f \<noteq> n"
    and hd: "ps \<noteq> [] \<longrightarrow> hd ps = f" "ps = [] \<longrightarrow> q = f" and nl: "n < length e"
  shows "split_inv e f n hi (ps @ [q]) (nxt e q) (split_step True q (dat e q) s)"
proof -
  let ?lo = "lowpos hi f ps" and ?hp = "highpos hi n ps" and ?es = "sp_links s"
  note ff = freepos_cases [OF hd, of hi n]
  note pos = lowpos_highpos [OF d(1,2) hd(1) d(3), of hi]
  have len: "length ?es = length e" using inv by (simp add: split_inv_def)
  have frame: "\<And>j. j \<notin> set ?lo \<union> set ?hp \<Longrightarrow> ?es ! j = e ! j" using inv by (simp add: split_inv_def)
  have qn: "q \<notin> set ?hp" using set_highpos [of hi n ps] q by auto
  show ?thesis
  proof (cases "highfind s")
    case False
    then have hi: "filter hi ps = []" "?hp = []" using inv by (auto simp: split_inv_def highpos_def)
    have nhu: "\<not> highused s" and em: "sp_empty s = freepos hi f n ps" using inv False by (auto simp: split_inv_def)
    have "half_inv e ?es [n] [q] n (dat e q) False (nxt e q)"
      by (rule half_start) (use nl len in auto)
    moreover have "lowfind s \<longrightarrow>
        half_inv e ?es ?lo (filter (\<lambda>j. \<not> hi j) ps) (sp_gpos s) (sp_rec s) False (nxt e q)"
      using inv by (auto simp: split_inv_def intro: half_frame)
    ultimately show ?thesis
      using False high hi em nhu ff(3) [OF high hi(1)] len frame inv
      by (simp add: split_inv_def split_step_def lowpos_snoc highpos_snoc)
  next
    case True
    then have hi: "filter hi ps \<noteq> []"
      and hl: "half_inv e ?es ?hp (filter hi ps) (sp_gpos2 s) (sp_rec2 s) (highused s) (Some q)"
      using inv by (auto simp: split_inv_def)
    have qlo: "q \<notin> set ?lo"
    proof
      assume "q \<in> set ?lo"
      with set_lowpos [of hi f ps] q(2) have "q = f" by auto
      with q(2) hd hi show False by (metis filter.simps(1) hd_in_set)
    qed
    have eq: "?es ! q = e ! q" using frame qlo qn by simp
    note lh = half_last [OF hl]
    have glo: "sp_gpos2 s \<notin> set ?lo" using lh pos(1) by auto
    show ?thesis
    proof (cases "highused s")
      case used: True
      with inv have nh: "\<not> lowused s" by (simp add: split_inv_def)
      have hl': "half_inv e ?es (?hp @ [q]) (filter hi ps @ [q]) q (dat e q) True (nxt e q)"
        by (rule half_next) (use hl used q len eq in auto)
      have hh: "lowfind s \<longrightarrow>
          half_inv e ?es ?lo (filter (\<lambda>j. \<not> hi j) ps) (sp_gpos s) (sp_rec s) False (nxt e q)"
        using inv by (auto simp: split_inv_def nh intro: half_frame)
      show ?thesis
        using hl' hh True used nh high hi len frame inv ff(4) [OF high hi]
        by (simp add: split_inv_def split_step_def lowpos_snoc highpos_snoc)
    next
      case pend: False
      let ?es' = "put_link ?es (sp_gpos2 s) (sp_rec2 s) (Some q)"
      have len': "length ?es' = length e" by (simp add: put_link_def len)
      have off: "\<And>j. j \<noteq> sp_gpos2 s \<Longrightarrow> ?es' ! j = ?es ! j" by (simp add: put_link_def)
      have qg: "q \<noteq> sp_gpos2 s" using lh qn by auto
      have hp: "half_inv e ?es' ?hp (filter hi ps) (sp_gpos2 s) (sp_rec2 s) True (Some q)"
        by (rule half_put [OF hl pos(3)])
      have hl': "half_inv e ?es' (?hp @ [q]) (filter hi ps @ [q]) q (dat e q) True (nxt e q)"
        by (rule half_next [OF hp]) (use q len' eq off [OF qg] in auto)
      have hh: "lowfind s \<longrightarrow>
          half_inv e ?es' ?lo (filter (\<lambda>j. \<not> hi j) ps) (sp_gpos s) (sp_rec s) False (nxt e q)"
      proof
        assume "lowfind s"
        then have h0: "half_inv e ?es ?lo (filter (\<lambda>j. \<not> hi j) ps) (sp_gpos s) (sp_rec s) (lowused s) (Some q)"
          using inv by (simp add: split_inv_def)
        show "half_inv e ?es' ?lo (filter (\<lambda>j. \<not> hi j) ps) (sp_gpos s) (sp_rec s) False (nxt e q)"
          by (rule half_frame [OF h0]) (use len len' glo in \<open>auto intro!: off\<close>)
      qed
      have fr: "?es' ! j = e ! j" if "j \<notin> set ?lo \<union> set (?hp @ [q])" for j
      proof -
        have "j \<noteq> sp_gpos2 s" using that lh by auto
        with off frame that show ?thesis by auto
      qed
      show ?thesis
        using hl' hh True pend high hi len' fr inv ff(4) [OF high hi]
        by (simp add: split_inv_def split_step_def lowpos_snoc highpos_snoc)
    qed
  qed
qed


subsection \<open>The loop and the whole split\<close>

lemma split_inv_current:
  assumes inv: "split_inv e f n hi ps nx s"
    and q: "q \<notin> set ps" "q \<noteq> n" and hd: "ps \<noteq> [] \<longrightarrow> hd ps = f"
  shows "sp_links s ! q = e ! q" "sp_links (split_step b q r s) ! q = e ! q"
proof -
  have nh: "q \<notin> set (highpos hi n ps)" using set_highpos [of hi n ps] q by auto
  have nl: "q \<notin> set (lowpos hi f ps)"
  proof (cases ps)
    case Nil
    then show ?thesis by (simp add: lowpos_def)
  next
    case (Cons x xs)
    with set_lowpos [of hi f ps] q hd show ?thesis by auto
  qed
  show c: "sp_links s ! q = e ! q" using inv nh nl by (simp add: split_inv_def)
  have g: "lowfind s \<Longrightarrow> q \<noteq> sp_gpos s" "highfind s \<Longrightarrow> q \<noteq> sp_gpos2 s"
    using inv nh nl by (auto simp: split_inv_def dest: half_last)
  show "sp_links (split_step b q r s) ! q = e ! q"
    using c g by (auto simp: split_step_def put_link_def Let_def)
qed

lemma split_loop_head:
  assumes f: "f \<noteq> n" "f < length e" "n < length e" and hi: "hi = (\<lambda>j. hashnr (dat e j) AND half \<noteq> 0)"
    and p: "path e (Some q) (q # qs) None" "distinct (ps @ q # qs)" "n \<notin> set (ps @ q # qs)"
      "hd (ps @ [q]) = f" and inv: "split_inv e f n hi ps (Some q) s"
  shows "split_loop hashnr half s q =
      (case qs of [] \<Rightarrow> Some (split_step (hi q) q (dat e q) s)
       | x # _ \<Rightarrow> split_loop hashnr half (split_step (hi q) q (dat e q) s) x)"
    and "split_inv e f n hi (ps @ [q]) (case qs of [] \<Rightarrow> None | x # _ \<Rightarrow> Some x) (split_step (hi q) q (dat e q) s)"
proof -
  have hd: "ps \<noteq> [] \<longrightarrow> hd ps = f" "ps = [] \<longrightarrow> q = f" using p(4) by auto
  have q: "q < length e" "q \<notin> set ps" "q \<noteq> n" "distinct ps" "n \<notin> set ps" using p by auto
  have hq: "(0 < hashnr (dat e q) AND half) = hi q" by (simp add: hi)
  have nx: "nxt e q = (case qs of [] \<Rightarrow> None | x # _ \<Rightarrow> Some x)" using p(1) by (cases qs) auto
  note cur = split_inv_current [OF inv q(2,3) hd(1)]
  have len: "length (sp_links s) = length e" using inv by (simp add: split_inv_def)
  then have len': "length (sp_links (split_step b q r s)) = length e" for b r
    by (simp add: split_step_def put_link_def Let_def)
  show "split_loop hashnr half s q =
      (case qs of [] \<Rightarrow> Some (split_step (hi q) q (dat e q) s)
       | x # _ \<Rightarrow> split_loop hashnr half (split_step (hi q) q (dat e q) s) x)"
    by (subst split_loop.simps) (simp add: link_at_def len len' q cur hq nx split: list.split)
  have "split_inv e f n hi (ps @ [q]) (nxt e q) (split_step (hi q) q (dat e q) s)"
  proof (cases "hi q")
    case True
    with split_step_high [OF inv True q(1-5) f(1) hd f(3)] show ?thesis by simp
  next
    case False
    with split_step_low [OF inv False q(1-5) f(1) hd f(2)] show ?thesis by simp
  qed
  then show "split_inv e f n hi (ps @ [q]) (case qs of [] \<Rightarrow> None | x # _ \<Rightarrow> Some x) (split_step (hi q) q (dat e q) s)"
    by (simp add: nx)
qed

lemma split_loop_correct:
  assumes "path e (Some q) (q # qs) None" "distinct (ps @ q # qs)" "n \<notin> set (ps @ q # qs)"
    "f \<noteq> n" "f < length e" "n < length e" "hd (ps @ [q]) = f" "split_inv e f n hi ps (Some q) s"
    "hi = (\<lambda>j. hashnr (dat e j) AND half \<noteq> 0)"
  shows "\<exists>s'. split_loop hashnr half s q = Some s' \<and> split_inv e f n hi (ps @ q # qs) None s'"
  using assms(1-3,7,8)
proof (induction qs arbitrary: ps q s)
  case (Nil ps q s)
  note out = split_loop_head [OF assms(4-6,9), of q "[]" ps s]
  from out Nil show ?case by simp
next
  case (Cons x qs ps q s)
  let ?s = "split_step (hi q) q (dat e q) s"
  from split_loop_head [OF assms(4-6,9), of q "x # qs" ps s] Cons.prems
  have one: "split_loop hashnr half s q = split_loop hashnr half ?s x"
    and inv: "split_inv e f n hi (ps @ [q]) (Some x) ?s" by simp_all
  have "\<exists>s'. split_loop hashnr half ?s x = Some s' \<and> split_inv e f n hi ((ps @ [q]) @ x # qs) None s'"
    using Cons.prems inv by (intro Cons.IH) (auto simp: hd_append split: if_splits)
  with one show ?case by simp
qed


subsection \<open>The buckets of a table that grows or shrinks by one cell\<close>

text \<open>
  The buffer length is the power of two above the number of records; the empty table has
  buffer length one.
\<close>

definition table_size :: "nat \<Rightarrow> nat \<Rightarrow> bool" where
  "table_size blength records \<longleftrightarrow>
     (\<exists>k. blength = 2 ^ k) \<and> blength div 2 \<le> records \<and> records < blength"

lemma hash_mask_pow:
  "hash_mask h (2 ^ Suc k) n = (if h mod 2 ^ Suc k < n then h mod 2 ^ Suc k else h mod 2 ^ k)"
proof -
  have "drop_bit 1 ((2::nat) ^ Suc k) = 2 ^ k" by (simp add: drop_bit_eq_div)
  then show ?thesis unfolding hash_mask_def by (simp only: and_mask_nat)
qed

lemma mod_pow_half:
  "(h::nat) mod 2 ^ k = (if h mod 2 ^ Suc k < 2 ^ k then h mod 2 ^ Suc k else h mod 2 ^ Suc k - 2 ^ k)"
proof -
  have "h mod 2 ^ Suc k = 2 ^ k * (h div 2 ^ k mod 2) + h mod 2 ^ k"
    using mod_mult2_eq [of h "2 ^ k" 2] by (simp add: mult.commute)
  moreover have "h mod 2 ^ k < 2 ^ k" by simp
  ultimately show ?thesis by (cases "h div 2 ^ k mod 2 = 0") auto
qed

lemma and_pow_zero: "(h::nat) AND 2 ^ k = 0 \<longleftrightarrow> h mod 2 ^ Suc k < 2 ^ k"
proof -
  have "h mod 2 ^ Suc k = 2 ^ k * (h div 2 ^ k mod 2) + h mod 2 ^ k"
    using mod_mult2_eq [of h "2 ^ k" 2] by (simp add: mult.commute)
  moreover have "h mod 2 ^ k < 2 ^ k" by simp
  moreover have "h AND 2 ^ k = 0 \<longleftrightarrow> even (h div 2 ^ k)"
    by (simp add: and_exp_eq_0_iff_not_bit bit_iff_odd)
  ultimately show ?thesis by (cases "h div 2 ^ k mod 2 = 0") auto
qed

text \<open>Growing by one cell splits the bucket \<open>n - bl div 2\<close> only.\<close>

lemma hash_mask_grow:
  assumes "table_size bl n" "n \<noteq> 0"
  shows "hash_mask h bl n = (if hash_mask h bl (n + 1) = n then n - bl div 2 else hash_mask h bl (n + 1))"
    and "hash_mask h bl n = n - bl div 2 \<Longrightarrow> hash_mask h bl (n + 1) = n \<longleftrightarrow> h AND bl div 2 \<noteq> 0"
    and "hash_mask h bl n < n" and "hash_mask h bl (n + 1) < n + 1"
proof -
  obtain k where "bl = 2 ^ k" using assms by (auto simp: table_size_def)
  moreover from this assms obtain j where "k = Suc j" by (cases k) (auto simp: table_size_def)
  ultimately have bl: "bl = 2 ^ Suc j" by simp
  then have n: "2 ^ j \<le> n" "n < 2 ^ Suc j" "bl div 2 = 2 ^ j" using assms by (auto simp: table_size_def)
  note m = hash_mask_pow [of h j n] hash_mask_pow [of h j "n + 1"] and_pow_zero [of h j]
  define X Y P where "X = h mod 2 ^ Suc j" and "Y = h mod 2 ^ j" and "P = (2::nat) ^ j"
  have x: "X < 2 * P" "Y = (if X < P then X else X - P)" "P \<le> n" "n < 2 * P"
    using mod_pow_half [of h j] n by (simp_all add: X_def Y_def P_def)
  note m = m [folded X_def Y_def P_def bl n(3)]
  show "hash_mask h bl n = (if hash_mask h bl (n + 1) = n then n - bl div 2 else hash_mask h bl (n + 1))"
    unfolding n(3) m(1,2) P_def [symmetric] using x by auto
  show "hash_mask h bl n = n - bl div 2 \<Longrightarrow> hash_mask h bl (n + 1) = n \<longleftrightarrow> h AND bl div 2 \<noteq> 0"
    unfolding n(3) P_def [symmetric] m(1-3) [unfolded n(3) P_def [symmetric]] using x by (auto split: if_splits)
  show "hash_mask h bl n < n" unfolding m(1) using x assms(2) by (auto split: if_splits)
  show "hash_mask h bl (n + 1) < n + 1" unfolding m(2) using x by (auto split: if_splits)
qed

lemma hash_mask_one: "hash_mask h 1 1 = 0"
  by (simp add: hash_mask_def)

text \<open>Doubling the buffer length of a full table changes no bucket.\<close>

lemma hash_mask_double: "hash_mask h (2 ^ Suc k) (2 ^ k) = hash_mask h (2 ^ k) (2 ^ k)"
proof (cases k)
  case 0
  then show ?thesis by (simp add: hash_mask_def drop_bit_Suc)
next
  case (Suc j)
  have "h mod 2 ^ k < 2 ^ k" by simp
  then have "h mod 2 ^ Suc k < 2 ^ k \<Longrightarrow> h mod 2 ^ Suc k = h mod 2 ^ k"
    using mod_pow_half [of h k] by simp
  then show ?thesis
    using hash_mask_pow [of h k "2 ^ k"] hash_mask_pow [of h j "2 ^ k"] Suc by auto
qed

lemma table_size_grow:
  assumes "table_size bl n"
  shows "table_size (if n + 1 = bl then bl + bl else bl) (n + 1)"
    and "hash_mask h (if n + 1 = bl then bl + bl else bl) (n + 1) = hash_mask h bl (n + 1)"
proof -
  obtain k where k: "bl = 2 ^ k" using assms by (auto simp: table_size_def)
  have k2: "bl + bl = 2 ^ Suc k" using k by simp
  show "table_size (if n + 1 = bl then bl + bl else bl) (n + 1)"
  proof (cases "n + 1 = bl")
    case True
    then have "table_size (bl + bl) (n + 1)"
      unfolding table_size_def by (intro conjI exI [of _ "Suc k"]) (use k2 True in auto)
    with True show ?thesis by simp
  next
    case False
    with assms k show ?thesis by (auto simp: table_size_def)
  qed
  show "hash_mask h (if n + 1 = bl then bl + bl else bl) (n + 1) = hash_mask h bl (n + 1)"
    unfolding k2 using hash_mask_double [of h k] k by auto
qed

text \<open>Shrinking by one cell, as the code does it, undoes growing.\<close>

lemma table_size_shrink:
  assumes "table_size bl (Suc n)"
  shows "table_size (if n < drop_bit 1 bl then drop_bit 1 bl else bl) n"
    and "bl = (if n + 1 = (if n < drop_bit 1 bl then drop_bit 1 bl else bl)
       then (if n < drop_bit 1 bl then drop_bit 1 bl else bl) + (if n < drop_bit 1 bl then drop_bit 1 bl else bl)
       else (if n < drop_bit 1 bl then drop_bit 1 bl else bl))"
proof -
  obtain k where "bl = 2 ^ k" using assms by (auto simp: table_size_def)
  moreover from this assms obtain j where "k = Suc j" by (cases k) (auto simp: table_size_def)
  ultimately have bl: "bl = 2 ^ Suc j" by simp
  have dr: "drop_bit 1 bl = 2 ^ j" by (simp add: bl drop_bit_eq_div)
  have n: "2 ^ j \<le> Suc n" "Suc n < 2 ^ Suc j" using assms by (auto simp: table_size_def bl)
  show "table_size (if n < drop_bit 1 bl then drop_bit 1 bl else bl) n"
  proof (cases "n < 2 ^ j")
    case True
    moreover have "(2::nat) ^ j div 2 \<le> n" using n by linarith
    ultimately show ?thesis unfolding dr by (auto simp: table_size_def)
  next
    case False
    then have "table_size bl n"
      using n unfolding table_size_def bl by (intro conjI exI [of _ "Suc j"]) auto
    with False show ?thesis unfolding dr by simp
  qed
  show "bl = (if n + 1 = (if n < drop_bit 1 bl then drop_bit 1 bl else bl)
       then (if n < drop_bit 1 bl then drop_bit 1 bl else bl) + (if n < drop_bit 1 bl then drop_bit 1 bl else bl)
       else (if n < drop_bit 1 bl then drop_bit 1 bl else bl))"
    unfolding dr using n by (auto simp: bl split: if_splits)
qed


subsection \<open>The split of a bucket is correct\<close>

abbreviation bucket :: "('r \<Rightarrow> nat) \<Rightarrow> nat \<Rightarrow> nat \<Rightarrow> 'r \<Rightarrow> nat" where
  "bucket hashnr bl n r \<equiv> hash_mask (hashnr r) bl n"

text \<open>The last, pending record of each half written: the two halves are complete.\<close>

definition finish :: "bool \<Rightarrow> bool \<Rightarrow> nat \<Rightarrow> 'r \<Rightarrow> 'r hlink list \<Rightarrow> 'r hlink list" where
  "finish fnd used g r e = (if fnd \<and> \<not> used then put_link e g r None else e)"

lemma half_finish:
  assumes h: "half_inv e es final js g r used None" and d: "distinct final"
  shows "path (finish True used g r es) (Some (hd final)) final None"
    "map (dat (finish True used g r es)) final = map (dat e) js"
    "\<And>j. j \<notin> set final \<Longrightarrow> finish True used g r es ! j = es ! j"
    "length (finish True used g r es) = length es"
proof -
  have "half_inv e (finish True used g r es) final js g r True None"
    using h half_put [OF h d, of None] by (cases used) (simp_all add: finish_def)
  then obtain l ds where l: "final = l @ [g]" "map (dat e) js = ds @ [r]"
    "seg (finish True used g r es) l ds g r True None" by (auto simp: half_inv_def)
  with seg_done [OF l(3)] show "path (finish True used g r es) (Some (hd final)) final None"
    "map (dat (finish True used g r es)) final = map (dat e) js" by auto
  show "finish True used g r es ! j = es ! j" if "j \<notin> set final" for j
    using that l by (auto simp: finish_def put_link_def)
  show "length (finish True used g r es) = length es" by (simp add: finish_def put_link_def)
qed

lemma split_finish:
  assumes inv: "split_inv e f n hi xs None s" and xs: "distinct xs" "n \<notin> set xs" "xs \<noteq> []" "hd xs = f" "f \<noteq> n"
  defines "e1 \<equiv> finish (lowfind s) (lowused s) (sp_gpos s) (sp_rec s) (sp_links s)"
  defines "e2 \<equiv> finish (highfind s) (highused s) (sp_gpos2 s) (sp_rec2 s) e1"
  shows "length e2 = length e"
    and "j \<notin> set (lowpos hi f xs) \<union> set (highpos hi n xs) \<Longrightarrow> e2 ! j = e ! j"
    and "lowpos hi f xs \<noteq> [] \<Longrightarrow> path e2 (Some f) (lowpos hi f xs) None"
    and "highpos hi n xs \<noteq> [] \<Longrightarrow> path e2 (Some n) (highpos hi n xs) None"
    and "map (dat e2) (lowpos hi f xs) = map (dat e) (filter (\<lambda>j. \<not> hi j) xs)"
    and "map (dat e2) (highpos hi n xs) = map (dat e) (filter hi xs)"
proof -
  let ?lo = "lowpos hi f xs" and ?hp = "highpos hi n xs" and ?es = "sp_links s"
  have hd': "xs \<noteq> [] \<longrightarrow> hd xs = f" using xs by simp
  note pos = lowpos_highpos [OF xs(1,2) hd' xs(5), of hi]
  have len: "length ?es = length e" using inv by (simp add: split_inv_def)
  have low: "lowfind s \<longleftrightarrow> ?lo \<noteq> []" and high: "highfind s \<longleftrightarrow> ?hp \<noteq> []"
    using inv by (auto simp: split_inv_def lowpos_def highpos_def split: list.splits)
  have hl: "?lo \<noteq> [] \<Longrightarrow> half_inv e ?es ?lo (filter (\<lambda>j. \<not> hi j) xs) (sp_gpos s) (sp_rec s) (lowused s) None"
    and hh: "?hp \<noteq> [] \<Longrightarrow> half_inv e ?es ?hp (filter hi xs) (sp_gpos2 s) (sp_rec2 s) (highused s) None"
    using inv low high by (auto simp: split_inv_def)
  have hds: "?lo \<noteq> [] \<Longrightarrow> hd ?lo = f" "?hp \<noteq> [] \<Longrightarrow> hd ?hp = n"
    by (auto simp: lowpos_def highpos_def split: list.splits)
  have e1: "length e1 = length e" "\<And>j. j \<notin> set ?lo \<Longrightarrow> e1 ! j = ?es ! j"
    "?lo \<noteq> [] \<Longrightarrow> path e1 (Some f) ?lo None" "map (dat e1) ?lo = map (dat e) (filter (\<lambda>j. \<not> hi j) xs)"
  proof -
    have nil: "?lo = [] \<Longrightarrow> filter (\<lambda>j. \<not> hi j) xs = []" by (auto simp: lowpos_def split: list.splits)
    show "length e1 = length e" using len by (simp add: e1_def finish_def put_link_def)
    show "\<And>j. j \<notin> set ?lo \<Longrightarrow> e1 ! j = ?es ! j"
      using half_finish(3) [OF hl pos(2)] low by (cases "?lo = []") (auto simp: e1_def finish_def)
    show "?lo \<noteq> [] \<Longrightarrow> path e1 (Some f) ?lo None"
      using half_finish(1) [OF hl pos(2)] low hds by (simp add: e1_def)
    show "map (dat e1) ?lo = map (dat e) (filter (\<lambda>j. \<not> hi j) xs)"
      using half_finish(2) [OF hl pos(2)] low nil by (cases "?lo = []") (auto simp: e1_def)
  qed
  have hh1: "half_inv e e1 ?hp (filter hi xs) (sp_gpos2 s) (sp_rec2 s) (highused s) None" if "?hp \<noteq> []"
    by (rule half_frame [OF hh [OF that]]) (use e1 len pos(1) in auto)
  have e2: "\<And>j. j \<notin> set ?hp \<Longrightarrow> e2 ! j = e1 ! j"
    using half_finish(3) [OF hh1 pos(3)] high by (cases "?hp = []") (auto simp: e2_def finish_def)
  show "length e2 = length e" using e1 by (simp add: e2_def finish_def put_link_def)
  show "j \<notin> set ?lo \<union> set ?hp \<Longrightarrow> e2 ! j = e ! j"
    using e1 e2 inv by (simp add: split_inv_def)
  have nil: "?hp = [] \<Longrightarrow> filter hi xs = []" by (auto simp: highpos_def split: list.splits)
  show "?hp \<noteq> [] \<Longrightarrow> path e2 (Some n) ?hp None"
    using half_finish(1) [OF hh1 pos(3)] high hds by (simp add: e2_def)
  show "map (dat e2) ?hp = map (dat e) (filter hi xs)"
    using half_finish(2) [OF hh1 pos(3)] high nil by (cases "?hp = []") (auto simp: e2_def)
  have same: "\<And>j. j \<in> set ?lo \<Longrightarrow> e2 ! j = e1 ! j" using e2 pos(1) by auto
  show "?lo \<noteq> [] \<Longrightarrow> path e2 (Some f) ?lo None"
    using e1(3) path_cong [of e2 e1 ?lo] same \<open>length e2 = length e\<close> e1(1) by auto
  show "map (dat e2) ?lo = map (dat e) (filter (\<lambda>j. \<not> hi j) xs)"
    using e1(4) same by (metis (mono_tags, lifting) map_cong)
qed

text \<open>The occupied cells afterwards.\<close>

lemma split_cells:
  assumes "distinct xs" "xs \<noteq> []" "hd xs = f" "n \<notin> set xs"
  shows "set (lowpos hi f xs) \<union> set (highpos hi n xs) = insert n (set xs) - {freepos hi f n xs}"
proof -
  obtain t where xs: "xs = f # t" using assms(2,3) by (cases xs) auto
  let ?L = "filter (\<lambda>j. \<not> hi j) t" and ?H = "filter hi t"
  have t: "f \<notin> set t" "distinct t" "n \<notin> set t" "n \<noteq> f" using assms xs by auto
  have ts: "set t = set ?L \<union> set ?H" "set ?L \<inter> set ?H = {}" by auto
  have dL: "distinct ?L" and dH: "distinct ?H" using t by auto
  show ?thesis
  proof (cases "hi f")
    case True
    show ?thesis
    proof (cases ?L)
      case Nil
      with True xs t have "\<forall>j \<in> set t. hi j" by (auto simp: filter_empty_conv)
      then have "?H = t" by (simp add: filter_id_conv)
      with Nil True xs t show ?thesis by (auto simp: lowpos_def highpos_def freepos_def)
    next
      case (Cons x u)
      have st: "set t = insert x (set u \<union> set ?H)"
        using ts(1) [unfolded Cons] by (simp only: list.set Un_insert_left)
      have x: "x \<notin> set u" "x \<notin> set ?H"
        using dL [unfolded Cons] ts(2) [unfolded Cons] by (simp, simp only: set_simps, blast)
      have "x \<in> set t" unfolding st by (rule insertI1)
      then have "x \<noteq> f" "x \<noteq> n" using t by auto
      moreover have "lowpos hi f xs = f # u" "highpos hi n xs = n # ?H" "freepos hi f n xs = x" "set xs = insert f (set t)"
        using Cons True xs by (simp_all add: lowpos_def highpos_def freepos_def)
      ultimately show ?thesis using st x by (simp only: set_simps) blast
    qed
  next
    case False
    show ?thesis
    proof (cases ?H)
      case Nil
      with False xs t have "\<forall>j \<in> set t. \<not> hi j" by (auto simp: filter_empty_conv)
      then have "?L = t" by (simp add: filter_id_conv)
      with Nil False xs t show ?thesis by (auto simp: lowpos_def highpos_def freepos_def)
    next
      case (Cons x u)
      have st: "set t = insert x (set ?L \<union> set u)"
        using ts(1) [unfolded Cons] by (simp only: list.set Un_insert_right)
      have x: "x \<notin> set u" "x \<notin> set ?L"
        using dH [unfolded Cons] ts(2) [unfolded Cons] by (simp, simp only: set_simps, blast)
      have "x \<in> set t" unfolding st by (rule insertI1)
      then have "x \<noteq> f" "x \<noteq> n" using t by auto
      moreover have "lowpos hi f xs = f # ?L" "highpos hi n xs = n # u" "freepos hi f n xs = x" "set xs = insert f (set t)"
        using Cons False xs by (simp_all add: lowpos_def highpos_def freepos_def)
      ultimately show ?thesis using st x by (simp only: set_simps) blast
    qed
  qed
qed

lemma freepos_mem: "xs \<noteq> [] \<Longrightarrow> hd xs = f \<Longrightarrow> freepos hi f n xs \<in> insert n (set xs)"
proof -
  have h: "filter P xs \<noteq> [] \<Longrightarrow> hd (filter P xs) \<in> set xs" for P
    by (metis filter_is_subset hd_in_set subsetD)
  assume "xs \<noteq> []" "hd xs = f"
  then have "f \<in> set xs" by auto
  with h show ?thesis unfolding freepos_def by auto
qed

end
