(* ===== verification/LinkInsert.thy ===== *)
theory LinkInsert
  imports LinkSplit
begin

text \<open>
  Inserting a record into a table of linked records: the split of a bucket, the place for
  the record, and the invariant of the whole table that an insert keeps.
\<close>

subsection \<open>The split\<close>

lemma chains_split:
  assumes c: "chains {..<n} e m ch" and x: "ch f \<noteq> []" and f: "f < n"
    and m: "\<And>j. j < n \<Longrightarrow> m (dat e j) = (if m' (dat e j) = n then f else m' (dat e j))"
    and hi: "\<And>j. j \<in> set (ch f) \<Longrightarrow> hi j \<longleftrightarrow> m' (dat e j) = n"
    and e2: "length e2 = length e"
      "\<And>j. j \<notin> set (lowpos hi f (ch f)) \<union> set (highpos hi n (ch f)) \<Longrightarrow> e2 ! j = e ! j"
      "lowpos hi f (ch f) \<noteq> [] \<Longrightarrow> path e2 (Some f) (lowpos hi f (ch f)) None"
      "highpos hi n (ch f) \<noteq> [] \<Longrightarrow> path e2 (Some n) (highpos hi n (ch f)) None"
      "map (dat e2) (lowpos hi f (ch f)) = map (dat e) (filter (\<lambda>j. \<not> hi j) (ch f))"
      "map (dat e2) (highpos hi n (ch f)) = map (dat e) (filter hi (ch f))"
  defines "p \<equiv> freepos hi f n (ch f)"
  shows "p \<le> n" "chains ({..n} - {p}) e2 m' (ch(f := lowpos hi f (ch f), n := highpos hi n (ch f)))"
    "recs ({..n} - {p}) e2 = recs {..<n} e"
proof -
  let ?xs = "ch f" and ?lo = "lowpos hi f (ch f)" and ?hp = "highpos hi n (ch f)"
  let ?ch = "ch(f := ?lo, n := ?hp)"
  have xs: "distinct ?xs" "hd ?xs = f" "n \<notin> set ?xs" "set ?xs \<subseteq> {..<n}"
    using chainsD [OF c, of f] x by auto
  have nf: "f \<noteq> n" using f by simp
  note pos = lowpos_highpos [OF xs(1,3) _ nf, of hi, simplified xs(2) simp_thms]
  have pm: "p \<in> insert n (set ?xs)" unfolding p_def by (rule freepos_mem [OF x xs(2)])
  then show "p \<le> n" using xs(4) by auto
  have cells: "set ?lo \<union> set ?hp = insert n (set ?xs) - {p}"
    unfolding p_def by (rule split_cells [OF xs(1) x xs(2,3)])
  have A: "{..n} - {p} = (set ?lo \<union> set ?hp) \<union> ({..<n} - set ?xs)"
  proof -
    have "{..n} = insert n (set ?xs) \<union> ({..<n} - set ?xs)" using xs(4) by auto
    then have "{..n} - {p} = (insert n (set ?xs) - {p}) \<union> ({..<n} - set ?xs)" using pm by auto
    then show ?thesis by (simp only: cells)
  qed
  have dlo: "m' (dat e2 j) = f" if "j \<in> set ?lo" for j
  proof -
    have "dat e2 j \<in> set (map (dat e2) ?lo)" using that by simp
    then obtain i where "i \<in> set ?xs" "\<not> hi i" "dat e2 j = dat e i" unfolding e2(5) by auto
    with hi [of i] m [of i] chain_mem [OF c, of i f] show ?thesis by auto
  qed
  have dhp: "m' (dat e2 j) = n" if "j \<in> set ?hp" for j
  proof -
    have "dat e2 j \<in> set (map (dat e2) ?hp)" using that by simp
    then obtain i where "i \<in> set ?xs" "hi i" "dat e2 j = dat e i" unfolding e2(6) by auto
    with hi [of i] show ?thesis by auto
  qed
  have rest: "j \<notin> set ?lo \<union> set ?hp" "dat e2 j = dat e j" "m' (dat e j) \<noteq> f" "m' (dat e j) \<noteq> n"
      "m' (dat e j) = m (dat e j)" if "j \<in> {..<n} - set ?xs" for j
  proof -
    show n1: "j \<notin> set ?lo \<union> set ?hp" using that unfolding cells by auto
    show "dat e2 j = dat e j" using e2(2) [OF n1] by simp
    have "m (dat e j) \<noteq> f" using that chain_mem [OF c, of j f] by auto
    with m [of j] that show "m' (dat e j) \<noteq> f" "m' (dat e j) \<noteq> n" "m' (dat e j) = m (dat e j)"
      by (auto split: if_splits)
  qed
  show "chains ({..n} - {p}) e2 m' ?ch"
  proof (rule chainsI)
    fix h
    show "distinct (?ch h)" using pos chainsD(1) [OF c] by simp
    show "set (?ch h) = {j \<in> {..n} - {p}. m' (dat e2 j) = h}"
    proof -
      have "j \<in> set (?ch h) \<longleftrightarrow> j \<in> {..n} - {p} \<and> m' (dat e2 j) = h" for j
      proof (cases "j \<in> {..<n} - set ?xs")
        case True
        then show ?thesis unfolding A using rest [OF True] nf
          by (auto simp: chain_mem [OF c])
      next
        case False
        have "j \<notin> set (ch h)" if "h \<noteq> f" using False that by (auto simp: chain_mem [OF c])
        then show ?thesis unfolding A using False dlo [of j] dhp [of j] nf by auto
      qed
      then show ?thesis by blast
    qed
    show "hd (?ch h) = h" if "?ch h \<noteq> []"
      using that chainsD(3) [OF c, of h] nf by (auto simp: lowpos_def highpos_def split: list.splits if_splits)
    show "path e2 (Some h) (?ch h) None" if ne: "?ch h \<noteq> []"
    proof (cases "h = f \<or> h = n")
      case True
      with ne e2(3,4) show ?thesis by auto
    next
      case False
      have "e2 ! j = e ! j" if "j \<in> set (ch h)" for j
      proof -
        have "j \<in> {..<n} - set ?xs" using that False by (auto simp: chain_mem [OF c])
        with rest(1) e2(2) show ?thesis by blast
      qed
      then have "path e2 (Some h) (ch h) None = path e (Some h) (ch h) None"
        by (intro path_cong e2(1))
      with False ne show ?thesis by (simp add: chainsD(4) [OF c])
    qed
  qed
  have "recs ({..n} - {p}) e2 = recs (set ?lo) e2 + recs (set ?hp) e2 + recs ({..<n} - set ?xs) e2"
    unfolding A using rest(1) pos(1) by (subst recs_Un | force)+
  also have "recs (set ?lo) e2 + recs (set ?hp) e2 = recs (set ?xs) e"
  proof -
    have "mset ?xs = mset (filter (\<lambda>j. \<not> hi j) ?xs) + mset (filter hi ?xs)"
      by (induction ?xs) auto
    then show ?thesis
      using xs(1) by (simp add: recs_list pos e2(5,6) del: mset_map flip: map_append)
                     (simp flip: image_mset_union)
  qed
  also have "recs ({..<n} - set ?xs) e2 = recs ({..<n} - set ?xs) e"
    using rest(2) by (rule recs_cong)
  also have "recs (set ?xs) e + recs ({..<n} - set ?xs) e = recs (set ?xs \<union> ({..<n} - set ?xs)) e"
    by (rule recs_Un [symmetric]) auto
  also have "set ?xs \<union> ({..<n} - set ?xs) = {..<n}" using xs(4) by auto
  finally show "recs ({..n} - {p}) e2 = recs {..<n} e" .
qed


lemma drop_bit_half: "drop_bit 1 (bl::nat) = bl div 2"
  by (simp add: drop_bit_eq_div)

lemma split_bucket_correct:
  assumes ts: "table_size bl n" and n: "n < length e" and c: "chains {..<n} e (bucket hashnr bl n) ch"
  shows "\<exists>e' p ch'. split_bucket hashnr e bl n r = Some (e', p) \<and> length e' = length e \<and> p \<le> n \<and>
     chains ({..n} - {p}) e' (bucket hashnr bl (n + 1)) ch' \<and> recs ({..n} - {p}) e' = recs {..<n} e"
proof (cases "n = 0")
  case True
  have A: "{..n} - {n} = {..<n}" by auto
  have "split_bucket hashnr e bl n r = Some (e, n)" using True by (simp add: split_bucket_def)
  moreover have "chains ({..n} - {n}) e (bucket hashnr bl (n + 1)) ch"
    unfolding A by (rule chains_mask [OF c]) (simp add: True)
  ultimately show ?thesis using A by (metis order_refl)
next
  case False
  define f where "f = n - bl div 2"
  note grow = hash_mask_grow [OF ts False, folded f_def]
  have bl2: "bl div 2 \<noteq> 0" using ts False n by (auto simp: table_size_def)
  then have f: "f < n" "f \<noteq> n" using False by (auto simp: f_def)
  define hi where "hi = (\<lambda>j. hashnr (dat e j) AND bl div 2 \<noteq> 0)"
  define s0 where "s0 = \<lparr>sp_links = e, lowfind = False, lowused = False, highfind = False, highused = False,
             sp_gpos = 0, sp_rec = r, sp_gpos2 = 0, sp_rec2 = r, sp_empty = n\<rparr>"
  have lk: "link_at e f = Some (e ! f)" using n f by (simp add: link_at_def)
  show ?thesis
  proof (cases "bucket hashnr bl n (dat e f) = f")
    case False
    then have "ch f = []" by (intro chain_empty [OF c]) simp
    then have nf: "bucket hashnr bl n (dat e j) \<noteq> f" if "j < n" for j
      using chain_mem [OF c, of j f] that by simp
    have A: "{..n} - {n} = {..<n}" by auto
    have "split_bucket hashnr e bl n r = Some (e, n)"
      unfolding split_bucket_def drop_bit_half Let_def f_def [symmetric] s0_def [symmetric]
      using False f by (simp add: lk) (simp add: s0_def)
    moreover have "chains ({..n} - {n}) e (bucket hashnr bl (n + 1)) ch"
      unfolding A
    proof (rule chains_mask [OF c])
      fix j assume "j \<in> {..<n}"
      with nf [of j] show "bucket hashnr bl (n + 1) (dat e j) = bucket hashnr bl n (dat e j)"
        using grow(1) [of "hashnr (dat e j)"] by (auto split: if_splits)
    qed
    ultimately show ?thesis using A by (metis order_refl)
  next
    case True
    have cf: "ch f = f # tl (ch f)" by (rule chain_head [OF c]) (use True f in auto)
    then have ne: "ch f \<noteq> []" by (metis list.distinct(1))
    have xs: "distinct (ch f)" "n \<notin> set (ch f)" "hd (ch f) = f" "path e (Some f) (ch f) None"
      using chainsD [OF c, of f] ne by auto
    have fl: "f < length e" using f n by simp
    have "split_inv e f n hi [] (Some f) s0"
      by (simp add: split_inv_def s0_def lowpos_def highpos_def freepos_def)
    then obtain s where s: "split_loop hashnr (bl div 2) s0 f = Some s" "split_inv e f n hi (ch f) None s"
      using split_loop_correct [of e f "tl (ch f)" "[]" n f hi s0 hashnr "bl div 2"] xs cf f(2) n fl
      by (auto simp: hi_def)
    define e1 where "e1 = finish (lowfind s) (lowused s) (sp_gpos s) (sp_rec s) (sp_links s)"
    define e2 where "e2 = finish (highfind s) (highused s) (sp_gpos2 s) (sp_rec2 s) e1"
    note fin = split_finish [OF s(2) xs(1,2) ne xs(3) f(2), folded e1_def, folded e2_def]
    have emp: "sp_empty s = freepos hi f n (ch f)" using s(2) by (simp add: split_inv_def)
    have run: "split_bucket hashnr e bl n r = Some (e2, freepos hi f n (ch f))"
      unfolding split_bucket_def drop_bit_half Let_def f_def [symmetric] s0_def [symmetric]
      using True f by (simp add: lk s(1) emp e2_def e1_def finish_def)
    have m: "bucket hashnr bl n (dat e j) = (if bucket hashnr bl (n + 1) (dat e j) = n then f else bucket hashnr bl (n + 1) (dat e j))" for j
      by (rule grow(1))
    have h: "hi j \<longleftrightarrow> bucket hashnr bl (n + 1) (dat e j) = n" if "j \<in> set (ch f)" for j
      using grow(2) [of "hashnr (dat e j)"] that chain_mem [OF c, of j f] by (simp add: hi_def)
    note sp = chains_split [where m' = "bucket hashnr bl (n + 1)", OF c ne f(1) m h fin]
    show ?thesis using run fin(1) sp by blast
  qed
qed

subsection \<open>The place of the new record\<close>

text \<open>The invariant of a table: its size fits its buffer length and its buckets are chains.\<close>

definition link_wf :: "('r \<Rightarrow> nat) \<Rightarrow> 'r hlink list \<Rightarrow> nat \<Rightarrow> nat \<Rightarrow> bool" where
  "link_wf hashnr e bl n \<longleftrightarrow>
     table_size bl n \<and> n \<le> length e \<and> (\<exists>ch. chains {..<n} e (bucket hashnr bl n) ch)"

definition next_size :: "nat \<Rightarrow> nat \<Rightarrow> nat" where
  "next_size bl n = (if n + 1 = bl then bl + bl else bl)"

lemma chains_length:
  assumes "n < length e" "chains ({..n} - {p}) e m ch" "j \<in> {..n} - {p}"
  shows "j < length e"
  using assms chain_bound by blast

lemma place_record:
  assumes c: "chains ({..n} - {p}) e m ch" and p: "p \<le> n" "n < length e"
    and m: "m r = idx" "idx \<le> n" and g: "g = m (dat e idx)"
  shows "idx = p \<Longrightarrow> chains {..n} (put_link e idx r None) m (ch(idx := [idx])) \<and>
      recs {..n} (put_link e idx r None) = add_mset r (recs ({..n} - {p}) e)"
    and "idx \<noteq> p \<Longrightarrow> idx = g \<Longrightarrow>
      chains {..n} (put_link (e[p := e ! idx]) idx r (Some p)) m (ch(idx := idx # p # tl (ch idx))) \<and>
      recs {..n} (put_link (e[p := e ! idx]) idx r (Some p)) = add_mset r (recs ({..n} - {p}) e)"
    and "idx \<noteq> p \<Longrightarrow> idx \<noteq> g \<Longrightarrow> \<exists>e' ch'.
      movelink (put_link (e[p := e ! idx]) idx r None) (Some idx) g (Some p) = Some e' \<and>
      length e' = length e \<and> e' ! idx = \<lparr>hl_next = None, hl_data = r\<rparr> \<and> ch' idx = [idx] \<and>
      chains {..n} e' m ch' \<and> recs {..n} e' = add_mset r (recs ({..n} - {p}) e)"
proof -
  let ?A = "{..n} - {p}"
  have nA: "p \<notin> ?A" "p < length e" "idx < length e" "insert p ?A = {..n}" using p m by auto
  have fin: "finite ?A" by simp
  {
    assume i: "idx = p"
    have dt: "dat (put_link e idx r None) j = (if j = p then r else dat e j)" for j
      using nA i by (auto simp: put_link_def nth_list_update)
    have "recs {..n} (put_link e idx r None) = add_mset r (recs ?A (put_link e idx r None))"
      using recs_insert [OF fin nA(1), of "put_link e idx r None"] nA(4) dt by simp
    also have "recs ?A (put_link e idx r None) = recs ?A e"
      by (rule recs_cong) (use dt in simp)
    finally show "chains {..n} (put_link e idx r None) m (ch(idx := [idx])) \<and>
        recs {..n} (put_link e idx r None) = add_mset r (recs ({..n} - {p}) e)"
      using chains_start [OF c, of idx r] nA i m by simp
  }
  {
    assume i: "idx \<noteq> p" "idx = g"
    let ?e = "put_link (e[p := e ! idx]) idx r (Some p)"
    have iA: "idx \<in> ?A" using i m by auto
    have mg: "m (dat e idx) = idx" using i(2) unfolding g by (rule sym)
    have dt: "dat ?e j = (if j = idx then r else if j = p then dat e idx else dat e j)" for j
      using nA i by (auto simp: put_link_def nth_list_update)
    have "recs {..n} ?e = add_mset (dat e idx) (recs ?A ?e)"
      using recs_insert [OF fin nA(1), of ?e] nA(4) dt i by simp
    also have "recs ?A ?e = add_mset r (recs (?A - {idx}) ?e)"
      using recs_remove [OF fin iA, of ?e] dt by simp
    also have "recs (?A - {idx}) ?e = recs (?A - {idx}) e"
      by (rule recs_cong) (use dt in auto)
    also have "add_mset (dat e idx) (add_mset r (recs (?A - {idx}) e)) = add_mset r (recs ?A e)"
      using recs_remove [OF fin iA, of e] by (simp add: add_mset_commute)
    finally show "chains {..n} ?e m (ch(idx := idx # p # tl (ch idx))) \<and> recs {..n} ?e = add_mset r (recs ?A e)"
      using chains_push [OF c nA(1,2) iA mg m(1)] nA(4) by simp
  }
  {
    assume i: "idx \<noteq> p" "idx \<noteq> g"
    let ?v = "\<lparr>hl_next = None, hl_data = r\<rparr>"
    have iA: "idx \<in> ?A" using i m by auto
    have gA: "g \<in> ?A" using chain_head [OF c iA g [symmetric]] by simp
    obtain e' where e': "movelink (e[p := e ! idx, idx := ?v]) (Some idx) g (Some p) = Some e'"
      "length e' = length e" "e' ! idx = ?v"
      "\<forall>j. j \<noteq> idx \<longrightarrow> dat e' j = (if j = p then dat e idx else dat e j)"
      and c1: "chains (insert p (?A - {idx})) e' m (ch(g := map (\<lambda>x. if x = idx then p else x) (ch g)))"
      using chains_relocate [OF c nA(1,2) iA g [symmetric] i(2) [symmetric], of ?v] by blast
    let ?B = "insert p (?A - {idx})"
    have B: "idx \<notin> ?B" "insert idx ?B = {..n}" "finite ?B" using i p m by auto
    have same: "put_link e' idx r None = e'"
      unfolding put_link_def using e'(3) list_update_id [of e' idx] by simp
    have c2: "chains {..n} e' m ((ch(g := map (\<lambda>x. if x = idx then p else x) (ch g)))(idx := [idx]))"
      using chains_start [OF c1 B(1) _ m(1)] nA(3) e'(2) B(2) same by simp
    have "recs {..n} e' = add_mset r (recs ?B e')"
      using recs_insert [OF B(3,1), of e'] B(2) e'(3) by simp
    also have "recs ?B e' = add_mset (dat e idx) (recs (?A - {idx}) e')"
      using recs_insert [of "?A - {idx}" p e'] nA(1) e'(4) i by simp
    also have "recs (?A - {idx}) e' = recs (?A - {idx}) e"
      by (rule recs_cong) (use e'(4) in auto)
    also have "add_mset (dat e idx) (recs (?A - {idx}) e) = recs ?A e"
      using recs_remove [OF fin iA, of e] by simp
    finally have "recs {..n} e' = add_mset r (recs ?A e)" .
    with e' c2 show "\<exists>e' ch'. movelink (put_link (e[p := e ! idx]) idx r None) (Some idx) g (Some p) = Some e' \<and>
      length e' = length e \<and> e' ! idx = ?v \<and> ch' idx = [idx] \<and> chains {..n} e' m ch' \<and>
      recs {..n} e' = add_mset r (recs ?A e)"
      unfolding put_link_def
      by (intro exI [of _ e'] exI [of _ "(ch(g := map (\<lambda>x. if x = idx then p else x) (ch g)))(idx := [idx])"] conjI)
         simp_all
  }
qed

lemma table_size_zero: "table_size bl 0 \<longleftrightarrow> bl = 1"
proof
  assume "table_size bl 0"
  then obtain k where k: "bl = 2 ^ k" "bl div 2 = 0" by (auto simp: table_size_def)
  then show "bl = 1" by (cases k) auto
next
  assume "bl = 1"
  then show "table_size bl 0" by (auto simp: table_size_def intro: exI [of _ 0])
qed

text \<open>
  The insert keeps the invariant and adds the record to the table; the cell it returns is
  the one after the new record in the chain of its bucket.
\<close>

lemma link_insert_correct:
  assumes wf: "link_wf hashnr e bl n" and n: "n < length e" and hr: "hashnr r = hr"
  shows "\<exists>e' q ch. link_insert hashnr e bl n r hr = Some (e', q) \<and> length e' = length e \<and>
     link_wf hashnr e' (next_size bl n) (n + 1) \<and> recs {..<n + 1} e' = add_mset r (recs {..<n} e) \<and>
     chains {..<n + 1} e' (bucket hashnr (next_size bl n) (n + 1)) ch \<and>
     (let idx = hash_mask hr bl (n + 1) in
        idx \<le> n \<and> e' ! idx = \<lparr>hl_next = q, hl_data = r\<rparr>)"
proof -
  let ?m = "bucket hashnr bl (n + 1)"
  obtain ch where ts: "table_size bl n" and c: "chains {..<n} e (bucket hashnr bl n) ch"
    using wf by (auto simp: link_wf_def)
  obtain e1 p ch1 where sp: "split_bucket hashnr e bl n r = Some (e1, p)" "length e1 = length e" "p \<le> n"
    "chains ({..n} - {p}) e1 ?m ch1" "recs ({..n} - {p}) e1 = recs {..<n} e"
    using split_bucket_correct [OF ts n c] by blast
  define idx where "idx = hash_mask hr bl (n + 1)"
  have idx: "idx \<le> n"
  proof (cases "n = 0")
    case True
    with ts have "bl = 1" by (simp add: table_size_zero)
    with True show ?thesis using hash_mask_one [of hr] by (simp add: idx_def)
  next
    case False
    with hash_mask_grow(4) [OF ts, of hr] show ?thesis by (simp add: idx_def)
  qed
  have m: "?m r = idx" by (simp add: idx_def hr)
  have n1: "n < length e1" using n sp by simp
  have lk: "link_at e1 idx = Some (e1 ! idx)" using idx n1 by (simp add: link_at_def)
  have lt: "{..<n + 1} = {..n}" by auto
  have size: "table_size (next_size bl n) (n + 1)"
    "\<And>r. bucket hashnr (next_size bl n) (n + 1) r = ?m r"
    unfolding next_size_def by (rule table_size_grow [OF ts])+
  have final: "\<exists>e' q ch. link_insert hashnr e bl n r hr = Some (e', q) \<and> length e' = length e \<and>
     link_wf hashnr e' (next_size bl n) (n + 1) \<and> recs {..<n + 1} e' = add_mset r (recs {..<n} e) \<and>
     chains {..<n + 1} e' (bucket hashnr (next_size bl n) (n + 1)) ch \<and>
     (let idx = hash_mask hr bl (n + 1) in
        idx \<le> n \<and> e' ! idx = \<lparr>hl_next = q, hl_data = r\<rparr>)"
    if "link_insert hashnr e bl n r hr = Some (e', q)" "length e' = length e" "chains {..n} e' ?m ch'"
      "recs {..n} e' = add_mset r (recs ({..n} - {p}) e1)" "e' ! idx = \<lparr>hl_next = q, hl_data = r\<rparr>" for e' q ch'
  proof -
    have "chains {..n} e' (bucket hashnr (next_size bl n) (n + 1)) ch'"
      by (rule chains_mask [OF that(3) size(2)])
    then show ?thesis
      using that size(1) idx n sp(5) unfolding lt Let_def idx_def [symmetric] link_wf_def by auto
  qed
  note place = place_record [OF sp(4,3) n1 m idx refl]
  show ?thesis
  proof (cases "idx = p")
    case True
    have "link_insert hashnr e bl n r hr = Some (put_link e1 idx r None, None)"
      unfolding link_insert_def sp(1) idx_def [symmetric] using True lk by simp
    then show ?thesis
      using place(1) [OF True] idx n1 sp(2)
      by (intro final [of "put_link e1 idx r None" None "ch1(idx := [idx])"]) (simp_all add: put_link_def)
  next
    case False
    show ?thesis
    proof (cases "idx = ?m (dat e1 idx)")
      case True
      have "link_insert hashnr e bl n r hr = Some (put_link (e1[p := e1 ! idx]) idx r (Some p), Some p)"
        unfolding link_insert_def sp(1) idx_def [symmetric] using True False by (simp add: lk)
      then show ?thesis
        using place(2) [OF False True] idx n1 sp(2)
        by (intro final [of "put_link (e1[p := e1 ! idx]) idx r (Some p)" "Some p" "ch1(idx := idx # p # tl (ch1 idx))"])
           (simp_all add: put_link_def)
    next
      case False': False
      obtain e' ch' where e': "movelink (put_link (e1[p := e1 ! idx]) idx r None) (Some idx) (?m (dat e1 idx)) (Some p) = Some e'"
        "length e' = length e1" "e' ! idx = \<lparr>hl_next = None, hl_data = r\<rparr>" "ch' idx = [idx]"
        "chains {..n} e' ?m ch'" "recs {..n} e' = add_mset r (recs ({..n} - {p}) e1)"
        using place(3) [OF False False'] by blast
      have "link_insert hashnr e bl n r hr = Some (e', None)"
        unfolding link_insert_def sp(1) idx_def [symmetric] using False False' e'(1) by (simp add: lk)
      then show ?thesis
        using e' sp(2) by (intro final [of e' None ch']) simp_all
    qed
  qed
qed

lemma path_cong_longer:
  "(\<And>x. x \<in> set xs \<Longrightarrow> e' ! x = e ! x \<and> x < length e') \<Longrightarrow> path e i xs q \<Longrightarrow> path e' i xs q"
  by (induction xs arbitrary: i) auto

lemma link_wf_cong:
  assumes wf: "link_wf hashnr e bl n" and e': "take n e' = take n e"
  shows "link_wf hashnr e' bl n" "recs {..<n} e' = recs {..<n} e"
proof -
  have n: "n \<le> length e" using wf by (simp add: link_wf_def)
  then have n': "n \<le> length e'" using e' by (metis length_take min.absorb2 min.cobounded1)
  have eq: "e' ! j = e ! j" if "j < n" for j using e' that by (metis nth_take)
  obtain ch where c: "chains {..<n} e (bucket hashnr bl n) ch" using wf by (auto simp: link_wf_def)
  have "chains {..<n} e' (bucket hashnr bl n) ch"
  proof (rule chainsI)
    fix h
    show "distinct (ch h)" by (rule chainsD(1) [OF c])
    show "set (ch h) = {j \<in> {..<n}. bucket hashnr bl n (dat e' j) = h}"
      using chainsD(2) [OF c] eq by auto
    assume ne: "ch h \<noteq> []"
    show "hd (ch h) = h" by (rule chainsD(3) [OF c ne])
    show "path e' (Some h) (ch h) None"
      by (rule path_cong_longer [OF _ chainsD(4) [OF c ne]]) (use eq n' in \<open>auto simp: chain_mem [OF c]\<close>)
  qed
  then show "link_wf hashnr e' bl n" using wf n' by (auto simp: link_wf_def)
  show "recs {..<n} e' = recs {..<n} e" by (rule recs_cong) (simp add: eq)
qed

lemma chains_total:
  assumes c: "chains {..<n} e m ch" and m: "\<And>j. j < n \<Longrightarrow> m (dat e j) < n"
  shows "sum_list (map (\<lambda>i. length (ch i)) [0..<n]) = n"
proof -
  have "sum_list (map (\<lambda>i. length (ch i)) [0..<n]) = (\<Sum>i \<in> {..<n}. length (ch i))"
    by (simp add: sum_list_distinct_conv_sum_set lessThan_atLeast0)
  also have "\<dots> = (\<Sum>i \<in> {..<n}. card {j \<in> {..<n}. m (dat e j) = i})"
    by (rule sum.cong [OF refl]) (metis chainsD(1,2) [OF c] distinct_card)
  also have "\<dots> = (\<Sum>j \<in> {..<n}. 1)"
    using sum.group [of "{..<n}" "{..<n}" "\<lambda>j. m (dat e j)" "\<lambda>_. 1::nat"] m by auto
  finally show ?thesis by simp
qed

end
