(* ===== verification/LinkDelete.thy ===== *)
theory LinkDelete
  imports LinkInsert
begin

text \<open>
  Deleting a record from a table of linked records: finding its cell, taking it out of its
  chain, and moving the last cell into the cell that became free, which joins two buckets.
\<close>

subsection \<open>Find the cell of a record\<close>

lemma find_link_correct:
  assumes "path e (Some x) (x # xs) None"
  shows "find_link e r g x = Some (case dropWhile (\<lambda>j. dat e j \<noteq> r) (x # xs) of
      [] \<Rightarrow> None
    | y # _ \<Rightarrow> Some (case rev (takeWhile (\<lambda>j. dat e j \<noteq> r) (x # xs)) of [] \<Rightarrow> g | p # _ \<Rightarrow> Some p, y))"
  using assms
proof (induction xs arbitrary: x g)
  case Nil
  then show ?case by (simp add: find_link.simps [of e r g x] link_at_def)
next
  case (Cons y ys)
  have step: "find_link e r g x = (if dat e x = r then Some (Some (g, x)) else find_link e r (Some x) y)"
    using Cons.prems by (subst find_link.simps) (simp add: link_at_def)
  show ?case
  proof (cases "dat e x = r")
    case True
    with step show ?thesis by simp
  next
    case False
    let ?w = "takeWhile (\<lambda>j. dat e j \<noteq> r) (y # ys)"
    have "find_link e r g x = find_link e r (Some x) y" using step False by simp
    also have "\<dots> = Some (case dropWhile (\<lambda>j. dat e j \<noteq> r) (y # ys) of
      [] \<Rightarrow> None
    | z # _ \<Rightarrow> Some (case rev ?w of [] \<Rightarrow> Some x | p # _ \<Rightarrow> Some p, z))"
      by (rule Cons.IH) (use Cons.prems in auto)
    also have "(case rev ?w of [] \<Rightarrow> Some x | p # _ \<Rightarrow> Some p) = (case rev (x # ?w) of [] \<Rightarrow> g | p # _ \<Rightarrow> Some p)"
      by (cases "rev ?w") auto
    also have "x # ?w = takeWhile (\<lambda>j. dat e j \<noteq> r) (x # y # ys)" using False by simp
    also have "dropWhile (\<lambda>j. dat e j \<noteq> r) (y # ys) = dropWhile (\<lambda>j. dat e j \<noteq> r) (x # y # ys)"
      using False by simp
    finally show ?thesis .
  qed
qed

text \<open>The first cell of the chain that holds the record, with the rest of the chain around it.\<close>

lemma find_link_chain:
  assumes c: "chains A e m ch" and h: "h \<in> A" "m (dat e h) = h"
  shows "(\<forall>j \<in> set (ch h). dat e j \<noteq> r) \<Longrightarrow> find_link e r None h = Some None"
    and "j \<in> set (ch h) \<Longrightarrow> dat e j = r \<Longrightarrow> \<exists>us i ws. ch h = us @ i # ws \<and> dat e i = r \<and>
       find_link e r None h = Some (Some (if us = [] then None else Some (last us), i))"
proof -
  have hc: "ch h = h # tl (ch h)" by (rule chain_head [OF c h])
  then have ne: "ch h \<noteq> []" by (metis list.distinct(1))
  have f: "find_link e r None h = Some (case dropWhile (\<lambda>j. dat e j \<noteq> r) (ch h) of
      [] \<Rightarrow> None
    | y # _ \<Rightarrow> Some (case rev (takeWhile (\<lambda>j. dat e j \<noteq> r) (ch h)) of [] \<Rightarrow> None | p # _ \<Rightarrow> Some p, y))"
    using find_link_correct [of e h "tl (ch h)" r None] chainsD(4) [OF c ne] hc by metis
  show "find_link e r None h = Some None" if "\<forall>j \<in> set (ch h). dat e j \<noteq> r"
  proof -
    have "dropWhile (\<lambda>j. dat e j \<noteq> r) (ch h) = []" using that by simp
    with f show ?thesis by (simp only: list.case)
  qed
  assume j: "j \<in> set (ch h)" "dat e j = r"
  let ?P = "\<lambda>j. dat e j \<noteq> r"
  obtain y t where d: "dropWhile ?P (ch h) = y # t"
    using j by (cases "dropWhile ?P (ch h)") auto
  then have "dat e y = r" using hd_dropWhile [of ?P "ch h"] by auto
  moreover have "ch h = takeWhile ?P (ch h) @ y # t" using d by (metis takeWhile_dropWhile_id)
  moreover have "find_link e r None h = Some (Some (if takeWhile ?P (ch h) = [] then None else Some (last (takeWhile ?P (ch h))), y))"
    using f d by (cases "takeWhile ?P (ch h)" rule: rev_cases) auto
  ultimately show "\<exists>us i ws. ch h = us @ i # ws \<and> dat e i = r \<and>
       find_link e r None h = Some (Some (if us = [] then None else Some (last us), i))"
    by blast
qed

text \<open>A search that starts in any cell of the table, even amid a chain, meets only cells of the table.\<close>

lemma chain_suffix:
  assumes c: "chains A e m ch" and h: "h \<in> A"
  shows "\<exists>xs. path e (Some h) (h # xs) None \<and> set (h # xs) \<subseteq> A"
proof -
  let ?g = "m (dat e h)"
  have "h \<in> set (ch ?g)" using h by (simp add: chain_mem [OF c])
  then obtain us ws where g: "ch ?g = us @ h # ws" by (meson split_list)
  then have ne: "ch ?g \<noteq> []" by simp
  have "path e (Some h) (h # ws) None"
    using chainsD(4) [OF c ne] unfolding g by (auto simp: path_append)
  moreover have "set (h # ws) \<subseteq> set (ch ?g)" unfolding g by auto
  then have "set (h # ws) \<subseteq> A" by (auto simp: chain_mem [OF c])
  ultimately show ?thesis by blast
qed

lemma find_link_none:
  assumes c: "chains A e m ch" and h: "h \<in> A" and r: "\<forall>j \<in> A. dat e j \<noteq> r"
  shows "find_link e r None h = Some None"
proof -
  obtain xs where xs: "path e (Some h) (h # xs) None" "set (h # xs) \<subseteq> A"
    using chain_suffix [OF c h] by blast
  then have "dropWhile (\<lambda>j. dat e j \<noteq> r) (h # xs) = []"
    using r by (simp only: dropWhile_eq_Nil_conv) blast
  with find_link_correct [OF xs(1), of r None] show ?thesis by (simp only: list.case)
qed

text \<open>A search through the links is a search through the list of the chain.\<close>

lemma search_link_path:
  assumes "path e (Some x) (x # xs) None" "\<not> (first \<and> other (dat e x))"
  shows "search_link P other e first x = Some (find (\<lambda>j. P (dat e j)) (x # xs))"
  using assms
proof (induction xs arbitrary: x first)
  case Nil
  then show ?case by (simp add: search_link_eval [of P other e first x])
next
  case (Cons y ys)
  then have "search_link P other e False y = Some (find (\<lambda>j. P (dat e j)) (y # ys))" by simp
  with Cons.prems show ?case by (subst search_link_eval) auto
qed

lemma search_link_none:
  assumes "path e i xs None" "i = Some x"
  shows "search_link P other e False x = Some (find (\<lambda>j. P (dat e j)) xs)"
proof -
  have "path e (Some x) (x # tl xs) None" "xs = x # tl xs" using assms by (cases xs; simp)+
  then show ?thesis using search_link_path [of e x "tl xs" False other P] by simp
qed

text \<open>
  A search for a record of bucket \<open>h\<close> that starts in cell \<open>h\<close>: the first cell of the chain
  that matches, if the records that match all belong to that bucket.
\<close>

lemma search_link_chain:
  assumes c: "chains A e m ch" and h: "h \<in> A" and P: "\<And>j. j \<in> A \<Longrightarrow> P (dat e j) \<Longrightarrow> m (dat e j) = h"
  shows "search_link P (\<lambda>r. m r \<noteq> h) e True h = Some (find (\<lambda>j. P (dat e j)) (ch h))"
proof (cases "m (dat e h) = h")
  case True
  have hc: "ch h = h # tl (ch h)" by (rule chain_head(3) [OF c h True])
  then have "path e (Some h) (h # tl (ch h)) None"
    using chainsD(4) [OF c, of h] by (metis list.distinct(1))
  then show ?thesis using search_link_path [of e h "tl (ch h)" True "\<lambda>r. m r \<noteq> h" P] True hc by simp
next
  case False
  moreover have "ch h = []" using False by (intro chain_empty [OF c]) simp
  moreover have "\<not> P (dat e h)" using P [OF h] False by auto
  ultimately show ?thesis using chain_bound [OF c h] by (simp add: search_link_eval [of _ _ _ True])
qed

subsection \<open>Take a cell out of its chain\<close>

text \<open>A chain replaced by one with the records of all its cells but one.\<close>

lemma chains_drop:
  assumes c: "chains A e m ch" and i: "i \<in> A" "m (dat e i) = h"
    and e': "length e' = length e" "\<And>j. j \<notin> set (ch h) \<Longrightarrow> e' ! j = e ! j"
    and xs: "distinct xs" "set xs = set (ch h) - {p}" "p \<in> set (ch h)" "xs \<noteq> [] \<Longrightarrow> hd xs = h \<and> path e' (Some h) xs None"
    and d: "\<And>j. j \<in> set xs \<Longrightarrow> m (dat e' j) = h"
  shows "chains (A - {p}) e' m (ch(h := xs))"
proof (rule chainsI)
  fix g
  show "distinct ((ch(h := xs)) g)" using xs chainsD(1) [OF c] by simp
  have p: "p \<in> A" "m (dat e p) = h" using xs(3) by (simp_all add: chain_mem [OF c])
  have same: "e' ! j = e ! j" if "j \<in> set (ch g)" "g \<noteq> h" for j
    using that by (intro e'(2)) (auto simp: chain_mem [OF c])
  show "set ((ch(h := xs)) g) = {j \<in> A - {p}. m (dat e' j) = g}"
  proof -
    have "j \<in> set ((ch(h := xs)) g) \<longleftrightarrow> j \<in> A - {p} \<and> m (dat e' j) = g" for j
    proof (cases "j \<in> set (ch h)")
      case True
      then show ?thesis using xs d [of j] by (auto simp: chain_mem [OF c])
    next
      case False
      then have "m (dat e' j) = m (dat e j)" by (simp add: e'(2))
      with False p xs show ?thesis by (auto simp: chain_mem [OF c])
    qed
    then show ?thesis by blast
  qed
  show "(ch(h := xs)) g \<noteq> [] \<Longrightarrow> hd ((ch(h := xs)) g) = g"
    using xs(4) chainsD(3) [OF c] by (auto split: if_splits)
  show "path e' (Some g) ((ch(h := xs)) g) None" if ne: "(ch(h := xs)) g \<noteq> []"
  proof (cases "g = h")
    case True
    with ne xs(4) show ?thesis by simp
  next
    case False
    with ne have "path e (Some g) (ch g) None" by (simp add: chainsD(4) [OF c])
    moreover have "path e' (Some g) (ch g) None = path e (Some g) (ch g) None"
      by (rule path_cong [OF e'(1)]) (use same False in auto)
    ultimately show ?thesis using False by simp
  qed
qed

lemma unlink_correct:
  assumes c: "chains A e m ch" and fin: "finite A" and ch: "ch h = us @ i # ws"
  shows "\<exists>e' p ch'. unlink e (if us = [] then None else Some (last us)) i = Some (e', p) \<and>
     length e' = length e \<and> p \<in> A \<and> chains (A - {p}) e' m ch' \<and>
     recs A e = add_mset (dat e i) (recs (A - {p}) e')"
proof -
  have i: "i \<in> A" "m (dat e i) = h" using ch chain_mem [OF c, of i h] by simp_all
  note il = chain_bound [OF c i(1)]
  have ne: "ch h \<noteq> []" using ch by simp
  have p: "path e (Some h) (us @ i # ws) None" "distinct (us @ i # ws)"
    using chainsD(1,4) [OF c, of h] ne ch by auto
  have lk: "link_at e j = Some (e ! j)" if "j \<in> A" for j
    using chain_bound [OF c that] by (simp add: link_at_def)
  show ?thesis
  proof (cases "us = []")
    case False
    then obtain vs g where us: "us = vs @ [g]" by (cases us rule: rev_cases) auto
    have g: "g \<in> set (ch h)" using ch us by simp
    then have gA: "g \<in> A" "m (dat e g) = h" by (simp_all add: chain_mem [OF c])
    let ?e = "e[g := (e ! g)\<lparr>hl_next := nxt e i\<rparr>]"
    have dt: "dat ?e j = dat e j" for j
      using chain_bound [OF c gA(1)] by (cases "j = g") auto
    have "path ?e (Some h) (vs @ g # ws) None"
      using p us chain_bound [OF c gA(1)] by (auto simp: path_append)
    moreover have "m (dat ?e j) = h" if "j \<in> set (vs @ g # ws)" for j
    proof -
      have "j \<in> set (ch h)" using that ch us by auto
      then show ?thesis unfolding dt by (simp add: chain_mem [OF c])
    qed
    ultimately have "chains (A - {i}) ?e m (ch(h := vs @ g # ws))"
      using p us ch chainsD(3) [OF c ne] g
      by (intro chains_drop [OF c i]) (simp_all add: hd_append insert_commute, auto split: if_splits)
    moreover have "recs A e = add_mset (dat e i) (recs (A - {i}) ?e)"
      using recs_remove [OF fin i(1), of e] recs_cong [of "A - {i}" ?e e] dt by simp
    moreover have "unlink e (Some g) i = Some (?e, i)"
      by (simp add: unlink_def lk i gA)
    ultimately show ?thesis using i us by (auto intro!: exI)
  next
    case True
    then have hi: "h = i" using ch chainsD(3) [OF c ne] by simp
    show ?thesis
    proof (cases ws)
      case Nil
      have "unlink e None i = Some (e, i)"
        using p True Nil by (simp add: unlink_def lk i)
      moreover have "chains (A - {i}) e m (ch(h := []))"
        by (rule chains_drop [OF c i]) (use ch True Nil in auto)
      moreover have "recs A e = add_mset (dat e i) (recs (A - {i}) e)"
        by (rule recs_remove [OF fin i(1)])
      ultimately show ?thesis using True i by (auto intro!: exI)
    next
      case (Cons q vs)
      have q: "q \<in> A" "m (dat e q) = h" "q \<noteq> i"
        using ch Cons p(2) chain_mem [OF c, of q h] by auto
      note ql = chain_bound [OF c q(1)]
      let ?e = "e[i := e ! q]"
      have dt: "dat ?e j = (if j = i then dat e q else dat e j)" for j
        using il by (auto simp: nth_list_update)
      have "unlink e None i = Some (?e, q)"
        using p True Cons by (simp add: unlink_def lk i q)
      moreover have "chains (A - {q}) ?e m (ch(h := i # vs))"
      proof (rule chains_drop [OF c i])
        show "set (i # vs) = set (ch h) - {q}" using ch Cons True p(2) by auto
        show "m (dat ?e j) = h" if "j \<in> set (i # vs)" for j
        proof -
          have "j \<in> set (ch h)" using that ch Cons True by auto
          with q show ?thesis by (simp add: dt chain_mem [OF c])
        qed
      qed (use p ch Cons True hi il ql in auto)
      moreover have "recs A e = add_mset (dat e i) (recs (A - {q}) ?e)"
      proof -
        have "recs (A - {q}) ?e = add_mset (dat ?e i) (recs (A - {q} - {i}) ?e)"
          by (rule recs_remove) (use fin i q in auto)
        also have "recs (A - {q} - {i}) ?e = recs (A - {q} - {i}) e"
          by (rule recs_cong) (simp add: dt)
        also have "add_mset (dat ?e i) (recs (A - {q} - {i}) e) = recs (A - {i}) e"
        proof -
          have "A - {q} - {i} = A - {i} - {q}" by auto
          with recs_remove [of "A - {i}" q e] fin q dt show ?thesis by simp
        qed
        finally show ?thesis using recs_remove [OF fin i(1), of e] by simp
      qed
      ultimately show ?thesis using True q by (auto intro!: exI)
    qed
  qed
qed

subsection \<open>Two buckets joined\<close>

text \<open>
  Without its last cell \<open>n\<close> the table has no bucket \<open>n\<close>: the records of that bucket belong
  to bucket \<open>f\<close>. First the case that the cell \<open>f\<close> is free, then the case that the last
  cell moves to the free cell \<open>p\<close> and its chain goes between the first and the second cell
  of chain \<open>f\<close>.
\<close>

lemma chains_take_over:
  assumes c: "chains A e m ch" and n: "n \<in> A" "m (dat e n) = n" and f: "f \<notin> A" "f < length e"
    and m': "\<And>j. j \<in> A \<Longrightarrow> m' (dat e j) = (if m (dat e j) = n then f else m (dat e j))"
  shows "chains (insert f (A - {n})) (e[f := e ! n]) m' (ch(n := [], f := f # tl (ch n)))"
proof -
  let ?e = "e[f := e ! n]" and ?ch = "ch(n := [], f := f # tl (ch n))"
  have nf: "f \<noteq> n" using n f by auto
  have hn: "ch n = n # tl (ch n)" by (rule chain_head [OF c n])
  have d: "distinct (n # tl (ch n))" using chainsD(1) [OF c, of n] hn by simp
  have tln: "set (tl (ch n)) = {j \<in> A. m (dat e j) = n} - {n}"
    using chainsD(2) [OF c, of n] d hn by (metis Diff_insert_absorb distinct.simps(2) list.simps(15))
  have fA: "m (dat e j) \<noteq> f" if "j \<in> A" for j
    using chain_empty [OF c, of f] f(1) chain_mem [OF c, of j f] that by auto
  have dt: "dat ?e j = (if j = f then dat e n else dat e j)" for j
    using f by (auto simp: nth_list_update)
  have "path e (Some n) (n # tl (ch n)) None"
    using chainsD(4) [OF c, of n] hn by (metis list.distinct(1))
  then have tp: "path e (nxt e n) (tl (ch n)) None" by simp
  have nin: "f \<notin> set (ch h)" for h using f by (simp add: chain_mem [OF c])
  have ftl: "f \<notin> set (tl (ch n))" using f by (simp add: tln)
  show ?thesis
  proof (rule chainsI)
    fix h
    show "distinct (?ch h)" using d ftl chainsD(1) [OF c] by auto
    show "set (?ch h) = {j \<in> insert f (A - {n}). m' (dat ?e j) = h}"
    proof -
      have "j \<in> set (?ch h) \<longleftrightarrow> j \<in> insert f (A - {n}) \<and> m' (dat ?e j) = h" for j
      proof (cases "j = f")
        case True
        have "m' (dat ?e j) = f" using True dt [of j] m' [OF n(1)] n(2) by simp
        then show ?thesis using True nin [of h] nf by auto
      next
        case False
        then have "dat ?e j = dat e j" using dt [of j] by simp
        moreover have "j \<in> set (tl (ch n)) \<longleftrightarrow> j \<in> A \<and> m (dat e j) = n \<and> j \<noteq> n" unfolding tln by auto
        ultimately show ?thesis
          using False m' [of j] fA [of j] nf n chain_mem [OF c, of j h] by (cases "m (dat e j) = n") auto
      qed
      then show ?thesis by blast
    qed
    show "?ch h \<noteq> [] \<Longrightarrow> hd (?ch h) = h" using chainsD(3) [OF c] by (auto split: if_splits)
    show "path ?e (Some h) (?ch h) None" if "?ch h \<noteq> []"
      using that tp f nf nin ftl chainsD(4) [OF c, of h] by (auto split: if_splits)
  qed
qed

lemma chains_join:
  assumes c: "chains A e m ch" and n: "n \<in> A" "m (dat e n) = n" and f: "f \<in> A" "f \<noteq> n" and p: "p \<notin> A" "p < length e"
    and m': "\<And>j. j \<in> A \<Longrightarrow> m' (dat e j) = (if m (dat e j) = n then f else m (dat e j))"
    and mf: "m' (dat e f) = f"
    and ws: "distinct (f # n # us @ ws)" "set (f # n # us @ ws) = set (ch f) \<union> set (ch n)"
    and p1: "path e (nxt e n) us idx" and p2: "path e (nxt e f) ws None"
    and idx: "idx \<notin> Some ` set (p # us)"
  shows "\<exists>e' pl. movelink (e[p := e ! n]) idx p (nxt e f) = Some e' \<and> link_at e' f = Some pl \<and>
     chains (insert p (A - {n})) (e'[f := pl\<lparr>hl_next := Some p\<rparr>]) m' (ch(n := [], f := f # p # us @ ws)) \<and>
     length e' = length e \<and> (\<forall>j. dat (e'[f := pl\<lparr>hl_next := Some p\<rparr>]) j = (if j = p then dat e n else dat e j))"
proof -
  let ?e1 = "e[p := e ! n]"
  have fl: "f < length e" by (rule chain_bound [OF c f(1)])
  have inA: "set (f # n # us @ ws) \<subseteq> A" unfolding ws(2) by (auto simp: chain_mem [OF c])
  then have pn: "p \<notin> set (f # n # us @ ws)" using p by auto
  have usp: "path ?e1 (Some p) (p # us) idx" using p1 p pn by simp
  obtain vs u where u: "p # us = vs @ [u]" by (cases "p # us" rule: rev_cases) auto
  have du: "distinct (p # us)" using ws(1) pn by auto
  have ul: "u < length e" "u \<in> set (p # us)" "u \<noteq> f"
  proof -
    show um: "u \<in> set (p # us)" unfolding u by simp
    show "u < length e" using path_less [OF usp um] by simp
    show "u \<noteq> f" using um ws(1) pn by auto
  qed
  let ?e2 = "?e1[u := (?e1 ! u)\<lparr>hl_next := nxt e f\<rparr>]"
  have mv: "movelink ?e1 idx p (nxt e f) = Some ?e2"
    by (rule movelink_path) (use usp idx u in auto)
  have f2: "?e2 ! f = e ! f" using ul pn by auto
  let ?e3 = "?e2[f := (?e2 ! f)\<lparr>hl_next := Some p\<rparr>]"
  have dt: "dat ?e3 j = (if j = p then dat e n else dat e j)" for j
  proof (cases "j < length e")
    case True
    then show ?thesis using p fl f2 ul pn by (auto simp: nth_list_update)
  next
    case False
    then have "j \<noteq> p" "j \<noteq> f" "j \<noteq> u" using p fl ul by auto
    then show ?thesis by simp
  qed
  have p3: "path ?e3 (Some f) (f # p # us @ ws) None"
  proof -
    have "path ?e1 (Some p) vs (Some u)" using usp unfolding u by (simp add: path_snoc)
    moreover have "u \<notin> set vs" "u \<notin> set ws" "f \<notin> set vs" "f \<notin> set ws" "p \<notin> set ws"
    proof -
      show "u \<notin> set vs" using du unfolding u by simp
      show "u \<notin> set ws" using ul(2) ws(1) pn by auto
      have "set vs \<subseteq> set (p # us)" unfolding u by auto
      then show "f \<notin> set vs" using ws(1) pn by auto
    qed (use ws(1) pn in auto)
    ultimately have "path ?e3 (Some p) (vs @ [u] @ ws) None"
      using ul fl f2 p2 by (auto simp: path_append)
    then have "path ?e3 (Some p) ((p # us) @ ws) None" unfolding u by simp
    then show ?thesis using fl by simp
  qed
  let ?ch = "ch(n := [], f := f # p # us @ ws)"
  have mem: "j \<in> set (f # n # us @ ws) \<longleftrightarrow> j \<in> A \<and> (m (dat e j) = f \<or> m (dat e j) = n)" for j
    unfolding ws(2) by (auto simp: chain_mem [OF c])
  have "chains (insert p (A - {n})) ?e3 m' ?ch"
  proof (rule chainsI)
    fix h
    show "distinct (?ch h)" using ws(1) pn chainsD(1) [OF c] by auto
    show "set (?ch h) = {j \<in> insert p (A - {n}). m' (dat ?e3 j) = h}"
    proof -
      have "j \<in> set (?ch h) \<longleftrightarrow> j \<in> insert p (A - {n}) \<and> m' (dat ?e3 j) = h" for j
      proof (cases "j = p")
        case True
        then have "m' (dat ?e3 j) = f" using dt [of j] m' [OF n(1)] n(2) by simp
        moreover have "p \<notin> set (ch h)" using p(1) by (simp add: chain_mem [OF c])
        ultimately show ?thesis using True by auto
      next
        case False
        then have "dat ?e3 j = dat e j" using dt [of j] by simp
        then show ?thesis
          using False mem [of j] m' [of j] ws(1) f(2) chain_mem [OF c, of j h] by (auto split: if_splits)
      qed
      then show ?thesis by blast
    qed
    show "?ch h \<noteq> [] \<Longrightarrow> hd (?ch h) = h" using chainsD(3) [OF c] by (auto split: if_splits)
    show "path ?e3 (Some h) (?ch h) None" if ne: "?ch h \<noteq> []"
    proof (cases "h = f")
      case True
      with p3 show ?thesis by simp
    next
      case False
      with ne have hn: "h \<noteq> n" "path e (Some h) (ch h) None"
        by (auto simp: chainsD(4) [OF c] split: if_splits)
      have "f \<notin> set (ch h)"
        using mem [of f] False hn(1) by (auto simp: chain_mem [OF c])
      moreover have "u \<notin> set (ch h)" "p \<notin> set (ch h)"
        using ul(2) mem [of u] False hn(1) p by (auto simp: chain_mem [OF c])
      ultimately show ?thesis using hn False by simp
    qed
  qed
  moreover have "link_at ?e2 f = Some (?e2 ! f)" using fl by (simp add: link_at_def)
  moreover have "length ?e2 = length e" by simp
  ultimately show ?thesis using mv dt by blast
qed

subsection \<open>The last cell moves\<close>

lemma hlink_eqI: "hl_next l = hl_next l' \<Longrightarrow> hl_data l = hl_data l' \<Longrightarrow> l = (l' :: 'r hlink)"
  by (rule hlink.equality) simp_all

lemma recs_move:
  assumes "p \<notin> A" "i \<in> A" "finite A" "\<And>j. j \<in> A - {i} \<Longrightarrow> dat e' j = dat e j" "dat e' p = dat e i"
  shows "recs (insert p (A - {i})) e' = recs A e"
proof -
  have "recs (insert p (A - {i})) e' = add_mset (dat e i) (recs (A - {i}) e')"
    using recs_insert [of "A - {i}" p e'] assms by simp
  also have "recs (A - {i}) e' = recs (A - {i}) e" by (rule recs_cong) (rule assms)
  finally show ?thesis using recs_remove [OF assms(3,2), of e] by simp
qed

lemma move_last_correct:
  assumes ts: "table_size bl n" and bl0: "bl0 = next_size bl n" and n: "n < length e" "p \<le> n"
    and c: "chains ({..n} - {p}) e (bucket hashnr bl0 (n + 1)) ch"
  shows "\<exists>e' ch'. move_last hashnr e bl0 bl n p = Some e' \<and> length e' = length e \<and>
     chains {..<n} e' (bucket hashnr bl n) ch' \<and> recs {..<n} e' = recs ({..n} - {p}) e"
proof (cases "n = 0")
  case True
  with n have "p = 0" "{..n} - {p} = {}" "{..<n} = {}" by auto
  then show ?thesis
    using True by (intro exI [of _ e] exI [of _ "\<lambda>_. []"]) (simp add: move_last_def chains_def recs_def)
next
  case False
  let ?A = "{..n} - {p}" and ?m1 = "bucket hashnr bl0 (n + 1)" and ?m = "bucket hashnr bl n"
  define f where "f = n - bl div 2"
  have same: "?m1 r = bucket hashnr bl (n + 1) r" for r
    unfolding bl0 next_size_def by (rule table_size_grow(2) [OF ts])
  have m: "?m r = (if ?m1 r = n then f else ?m1 r)" for r
    unfolding same f_def by (rule hash_mask_grow(1) [OF ts False])
  have mn: "?m r < n" for r by (rule hash_mask_grow(3) [OF ts False])
  have fn: "f < n" using ts False by (auto simp: f_def table_size_def)
  have lk: "link_at e j = Some (e ! j)" if "j \<le> n" for j using that n by (simp add: link_at_def)
  have fin: "finite ?A" by simp
  note ml = move_last_def [of hashnr e bl0 bl n p]
  show ?thesis
  proof (cases "p = n")
    case True
    then have A: "?A = {..<n}" by auto
    have "ch n = []" by (rule chain_empty [OF c]) (simp add: True)
    then have "?m1 (dat e j) \<noteq> n" if "j \<in> ?A" for j
      using chain_mem [OF c, of j n] that by simp
    then have "chains {..<n} e ?m ch"
      using chains_mask [OF c, of ?m] m unfolding A by simp
    moreover have "move_last hashnr e bl0 bl n p = Some e" unfolding ml using True by simp
    ultimately show ?thesis using A by metis
  next
    case pn: False
    have nA: "n \<in> ?A" using pn by simp
    have pA: "p \<notin> ?A" "p < length e" "insert p (?A - {n}) = {..<n}" using n pn by auto
    let ?L = "?m1 (dat e n)" and ?pos = "?m (dat e n)"
    have hL: "?L \<in> ?A" "?m1 (dat e ?L) = ?L" "ch ?L = ?L # tl (ch ?L)"
      using chain_head [OF c nA refl] by simp_all
    have posn: "?pos < n" by (rule mn)
    have ready: "\<exists>e' ch'. move_last hashnr e bl0 bl n p = Some e' \<and> length e' = length e \<and>
        chains {..<n} e' ?m ch' \<and> recs {..<n} e' = recs ?A e"
      if "move_last hashnr e bl0 bl n p = Some e'" "length e' = length e" "chains {..<n} e' ?m ch'"
        "\<And>j. j < n \<Longrightarrow> dat e' j = (if j = p then dat e n else dat e j)" for e' ch'
    proof -
      have "recs (insert p (?A - {n})) e' = recs ?A e"
        by (rule recs_move [OF pA(1) nA fin]) (use that(4) n pn in auto)
      with that show ?thesis unfolding pA(3) by blast
    qed
    show ?thesis
    proof (cases "?pos = p")
      case True
      have L: "?L = n" using True hL(1) m [of "dat e n"] by (auto split: if_splits)
      then have fp: "f = p" using True m [of "dat e n"] by simp
      have run: "move_last hashnr e bl0 bl n p = Some (e[p := e ! n])"
        unfolding ml using pn True by (simp add: lk)
      have "chains (insert p (?A - {n})) (e[p := e ! n]) ?m (ch(n := [], p := p # tl (ch n)))"
        by (rule chains_take_over [OF c nA L pA(1,2)]) (use m fp in simp)
      then show ?thesis
        unfolding pA(3) by (rule ready [OF run, rotated]) (use n in \<open>auto simp: nth_list_update\<close>)
    next
      case posp: False
      have posA: "?pos \<in> ?A" using posn posp by simp
      let ?P = "?m1 (dat e ?pos)" and ?pos3 = "?m (dat e ?pos)"
      have run: "move_last hashnr e bl0 bl n p =
          (if ?pos \<noteq> ?pos3 then movelink (e[p := e ! ?pos, ?pos := e ! n]) (Some ?pos) ?pos3 (Some p)
           else if ?L = ?P \<and> ?L \<noteq> n then movelink (e[p := e ! n]) (Some n) ?pos (Some p)
           else do {
             e' \<leftarrow> movelink (e[p := e ! n]) (if ?L = ?P then Some ?pos else None) p (nxt e ?pos);
             pl \<leftarrow> link_at e' ?pos;
             Some (e'[?pos := pl\<lparr>hl_next := Some p\<rparr>]) })"
        unfolding ml using pn posp posn n by (simp add: lk Let_def link_at_def)
      show ?thesis
      proof (cases "?pos = ?pos3")
        case False
        have P: "?P \<noteq> ?pos" "?P = ?pos3"
        proof -
          show "?P \<noteq> ?pos" using False m [of "dat e ?pos"] posn by auto
          show "?P = ?pos3"
            using False m [of "dat e n"] m [of "dat e ?pos"] hL posn by (auto split: if_splits)
        qed
        have L: "?L = n" using P(1) hL(2) m [of "dat e n"] by (auto split: if_splits)
        then have pf: "?pos = f" using m [of "dat e n"] by simp
        obtain e' where e': "movelink (e[p := e ! f, f := e ! n]) (Some f) ?P (Some p) = Some e'"
          "length e' = length e" "e' ! f = e ! n" "\<forall>j. j \<noteq> f \<longrightarrow> dat e' j = (if j = p then dat e f else dat e j)"
          "chains (insert p (?A - {f})) e' ?m1 (ch(?P := map (\<lambda>x. if x = f then p else x) (ch ?P)))"
          using chains_relocate [OF c pA(1,2) posA refl P(1), of "e ! n"] unfolding pf by blast
        let ?B = "insert p (?A - {f})" and ?ch = "ch(?P := map (\<lambda>x. if x = f then p else x) (ch ?P))"
        have PN: "?P \<noteq> n" using P(2) mn [of "dat e ?pos"] by simp
        have nB: "n \<in> ?B" "f \<notin> ?B" "insert f (?B - {n}) = {..<n}"
          using fn pn posp pf n posA by auto
        have dn: "dat e' n = dat e n" using e'(4) fn pn by auto
        have "e' ! n = e ! n"
        proof (rule hlink_eqI [OF _ dn])
          have hn: "ch n = n # tl (ch n)" using hL(3) unfolding L .
          then have ne: "ch n \<noteq> []" "?ch n = ch n" using PN by auto
          have "path e (Some n) (n # tl (ch n)) None" "path e' (Some n) (n # tl (ch n)) None"
            using chainsD(4) [OF c ne(1)] chainsD(4) [OF e'(5), of n] ne hn by metis+
          then show "nxt e' n = nxt e n" by (cases "tl (ch n)") auto
        qed
        then have "e'[f := e' ! n] = e'" using e'(3) list_update_id [of e' f] by simp
        moreover have "chains (insert f (?B - {n})) (e'[f := e' ! n]) ?m (?ch(n := [], f := f # tl (?ch n)))"
          by (rule chains_take_over [OF e'(5) nB(1) _ nB(2)]) (use dn L m fn n e'(2) in auto)
        ultimately have C: "chains {..<n} e' ?m (?ch(n := [], f := f # tl (?ch n)))"
          unfolding nB(3) by simp
        have R: "recs {..<n} e' = recs ?A e"
        proof -
          have "recs {..<n} e' = recs ?B e'"
            unfolding nB(3) [symmetric]
            by (rule recs_move [OF nB(2,1)]) (use dn e'(3) in auto)
          also have "\<dots> = recs ?A e"
            by (rule recs_move [OF pA(1) _ fin]) (use posA pf posp e'(4) in auto)
          finally show ?thesis .
        qed
        have "move_last hashnr e bl0 bl n p = Some e'"
          unfolding run using False e'(1) P(2) pf by simp
        with C R e'(2) show ?thesis by blast
      next
        case pos3: True
        show ?thesis
        proof (cases "?L = ?P \<and> ?L \<noteq> n")
          case True
          have same_update: "e[p := e ! n, n := e ! n] = e[p := e ! n]"
            using pn by (metis list_update_id list_update_swap)
          have Lpos: "?pos = ?L" using True m [of "dat e n"] by simp
          obtain e' where e': "movelink (e[p := e ! n]) (Some n) ?L (Some p) = Some e'"
            "length e' = length e" "\<forall>j. j \<noteq> n \<longrightarrow> dat e' j = (if j = p then dat e n else dat e j)"
            "chains (insert p (?A - {n})) e' ?m1 (ch(?L := map (\<lambda>x. if x = n then p else x) (ch ?L)))"
            using chains_relocate [OF c pA(1,2) nA refl conjunct2 [OF True], of "e ! n"]
            unfolding same_update by blast
          have run': "move_last hashnr e bl0 bl n p = Some e'"
            unfolding run using pos3 True e'(1) Lpos by simp
          let ?ch = "ch(?L := map (\<lambda>x. if x = n then p else x) (ch ?L))"
          have nem: "?ch n = []"
          proof -
            have "ch n = []"
              by (rule chain_empty [OF c]) (use True in simp)
            then show ?thesis using True by simp
          qed
          have "chains {..<n} e' ?m ?ch"
            unfolding pA(3) [symmetric]
          proof (rule chains_mask [OF e'(4)])
            fix j assume "j \<in> insert p (?A - {n})"
            then have "?m1 (dat e' j) \<noteq> n"
              using chain_mem [OF e'(4), of j n] nem by simp
            then show "?m (dat e' j) = ?m1 (dat e' j)" by (simp add: m)
          qed
          then show ?thesis by (rule ready [OF run' e'(2)]) (use e'(3) in auto)
        next
          case F: False
          have L: "?L = n"
          proof (rule ccontr)
            assume a: "?L \<noteq> n"
            then have "?pos = ?L" using m [of "dat e n"] by simp
            with hL(2) F a show False by simp
          qed
          then have pf: "?pos = f" using m [of "dat e n"] by simp
          have fA: "f \<in> ?A" "?m (dat e f) = f" using posA pos3 pf by simp_all
          have fn': "f \<noteq> n" using fn by simp
          have hn: "ch n = n # tl (ch n)" using hL(3) unfolding L .
          have pth: "path e (nxt e n) (tl (ch n)) None" and dn: "distinct (n # tl (ch n))"
            using chainsD(1,4) [OF c, of n] hn by (metis list.distinct(1) path.simps(2), metis)
          have m': "\<And>j. j \<in> ?A \<Longrightarrow> ?m (dat e j) = (if ?m1 (dat e j) = n then f else ?m1 (dat e j))"
            by (rule m)
          note join = chains_join [OF c nA _ fA(1) fn' pA(1,2) m' fA(2)]
          have finish: ?thesis
            if j: "\<exists>e' pl. movelink (e[p := e ! n]) idx p (nxt e f) = Some e' \<and> link_at e' f = Some pl \<and>
              chains (insert p (?A - {n})) (e'[f := pl\<lparr>hl_next := Some p\<rparr>]) ?m ch' \<and> length e' = length e \<and>
              (\<forall>j. dat (e'[f := pl\<lparr>hl_next := Some p\<rparr>]) j = (if j = p then dat e n else dat e j))"
              and idx: "idx = (if ?L = ?P then Some f else None)" for idx ch'
          proof -
            obtain e' pl where e': "movelink (e[p := e ! n]) idx p (nxt e f) = Some e'" "link_at e' f = Some pl"
              "chains (insert p (?A - {n})) (e'[f := pl\<lparr>hl_next := Some p\<rparr>]) ?m ch'" "length e' = length e"
              "\<forall>j. dat (e'[f := pl\<lparr>hl_next := Some p\<rparr>]) j = (if j = p then dat e n else dat e j)"
              using j by blast
            have "move_last hashnr e bl0 bl n p = Some (e'[f := pl\<lparr>hl_next := Some p\<rparr>])"
              unfolding run using pos3 F e'(1,2) pf unfolding idx by (cases "?L = ?P") simp_all
            then show ?thesis
              by (rule ready) (use e' in \<open>simp_all add: pA(3)\<close>)
          qed
          show ?thesis
          proof (cases "?P = n")
            case True
            have "f \<in> set (ch n)" using True fA pf by (simp add: chain_mem [OF c])
            then have "f \<in> set (tl (ch n))" using hn fn' by (metis set_ConsD)
            then obtain us ws where t: "tl (ch n) = us @ f # ws" by (meson split_list)
            have "ch f = []" by (rule chain_empty [OF c]) (use True pf fn' in simp)
            then have "set (f # n # us @ ws) = set (ch f) \<union> set (ch n)"
              using t by (subst hn) auto
            moreover have "distinct (f # n # us @ ws)" using dn t fn' by auto
            moreover have "path e (nxt e n) us (Some f)" "path e (nxt e f) ws None"
              using pth unfolding t by (auto simp: path_append)
            moreover have "Some f \<notin> Some ` set (p # us)"
              using dn fA(1) unfolding t by auto
            moreover have "Some f = (if ?L = ?P then Some f else None)" using True L by simp
            ultimately show ?thesis by (intro finish [OF join [OF L]])
          next
            case False
            then have P: "?P = f" using m [of "dat e ?pos"] pos3 pf by simp
            have hf: "ch f = f # tl (ch f)" by (rule chain_head(3) [OF c fA(1)]) (use P pf in simp)
            have "path e (nxt e f) (tl (ch f)) None" and df: "distinct (f # tl (ch f))"
              using chainsD(1,4) [OF c, of f] hf by (metis list.distinct(1) path.simps(2), metis)
            moreover have "set (f # n # tl (ch n) @ tl (ch f)) = set (ch f) \<union> set (ch n)"
              using arg_cong [OF hn, of set] arg_cong [OF hf, of set] by auto
            moreover have "set (ch f) \<inter> set (ch n) = {}" using fn' by (auto simp: chain_mem [OF c])
            then have "set (f # tl (ch f)) \<inter> set (n # tl (ch n)) = {}" using hn hf by simp
            then have "distinct (f # n # tl (ch n) @ tl (ch f))"
              using dn df by auto
            moreover have "None = (if ?L = ?P then Some f else None)" "None \<notin> Some ` set (p # tl (ch n))"
              using P fn' L by auto
            ultimately show ?thesis using pth by (intro finish [OF join [OF L]])
          qed
        qed
      qed
    qed
  qed
qed

subsection \<open>The whole delete\<close>

text \<open>The buffer length of a table of \<open>n\<close> records that had one more.\<close>

definition prev_size :: "nat \<Rightarrow> nat \<Rightarrow> nat" where
  "prev_size bl n = (if n < drop_bit 1 bl then drop_bit 1 bl else bl)"

lemma link_delete_correct:
  assumes wf: "link_wf hashnr e bl0 (n + 1)" and c: "chains {..<n + 1} e (bucket hashnr bl0 (n + 1)) ch"
    and ch: "ch h = us @ i # ws"
  shows "\<exists>e1 p e2. unlink e (if us = [] then None else Some (last us)) i = Some (e1, p) \<and> p \<le> n \<and>
     move_last hashnr e1 bl0 (prev_size bl0 n) n p = Some e2 \<and> length e2 = length e \<and>
     link_wf hashnr e2 (prev_size bl0 n) n \<and>
     recs {..<n + 1} e = add_mset (dat e i) (recs {..<n} e2)"
proof -
  have A: "{..<n + 1} = {..n}" by auto
  have ts: "table_size bl0 (Suc n)" "n + 1 \<le> length e" using wf by (auto simp: link_wf_def)
  note sh = table_size_shrink [OF ts(1), folded prev_size_def]
  have bl0: "bl0 = next_size (prev_size bl0 n) n" unfolding next_size_def by (rule sh(2))
  obtain e1 p ch1 where e1: "unlink e (if us = [] then None else Some (last us)) i = Some (e1, p)"
    "length e1 = length e" "p \<in> {..n}" "chains ({..n} - {p}) e1 (bucket hashnr bl0 (n + 1)) ch1"
    "recs {..n} e = add_mset (dat e i) (recs ({..n} - {p}) e1)"
    using unlink_correct [OF c _ ch] unfolding A by auto
  have "n < length e1" "p \<le> n" using ts(2) e1(2,3) by auto
  from move_last_correct [OF sh(1) bl0 this e1(4)] obtain e2 ch2 where
    "move_last hashnr e1 bl0 (prev_size bl0 n) n p = Some e2" "length e2 = length e1"
    "chains {..<n} e2 (bucket hashnr (prev_size bl0 n) n) ch2" "recs {..<n} e2 = recs ({..n} - {p}) e1"
    by blast
  with e1 sh(1) ts(2) show ?thesis unfolding A link_wf_def by auto
qed

subsection \<open>A record put back at another place\<close>

text \<open>The record \<open>r\<close> in the free cell \<open>p\<close>, second in the chain of \<open>h\<close>.\<close>

lemma chains_second:
  assumes c: "chains A e m ch" and p: "p \<notin> A" "p < length e" and h: "h \<in> A" "m (dat e h) = h" and r: "m r = h"
  defines "e' \<equiv> e[p := \<lparr>hl_next = nxt e h, hl_data = r\<rparr>, h := (e ! h)\<lparr>hl_next := Some p\<rparr>]"
  shows "chains (insert p A) e' m (ch(h := h # p # tl (ch h)))" "length e' = length e"
    "dat e' j = (if j = p then r else dat e j)"
proof -
  have hp: "h \<noteq> p" using p h by auto
  note hl = chain_bound [OF c h(1)]
  have hc: "ch h = h # tl (ch h)" by (rule chain_head(3) [OF c h])
  then have ne: "ch h \<noteq> []" by (metis list.distinct(1))
  have d: "distinct (h # tl (ch h))" and ph: "path e (Some h) (h # tl (ch h)) None"
    using chainsD(1,4) [OF c, of h] ne hc by metis+
  have nin: "p \<notin> set (ch g)" for g using p by (simp add: chain_mem [OF c])
  have ptl: "p \<notin> set (tl (ch h))" using nin [of h] hc by (metis list.set_intros(2))
  have htl: "set (tl (ch h)) = set (ch h) - {h}"
    using d arg_cong [OF hc, of set] by auto
  show len: "length e' = length e" by (simp add: e'_def)
  have dt: "dat e' j = (if j = p then r else dat e j)" for j
    using hp hl p by (cases "j < length e") (auto simp: e'_def nth_list_update)
  then show "dat e' j = (if j = p then r else dat e j)" .
  show "chains (insert p A) e' m (ch(h := h # p # tl (ch h)))"
  proof (rule chainsI)
    fix g
    show "distinct ((ch(h := h # p # tl (ch h))) g)"
      using d hp ptl chainsD(1) [OF c] by auto
    show "set ((ch(h := h # p # tl (ch h))) g) = {j \<in> insert p A. m (dat e' j) = g}"
    proof -
      have "j \<in> set ((ch(h := h # p # tl (ch h))) g) \<longleftrightarrow> j \<in> insert p A \<and> m (dat e' j) = g" for j
        using dt [of j] r p(1) h htl chain_mem [OF c, of j g] by auto
      then show ?thesis by blast
    qed
    show "(ch(h := h # p # tl (ch h))) g \<noteq> [] \<Longrightarrow> hd ((ch(h := h # p # tl (ch h))) g) = g"
      using chainsD(3) [OF c] by auto
    show "path e' (Some g) ((ch(h := h # p # tl (ch h))) g) None" if g: "(ch(h := h # p # tl (ch h))) g \<noteq> []"
    proof (cases "g = h")
      case True
      then show ?thesis using ph d ptl hp hl p by (auto simp: e'_def)
    next
      case False
      then have "h \<notin> set (ch g)" using h by (auto simp: chain_mem [OF c])
      with False g nin [of g] show ?thesis by (simp add: e'_def chainsD(4) [OF c])
    qed
  qed
qed

lemma chains_displace:
  assumes c: "chains A e m ch" and fin: "finite A" and p: "p \<notin> A" "p < length e"
    and i: "i \<in> A" "m (dat e i) \<noteq> i" and r: "m r = i"
  shows "\<exists>e' ch'. movelink (e[p := e ! i]) (Some i) (m (dat e i)) (Some p) = Some e' \<and>
     length e' = length e \<and> chains (insert p A) (put_link e' i r None) m ch' \<and>
     recs (insert p A) (put_link e' i r None) = add_mset r (recs A e)"
proof -
  have ip: "i \<noteq> p" using i p by auto
  have same: "e[p := e ! i, i := e ! i] = e[p := e ! i]"
    using ip by (metis list_update_id list_update_swap)
  obtain e' ch' where e': "movelink (e[p := e ! i]) (Some i) (m (dat e i)) (Some p) = Some e'" "length e' = length e"
    "\<forall>j. j \<noteq> i \<longrightarrow> dat e' j = (if j = p then dat e i else dat e j)" "chains (insert p (A - {i})) e' m ch'"
    using chains_relocate [OF c p i(1) refl i(2), of "e ! i"] unfolding same by blast
  let ?B = "insert p (A - {i})" and ?e = "put_link e' i r None"
  have B: "i \<notin> ?B" "insert i ?B = insert p A" "finite ?B" using i ip fin by auto
  have il: "i < length e'" using chain_bound [OF c i(1)] e'(2) by simp
  have "chains (insert p A) ?e m (ch'(i := [i]))"
    using chains_start [OF e'(4) B(1) il r] unfolding B(2) .
  moreover have "recs (insert p A) ?e = add_mset r (recs A e)"
  proof -
    have "recs (insert i ?B) ?e = add_mset r (recs ?B ?e)"
      using recs_insert [OF B(3,1), of ?e] il by (simp add: put_link_def)
    also have "recs ?B ?e = recs ?B e'"
      by (rule recs_cong) (use B(1) in \<open>auto simp: put_link_def nth_list_update\<close>)
    also have "\<dots> = recs A e"
      by (rule recs_move [OF p(1) i(1) fin]) (use e'(3) ip p(1) in auto)
    finally show ?thesis unfolding B(2) .
  qed
  ultimately show ?thesis using e'(1,2) by blast
qed

end
