(* ===== verification/DynArray.thy ===== *)
theory DynArray
  imports Prelude
begin

text \<open>
  The arrays that grow of mysys/array.c. A buffer is a list of cells, one per element, so
  that \<open>memcpy\<close> of \<open>size_of_element\<close> bytes is an assignment of one cell; a null buffer is
  None. The counters are \<open>nat\<close>: no array of the program comes near \<open>2 ^ 32\<close> cells.

  The allocator is a parameter: \<open>alloc n\<close> is the contents \<open>my_malloc\<close> finds in a new block
  of \<open>n\<close> cells, or None when there is no memory. The theorems ask of it only that the
  block has the size asked for.
\<close>

subsection \<open>Structure and functions\<close>

record 'a DYNAMIC_ARRAY =
  buffer :: "'a list option"
  elements :: nat
  max_element :: nat
  alloc_increment :: nat
  size_of_element :: nat

type_synonym 'a allocator = "nat \<Rightarrow> 'a list option"

text \<open>\<open>my_realloc\<close> keeps the cells of the old block; \<open>MY_ALLOW_ZERO_PTR\<close> lets it be null.\<close>

definition my_realloc :: "'a allocator \<Rightarrow> 'a list option \<Rightarrow> nat \<Rightarrow> 'a list option" where
  "my_realloc alloc old n =
     map_option (\<lambda>fresh. case old of
         None \<Rightarrow> fresh
       | Some b \<Rightarrow> take n b @ drop (length b) fresh) (alloc n)"

definition malloc_overhead :: nat where
  "malloc_overhead = 8"

definition array_increment :: "nat \<Rightarrow> nat \<Rightarrow> nat \<Rightarrow> nat" where
  "array_increment element_size init_alloc alloc_inc =
     (if alloc_inc = 0 then
        (let inc = max ((8192 - malloc_overhead) div element_size) 16
         in if 8 < init_alloc \<and> init_alloc * 2 < inc then init_alloc * 2 else inc)
      else alloc_inc)"

definition init_dynamic_array ::
  "'a allocator \<Rightarrow> nat \<Rightarrow> nat \<Rightarrow> nat \<Rightarrow> 'a DYNAMIC_ARRAY \<times> bool" where
  "init_dynamic_array alloc element_size init_alloc alloc_inc =
     (let alloc_inc = array_increment element_size init_alloc alloc_inc;
        init_alloc = (if init_alloc = 0 then alloc_inc else init_alloc);
        arr = \<lparr>buffer = None, elements = 0, max_element = init_alloc,
               alloc_increment = alloc_inc, size_of_element = element_size\<rparr>
      in case alloc init_alloc of
           None \<Rightarrow> (arr\<lparr>max_element := 0\<rparr>, True)
         | Some b \<Rightarrow> (arr\<lparr>buffer := Some b\<rparr>, False))"

text \<open>The address returned is the index of the cell.\<close>

definition alloc_dynamic :: "'a allocator \<Rightarrow> 'a DYNAMIC_ARRAY \<Rightarrow> 'a DYNAMIC_ARRAY \<times> nat option" where
  "alloc_dynamic alloc a =
     (if elements a = max_element a then
        (case my_realloc alloc (buffer a) (max_element a + alloc_increment a) of
           None \<Rightarrow> (a, None)
         | Some b \<Rightarrow> (a\<lparr>buffer := Some b, max_element := max_element a + alloc_increment a,
                        elements := elements a + 1\<rparr>, Some (elements a)))
      else (a\<lparr>elements := elements a + 1\<rparr>, Some (elements a)))"

definition insert_dynamic :: "'a allocator \<Rightarrow> 'a DYNAMIC_ARRAY \<Rightarrow> 'a \<Rightarrow> 'a DYNAMIC_ARRAY \<times> bool" where
  "insert_dynamic alloc a element =
     (let (a', buf) =
        (if elements a = max_element a then alloc_dynamic alloc a
         else (a\<lparr>elements := elements a + 1\<rparr>, Some (elements a)))
      in case buf of
           None \<Rightarrow> (a', True)
         | Some i \<Rightarrow> (a'\<lparr>buffer := map_option (\<lambda>b. b[i := element]) (buffer a')\<rparr>, False))"

definition pop_dynamic :: "'a DYNAMIC_ARRAY \<Rightarrow> 'a DYNAMIC_ARRAY \<times> nat option" where
  "pop_dynamic a =
     (if elements a \<noteq> 0 then (a\<lparr>elements := elements a - 1\<rparr>, Some (elements a - 1))
      else (a, None))"

text \<open>\<open>zero\<close> is the element whose bytes are all zero, what \<open>bzero\<close> leaves.\<close>

definition set_dynamic ::
  "'a allocator \<Rightarrow> 'a \<Rightarrow> 'a DYNAMIC_ARRAY \<Rightarrow> 'a \<Rightarrow> nat \<Rightarrow> 'a DYNAMIC_ARRAY \<times> bool" where
  "set_dynamic alloc zero a element idx =
     (let store = (\<lambda>a. a\<lparr>buffer := map_option (\<lambda>b. b[idx := element]) (buffer a)\<rparr>);
        fill = (\<lambda>a. a\<lparr>buffer := map_option (\<lambda>b. take (elements a) b @
                            replicate (idx - elements a) zero @ drop idx b) (buffer a),
                      elements := idx + 1\<rparr>)
      in if elements a \<le> idx then
           (if max_element a \<le> idx then
              (let size = (idx + alloc_increment a) div alloc_increment a * alloc_increment a
               in case my_realloc alloc (buffer a) size of
                    None \<Rightarrow> (a, True)
                  | Some b \<Rightarrow> (store (fill (a\<lparr>buffer := Some b, max_element := size\<rparr>)), False))
            else (store (fill a), False))
         else (store a, False))"

definition get_dynamic :: "'a \<Rightarrow> 'a DYNAMIC_ARRAY \<Rightarrow> nat \<Rightarrow> 'a option" where
  "get_dynamic zero a idx =
     (if elements a \<le> idx then Some zero
      else (case buffer a of None \<Rightarrow> None | Some b \<Rightarrow> if idx < length b then Some (b ! idx) else None))"

definition delete_dynamic :: "'a DYNAMIC_ARRAY \<Rightarrow> 'a DYNAMIC_ARRAY" where
  "delete_dynamic a =
     (if buffer a \<noteq> None then a\<lparr>buffer := None, elements := 0, max_element := 0\<rparr> else a)"

text \<open>An index past the last element makes the \<open>memmove\<close> run out of the buffer: no result.\<close>

definition delete_dynamic_element :: "'a DYNAMIC_ARRAY \<Rightarrow> nat \<Rightarrow> 'a DYNAMIC_ARRAY option" where
  "delete_dynamic_element a idx =
     (case buffer a of
        None \<Rightarrow> None
      | Some b \<Rightarrow>
          if elements a \<le> idx then None
          else let n = elements a - 1
               in Some (a\<lparr>elements := n,
                    buffer := Some (take idx b @ take (n - idx) (drop (idx + 1) b) @ drop n b)\<rparr>))"

definition freeze_size :: "'a allocator \<Rightarrow> 'a DYNAMIC_ARRAY \<Rightarrow> 'a DYNAMIC_ARRAY" where
  "freeze_size alloc a =
     (let els = max (elements a) 1
      in if buffer a \<noteq> None \<and> max_element a \<noteq> els
         then a\<lparr>buffer := my_realloc alloc (buffer a) els, max_element := els\<rparr> else a)"

subsection \<open>Invariant and contents\<close>

definition sound_alloc :: "'a allocator \<Rightarrow> bool" where
  "sound_alloc alloc \<longleftrightarrow> (\<forall>n b. alloc n = Some b \<longrightarrow> length b = n)"

definition dyn_wf :: "'a DYNAMIC_ARRAY \<Rightarrow> bool" where
  "dyn_wf a \<longleftrightarrow> elements a \<le> max_element a \<and> 0 < alloc_increment a \<and>
     (case buffer a of None \<Rightarrow> max_element a = 0 | Some b \<Rightarrow> length b = max_element a)"

definition contents :: "'a DYNAMIC_ARRAY \<Rightarrow> 'a list" where
  "contents a = (case buffer a of None \<Rightarrow> [] | Some b \<Rightarrow> take (elements a) b)"

lemma sound_allocD: "sound_alloc alloc \<Longrightarrow> alloc n = Some b \<Longrightarrow> length b = n"
  by (simp add: sound_alloc_def)

lemma my_realloc_Some:
  "sound_alloc alloc \<Longrightarrow> my_realloc alloc (Some b) n = Some b' \<Longrightarrow> length b \<le> n \<Longrightarrow>
   length b' = n \<and> take (length b) b' = b"
  by (auto simp: my_realloc_def sound_alloc_def)

lemma my_realloc_None:
  "sound_alloc alloc \<Longrightarrow> my_realloc alloc None n = Some b' \<Longrightarrow> length b' = n"
  by (auto simp: my_realloc_def sound_alloc_def)

lemma my_realloc_grow:
  assumes "sound_alloc alloc" "dyn_wf a" "my_realloc alloc (buffer a) n = Some b" "max_element a \<le> n"
  shows "length b = n" "take (elements a) b = contents a"
proof -
  show "length b = n"
    using assms by (cases "buffer a") (auto simp: dyn_wf_def dest: my_realloc_Some my_realloc_None)
  show "take (elements a) b = contents a"
  proof (cases "buffer a")
    case None
    with assms show ?thesis by (simp add: dyn_wf_def contents_def)
  next
    case (Some b0)
    with assms have "take (max_element a) b = b0" "elements a \<le> max_element a"
      by (auto simp: dyn_wf_def dest: my_realloc_Some)
    with Some show ?thesis by (auto simp: contents_def min_absorb1 dest!: sym [of _ b0])
  qed
qed

lemma length_contents: "dyn_wf a \<Longrightarrow> length (contents a) = elements a"
  by (auto simp: dyn_wf_def contents_def split: option.splits)

lemma array_increment_pos: "0 < array_increment sz n inc"
  by (simp add: array_increment_def Let_def max_def)

lemma init_dynamic_array_correct:
  assumes al: "sound_alloc alloc" and ini: "init_dynamic_array alloc sz n inc = (a, failed)"
  shows "dyn_wf a \<and> contents a = [] \<and> elements a = 0 \<and> (failed \<longleftrightarrow> buffer a = None)"
proof (cases "alloc (if n = 0 then array_increment sz n inc else n)")
  case None
  with ini have "a = \<lparr>buffer = None, elements = 0, max_element = 0,
       alloc_increment = array_increment sz n inc, size_of_element = sz\<rparr> \<and> failed"
    by (simp add: init_dynamic_array_def Let_def)
  then show ?thesis by (simp add: dyn_wf_def contents_def array_increment_pos)
next
  case (Some b)
  with ini have "a = \<lparr>buffer = Some b, elements = 0,
       max_element = (if n = 0 then array_increment sz n inc else n),
       alloc_increment = array_increment sz n inc, size_of_element = sz\<rparr> \<and> \<not> failed"
    by (simp only: init_dynamic_array_def Let_def) auto
  with sound_allocD [OF al Some] show ?thesis
    by (simp add: dyn_wf_def contents_def array_increment_pos)
qed

lemma alloc_dynamic_correct:
  assumes "sound_alloc alloc" "dyn_wf a" "alloc_dynamic alloc a = (a', Some i)"
  shows "dyn_wf a'" "i = elements a" "elements a' = Suc (elements a)" "take (elements a) (contents a') = contents a"
proof -
  note g = my_realloc_grow [OF assms(1,2)]
  have s: "dyn_wf a' \<and> i = elements a \<and> elements a' = Suc (elements a) \<and> take (elements a) (contents a') = contents a"
  proof (cases "elements a = max_element a")
    case True
    from assms(3) [unfolded alloc_dynamic_def if_P [OF True]]
    obtain b where b: "my_realloc alloc (buffer a) (max_element a + alloc_increment a) = Some b"
      by (cases "my_realloc alloc (buffer a) (max_element a + alloc_increment a)") simp_all
    from assms(3) b True
    have a': "a' = a\<lparr>buffer := Some b, max_element := max_element a + alloc_increment a, elements := elements a + 1\<rparr>"
      and i: "i = elements a"
      by (auto simp add: alloc_dynamic_def)
    note gb = g [OF b le_add1]
    have c: "contents a' = take (Suc (elements a)) b"
      by (simp add: a' contents_def)
    have "dyn_wf a'"
      using gb(1) True assms(2) by (simp add: a' dyn_wf_def)
    with i c gb(2) show ?thesis by (simp add: a' min_absorb1)
  next
    case False
    with assms show ?thesis
      by (auto simp: alloc_dynamic_def dyn_wf_def contents_def min_def split: option.splits)
  qed
  then show "dyn_wf a'" "i = elements a" "elements a' = Suc (elements a)"
    "take (elements a) (contents a') = contents a" by auto
qed

lemma alloc_dynamic_fails:
  "alloc_dynamic alloc a = (a', None) \<Longrightarrow> a' = a \<and> alloc (max_element a + alloc_increment a) = None"
  by (auto simp: alloc_dynamic_def my_realloc_def split: if_splits option.splits)

text \<open>Writing a cell, and what the other operations do to the contents.\<close>

lemma contents_update:
  "dyn_wf a \<Longrightarrow> i < elements a \<Longrightarrow>
   dyn_wf (a\<lparr>buffer := map_option (\<lambda>b. b[i := x]) (buffer a)\<rparr>) \<and>
   contents (a\<lparr>buffer := map_option (\<lambda>b. b[i := x]) (buffer a)\<rparr>) = (contents a)[i := x]"
  by (cases "buffer a") (auto simp: dyn_wf_def contents_def take_update_swap)

lemma contents_snoc:
  assumes "length cs = Suc n" "take n cs = xs"
  shows "cs[n := x] = xs @ [x]"
proof -
  have "cs[n := x] = take n cs @ x # drop (Suc n) cs"
    using assms(1) by (simp add: upd_conv_take_nth_drop)
  with assms show ?thesis by simp
qed

lemma insert_dynamic_correct:
  assumes al: "sound_alloc alloc" and wf: "dyn_wf a"
    and ins: "insert_dynamic alloc a x = (a', failed)"
  shows "if failed then a' = a \<and> alloc (max_element a + alloc_increment a) = None
         else dyn_wf a' \<and> contents a' = contents a @ [x]"
proof (cases "alloc_dynamic alloc a")
  case (Pair b r)
  have ins': "insert_dynamic alloc a x = (case r of None \<Rightarrow> (b, True)
      | Some i \<Rightarrow> (b\<lparr>buffer := map_option (\<lambda>c. c[i := x]) (buffer b)\<rparr>, False))"
    using Pair by (auto simp: insert_dynamic_def alloc_dynamic_def split: if_splits)
  show ?thesis
  proof (cases r)
    case None
    with ins ins' Pair show ?thesis by (auto dest: alloc_dynamic_fails)
  next
    case (Some i)
    note c = alloc_dynamic_correct [OF al wf Pair [unfolded Some]]
    have "length (contents b) = Suc (elements a)"
      using c by (simp add: length_contents)
    from contents_snoc [OF this c(4)] contents_update [OF c(1), of i x] c ins ins' Some
    show ?thesis by auto
  qed
qed

lemma pop_dynamic_correct:
  "dyn_wf a \<Longrightarrow> pop_dynamic a =
     (if contents a = [] then (a, None) else (a\<lparr>elements := elements a - 1\<rparr>, Some (elements a - 1)))"
  by (cases "buffer a") (auto simp: pop_dynamic_def dyn_wf_def contents_def)

lemma contents_pop:
  "dyn_wf a \<Longrightarrow> contents (a\<lparr>elements := elements a - 1\<rparr>) = butlast (contents a) \<and>
     dyn_wf (a\<lparr>elements := elements a - 1\<rparr>)"
  by (cases "buffer a") (auto simp: dyn_wf_def contents_def butlast_take)

text \<open>\<open>set_dynamic\<close> past the end fills the gap with zeroes.\<close>

definition set_spec :: "'a \<Rightarrow> 'a list \<Rightarrow> nat \<Rightarrow> 'a \<Rightarrow> 'a list" where
  "set_spec zero xs i x =
     (if i < length xs then xs[i := x] else xs @ replicate (i - length xs) zero @ [x])"

lemma set_fill:
  assumes "length b = m" "n \<le> i" "i < m"
  shows "take (Suc i) ((take n b @ replicate (i - n) z @ drop i b)[i := x])
     = take n b @ replicate (i - n) z @ [x]"
  using assms by (auto simp: list_update_append take_Suc_conv_app_nth nth_append)

lemma set_size:
  assumes "0 < (inc::nat)"
  shows "idx < (idx + inc) div inc * inc"
  using assms dividend_less_div_times [of inc idx] by (simp add: div_add_self2 add.commute)

lemma set_dynamic_correct:
  assumes al: "sound_alloc alloc" and wf: "dyn_wf a"
    and set: "set_dynamic alloc zero a x i = (a', failed)"
  shows "if failed then a' = a else dyn_wf a' \<and> contents a' = set_spec zero (contents a) i x"
proof (cases "i < elements a")
  case True
  with wf set contents_update [OF wf True, of x] show ?thesis
    by (auto simp: set_dynamic_def Let_def set_spec_def length_contents)
next
  case beyond: False
  let ?size = "(i + alloc_increment a) div alloc_increment a * alloc_increment a"
  show ?thesis
  proof (cases "i < max_element a")
    case True
    then obtain b where b: "buffer a = Some b" "length b = max_element a"
      using wf by (cases "buffer a") (auto simp: dyn_wf_def)
    show ?thesis
      using beyond True set wf b
      by (auto simp: set_dynamic_def Let_def set_spec_def length_contents dyn_wf_def contents_def
          set_fill [OF b(2)])
  next
    case False
    have sz: "i < ?size" using wf by (intro set_size) (simp add: dyn_wf_def)
    show ?thesis
    proof (cases "my_realloc alloc (buffer a) ?size")
      case None
      with beyond False set show ?thesis by (auto simp: set_dynamic_def Let_def)
    next
      case (Some b)
      have m: "max_element a \<le> ?size" using sz False by simp
      note g = my_realloc_grow [OF al wf Some m]
      have n: "elements a \<le> ?size" using m wf by (simp add: dyn_wf_def)
      have f: "take (Suc i) ((take (elements a) b @ replicate (i - elements a) zero @ drop i b)[i := x])
          = contents a @ replicate (i - elements a) zero @ [x]"
        using beyond sz g by (subst set_fill) auto
      have w: "length ((take (elements a) b @ replicate (i - elements a) zero @ drop i b)[i := x]) = ?size"
        using beyond sz g(1) n by (simp add: min_absorb1)
      from set beyond False Some
      have "a' = a\<lparr>buffer := Some ((take (elements a) b @ replicate (i - elements a) zero @ drop i b)[i := x]),
          max_element := ?size, elements := Suc i\<rparr> \<and> \<not> failed"
        by (auto simp: set_dynamic_def Let_def)
      then have a': "a' = a\<lparr>buffer := Some ((take (elements a) b @ replicate (i - elements a) zero @ drop i b)[i := x]),
          max_element := ?size, elements := Suc i\<rparr>" and ok: "\<not> failed" by auto
      have "contents a' = set_spec zero (contents a) i x"
        using f beyond by (simp add: a' contents_def [of "_\<lparr>elements := _\<rparr>"] set_spec_def length_contents [OF wf])
      moreover have "dyn_wf a'"
        using w sz wf by (simp add: a' dyn_wf_def)
      ultimately show ?thesis using ok by simp
    qed
  qed
qed

lemma get_dynamic_correct:
  "dyn_wf a \<Longrightarrow> get_dynamic zero a i = Some (if i < length (contents a) then contents a ! i else zero)"
  by (cases "buffer a") (auto simp: get_dynamic_def length_contents dyn_wf_def contents_def)

lemma delete_dynamic_element_correct:
  assumes "dyn_wf a" "i < length (contents a)"
  shows "\<exists>a'. delete_dynamic_element a i = Some a' \<and> dyn_wf a' \<and>
     contents a' = take i (contents a) @ drop (Suc i) (contents a)"
proof -
  obtain b where b: "buffer a = Some b" "length b = max_element a" "elements a \<le> max_element a"
    using assms by (cases "buffer a") (auto simp: dyn_wf_def contents_def)
  obtain k where "elements a = Suc (i + k)"
    using assms by (metis length_contents less_imp_Suc_add)
  with assms b show ?thesis
    by (auto simp: delete_dynamic_element_def dyn_wf_def contents_def Let_def min_def take_drop add.commute)
qed

lemma freeze_size_correct:
  assumes al: "sound_alloc alloc" and wf: "dyn_wf a" and ok: "\<forall>n. alloc n \<noteq> None" and b: "buffer a \<noteq> None"
  shows "dyn_wf (freeze_size alloc a)" "contents (freeze_size alloc a) = contents a"
    "max_element (freeze_size alloc a) = max (elements a) 1"
proof -
  define m where "m = max (elements a) 1"
  obtain c where c: "buffer a = Some c" "length c = max_element a" "elements a \<le> max_element a"
    using wf b by (auto simp: dyn_wf_def)
  obtain d where d: "alloc m = Some d" "length d = m"
    using al ok unfolding sound_alloc_def by (metis not_None_eq)
  have m: "elements a \<le> m" "1 \<le> m" by (auto simp: m_def)
  have "dyn_wf (freeze_size alloc a) \<and> contents (freeze_size alloc a) = contents a \<and>
     max_element (freeze_size alloc a) = m"
    using c d m wf unfolding freeze_size_def m_def [symmetric] Let_def
    by (auto simp: my_realloc_def dyn_wf_def contents_def min_absorb1 min_absorb2)
  then show "dyn_wf (freeze_size alloc a)" "contents (freeze_size alloc a) = contents a"
    "max_element (freeze_size alloc a) = max (elements a) 1"
    by (simp_all add: m_def)
qed

end
