(* ===== verification/HashTable.thy ===== *)
theory HashTable
  imports LinkDelete DynArray
begin

text \<open>
  The hash of record pointers of mysys/hash.c. A record pointer is a value of type \<open>'r\<close>;
  the bytes it points to are given by \<open>mem\<close>, so that a change of a record in place is
  another \<open>mem\<close>. The function \<open>get_key\<close> of the structure maps the bytes of a record and the
  flag \<open>first\<close> to the bytes of its key. The links are the cells of a dynamic array. The
  table of upper case letters of the character set is the parameter \<open>to_upper\<close>.

  What the callback \<open>free\<close> is called with is returned as a list. A value None means that the
  code reads or writes outside the array; the theorems show that this does not happen.
\<close>

subsection \<open>Hash numbers\<close>

type_synonym bytes = "uchar list"

definition calc_hashnr_step :: "uint \<times> uint \<Rightarrow> uint \<Rightarrow> uint \<times> uint" where
  "calc_hashnr_step = (\<lambda>(nr, nr2) c.
     (nr XOR (((nr AND 63) + nr2) * c + push_bit 8 nr), nr2 + 3))"

definition calc_hashnr :: "bytes \<Rightarrow> nat \<Rightarrow> uint" where
  "calc_hashnr key n = fst (foldl calc_hashnr_step (1, 4) (map ucast (take n key)))"

definition calc_hashnr_caseup :: "(uchar \<Rightarrow> uchar) \<Rightarrow> bytes \<Rightarrow> nat \<Rightarrow> uint" where
  "calc_hashnr_caseup to_upper key n =
     fst (foldl calc_hashnr_step (1, 4) (map (\<lambda>c. ucast (to_upper c)) (take n key)))"

text \<open>The Fowler/Noll/Vo functions of a build with \<open>NEW_HASH_FUNCTION\<close>.\<close>

definition calc_hashnr_fnv :: "bytes \<Rightarrow> nat \<Rightarrow> uint" where
  "calc_hashnr_fnv key n = foldl (\<lambda>hash c. (hash * 16777619) XOR ucast c) 0 (take n key)"

definition calc_hashnr_caseup_fnv :: "(uchar \<Rightarrow> uchar) \<Rightarrow> bytes \<Rightarrow> nat \<Rightarrow> uint" where
  "calc_hashnr_caseup_fnv to_upper key n =
     foldl (\<lambda>hash c. (hash * 16777619) XOR ucast (to_upper c)) 0 (take n key)"

subsection \<open>Structure\<close>

record 'r HASH =
  key_offset :: nat
  key_length :: nat
  records :: nat
  blength :: nat
  current_record :: "nat option"
  case_insensitive :: bool
  array :: "'r hlink DYNAMIC_ARRAY"
  get_key :: "(bytes \<Rightarrow> bool \<Rightarrow> bytes) option"
  frees :: bool
  hash_fn :: "bytes \<Rightarrow> nat \<Rightarrow> uint"

text \<open>The size of \<open>HASH_LINK\<close> where a pointer has eight bytes.\<close>

definition hash_link_size :: nat where
  "hash_link_size = 16"

definition hash_init ::
  "'r hlink allocator \<Rightarrow> (uchar \<Rightarrow> uchar) \<Rightarrow> 'r HASH \<Rightarrow> nat \<Rightarrow> nat \<Rightarrow> nat \<Rightarrow>
    (bytes \<Rightarrow> bool \<Rightarrow> bytes) option \<Rightarrow> bool \<Rightarrow> bool \<Rightarrow> 'r HASH \<times> bool" where
  "hash_init alloc to_upper h sz koffset klength gkey free_element caseless =
     (let (arr, err) = init_dynamic_array alloc hash_link_size sz 0;
        h = h\<lparr>records := 0, array := arr\<rparr>
      in if err then (h\<lparr>frees := False\<rparr>, True)
         else (h\<lparr>key_offset := koffset, key_length := klength, blength := 1, current_record := None,
                 get_key := gkey, frees := free_element, case_insensitive := caseless,
                 hash_fn := (if caseless then calc_hashnr_caseup to_upper else calc_hashnr)\<rparr>, False))"

definition cells :: "'r HASH \<Rightarrow> 'r hlink list" where
  "cells h = (case buffer (array h) of None \<Rightarrow> [] | Some b \<Rightarrow> b)"

definition set_cells :: "'r hlink list \<Rightarrow> 'r HASH \<Rightarrow> 'r HASH" where
  "set_cells e h = h\<lparr>array := (array h)\<lparr>buffer := Some e\<rparr>\<rparr>"

definition hash_free :: "'r HASH \<Rightarrow> 'r HASH \<times> 'r list" where
  "hash_free h =
     (let freed = (if frees h then map hl_data (take (records h) (cells h)) else []);
        h = (if frees h then h\<lparr>frees := False\<rparr> else h)
      in (h\<lparr>array := delete_dynamic (array h), records := 0\<rparr>, freed))"

definition hash_key :: "('r \<Rightarrow> bytes) \<Rightarrow> 'r HASH \<Rightarrow> 'r \<Rightarrow> bool \<Rightarrow> bytes" where
  "hash_key mem h r first =
     (case get_key h of
        Some f \<Rightarrow> f (mem r) first
      | None \<Rightarrow> take (key_length h) (drop (key_offset h) (mem r)))"

definition rec_hashnr :: "('r \<Rightarrow> bytes) \<Rightarrow> 'r HASH \<Rightarrow> 'r \<Rightarrow> uint" where
  "rec_hashnr mem h r = (let key = hash_key mem h r False in hash_fn h key (length key))"

abbreviation hashnr_of :: "('r \<Rightarrow> bytes) \<Rightarrow> 'r HASH \<Rightarrow> 'r \<Rightarrow> nat" where
  "hashnr_of mem h r \<equiv> unat (rec_hashnr mem h r)"

definition hash_rec_mask :: "('r \<Rightarrow> bytes) \<Rightarrow> 'r HASH \<Rightarrow> 'r hlink \<Rightarrow> nat \<Rightarrow> nat \<Rightarrow> nat" where
  "hash_rec_mask mem h pos buffmax maxlength =
     (let key = hash_key mem h (hl_data pos) False
      in hash_mask (unat (hash_fn h key (length key))) buffmax maxlength)"

text \<open>
  \<open>memcmp\<close> and \<open>my_casecmp\<close> of the key of the record and as many bytes of \<open>key\<close>; a length of
  0 leaves the comparison of lengths out. Here 0 (identical) is False.
\<close>

definition my_casecmp :: "(uchar \<Rightarrow> uchar) \<Rightarrow> bytes \<Rightarrow> bytes \<Rightarrow> bool" where
  "my_casecmp to_upper s t \<longleftrightarrow> map to_upper s \<noteq> map to_upper t"

definition hashcmp :: "('r \<Rightarrow> bytes) \<Rightarrow> (uchar \<Rightarrow> uchar) \<Rightarrow> 'r HASH \<Rightarrow> 'r \<Rightarrow> bytes \<Rightarrow> nat \<Rightarrow> bool" where
  "hashcmp mem to_upper h r key n =
     (let rec_key = hash_key mem h r True; rec_keylength = length rec_key
      in (n \<noteq> 0 \<and> n \<noteq> rec_keylength) \<or>
         (if case_insensitive h then my_casecmp to_upper rec_key (take rec_keylength key)
          else rec_key \<noteq> take rec_keylength key))"

subsection \<open>Search\<close>

definition hash_search ::
  "('r \<Rightarrow> bytes) \<Rightarrow> (uchar \<Rightarrow> uchar) \<Rightarrow> 'r HASH \<Rightarrow> bytes \<Rightarrow> nat \<Rightarrow> ('r HASH \<times> 'r option) option" where
  "hash_search mem to_upper h key n =
     (if records h = 0 then Some (h\<lparr>current_record := None\<rparr>, None)
      else
        (let idx = hash_mask (unat (hash_fn h key (if n \<noteq> 0 then n else key_length h))) (blength h) (records h)
         in case search_link (\<lambda>r. \<not> hashcmp mem to_upper h r key n)
                 (\<lambda>r. hash_mask (hashnr_of mem h r) (blength h) (records h) \<noteq> idx) (cells h) True idx of
              None \<Rightarrow> None
            | Some None \<Rightarrow> Some (h\<lparr>current_record := None\<rparr>, None)
            | Some (Some idx) \<Rightarrow> Some (h\<lparr>current_record := Some idx\<rparr>, Some (hl_data (cells h ! idx)))))"

definition hash_next ::
  "('r \<Rightarrow> bytes) \<Rightarrow> (uchar \<Rightarrow> uchar) \<Rightarrow> 'r HASH \<Rightarrow> bytes \<Rightarrow> nat \<Rightarrow> ('r HASH \<times> 'r option) option" where
  "hash_next mem to_upper h key n =
     (case current_record h of
        None \<Rightarrow> Some (h, None)
      | Some cur \<Rightarrow>
          do {
            l \<leftarrow> link_at (cells h) cur;
            case hl_next l of
              None \<Rightarrow> Some (h\<lparr>current_record := None\<rparr>, None)
            | Some idx \<Rightarrow>
                (case search_link (\<lambda>r. \<not> hashcmp mem to_upper h r key n) (\<lambda>_. False) (cells h) False idx of
                   None \<Rightarrow> None
                 | Some None \<Rightarrow> Some (h\<lparr>current_record := None\<rparr>, None)
                 | Some (Some idx) \<Rightarrow> Some (h\<lparr>current_record := Some idx\<rparr>, Some (hl_data (cells h ! idx))))
          })"

subsection \<open>Insert, delete and update\<close>

definition hash_insert ::
  "'r hlink allocator \<Rightarrow> ('r \<Rightarrow> bytes) \<Rightarrow> 'r HASH \<Rightarrow> 'r \<Rightarrow> ('r HASH \<times> bool) option" where
  "hash_insert alloc mem h r =
     (case alloc_dynamic alloc (array h) of
        (arr, None) \<Rightarrow> Some (h\<lparr>array := arr\<rparr>, True)
      | (arr, Some _) \<Rightarrow>
          do {
            let h = h\<lparr>array := arr, current_record := None\<rparr>;
            (e, _) \<leftarrow> link_insert (hashnr_of mem h) (cells h) (blength h) (records h) r (hashnr_of mem h r);
            let h = (set_cells e h)\<lparr>records := records h + 1\<rparr>;
            Some (if records h = blength h then h\<lparr>blength := blength h + blength h\<rparr> else h, False)
          })"

definition hash_delete ::
  "('r \<Rightarrow> bytes) \<Rightarrow> 'r HASH \<Rightarrow> 'r \<Rightarrow> ('r HASH \<times> bool \<times> 'r list) option" where
  "hash_delete mem h r =
     (if records h = 0 then Some (h, True, [])
      else do {
        let blength0 = blength h;
        f \<leftarrow> find_link (cells h) r None (hash_mask (hashnr_of mem h r) blength0 (records h));
        case f of
          None \<Rightarrow> Some (h, True, [])
        | Some (gpos, pos) \<Rightarrow>
            do {
              let h = h\<lparr>records := records h - 1\<rparr>;
              let h = (if records h < drop_bit 1 (blength h) then h\<lparr>blength := drop_bit 1 (blength h)\<rparr> else h);
              let h = h\<lparr>current_record := None\<rparr>;
              (e, emp) \<leftarrow> unlink (cells h) gpos pos;
              e \<leftarrow> move_last (hashnr_of mem h) e blength0 (blength h) (records h) emp;
              let h = set_cells e h;
              let h = h\<lparr>array := fst (pop_dynamic (array h))\<rparr>;
              Some (h, False, if frees h then [r] else [])
            }
      })"

definition hash_update ::
  "('r \<Rightarrow> bytes) \<Rightarrow> 'r HASH \<Rightarrow> 'r \<Rightarrow> bytes \<Rightarrow> nat \<Rightarrow> ('r HASH \<times> bool) option" where
  "hash_update mem h r old_key old_key_length =
     (let idx = hash_mask (unat (hash_fn h old_key (if old_key_length \<noteq> 0 then old_key_length else key_length h)))
                  (blength h) (records h);
        new_index = hash_mask (hashnr_of mem h r) (blength h) (records h)
      in if idx = new_index then Some (h, False)
         else do {
           f \<leftarrow> find_link (cells h) r None idx;
           case f of
             None \<Rightarrow> Some (h, True)
           | Some (previous, idx) \<Rightarrow>
               do {
                 let h = h\<lparr>current_record := None\<rparr>;
                 org_link \<leftarrow> link_at (cells h) idx;
                 (e, emp) \<leftarrow> unlink (cells h) previous idx;
                 pos \<leftarrow> link_at e new_index;
                 let new_pos_index = hash_rec_mask mem h pos (blength h) (records h);
                 if new_index \<noteq> new_pos_index
                 then do {
                   e \<leftarrow> movelink (e[emp := pos]) (Some new_index) new_pos_index (Some emp);
                   Some (set_cells (e[new_index := org_link\<lparr>hl_next := None\<rparr>]) h, False) }
                 else do {
                   let e = e[emp := org_link\<lparr>hl_next := hl_next pos\<rparr>];
                   pos \<leftarrow> link_at e new_index;
                   Some (set_cells (e[new_index := pos\<lparr>hl_next := Some emp\<rparr>]) h, False) }
               }
         })"

definition hash_element :: "'r HASH \<Rightarrow> nat \<Rightarrow> 'r option" where
  "hash_element h idx = (if idx < records h then Some (hl_data (cells h ! idx)) else None)"

definition hash_replace :: "'r HASH \<Rightarrow> nat option \<Rightarrow> 'r \<Rightarrow> 'r HASH option" where
  "hash_replace h idx new_row =
     (case idx of
        None \<Rightarrow> Some h
      | Some i \<Rightarrow> do { l \<leftarrow> link_at (cells h) i; Some (set_cells ((cells h)[i := l\<lparr>hl_data := new_row\<rparr>]) h) })"

subsection \<open>The check of a debug build\<close>

text \<open>
  The walk through one bucket counts the records found there; it stops when it has counted
  more than there are, and following a link out of the array has no result.
\<close>

partial_function (option) check_chain ::
  "('r hlink \<Rightarrow> nat) \<Rightarrow> 'r hlink list \<Rightarrow> nat \<Rightarrow> nat \<Rightarrow> nat option \<Rightarrow> nat \<times> bool \<Rightarrow> (nat \<times> bool) option" where
  "check_chain rec_mask e n i idx st =
     (case idx of
        None \<Rightarrow> Some st
      | Some idx \<Rightarrow>
          if fst st < n + 1 then
            do {
              l \<leftarrow> link_at e idx;
              check_chain rec_mask e n i (hl_next l)
                (if rec_mask l = i then fst st + 1 else fst st, snd st \<or> n \<le> idx \<or> rec_mask l \<noteq> i)
            }
          else Some st)"

fun check_cells ::
  "('r hlink \<Rightarrow> nat) \<Rightarrow> 'r hlink list \<Rightarrow> nat \<Rightarrow> nat list \<Rightarrow> nat \<times> bool \<Rightarrow> (nat \<times> bool) option" where
  "check_cells rec_mask e n [] st = Some st"
| "check_cells rec_mask e n (i # is) st =
     do {
       l \<leftarrow> link_at e i;
       st \<leftarrow> (if rec_mask l = i then check_chain rec_mask e n i (hl_next l) (fst st + 1, snd st) else Some st);
       check_cells rec_mask e n is st
     }"

definition hash_check :: "('r \<Rightarrow> bytes) \<Rightarrow> 'r HASH \<Rightarrow> bool option" where
  "hash_check mem h =
     do {
       (found, err) \<leftarrow> check_cells (\<lambda>l. hash_rec_mask mem h l (blength h) (records h)) (cells h) (records h)
          [0..<records h] (0, False);
       Some (err \<or> found \<noteq> records h)
     }"

end
