(* ===== verification/HashSpec.thy ===== *)
theory HashSpec
  imports HashTable
begin

text \<open>
  What the hash of mysys/hash.c promises: its invariant, the multiset of the records in it,
  and the effect of each operation on that multiset.
\<close>

subsection \<open>Invariant and contents\<close>

text \<open>
  The hash function is the one \<open>hash_init\<close> chose, every record is in the chain of its hash
  number, and the array holds the records in its first cells.
\<close>

definition hash_wf :: "('r \<Rightarrow> bytes) \<Rightarrow> (uchar \<Rightarrow> uchar) \<Rightarrow> 'r HASH \<Rightarrow> bool" where
  "hash_wf mem to_upper h \<longleftrightarrow>
     dyn_wf (array h) \<and> elements (array h) = records h \<and>
     hash_fn h = (if case_insensitive h then calc_hashnr_caseup to_upper else calc_hashnr) \<and>
     link_wf (hashnr_of mem h) (cells h) (blength h) (records h)"

definition hash_recs :: "'r HASH \<Rightarrow> 'r multiset" where
  "hash_recs h = recs {..<records h} (cells h)"

text \<open>The key of a record does not depend on the flag \<open>first\<close>.\<close>

definition key_stable :: "('r \<Rightarrow> bytes) \<Rightarrow> 'r HASH \<Rightarrow> bool" where
  "key_stable mem h \<longleftrightarrow> (\<forall>r. hash_key mem h r True = hash_key mem h r False)"

definition hash_matches :: "('r \<Rightarrow> bytes) \<Rightarrow> (uchar \<Rightarrow> uchar) \<Rightarrow> 'r HASH \<Rightarrow> bytes \<Rightarrow> nat \<Rightarrow> 'r \<Rightarrow> bool" where
  "hash_matches mem to_upper h key n r \<longleftrightarrow> \<not> hashcmp mem to_upper h r key n"

lemma hash_key_fields [simp]:
  "hash_key mem (h\<lparr>array := a\<rparr>) = hash_key mem h" "hash_key mem (h\<lparr>records := n\<rparr>) = hash_key mem h"
  "hash_key mem (h\<lparr>blength := n\<rparr>) = hash_key mem h" "hash_key mem (h\<lparr>current_record := c\<rparr>) = hash_key mem h"
  "hash_key mem (set_cells e h) = hash_key mem h"
  by (simp_all add: hash_key_def set_cells_def fun_eq_iff split: option.split)

lemma rec_hashnr_fields [simp]:
  "rec_hashnr mem (h\<lparr>array := a\<rparr>) = rec_hashnr mem h" "rec_hashnr mem (h\<lparr>records := n\<rparr>) = rec_hashnr mem h"
  "rec_hashnr mem (h\<lparr>blength := n\<rparr>) = rec_hashnr mem h" "rec_hashnr mem (h\<lparr>current_record := c\<rparr>) = rec_hashnr mem h"
  "rec_hashnr mem (set_cells e h) = rec_hashnr mem h"
  by (simp_all add: rec_hashnr_def fun_eq_iff) (simp_all add: set_cells_def)

lemma hashcmp_fields [simp]:
  "hashcmp mem up (h\<lparr>array := a\<rparr>) = hashcmp mem up h" "hashcmp mem up (h\<lparr>records := n\<rparr>) = hashcmp mem up h"
  "hashcmp mem up (h\<lparr>blength := n\<rparr>) = hashcmp mem up h" "hashcmp mem up (h\<lparr>current_record := c\<rparr>) = hashcmp mem up h"
  "hashcmp mem up (set_cells e h) = hashcmp mem up h"
  by (simp_all add: hashcmp_def fun_eq_iff) (simp_all add: set_cells_def)

lemma hash_fields [simp]:
  "records (set_cells e h) = records h" "blength (set_cells e h) = blength h" "cells (set_cells e h) = e"
  "current_record (set_cells e h) = current_record h" "case_insensitive (set_cells e h) = case_insensitive h"
  "hash_fn (set_cells e h) = hash_fn h" "frees (set_cells e h) = frees h"
  "array (set_cells e h) = (array h)\<lparr>buffer := Some e\<rparr>"
  "cells (h\<lparr>records := n\<rparr>) = cells h" "cells (h\<lparr>blength := n\<rparr>) = cells h" "cells (h\<lparr>current_record := c\<rparr>) = cells h"
  by (simp_all add: set_cells_def cells_def)

lemma hash_mask_rec: "hash_rec_mask mem h pos bl n = bucket (hashnr_of mem h) bl n (hl_data pos)"
  by (simp add: hash_rec_mask_def rec_hashnr_def Let_def)

lemma hash_current [simp]:
  "hash_recs (h\<lparr>current_record := c\<rparr>) = hash_recs h"
  "hash_wf mem up (h\<lparr>current_record := c\<rparr>) = hash_wf mem up h"
  by (simp_all add: hash_recs_def hash_wf_def)

lemma hash_wf_cells:
  assumes "hash_wf mem up h" "records h \<noteq> 0"
  shows "buffer (array h) = Some (cells h)" "length (cells h) = max_element (array h)"
  using assms by (auto simp: hash_wf_def dyn_wf_def cells_def split: option.splits)

lemma hash_recs_mem: "r \<in># hash_recs h \<longleftrightarrow> (\<exists>j < records h. dat (cells h) j = r)"
  by (auto simp: hash_recs_def recs_def)

subsection \<open>Keys and hash numbers\<close>

lemma calc_hashnr_take: "calc_hashnr (take n key) n = calc_hashnr key n"
  "calc_hashnr_caseup up (take n key) n = calc_hashnr_caseup up key n"
  by (simp_all add: calc_hashnr_def calc_hashnr_caseup_def)

lemma calc_hashnr_caseup_map:
  "length s = length t \<Longrightarrow> map up s = map up t \<Longrightarrow>
    calc_hashnr_caseup up s (length s) = calc_hashnr_caseup up t (length t)"
proof -
  assume "map up s = map up t"
  then have "map (ucast \<circ> up :: _ \<Rightarrow> uint) s = map (ucast \<circ> up) t" by (metis map_map)
  then show ?thesis by (simp add: calc_hashnr_caseup_def comp_def)
qed

text \<open>A record that matches a key has the hash number of the key: identical keys, equal numbers.\<close>

lemma matches_hashnr:
  assumes wf: "hash_wf mem up h" and st: "key_stable mem h" and m: "hash_matches mem up h key n r"
    and z: "n = 0 \<longrightarrow> length (hash_key mem h r False) = key_length h"
  shows "rec_hashnr mem h r = hash_fn h key (if n \<noteq> 0 then n else key_length h)"
proof -
  let ?k = "hash_key mem h r False"
  have fn: "hash_fn h = (if case_insensitive h then calc_hashnr_caseup up else calc_hashnr)"
    using wf by (simp add: hash_wf_def)
  have s: "hash_key mem h r True = ?k" using st by (simp add: key_stable_def)
  have len: "(if n \<noteq> 0 then n else key_length h) = length ?k"
    using m z by (auto simp: hash_matches_def hashcmp_def s Let_def)
  have eq: "if case_insensitive h then map up ?k = map up (take (length ?k) key) else ?k = take (length ?k) key"
    using m by (auto simp: hash_matches_def hashcmp_def my_casecmp_def s Let_def split: if_splits)
  have "hash_fn h ?k (length ?k) = hash_fn h key (length ?k)"
  proof (cases "case_insensitive h")
    case True
    then have me: "map up ?k = map up (take (length ?k) key)" using eq by simp
    then have le: "length ?k = length (take (length ?k) key)" by (metis length_map)
    have "calc_hashnr_caseup up ?k (length ?k) = calc_hashnr_caseup up (take (length ?k) key) (length ?k)"
      using calc_hashnr_caseup_map [OF le me] le by metis
    then show ?thesis using True fn by (simp add: calc_hashnr_take)
  next
    case False
    then have "calc_hashnr ?k (length ?k) = calc_hashnr (take (length ?k) key) (length ?k)"
      using eq by (metis (full_types))
    with False fn show ?thesis by (simp add: calc_hashnr_take)
  qed
  then show ?thesis unfolding rec_hashnr_def Let_def len .
qed

subsection \<open>Init, free, element, replace\<close>

lemma link_wf_empty: "link_wf hashnr e 1 0"
  unfolding link_wf_def table_size_zero [symmetric]
  by (auto simp: table_size_zero chains_def intro!: exI [of _ "\<lambda>_. []"])

lemma hash_init_correct:
  assumes "sound_alloc alloc"
  shows "case hash_init alloc up h sz koff klen gk fr ci of
     (h', err) \<Rightarrow> if err then records h' = 0 \<and> \<not> frees h'
        else hash_wf mem up h' \<and> hash_recs h' = {#} \<and> current_record h' = None"
proof -
  obtain a err where i: "init_dynamic_array alloc hash_link_size sz 0 = (a, err)" by fastforce
  have "dyn_wf a" "elements a = 0" using init_dynamic_array_correct [OF assms i] by simp_all
  then show ?thesis
    by (auto simp: hash_init_def i hash_wf_def hash_recs_def recs_def link_wf_empty [unfolded One_nat_def] Let_def)
qed

lemma hash_free_correct:
  assumes "hash_wf mem up h"
  shows "case hash_free h of (h', freed) \<Rightarrow>
     mset freed = (if frees h then hash_recs h else {#}) \<and>
     records h' = 0 \<and> buffer (array h') = None \<and> \<not> frees h'"
proof -
  have "records h \<le> length (cells h)" using assms by (simp add: hash_wf_def link_wf_def)
  then have "take (records h) (cells h) = map (\<lambda>j. cells h ! j) [0..<records h]"
    by (intro nth_equalityI) simp_all
  then have "map hl_data (take (records h) (cells h)) = map (dat (cells h)) [0..<records h]" by simp
  moreover have "mset (map (dat (cells h)) [0..<records h]) = hash_recs h"
    using recs_list [of "[0..<records h]" "cells h"] by (simp add: hash_recs_def lessThan_atLeast0)
  ultimately have "mset (map hl_data (take (records h) (cells h))) = hash_recs h" by metis
  then show ?thesis by (simp add: hash_free_def delete_dynamic_def Let_def)
qed

subsection \<open>Insert\<close>

text \<open>A table keeps its meaning when its array moves to a bigger block.\<close>

lemma hash_insert_fails:
  assumes "hash_wf mem up h" "snd (alloc_dynamic alloc (array h)) = None"
  shows "hash_insert alloc mem h r = Some (h, True)"
proof -
  have "alloc_dynamic alloc (array h) = (array h, None)"
    using assms(2) by (auto simp: alloc_dynamic_def split: if_splits option.splits)
  then show ?thesis by (simp add: hash_insert_def)
qed

lemma hash_insert_correct:
  assumes al: "sound_alloc alloc" and wf: "hash_wf mem up h" and a: "snd (alloc_dynamic alloc (array h)) \<noteq> None"
  shows "\<exists>h'. hash_insert alloc mem h r = Some (h', False) \<and> hash_wf mem up h' \<and>
     hash_recs h' = add_mset r (hash_recs h) \<and> records h' = records h + 1 \<and> current_record h' = None"
proof -
  obtain arr i where arr: "alloc_dynamic alloc (array h) = (arr, Some i)"
    using a by (cases "alloc_dynamic alloc (array h)") auto
  note al' = alloc_dynamic_correct [OF al _ arr]
  have dw: "dyn_wf (array h)" "elements (array h) = records h" using wf by (simp_all add: hash_wf_def)
  obtain b where b: "buffer arr = Some b" "length b = max_element arr"
    using al'(1,3) [OF dw(1)] by (cases "buffer arr") (auto simp: dyn_wf_def)
  let ?h = "h\<lparr>array := arr, current_record := None\<rparr>"
  let ?n = "records h"
  have nb: "?n < length b" using al'(1,3) [OF dw(1)] dw(2) b by (simp add: dyn_wf_def)
  have ch: "cells ?h = b" by (simp add: cells_def b)
  have "take ?n b = take ?n (cells h)"
    using al'(4) [OF dw(1)] al'(3) [OF dw(1)] dw b
    by (cases "buffer (array h)") (auto simp: contents_def cells_def dyn_wf_def)
  with wf have wl: "link_wf (hashnr_of mem h) b (blength h) ?n" and rb: "recs {..<?n} b = hash_recs h"
    using link_wf_cong [of "hashnr_of mem h" "cells h" "blength h" ?n b] by (auto simp: hash_wf_def hash_recs_def)
  obtain e q where e: "link_insert (hashnr_of mem h) b (blength h) ?n r (hashnr_of mem h r) = Some (e, q)"
    "length e = length b" "link_wf (hashnr_of mem h) e (next_size (blength h) ?n) (?n + 1)"
    "recs {..<?n + 1} e = add_mset r (recs {..<?n} b)"
    using link_insert_correct [OF wl nb refl] by blast
  let ?h2 = "(set_cells e ?h)\<lparr>records := ?n + 1\<rparr>"
  have ins: "hash_insert alloc mem h r =
      Some (if records ?h2 = blength ?h2 then ?h2\<lparr>blength := blength ?h2 + blength ?h2\<rparr> else ?h2, False)"
    using e(1) ch by (simp add: hash_insert_def arr Let_def)
  have dw2: "dyn_wf (arr\<lparr>buffer := Some e\<rparr>)"
    using al'(1) [OF dw(1)] b e(2) by (simp add: dyn_wf_def)
  have fn: "hash_fn h = (if case_insensitive h then calc_hashnr_caseup up else calc_hashnr)"
    using wf by (simp add: hash_wf_def)
  have el: "elements arr = ?n + 1" using al'(3) [OF dw(1)] dw(2) by simp
  show ?thesis
  proof (intro exI conjI, rule ins)
    let ?h3 = "if records ?h2 = blength ?h2 then ?h2\<lparr>blength := blength ?h2 + blength ?h2\<rparr> else ?h2"
    show "hash_wf mem up ?h3" using e(3) dw2 el fn by (auto simp: hash_wf_def next_size_def)
    show "hash_recs ?h3 = add_mset r (hash_recs h)" using e(4) rb by (auto simp: hash_recs_def)
    show "records ?h3 = ?n + 1" "current_record ?h3 = None" by auto
  qed
qed

subsection \<open>Search\<close>

lemma find_SomeE:
  assumes "find P xs = Some j"
  obtains us ws where "xs = us @ j # ws" "P j" "\<forall>x \<in> set us. \<not> P x"
  using assms
proof (induction xs arbitrary: thesis)
  case (Cons x xs)
  show ?case
  proof (cases "P x")
    case True
    with Cons.prems show ?thesis by (intro Cons.prems(1) [of "[]" xs]) auto
  next
    case False
    with Cons.prems(2) have "find P xs = Some j" by simp
    then obtain us ws where "xs = us @ j # ws" "P j" "\<forall>x \<in> set us. \<not> P x"
      using Cons.IH by blast
    with False show ?thesis by (intro Cons.prems(1) [of "x # us" ws]) auto
  qed
qed simp

text \<open>The bucket a search looks in, and the records of the table that match.\<close>

definition search_bucket :: "'r HASH \<Rightarrow> bytes \<Rightarrow> nat \<Rightarrow> nat" where
  "search_bucket h key n =
     hash_mask (unat (hash_fn h key (if n \<noteq> 0 then n else key_length h))) (blength h) (records h)"

text \<open>A search by the constant key length needs records with keys of that length.\<close>

definition search_ok :: "('r \<Rightarrow> bytes) \<Rightarrow> 'r HASH \<Rightarrow> nat \<Rightarrow> bool" where
  "search_ok mem h n \<longleftrightarrow> key_stable mem h \<and>
     (n = 0 \<longrightarrow> (\<forall>r \<in># hash_recs h. length (hash_key mem h r False) = key_length h))"

lemma bucket_bound:
  assumes "table_size bl n" "n \<noteq> 0"
  shows "hash_mask hr bl n < n"
  by (rule hash_mask_grow(3) [OF assms])

lemma hash_search_chain:
  assumes wf: "hash_wf mem up h" and ok: "search_ok mem h n" and ne: "records h \<noteq> 0"
    and c: "chains {..<records h} (cells h) (bucket (hashnr_of mem h) (blength h) (records h)) ch"
  shows "hash_search mem up h key n =
     Some (case find (\<lambda>j. hash_matches mem up h key n (dat (cells h) j)) (ch (search_bucket h key n)) of
       None \<Rightarrow> (h\<lparr>current_record := None\<rparr>, None)
     | Some j \<Rightarrow> (h\<lparr>current_record := Some j\<rparr>, Some (dat (cells h) j)))"
    and "j < records h \<Longrightarrow> hash_matches mem up h key n (dat (cells h) j) \<Longrightarrow> j \<in> set (ch (search_bucket h key n))"
proof -
  let ?m = "bucket (hashnr_of mem h) (blength h) (records h)" and ?b = "search_bucket h key n"
  have ts: "table_size (blength h) (records h)" using wf by (simp add: hash_wf_def link_wf_def)
  have b: "?b < records h" unfolding search_bucket_def by (rule bucket_bound [OF ts ne])
  have P: "?m (dat (cells h) j) = ?b" if "j \<in> {..<records h}" "hash_matches mem up h key n (dat (cells h) j)" for j
  proof -
    have "dat (cells h) j \<in># hash_recs h" using that by (auto simp: hash_recs_mem)
    then have "rec_hashnr mem h (dat (cells h) j) = hash_fn h key (if n \<noteq> 0 then n else key_length h)"
      using ok that(2) by (intro matches_hashnr [OF wf]) (auto simp: search_ok_def)
    then show ?thesis by (simp only: search_bucket_def)
  qed
  show "j < records h \<Longrightarrow> hash_matches mem up h key n (dat (cells h) j) \<Longrightarrow> j \<in> set (ch ?b)"
    using P [of j] by (simp add: chain_mem [OF c])
  have bA: "?b \<in> {..<records h}" using b by simp
  have "search_link (hash_matches mem up h key n) (\<lambda>r. ?m r \<noteq> ?b) (cells h) True ?b =
      Some (find (\<lambda>j. hash_matches mem up h key n (dat (cells h) j)) (ch ?b))"
    by (rule search_link_chain [OF c bA P]) auto
  moreover have "(\<lambda>r. \<not> hashcmp mem up h r key n) = hash_matches mem up h key n"
    by (simp add: fun_eq_iff hash_matches_def)
  ultimately show "hash_search mem up h key n =
     Some (case find (\<lambda>j. hash_matches mem up h key n (dat (cells h) j)) (ch ?b) of
       None \<Rightarrow> (h\<lparr>current_record := None\<rparr>, None)
     | Some j \<Rightarrow> (h\<lparr>current_record := Some j\<rparr>, Some (dat (cells h) j)))"
    unfolding hash_search_def Let_def search_bucket_def [symmetric] if_not_P [OF ne]
    by (simp only:) (simp split: option.split)
qed

text \<open>
  A search never leaves the array; it finds a record that matches when there is one, and
  it changes nothing but the current record.
\<close>

lemma hash_search_correct:
  assumes wf: "hash_wf mem up h" and ok: "search_ok mem h n"
  shows "\<exists>cur r. hash_search mem up h key n = Some (h\<lparr>current_record := cur\<rparr>, r) \<and>
     (case r of
        None \<Rightarrow> cur = None \<and> (\<forall>r \<in># hash_recs h. \<not> hash_matches mem up h key n r)
      | Some r \<Rightarrow> r \<in># hash_recs h \<and> hash_matches mem up h key n r)"
proof (cases "records h = 0")
  case True
  then show ?thesis by (auto simp: hash_search_def hash_recs_mem intro!: exI)
next
  case ne: False
  obtain ch where c: "chains {..<records h} (cells h) (bucket (hashnr_of mem h) (blength h) (records h)) ch"
    using wf by (auto simp: hash_wf_def link_wf_def)
  note s = hash_search_chain [OF wf ok ne c]
  show ?thesis
  proof (cases "find (\<lambda>j. hash_matches mem up h key n (dat (cells h) j)) (ch (search_bucket h key n))")
    case None
    then have "\<not> hash_matches mem up h key n r" if "r \<in># hash_recs h" for r
      using that s(2) by (auto simp: hash_recs_mem find_None_iff)
    with s(1) None show ?thesis by (auto intro!: exI)
  next
    case (Some j)
    then obtain us ws where "ch (search_bucket h key n) = us @ j # ws" and m: "hash_matches mem up h key n (dat (cells h) j)"
      by (rule find_SomeE)
    then have "j \<in> set (ch (search_bucket h key n))" by simp
    then have "j < records h" by (simp add: chain_mem [OF c])
    with s(1) Some m show ?thesis by (auto simp: hash_recs_mem intro!: exI)
  qed
qed

text \<open>The loop of a caller that reads every record with a key.\<close>

partial_function (option) hash_read_next ::
  "('r \<Rightarrow> bytes) \<Rightarrow> (uchar \<Rightarrow> uchar) \<Rightarrow> bytes \<Rightarrow> nat \<Rightarrow> 'r HASH \<Rightarrow> 'r list option" where
  "hash_read_next mem up key n h =
     do {
       (h, r) \<leftarrow> hash_next mem up h key n;
       case r of
         None \<Rightarrow> Some []
       | Some r \<Rightarrow> do { rs \<leftarrow> hash_read_next mem up key n h; Some (r # rs) }
     }"

definition hash_read_all :: "('r \<Rightarrow> bytes) \<Rightarrow> (uchar \<Rightarrow> uchar) \<Rightarrow> bytes \<Rightarrow> nat \<Rightarrow> 'r HASH \<Rightarrow> 'r list option" where
  "hash_read_all mem up key n h =
     do {
       (h, r) \<leftarrow> hash_search mem up h key n;
       case r of
         None \<Rightarrow> Some []
       | Some r \<Rightarrow> do { rs \<leftarrow> hash_read_next mem up key n h; Some (r # rs) }
     }"

lemma hash_next_path:
  assumes p: "path (cells h) (nxt (cells h) cur) xs None" and cur: "cur < length (cells h)" "current_record h = Some cur"
  shows "hash_next mem up h key n =
     Some (case find (\<lambda>j. hash_matches mem up h key n (dat (cells h) j)) xs of
       None \<Rightarrow> (h\<lparr>current_record := None\<rparr>, None)
     | Some j \<Rightarrow> (h\<lparr>current_record := Some j\<rparr>, Some (dat (cells h) j)))"
proof (cases "nxt (cells h) cur")
  case None
  then have "xs = []" using p by (cases xs) auto
  then show ?thesis using cur None by (simp add: hash_next_def link_at_def)
next
  case (Some i)
  have "(\<lambda>r. \<not> hashcmp mem up h r key n) = hash_matches mem up h key n"
    by (simp add: fun_eq_iff hash_matches_def)
  then show ?thesis
    using cur Some search_link_none [OF p Some, of "hash_matches mem up h key n" "\<lambda>_. False"]
    by (simp add: hash_next_def link_at_def split: option.split)
qed

lemma hash_read_next_path:
  assumes "path (cells h) (nxt (cells h) cur) xs None" "cur < length (cells h)" "current_record h = Some cur"
  shows "hash_read_next mem up key n h =
     Some (map (dat (cells h)) (filter (\<lambda>j. hash_matches mem up h key n (dat (cells h) j)) xs))"
  using assms
proof (induction "length xs" arbitrary: xs cur h rule: less_induct)
  case less
  let ?P = "\<lambda>j. hash_matches mem up h key n (dat (cells h) j)"
  note nx = hash_next_path [OF less.prems, of mem up key n]
  show ?case
  proof (cases "find ?P xs")
    case None
    then have "filter ?P xs = []" by (simp add: find_None_iff filter_empty_conv)
    with nx None show ?thesis by (simp add: hash_read_next.simps [of mem up key n h])
  next
    case (Some j)
    then obtain us ws where xs: "xs = us @ j # ws" "?P j" "\<forall>x \<in> set us. \<not> ?P x"
      by (rule find_SomeE)
    let ?h = "h\<lparr>current_record := Some j\<rparr>"
    have "path (cells h) (nxt (cells h) j) ws None" "j < length (cells h)"
      using less.prems(1) xs(1) by (auto simp: path_append)
    then have "hash_read_next mem up key n ?h =
        Some (map (dat (cells ?h)) (filter (\<lambda>j. hash_matches mem up ?h key n (dat (cells ?h) j)) ws))"
      using xs(1) by (intro less.hyps) auto
    moreover have "hash_matches mem up ?h key n = hash_matches mem up h key n"
      by (simp add: fun_eq_iff hash_matches_def)
    moreover have "filter ?P us = []" using xs(3) by (simp add: filter_empty_conv)
    ultimately show ?thesis using nx Some xs by (simp add: hash_read_next.simps [of mem up key n h])
  qed
qed

text \<open>\<open>hash_search\<close> and then \<open>hash_next\<close> until it fails return each record that matches once.\<close>

lemma hash_read_all_correct:
  assumes wf: "hash_wf mem up h" and ok: "search_ok mem h n"
  shows "\<exists>rs. hash_read_all mem up key n h = Some rs \<and> mset rs = filter_mset (hash_matches mem up h key n) (hash_recs h)"
proof (cases "records h = 0")
  case True
  then show ?thesis by (simp add: hash_read_all_def hash_search_def hash_recs_def recs_def)
next
  case ne: False
  obtain ch where c: "chains {..<records h} (cells h) (bucket (hashnr_of mem h) (blength h) (records h)) ch"
    using wf by (auto simp: hash_wf_def link_wf_def)
  note s = hash_search_chain [OF wf ok ne c]
  let ?P = "\<lambda>j. hash_matches mem up h key n (dat (cells h) j)" and ?b = "search_bucket h key n"
  have "hash_read_all mem up key n h = Some (map (dat (cells h)) (filter ?P (ch ?b)))"
  proof (cases "find ?P (ch ?b)")
    case None
    then have "filter ?P (ch ?b) = []" by (simp add: find_None_iff filter_empty_conv)
    with s(1) None show ?thesis by (simp add: hash_read_all_def)
  next
    case (Some j)
    then obtain us ws where xs: "ch ?b = us @ j # ws" "?P j" "\<forall>x \<in> set us. \<not> ?P x"
      by (rule find_SomeE)
    then have "ch ?b \<noteq> []" by simp
    let ?h = "h\<lparr>current_record := Some j\<rparr>"
    have "path (cells h) (nxt (cells h) j) ws None" "j < length (cells h)"
      using chainsD(4) [OF c \<open>ch ?b \<noteq> []\<close>] xs(1) by (auto simp: path_append)
    then have "hash_read_next mem up key n ?h =
        Some (map (dat (cells ?h)) (filter (\<lambda>j. hash_matches mem up ?h key n (dat (cells ?h) j)) ws))"
      by (intro hash_read_next_path) auto
    moreover have "hash_matches mem up ?h key n = hash_matches mem up h key n"
      by (simp add: fun_eq_iff hash_matches_def)
    moreover have "filter ?P us = []" using xs(3) by (simp add: filter_empty_conv)
    ultimately show ?thesis using s(1) Some xs by (simp add: hash_read_all_def)
  qed
  moreover have "mset (map (dat (cells h)) (filter ?P (ch ?b))) = filter_mset (hash_matches mem up h key n) (hash_recs h)"
  proof -
    have set_eq: "set (filter ?P (ch ?b)) = {j \<in> {..<records h}. ?P j}"
      using s(2) by (auto simp: chain_mem [OF c])
    have "mset (map (dat (cells h)) (filter ?P (ch ?b))) = recs (set (filter ?P (ch ?b))) (cells h)"
      by (rule recs_list [symmetric]) (simp add: chainsD(1) [OF c])
    also have "\<dots> = filter_mset (hash_matches mem up h key n) (hash_recs h)"
      unfolding set_eq hash_recs_def recs_def by (simp add: filter_mset_image_mset)
    finally show ?thesis .
  qed
  ultimately show ?thesis by blast
qed

subsection \<open>Delete\<close>

lemma hash_find_present:
  assumes c: "chains {..<n} e (bucket hashnr bl n) ch" and j: "j < n" "dat e j = r"
  shows "\<exists>us i ws. ch (bucket hashnr bl n r) = us @ i # ws \<and> dat e i = r \<and>
     find_link e r None (bucket hashnr bl n r) = Some (Some (if us = [] then None else Some (last us), i))"
proof -
  have jA: "j \<in> {..<n}" "bucket hashnr bl n (dat e j) = bucket hashnr bl n r" using j by simp_all
  have "j \<in> set (ch (bucket hashnr bl n r))" using jA by (simp add: chain_mem [OF c])
  with find_link_chain(2) [OF c chain_head(1,2) [OF c jA]] j(2) show ?thesis by blast
qed

lemma hash_delete_absent:
  assumes wf: "hash_wf mem up h" and r: "r \<notin># hash_recs h"
  shows "hash_delete mem h r = Some (h, True, [])"
proof (cases "records h = 0")
  case False
  obtain ch where ts: "table_size (blength h) (records h)"
    and c: "chains {..<records h} (cells h) (bucket (hashnr_of mem h) (blength h) (records h)) ch"
    using wf by (auto simp: hash_wf_def link_wf_def)
  have "find_link (cells h) r None (bucket (hashnr_of mem h) (blength h) (records h) r) = Some None"
    by (rule find_link_none [OF c]) (use bucket_bound [OF ts False] r in \<open>auto simp: hash_recs_mem\<close>)
  with False show ?thesis by (simp add: hash_delete_def)
qed (simp add: hash_delete_def)

lemma hash_delete_correct:
  assumes wf: "hash_wf mem up h" and r: "r \<in># hash_recs h"
  shows "\<exists>h'. hash_delete mem h r = Some (h', False, if frees h then [r] else []) \<and> hash_wf mem up h' \<and>
     hash_recs h = add_mset r (hash_recs h') \<and> records h = records h' + 1 \<and> current_record h' = None"
proof -
  obtain j where j: "j < records h" "dat (cells h) j = r" using r by (auto simp: hash_recs_mem)
  then obtain n where n: "records h = n + 1" by (cases "records h") auto
  let ?m = "bucket (hashnr_of mem h) (blength h) (n + 1)" and ?bl = "prev_size (blength h) n"
  have lw: "link_wf (hashnr_of mem h) (cells h) (blength h) (n + 1)" using wf n by (simp add: hash_wf_def)
  then obtain ch where c: "chains {..<n + 1} (cells h) ?m ch" by (auto simp: link_wf_def)
  obtain us i ws where i: "ch (?m r) = us @ i # ws" "dat (cells h) i = r"
    "find_link (cells h) r None (?m r) = Some (Some (if us = [] then None else Some (last us), i))"
    using hash_find_present [OF c j(1) [unfolded n] j(2)] by blast
  obtain e1 p e2 where e: "unlink (cells h) (if us = [] then None else Some (last us)) i = Some (e1, p)"
    "move_last (hashnr_of mem h) e1 (blength h) ?bl n p = Some e2" "length e2 = length (cells h)"
    "link_wf (hashnr_of mem h) e2 ?bl n" "recs {..<n + 1} (cells h) = add_mset (dat (cells h) i) (recs {..<n} e2)"
    using link_delete_correct [OF lw c i(1)] by blast
  define h1 where "h1 = (let h = h\<lparr>records := n\<rparr>;
      h = (if n < drop_bit 1 (blength h) then h\<lparr>blength := drop_bit 1 (blength h)\<rparr> else h)
      in h\<lparr>current_record := None\<rparr>)"
  have h1: "cells h1 = cells h" "rec_hashnr mem h1 = rec_hashnr mem h" "blength h1 = ?bl" "records h1 = n"
    "array h1 = array h" "frees h1 = frees h" "case_insensitive h1 = case_insensitive h" "hash_fn h1 = hash_fn h"
    "current_record h1 = None"
    by (simp_all add: h1_def prev_size_def Let_def)
  let ?h = "(set_cells e2 h1)\<lparr>array := fst (pop_dynamic (array (set_cells e2 h1)))\<rparr>"
  have run: "hash_delete mem h r = Some (?h, False, if frees h then [r] else [])"
    using i(3) e(1,2) h1 n by (simp add: hash_delete_def h1_def Let_def)
  have "buffer (array h) = Some (cells h)" "length (cells h) = max_element (array h)"
    using hash_wf_cells [OF wf] n by simp_all
  then have dw: "dyn_wf ((array h)\<lparr>buffer := Some e2\<rparr>)" "elements (array h) = n + 1"
    using wf e(3) n by (simp_all add: hash_wf_def dyn_wf_def)
  then have arr: "array ?h = (array h)\<lparr>buffer := Some e2, elements := n\<rparr>"
    by (simp add: pop_dynamic_def h1)
  have ce: "cells ?h = e2" unfolding cells_def arr by simp
  have "hash_wf mem up ?h"
    using e(4) wf dw h1 n unfolding hash_wf_def ce arr by (simp add: dyn_wf_def)
  moreover have "hash_recs h = add_mset r (hash_recs ?h)"
    using e(5) i(2) n h1 unfolding hash_recs_def ce by simp
  ultimately show ?thesis using run n h1 by auto
qed

subsection \<open>Update\<close>

text \<open>The cell that the unlinking of the record leaves free.\<close>

definition update_cell :: "'r HASH \<Rightarrow> 'r \<Rightarrow> nat \<Rightarrow> nat option" where
  "update_cell h r idx =
     do {
       f \<leftarrow> find_link (cells h) r None idx;
       (gpos, pos) \<leftarrow> f;
       (e, emp) \<leftarrow> unlink (cells h) gpos pos;
       Some emp
     }"

text \<open>
  \<open>mem\<close> is the memory when the record was inserted, \<open>mem'\<close> the memory now: only the key of
  the record \<open>r\<close> has changed. When the free cell is not the first cell of the new bucket, the
  table is right for the new memory.
\<close>

lemma hash_update_correct:
  assumes wf: "hash_wf mem up h" and r: "count (hash_recs h) r = 1"
    and old: "hash_fn h old_key (if olen \<noteq> 0 then olen else key_length h) = rec_hashnr mem h r"
    and other: "\<And>q. q \<noteq> r \<Longrightarrow> hash_key mem' h q False = hash_key mem h q False"
    and free: "update_cell h r (bucket (hashnr_of mem h) (blength h) (records h) r) \<noteq>
        Some (bucket (hashnr_of mem' h) (blength h) (records h) r)"
  shows "\<exists>h'. hash_update mem' h r old_key olen = Some (h', False) \<and> hash_wf mem' up h' \<and> hash_recs h' = hash_recs h"
proof -
  let ?n = "records h" and ?m = "bucket (hashnr_of mem h) (blength h) (records h)"
    and ?m' = "bucket (hashnr_of mem' h) (blength h) (records h)"
  have m': "?m' q = ?m q" if "q \<noteq> r" for q using other [OF that] by (simp add: rec_hashnr_def)
  have rin: "r \<in># hash_recs h" using r by (metis count_greater_zero_iff zero_less_one)
  then obtain j where j: "j < ?n" "dat (cells h) j = r" by (auto simp: hash_recs_mem)
  then have n0: "?n \<noteq> 0" by simp
  obtain ch where ts: "table_size (blength h) ?n" and len: "?n \<le> length (cells h)"
    and c: "chains {..<?n} (cells h) ?m ch"
    using wf by (auto simp: hash_wf_def link_wf_def)
  have idx: "hash_mask (unat (hash_fn h old_key (if olen \<noteq> 0 then olen else key_length h))) (blength h) ?n = ?m r"
    by (simp only: old)
  show ?thesis
  proof (cases "?m r = ?m' r")
    case True
    have "hash_update mem' h r old_key olen = Some (h, False)"
      unfolding hash_update_def Let_def idx by (simp add: True)
    moreover have "chains {..<?n} (cells h) ?m' ch"
      by (rule chains_mask [OF c]) (metis True m')
    then have "hash_wf mem' up h" using wf by (auto simp: hash_wf_def link_wf_def)
    ultimately show ?thesis by blast
  next
    case False
    obtain us i ws where i: "ch (?m r) = us @ i # ws" "dat (cells h) i = r"
      "find_link (cells h) r None (?m r) = Some (Some (if us = [] then None else Some (last us), i))"
      using hash_find_present [OF c j] by blast
    obtain e p ch1 where e: "unlink (cells h) (if us = [] then None else Some (last us)) i = Some (e, p)"
      "length e = length (cells h)" "p \<in> {..<?n}" "chains ({..<?n} - {p}) e ?m ch1"
      "recs {..<?n} (cells h) = add_mset (dat (cells h) i) (recs ({..<?n} - {p}) e)"
      using unlink_correct [OF c _ i(1)] by auto
    let ?A = "{..<?n} - {p}"
    have rest: "recs ?A e = hash_recs h - {#r#}" using e(5) i(2) by (simp add: hash_recs_def)
    have nor: "dat e q \<noteq> r" if "q \<in> ?A" for q
    proof
      assume "dat e q = r"
      then have "r \<in># recs ?A e" using that by (auto simp: recs_def)
      then have "0 < count (recs ?A e) r" by simp
      then show False unfolding rest using r by simp
    qed
    have c1: "chains ?A e ?m' ch1" by (rule chains_mask [OF e(4)]) (simp add: m' nor)
    have "p \<noteq> ?m' r"
      using free i(3) e(1) by (simp add: update_cell_def)
    then have newA: "?m' r \<in> ?A" using bucket_bound [OF ts n0] by simp
    have pA: "p \<notin> ?A" "p < length e" "insert p ?A = {..<?n}" "finite ?A" using e(2,3) len by auto
    have iA: "i \<in> {..<?n}" using i(1) chain_mem [OF c, of i "?m r"] by simp
    have lk: "link_at (cells h) i = Some (cells h ! i)" "link_at e (?m' r) = Some (e ! ?m' r)"
      "link_at (e[p := x]) (?m' r) = Some (e ! ?m' r)" for x
      using chain_bound [OF c, of i] iA newA len e(2) \<open>p \<noteq> ?m' r\<close> by (auto simp: link_at_def)
    have org: "(cells h ! i)\<lparr>hl_next := x\<rparr> = \<lparr>hl_next = x, hl_data = r\<rparr>" for x
      using i(2) by (cases "cells h ! i") simp
    have run: "hash_update mem' h r old_key olen =
        (if ?m' r \<noteq> ?m' (dat e (?m' r))
         then do { e' \<leftarrow> movelink (e[p := e ! ?m' r]) (Some (?m' r)) (?m' (dat e (?m' r))) (Some p);
                   Some (set_cells (put_link e' (?m' r) r None) (h\<lparr>current_record := None\<rparr>), False) }
         else Some (set_cells (e[p := \<lparr>hl_next = nxt e (?m' r), hl_data = r\<rparr>, ?m' r := (e ! ?m' r)\<lparr>hl_next := Some p\<rparr>])
                 (h\<lparr>current_record := None\<rparr>), False))"
      unfolding hash_update_def Let_def idx if_not_P [OF False]
      by (simp add: i(3) lk e(1) hash_mask_rec org put_link_def)
    have done': "\<exists>h'. hash_update mem' h r old_key olen = Some (h', False) \<and> hash_wf mem' up h' \<and> hash_recs h' = hash_recs h"
      if "hash_update mem' h r old_key olen = Some (set_cells e' (h\<lparr>current_record := None\<rparr>), False)"
        "length e' = length (cells h)" "chains {..<?n} e' ?m' ch'" "recs {..<?n} e' = add_mset r (recs ?A e)" for e' ch'
    proof -
      let ?h = "set_cells e' (h\<lparr>current_record := None\<rparr>)"
      have "buffer (array h) = Some (cells h)" "length (cells h) = max_element (array h)"
        using hash_wf_cells [OF wf n0] by simp_all
      then have "hash_wf mem' up ?h"
        using wf that(2,3) ts len unfolding hash_wf_def link_wf_def by (auto simp: dyn_wf_def)
      moreover have "hash_recs ?h = hash_recs h"
        using that(4) rest rin by (simp add: hash_recs_def)
      ultimately show ?thesis using that(1) by blast
    qed
    show ?thesis
    proof (cases "?m' r = ?m' (dat e (?m' r))")
      case True
      note s = chains_second [OF c1 pA(1,2) newA True [symmetric] refl]
      let ?e = "e[p := \<lparr>hl_next = nxt e (?m' r), hl_data = r\<rparr>, ?m' r := (e ! ?m' r)\<lparr>hl_next := Some p\<rparr>]"
      have "recs (insert p ?A) ?e = add_mset r (recs ?A ?e)"
        using recs_insert [OF pA(4,1), of ?e] s(3) by simp
      also have "recs ?A ?e = recs ?A e" by (rule recs_cong) (use s(3) pA(1) in auto)
      finally have "recs {..<?n} ?e = add_mset r (recs ?A e)" unfolding pA(3) .
      with s(1,2) e(2) run True show ?thesis
        unfolding pA(3) by (intro done' [of ?e]) simp_all
    next
      case F: False
      obtain e' ch' where "movelink (e[p := e ! ?m' r]) (Some (?m' r)) (?m' (dat e (?m' r))) (Some p) = Some e'"
        "length e' = length e" "chains {..<?n} (put_link e' (?m' r) r None) ?m' ch'"
        "recs {..<?n} (put_link e' (?m' r) r None) = add_mset r (recs ?A e)"
        using chains_displace [OF c1 pA(4,1,2) newA F [symmetric] refl] unfolding pA(3) by blast
      with run F e(2) show ?thesis
        by (intro done' [of "put_link e' (?m' r) r None"]) (simp_all add: put_link_def)
    qed
  qed
qed

subsection \<open>Elements\<close>

lemma hash_element_correct: "mset (map (\<lambda>i. the (hash_element h i)) [0..<records h]) = hash_recs h"
proof -
  have "map (\<lambda>i. the (hash_element h i)) [0..<records h] = map (dat (cells h)) [0..<records h]"
    by (simp add: hash_element_def)
  moreover have "mset (map (dat (cells h)) [0..<records h]) = hash_recs h"
    using recs_list [of "[0..<records h]" "cells h"] by (simp add: hash_recs_def lessThan_atLeast0)
  ultimately show ?thesis by metis
qed

lemma hash_replace_correct:
  assumes wf: "hash_wf mem up h" and i: "hash_element h i = Some old"
    and key: "hash_key mem h new False = hash_key mem h old False"
  shows "\<exists>h'. hash_replace h (Some i) new = Some h' \<and> hash_wf mem up h' \<and>
     hash_recs h' = hash_recs h - {#old#} + {#new#}"
proof -
  let ?n = "records h" and ?m = "bucket (hashnr_of mem h) (blength h) (records h)"
  have il: "i < ?n" "dat (cells h) i = old" using i by (auto simp: hash_element_def split: if_splits)
  obtain ch where ts: "table_size (blength h) ?n" and len: "?n \<le> length (cells h)"
    and c: "chains {..<?n} (cells h) ?m ch"
    using wf by (auto simp: hash_wf_def link_wf_def)
  let ?e = "(cells h)[i := (cells h ! i)\<lparr>hl_data := new\<rparr>]"
  have nr: "rec_hashnr mem h new = rec_hashnr mem h old" by (simp add: rec_hashnr_def key)
  have dt: "dat ?e j = (if j = i then new else dat (cells h) j)" for j
    using il len by (cases "j = i") auto
  have nx: "nxt ?e j = nxt (cells h) j" for j using il len by (cases "j = i") auto
  have p: "path ?e x xs q = path (cells h) x xs q" for x xs q
    by (induction xs arbitrary: x) (auto simp: nx)
  have "chains {..<?n} ?e ?m ch"
  proof (rule chainsI)
    fix g
    have "?m (dat ?e j) = ?m (dat (cells h) j)" for j using dt [of j] il(2) nr by simp
    then show "set (ch g) = {j \<in> {..<?n}. ?m (dat ?e j) = g}" by (simp add: chainsD(2) [OF c])
  qed (simp_all add: chainsD [OF c] p)
  moreover have "buffer (array h) = Some (cells h)" "length (cells h) = max_element (array h)"
    using hash_wf_cells [OF wf] il(1) by simp_all
  ultimately have "hash_wf mem up (set_cells ?e h)"
    using wf ts len unfolding hash_wf_def link_wf_def by (auto simp: dyn_wf_def)
  moreover have "hash_recs (set_cells ?e h) = hash_recs h - {#old#} + {#new#}"
  proof -
    have "recs {..<?n} ?e = add_mset new (recs ({..<?n} - {i}) ?e)"
      using recs_remove [of "{..<?n}" i ?e] il(1) dt by simp
    also have "recs ({..<?n} - {i}) ?e = recs ({..<?n} - {i}) (cells h)"
      by (rule recs_cong) (simp add: dt)
    also have "\<dots> = hash_recs h - {#old#}"
      using recs_remove [of "{..<?n}" i "cells h"] il by (simp add: hash_recs_def)
    finally show ?thesis by (simp add: hash_recs_def)
  qed
  moreover have "hash_replace h (Some i) new = Some (set_cells ?e h)"
    using il(1) len by (simp add: hash_replace_def link_at_def)
  ultimately show ?thesis by blast
qed

subsection \<open>The check\<close>

lemma check_chain_path:
  assumes "path e x xs None" "\<forall>j \<in> set xs. rec_mask (e ! j) = i \<and> j < n" "f + length xs \<le> n"
  shows "check_chain rec_mask e n i x (f, err) = Some (f + length xs, err)"
  using assms
proof (induction xs arbitrary: x f)
  case Nil
  then show ?case by (subst check_chain.simps) simp
next
  case (Cons y ys)
  then have "check_chain rec_mask e n i (nxt e y) (f + 1, err) = Some (f + 1 + length ys, err)"
    by (intro Cons.IH) auto
  with Cons.prems show ?case by (subst check_chain.simps) (simp add: link_at_def)
qed

lemma check_cells_chains:
  assumes c: "chains {..<n} e m ch" and rm: "\<And>j. rec_mask (e ! j) = m (dat e j)"
  shows "set is \<subseteq> {..<n} \<Longrightarrow> f + sum_list (map (\<lambda>i. length (ch i)) is) \<le> n \<Longrightarrow>
    check_cells rec_mask e n is (f, err) = Some (f + sum_list (map (\<lambda>i. length (ch i)) is), err)"
proof (induction "is" arbitrary: f)
  case (Cons i "is")
  have i: "i < n" "i < length e" using Cons.prems chain_bound [OF c, of i] by auto
  have rest: "check_cells rec_mask e n is (f + length (ch i), err) =
      Some (f + length (ch i) + sum_list (map (\<lambda>i. length (ch i)) is), err)"
    using Cons.prems by (intro Cons.IH) auto
  show ?case
  proof (cases "m (dat e i) = i")
    case True
    have "ch i = i # tl (ch i)" by (rule chain_head(3) [OF c]) (use i True in auto)
    then obtain t where t: "ch i = i # t" by blast
    then have ne: "ch i \<noteq> []" by simp
    have "path e (nxt e i) t None" using chainsD(4) [OF c ne] t by simp
    moreover have "\<forall>j \<in> set t. rec_mask (e ! j) = i \<and> j < n"
    proof
      fix j assume "j \<in> set t"
      then have "j \<in> set (ch i)" using t by simp
      then show "rec_mask (e ! j) = i \<and> j < n" by (simp add: rm chain_mem [OF c])
    qed
    ultimately have "check_chain rec_mask e n i (nxt e i) (f + 1, err) = Some (f + 1 + length t, err)"
      using Cons.prems(2) t by (intro check_chain_path) auto
    with rest t i True rm show ?thesis by (simp add: link_at_def)
  next
    case False
    then have "ch i = []" by (intro chain_empty [OF c]) simp
    with rest i False rm show ?thesis by (simp add: link_at_def)
  qed
qed simp

lemma hash_check_correct:
  assumes wf: "hash_wf mem up h"
  shows "hash_check mem h = Some False"
proof (cases "records h = 0")
  case True
  then show ?thesis by (simp add: hash_check_def)
next
  case False
  obtain ch where ts: "table_size (blength h) (records h)"
    and c: "chains {..<records h} (cells h) (bucket (hashnr_of mem h) (blength h) (records h)) ch"
    using wf by (auto simp: hash_wf_def link_wf_def)
  have tot: "sum_list (map (\<lambda>i. length (ch i)) [0..<records h]) = records h"
    by (rule chains_total [OF c]) (rule bucket_bound [OF ts False])
  have "check_cells (\<lambda>l. hash_rec_mask mem h l (blength h) (records h)) (cells h) (records h) [0..<records h] (0, False) =
      Some (0 + sum_list (map (\<lambda>i. length (ch i)) [0..<records h]), False)"
    by (rule check_cells_chains [OF c]) (auto simp: hash_mask_rec tot)
  then show ?thesis by (simp add: hash_check_def tot)
qed

subsection \<open>The update that goes wrong\<close>

lemma link_wf_no_loop:
  assumes "link_wf hashnr e bl n" "i < n"
  shows "nxt e i \<noteq> Some i"
proof
  assume l: "nxt e i = Some i"
  obtain ch where c: "chains {..<n} e (bucket hashnr bl n) ch" using assms(1) by (auto simp: link_wf_def)
  let ?h = "bucket hashnr bl n (dat e i)"
  have "i \<in> set (ch ?h)" using assms(2) by (simp add: chain_mem [OF c])
  then obtain us ws where u: "ch ?h = us @ i # ws" by (meson split_list)
  then have ne: "ch ?h \<noteq> []" by simp
  have "path e (Some i) ws None" using chainsD(4) [OF c ne] l unfolding u by (auto simp: path_append)
  then have "i \<in> set ws" by (cases ws) auto
  then show False using chainsD(1) [OF c, of ?h] unfolding u by simp
qed

lemma movelink_runs_off:
  assumes "path e (Some x) (x # xs) None" "q \<notin> set xs"
  shows "movelink e (Some q) x new = None"
  using assms
proof (induction xs arbitrary: x)
  case (Cons y ys)
  then have "movelink e (Some q) y new = None" by auto
  with Cons.prems show ?case by (subst movelink_eval) auto
qed (simp add: movelink_eval)

text \<open>
  When the cell that becomes free is the first cell of the new bucket, the record is linked
  to itself, or the link that leads to that cell is looked for in a chain that no longer has
  it and the search leaves the array.
\<close>

lemma hash_update_broken:
  assumes wf: "hash_wf mem up h" and r: "count (hash_recs h) r = 1"
    and old: "hash_fn h old_key (if olen \<noteq> 0 then olen else key_length h) = rec_hashnr mem h r"
    and other: "\<And>q. q \<noteq> r \<Longrightarrow> hash_key mem' h q False = hash_key mem h q False"
    and new: "bucket (hashnr_of mem h) (blength h) (records h) r \<noteq> bucket (hashnr_of mem' h) (blength h) (records h) r"
    and free: "update_cell h r (bucket (hashnr_of mem h) (blength h) (records h) r) =
        Some (bucket (hashnr_of mem' h) (blength h) (records h) r)"
  shows "hash_update mem' h r old_key olen = None \<or>
     (\<exists>h'. hash_update mem' h r old_key olen = Some (h', False) \<and> \<not> hash_wf mem' up h')"
proof -
  let ?n = "records h" and ?m = "bucket (hashnr_of mem h) (blength h) (records h)"
    and ?m' = "bucket (hashnr_of mem' h) (blength h) (records h)"
  have rin: "r \<in># hash_recs h" using r by (metis count_greater_zero_iff zero_less_one)
  then obtain j where j: "j < ?n" "dat (cells h) j = r" by (auto simp: hash_recs_mem)
  obtain ch where ts: "table_size (blength h) ?n" and len: "?n \<le> length (cells h)"
    and c: "chains {..<?n} (cells h) ?m ch"
    using wf by (auto simp: hash_wf_def link_wf_def)
  have mn: "?m' r < ?n" using bucket_bound [OF ts] j(1) by simp
  have idx: "hash_mask (unat (hash_fn h old_key (if olen \<noteq> 0 then olen else key_length h))) (blength h) ?n = ?m r"
    by (simp only: old)
  obtain us i ws where i: "ch (?m r) = us @ i # ws" "dat (cells h) i = r"
    "find_link (cells h) r None (?m r) = Some (Some (if us = [] then None else Some (last us), i))"
    using hash_find_present [OF c j] by blast
  have iA: "i \<in> {..<?n}" "i < length (cells h)"
    using i(1) chain_mem [OF c, of i "?m r"] len by auto
  have ne: "ch (?m r) \<noteq> []" using i(1) by simp
  note pd = chainsD(1,3,4) [OF c, of "?m r"]
  have p: "path (cells h) (Some (?m r)) (us @ i # ws) None" and d: "distinct (us @ i # ws)"
    using pd ne i(1) by auto
  obtain e emp where e: "unlink (cells h) (if us = [] then None else Some (last us)) i = Some (e, emp)"
    and emp: "emp = ?m' r"
    using free i(3) by (auto simp: update_cell_def bind_eq_Some_conv)
  have lki: "link_at (cells h) i = Some (cells h ! i)" using iA by (simp add: link_at_def)
  show ?thesis
  proof (cases "us = []")
    case False
    let ?g = "last us"
    have gi: "?g \<noteq> i" using d False by auto
    have lg: "link_at (cells h) ?g = Some (cells h ! ?g)"
      using path_less [OF p, of ?g] False by (simp add: link_at_def)
    have ee: "emp = i" "e = (cells h)[?g := (cells h ! ?g)\<lparr>hl_next := nxt (cells h) i\<rparr>]"
      using e False by (auto simp: unlink_def lki lg)
    have newi: "?m' r = i" using emp ee(1) by simp
    from ee have ei: "e ! i = cells h ! i" "length e = length (cells h)" using gi by simp_all
    have lk: "link_at e i = Some (cells h ! i)" "link_at (e[i := x]) i = Some x" for x
      using ei iA by (simp_all add: link_at_def)
    let ?e = "e[i := (cells h ! i)\<lparr>hl_next := Some i\<rparr>]"
    have "hash_update mem' h r old_key olen = Some (set_cells ?e (h\<lparr>current_record := None\<rparr>), False)"
      unfolding hash_update_def Let_def idx if_not_P [OF new] i(3) newi
      using e [unfolded ee(1)] newi new [unfolded newi] by (simp add: lki lk hash_mask_rec i(2))
    moreover have "\<not> hash_wf mem' up (set_cells ?e (h\<lparr>current_record := None\<rparr>))"
    proof
      assume "hash_wf mem' up (set_cells ?e (h\<lparr>current_record := None\<rparr>))"
      then have "link_wf (hashnr_of mem' h) ?e (blength h) ?n" by (simp add: hash_wf_def)
      from link_wf_no_loop [OF this, of i] show False using iA ei by simp
    qed
    ultimately show ?thesis by blast
  next
    case True
    then have mi: "?m r = i" using p by simp
    have "nxt (cells h) i \<noteq> None"
      using e True mi emp new by (auto simp: unlink_def lki split: option.splits)
    then obtain q vs where ws: "ws = q # vs" using p True by (cases ws) auto
    then have nq: "nxt (cells h) i = Some q" "q < length (cells h)" "q \<noteq> i" "q \<notin> set vs" "i \<notin> set vs"
      using p d True by auto
    then have lq: "link_at (cells h) q = Some (cells h ! q)" by (simp add: link_at_def)
    have ee: "emp = q" "e = (cells h)[i := cells h ! q]"
      using e True nq by (auto simp: unlink_def lki lq)
    have qq: "q \<in> set (ch (?m r))" using i(1) ws by simp
    then have mq: "?m (dat (cells h) q) = i" "q < ?n" using mi by (simp_all add: chain_mem [OF c])
    have "dat (cells h) q \<noteq> r"
    proof
      assume a: "dat (cells h) q = r"
      have "hash_recs h = add_mset r (recs ({..<?n} - {i}) (cells h))"
        using recs_remove [of "{..<?n}" i "cells h"] iA i(2) by (simp add: hash_recs_def)
      moreover have "recs ({..<?n} - {i}) (cells h) = add_mset r (recs ({..<?n} - {i} - {q}) (cells h))"
        using recs_remove [of "{..<?n} - {i}" q "cells h"] mq(2) nq(3) a by simp
      ultimately show False using r by simp
    qed
    then have m'q: "?m' (dat (cells h) q) = i" using mq(1) other by (simp add: rec_hashnr_def)
    have eq: "e ! q = cells h ! q" "link_at e q = Some (cells h ! q)"
      using ee nq by (simp_all add: link_at_def)
    have "path e (Some i) (i # vs) None"
      using p True ws nq iA ee by simp
    then have "movelink e (Some q) i (Some q) = None"
      by (rule movelink_runs_off) (rule nq(4))
    then have mv: "movelink (e[q := cells h ! q]) (Some q) i (Some q) = None"
      using eq(1) by (metis list_update_id)
    have newq: "?m' r = q" using emp ee(1) by simp
    have "hash_update mem' h r old_key olen = None"
      unfolding hash_update_def Let_def idx if_not_P [OF new] i(3) newq
      using e [unfolded ee(1)] mv m'q new [unfolded newq] mi nq(3) by (simp add: lki eq hash_mask_rec)
    then show ?thesis by blast
  qed
qed

end
