(* ===== verification/Interfaces.thy ===== *)
theory Interfaces
  imports Prelude "HOL-Library.Multiset"
begin

text \<open>
  The contracts several components share. \<open>record_bag\<close>: an index of records, whose
  abstract value is the multiset of the records in it, with an insert that may refuse and a
  delete that fails exactly when the record is not there. What a client can rely on over any
  sequence of calls is proved once, for every implementation.
\<close>

subsection \<open>Calls and what they may answer\<close>

datatype 'r bag_call = Insert 'r | Delete 'r

text \<open>A sequence of calls, with the value each returns (True is the error of the C code).\<close>

primrec bag_run ::
  "('s \<Rightarrow> 'r \<Rightarrow> ('s \<times> bool) option) \<Rightarrow> ('s \<Rightarrow> 'r \<Rightarrow> ('s \<times> bool) option) \<Rightarrow>
    's \<Rightarrow> 'r bag_call list \<Rightarrow> ('s \<times> bool list) option" where
  "bag_run ins del s [] = Some (s, [])"
| "bag_run ins del s (c # cs) =
     do {
       (s, b) \<leftarrow> (case c of Insert r \<Rightarrow> ins s r | Delete r \<Rightarrow> del s r);
       (s, bs) \<leftarrow> bag_run ins del s cs;
       Some (s, b # bs)
     }"

text \<open>The abstract run: None when an answer is not one the contract allows.\<close>

fun bag_spec :: "'r multiset \<Rightarrow> 'r bag_call list \<Rightarrow> bool list \<Rightarrow> 'r multiset option" where
  "bag_spec B [] [] = Some B"
| "bag_spec B (Insert r # cs) (b # bs) = bag_spec (if b then B else add_mset r B) cs bs"
| "bag_spec B (Delete r # cs) (b # bs) = (if b = (r \<notin># B) then bag_spec (B - {#r#}) cs bs else None)"
| "bag_spec B _ _ = None"

locale record_bag =
  fixes inv :: "'s \<Rightarrow> bool"
    and bag :: "'s \<Rightarrow> 'r multiset"
    and ins :: "'s \<Rightarrow> 'r \<Rightarrow> ('s \<times> bool) option"
    and del :: "'s \<Rightarrow> 'r \<Rightarrow> ('s \<times> bool) option"
  assumes ins_law: "inv s \<Longrightarrow> \<exists>s' b. ins s r = Some (s', b) \<and> inv s' \<and>
      bag s' = (if b then bag s else add_mset r (bag s))"
    and del_law: "inv s \<Longrightarrow> \<exists>s'. del s r = Some (s', r \<notin># bag s) \<and> inv s' \<and> bag s' = bag s - {#r#}"
begin

lemma run_refines:
  assumes "inv s"
  shows "\<exists>s' bs. bag_run ins del s cs = Some (s', bs) \<and> inv s' \<and> bag_spec (bag s) cs bs = Some (bag s')"
  using assms
proof (induction cs arbitrary: s)
  case (Cons c cs)
  show ?case
  proof (cases c)
    case (Insert r)
    obtain s1 b where s1: "ins s r = Some (s1, b)" "inv s1" "bag s1 = (if b then bag s else add_mset r (bag s))"
      using ins_law [OF Cons.prems] by blast
    with Cons.IH [OF s1(2)] Insert show ?thesis by auto
  next
    case (Delete r)
    obtain s1 where s1: "del s r = Some (s1, r \<notin># bag s)" "inv s1" "bag s1 = bag s - {#r#}"
      using del_law [OF Cons.prems] by blast
    with Cons.IH [OF s1(2)] Delete show ?thesis by auto
  qed
qed simp

text \<open>What is inserted and not refused can be deleted again, in any order, and then nothing is left over.\<close>

lemma delete_all:
  assumes "inv s" "bag s = mset rs + B"
  shows "\<exists>s'. bag_run ins del s (map Delete rs) = Some (s', replicate (length rs) False) \<and> inv s' \<and> bag s' = B"
  using assms
proof (induction rs arbitrary: s)
  case (Cons r rs)
  obtain s1 where s1: "del s r = Some (s1, r \<notin># bag s)" "inv s1" "bag s1 = bag s - {#r#}"
    using del_law [OF Cons.prems(1)] by blast
  have "bag s1 = mset rs + B" using s1(3) Cons.prems(2) by simp
  with Cons.IH [OF s1(2)] s1(1) Cons.prems(2) show ?case by auto
qed simp

end

subsection \<open>Priority queues\<close>

text \<open>
  A bag of at most \<open>n\<close> elements with an operation that removes a first element in the order
  \<open>le\<close>. A client that fills it and empties it again gets the elements in order.
\<close>

primrec pq_fill :: "('s \<Rightarrow> 'e \<Rightarrow> 's option) \<Rightarrow> 's \<Rightarrow> 'e list \<Rightarrow> 's option" where
  "pq_fill ins s [] = Some s"
| "pq_fill ins s (x # xs) = do { s \<leftarrow> ins s x; pq_fill ins s xs }"

primrec pq_drain :: "('s \<Rightarrow> ('s \<times> 'e) option) \<Rightarrow> nat \<Rightarrow> 's \<Rightarrow> ('s \<times> 'e list) option" where
  "pq_drain rem 0 s = Some (s, [])"
| "pq_drain rem (Suc k) s = do { (s, x) \<leftarrow> rem s; (s, xs) \<leftarrow> pq_drain rem k s; Some (s, x # xs) }"

locale priority_queue =
  fixes inv :: "'s \<Rightarrow> bool"
    and bag :: "'s \<Rightarrow> 'e multiset"
    and ins :: "'s \<Rightarrow> 'e \<Rightarrow> 's option"
    and rem :: "'s \<Rightarrow> ('s \<times> 'e) option"
    and le :: "'e \<Rightarrow> 'e \<Rightarrow> bool"
    and n :: nat
  assumes ins_law: "inv s \<Longrightarrow> size (bag s) < n \<Longrightarrow> \<exists>s'. ins s x = Some s' \<and> inv s' \<and> bag s' = add_mset x (bag s)"
    and rem_law: "inv s \<Longrightarrow> bag s \<noteq> {#} \<Longrightarrow>
      \<exists>s' x. rem s = Some (s', x) \<and> inv s' \<and> bag s = add_mset x (bag s') \<and> (\<forall>y \<in># bag s. le x y)"
    and le_total: "inv s \<Longrightarrow> le a b \<or> le b a"
begin

lemma fill:
  assumes "inv s" "size (bag s) + length xs \<le> n"
  shows "\<exists>s'. pq_fill ins s xs = Some s' \<and> inv s' \<and> bag s' = bag s + mset xs"
  using assms
proof (induction xs arbitrary: s)
  case (Cons x xs)
  obtain s1 where s1: "ins s x = Some s1" "inv s1" "bag s1 = add_mset x (bag s)"
    using ins_law [OF Cons.prems(1)] Cons.prems(2) by auto
  with Cons.IH [OF s1(2)] Cons.prems show ?case by auto
qed simp

lemma drain:
  assumes "inv s" "size (bag s) = k"
  shows "\<exists>s' xs. pq_drain rem k s = Some (s', xs) \<and> inv s' \<and> bag s' = {#} \<and> mset xs = bag s \<and> sorted_wrt le xs"
  using assms
proof (induction k arbitrary: s)
  case (Suc k)
  obtain s1 x where s1: "rem s = Some (s1, x)" "inv s1" "bag s = add_mset x (bag s1)" "\<forall>y \<in># bag s. le x y"
    using rem_law [OF Suc.prems(1)] Suc.prems(2) by force
  obtain s' xs where s': "pq_drain rem k s1 = Some (s', xs)" "inv s'" "bag s' = {#}" "mset xs = bag s1" "sorted_wrt le xs"
    using Suc.IH [OF s1(2)] Suc.prems(2) s1(3) by auto
  have "set xs = set_mset (bag s1)" using s'(4) by (metis set_mset_mset)
  with s1 s' show ?case by auto
qed simp

lemma fill_drain:
  assumes "inv s" "bag s = {#}" "length xs \<le> n"
  shows "\<exists>s1 s2 ys. pq_fill ins s xs = Some s1 \<and> pq_drain rem (length xs) s1 = Some (s2, ys) \<and>
     mset ys = mset xs \<and> sorted_wrt le ys \<and> inv s2 \<and> bag s2 = {#}"
proof -
  obtain s1 where s1: "pq_fill ins s xs = Some s1" "inv s1" "bag s1 = mset xs"
    using fill [OF assms(1)] assms(2,3) by auto
  then show ?thesis using drain [OF s1(2), of "length xs"] by (auto simp: size_mset)
qed

end

subsection \<open>Sorted keys with counts\<close>

text \<open>
  The abstract value of a dictionary that counts: a list of keys with counts, strictly sorted
  by a comparison. An insert raises the count of a key that compares equal, or adds the key.
\<close>

definition key_sorted :: "('k \<Rightarrow> 'k \<Rightarrow> int) \<Rightarrow> ('k \<times> 'c) list \<Rightarrow> bool" where
  "key_sorted cmp es \<longleftrightarrow> sorted_wrt (\<lambda>a b. cmp (fst a) (fst b) < 0) es"

fun ins_entry :: "('k \<Rightarrow> 'k \<Rightarrow> int) \<Rightarrow> 'k \<Rightarrow> ('k \<times> 31 word) list \<Rightarrow> ('k \<times> 31 word) list" where
  "ins_entry cmp key [] = [(key, 1)]"
| "ins_entry cmp key ((k, c) # es) =
     (if cmp k key = 0 then (k, c + 1) # es
      else if cmp k key < 0 then (k, c) # ins_entry cmp key es
      else (key, 1) # (k, c) # es)"

definition del_entry :: "('k \<Rightarrow> 'k \<Rightarrow> int) \<Rightarrow> 'k \<Rightarrow> ('k \<times> 'c) list \<Rightarrow> ('k \<times> 'c) list" where
  "del_entry cmp key es = filter (\<lambda>e. cmp (fst e) key \<noteq> 0) es"

definition entry_count :: "('k \<Rightarrow> 'k \<Rightarrow> int) \<Rightarrow> 'k \<Rightarrow> ('k \<times> 31 word) list \<Rightarrow> 31 word" where
  "entry_count cmp key es = sum_list (map snd (filter (\<lambda>e. cmp (fst e) key = 0) es))"

lemma ins_entry_skip:
  assumes "\<And>e. e \<in> set xs \<Longrightarrow> cmp (fst e) key < 0"
  shows "ins_entry cmp key (xs @ ys) = xs @ ins_entry cmp key ys"
  using assms
proof (induction xs)
  case (Cons x xs)
  then have "cmp (fst x) key < 0" "ins_entry cmp key (xs @ ys) = xs @ ins_entry cmp key ys" by auto
  then show ?case by (cases x) auto
qed simp

lemma ins_entry_here:
  assumes "\<And>e. e \<in> set ys \<Longrightarrow> 0 < cmp (fst e) key"
  shows "ins_entry cmp key ys = (key, 1) # ys"
proof (cases ys)
  case (Cons y ys)
  then have "0 < cmp (fst y) key" using assms by simp
  with Cons show ?thesis by (cases y) auto
qed simp

lemma fst_ins_entry: "fst ` set (ins_entry cmp key es) \<subseteq> insert key (fst ` set es)"
  by (induction cmp key es rule: ins_entry.induct) auto

lemma key_sorted_Cons: "key_sorted cmp ((k, c) # es) \<longleftrightarrow> (\<forall>x \<in> fst ` set es. cmp k x < 0) \<and> key_sorted cmp es"
  by (auto simp: key_sorted_def)

lemma key_sorted_ins:
  assumes t: "total_cmp cmp" and s: "key_sorted cmp es"
  shows "key_sorted cmp (ins_entry cmp key es)"
  using s
proof (induction es)
  case Nil
  then show ?case by (simp add: key_sorted_def)
next
  case (Cons x es)
  obtain k c where x: "x = (k, c)" by (cases x) auto
  have ks: "\<forall>y \<in> fst ` set es. cmp k y < 0" "key_sorted cmp es"
    using Cons.prems by (simp_all add: x key_sorted_Cons)
  show ?case
  proof (cases "cmp k key < 0")
    case True
    then have "\<forall>y \<in> fst ` set (ins_entry cmp key es). cmp k y < 0"
      using ks(1) fst_ins_entry [of cmp key es] by blast
    with True Cons.IH [OF ks(2)] show ?thesis by (simp add: x key_sorted_Cons)
  next
    case False
    have "cmp key y < 0" if "y \<in> fst ` set es" "cmp k key \<noteq> 0" for y
      using total_cmp_less_trans(1) [OF t, of key k y] total_cmpD(1) [OF t, of key k] ks(1) that False by force
    with False ks show ?thesis
      using total_cmpD(1) [OF t, of key k] by (simp add: x key_sorted_Cons)
  qed
qed

lemma ins_entry_length:
  "length (ins_entry cmp key es) \<le> length es + 1"
  by (induction cmp key es rule: ins_entry.induct) auto

lemma entry_count_append: "entry_count cmp key (xs @ ys) = entry_count cmp key xs + entry_count cmp key ys"
  by (simp add: entry_count_def)

lemma entry_count_Cons: "entry_count cmp key (x # xs) = (if cmp (fst x) key = 0 then snd x else 0) + entry_count cmp key xs"
  by (simp add: entry_count_def)

lemma entry_count_none: "(\<And>e. e \<in> set xs \<Longrightarrow> cmp (fst e) key \<noteq> 0) \<Longrightarrow> entry_count cmp key xs = 0"
  by (induction xs) (auto simp: entry_count_Cons, simp add: entry_count_def)

text \<open>The count of a key after an insert. In a sorted list at most one entry compares equal.\<close>

lemma entry_count_ins:
  assumes t: "total_cmp cmp" and s: "key_sorted cmp es"
  shows "entry_count cmp q (ins_entry cmp key es) = entry_count cmp q es + (if cmp key q = 0 then 1 else 0)"
  using s
proof (induction es)
  case Nil
  then show ?case by (simp add: entry_count_def)
next
  case (Cons x es)
  obtain k c where x: "x = (k, c)" by (cases x) auto
  have ks: "\<forall>y \<in> fst ` set es. cmp k y < 0" "key_sorted cmp es"
    using Cons.prems by (simp_all add: x key_sorted_Cons)
  have eq: "cmp k q = 0 \<longleftrightarrow> cmp key q = 0" if "cmp k key = 0"
    using total_cmpD(2) [OF t, of k key q] total_cmpD(2) [OF t, of q key k] total_cmpD(2) [OF t, of key k q]
      total_cmpD(2) [OF t, of q k key] total_cmpD(3) [OF t, of k q] total_cmpD(3) [OF t, of key q]
      total_cmpD(3) [OF t, of q k] total_cmpD(3) [OF t, of q key] total_cmpD(4) [OF t, of k key] that
    by linarith
  show ?case
    using Cons.IH [OF ks(2)] eq by (auto simp: x entry_count_def algebra_simps)
qed

text \<open>The counter of a key is that of its occurrences, modulo the width of the field.\<close>

lemma entry_count_fold:
  assumes t: "total_cmp cmp" and s: "key_sorted cmp es"
  shows "key_sorted cmp (fold (ins_entry cmp) ks es) \<and>
    entry_count cmp q (fold (ins_entry cmp) ks es) =
      entry_count cmp q es + of_nat (length (filter (\<lambda>k. cmp k q = 0) ks))"
  using s
proof (induction ks arbitrary: es)
  case (Cons k ks)
  from Cons.IH [OF key_sorted_ins [OF t Cons.prems, of k]] entry_count_ins [OF t Cons.prems, of q k]
  show ?case by (simp add: algebra_simps)
qed simp

primrec dict_fill :: "('s \<Rightarrow> 'k \<Rightarrow> 's option) \<Rightarrow> 's \<Rightarrow> 'k list \<Rightarrow> 's option" where
  "dict_fill ins s [] = Some s"
| "dict_fill ins s (k # ks) = do { s \<leftarrow> ins s k; dict_fill ins s ks }"

locale counting_dict =
  fixes inv :: "'s \<Rightarrow> bool"
    and dict :: "'s \<Rightarrow> ('k \<times> 31 word) list"
    and ins :: "'s \<Rightarrow> 'k \<Rightarrow> 's option"
    and del :: "'s \<Rightarrow> 'k \<Rightarrow> ('s \<times> bool) option"
    and look :: "'s \<Rightarrow> 'k \<Rightarrow> 'k option"
    and cmp :: "'k \<Rightarrow> 'k \<Rightarrow> int"
    and n :: nat
  assumes ins_law: "inv s \<Longrightarrow> length (dict s) < n \<Longrightarrow>
      \<exists>s'. ins s k = Some s' \<and> inv s' \<and> dict s' = ins_entry cmp k (dict s)"
    and del_law: "inv s \<Longrightarrow> \<exists>s'. del s k = Some (s', \<forall>e \<in> set (dict s). cmp (fst e) k \<noteq> 0) \<and> inv s' \<and>
      dict s' = del_entry cmp k (dict s)"
    and look_law: "inv s \<Longrightarrow> look s k = map_option fst (find (\<lambda>e. cmp (fst e) k = 0) (dict s))"
    and sorted_law: "inv s \<Longrightarrow> total_cmp cmp \<and> key_sorted cmp (dict s)"
begin

lemma fill:
  assumes "inv s" "length (dict s) + length ks \<le> n"
  shows "\<exists>s'. dict_fill ins s ks = Some s' \<and> inv s' \<and> dict s' = fold (ins_entry cmp) ks (dict s)"
  using assms
proof (induction ks arbitrary: s)
  case (Cons k ks)
  obtain s1 where s1: "ins s k = Some s1" "inv s1" "dict s1 = ins_entry cmp k (dict s)"
    using ins_law [OF Cons.prems(1), of k] Cons.prems(2) by auto
  have "length (dict s1) + length ks \<le> n"
    using ins_entry_length [of cmp k "dict s"] Cons.prems(2) s1(3) by simp
  with Cons.IH [OF s1(2)] s1 show ?case by auto
qed simp

lemma fill_counts:
  assumes "inv s" "dict s = []" "length ks \<le> n"
  shows "\<exists>s'. dict_fill ins s ks = Some s' \<and> inv s' \<and> key_sorted cmp (dict s') \<and>
    entry_count cmp q (dict s') = of_nat (length (filter (\<lambda>k. cmp k q = 0) ks))"
proof -
  obtain s' where s': "dict_fill ins s ks = Some s'" "inv s'" "dict s' = fold (ins_entry cmp) ks (dict s)"
    using fill [OF assms(1)] assms(2,3) by auto
  with entry_count_fold [of cmp "dict s" ks q] sorted_law [OF assms(1)] assms(2) show ?thesis
    by (auto simp: entry_count_def)
qed

lemma delete_then_look:
  assumes "inv s"
  shows "\<exists>s'. del s k = Some (s', look s k = None) \<and> inv s' \<and> look s' k = None"
proof -
  obtain s' where s': "del s k = Some (s', \<forall>e \<in> set (dict s). cmp (fst e) k \<noteq> 0)" "inv s'"
    "dict s' = del_entry cmp k (dict s)"
    using del_law [OF assms] by blast
  have "look s' k = None" using look_law [OF s'(2), of k] s'(3) by (auto simp: del_entry_def find_None_iff)
  moreover have "(\<forall>e \<in> set (dict s). cmp (fst e) k \<noteq> 0) \<longleftrightarrow> look s k = None"
    using look_law [OF assms, of k] by (auto simp: find_None_iff)
  ultimately show ?thesis using s' by auto
qed

end

end
