(* ===== verification/HashBag.thy ===== *)
theory HashBag
  imports HashSpec Interfaces
begin

text \<open>
  The hash of mysys/hash.c as a bag of records, and a small hash of four cells on which the
  properties are instantiated.
\<close>

subsection \<open>The contract\<close>

definition hash_bag_del :: "('r \<Rightarrow> bytes) \<Rightarrow> 'r HASH \<Rightarrow> 'r \<Rightarrow> ('r HASH \<times> bool) option" where
  "hash_bag_del mem h r = map_option (\<lambda>(h, err, freed). (h, err)) (hash_delete mem h r)"

interpretation hash_bag: record_bag
  "\<lambda>h. sound_alloc alloc \<and> hash_wf mem up h" hash_recs "hash_insert alloc mem" "hash_bag_del mem"
  for alloc mem up
proof
  fix h :: "'a HASH" and r
  assume h: "sound_alloc alloc \<and> hash_wf mem up h"
  show "\<exists>h' b. hash_insert alloc mem h r = Some (h', b) \<and> (sound_alloc alloc \<and> hash_wf mem up h') \<and>
      hash_recs h' = (if b then hash_recs h else add_mset r (hash_recs h))"
    using hash_insert_fails [of mem up h alloc r] hash_insert_correct [of alloc mem up h r] h
    by (cases "snd (alloc_dynamic alloc (array h)) = None") auto
  show "\<exists>h'. hash_bag_del mem h r = Some (h', r \<notin># hash_recs h) \<and> (sound_alloc alloc \<and> hash_wf mem up h') \<and>
      hash_recs h' = hash_recs h - {#r#}"
  proof (cases "r \<in># hash_recs h")
    case True
    then show ?thesis using hash_delete_correct [of mem up h r] h by (auto simp: hash_bag_del_def)
  next
    case False
    then show ?thesis using hash_delete_absent [of mem up h r] h
      by (auto simp: hash_bag_del_def diff_single_trivial)
  qed
qed

subsection \<open>An example\<close>

definition ex_alloc :: "nat hlink allocator" where
  "ex_alloc n = Some (replicate n \<lparr>hl_next = None, hl_data = 0\<rparr>)"

definition ex_hash0 :: "nat HASH" where
  "ex_hash0 = \<lparr>key_offset = 0, key_length = 1, records = 0, blength = 1, current_record = None,
     case_insensitive = False,
     array = \<lparr>buffer = ex_alloc 4, elements = 0, max_element = 4, alloc_increment = 4, size_of_element = 16\<rparr>,
     get_key = None, frees = False, hash_fn = calc_hashnr\<rparr>"

text \<open>Records 1 and 2 have the keys 1 and 3, in one bucket; the key of record 1 becomes \<open>k\<close>.\<close>

definition ex_mem :: "uchar \<Rightarrow> nat \<Rightarrow> bytes" where
  "ex_mem k r = (if r = 1 then [k] else [3])"

definition ex_insert :: "uchar \<Rightarrow> nat list \<Rightarrow> nat HASH option" where
  "ex_insert k rs = map_option fst (bag_run (hash_insert ex_alloc (ex_mem k)) (hash_bag_del (ex_mem k)) ex_hash0 (map Insert rs))"

text \<open>What is compared of such a hash.\<close>

definition ex_view :: "nat HASH \<Rightarrow> nat \<times> nat \<times> nat \<times> nat \<times> bool \<times> bool \<times> nat hlink list" where
  "ex_view h = (records h, blength h, key_offset h, key_length h, case_insensitive h, Option.is_none (get_key h),
     take (records h) (cells h))"

declare split_loop.simps [code]

lemma ex_alloc_sound: "sound_alloc ex_alloc"
  by (simp add: sound_alloc_def ex_alloc_def)

lemma ex_hash0_wf: "hash_wf mem up ex_hash0" "hash_recs ex_hash0 = {#}"
  using link_wf_empty [of "hashnr_of mem ex_hash0"]
  by (simp_all add: hash_wf_def ex_hash0_def ex_alloc_def dyn_wf_def hash_recs_def recs_def)

lemma ex_insert_wf: "ex_insert k rs = Some h \<Longrightarrow> hash_wf (ex_mem k) up h"
  using hash_bag.run_refines [of ex_alloc "ex_mem k" up ex_hash0 "map Insert rs"]
  by (auto simp: ex_insert_def ex_alloc_sound ex_hash0_wf)

lemma ex_view_facts:
  assumes "ex_view h = (n, bl, 0, 1, False, True, e)"
  shows "hash_key mem h r f = take 1 (mem r)" "records h = n" "blength h = bl" "key_length h = 1" "take n (cells h) = e"
    "key_stable mem h"
  using assms by (auto simp: ex_view_def hash_key_def key_stable_def Option.is_none_def split: option.split)

lemma ex_view_recs:
  assumes "ex_view h = (n, bl, ko, kl, ci, gk, e)" "hash_wf mem up h"
  shows "hash_recs h = mset (map hl_data e)"
proof -
  have "hash_recs h = mset (map (\<lambda>i. the (hash_element h i)) [0..<records h])" by (rule hash_element_correct [symmetric])
  also have "map (\<lambda>i. the (hash_element h i)) [0..<records h] = map hl_data (take (records h) (cells h))"
    using assms(2) by (intro nth_equalityI) (auto simp: hash_element_def hash_wf_def link_wf_def)
  finally show ?thesis using assms(1) by (auto simp: ex_view_def)
qed

text \<open>Record 1 alone in bucket 1, record 2 in bucket 0; and both in bucket 0, record 1 first.\<close>

lemma ex_apart: "map_option ex_view (ex_insert 2 [2, 1]) = Some (2, 4, 0, 1, False, True,
    [\<lparr>hl_next = None, hl_data = 2\<rparr>, \<lparr>hl_next = None, hl_data = 1\<rparr>])"
  by code_simp

lemma ex_together: "map_option ex_view (ex_insert 1 [1, 2]) = Some (2, 4, 0, 1, False, True,
    [\<lparr>hl_next = Some 1, hl_data = 2\<rparr>, \<lparr>hl_next = None, hl_data = 1\<rparr>])"
  by code_simp

end
