(* ===== verification/QSort.thy ===== *)
theory QSort
  imports Prelude "HOL-Library.Multiset"
begin

text \<open>
  The sort of mysys/mf_qsort.c, a quicksort without recursion: \<open>qsort\<close>, and \<open>qsort2\<close> with an argument for
  the comparison. The array is a list; a pointer into it is the number of an element, as an
  integer, since \<open>high_ptr\<close> can go below the array. Reading outside the array, or using more
  than the \<open>STACK_SIZE\<close> cells of the stack, has no result. Whether two elements are swapped as
  pointers or byte by byte is the same here.
\<close>

subsection \<open>Elements\<close>

definition elem_at :: "'a list \<Rightarrow> int \<Rightarrow> 'a option" where
  "elem_at xs i = (if 0 \<le> i \<and> i < int (length xs) then Some (xs ! nat i) else None)"

definition swap_at :: "int \<Rightarrow> int \<Rightarrow> 'a list \<Rightarrow> 'a list option" where
  "swap_at i j xs = do { x \<leftarrow> elem_at xs i; y \<leftarrow> elem_at xs j; Some (xs[nat i := y, nat j := x]) }"

definition cmp_at :: "('a \<Rightarrow> 'a \<Rightarrow> int) \<Rightarrow> 'a list \<Rightarrow> int \<Rightarrow> int \<Rightarrow> int option" where
  "cmp_at cmp xs i j = do { x \<leftarrow> elem_at xs i; y \<leftarrow> elem_at xs j; Some (cmp x y) }"

definition MEDIAN :: "('a \<Rightarrow> 'a \<Rightarrow> int) \<Rightarrow> int \<Rightarrow> int \<Rightarrow> int \<Rightarrow> 'a list \<Rightarrow> 'a list option" where
  "MEDIAN cmp low mid high xs = do {
     c \<leftarrow> cmp_at cmp xs high low;
     xs \<leftarrow> (if c < 0 then swap_at high low xs else Some xs);
     c \<leftarrow> cmp_at cmp xs mid low;
     if c < 0 then swap_at mid low xs
     else do { c \<leftarrow> cmp_at cmp xs high mid; if c < 0 then swap_at mid high xs else Some xs }
   }"

subsection \<open>Insertion sort of a small range\<close>

text \<open>The inner loop, from \<open>ptr\<close> down to \<open>low\<close>.\<close>

function insert_down :: "('a \<Rightarrow> 'a \<Rightarrow> int) \<Rightarrow> int \<Rightarrow> int \<Rightarrow> 'a list \<Rightarrow> 'a list option" where
  "insert_down cmp low ptr xs =
     (if low < ptr then do {
        c \<leftarrow> cmp_at cmp xs (ptr - 1) ptr;
        if c > 0 then do { xs \<leftarrow> swap_at ptr (ptr - 1) xs; insert_down cmp low (ptr - 1) xs } else Some xs
      } else Some xs)"
  by pat_completeness auto
termination by (relation "measure (\<lambda>(_, low, ptr, _). nat (ptr - low))") auto

function insert_sort :: "('a \<Rightarrow> 'a \<Rightarrow> int) \<Rightarrow> int \<Rightarrow> int \<Rightarrow> int \<Rightarrow> 'a list \<Rightarrow> 'a list option" where
  "insert_sort cmp low high low_ptr xs =
     (if low_ptr \<le> high then do { xs \<leftarrow> insert_down cmp low low_ptr xs; insert_sort cmp low high (low_ptr + 1) xs }
      else Some xs)"
  by pat_completeness auto
termination by (relation "measure (\<lambda>(_, _, high, low_ptr, _). nat (high + 1 - low_ptr))") auto

declare insert_down.simps [simp del] insert_sort.simps [simp del]

subsection \<open>Partition\<close>

function scan_up :: "('a \<Rightarrow> 'a \<Rightarrow> int) \<Rightarrow> 'a \<Rightarrow> 'a list \<Rightarrow> int \<Rightarrow> int option" where
  "scan_up cmp pivot xs i =
     (case elem_at xs i of None \<Rightarrow> None | Some x \<Rightarrow> if cmp x pivot < 0 then scan_up cmp pivot xs (i + 1) else Some i)"
  by pat_completeness auto
termination
  by (relation "measure (\<lambda>(_, _, xs, i). nat (int (length xs) - i))") (auto simp: elem_at_def split: if_splits)

function scan_down :: "('a \<Rightarrow> 'a \<Rightarrow> int) \<Rightarrow> 'a \<Rightarrow> 'a list \<Rightarrow> int \<Rightarrow> int option" where
  "scan_down cmp pivot xs i =
     (case elem_at xs i of None \<Rightarrow> None | Some x \<Rightarrow> if cmp pivot x < 0 then scan_down cmp pivot xs (i - 1) else Some i)"
  by pat_completeness auto
termination
  by (relation "measure (\<lambda>(_, _, _, i). nat (i + 1))") (auto simp: elem_at_def split: if_splits)

declare scan_up.simps [simp del] scan_down.simps [simp del]

text \<open>The loop \<open>do \<dots> while (low_ptr <= high_ptr)\<close>; the result has both pointers.\<close>

partial_function (option) partition_loop ::
  "('a \<Rightarrow> 'a \<Rightarrow> int) \<Rightarrow> 'a \<Rightarrow> 'a list \<Rightarrow> int \<Rightarrow> int \<Rightarrow> ('a list \<times> int \<times> int) option" where
  "partition_loop cmp pivot xs low_ptr high_ptr = do {
     low_ptr \<leftarrow> scan_up cmp pivot xs low_ptr;
     high_ptr \<leftarrow> scan_down cmp pivot xs high_ptr;
     if low_ptr < high_ptr then do {
       xs \<leftarrow> swap_at low_ptr high_ptr xs;
       if low_ptr + 1 \<le> high_ptr - 1 then partition_loop cmp pivot xs (low_ptr + 1) (high_ptr - 1)
       else Some (xs, low_ptr + 1, high_ptr - 1)
     }
     else if low_ptr = high_ptr then Some (xs, low_ptr + 1, high_ptr - 1)
     else Some (xs, low_ptr, high_ptr)
   }"

text \<open>The choice of the pivot: it is in \<open>mid\<close> then; the result has the start of the two pointers.\<close>

definition find_pivot :: "('a \<Rightarrow> 'a \<Rightarrow> int) \<Rightarrow> int \<Rightarrow> int \<Rightarrow> 'a list \<Rightarrow> ('a list \<times> int \<times> int \<times> int) option" where
  "find_pivot cmp low high xs =
     (let count = high - low + 1; mid = low + count div 2
      in if count > 40 then
           (let step = count div 8
            in do {
              xs \<leftarrow> MEDIAN cmp low (low + step) (low + step * 2) xs;
              xs \<leftarrow> MEDIAN cmp (mid - step) mid (mid + step) xs;
              xs \<leftarrow> MEDIAN cmp (high - 2 * step) (high - step) high xs;
              xs \<leftarrow> MEDIAN cmp (low + step) mid (high - step) xs;
              Some (xs, mid, low, high) })
         else do { xs \<leftarrow> MEDIAN cmp low mid high xs; Some (xs, mid, low + 1, high - 1) })"

subsection \<open>The sort\<close>

definition STACK_SIZE :: nat where
  "STACK_SIZE = 8 * 8"

definition THRESHOLD_FOR_INSERT_SORT :: int where
  "THRESHOLD_FOR_INSERT_SORT = 10"

text \<open>
  The stack of ranges, the top first, without the cell the last \<open>POP\<close> reads; when that is popped, the loop
  ends. The results are the array, the range to sort next and the stack.
\<close>

type_synonym bounds = "int \<times> int"

definition POP :: "'a list \<Rightarrow> bounds list \<Rightarrow> 'a list \<times> (bounds \<times> bounds list) option" where
  "POP xs stack = (xs, case stack of [] \<Rightarrow> None | r # stack \<Rightarrow> Some (r, stack))"

definition PUSH :: "bounds \<Rightarrow> bounds list \<Rightarrow> bounds list option" where
  "PUSH r stack = (if length stack + 1 < STACK_SIZE then Some (r # stack) else None)"

text \<open>\<open>(int) (high_ptr - low) <= 0\<close>, a difference of addresses, so in bytes.\<close>

definition at_most_one :: "nat \<Rightarrow> int \<Rightarrow> int \<Rightarrow> bool" where
  "at_most_one sz low high \<longleftrightarrow> sint (word_of_int ((high - low) * int sz) :: 32 word) \<le> 0"

definition next_range :: "nat \<Rightarrow> 'a list \<Rightarrow> int \<Rightarrow> int \<Rightarrow> int \<Rightarrow> int \<Rightarrow> bounds list \<Rightarrow>
    ('a list \<times> (bounds \<times> bounds list) option) option" where
  "next_range sz xs low high low_ptr high_ptr stack =
     (if at_most_one sz low high_ptr then
        if at_most_one sz low_ptr high then Some (POP xs stack) else Some (xs, Some ((low_ptr, high), stack))
      else if at_most_one sz low_ptr high then Some (xs, Some ((low, high_ptr), stack))
      else if high_ptr - low > high - low_ptr
      then do { stack \<leftarrow> PUSH (low, high_ptr) stack; Some (xs, Some ((low_ptr, high), stack)) }
      else do { stack \<leftarrow> PUSH (low_ptr, high) stack; Some (xs, Some ((low, high_ptr), stack)) })"

definition sort_range :: "('a \<Rightarrow> 'a \<Rightarrow> int) \<Rightarrow> nat \<Rightarrow> 'a list \<Rightarrow> bounds \<Rightarrow> bounds list \<Rightarrow>
    ('a list \<times> (bounds \<times> bounds list) option) option" where
  "sort_range cmp sz xs r stack =
     (case r of (low, high) \<Rightarrow>
        if high - low + 1 < THRESHOLD_FOR_INSERT_SORT
        then do { xs \<leftarrow> insert_sort cmp low high (low + 1) xs; Some (POP xs stack) }
        else do {
          (xs, mid, low_ptr, high_ptr) \<leftarrow> find_pivot cmp low high xs;
          pivot \<leftarrow> elem_at xs mid;
          (xs, low_ptr, high_ptr) \<leftarrow> partition_loop cmp pivot xs low_ptr high_ptr;
          next_range sz xs low high low_ptr high_ptr stack
        })"

partial_function (option) qsort_loop :: "('a \<Rightarrow> 'a \<Rightarrow> int) \<Rightarrow> nat \<Rightarrow> 'a list \<Rightarrow> bounds \<Rightarrow> bounds list \<Rightarrow> 'a list option" where
  "qsort_loop cmp sz xs r stack = do {
     (xs, nx) \<leftarrow> sort_range cmp sz xs r stack;
     case nx of None \<Rightarrow> Some xs | Some (r, stack) \<Rightarrow> qsort_loop cmp sz xs r stack
   }"

declare partition_loop.simps [code] qsort_loop.simps [code]

definition qsort2 :: "('a \<Rightarrow> 'a \<Rightarrow> int) \<Rightarrow> nat \<Rightarrow> 'a list \<Rightarrow> 'a list option" where
  "qsort2 cmp sz xs = (if length xs \<le> 1 then Some xs else qsort_loop cmp sz xs (0, int (length xs) - 1) [])"

subsection \<open>Rearranging a range\<close>

abbreviation at :: "'a list \<Rightarrow> int \<Rightarrow> 'a" where
  "at xs i \<equiv> xs ! nat i"

definition rearr :: "int \<Rightarrow> int \<Rightarrow> 'a list \<Rightarrow> 'a list \<Rightarrow> bool" where
  "rearr low high xs ys \<longleftrightarrow> mset ys = mset xs \<and> (\<forall>i. 0 \<le> i \<longrightarrow> i < low \<or> high < i \<longrightarrow> at ys i = at xs i) \<and>
     (\<forall>i. low \<le> i \<longrightarrow> i \<le> high \<longrightarrow> (\<exists>j. low \<le> j \<and> j \<le> high \<and> at ys i = at xs j))"

lemma rearr_refl [simp]: "rearr low high xs xs"
  by (auto simp: rearr_def)

lemma rearr_trans: "rearr low high xs ys \<Longrightarrow> rearr low high ys zs \<Longrightarrow> rearr low high xs zs"
  unfolding rearr_def by metis

lemma rearr_length: "rearr low high xs ys \<Longrightarrow> length ys = length xs"
  unfolding rearr_def by (metis mset_eq_length)

lemma rearr_outside: "rearr low high xs ys \<Longrightarrow> 0 \<le> i \<Longrightarrow> i < low \<or> high < i \<Longrightarrow> at ys i = at xs i"
  unfolding rearr_def by blast

lemma rearr_inside: "rearr low high xs ys \<Longrightarrow> low \<le> i \<Longrightarrow> i \<le> high \<Longrightarrow> \<exists>j. low \<le> j \<and> j \<le> high \<and> at ys i = at xs j"
  unfolding rearr_def by blast

abbreviation part_of :: "'a list \<Rightarrow> int \<Rightarrow> int \<Rightarrow> bool" where
  "part_of xs low high \<equiv> 0 \<le> low \<and> high < int (length xs)"

lemma elem_at_Some: "0 \<le> i \<Longrightarrow> i < int (length xs) \<Longrightarrow> elem_at xs i = Some (at xs i)"
  by (simp add: elem_at_def)

lemma cmp_at_Some: "part_of xs low high \<Longrightarrow> low \<le> i \<Longrightarrow> i \<le> high \<Longrightarrow> low \<le> j \<Longrightarrow> j \<le> high \<Longrightarrow> cmp_at cmp xs i j = Some (cmp (at xs i) (at xs j))"
  by (simp add: cmp_at_def elem_at_Some)

lemma swap_at_correct:
  assumes "part_of xs low high" "low \<le> i" "i \<le> high" "low \<le> j" "j \<le> high"
  shows "\<exists>ys. swap_at i j xs = Some ys \<and> rearr low high xs ys \<and> at ys i = at xs j \<and> at ys j = at xs i \<and>
    (\<forall>k. 0 \<le> k \<longrightarrow> k \<noteq> i \<longrightarrow> k \<noteq> j \<longrightarrow> at ys k = at xs k)"
proof -
  define ys where "ys = xs[nat i := at xs j, nat j := at xs i]"
  have b: "nat i < length xs" "nat j < length xs" using assms by linarith+
  have bi: "0 \<le> i" "i < int (length xs)" "0 \<le> j" "j < int (length xs)" using assms by linarith+
  have e: "swap_at i j xs = Some ys" by (simp add: swap_at_def elem_at_Some [OF bi(1,2)] elem_at_Some [OF bi(3,4)] ys_def)
  have at_ys: "at ys k = (if k = j then at xs i else if k = i then at xs j else at xs k)" if "0 \<le> k" for k
  proof -
    have "0 \<le> i" "0 \<le> j" using assms by linarith+
    then have k: "nat k = nat i \<longleftrightarrow> k = i" "nat k = nat j \<longleftrightarrow> k = j" using that by (simp_all only: eq_nat_nat_iff)
    show ?thesis unfolding ys_def nth_list_update [OF b(1)] nth_list_update [of "nat j" "xs[nat i := at xs j]", simplified, OF b(2)]
      using k by (simp only: eq_commute [of "nat j"] eq_commute [of "nat i"])
  qed
  have "mset ys = mset xs" unfolding ys_def using b by (simp add: mset_swap)
  moreover have "\<exists>l. low \<le> l \<and> l \<le> high \<and> at ys k = at xs l" if "low \<le> k" "k \<le> high" for k
    using at_ys [of k] that assms by auto
  moreover have "at ys k = at xs k" if "0 \<le> k" "k < low \<or> high < k" for k
    using at_ys [OF that(1)] that(2) assms by auto
  ultimately have r: "rearr low high xs ys" unfolding rearr_def by blast
  have nn: "0 \<le> i" "0 \<le> j" using assms by linarith+
  show ?thesis
  proof (intro exI conjI allI impI)
    show "at ys i = at xs j" using at_ys [OF nn(1)] by auto
    show "at ys j = at xs i" using at_ys [OF nn(2)] by simp
    show "at ys k = at xs k" if "0 \<le> k" "k \<noteq> i" "k \<noteq> j" for k using at_ys [OF that(1)] that by simp
  qed (fact e r)+
qed

lemma MEDIAN_correct:
  assumes t: "total_cmp cmp" and xs: "part_of xs low high" and i: "low \<le> a" "a < b" "b < c" "c \<le> high"
  shows "\<exists>ys. MEDIAN cmp a b c xs = Some ys \<and> rearr low high xs ys \<and> cmp (at ys a) (at ys b) \<le> 0 \<and> cmp (at ys b) (at ys c) \<le> 0"
proof -
  note T = total_cmpD [OF t]
  obtain y1 where y1: "(if cmp (at xs c) (at xs a) < 0 then swap_at c a xs else Some xs) = Some y1" "rearr low high xs y1"
    "cmp (at y1 a) (at y1 c) \<le> 0"
  proof (cases "cmp (at xs c) (at xs a) < 0")
    case True
    with swap_at_correct [OF xs, of c a] i that show ?thesis by (auto simp: less_imp_le)
  next
    case False
    then show ?thesis using that T(3) by auto
  qed
  have p1: "part_of y1 low high" using xs rearr_length [OF y1(2)] by simp
  have nn: "0 \<le> a" "0 \<le> b" "0 \<le> c" using xs i by linarith+
  show ?thesis
  proof (cases "cmp (at y1 b) (at y1 a) < 0")
    case True
    obtain y2 where y2: "swap_at b a y1 = Some y2" "rearr low high y1 y2" "at y2 b = at y1 a" "at y2 a = at y1 b" "at y2 c = at y1 c"
      using swap_at_correct [OF p1, of b a] i nn by auto
    have "MEDIAN cmp a b c xs = Some y2"
      using xs p1 i y1(1) y2(1) True by (simp add: MEDIAN_def cmp_at_Some [where xs = xs and low = low and high = high] cmp_at_Some [where xs = y1 and low = low and high = high])
    then show ?thesis using y2 y1 True rearr_trans [OF y1(2) y2(2)] by (auto simp: less_imp_le)
  next
    case ba: False
    then have ab: "cmp (at y1 a) (at y1 b) \<le> 0" using T(3) by auto
    show ?thesis
    proof (cases "cmp (at y1 c) (at y1 b) < 0")
      case True
      obtain y2 where y2: "swap_at b c y1 = Some y2" "rearr low high y1 y2" "at y2 b = at y1 c" "at y2 c = at y1 b" "at y2 a = at y1 a"
        using swap_at_correct [OF p1, of b c] i nn by auto
      have "MEDIAN cmp a b c xs = Some y2"
        using xs p1 i y1(1) y2(1) True ba by (simp add: MEDIAN_def cmp_at_Some [where xs = xs and low = low and high = high] cmp_at_Some [where xs = y1 and low = low and high = high])
      then show ?thesis using y2 y1 True rearr_trans [OF y1(2) y2(2)] by (auto simp: less_imp_le)
    next
      case False
      have "MEDIAN cmp a b c xs = Some y1"
        using xs p1 i y1(1) False ba by (simp add: MEDIAN_def cmp_at_Some [where xs = xs and low = low and high = high] cmp_at_Some [where xs = y1 and low = low and high = high])
      then show ?thesis using y1(2) ab False T(3) by auto
    qed
  qed
qed

subsection \<open>The loops\<close>

lemma scan_up_correct:
  assumes "0 \<le> i" "i \<le> k" "k < int (length xs)" "0 \<le> cmp (at xs k) pivot"
  shows "\<exists>i'. scan_up cmp pivot xs i = Some i' \<and> i \<le> i' \<and> i' \<le> k \<and> 0 \<le> cmp (at xs i') pivot \<and>
    (\<forall>j. i \<le> j \<longrightarrow> j < i' \<longrightarrow> cmp (at xs j) pivot < 0)"
  using assms
proof (induction cmp pivot xs i rule: scan_up.induct)
  case (1 cmp pivot xs i)
  have e: "elem_at xs i = Some (at xs i)" using 1(2-4) by (intro elem_at_Some) linarith+
  show ?case
  proof (cases "cmp (at xs i) pivot < 0")
    case True
    then have "i \<noteq> k" using 1(5) by auto
    then have b: "0 \<le> i + 1" "i + 1 \<le> k" using 1(2,3) by linarith+
    from 1(1) [OF e True b 1(4,5)] obtain i' where i': "scan_up cmp pivot xs (i + 1) = Some i'" "i + 1 \<le> i'" "i' \<le> k"
      "0 \<le> cmp (at xs i') pivot" "\<forall>j. i + 1 \<le> j \<longrightarrow> j < i' \<longrightarrow> cmp (at xs j) pivot < 0" by blast
    have "cmp (at xs j) pivot < 0" if "i \<le> j" "j < i'" for j
      using i'(5) that True by (cases "j = i") auto
    moreover have "scan_up cmp pivot xs i = Some i'" using e True i'(1) by (simp add: scan_up.simps [of cmp pivot xs i])
    ultimately show ?thesis using i' by (intro exI [of _ i']) auto
  next
    case False
    then have "scan_up cmp pivot xs i = Some i" using e by (simp add: scan_up.simps [of cmp pivot xs i])
    then show ?thesis using False 1(3) by (intro exI [of _ i]) auto
  qed
qed

lemma scan_down_correct:
  assumes "0 \<le> k" "k \<le> i" "i < int (length xs)" "0 \<le> cmp pivot (at xs k)"
  shows "\<exists>i'. scan_down cmp pivot xs i = Some i' \<and> k \<le> i' \<and> i' \<le> i \<and> 0 \<le> cmp pivot (at xs i') \<and>
    (\<forall>j. i' < j \<longrightarrow> j \<le> i \<longrightarrow> cmp pivot (at xs j) < 0)"
  using assms
proof (induction cmp pivot xs i rule: scan_down.induct)
  case (1 cmp pivot xs i)
  have e: "elem_at xs i = Some (at xs i)" using 1(2-4) by (intro elem_at_Some) linarith+
  show ?case
  proof (cases "cmp pivot (at xs i) < 0")
    case True
    then have "i \<noteq> k" using 1(5) by auto
    then have b: "k \<le> i - 1" "i - 1 < int (length xs)" using 1(3,4) by linarith+
    from 1(1) [OF e True 1(2) b 1(5)] obtain i' where i': "scan_down cmp pivot xs (i - 1) = Some i'" "k \<le> i'" "i' \<le> i - 1"
      "0 \<le> cmp pivot (at xs i')" "\<forall>j. i' < j \<longrightarrow> j \<le> i - 1 \<longrightarrow> cmp pivot (at xs j) < 0" by blast
    have "cmp pivot (at xs j) < 0" if "i' < j" "j \<le> i" for j
      using i'(5) that True by (cases "j = i") auto
    moreover have "scan_down cmp pivot xs i = Some i'" using e True i'(1) by (simp add: scan_down.simps [of cmp pivot xs i])
    ultimately show ?thesis using i' by (intro exI [of _ i']) auto
  next
    case False
    then have "scan_down cmp pivot xs i = Some i" using e by (simp add: scan_down.simps [of cmp pivot xs i])
    then show ?thesis using False 1(3) by (intro exI [of _ i]) auto
  qed
qed

text \<open>A partition of a range: what is before \<open>lp\<close> is not above the pivot, what is behind \<open>hp\<close> not below.\<close>

definition parted :: "('a \<Rightarrow> 'a \<Rightarrow> int) \<Rightarrow> 'a \<Rightarrow> int \<Rightarrow> int \<Rightarrow> int \<Rightarrow> int \<Rightarrow> 'a list \<Rightarrow> bool" where
  "parted cmp pivot low high lp hp xs \<longleftrightarrow> (\<forall>i. low \<le> i \<longrightarrow> i < lp \<longrightarrow> cmp (at xs i) pivot \<le> 0) \<and>
     (\<forall>j. hp < j \<longrightarrow> j \<le> high \<longrightarrow> cmp pivot (at xs j) \<le> 0)"

lemma partedD:
  assumes "parted cmp pivot low high lp hp xs"
  shows "low \<le> i \<Longrightarrow> i < lp \<Longrightarrow> cmp (at xs i) pivot \<le> 0" "hp < j \<Longrightarrow> j \<le> high \<Longrightarrow> cmp pivot (at xs j) \<le> 0"
  using assms unfolding parted_def by blast+

text \<open>
  In the first turn the pivot is between the pointers and stops both; later the elements passed over do.
\<close>

lemma partition_loop_correct:
  assumes "total_cmp cmp" "part_of xs low high" "low \<le> lp" "hp \<le> high" "lp \<le> hp" "parted cmp pivot low high lp hp xs"
    "(\<exists>m. lp \<le> m \<and> m \<le> hp \<and> at xs m = pivot) \<or> low < lp \<and> hp < high"
  shows "\<exists>ys lp' hp'. partition_loop cmp pivot xs lp hp = Some (ys, lp', hp') \<and> rearr low high xs ys \<and>
    parted cmp pivot low high lp' hp' ys \<and> low < lp' \<and> lp' \<le> high + 1 \<and> hp' < high \<and> low - 1 \<le> hp' \<and> hp' < lp'"
  using assms(2-)
proof (induction "nat (hp - lp)" arbitrary: xs lp hp rule: less_induct)
  case less
  note T = total_cmpD [OF assms(1)] and po = less.prems(1) and lo = less.prems(2) and hi = less.prems(3) and ne = less.prems(4)
  note P = partedD [OF less.prems(5)]
  obtain k l where k: "lp \<le> k" "k \<le> high" "0 \<le> cmp (at xs k) pivot" and l: "low \<le> l" "l \<le> hp" "0 \<le> cmp pivot (at xs l)"
    and kl: "k = l \<or> low < lp \<and> hp < high"
  proof (cases "\<exists>m. lp \<le> m \<and> m \<le> hp \<and> at xs m = pivot")
    case True
    then obtain m where m: "lp \<le> m" "m \<le> hp" "at xs m = pivot" by blast
    then show thesis using that [of m m] lo hi T(5) by auto
  next
    case False
    then have b: "low < lp" "hp < high" using less.prems(6) by blast+
    have "cmp (at xs (lp - 1)) pivot \<le> 0" "cmp pivot (at xs (hp + 1)) \<le> 0" using P(1) [of "lp - 1"] P(2) [of "hp + 1"] b by auto
    then show thesis using that [of "hp + 1" "lp - 1"] b ne T(3) by auto
  qed
  have "0 \<le> lp" "k < int (length xs)" "0 \<le> l" "hp < int (length xs)" using po lo hi k(2) l(1) by linarith+
  then obtain i j where i: "scan_up cmp pivot xs lp = Some i" "lp \<le> i" "i \<le> k" "0 \<le> cmp (at xs i) pivot"
      "\<And>a. lp \<le> a \<Longrightarrow> a < i \<Longrightarrow> cmp (at xs a) pivot < 0"
    and j: "scan_down cmp pivot xs hp = Some j" "l \<le> j" "j \<le> hp" "0 \<le> cmp pivot (at xs j)"
      "\<And>a. j < a \<Longrightarrow> a \<le> hp \<Longrightarrow> cmp pivot (at xs a) < 0"
    using scan_up_correct [of lp k xs cmp pivot] scan_down_correct [of l hp xs cmp pivot] k l by blast
  have left: "cmp (at xs a) pivot \<le> 0" if "low \<le> a" "a < i" for a
    using P(1) [OF that(1)] i(5) [of a] that(2) by (cases "a < lp") (auto simp: less_imp_le)
  have right: "cmp pivot (at xs a) \<le> 0" if "j < a" "a \<le> high" for a
    using P(2) [OF _ that(2)] j(5) [OF that(1)] by (cases "hp < a") (auto simp: less_imp_le)
  have xi: "cmp pivot (at xs i) \<le> 0" "cmp (at xs j) pivot \<le> 0" using i(4) j(4) T(3) by blast+
  show ?case
  proof (cases "i < j")
    case True
    have b: "low \<le> i" "i \<le> high" "low \<le> j" "j \<le> high" "0 \<le> low" using True i j lo hi l po by linarith+
    obtain ys where ys: "swap_at i j xs = Some ys" "rearr low high xs ys" "at ys i = at xs j" "at ys j = at xs i"
      "\<And>a. 0 \<le> a \<Longrightarrow> a \<noteq> i \<Longrightarrow> a \<noteq> j \<Longrightarrow> at ys a = at xs a"
      using swap_at_correct [OF po b(1-4)] by blast
    have pt: "parted cmp pivot low high (i + 1) (j - 1) ys" unfolding parted_def
    proof (intro conjI allI impI)
      fix a assume a: "low \<le> a" "a < i + 1"
      show "cmp (at ys a) pivot \<le> 0"
      proof (cases "a = i")
        case False
        then show ?thesis using ys(5) [of a] left [OF a(1)] a b(5) True by auto
      qed (use ys(3) xi in simp)
    next
      fix a assume a: "j - 1 < a" "a \<le> high"
      show "cmp pivot (at ys a) \<le> 0"
      proof (cases "a = j")
        case False
        then show ?thesis using ys(5) [of a] right [OF _ a(2)] a b True by auto
      qed (use ys(4) xi in simp)
    qed
    show ?thesis
    proof (cases "i + 1 \<le> j - 1")
      case rec: True
      have po2: "part_of ys low high" using po rearr_length [OF ys(2)] by simp
      have "\<exists>zs lp' hp'. partition_loop cmp pivot ys (i + 1) (j - 1) = Some (zs, lp', hp') \<and> rearr low high ys zs \<and>
          parted cmp pivot low high lp' hp' zs \<and> low < lp' \<and> lp' \<le> high + 1 \<and> hp' < high \<and> low - 1 \<le> hp' \<and> hp' < lp'"
        by (rule less.hyps [OF _ po2 _ _ rec pt]) (use i j b ne True in auto)
      moreover have "partition_loop cmp pivot xs lp hp = partition_loop cmp pivot ys (i + 1) (j - 1)"
        using i(1) j(1) ys(1) True rec by (simp add: partition_loop.simps [of cmp pivot xs lp hp])
      ultimately show ?thesis using rearr_trans [OF ys(2)] by metis
    next
      case False
      have "partition_loop cmp pivot xs lp hp = Some (ys, i + 1, j - 1)"
        using i(1) j(1) ys(1) True False by (simp add: partition_loop.simps [of cmp pivot xs lp hp])
      moreover have "low < i + 1" "i + 1 \<le> high + 1" "j - 1 < high" "low - 1 \<le> j - 1" "j - 1 < i + 1" using b False True by linarith+
      ultimately show ?thesis using ys(2) pt by blast
    qed
  next
    case nl: False
    show ?thesis
    proof (cases "i = j")
      case True
      have "parted cmp pivot low high (i + 1) (j - 1) xs" unfolding parted_def
      proof (intro conjI allI impI)
        fix a assume "low \<le> a" "a < i + 1"
        then show "cmp (at xs a) pivot \<le> 0" using left [of a] xi True by (cases "a = i") auto
      next
        fix a assume "j - 1 < a" "a \<le> high"
        then show "cmp pivot (at xs a) \<le> 0" using right [of a] xi True by (cases "a = j") auto
      qed
      moreover have "partition_loop cmp pivot xs lp hp = Some (xs, i + 1, j - 1)"
        using i(1) j(1) True by (simp add: partition_loop.simps [of cmp pivot xs lp hp])
      moreover have "low < i + 1" "i + 1 \<le> high + 1" "j - 1 < high" "low - 1 \<le> j - 1" "j - 1 < i + 1"
        using i j lo hi l True by linarith+
      ultimately show ?thesis by (intro exI conjI) (assumption | rule rearr_refl)+
    next
      case False
      have "low < lp \<and> hp < high" using kl i(3) j(2) nl False by auto
      then have "low < i" "i \<le> high + 1" "j < high" "low - 1 \<le> j" "j < i" using i j k l nl False by linarith+
      moreover have "parted cmp pivot low high i j xs" using left right unfolding parted_def by blast
      moreover have "partition_loop cmp pivot xs lp hp = Some (xs, i, j)"
        using i(1) j(1) nl False by (simp add: partition_loop.simps [of cmp pivot xs lp hp])
      ultimately show ?thesis by (intro exI conjI) (assumption | rule rearr_refl)+
    qed
  qed
qed

subsection \<open>The choice of the pivot\<close>

lemma find_pivot_correct:
  assumes t: "total_cmp cmp" and xs: "part_of xs low high" and n: "THRESHOLD_FOR_INSERT_SORT \<le> high - low + 1"
  shows "\<exists>ys mid lp hp. find_pivot cmp low high xs = Some (ys, mid, lp, hp) \<and> rearr low high xs ys \<and>
    low \<le> lp \<and> lp \<le> mid \<and> mid \<le> hp \<and> hp \<le> high \<and> parted cmp (at ys mid) low high lp hp ys"
proof -
  note T = total_cmpD [OF t]
  define count where "count = high - low + 1"
  define mid where "mid = low + count div 2"
  have c: "10 \<le> count" using n by (simp add: count_def THRESHOLD_FOR_INSERT_SORT_def)
  show ?thesis
  proof (cases "count > 40")
    case True
    define step where "step = count div 8"
    have st: "5 \<le> step" "8 * step \<le> count" "count \<le> 8 * step + 7" using True by (simp_all add: step_def)
    have m: "2 * mid \<le> 2 * low + count" "2 * low + count \<le> 2 * mid + 1" unfolding mid_def by presburger+
    have b: "low < low + step" "low + step < low + step * 2" "low + step * 2 \<le> high" "low \<le> mid - step" "mid - step < mid" "mid < mid + step"
      "mid + step \<le> high" "low \<le> high - 2 * step" "high - 2 * step < high - step" "high - step < high" "low + step < mid" "mid < high - step"
      using st m by (simp_all add: count_def)
    obtain y1 where y1: "MEDIAN cmp low (low + step) (low + step * 2) xs = Some y1" "rearr low high xs y1"
      using MEDIAN_correct [OF t xs order_refl b(1-3)] by blast
    have p1: "part_of y1 low high" using xs rearr_length [OF y1(2)] by simp
    obtain y2 where y2: "MEDIAN cmp (mid - step) mid (mid + step) y1 = Some y2" "rearr low high y1 y2"
      using MEDIAN_correct [OF t p1 b(4-7)] by blast
    have p2: "part_of y2 low high" using p1 rearr_length [OF y2(2)] by simp
    obtain y3 where y3: "MEDIAN cmp (high - 2 * step) (high - step) high y2 = Some y3" "rearr low high y2 y3"
      using MEDIAN_correct [OF t p2 b(8-10) order_refl] by blast
    have p3: "part_of y3 low high" using p2 rearr_length [OF y3(2)] by simp
    have l: "low \<le> low + step" "high - step \<le> high" using st by simp_all
    obtain y4 where y4: "MEDIAN cmp (low + step) mid (high - step) y3 = Some y4" "rearr low high y3 y4"
      using MEDIAN_correct [OF t p3 l(1) b(11,12) l(2)] by blast
    have "find_pivot cmp low high xs = Some (y4, mid, low, high)"
      unfolding find_pivot_def Let_def count_def [symmetric] mid_def [symmetric] step_def [symmetric]
      using True y1(1) y2(1) y3(1) y4(1) by simp
    moreover have "rearr low high xs y4" using rearr_trans y1(2) y2(2) y3(2) y4(2) by blast
    moreover have "parted cmp (at y4 mid) low high low high y4" by (simp add: parted_def)
    ultimately show ?thesis using b by (intro exI conjI) (assumption | linarith)+
  next
    case False
    have b: "low < mid" "mid < high" using c unfolding mid_def by (simp_all add: count_def)
    obtain ys where ys: "MEDIAN cmp low mid high xs = Some ys" "rearr low high xs ys" "cmp (at ys low) (at ys mid) \<le> 0" "cmp (at ys mid) (at ys high) \<le> 0"
      using MEDIAN_correct [OF t xs order_refl b order_refl] by blast
    have "find_pivot cmp low high xs = Some (ys, mid, low + 1, high - 1)"
      unfolding find_pivot_def Let_def count_def [symmetric] mid_def [symmetric] using False ys(1) by simp
    moreover have "parted cmp (at ys mid) low high (low + 1) (high - 1) ys" unfolding parted_def
    proof (intro conjI allI impI)
      fix i assume "low \<le> i" "i < low + 1"
      then have "i = low" by simp
      then show "cmp (at ys i) (at ys mid) \<le> 0" using ys(3) by simp
    next
      fix j assume "high - 1 < j" "j \<le> high"
      then have "j = high" by simp
      then show "cmp (at ys mid) (at ys j) \<le> 0" using ys(4) by simp
    qed
    ultimately show ?thesis using ys(2) b by (intro exI conjI) (assumption | linarith)+
  qed
qed

subsection \<open>The insertion sort\<close>

definition sorted_part :: "('a \<Rightarrow> 'a \<Rightarrow> int) \<Rightarrow> int \<Rightarrow> int \<Rightarrow> 'a list \<Rightarrow> bool" where
  "sorted_part cmp low high xs \<longleftrightarrow> (\<forall>i j. low \<le> i \<longrightarrow> i < j \<longrightarrow> j \<le> high \<longrightarrow> cmp (at xs i) (at xs j) \<le> 0)"

lemma sorted_partD: "sorted_part cmp low high xs \<Longrightarrow> low \<le> i \<Longrightarrow> i < j \<Longrightarrow> j \<le> high \<Longrightarrow> cmp (at xs i) (at xs j) \<le> 0"
  unfolding sorted_part_def by blast

text \<open>The element at \<open>ptr\<close> is on its way down: without it the range up to \<open>top\<close> is sorted.\<close>

lemma insert_down_correct:
  assumes "total_cmp cmp" "part_of xs low high" "low \<le> ptr" "ptr \<le> tp" "tp \<le> high"
    "\<And>i j. low \<le> i \<Longrightarrow> i < j \<Longrightarrow> j \<le> tp \<Longrightarrow> j \<noteq> ptr \<Longrightarrow> cmp (at xs i) (at xs j) \<le> 0"
  shows "\<exists>ys. insert_down cmp low ptr xs = Some ys \<and> rearr low high xs ys \<and> sorted_part cmp low tp ys"
  using assms(2-)
proof (induction "nat (ptr - low)" arbitrary: xs ptr rule: less_induct)
  case less
  note T = total_cmpD [OF assms(1)] and po = less.prems(1) and lo = less.prems(2) and pt = less.prems(3) and hi = less.prems(4) and S = less.prems(5)
  show ?case
  proof (cases "low < ptr")
    case True
    have c: "cmp_at cmp xs (ptr - 1) ptr = Some (cmp (at xs (ptr - 1)) (at xs ptr))"
      by (rule cmp_at_Some [OF po]) (use True pt hi in linarith)+
    show ?thesis
    proof (cases "cmp (at xs (ptr - 1)) (at xs ptr) > 0")
      case gt: True
      have b: "low \<le> ptr" "ptr \<le> high" "low \<le> ptr - 1" "ptr - 1 \<le> high" "0 \<le> low" using True pt hi po by linarith+
      obtain ys where ys: "swap_at ptr (ptr - 1) xs = Some ys" "rearr low high xs ys" "at ys ptr = at xs (ptr - 1)" "at ys (ptr - 1) = at xs ptr"
        "\<And>a. 0 \<le> a \<Longrightarrow> a \<noteq> ptr \<Longrightarrow> a \<noteq> ptr - 1 \<Longrightarrow> at ys a = at xs a"
        using swap_at_correct [OF po b(1-4)] by blast
      have S2: "cmp (at ys i) (at ys j) \<le> 0" if "low \<le> i" "i < j" "j \<le> tp" "j \<noteq> ptr - 1" for i j
      proof -
        have at_ys: "at ys k = (if k = ptr then at xs (ptr - 1) else if k = ptr - 1 then at xs ptr else at xs k)" if "low \<le> k" for k
          using ys(3-5) that b by auto
        have "j < ptr - 1 \<or> j = ptr \<or> ptr < j" using that(4) by linarith
        moreover have "i < ptr - 1 \<or> i = ptr - 1 \<or> i = ptr \<or> ptr < i" by linarith
        moreover have "cmp (at xs ptr) (at xs (ptr - 1)) \<le> 0" using gt T(1) [of "at xs ptr" "at xs (ptr - 1)"] by simp
        ultimately show ?thesis using at_ys [OF that(1)] at_ys [of j] S [of i j] S [of i "ptr - 1"] S [of "ptr - 1" j] S [of ptr j] that b pt
          by (elim disjE) auto
      qed
      have po2: "part_of ys low high" using po rearr_length [OF ys(2)] by simp
      have "\<exists>zs. insert_down cmp low (ptr - 1) ys = Some zs \<and> rearr low high ys zs \<and> sorted_part cmp low tp zs"
        by (rule less.hyps [OF _ po2 b(3) _ hi S2]) (use True pt in auto)
      moreover have "insert_down cmp low ptr xs = insert_down cmp low (ptr - 1) ys"
        using True c gt ys(1) by (simp add: insert_down.simps [of cmp low ptr xs])
      ultimately show ?thesis using rearr_trans [OF ys(2)] by metis
    next
      case False
      have "insert_down cmp low ptr xs = Some xs" using True c False by (simp add: insert_down.simps [of cmp low ptr xs])
      moreover have "sorted_part cmp low tp xs" unfolding sorted_part_def
      proof (intro allI impI)
        fix i j assume ij: "low \<le> i" "i < j" "j \<le> tp"
        show "cmp (at xs i) (at xs j) \<le> 0"
        proof (cases "j = ptr")
          case j: True
          have le: "cmp (at xs (ptr - 1)) (at xs ptr) \<le> 0" using False by simp
          show ?thesis
          proof (cases "i = ptr - 1")
            case False
            then have "cmp (at xs i) (at xs (ptr - 1)) \<le> 0" using S [of i "ptr - 1"] ij j pt by auto
            then show ?thesis using T(2) [OF _ le] j by simp
          qed (use le j in simp)
        qed (use S ij in blast)
      qed
      ultimately show ?thesis by (intro exI conjI) (assumption | rule rearr_refl)+
    qed
  next
    case False
    then have "insert_down cmp low ptr xs = Some xs" by (simp add: insert_down.simps [of cmp low ptr xs])
    moreover have "sorted_part cmp low tp xs" unfolding sorted_part_def using S False lo by (metis leD order.strict_trans1 order_antisym not_le)
    ultimately show ?thesis by (intro exI conjI) (assumption | rule rearr_refl)+
  qed
qed

lemma insert_sort_correct:
  assumes "total_cmp cmp" "part_of xs low high" "low < lp" "lp \<le> high + 1" "sorted_part cmp low (lp - 1) xs"
  shows "\<exists>ys. insert_sort cmp low high lp xs = Some ys \<and> rearr low high xs ys \<and> sorted_part cmp low high ys"
  using assms(2-)
proof (induction "nat (high + 1 - lp)" arbitrary: xs lp rule: less_induct)
  case less
  note po = less.prems(1)
  show ?case
  proof (cases "lp \<le> high")
    case True
    have S: "cmp (at xs i) (at xs j) \<le> 0" if "low \<le> i" "i < j" "j \<le> lp" "j \<noteq> lp" for i j
      using sorted_partD [OF less.prems(4) that(1,2)] that(3,4) by simp
    obtain ys where ys: "insert_down cmp low lp xs = Some ys" "rearr low high xs ys" "sorted_part cmp low lp ys"
      using insert_down_correct [OF assms(1) po less_imp_le [OF less.prems(2)] order_refl True S] by blast
    have po2: "part_of ys low high" using po rearr_length [OF ys(2)] by simp
    have "\<exists>zs. insert_sort cmp low high (lp + 1) ys = Some zs \<and> rearr low high ys zs \<and> sorted_part cmp low high zs"
      by (rule less.hyps [OF _ po2]) (use True less.prems(2) ys(3) in auto)
    moreover have "insert_sort cmp low high lp xs = insert_sort cmp low high (lp + 1) ys"
      using True ys(1) by (simp add: insert_sort.simps [of cmp low high lp xs])
    ultimately show ?thesis using rearr_trans [OF ys(2)] by metis
  next
    case False
    then have "insert_sort cmp low high lp xs = Some xs" by (simp add: insert_sort.simps [of cmp low high lp xs])
    moreover have "lp - 1 = high" using False less.prems(3) by simp
    ultimately show ?thesis using less.prems(4) by (intro exI conjI) (assumption | rule rearr_refl | simp)+
  qed
qed

subsection \<open>The whole sort\<close>

text \<open>
  The ranges that are left: apart from each other, each with two elements at least; elements that are not
  in the same range are in order.
\<close>

definition apart :: "bounds \<Rightarrow> bounds \<Rightarrow> bool" where
  "apart r s \<longleftrightarrow> snd r < fst s \<or> snd s < fst r"

definition in_order :: "('a \<Rightarrow> 'a \<Rightarrow> int) \<Rightarrow> 'a list \<Rightarrow> bounds list \<Rightarrow> bool" where
  "in_order cmp xs rs \<longleftrightarrow> (\<forall>i j. 0 \<le> i \<longrightarrow> i < j \<longrightarrow> j < int (length xs) \<longrightarrow>
     (\<exists>r \<in> set rs. fst r \<le> i \<and> j \<le> snd r) \<or> cmp (at xs i) (at xs j) \<le> 0)"

definition ranges_ok :: "('a \<Rightarrow> 'a \<Rightarrow> int) \<Rightarrow> 'a list \<Rightarrow> bounds list \<Rightarrow> bool" where
  "ranges_ok cmp xs rs \<longleftrightarrow> (\<forall>r \<in> set rs. 0 \<le> fst r \<and> fst r < snd r \<and> snd r < int (length xs)) \<and>
     sorted_wrt apart rs \<and> in_order cmp xs rs"

lemma ranges_okD:
  assumes "ranges_ok cmp xs rs"
  shows "r \<in> set rs \<Longrightarrow> 0 \<le> fst r \<and> fst r < snd r \<and> snd r < int (length xs)" "sorted_wrt apart rs"
    "0 \<le> i \<Longrightarrow> i < j \<Longrightarrow> j < int (length xs) \<Longrightarrow> (\<exists>r \<in> set rs. fst r \<le> i \<and> j \<le> snd r) \<or> cmp (at xs i) (at xs j) \<le> 0"
  using assms unfolding ranges_ok_def in_order_def by blast+

text \<open>A range is rearranged and divided into the ranges \<open>ps\<close>.\<close>

lemma ranges_ok_divide:
  assumes ok: "ranges_ok cmp xs ((low, high) # st)" and re: "rearr low high xs ys"
    and ps: "\<And>p. p \<in> set ps \<Longrightarrow> low \<le> fst p \<and> fst p < snd p \<and> snd p \<le> high" "sorted_wrt apart ps"
    and ord: "\<And>i j. low \<le> i \<Longrightarrow> i < j \<Longrightarrow> j \<le> high \<Longrightarrow> (\<exists>p \<in> set ps. fst p \<le> i \<and> j \<le> snd p) \<or> cmp (at ys i) (at ys j) \<le> 0"
  shows "ranges_ok cmp ys (ps @ st)"
proof -
  note D = ranges_okD [OF ok] and len = rearr_length [OF re]
  have b: "0 \<le> low" "low < high" "high < int (length xs)" using D(1) [of "(low, high)"] by auto
  have away: "snd r < low \<or> high < fst r" if "r \<in> set st" for r
    using D(2) that by (auto simp: apart_def)
  have "0 \<le> fst r \<and> fst r < snd r \<and> snd r < int (length ys)" if "r \<in> set (ps @ st)" for r
    using that ps(1) [of r] D(1) [of r] b len by auto
  moreover have "sorted_wrt apart (ps @ st)"
    unfolding sorted_wrt_append
  proof (intro conjI ballI)
    show "sorted_wrt apart ps" by (rule ps(2))
    show "sorted_wrt apart st" using D(2) by simp
    show "apart p r" if "p \<in> set ps" "r \<in> set st" for p r
      using ps(1) [OF that(1)] away [OF that(2)] D(1) [of r] that(2) by (auto simp: apart_def)
  qed
  moreover have "in_order cmp ys (ps @ st)" unfolding in_order_def
  proof (intro allI impI)
    fix i j assume ij: "0 \<le> i" "i < j" "j < int (length ys)"
    let ?goal = "(\<exists>r \<in> set (ps @ st). fst r \<le> i \<and> j \<le> snd r) \<or> cmp (at ys i) (at ys j) \<le> 0"
    have out: "at ys k = at xs k" if "0 \<le> k" "k < low \<or> high < k" for k by (rule rearr_outside [OF re that])
    have old: "(\<exists>r \<in> set st. fst r \<le> a \<and> c \<le> snd r) \<or> cmp (at xs a) (at xs c) \<le> 0"
      if "0 \<le> a" "a < c" "c < int (length xs)" "a < low \<or> high < c" for a c
      using D(3) [OF that(1-3)] that(4) by auto
    consider "low \<le> i \<and> i \<le> high" "low \<le> j \<and> j \<le> high" | "low \<le> i \<and> i \<le> high" "high < j" | "i < low" "low \<le> j \<and> j \<le> high"
      | "i < low \<or> high < i" "j < low \<or> high < j"
      using ij by linarith
    then show ?goal
    proof cases
      case 1
      then show ?thesis using ord [of i j] ij by auto
    next
      case 2
      then obtain k where k: "low \<le> k" "k \<le> high" "at ys i = at xs k" using rearr_inside [OF re] by blast
      have "\<not> (fst r \<le> k \<and> j \<le> snd r)" if "r \<in> set st" for r using away [OF that] k 2 by auto
      then have "cmp (at xs k) (at xs j) \<le> 0" using old [of k j] k 2 b ij len by auto
      then show ?thesis using k(3) out [of j] 2 ij by auto
    next
      case 3
      then obtain k where k: "low \<le> k" "k \<le> high" "at ys j = at xs k" using rearr_inside [OF re] by blast
      have "\<not> (fst r \<le> i \<and> k \<le> snd r)" if "r \<in> set st" for r using away [OF that] k 3 by auto
      then have "cmp (at xs i) (at xs k) \<le> 0" using old [of i k] k 3 b ij len by auto
      then show ?thesis using k(3) out [of i] 3 ij by auto
    next
      case 4
      then have "(\<exists>r \<in> set st. fst r \<le> i \<and> j \<le> snd r) \<or> cmp (at xs i) (at xs j) \<le> 0 \<or> i < low \<and> high < j"
        using D(3) [of i j] ij len by auto
      then show ?thesis using out [of i] out [of j] 4 ij old [of i j] len by auto
    qed
  qed
  ultimately show ?thesis unfolding ranges_ok_def by blast
qed

text \<open>The size of the ranges on the stack: at most half of that below, so there are few of them.\<close>

primrec range_sizes :: "int \<Rightarrow> bounds list \<Rightarrow> bool" where
  "range_sizes n [] = True"
| "range_sizes n (r # rs) \<longleftrightarrow> (snd r - fst r + 1) * 2 ^ length rs \<le> n \<and> range_sizes n rs"

definition work :: "bounds list \<Rightarrow> nat" where
  "work rs = (\<Sum>r \<leftarrow> rs. nat (2 * (snd r - fst r) + 1))"

lemma at_most_one:
  assumes "0 < sz" "int sz < 2 ^ 31" "low - 1 \<le> high" "(high - low) * int sz < 2 ^ 31"
  shows "at_most_one sz low high \<longleftrightarrow> high \<le> low"
proof -
  define v where "v = (high - low) * int sz"
  have "- int sz \<le> v" unfolding v_def using assms(1,3) mult_right_mono [of "- 1" "high - low" "int sz"] by simp
  then have "- (2 ^ 31) \<le> v" "v < 2 ^ 31" using assms(2,4) by (simp_all add: v_def)
  then have "sint (word_of_int v :: 32 word) = v" by (simp add: sint_sbintrunc' signed_take_bit_int_eq_self)
  moreover have "v \<le> 0 \<longleftrightarrow> high - low \<le> 0" unfolding v_def using assms(1) by (simp add: mult_le_0_iff)
  ultimately show ?thesis by (simp add: at_most_one_def v_def)
qed

lemma PUSH_correct:
  assumes "range_sizes n (r # st)" "10 \<le> snd r - fst r + 1" "n < 2 ^ 31"
  shows "PUSH p st = Some (p # st)"
proof -
  have "10 * (2::int) ^ length st \<le> (snd r - fst r + 1) * 2 ^ length st" using assms(2) by (intro mult_right_mono) auto
  also have "\<dots> \<le> n" using assms(1) by simp
  finally have "10 * (2::int) ^ length st < 2 ^ 31" using assms(3) by (rule order.strict_trans1)
  moreover have "(0::int) < 2 ^ length st" by simp
  ultimately have "(2::int) ^ length st < 2 ^ 31" by linarith
  then have "length st < 31" using power_less_imp_less_exp [of "2::int" "length st" 31] by simp
  then show ?thesis by (simp add: PUSH_def STACK_SIZE_def)
qed

text \<open>What a turn does to the array and to the ranges.\<close>

definition turn_ok :: "('a \<Rightarrow> 'a \<Rightarrow> int) \<Rightarrow> 'a list \<Rightarrow> bounds list \<Rightarrow> 'a list \<times> (bounds \<times> bounds list) option \<Rightarrow> bool" where
  "turn_ok cmp xs rs res \<longleftrightarrow> mset (fst res) = mset xs \<and>
     (let rs' = (case snd res of None \<Rightarrow> [] | Some (r, st) \<Rightarrow> r # st)
      in ranges_ok cmp (fst res) rs' \<and> range_sizes (int (length xs)) rs' \<and> work rs' < work rs)"

lemma turn_ok_POP:
  assumes "mset ys = mset xs" "ranges_ok cmp ys st" "range_sizes (int (length xs)) (r # st)" "fst r < snd r"
  shows "turn_ok cmp xs (r # st) (POP ys st)"
  using assms by (auto simp: turn_ok_def POP_def work_def split: list.splits)

lemma turn_ok_Some:
  assumes "mset ys = mset xs" "ranges_ok cmp ys (r' # st')" "range_sizes (int (length xs)) (r' # st')" "work (r' # st') < work rs"
  shows "turn_ok cmp xs rs (ys, Some (r', st'))"
  using assms by (simp add: turn_ok_def)

lemma next_range_correct:
  assumes ok: "ranges_ok cmp xs ((low, high) # st)" and sz: "range_sizes (int (length xs)) ((low, high) # st)"
    and big: "10 \<le> high - low + 1" and mem: "0 < sz" "int (length xs) * int sz < 2 ^ 31"
    and re: "rearr low high xs ys" and t: "total_cmp cmp" and pt: "parted cmp pivot low high lp hp ys"
    and lh: "low < lp" "lp \<le> high + 1" "hp < high" "low - 1 \<le> hp" "hp < lp"
  shows "\<exists>res. next_range sz ys low high lp hp st = Some res \<and> turn_ok cmp xs ((low, high) # st) res"
proof -
  have b: "0 \<le> low" "low < high" "high < int (length xs)" using ranges_okD(1) [OF ok, of "(low, high)"] by auto
  have ms: "mset ys = mset xs" using re by (simp add: rearr_def)
  have small: "(h - l) * int sz < 2 ^ 31" if "h - l \<le> int (length xs)" for h l
    using mult_right_mono [OF that, of "int sz"] mem(2) by simp
  have one: "1 * int sz \<le> int (length xs) * int sz" using b by (intro mult_right_mono) auto
  have amo: "at_most_one sz low hp \<longleftrightarrow> hp \<le> low" "at_most_one sz lp high \<longleftrightarrow> high \<le> lp"
    using order.strict_trans1 [OF one mem(2)] mem(1) b lh by (intro at_most_one small; linarith)+
  have cross: "cmp (at ys i) (at ys j) \<le> 0" if "low \<le> i" "i < j" "j \<le> high" "i < lp" "hp < j" for i j
    using total_cmpD(2) [OF t] partedD [OF pt] that by blast
  have len: "int (length xs) < 2 ^ 31" using mult_left_mono [of 1 "int sz" "int (length xs)"] mem by simp
  define n where "n = (2::int) ^ length st"
  have n: "0 < n" "(high - low + 1) * n \<le> int (length xs)" "range_sizes (int (length xs)) st" using sz by (simp_all add: n_def)
  have mono: "a * n \<le> int (length xs)" if "a \<le> high - low + 1" for a
    using mult_right_mono [OF that less_imp_le [OF n(1)]] n(2) by simp
  have two: "a * (2 * n) \<le> int (length xs)" if "2 * a \<le> high - low + 1" for a
    using mono [OF that] by (simp add: mult.left_commute)
  note divide = ranges_ok_divide [OF ok re]
  show ?thesis
  proof (cases "hp \<le> low")
    case L: True
    show ?thesis
    proof (cases "high \<le> lp")
      case True
      have "cmp (at ys i) (at ys j) \<le> 0" if "low \<le> i" "i < j" "j \<le> high" for i j
        using cross [OF that] that L True by linarith
      then have "ranges_ok cmp ys st" using divide [of "[]"] by simp
      then show ?thesis using turn_ok_POP [OF ms _ sz] amo b(2) L True by (simp add: next_range_def)
    next
      case False
      have "ranges_ok cmp ys ([(lp, high)] @ st)"
      proof (rule divide)
        show "(\<exists>p \<in> set [(lp, high)]. fst p \<le> i \<and> j \<le> snd p) \<or> cmp (at ys i) (at ys j) \<le> 0" if "low \<le> i" "i < j" "j \<le> high" for i j
          using cross [OF that] that L by (cases "lp \<le> i") auto
      qed (use False lh in auto)
      moreover have "range_sizes (int (length xs)) ((lp, high) # st)" using mono [of "high - lp + 1"] n lh by (simp add: n_def)
      moreover have "work ((lp, high) # st) < work ((low, high) # st)" using lh b by (simp add: work_def)
      ultimately show ?thesis using turn_ok_Some [OF ms] amo L False by (simp add: next_range_def)
    qed
  next
    case L: False
    show ?thesis
    proof (cases "high \<le> lp")
      case True
      have "ranges_ok cmp ys ([(low, hp)] @ st)"
      proof (rule divide)
        show "(\<exists>p \<in> set [(low, hp)]. fst p \<le> i \<and> j \<le> snd p) \<or> cmp (at ys i) (at ys j) \<le> 0" if "low \<le> i" "i < j" "j \<le> high" for i j
          using cross [OF that] that True by (cases "j \<le> hp") auto
      qed (use L lh in auto)
      moreover have "range_sizes (int (length xs)) ((low, hp) # st)" using mono [of "hp - low + 1"] n lh by (simp add: n_def)
      moreover have "work ((low, hp) # st) < work ((low, high) # st)" using lh b by (simp add: work_def)
      ultimately show ?thesis using turn_ok_Some [OF ms] amo L True by (simp add: next_range_def)
    next
      case False
      have split: "(\<exists>p \<in> {(low, hp), (lp, high)}. fst p \<le> i \<and> j \<le> snd p) \<or> cmp (at ys i) (at ys j) \<le> 0" if "low \<le> i" "i < j" "j \<le> high" for i j
        using cross [OF that] that by (cases "j \<le> hp"; cases "lp \<le> i") auto
      have ok1: "ranges_ok cmp ys ([(low, hp), (lp, high)] @ st)"
        by (rule divide) (use L False lh split in \<open>auto simp: apart_def\<close>)
      have ok2: "ranges_ok cmp ys ([(lp, high), (low, hp)] @ st)"
        by (rule divide) (use L False lh split in \<open>auto simp: apart_def\<close>)
      have w: "work ((lp, high) # (low, hp) # st) < work ((low, high) # st)" "work ((low, hp) # (lp, high) # st) < work ((low, high) # st)"
        using L False lh b by (auto simp: work_def)
      have push: "PUSH p st = Some (p # st)" for p by (rule PUSH_correct [OF sz _ len]) (use big in simp)
      show ?thesis
      proof (cases "hp - low > high - lp")
        case True
        have "range_sizes (int (length xs)) ((lp, high) # (low, hp) # st)"
          using two [of "high - lp + 1"] mono [of "hp - low + 1"] n(3) True lh by (simp add: n_def)
        then show ?thesis using turn_ok_Some [OF ms _ _ w(1)] ok2 amo L False True push by (simp add: next_range_def)
      next
        case nl: False
        have "range_sizes (int (length xs)) ((low, hp) # (lp, high) # st)"
          using two [of "hp - low + 1"] mono [of "high - lp + 1"] n(3) nl lh by (simp add: n_def)
        then show ?thesis using turn_ok_Some [OF ms _ _ w(2)] ok1 amo L False nl push by (simp add: next_range_def)
      qed
    qed
  qed
qed

lemma sort_range_correct:
  assumes t: "total_cmp cmp" and ok: "ranges_ok cmp xs (r # st)" and sz: "range_sizes (int (length xs)) (r # st)"
    and mem: "0 < sz" "int (length xs) * int sz < 2 ^ 31"
  shows "\<exists>res. sort_range cmp sz xs r st = Some res \<and> turn_ok cmp xs (r # st) res"
proof -
  obtain low high where r: "r = (low, high)" by (cases r)
  have b: "0 \<le> low" "low < high" "high < int (length xs)" using ranges_okD(1) [OF ok, of r] by (auto simp: r)
  then have po: "part_of xs low high" by simp
  show ?thesis
  proof (cases "high - low + 1 < THRESHOLD_FOR_INSERT_SORT")
    case True
    have "sorted_part cmp low (low + 1 - 1) xs" by (simp add: sorted_part_def)
    then obtain ys where ys: "insert_sort cmp low high (low + 1) xs = Some ys" "rearr low high xs ys" "sorted_part cmp low high ys"
      using insert_sort_correct [OF t po, of "low + 1"] b by auto
    have "ranges_ok cmp ys ([] @ st)"
      by (rule ranges_ok_divide [OF ok [unfolded r] ys(2)]) (use sorted_partD [OF ys(3)] in auto)
    moreover have "mset ys = mset xs" using ys(2) by (simp add: rearr_def)
    ultimately show ?thesis using turn_ok_POP [OF _ _ sz] b(2) True ys(1) by (simp add: sort_range_def r)
  next
    case False
    obtain y1 mid lp hp where y1: "find_pivot cmp low high xs = Some (y1, mid, lp, hp)" "rearr low high xs y1"
      "low \<le> lp" "lp \<le> mid" "mid \<le> hp" "hp \<le> high" "parted cmp (at y1 mid) low high lp hp y1"
      using find_pivot_correct [OF t po] False by (metis not_less)
    have p1: "part_of y1 low high" using po rearr_length [OF y1(2)] by simp
    have e: "elem_at y1 mid = Some (at y1 mid)" using p1 y1 by (intro elem_at_Some) auto
    have lh: "lp \<le> hp" and m: "\<exists>m. lp \<le> m \<and> m \<le> hp \<and> at y1 m = at y1 mid" using y1(4,5) by auto
    obtain y2 lp' hp' where y2: "partition_loop cmp (at y1 mid) y1 lp hp = Some (y2, lp', hp')" "rearr low high y1 y2"
      "parted cmp (at y1 mid) low high lp' hp' y2" "low < lp'" "lp' \<le> high + 1" "hp' < high" "low - 1 \<le> hp'" "hp' < lp'"
      using partition_loop_correct [OF t p1 y1(3,6) lh y1(7) disjI1 [OF m]] by blast
    have big: "10 \<le> high - low + 1" using False by (simp add: THRESHOLD_FOR_INSERT_SORT_def)
    from next_range_correct [OF ok [unfolded r] sz [unfolded r] big mem rearr_trans [OF y1(2) y2(2)] t y2(3-8)]
    show ?thesis using False y1(1) e y2(1) by (simp add: sort_range_def r)
  qed
qed

lemma qsort2_correct:
  assumes t: "total_cmp cmp" and mem: "0 < sz" "int (length xs) * int sz < 2 ^ 31"
  shows "\<exists>ys. qsort2 cmp sz xs = Some ys \<and> mset ys = mset xs \<and> sorted_wrt (\<lambda>a b. cmp a b \<le> 0) ys"
proof -
  have loop: "\<exists>ys. qsort_loop cmp sz xs r st = Some ys \<and> mset ys = mset xs \<and> in_order cmp ys []"
    if "ranges_ok cmp xs (r # st)" "range_sizes (int (length xs)) (r # st)" "int (length xs) * int sz < 2 ^ 31" for xs r st
    using that
  proof (induction "work (r # st)" arbitrary: xs r st rule: less_induct)
    case less
    obtain ys nx where t: "sort_range cmp sz xs r st = Some (ys, nx)" "turn_ok cmp xs (r # st) (ys, nx)"
      using sort_range_correct [OF t less.prems(1,2) mem(1) less.prems(3)] by auto
    have ms: "mset ys = mset xs" using t(2) by (simp add: turn_ok_def)
    then have len: "length ys = length xs" by (rule mset_eq_length)
    show ?case
    proof (cases nx)
      case None
      then have "in_order cmp ys []" using t(2) by (simp add: turn_ok_def ranges_ok_def)
      then show ?thesis using None t(1) ms by (simp add: qsort_loop.simps [of cmp sz xs r st])
    next
      case (Some p)
      obtain r' st' where p: "p = (r', st')" by (cases p)
      then have n: "ranges_ok cmp ys (r' # st')" "range_sizes (int (length ys)) (r' # st')" "work (r' # st') < work (r # st)"
        using t(2) len Some by (simp_all add: turn_ok_def Let_def)
      from less.hyps [OF n(3,1,2)] less.prems(3) len obtain zs where "qsort_loop cmp sz ys r' st' = Some zs" "mset zs = mset ys" "in_order cmp zs []"
        by auto
      then show ?thesis using Some p t(1) ms by (simp add: qsort_loop.simps [of cmp sz xs r st])
    qed
  qed
  have ord: "sorted_wrt (\<lambda>a b. cmp a b \<le> 0) ys" if "in_order cmp ys []" for ys
    unfolding sorted_wrt_iff_nth_less
  proof (intro allI impI)
    fix i j assume "i < j" "j < length ys"
    then show "cmp (ys ! i) (ys ! j) \<le> 0" using that [unfolded in_order_def, rule_format, of "int i" "int j"] by simp
  qed
  show ?thesis
  proof (cases "length xs \<le> 1")
    case True
    then have "sorted_wrt (\<lambda>a b. cmp a b \<le> 0) xs" by (cases xs) auto
    then show ?thesis using True by (simp add: qsort2_def)
  next
    case False
    have "ranges_ok cmp xs [(0, int (length xs) - 1)]" using False by (auto simp: ranges_ok_def in_order_def)
    with loop [of xs "(0, int (length xs) - 1)" "[]"] mem ord False show ?thesis by (auto simp: qsort2_def)
  qed
qed

end
