(* ===== verification/PrioQueue.thy ===== *)
theory PrioQueue
  imports Interfaces QSort
begin

text \<open>
  The priority queues of mysys/queues.c: a binary heap of pointers in \<open>root[1..elements]\<close>,
  with \<open>root[0]\<close> as the sentinel of an insert. A \<open>byte*\<close> is its address; the result of
  the callback \<open>compare\<close> is a value of type \<open>int\<close>, whose \<open>XOR\<close> with \<open>max_at_top\<close> is that
  of C. The flag \<open>dbug\<close> says whether the checks of a debug build are there. A value None
  means an access outside \<open>root\<close>, or a loop that does not end.
\<close>

subsection \<open>Structure and functions\<close>

record 'a QUEUE =
  root :: "nat list option"
  first_cmp_arg :: 'a
  elements :: nat
  max_elements :: nat
  offset_to_key :: nat
  max_at_top :: int
  compare :: "'a \<Rightarrow> nat \<Rightarrow> nat \<Rightarrow> int"

text \<open>\<open>alloc\<close>: the new block, or None. EE_OUTOFMEMORY is 5.\<close>

definition init_queue ::
  "(nat \<Rightarrow> nat list option) \<Rightarrow> 'a QUEUE \<Rightarrow> nat \<Rightarrow> nat \<Rightarrow> bool \<Rightarrow> ('a \<Rightarrow> nat \<Rightarrow> nat \<Rightarrow> int) \<Rightarrow> 'a \<Rightarrow>
    'a QUEUE \<times> int" where
  "init_queue alloc q n offset mx cmp arg =
     (case alloc (n + 1) of
        None \<Rightarrow> (q\<lparr>root := None\<rparr>, 1)
      | Some r \<Rightarrow> (q\<lparr>root := Some r, elements := 0, compare := cmp, first_cmp_arg := arg,
           max_elements := n, offset_to_key := offset, max_at_top := (if mx then - 1 XOR 1 else 0)\<rparr>, 0))"

definition reinit_queue ::
  "'a QUEUE \<Rightarrow> nat \<Rightarrow> nat \<Rightarrow> bool \<Rightarrow> ('a \<Rightarrow> nat \<Rightarrow> nat \<Rightarrow> int) \<Rightarrow> 'a \<Rightarrow> 'a QUEUE \<times> int" where
  "reinit_queue q n offset mx cmp arg =
     (if max_elements q < n then (q, 5)
      else (q\<lparr>elements := 0, compare := cmp, first_cmp_arg := arg, offset_to_key := offset,
              max_at_top := (if mx then - 1 XOR 1 else 0)\<rparr>, 0))"

definition delete_queue :: "'a QUEUE \<Rightarrow> 'a QUEUE" where
  "delete_queue q = (if root q \<noteq> None then q\<lparr>root := None\<rparr> else q)"

definition key_cmp :: "'a QUEUE \<Rightarrow> nat \<Rightarrow> nat \<Rightarrow> int" where
  "key_cmp q a b = compare q (first_cmp_arg q) (a + offset_to_key q) (b + offset_to_key q)"

definition cell :: "nat list \<Rightarrow> nat \<Rightarrow> nat option" where
  "cell r i = (if i < length r then Some (r ! i) else None)"

definition set_cell :: "nat list \<Rightarrow> nat \<Rightarrow> nat \<Rightarrow> nat list option" where
  "set_cell r i x = (if i < length r then Some (r[i := x]) else None)"

partial_function (option) upheap_loop :: "(nat \<Rightarrow> nat \<Rightarrow> int) \<Rightarrow> int \<Rightarrow> nat \<Rightarrow> nat list \<Rightarrow> nat \<Rightarrow> nat list option" where
  "upheap_loop cmp mx element r idx =
     do {
       let nxt = drop_bit 1 idx;
       p \<leftarrow> cell r nxt;
       if cmp element p \<noteq> 0 \<and> (cmp element p XOR mx) < 0
       then do { r \<leftarrow> set_cell r idx p; upheap_loop cmp mx element r nxt }
       else set_cell r idx element
     }"

definition queue_insert :: "bool \<Rightarrow> 'a QUEUE \<Rightarrow> nat \<Rightarrow> 'a QUEUE option" where
  "queue_insert dbug q element =
     (if \<not> dbug \<or> elements q < max_elements q then
        do {
          r \<leftarrow> root q;
          r \<leftarrow> set_cell r 0 element;
          let q = q\<lparr>elements := elements q + 1\<rparr>;
          r \<leftarrow> upheap_loop (key_cmp q) (max_at_top q) element r (elements q);
          Some (q\<lparr>root := Some r\<rparr>)
        }
      else Some q)"

partial_function (option) downheap_loop ::
  "(nat \<Rightarrow> nat \<Rightarrow> int) \<Rightarrow> int \<Rightarrow> nat \<Rightarrow> nat \<Rightarrow> nat list \<Rightarrow> nat \<Rightarrow> nat list option" where
  "downheap_loop cmp mx n element r idx =
     (if idx \<le> drop_bit 1 n then
        do {
          let c = idx + idx;
          c \<leftarrow> (if c < n then do { a \<leftarrow> cell r c; b \<leftarrow> cell r (c + 1); Some (if (cmp a b XOR mx) > 0 then c + 1 else c) }
               else Some c);
          x \<leftarrow> cell r c;
          if cmp x element = 0 \<or> (cmp x element XOR mx) > 0 then set_cell r idx element
          else do { r \<leftarrow> set_cell r idx x; downheap_loop cmp mx n element r c }
        }
      else set_cell r idx element)"

declare upheap_loop.simps [code] downheap_loop.simps [code]

definition downheap :: "'a QUEUE \<Rightarrow> nat \<Rightarrow> 'a QUEUE option" where
  "downheap q idx =
     do {
       r \<leftarrow> root q;
       element \<leftarrow> cell r idx;
       r \<leftarrow> downheap_loop (key_cmp q) (max_at_top q) (elements q) element r idx;
       Some (q\<lparr>root := Some r\<rparr>)
     }"

text \<open>The index counts from 0 here and from 1 inside. With \<open>dbug\<close> a null pointer may come back.\<close>

definition queue_remove :: "bool \<Rightarrow> 'a QUEUE \<Rightarrow> nat \<Rightarrow> ('a QUEUE \<times> nat option) option" where
  "queue_remove dbug q idx =
     (if dbug \<and> max_elements q \<le> idx then Some (q, None)
      else do {
        r \<leftarrow> root q;
        element \<leftarrow> cell r (idx + 1);
        l \<leftarrow> cell r (elements q);
        r \<leftarrow> set_cell r (idx + 1) l;
        q \<leftarrow> downheap (q\<lparr>root := Some r, elements := elements q - 1\<rparr>) (idx + 1);
        Some (q, Some element)
      })"

definition queue_replaced :: "'a QUEUE \<Rightarrow> 'a QUEUE option" where
  "queue_replaced q = downheap q 1"

definition queue_top :: "'a QUEUE \<Rightarrow> nat option" where
  "queue_top q = do { r \<leftarrow> root q; cell r 1 }"

definition queue_element :: "'a QUEUE \<Rightarrow> nat \<Rightarrow> nat option" where
  "queue_element q idx = do { r \<leftarrow> root q; cell r (idx + 1) }"

definition queue_end :: "'a QUEUE \<Rightarrow> nat option" where
  "queue_end q = do { r \<leftarrow> root q; cell r (elements q) }"

text \<open>\<open>queue_fix\<close> sorts the elements with the comparison \<open>queue_fix_cmp\<close>; a pointer has 8 bytes.\<close>

definition queue_fix_cmp :: "'a QUEUE \<Rightarrow> nat \<Rightarrow> nat \<Rightarrow> int" where
  "queue_fix_cmp q a b = compare q (first_cmp_arg q) (a + offset_to_key q) (b + offset_to_key q)"

definition queue_fix :: "'a QUEUE \<Rightarrow> 'a QUEUE option" where
  "queue_fix q =
     do {
       r \<leftarrow> root q;
       if elements q < length r then do {
         xs \<leftarrow> qsort2 (queue_fix_cmp q) 8 (take (elements q) (drop 1 r));
         Some (q\<lparr>root := Some (take 1 r @ xs @ drop (elements q + 1) r)\<rparr>)
       } else None
     }"

subsection \<open>The order of a queue\<close>

text \<open>
  The comparison is that of a total preorder (\<open>total_cmp\<close>). With \<open>max_at_top\<close> it must never be \<open>-2\<close>:
  \<open>cmp ^ -2\<close> is then 0 and not positive.
\<close>

definition cmp_ok :: "(nat \<Rightarrow> nat \<Rightarrow> int) \<Rightarrow> int \<Rightarrow> bool" where
  "cmp_ok cmp mx \<longleftrightarrow> total_cmp cmp \<and> (mx = 0 \<or> mx = - 2 \<and> (\<forall>a b. cmp a b \<noteq> - 2))"

definition le_top :: "(nat \<Rightarrow> nat \<Rightarrow> int) \<Rightarrow> int \<Rightarrow> nat \<Rightarrow> nat \<Rightarrow> bool" where
  "le_top cmp mx a b \<longleftrightarrow> (if mx = 0 then cmp a b \<le> 0 else 0 \<le> cmp a b)"

lemma drop_bit_half_nat: "drop_bit (Suc 0) (n :: nat) = n div 2"
  by (simp add: drop_bit_eq_div)

lemma top_value: "- 1 XOR 1 = (- 2 :: int)"
  by simp

lemma xor_minus2:
  assumes "mx = - 2"
  shows "(x :: int) XOR mx < 0 \<longleftrightarrow> 0 \<le> x" "x \<noteq> - 2 \<Longrightarrow> 0 < (x XOR mx) \<longleftrightarrow> x < 0"
proof -
  define y where "y = x XOR mx"
  have "y = 0 \<longleftrightarrow> x = - 2" unfolding y_def assms by (metis bit.xor_self xor.left_neutral xor.assoc xor.right_neutral)
  moreover have "y < 0 \<longleftrightarrow> 0 \<le> x" unfolding y_def by (simp only: xor_negative_int_iff) (use assms in auto)
  ultimately have y: "y < 0 \<longleftrightarrow> 0 \<le> x" "x \<noteq> - 2 \<Longrightarrow> 0 < y \<longleftrightarrow> x < 0" by auto
  show "x XOR mx < 0 \<longleftrightarrow> 0 \<le> x" using y(1) unfolding y_def .
  show "x \<noteq> - 2 \<Longrightarrow> 0 < (x XOR mx) \<longleftrightarrow> x < 0" using y(2) unfolding y_def .
qed

lemma le_top_order:
  assumes "cmp_ok cmp mx"
  shows "le_top cmp mx a a" "le_top cmp mx a b \<or> le_top cmp mx b a"
    "le_top cmp mx a b \<Longrightarrow> le_top cmp mx b c \<Longrightarrow> le_top cmp mx a c"
proof -
  have t: "\<And>a b. cmp a b < 0 \<longleftrightarrow> 0 < cmp b a" "\<And>a b c. cmp a b \<le> 0 \<Longrightarrow> cmp b c \<le> 0 \<Longrightarrow> cmp a c \<le> 0"
    using assms unfolding cmp_ok_def total_cmp_def by blast+
  have le: "cmp a b \<le> 0 \<longleftrightarrow> 0 \<le> cmp b a" for a b using t(1) [of a b] t(1) [of b a] by linarith
  show "le_top cmp mx a a" using t(1) [of a a] by (auto simp: le_top_def)
  show "le_top cmp mx a b \<or> le_top cmp mx b a" using le [of a b] le [of b a] by (auto simp: le_top_def)
  show "le_top cmp mx a b \<Longrightarrow> le_top cmp mx b c \<Longrightarrow> le_top cmp mx a c"
    using t(2) [of a b c] t(2) [of c b a] le [of b a] le [of c b] le [of c a] by (auto simp: le_top_def split: if_splits)
qed

text \<open>The three tests of the code, in terms of the order.\<close>

lemma cmp_tests:
  assumes "cmp_ok cmp mx"
  shows "cmp a b \<noteq> 0 \<and> (cmp a b XOR mx) < 0 \<longleftrightarrow> \<not> le_top cmp mx b a"
    "(cmp a b XOR mx) > 0 \<longleftrightarrow> \<not> le_top cmp mx a b"
    "cmp a b = 0 \<or> (cmp a b XOR mx) > 0 \<longleftrightarrow> le_top cmp mx b a"
proof -
  have t: "cmp a b < 0 \<longleftrightarrow> 0 < cmp b a" "cmp b a < 0 \<longleftrightarrow> 0 < cmp a b"
    using assms unfolding cmp_ok_def total_cmp_def by blast+
  have nz: "cmp a b \<noteq> - 2" "mx = - 2" if "mx \<noteq> 0" using assms that by (auto simp: cmp_ok_def)
  have x: "cmp a b XOR mx < 0 \<longleftrightarrow> (if mx = 0 then cmp a b < 0 else 0 \<le> cmp a b)"
    "0 < (cmp a b XOR mx) \<longleftrightarrow> (if mx = 0 then 0 < cmp a b else cmp a b < 0)"
    using xor_minus2 [OF nz(2), of "cmp a b"] nz(1) by auto
  show "cmp a b \<noteq> 0 \<and> (cmp a b XOR mx) < 0 \<longleftrightarrow> \<not> le_top cmp mx b a"
    "(cmp a b XOR mx) > 0 \<longleftrightarrow> \<not> le_top cmp mx a b"
    "cmp a b = 0 \<or> (cmp a b XOR mx) > 0 \<longleftrightarrow> le_top cmp mx b a"
    unfolding x le_top_def using t by auto
qed

subsection \<open>A heap but for one cell\<close>

text \<open>
  \<open>hole le r n h\<close>: the cells \<open>1..n\<close> are a heap apart from the cell \<open>h\<close>, and the parent of
  \<open>h\<close> comes before the children of \<open>h\<close>.
\<close>

definition heap :: "(nat \<Rightarrow> nat \<Rightarrow> bool) \<Rightarrow> nat list \<Rightarrow> nat \<Rightarrow> bool" where
  "heap le r n \<longleftrightarrow> (\<forall>i. 2 \<le> i \<longrightarrow> i \<le> n \<longrightarrow> le (r ! (i div 2)) (r ! i))"

definition hole :: "(nat \<Rightarrow> nat \<Rightarrow> bool) \<Rightarrow> nat list \<Rightarrow> nat \<Rightarrow> nat \<Rightarrow> bool" where
  "hole le r n h \<longleftrightarrow>
     (\<forall>i. 2 \<le> i \<longrightarrow> i \<le> n \<longrightarrow> i \<noteq> h \<longrightarrow> i div 2 \<noteq> h \<longrightarrow> le (r ! (i div 2)) (r ! i)) \<and>
     (\<forall>i. i \<le> n \<longrightarrow> i div 2 = h \<longrightarrow> 2 \<le> h \<longrightarrow> le (r ! (h div 2)) (r ! i))"

lemma holeD:
  assumes "hole le r n h"
  shows "2 \<le> i \<Longrightarrow> i \<le> n \<Longrightarrow> i \<noteq> h \<Longrightarrow> i div 2 \<noteq> h \<Longrightarrow> le (r ! (i div 2)) (r ! i)"
    "i \<le> n \<Longrightarrow> i div 2 = h \<Longrightarrow> 2 \<le> h \<Longrightarrow> le (r ! (h div 2)) (r ! i)"
  using assms by (auto simp: hole_def)

lemma hole_fill:
  assumes h: "hole le r n h" "1 \<le> h" "h < length r"
    and up: "2 \<le> h \<longrightarrow> le (r ! (h div 2)) x" and down: "\<And>i. 2 \<le> i \<Longrightarrow> i \<le> n \<Longrightarrow> i div 2 = h \<Longrightarrow> le x (r ! i)"
  shows "heap le (r[h := x]) n"
  unfolding heap_def
proof (intro allI impI)
  fix i :: nat assume i: "2 \<le> i" "i \<le> n"
  then have "i div 2 \<noteq> i" by simp
  then show "le (r[h := x] ! (i div 2)) (r[h := x] ! i)"
    using holeD(1) [OF h(1) i] up down [OF i] i h(2,3) by (cases "i = h"; cases "i div 2 = h") auto
qed

lemma hole_down:
  assumes ord: "\<And>a b c. le a b \<Longrightarrow> le b c \<Longrightarrow> le a c" "\<And>a. le a a" and h: "hole le r n h" "1 \<le> h" "h < length r"
    and c: "c \<le> n" "c div 2 = h" "2 \<le> c" and small: "\<And>i. i \<le> n \<Longrightarrow> i div 2 = h \<Longrightarrow> 2 \<le> i \<Longrightarrow> le (r ! c) (r ! i)"
  shows "hole le (r[h := r ! c]) n c"
  unfolding hole_def
proof (intro conjI allI impI)
  fix i :: nat assume i: "2 \<le> i" "i \<le> n" "i \<noteq> c" "i div 2 \<noteq> c"
  then have "i div 2 \<noteq> i" by simp
  then show "le (r[h := r ! c] ! (i div 2)) (r[h := r ! c] ! i)"
    using holeD(1) [OF h(1) i(1,2)] holeD(2) [OF h(1) c(1,2)] small [of i] i h(2,3) c
    by (cases "i = h"; cases "i div 2 = h") auto
next
  fix i :: nat assume i: "i \<le> n" "i div 2 = c" "2 \<le> c"
  then have "i \<noteq> h" "c \<noteq> h" "2 \<le> i" using c by auto
  then have "le (r ! c) (r ! i)" using holeD(1) [OF h(1), of i] i c by auto
  then show "le (r[h := r ! c] ! (c div 2)) (r[h := r ! c] ! i)"
    using c(2) h(3) \<open>i \<noteq> h\<close> by simp
qed

lemma hole_up:
  assumes ord: "\<And>a b c. le a b \<Longrightarrow> le b c \<Longrightarrow> le a c" "\<And>a. le a a" and h: "hole le r n h" "2 \<le> h" "h < length r" "h \<le> n"
  shows "hole le (r[h := r ! (h div 2)]) n (h div 2)"
  unfolding hole_def
proof (intro conjI allI impI)
  let ?p = "h div 2"
  fix i :: nat assume i: "2 \<le> i" "i \<le> n" "i \<noteq> ?p" "i div 2 \<noteq> ?p"
  then have "i \<noteq> h" by auto
  then show "le (r[h := r ! ?p] ! (i div 2)) (r[h := r ! ?p] ! i)"
    using holeD(1) [OF h(1) i(1,2)] holeD(2) [OF h(1) i(2)] i h(2,3) by (cases "i div 2 = h") auto
next
  let ?p = "h div 2"
  fix i :: nat assume i: "i \<le> n" "i div 2 = ?p" "2 \<le> ?p"
  have p: "?p \<noteq> h" "?p div 2 \<noteq> h" "?p \<le> n" "2 \<le> i" using i h by auto
  then have pp: "le (r ! (?p div 2)) (r ! ?p)" using holeD(1) [OF h(1) i(3)] by simp
  have "i \<noteq> h \<Longrightarrow> le (r ! ?p) (r ! i)" using holeD(1) [OF h(1) p(4) i(1)] i(2) p(1) by simp
  then show "le (r[h := r ! ?p] ! (?p div 2)) (r[h := r ! ?p] ! i)"
    using pp ord p(2) h(3) by (cases "i = h") (auto dest: ord(1))
qed

text \<open>Moving a cell into the hole moves the value to be written with it.\<close>

lemma hole_swap:
  assumes "h < length r" "c < length r" "h \<noteq> c"
  shows "mset (r[h := r ! c, c := x]) = mset (r[h := x])" "c \<noteq> 0 \<Longrightarrow> h \<noteq> 0 \<Longrightarrow> r[h := r ! c, c := x] ! 0 = r ! 0"
proof -
  have "r[h := r ! c, c := x] = (r[h := x])[c := (r[h := x]) ! h, h := (r[h := x]) ! c]"
    using assms by (simp add: list_update_swap)
  then show "mset (r[h := r ! c, c := x]) = mset (r[h := x])"
    using assms mset_swap [of h "r[h := x]" c] by simp
  show "c \<noteq> 0 \<Longrightarrow> h \<noteq> 0 \<Longrightarrow> r[h := r ! c, c := x] ! 0 = r ! 0" by simp
qed

text \<open>What both loops keep: the length, the cells outside \<open>1..n\<close>, and the values with \<open>x\<close> in the hole.\<close>

definition same_bag :: "nat \<Rightarrow> nat list \<Rightarrow> nat list \<Rightarrow> bool" where
  "same_bag n r r' \<longleftrightarrow> length r' = length r \<and> r' ! 0 = r ! 0 \<and> drop (n + 1) r' = drop (n + 1) r \<and>
     mset (take (n + 1) r') = mset (take (n + 1) r)"

lemma same_bag_move:
  assumes "h \<le> n" "c \<le> n" "n < length r" "h \<noteq> c" "h \<noteq> 0" "c \<noteq> 0"
  shows "same_bag n (r[h := x]) (r[h := r ! c, c := x])"
  using assms hole_swap(1) [of h "take (n + 1) r" c x]
  by (simp add: same_bag_def take_update_swap)

lemma same_bag_trans: "same_bag n a b \<Longrightarrow> same_bag n b c \<Longrightarrow> same_bag n a c"
  by (simp add: same_bag_def)

lemma upheap_correct:
  assumes ok: "cmp_ok cmp mx"
  shows "hole (le_top cmp mx) r n h \<Longrightarrow> 1 \<le> h \<Longrightarrow> h \<le> n \<Longrightarrow> n < length r \<Longrightarrow> r ! 0 = x \<Longrightarrow>
    (\<And>i. 2 \<le> i \<Longrightarrow> i \<le> n \<Longrightarrow> i div 2 = h \<Longrightarrow> le_top cmp mx x (r ! i)) \<Longrightarrow>
    \<exists>r'. upheap_loop cmp mx x r h = Some r' \<and> heap (le_top cmp mx) r' n \<and> same_bag n (r[h := x]) r'"
proof (induction h arbitrary: r rule: less_induct)
  case (less h)
  let ?le = "le_top cmp mx" and ?p = "h div 2"
  note ord = le_top_order [OF ok]
  have c: "cell r ?p = Some (r ! ?p)" "h < length r" using less.prems by (simp_all add: cell_def)
  show ?case
  proof (cases "?le (r ! ?p) x")
    case True
    have "upheap_loop cmp mx x r h = Some (r[h := x])"
      using c True cmp_tests(1) [OF ok, of x "r ! ?p"]
      by (subst upheap_loop.simps) (auto simp: set_cell_def drop_bit_half_nat Let_def)
    moreover have "heap ?le (r[h := x]) n"
      by (rule hole_fill [OF less.prems(1,2) c(2)]) (use True less.prems in auto)
    ultimately show ?thesis by (auto simp: same_bag_def)
  next
    case False
    have h2: "2 \<le> h"
    proof (rule ccontr)
      assume "\<not> 2 \<le> h"
      then have "h = 1" using less.prems(2) by simp
      then show False using False less.prems(5) ord(1) by simp
    qed
    have xp: "?le x (r ! ?p)" using False ord(2) by blast
    let ?r = "r[h := r ! ?p]"
    have step: "upheap_loop cmp mx x r h = upheap_loop cmp mx x ?r ?p"
      using c False cmp_tests(1) [OF ok, of x "r ! ?p"]
      by (subst upheap_loop.simps) (auto simp: set_cell_def drop_bit_half_nat Let_def)
    have "\<exists>r'. upheap_loop cmp mx x ?r ?p = Some r' \<and> heap ?le r' n \<and> same_bag n (?r[?p := x]) r'"
    proof (rule less.IH)
      show "hole ?le ?r n ?p" by (rule hole_up [OF ord(3,1) less.prems(1) h2 c(2) less.prems(3)])
      fix i assume i: "2 \<le> i" "i \<le> n" "i div 2 = ?p"
      show "?le x (?r ! i)"
      proof (cases "i = h")
        case True
        then show ?thesis using xp c by simp
      next
        case False
        have "?p \<noteq> h" using h2 by simp
        then have "?le (r ! ?p) (r ! i)" using holeD(1) [OF less.prems(1) i(1,2) False] i(3) by simp
        with False xp ord(3) show ?thesis by auto
      qed
    qed (use less.prems h2 in auto)
    moreover have "same_bag n (r[h := x]) (?r[?p := x])"
      by (rule same_bag_move) (use less.prems h2 in auto)
    ultimately show ?thesis using step same_bag_trans by metis
  qed
qed

lemma downheap_correct:
  assumes ok: "cmp_ok cmp mx"
  shows "hole (le_top cmp mx) r n h \<Longrightarrow> 1 \<le> h \<Longrightarrow> h \<le> n \<Longrightarrow> n < length r \<Longrightarrow>
    (2 \<le> h \<longrightarrow> le_top cmp mx (r ! (h div 2)) x) \<Longrightarrow>
    \<exists>r'. downheap_loop cmp mx n x r h = Some r' \<and> heap (le_top cmp mx) r' n \<and> same_bag n (r[h := x]) r'"
proof (induction "n - h" arbitrary: r h rule: less_induct)
  case (less h r)
  let ?le = "le_top cmp mx"
  note ord = le_top_order [OF ok]
  have hl: "h < length r" using less.prems by simp
  show ?case
  proof (cases "h \<le> n div 2")
    case False
    have "downheap_loop cmp mx n x r h = Some (r[h := x])"
      using False hl by (subst downheap_loop.simps) (simp add: set_cell_def drop_bit_half_nat)
    moreover have "heap ?le (r[h := x]) n"
      by (rule hole_fill [OF less.prems(1,2) hl]) (use False less.prems in auto)
    ultimately show ?thesis by (auto simp: same_bag_def)
  next
    case True
    let ?c0 = "h + h"
    define c where "c = (if ?c0 < n \<and> \<not> ?le (r ! ?c0) (r ! (?c0 + 1)) then ?c0 + 1 else ?c0)"
    have c: "c \<le> n" "c div 2 = h" "2 \<le> c" "c < length r" "c \<noteq> h" "h < c"
      using True less.prems by (auto simp: c_def)
    have kids: "i = ?c0 \<or> i = ?c0 + 1" if "i div 2 = h" for i using that by auto
    have small: "?le (r ! c) (r ! i)" if "i \<le> n" "i div 2 = h" "2 \<le> i" for i
      using kids [OF that(2)] that(1) ord(1,2) unfolding c_def by auto
    have lk: "cell r ?c0 = Some (r ! ?c0)" "?c0 < n \<Longrightarrow> cell r (?c0 + 1) = Some (r ! (?c0 + 1))" "cell r c = Some (r ! c)"
      using True less.prems c by (auto simp: cell_def)
    have step: "downheap_loop cmp mx n x r h =
        (if ?le x (r ! c) then Some (r[h := x]) else downheap_loop cmp mx n x (r[h := r ! c]) c)"
      using True hl lk cmp_tests(2) [OF ok, of "r ! ?c0" "r ! (?c0 + 1)"] cmp_tests(3) [OF ok, of "r ! c" x]
      by (subst downheap_loop.simps) (auto simp: set_cell_def drop_bit_half_nat c_def Let_def)
    show ?thesis
    proof (cases "?le x (r ! c)")
      case le: True
      have "heap ?le (r[h := x]) n"
      proof (rule hole_fill [OF less.prems(1,2) hl less.prems(5)])
        fix i assume "2 \<le> i" "i \<le> n" "i div 2 = h"
        then show "?le x (r ! i)" using small [of i] le ord(3) by blast
      qed
      with step le show ?thesis by (auto simp: same_bag_def)
    next
      case False
      then have cx: "?le (r ! c) x" using ord(2) by blast
      let ?r = "r[h := r ! c]"
      have "\<exists>r'. downheap_loop cmp mx n x ?r c = Some r' \<and> heap ?le r' n \<and> same_bag n (?r[c := x]) r'"
      proof (rule less.hyps)
        show "hole ?le ?r n c"
          by (rule hole_down [OF ord(3,1) less.prems(1,2) hl c(1-3) small])
        show "2 \<le> c \<longrightarrow> ?le (?r ! (c div 2)) x" using cx c hl by simp
      qed (use c less.prems in auto)
      moreover have "same_bag n (r[h := x]) (?r[c := x])"
        by (rule same_bag_move) (use less.prems c in auto)
      ultimately show ?thesis using step False same_bag_trans by metis
    qed
  qed
qed

subsection \<open>The operations\<close>

definition queue_wf :: "'a QUEUE \<Rightarrow> bool" where
  "queue_wf q \<longleftrightarrow> cmp_ok (key_cmp q) (max_at_top q) \<and>
     (case root q of None \<Rightarrow> False
      | Some r \<Rightarrow> length r = max_elements q + 1 \<and> elements q \<le> max_elements q \<and>
          heap (le_top (key_cmp q) (max_at_top q)) r (elements q))"

definition queue_bag :: "'a QUEUE \<Rightarrow> nat multiset" where
  "queue_bag q = (case root q of None \<Rightarrow> {#} | Some r \<Rightarrow> mset (take (elements q) (drop 1 r)))"

abbreviation queue_le :: "'a QUEUE \<Rightarrow> nat \<Rightarrow> nat \<Rightarrow> bool" where
  "queue_le q \<equiv> le_top (key_cmp q) (max_at_top q)"

lemma key_cmp_fields [simp]:
  "key_cmp (q\<lparr>root := r\<rparr>) = key_cmp q" "key_cmp (q\<lparr>elements := n\<rparr>) = key_cmp q"
  by (simp_all add: key_cmp_def fun_eq_iff)

lemma same_bag_content:
  assumes "same_bag n r r'" "n < length r"
  shows "mset (take n (drop 1 r')) = mset (take n (drop 1 r))"
proof -
  have t: "take (n + 1) s = s ! 0 # take n (drop 1 s)" if "n < length s" for s :: "nat list"
    using that by (cases s) auto
  from assms t [of r] t [of r'] show ?thesis by (simp add: same_bag_def)
qed

lemma heap_top:
  assumes ok: "cmp_ok cmp mx" and h: "heap (le_top cmp mx) r n"
  shows "1 \<le> i \<Longrightarrow> i \<le> n \<Longrightarrow> le_top cmp mx (r ! 1) (r ! i)"
proof (induction i rule: less_induct)
  case (less i)
  show ?case
  proof (cases "i = 1")
    case True
    then show ?thesis using le_top_order(1) [OF ok] by simp
  next
    case False
    then have i: "2 \<le> i" "1 \<le> i div 2" "i div 2 < i" "i div 2 \<le> n" using less.prems by auto
    have "le_top cmp mx (r ! (i div 2)) (r ! i)" using h i less.prems by (auto simp: heap_def)
    with less.IH [OF i(3,2,4)] show ?thesis using le_top_order(3) [OF ok] by blast
  qed
qed

lemma queue_mem:
  assumes "root q = Some r" "elements q < length r"
  shows "x \<in># queue_bag q \<longleftrightarrow> (\<exists>i. 1 \<le> i \<and> i \<le> elements q \<and> r ! i = x)"
proof -
  have "x \<in># queue_bag q \<longleftrightarrow> (\<exists>j < elements q. r ! (1 + j) = x)"
    using assms by (auto simp: queue_bag_def in_set_conv_nth)
  also have "\<dots> \<longleftrightarrow> (\<exists>i. 1 \<le> i \<and> i \<le> elements q \<and> r ! i = x)"
    by (metis One_nat_def Suc_le_eq le_add1 less_eqE plus_1_eq_Suc add_le_cancel_left Suc_le_mono)
  finally show ?thesis .
qed

lemma queue_top_correct:
  assumes wf: "queue_wf q" and n: "elements q \<noteq> 0"
  shows "\<exists>x. queue_top q = Some x \<and> x \<in># queue_bag q \<and> (\<forall>y \<in># queue_bag q. queue_le q x y)"
proof -
  obtain r where r: "root q = Some r" "length r = max_elements q + 1" "elements q \<le> max_elements q"
    "heap (queue_le q) r (elements q)" "cmp_ok (key_cmp q) (max_at_top q)"
    using wf by (auto simp: queue_wf_def split: option.splits)
  have l: "elements q < length r" using r by simp
  have "queue_top q = Some (r ! 1)" using r n by (simp add: queue_top_def cell_def)
  then show ?thesis
    using heap_top [OF r(5,4)] n
    by (intro exI [of _ "r ! 1"]) (auto simp: queue_mem [OF r(1) l] intro!: exI [of _ 1])
qed

lemma init_queue_correct:
  assumes "\<And>n r. alloc n = Some r \<Longrightarrow> length r = n" "total_cmp cmp'"
    "cmp' = (\<lambda>a b. cmp arg (a + offset) (b + offset))" "mx \<longrightarrow> (\<forall>a b. cmp' a b \<noteq> - 2)"
    "init_queue alloc q n offset mx cmp arg = (q', err)"
  shows "err = 0 \<Longrightarrow> queue_wf q' \<and> queue_bag q' = {#} \<and> elements q' = 0 \<and> max_elements q' = n"
    "err \<noteq> 0 \<longleftrightarrow> alloc (n + 1) = None"
proof -
  have k: "key_cmp q' = cmp'" if "alloc (n + 1) = Some r" for r
    using assms(3,5) that by (auto simp: init_queue_def key_cmp_def fun_eq_iff)
  show "err \<noteq> 0 \<longleftrightarrow> alloc (n + 1) = None" using assms(5) by (auto simp: init_queue_def split: option.splits)
  assume "err = 0"
  then obtain r where r: "alloc (n + 1) = Some r" using assms(5) by (auto simp: init_queue_def split: option.splits)
  have ok: "cmp_ok cmp' (max_at_top q')" using r assms(2,4,5) by (auto simp: init_queue_def cmp_ok_def split: if_splits)
  show "queue_wf q' \<and> queue_bag q' = {#} \<and> elements q' = 0 \<and> max_elements q' = n"
    using r ok assms(1) [OF r] assms(5) k [OF r]
    by (auto simp: init_queue_def queue_wf_def queue_bag_def heap_def)
qed

lemma queue_insert_correct:
  assumes wf: "queue_wf q" and n: "elements q < max_elements q"
  shows "\<exists>q'. queue_insert dbug q x = Some q' \<and> queue_wf q' \<and> queue_bag q' = add_mset x (queue_bag q) \<and>
     elements q' = elements q + 1 \<and> max_elements q' = max_elements q \<and> queue_le q' = queue_le q"
proof -
  obtain r where r: "root q = Some r" "length r = max_elements q + 1" "elements q \<le> max_elements q"
    "heap (queue_le q) r (elements q)" "cmp_ok (key_cmp q) (max_at_top q)"
    using wf by (auto simp: queue_wf_def split: option.splits)
  let ?n = "elements q + 1" and ?r = "r[0 := x]"
  have "hole (queue_le q) ?r ?n ?n"
    unfolding hole_def
  proof (intro conjI allI impI)
    fix i assume i: "2 \<le> i" "i \<le> ?n" "i \<noteq> ?n"
    then have "0 < i div 2" by auto
    then show "queue_le q (?r ! (i div 2)) (?r ! i)" using r(4) i by (auto simp: heap_def)
  qed auto
  moreover have "queue_le q x (?r ! i)" if "2 \<le> i" "i \<le> ?n" "i div 2 = ?n" for i
    using that by linarith
  ultimately obtain r' where r': "upheap_loop (key_cmp q) (max_at_top q) x ?r ?n = Some r'"
    "heap (queue_le q) r' ?n" "same_bag ?n (?r[?n := x]) r'"
    using upheap_correct [OF r(5), of ?r ?n ?n x] n r(2) by (metis (no_types, lifting) One_nat_def Suc_eq_plus1 le_add2 length_list_update not_less_eq nth_list_update_eq order_refl zero_less_Suc add_less_cancel_right)
  have run: "queue_insert dbug q x = Some (q\<lparr>elements := ?n, root := Some r'\<rparr>)"
    using r(1,2) n r'(1) by (cases r) (simp_all add: queue_insert_def set_cell_def Let_def)
  have "mset (take ?n (drop 1 r')) = mset (take ?n (drop 1 (?r[?n := x])))"
    by (rule same_bag_content [OF r'(3)]) (use n r(2) in simp)
  also have "take ?n (drop 1 (?r[?n := x])) = take (elements q) (drop 1 r) @ [x]"
    using n r(2) by (cases r) (simp_all add: take_Suc_conv_app_nth)
  finally have "queue_bag (q\<lparr>elements := ?n, root := Some r'\<rparr>) = add_mset x (queue_bag q)"
    by (simp add: queue_bag_def r(1))
  moreover have "length r' = length r" using r'(3) by (simp add: same_bag_def)
  ultimately show ?thesis
    using run r r'(2) n by (intro exI [of _ "q\<lparr>elements := ?n, root := Some r'\<rparr>"]) (simp add: queue_wf_def)
qed

text \<open>A new value in the first cell sinks to its place.\<close>

lemma downheap_top:
  assumes r: "root q = Some r" "elements q < length r" "cmp_ok (key_cmp q) (max_at_top q)"
    and h: "\<And>i. 4 \<le> i \<Longrightarrow> i \<le> elements q \<Longrightarrow> queue_le q (r ! (i div 2)) (r ! i)"
    and l: "1 < length r"
  shows "\<exists>r'. downheap q 1 = Some (q\<lparr>root := Some r'\<rparr>) \<and> heap (queue_le q) r' (elements q) \<and>
     same_bag (elements q) r r'"
proof (cases "elements q = 0")
  case True
  have "downheap_loop (key_cmp q) (max_at_top q) 0 (r ! 1) r 1 = Some r"
    using l by (subst downheap_loop.simps) (simp add: set_cell_def)
  then have "downheap q 1 = Some (q\<lparr>root := Some r\<rparr>)" using r l True by (simp add: downheap_def cell_def)
  with True show ?thesis by (intro exI [of _ r]) (simp add: heap_def same_bag_def)
next
  case False
  have hole: "hole (queue_le q) r (elements q) 1"
    unfolding hole_def
  proof (intro conjI allI impI)
    fix i :: nat assume "2 \<le> i" "i \<le> elements q" "i \<noteq> 1" "i div 2 \<noteq> 1"
    moreover from this have "4 \<le> i" by linarith
    ultimately show "queue_le q (r ! (i div 2)) (r ! i)" using h by blast
  qed auto
  obtain r' where r': "downheap_loop (key_cmp q) (max_at_top q) (elements q) (r ! 1) r 1 = Some r'"
    "heap (queue_le q) r' (elements q)" "same_bag (elements q) (r[1 := r ! 1]) r'"
    using downheap_correct [OF r(3) hole, of "r ! 1"] r(2) False by auto
  have "downheap q 1 = Some (q\<lparr>root := Some r'\<rparr>)"
    unfolding downheap_def r(1) using l r'(1) by (simp add: cell_def)
  moreover have "same_bag (elements q) r r'" using r'(3) by (simp only: list_update_id)
  ultimately show ?thesis using r'(2) by blast
qed

lemma queue_remove_correct:
  assumes wf: "queue_wf q" and n: "elements q \<noteq> 0"
  shows "\<exists>q' x. queue_remove dbug q 0 = Some (q', Some x) \<and> queue_top q = Some x \<and> queue_wf q' \<and>
     queue_bag q = add_mset x (queue_bag q') \<and> elements q = elements q' + 1 \<and>
     max_elements q' = max_elements q \<and> queue_le q' = queue_le q"
proof -
  obtain r where r: "root q = Some r" "length r = max_elements q + 1" "elements q \<le> max_elements q"
    "heap (queue_le q) r (elements q)" "cmp_ok (key_cmp q) (max_at_top q)"
    using wf by (auto simp: queue_wf_def split: option.splits)
  obtain k where k: "elements q = k + 1" using n by (cases "elements q") auto
  let ?r = "r[1 := r ! (k + 1)]" and ?q = "q\<lparr>root := Some (r[1 := r ! (k + 1)]), elements := k\<rparr>"
  obtain r' where r': "downheap ?q 1 = Some (?q\<lparr>root := Some r'\<rparr>)" "heap (queue_le q) r' k" "same_bag k ?r r'"
  proof -
    have "\<exists>r'. downheap ?q 1 = Some (?q\<lparr>root := Some r'\<rparr>) \<and> heap (queue_le ?q) r' (elements ?q) \<and> same_bag (elements ?q) ?r r'"
    proof (rule downheap_top)
      fix i assume "4 \<le> i" "i \<le> elements ?q"
      moreover from this have "i div 2 \<noteq> 1" by auto
      ultimately show "queue_le ?q (?r ! (i div 2)) (?r ! i)" using r(4) k by (auto simp: heap_def)
    qed (use r k in auto)
    then show thesis using that by auto
  qed
  let ?q' = "?q\<lparr>root := Some r'\<rparr>"
  have run: "queue_remove dbug q 0 = Some (?q', Some (r ! 1))"
    using r k r'(1) by (simp add: queue_remove_def cell_def set_cell_def)
  have "queue_bag q = add_mset (r ! 1) (queue_bag ?q')"
  proof -
    have "queue_bag ?q' = mset (take k (drop 1 ?r))"
      using same_bag_content [OF r'(3)] r(2,3) k by (simp add: queue_bag_def)
    moreover have "mset (take (k + 1) (drop 1 r)) = add_mset (r ! 1) (mset (take k (drop 1 ?r)))"
    proof (cases k)
      case 0
      then show ?thesis using r k by (cases r) (auto simp: take_Suc_conv_app_nth)
    next
      case (Suc j)
      then obtain a b t where t: "r = a # b # t" "j < length t"
        using r(2,3) k by (cases r; cases "tl r") auto
      then show ?thesis using Suc by (simp add: take_Suc_conv_app_nth)
    qed
    ultimately show ?thesis by (simp add: queue_bag_def r(1) k)
  qed
  moreover have "length r' = length r" using r'(3) by (simp add: same_bag_def)
  moreover have "queue_top q = Some (r ! 1)" using r k by (simp add: queue_top_def cell_def)
  ultimately show ?thesis
    using run r k r'(2) by (intro exI [of _ ?q'] exI [of _ "r ! 1"]) (simp add: queue_wf_def)
qed

lemma queue_replaced_correct:
  assumes wf: "queue_wf q" and n: "elements q \<noteq> 0" and top: "root q = Some r"
  shows "\<exists>q'. queue_replaced (q\<lparr>root := Some (r[1 := y])\<rparr>) = Some q' \<and> queue_wf q' \<and>
     queue_bag q' = queue_bag q - {#r ! 1#} + {#y#} \<and> elements q' = elements q"
proof -
  have r: "length r = max_elements q + 1" "elements q \<le> max_elements q"
    "heap (queue_le q) r (elements q)" "cmp_ok (key_cmp q) (max_at_top q)"
    using wf top by (auto simp: queue_wf_def)
  let ?q = "q\<lparr>root := Some (r[1 := y])\<rparr>"
  have "\<exists>r'. downheap ?q 1 = Some (?q\<lparr>root := Some r'\<rparr>) \<and> heap (queue_le ?q) r' (elements ?q) \<and>
      same_bag (elements ?q) (r[1 := y]) r'"
  proof (rule downheap_top)
    fix i assume i: "4 \<le> i" "i \<le> elements ?q"
    then have "i div 2 \<noteq> 1" "i \<noteq> 1" by auto
    then show "queue_le ?q (r[1 := y] ! (i div 2)) (r[1 := y] ! i)" using r(3) i by (auto simp: heap_def)
  qed (use r n in auto)
  then obtain r' where r': "downheap ?q 1 = Some (?q\<lparr>root := Some r'\<rparr>)" "heap (queue_le q) r' (elements q)"
    "same_bag (elements q) (r[1 := y]) r'" by auto
  have "queue_bag (?q\<lparr>root := Some r'\<rparr>) = mset (take (elements q) (drop 1 (r[1 := y])))"
    using same_bag_content [OF r'(3)] r(1,2) by (simp add: queue_bag_def)
  also have "\<dots> = queue_bag q - {#r ! 1#} + {#y#}"
  proof -
    obtain k where k: "elements q = Suc k" using n by (cases "elements q") auto
    then obtain a b t where "r = a # b # t" using r(1,2) by (cases r; cases "tl r") auto
    with k show ?thesis by (simp add: queue_bag_def top)
  qed
  finally show ?thesis
    using r' r by (intro exI [of _ "?q\<lparr>root := Some r'\<rparr>"]) (simp add: queue_replaced_def queue_wf_def same_bag_def)
qed

subsection \<open>Sorting a queue\<close>

lemma sorted_heap:
  assumes "length r = n + 1" "sorted_wrt le (drop 1 r)" "\<And>a. le a a"
  shows "heap le (r @ s) n"
  unfolding heap_def
proof (intro allI impI)
  fix i :: nat assume i: "2 \<le> i" "i \<le> n"
  then have b: "i div 2 - 1 < i - 1" "i - 1 < length (drop 1 r)" "i div 2 < length r" "i < length r" using assms(1) by auto
  then have "le (drop 1 r ! (i div 2 - 1)) (drop 1 r ! (i - 1))" using sorted_wrt_nth_less [OF assms(2)] b by blast
  then show "le ((r @ s) ! (i div 2)) ((r @ s) ! i)" using i b by (simp add: nth_append)
qed

lemma queue_fix_correct:
  assumes t: "total_cmp (key_cmp q)" and r: "root q = Some r" "length r = max_elements q + 1" "elements q \<le> max_elements q"
    and mem: "elements q < 2 ^ 28"
  shows "\<exists>q' xs. queue_fix q = Some q' \<and> queue_bag q' = queue_bag q \<and> root q' = Some (take 1 r @ xs @ drop (elements q + 1) r) \<and>
    length xs = elements q \<and> sorted_wrt (\<lambda>a b. key_cmp q a b \<le> 0) xs \<and> (max_at_top q = 0 \<longrightarrow> queue_wf q')"
proof -
  let ?xs = "take (elements q) (drop 1 r)"
  have c: "queue_fix_cmp q = key_cmp q" by (simp add: fun_eq_iff queue_fix_cmp_def key_cmp_def)
  have l: "length ?xs = elements q" using r by simp
  have "int (length ?xs) * int 8 < 2 ^ 31" using mem r by simp
  then obtain xs where xs: "qsort2 (key_cmp q) 8 ?xs = Some xs" "mset xs = mset ?xs" "sorted_wrt (\<lambda>a b. key_cmp q a b \<le> 0) xs"
    using qsort2_correct [OF t, of 8 ?xs] by auto
  have lx: "length xs = elements q" using mset_eq_length [OF xs(2)] l by simp
  let ?q = "q\<lparr>root := Some (take 1 r @ xs @ drop (elements q + 1) r)\<rparr>"
  have f: "queue_fix q = Some ?q" using xs(1) r c by (simp add: queue_fix_def)
  have one: "length (take 1 r) = 1" using r by simp
  have bag: "queue_bag ?q = queue_bag q" using xs(2) lx r one by (simp add: queue_bag_def)
  have "queue_wf ?q" if mx: "max_at_top q = 0"
  proof -
    have le: "le_top (key_cmp q) (max_at_top q) = (\<lambda>a b. key_cmp q a b \<le> 0)" by (simp add: fun_eq_iff le_top_def mx)
    have "heap (\<lambda>a b. key_cmp q a b \<le> 0) ((take 1 r @ xs) @ drop (elements q + 1) r) (elements q)"
      by (rule sorted_heap) (use one lx xs(3) total_cmpD(5) [OF t] in auto)
    then show ?thesis using t mx r lx one unfolding queue_wf_def cmp_ok_def by (simp add: le [unfolded mx])
  qed
  with f bag lx xs(3) show ?thesis by (intro exI [of _ ?q] exI [of _ xs]) simp
qed

subsection \<open>The contract\<close>

definition queue_ins :: "'a QUEUE \<Rightarrow> nat \<Rightarrow> 'a QUEUE option" where
  "queue_ins q x = queue_insert False q x"

definition queue_pop :: "'a QUEUE \<Rightarrow> ('a QUEUE \<times> nat) option" where
  "queue_pop q = do { (q, x) \<leftarrow> queue_remove False q 0; x \<leftarrow> x; Some (q, x) }"

interpretation prio: priority_queue
  "\<lambda>q. queue_wf q \<and> max_elements q = n \<and> queue_le q = le" queue_bag queue_ins queue_pop le n
  for n le
proof
  fix q :: "'a QUEUE" and x
  assume q: "queue_wf q \<and> max_elements q = n \<and> queue_le q = le"
  then have ok: "cmp_ok (key_cmp q) (max_at_top q)" by (simp add: queue_wf_def)
  obtain r where r: "root q = Some r" "length r = max_elements q + 1" "elements q \<le> max_elements q"
    using q by (auto simp: queue_wf_def split: option.splits)
  then have sz: "size (queue_bag q) = elements q" by (simp add: queue_bag_def)
  show "size (queue_bag q) < n \<Longrightarrow> \<exists>q'. queue_ins q x = Some q' \<and>
      (queue_wf q' \<and> max_elements q' = n \<and> queue_le q' = le) \<and> queue_bag q' = add_mset x (queue_bag q)"
    using queue_insert_correct [of q False x] q sz by (auto simp: queue_ins_def)
  show "\<exists>q' x. queue_pop q = Some (q', x) \<and> (queue_wf q' \<and> max_elements q' = n \<and> queue_le q' = le) \<and>
      queue_bag q = add_mset x (queue_bag q') \<and> (\<forall>y \<in># queue_bag q. le x y)" if ne: "queue_bag q \<noteq> {#}"
  proof -
    have "elements q \<noteq> 0" using ne sz by (metis size_eq_0_iff_empty)
    then show ?thesis
      using queue_remove_correct [of q False] queue_top_correct [of q] q by (auto simp: queue_pop_def)
  qed
  show "le a b \<or> le b a" for a b using le_top_order(2) [OF ok] q by auto
qed

subsection \<open>Two uses the code does not cover\<close>

text \<open>A comparison that returns -2 with \<open>max_at_top\<close>: the smaller value stays on top.\<close>

definition diff_cmp :: "unit \<Rightarrow> nat \<Rightarrow> nat \<Rightarrow> int" where
  "diff_cmp _ a b = int a - int b"

lemma diff_cmp_total: "total_cmp (\<lambda>a b. diff_cmp () (a + k) (b + k))"
  by (auto simp: total_cmp_def diff_cmp_def)

definition ex_queue :: "bool \<Rightarrow> unit QUEUE" where
  "ex_queue mx = fst (init_queue (\<lambda>n. Some (replicate n 0))
     \<lparr>root = None, first_cmp_arg = (), elements = 0, max_elements = 0, offset_to_key = 0, max_at_top = 0, compare = diff_cmp\<rparr>
     8 0 mx diff_cmp ())"

definition queue_of :: "bool \<Rightarrow> nat list \<Rightarrow> unit QUEUE option" where
  "queue_of mx xs = fold (\<lambda>x q. Option.bind q (\<lambda>q. queue_insert False q x)) xs (Some (ex_queue mx))"

lemma queue_top_minus2:
  "Option.bind (queue_of True [10, 6, 8]) (pq_drain queue_pop 3) \<bind> (\<lambda>(q, xs). Some xs) = Some [10, 6, 8]"
  by code_simp

lemma queue_remove_interior:
  "Option.bind (queue_of False [1, 10, 2, 11, 12, 3, 4]) (\<lambda>q. queue_remove False q 3) \<bind>
     (\<lambda>(q, x). root q) = Some [4, 1, 10, 2, 4, 12, 3, 4, 0]"
  by code_simp

lemma ex_queue_wf: "queue_wf (ex_queue False)" "queue_bag (ex_queue False) = {#}" "elements (ex_queue False) = 0"
  "max_elements (ex_queue False) = 8"
proof -
  note c = init_queue_correct [of "\<lambda>n. Some (replicate n 0)" "\<lambda>a b. diff_cmp () (a + 0) (b + 0)" diff_cmp "()" 0 False _ 8 "ex_queue False" 0,
      OF _ diff_cmp_total refl]
  show "queue_wf (ex_queue False)" "queue_bag (ex_queue False) = {#}" "elements (ex_queue False) = 0"
    "max_elements (ex_queue False) = 8"
    using c [of "\<lparr>root = None, first_cmp_arg = (), elements = 0, max_elements = 0, offset_to_key = 0, max_at_top = 0, compare = diff_cmp\<rparr>"]
    by (auto simp: ex_queue_def init_queue_def)
qed

end
