(* ===== verification/RbTree.thy ===== *)
theory RbTree
  imports Prelude
begin

text \<open>
  The red-black trees of mysys/tree.c. A tree is a value; the array \<open>parents\<close> of the code,
  which holds the addresses of the links from the root down to the current element, is the
  list of the frames passed on the way, the last one first, so that \<open>*parent\<close> is the link
  the first frame leads to and \<open>parent[-1][0]\<close> the element of that frame. \<open>null_element\<close> is
  \<open>Null\<close>; its colour is black, and reading its links, or using more than the 40 cells of
  \<open>parents\<close>, has no result. The key a tree stores (in the element or through a pointer) is a
  value of type \<open>'k\<close>.

  Each loop of the code has two mirrored branches. The functions here take the side as an
  argument: \<open>child s\<close> is the link on side \<open>s\<close>, and \<open>rotate s\<close> is \<open>left_rotate\<close> for the left
  side and \<open>right_rotate\<close> for the right one.
\<close>

subsection \<open>Elements, trees and frames\<close>

datatype rb_colour = RED | BLACK

datatype side = L | R

text \<open>\<open>count\<close> is a field of 31 bits.\<close>

record 'k elem =
  ekey :: 'k
  ecount :: "31 word"
  ecolour :: rb_colour

datatype 'k tree = Null | Element "'k tree" "'k elem" "'k tree"

fun colour :: "'k tree \<Rightarrow> rb_colour" where
  "colour Null = BLACK"
| "colour (Element _ e _) = ecolour e"

fun set_colour :: "rb_colour \<Rightarrow> 'k tree \<Rightarrow> 'k tree" where
  "set_colour c Null = Null"
| "set_colour c (Element l e r) = Element l (e\<lparr>ecolour := c\<rparr>) r"

record 'k frame =
  fside :: side
  felem :: "'k elem"
  fother :: "'k tree"

fun node :: "side \<Rightarrow> 'k tree \<Rightarrow> 'k elem \<Rightarrow> 'k tree \<Rightarrow> 'k tree" where
  "node L a e b = Element a e b"
| "node R a e b = Element b e a"

fun opposite :: "side \<Rightarrow> side" where
  "opposite L = R"
| "opposite R = L"

fun child :: "side \<Rightarrow> 'k tree \<Rightarrow> 'k tree option" where
  "child s Null = None"
| "child L (Element l e r) = Some l"
| "child R (Element l e r) = Some r"

definition plug :: "'k frame \<Rightarrow> 'k tree \<Rightarrow> 'k tree" where
  "plug f t = node (fside f) t (felem f) (fother f)"

primrec zip_up :: "'k frame list \<Rightarrow> 'k tree \<Rightarrow> 'k tree" where
  "zip_up [] t = t"
| "zip_up (f # fs) t = zip_up fs (plug f t)"

definition fcolour :: "'k frame \<Rightarrow> rb_colour" where
  "fcolour f = ecolour (felem f)"

definition paint :: "rb_colour \<Rightarrow> 'k frame \<Rightarrow> 'k frame" where
  "paint c f = f\<lparr>felem := (felem f)\<lparr>ecolour := c\<rparr>\<rparr>"

definition max_tree_hight :: nat where
  "max_tree_hight = 40"

subsection \<open>Rotations\<close>

fun left_rotate :: "'k tree \<Rightarrow> 'k tree option" where
  "left_rotate (Element a x (Element b y c)) = Some (Element (Element a x b) y c)"
| "left_rotate _ = None"

fun right_rotate :: "'k tree \<Rightarrow> 'k tree option" where
  "right_rotate (Element (Element a x b) y c) = Some (Element a x (Element b y c))"
| "right_rotate _ = None"

fun rotate :: "side \<Rightarrow> 'k tree \<Rightarrow> 'k tree option" where
  "rotate L t = left_rotate t"
| "rotate R t = right_rotate t"

subsection \<open>Rebalancing after an insert\<close>

text \<open>\<open>leaf\<close> is red when the loop starts; an outermost red frame would be a red root.\<close>

fun rb_insert :: "'k frame list \<Rightarrow> 'k tree \<Rightarrow> 'k tree option" where
  "rb_insert [] leaf = Some (set_colour BLACK leaf)"
| "rb_insert (par # path) leaf =
     (if fcolour par = BLACK then Some (set_colour BLACK (zip_up (par # path) leaf))
      else (case path of
          [] \<Rightarrow> None
        | par2 # rest \<Rightarrow>
            let s = fside par2; y = fother par2
            in if colour y = RED then
                 rb_insert rest (plug (paint RED (par2\<lparr>fother := set_colour BLACK y\<rparr>)) (plug (paint BLACK par) leaf))
               else do {
                 t \<leftarrow> (if fside par = opposite s then rotate s (plug par leaf) else Some (plug par leaf));
                 t \<leftarrow> rotate (opposite s) (plug (paint RED par2) (set_colour BLACK t));
                 Some (set_colour BLACK (zip_up rest t))
               }))"

subsection \<open>Rebalancing after a delete\<close>

text \<open>
  One turn of the loop, for an \<open>x\<close> that is black and not the root: go on with another
  \<open>x\<close> (Inl), or the whole tree when the loop is left (Inr). First a red sibling \<open>w\<close> is
  rotated above the parent, then there is a black one.
\<close>

definition fixup_red :: "'k frame \<Rightarrow> 'k frame list \<Rightarrow> ('k frame \<times> 'k frame list) option" where
  "fixup_red par path =
     (let s = fside par; w = fother par
      in if colour w = RED then
           (if max_tree_hight \<le> length path + 2 then None else case w of
              Null \<Rightarrow> None
            | Element l e r \<Rightarrow> do {
                near \<leftarrow> child s w;
                far \<leftarrow> child (opposite s) w;
                Some (paint RED (par\<lparr>fother := near\<rparr>),
                      \<lparr>fside = s, felem = e\<lparr>ecolour := BLACK\<rparr>, fother = far\<rparr> # path) })
         else Some (par, path))"

definition fixup_black ::
  "'k frame \<Rightarrow> 'k frame list \<Rightarrow> 'k tree \<Rightarrow> ('k frame list \<times> 'k tree + 'k tree) option" where
  "fixup_black par path x =
     (let s = fside par; w = fother par
      in do {
        near \<leftarrow> child s w;
        far \<leftarrow> child (opposite s) w;
        if colour near = BLACK \<and> colour far = BLACK then
          Some (Inl (path, plug (par\<lparr>fother := set_colour RED w\<rparr>) x))
        else do {
          w \<leftarrow> (if colour far = BLACK then
                  rotate (opposite s) (case w of Null \<Rightarrow> Null
                    | Element l e r \<Rightarrow> node s (set_colour BLACK near) (e\<lparr>ecolour := RED\<rparr>) far)
                else Some w);
          near \<leftarrow> child s w;
          far \<leftarrow> child (opposite s) w;
          w \<leftarrow> (case w of Null \<Rightarrow> None
                | Element l e r \<Rightarrow> Some (node s near (e\<lparr>ecolour := fcolour par\<rparr>) (set_colour BLACK far)));
          t \<leftarrow> rotate s (plug (paint BLACK (par\<lparr>fother := w\<rparr>)) x);
          Some (Inr (zip_up path t))
        }
      })"

definition fixup_step ::
  "'k frame \<Rightarrow> 'k frame list \<Rightarrow> 'k tree \<Rightarrow> ('k frame list \<times> 'k tree + 'k tree) option" where
  "fixup_step par path x = do { (par, path) \<leftarrow> fixup_red par path; fixup_black par path x }"

lemma fixup_black_Inl:
  "fixup_black par path x = Some (Inl (path', x')) \<Longrightarrow> path' = path \<and> colour x' = fcolour par"
  by (cases "fside par") (auto simp: fixup_black_def Let_def plug_def fcolour_def split: if_splits option.splits bind_splits)

lemma fixup_red_shape:
  "fixup_red par path = Some (par', path') \<Longrightarrow>
    par' = par \<and> path' = path \<or> fcolour par' = RED"
  by (auto simp: fixup_red_def Let_def paint_def fcolour_def split: if_splits option.splits bind_splits tree.splits)

lemma fixup_step_measure:
  assumes "fixup_step par path x = Some (Inl (path', x'))"
  shows "colour x' = RED \<or> length path' < Suc (length path)"
proof -
  obtain p q where pq: "fixup_red par path = Some (p, q)" "fixup_black p q x = Some (Inl (path', x'))"
    using assms by (auto simp: fixup_step_def split: bind_splits)
  show ?thesis using fixup_red_shape [OF pq(1)] fixup_black_Inl [OF pq(2)] by auto
qed

function rb_delete_fixup :: "'k frame list \<Rightarrow> 'k tree \<Rightarrow> 'k tree option" where
  "rb_delete_fixup path x =
     (case path of
        [] \<Rightarrow> Some (set_colour BLACK x)
      | par # rest \<Rightarrow>
          if colour x = RED then Some (zip_up path (set_colour BLACK x))
          else (case fixup_step par rest x of
                  None \<Rightarrow> None
                | Some (Inl (path', x')) \<Rightarrow> rb_delete_fixup path' x'
                | Some (Inr t) \<Rightarrow> Some (set_colour BLACK t)))"
  by pat_completeness auto

termination
proof (relation "measure (\<lambda>(path, x). if colour x = RED then 0 else Suc (length path))")
  fix path :: "'a frame list" and x par rest y z path' x'
  assume "path = par # rest" "colour x \<noteq> RED" "fixup_step par rest x = Some y" "y = Inl z" "(path', x') = z"
  then show "((path', x'), path, x) \<in> measure (\<lambda>(path, x). if colour x = RED then 0 else Suc (length path))"
    using fixup_step_measure [of par rest x path' x'] by auto
qed simp

declare rb_delete_fixup.simps [simp del]

subsection \<open>The structure of a tree\<close>

definition tree_element_size :: nat where
  "tree_element_size = 24"

definition pointer_size :: nat where
  "pointer_size = 8"

definition default_alloc_size :: nat where
  "default_alloc_size = 8192 - 8"

record ('k, 'a) TREE =
  troot :: "'k tree"
  offset_to_key :: nat
  elements_in_tree :: nat
  size_of_element :: nat
  memory_limit :: nat
  allocated :: nat
  compare :: "'a \<Rightarrow> 'k \<Rightarrow> 'k \<Rightarrow> int"
  custom_arg :: 'a
  mem_root_block :: nat
  mem_root_min :: nat
  with_delete :: bool
  has_free :: bool

text \<open>What the callback \<open>free\<close> is called with.\<close>

datatype 'k free_call = Free_init | Free_free 'k | Free_end

definition init_tree ::
  "nat \<Rightarrow> nat \<Rightarrow> int \<Rightarrow> ('a \<Rightarrow> 'k \<Rightarrow> 'k \<Rightarrow> int) \<Rightarrow> bool \<Rightarrow> bool \<Rightarrow> 'a \<Rightarrow> ('k, 'a) TREE \<Rightarrow> ('k, 'a) TREE" where
  "init_tree alloc_size limit sz cmp wdel free_element arg t =
     (let alloc_size = (if alloc_size = 0 then default_alloc_size else alloc_size);
        t = t\<lparr>troot := Null, compare := cmp, size_of_element := (if 0 < sz then nat sz else 0),
              memory_limit := limit, has_free := free_element, allocated := 0, elements_in_tree := 0,
              custom_arg := arg\<rparr>;
        inline = (\<not> free_element \<and> 0 \<le> sz \<and> (nat sz \<le> pointer_size \<or> nat sz AND (pointer_size - 1) \<noteq> 0));
        esz = tree_element_size + nat sz;
        alloc_size = (if inline then
            (let n = alloc_size div esz in (if n = 0 then 1 else n) * esz) else alloc_size);
        t = (if inline then t\<lparr>offset_to_key := tree_element_size\<rparr>
             else t\<lparr>offset_to_key := 0, size_of_element := size_of_element t + pointer_size\<rparr>);
        t = t\<lparr>with_delete := wdel\<rparr>
      in if wdel then t
         else t\<lparr>mem_root_block := alloc_size, mem_root_min := tree_element_size + size_of_element t\<rparr>)"

primrec delete_tree_element :: "bool \<Rightarrow> 'k tree \<Rightarrow> 'k free_call list" where
  "delete_tree_element fr Null = []"
| "delete_tree_element fr (Element l e r) =
     delete_tree_element fr l @ (if fr then [Free_free (ekey e)] else []) @ delete_tree_element fr r"

definition free_tree :: "('k, 'a) TREE \<Rightarrow> ('k, 'a) TREE \<times> 'k free_call list" where
  "free_tree t =
     (let calls =
        (if with_delete t then delete_tree_element (has_free t) (troot t)
         else if has_free t then
           (if memory_limit t \<noteq> 0 then [Free_init] else []) @ delete_tree_element (has_free t) (troot t) @
           (if memory_limit t \<noteq> 0 then [Free_end] else [])
         else [])
      in (t\<lparr>troot := Null, elements_in_tree := 0, allocated := 0\<rparr>, calls))"

definition delete_tree :: "('k, 'a) TREE \<Rightarrow> ('k, 'a) TREE \<times> 'k free_call list" where
  "delete_tree t = free_tree t"

definition reset_tree :: "('k, 'a) TREE \<Rightarrow> ('k, 'a) TREE \<times> 'k free_call list" where
  "reset_tree t = free_tree t"

subsection \<open>Insert\<close>

text \<open>
  The walk down to the element that compares equal, or to the link where it would be.
  \<open>parents\<close> has room for the link to the root and \<open>max_tree_hight - 1\<close> more.
\<close>

primrec descend ::
  "('k \<Rightarrow> 'k \<Rightarrow> int) \<Rightarrow> 'k \<Rightarrow> 'k tree \<Rightarrow> 'k frame list \<Rightarrow> ('k frame list \<times> 'k tree) option" where
  "descend cmp key Null path = Some (path, Null)"
| "descend cmp key (Element l e r) path =
     (let c = cmp (ekey e) key
      in if c = 0 then Some (path, Element l e r)
         else if max_tree_hight \<le> length path + 1 then None
         else if c < 0 then descend cmp key r (\<lparr>fside = R, felem = e, fother = l\<rparr> # path)
         else descend cmp key l (\<lparr>fside = L, felem = e, fother = r\<rparr> # path))"

text \<open>
  \<open>mem n\<close> says whether an allocation of \<open>n\<close> bytes succeeds. The result is the tree, the
  calls of \<open>free\<close>, and the count of the element (None: no memory).
\<close>

definition tree_add ::
  "(nat \<Rightarrow> bool) \<Rightarrow> ('k, 'a) TREE \<Rightarrow> 'k \<Rightarrow> nat \<Rightarrow> 'k frame list \<Rightarrow> (('k, 'a) TREE \<times> 31 word option) option" where
  "tree_add mem t key key_size path =
     (let alloc_size = tree_element_size + key_size + size_of_element t;
        t = t\<lparr>allocated := allocated t + alloc_size\<rparr>
      in if mem alloc_size then
           do {
             root \<leftarrow> rb_insert path (Element Null \<lparr>ekey = key, ecount = 1, ecolour = RED\<rparr> Null);
             Some (t\<lparr>troot := root, elements_in_tree := elements_in_tree t + 1\<rparr>, Some 1)
           }
         else Some (t, None))"

definition tree_insert ::
  "(nat \<Rightarrow> bool) \<Rightarrow> ('k, 'a) TREE \<Rightarrow> 'k \<Rightarrow> nat \<Rightarrow>
    (('k, 'a) TREE \<times> 'k free_call list \<times> 31 word option) option" where
  "tree_insert mem t key key_size =
     do {
       (path, element) \<leftarrow> descend (compare t (custom_arg t)) key (troot t) [];
       case element of
         Null \<Rightarrow>
           (let alloc_size = tree_element_size + key_size + size_of_element t
            in if memory_limit t \<noteq> 0 \<and> elements_in_tree t \<noteq> 0 \<and> memory_limit t < allocated t + alloc_size
               then (let (t, calls) = reset_tree t
                     in do { (t, c) \<leftarrow> tree_add mem t key key_size []; Some (t, calls, c) })
               else do { (t, c) \<leftarrow> tree_add mem t key key_size path; Some (t, [], c) })
       | Element l e r \<Rightarrow>
           (let e = e\<lparr>ecount := ecount e + 1\<rparr>
            in Some (t\<lparr>troot := zip_up path (Element l e r)\<rparr>, [], Some (ecount e)))
     }"

subsection \<open>Delete, search, walk\<close>

primrec leftmost :: "'k tree \<Rightarrow> 'k frame list \<Rightarrow> ('k elem \<times> 'k tree \<times> 'k frame list) option" where
  "leftmost Null path = None"
| "leftmost (Element l e r) path =
     (if l = Null then Some (e, r, path)
      else if max_tree_hight \<le> length path + 1 then None
      else leftmost l (\<lparr>fside = L, felem = e, fother = r\<rparr> # path))"

definition unlink_element :: "'k tree \<Rightarrow> 'k elem \<Rightarrow> 'k tree \<Rightarrow> 'k frame list \<Rightarrow> ('k frame list \<times> 'k tree \<times> rb_colour) option" where
  "unlink_element l e r path =
     (if l = Null then Some (path, r, ecolour e)
      else if r = Null then Some (path, l, ecolour e)
      else if max_tree_hight \<le> length path + 1 then None
      else do {
        (nod, right, down) \<leftarrow> leftmost r (\<lparr>fside = R, felem = e, fother = l\<rparr> # path);
        let k = length down - length path - 1;
        Some (take k down @ \<lparr>fside = R, felem = nod\<lparr>ecolour := ecolour e\<rparr>, fother = l\<rparr> # path,
              right, ecolour nod)
      })"

definition tree_delete :: "('k, 'a) TREE \<Rightarrow> 'k \<Rightarrow> (('k, 'a) TREE \<times> 'k free_call list \<times> int) option" where
  "tree_delete t key =
     (if \<not> with_delete t then Some (t, [], 1)
      else do {
        (path, element) \<leftarrow> descend (compare t (custom_arg t)) key (troot t) [];
        case element of
          Null \<Rightarrow> Some (t, [], 1)
        | Element l e r \<Rightarrow> do {
            (path, x, remove_colour) \<leftarrow> unlink_element l e r path;
            root \<leftarrow> (if remove_colour = BLACK then rb_delete_fixup path x else Some (zip_up path x));
            Some (t\<lparr>troot := root, elements_in_tree := elements_in_tree t - 1\<rparr>,
                  if has_free t then [Free_free (ekey e)] else [], 0) }
      })"

primrec search_from :: "('k \<Rightarrow> 'k \<Rightarrow> int) \<Rightarrow> 'k \<Rightarrow> 'k tree \<Rightarrow> 'k option" where
  "search_from cmp key Null = None"
| "search_from cmp key (Element l e r) =
     (let c = cmp (ekey e) key
      in if c = 0 then Some (ekey e) else if c < 0 then search_from cmp key r else search_from cmp key l)"

definition tree_search :: "('k, 'a) TREE \<Rightarrow> 'k \<Rightarrow> 'k option" where
  "tree_search t key = search_from (compare t (custom_arg t)) key (troot t)"

text \<open>The action may change the state its argument points to; a nonzero value ends the walk.\<close>

type_synonym ('k, 's) walk_action = "'k \<Rightarrow> 31 word \<Rightarrow> 's \<Rightarrow> int \<times> 's"

primrec tree_walk_left_root_right :: "('k, 's) walk_action \<Rightarrow> 'k tree \<Rightarrow> 's \<Rightarrow> int \<times> 's" where
  "tree_walk_left_root_right action Null s = (0, s)"
| "tree_walk_left_root_right action (Element l e r) s =
     (let (error, s) = tree_walk_left_root_right action l s
      in if error \<noteq> 0 then (error, s)
         else let (error, s) = action (ekey e) (ecount e) s
              in if error \<noteq> 0 then (error, s) else tree_walk_left_root_right action r s)"

primrec tree_walk_right_root_left :: "('k, 's) walk_action \<Rightarrow> 'k tree \<Rightarrow> 's \<Rightarrow> int \<times> 's" where
  "tree_walk_right_root_left action Null s = (0, s)"
| "tree_walk_right_root_left action (Element l e r) s =
     (let (error, s) = tree_walk_right_root_left action r s
      in if error \<noteq> 0 then (error, s)
         else let (error, s) = action (ekey e) (ecount e) s
              in if error \<noteq> 0 then (error, s) else tree_walk_right_root_left action l s)"

datatype tree_walk_order = Left_root_right | Right_root_left

definition tree_walk :: "('k, 'a) TREE \<Rightarrow> ('k, 's) walk_action \<Rightarrow> 's \<Rightarrow> tree_walk_order \<Rightarrow> int \<times> 's" where
  "tree_walk t action arg visit =
     (case visit of
        Left_root_right \<Rightarrow> tree_walk_left_root_right action (troot t) arg
      | Right_root_left \<Rightarrow> tree_walk_right_root_left action (troot t) arg)"

subsection \<open>The test of a debug build\<close>

primrec test_rb_tree :: "'k tree \<Rightarrow> int" where
  "test_rb_tree Null = 0"
| "test_rb_tree (Element l e r) =
     (if ecolour e = RED \<and> (colour l = RED \<or> colour r = RED) then - 1
      else let count_l = test_rb_tree l; count_r = test_rb_tree r
           in if 0 \<le> count_l \<and> 0 \<le> count_r \<and> count_l = count_r
              then count_l + (if ecolour e = BLACK then 1 else 0)
              else - 1)"

end
