(* ===== verification/RbTreeSpec.thy ===== *)
theory RbTreeSpec
  imports RbTree Interfaces
begin

text \<open>
  What the red-black trees of mysys/tree.c promise: the colour and height invariants, which
  both rebalancing loops restore, the bound on the length of \<open>parents\<close>, and each operation
  as an operation on the sorted list of keys with their counts.
\<close>

subsection \<open>Contents of trees and paths\<close>

definition info :: "'k elem \<Rightarrow> 'k \<times> 31 word" where
  "info e = (ekey e, ecount e)"

primrec entries :: "'k tree \<Rightarrow> ('k \<times> 31 word) list" where
  "entries Null = []"
| "entries (Element l e r) = entries l @ info e # entries r"

primrec before :: "'k frame list \<Rightarrow> ('k \<times> 31 word) list" where
  "before [] = []"
| "before (f # fs) = before fs @ (case fside f of L \<Rightarrow> [] | R \<Rightarrow> entries (fother f) @ [info (felem f)])"

primrec after :: "'k frame list \<Rightarrow> ('k \<times> 31 word) list" where
  "after [] = []"
| "after (f # fs) = (case fside f of L \<Rightarrow> info (felem f) # entries (fother f) | R \<Rightarrow> []) @ after fs"

lemma entries_node [simp]:
  "entries (node s a e b) = (case s of L \<Rightarrow> entries a @ info e # entries b | R \<Rightarrow> entries b @ info e # entries a)"
  by (cases s) simp_all

lemma entries_zip: "entries (zip_up path t) = before path @ entries t @ after path"
  by (induction path arbitrary: t) (auto simp: plug_def split: side.splits)

lemma info_colour [simp]: "info (e\<lparr>ecolour := c\<rparr>) = info e"
  by (simp add: info_def)

lemma entries_set_colour [simp]: "entries (set_colour c t) = entries t"
  by (cases t) simp_all

lemma before_append: "before (p @ q) = before q @ before p" and after_append: "after (p @ q) = after p @ after q"
  by (induction p) simp_all

lemma zip_append: "zip_up (p @ q) t = zip_up q (zip_up p t)"
  by (induction p arbitrary: t) simp_all

subsection \<open>Colours and heights\<close>

primrec red_ok :: "'k tree \<Rightarrow> bool" where
  "red_ok Null \<longleftrightarrow> True"
| "red_ok (Element l e r) \<longleftrightarrow> red_ok l \<and> red_ok r \<and> (ecolour e = RED \<longrightarrow> colour l = BLACK \<and> colour r = BLACK)"

definition black_one :: "rb_colour \<Rightarrow> nat" where
  "black_one c = (if c = BLACK then 1 else 0)"

primrec bheight :: "'k tree \<Rightarrow> nat" where
  "bheight Null = 0"
| "bheight (Element l e r) = bheight l + black_one (ecolour e)"

primrec balanced :: "'k tree \<Rightarrow> bool" where
  "balanced Null \<longleftrightarrow> True"
| "balanced (Element l e r) \<longleftrightarrow> balanced l \<and> balanced r \<and> bheight l = bheight r"

definition rb_tree :: "'k tree \<Rightarrow> bool" where
  "rb_tree t \<longleftrightarrow> red_ok t \<and> balanced t \<and> colour t = BLACK"

text \<open>A path whose focus needs a tree of black height \<open>h\<close>.\<close>

primrec path_ok :: "'k frame list \<Rightarrow> nat \<Rightarrow> bool" where
  "path_ok [] h \<longleftrightarrow> True"
| "path_ok (f # fs) h \<longleftrightarrow> red_ok (fother f) \<and> balanced (fother f) \<and> bheight (fother f) = h \<and>
     (fcolour f = RED \<longrightarrow> colour (fother f) = BLACK \<and> fs \<noteq> [] \<and> fcolour (hd fs) = BLACK) \<and>
     path_ok fs (h + black_one (fcolour f))"

definition head_ok :: "'k frame list \<Rightarrow> 'k tree \<Rightarrow> bool" where
  "head_ok path t \<longleftrightarrow> (path \<noteq> [] \<and> fcolour (hd path) = RED \<longrightarrow> colour t = BLACK)"

lemma colour_exh [simp]: "c \<noteq> RED \<longleftrightarrow> c = BLACK" "c \<noteq> BLACK \<longleftrightarrow> c = RED"
  by (cases c; simp)+

lemma black_one_simps [simp]: "black_one BLACK = 1" "black_one RED = 0"
  by (simp_all add: black_one_def)

lemma plug_simps:
  "colour (plug f t) = fcolour f"
  "red_ok (plug f t) \<longleftrightarrow> red_ok t \<and> red_ok (fother f) \<and> (fcolour f = RED \<longrightarrow> colour t = BLACK \<and> colour (fother f) = BLACK)"
  "balanced (plug f t) \<longleftrightarrow> balanced t \<and> balanced (fother f) \<and> bheight t = bheight (fother f)"
  "bheight t = bheight (fother f) \<Longrightarrow> bheight (plug f t) = bheight t + black_one (fcolour f)"
  by (cases "fside f"; auto simp: plug_def fcolour_def)+

lemma set_black_ok [simp]: "red_ok t \<Longrightarrow> red_ok (set_colour BLACK t)" "balanced (set_colour c t) = balanced t"
    "colour (set_colour BLACK t) = BLACK"
  by (cases t; simp)+

lemma bheight_set_colour: "bheight (set_colour BLACK t) = bheight t + (if colour t = RED then 1 else 0)"
  by (cases t) (auto simp: black_one_def)

lemma set_colour_same [simp]: "colour t = BLACK \<Longrightarrow> set_colour BLACK t = t"
proof (cases t)
  case (Element l e r)
  assume "colour t = BLACK"
  then have "e\<lparr>ecolour := BLACK\<rparr> = e" using Element by (cases e) simp
  with Element show ?thesis by simp
qed simp

lemma zip_ok:
  assumes "path_ok path (bheight t)" "red_ok t" "balanced t" "head_ok path t"
  shows "red_ok (zip_up path t)" "balanced (zip_up path t)"
    "path \<noteq> [] \<Longrightarrow> colour (zip_up path t) = fcolour (last path)"
proof -
  have "red_ok (zip_up path t) \<and> balanced (zip_up path t) \<and> (path \<noteq> [] \<longrightarrow> colour (zip_up path t) = fcolour (last path))"
    using assms
  proof (induction path arbitrary: t)
    case (Cons f fs)
    have b: "bheight (plug f t) = bheight t + black_one (fcolour f)"
      using Cons.prems by (simp add: plug_simps)
    have "red_ok (zip_up fs (plug f t)) \<and> balanced (zip_up fs (plug f t)) \<and>
        (fs \<noteq> [] \<longrightarrow> colour (zip_up fs (plug f t)) = fcolour (last fs))"
      by (rule Cons.IH) (use Cons.prems b in \<open>auto simp: plug_simps head_ok_def\<close>)
    then show ?case by (auto simp: plug_simps)
  qed (simp add: head_ok_def)
  then show "red_ok (zip_up path t)" "balanced (zip_up path t)"
    "path \<noteq> [] \<Longrightarrow> colour (zip_up path t) = fcolour (last path)" by auto
qed

text \<open>No outermost red frame: the root of a tree in order is black.\<close>

lemma path_ok_last: "path_ok path h \<Longrightarrow> path \<noteq> [] \<Longrightarrow> fcolour (last path) = BLACK"
  by (induction path arbitrary: h) (auto simp: colour_exh split: if_splits)

subsection \<open>The loop after an insert\<close>

lemma paint_simps [simp]:
  "fcolour (paint c f) = c" "fother (paint c f) = fother f" "fside (paint c f) = fside f"
  "info (felem (paint c f)) = info (felem f)" "ecolour (felem (paint c f)) = c"
  "fcolour (f\<lparr>fother := y\<rparr>) = fcolour f"
  by (simp_all add: paint_def fcolour_def)

text \<open>The one or two rotations that end the loop.\<close>

lemma insert_rotate:
  assumes "red_ok (fother par)" "balanced (fother par)" "bheight (fother par) = bheight leaf" "colour (fother par) = BLACK"
    "colour (fother par2) = BLACK" "red_ok (fother par2)" "balanced (fother par2)" "bheight (fother par2) = bheight leaf"
    "red_ok leaf" "balanced leaf" "colour leaf = RED" "fcolour par = RED"
  shows "\<exists>t u. (if fside par = opposite (fside par2) then rotate (fside par2) (plug par leaf) else Some (plug par leaf)) = Some t \<and>
    rotate (opposite (fside par2)) (plug (paint RED par2) (set_colour BLACK t)) = Some u \<and>
    red_ok u \<and> balanced u \<and> colour u = BLACK \<and> bheight u = bheight leaf + 1 \<and>
    entries u = entries (plug par2 (plug par leaf))"
proof -
  obtain a e b where leaf: "leaf = Element a e b" "ecolour e = RED" using assms(11) by (cases leaf) auto
  show ?thesis
    using assms by (cases "fside par2"; cases "fside par") (simp_all add: plug_def paint_def leaf fcolour_def)
qed

lemma rb_insert_correct:
  assumes "path_ok path (bheight leaf)" "red_ok leaf" "balanced leaf" "colour leaf = RED"
  shows "\<exists>t. rb_insert path leaf = Some t \<and> rb_tree t \<and> entries t = entries (zip_up path leaf)"
  using assms
proof (induction path leaf rule: rb_insert.induct)
  case (1 leaf)
  then show ?case by (simp add: rb_tree_def)
next
  case (2 par path leaf)
  show ?case
  proof (cases "fcolour par = BLACK")
    case True
    have h: "head_ok (par # path) leaf" using True by (simp add: head_ok_def)
    note z = zip_ok [OF 2(2-4) h]
    have "colour (zip_up (par # path) leaf) = BLACK" using z(3) path_ok_last [OF 2(2)] by simp
    with True z(1,2) show ?thesis by (simp add: rb_tree_def)
  next
    case False
    then have par: "fcolour par = RED" by (simp add: colour_exh)
    with 2(2) obtain par2 rest where path: "path = par2 # rest" and p2: "fcolour par2 = BLACK" by (cases path) auto
    let ?h = "bheight leaf" and ?s = "fside par2" and ?y = "fother par2"
    have ok: "red_ok (fother par)" "balanced (fother par)" "bheight (fother par) = ?h" "colour (fother par) = BLACK"
      "red_ok ?y" "balanced ?y" "bheight ?y = ?h" "path_ok rest (?h + 1)"
      using 2(2) par path p2 by auto
    show ?thesis
    proof (cases "colour ?y = RED")
      case True
      let ?leaf = "plug (paint RED (par2\<lparr>fother := set_colour BLACK ?y\<rparr>)) (plug (paint BLACK par) leaf)"
      have b1: "bheight (plug (paint BLACK par) leaf) = ?h + 1" using ok by (subst plug_simps) auto
      have b: "bheight ?leaf = ?h + 1"
        using b1 ok True by (subst plug_simps) (auto simp: bheight_set_colour)
      have "\<exists>t. rb_insert rest ?leaf = Some t \<and> rb_tree t \<and> entries t = entries (zip_up rest ?leaf)"
        using 2(1) [OF False path refl refl True] ok b b1 2(3,4) True
        by (simp add: plug_simps bheight_set_colour)
      moreover have "entries (zip_up rest ?leaf) = entries (zip_up (par # path) leaf)"
        unfolding path entries_zip by (cases "fside par2"; cases "fside par") (simp_all add: plug_def)
      moreover have "rb_insert (par # path) leaf = rb_insert rest ?leaf"
        using False True path by (simp add: Let_def)
      ultimately show ?thesis by simp
    next
      case y: False
      obtain t u where t: "(if fside par = opposite ?s then rotate ?s (plug par leaf) else Some (plug par leaf)) = Some t"
        and u: "rotate (opposite ?s) (plug (paint RED par2) (set_colour BLACK t)) = Some u"
          "red_ok u" "balanced u" "colour u = BLACK" "bheight u = ?h + 1" "entries u = entries (plug par2 (plug par leaf))"
        using insert_rotate [of par leaf par2, OF ok(1-4) _ ok(5-7) 2(3-5) par] y by auto
      have hd: "head_ok rest u" using u by (simp add: head_ok_def)
      note z = zip_ok [OF ok(8) [folded u(5)] u(2,3) hd]
      have "rb_insert (par # path) leaf = Some (set_colour BLACK (zip_up rest u))"
        using False y path t u(1) by (simp add: Let_def)
      moreover have "entries (zip_up rest u) = entries (zip_up (par # path) leaf)"
        unfolding path entries_zip zip_up.simps u(6) by simp
      ultimately show ?thesis using z by (simp add: rb_tree_def)
    qed
  qed
qed

subsection \<open>The loop after a delete\<close>

text \<open>
  \<open>x\<close> is one black element short. What a turn of the loop with a black sibling gives.
\<close>

definition fixup_ok :: "('k \<times> 31 word) list \<Rightarrow> nat \<Rightarrow> ('k frame list \<times> 'k tree + 'k tree) \<Rightarrow> bool" where
  "fixup_ok xs n res \<longleftrightarrow>
     (case res of
        Inl (path, x) \<Rightarrow> path_ok path (bheight x + 1) \<and> red_ok (set_colour BLACK x) \<and> balanced x \<and>
          entries (zip_up path x) = xs \<and> length path = n
      | Inr t \<Rightarrow> red_ok t \<and> balanced t \<and> entries t = xs)"

lemma fixup_black_correct:
  assumes x: "colour x = BLACK" "red_ok x" "balanced x" and p: "path_ok (par # path) (bheight x + 1)"
    and w: "colour (fother par) = BLACK"
  shows "\<exists>res. fixup_black par path x = Some res \<and> fixup_ok (entries (zip_up (par # path) x)) (length path) res"
proof -
  let ?s = "fside par"
  obtain l e r where wt: "fother par = Element l e r" and e: "ecolour e = BLACK"
    using p w by (cases "fother par") auto
  let ?near = "case ?s of L \<Rightarrow> l | R \<Rightarrow> r" and ?far = "case ?s of L \<Rightarrow> r | R \<Rightarrow> l"
  have ch: "child ?s (fother par) = Some ?near" "child (opposite ?s) (fother par) = Some ?far"
    using wt by (cases ?s; simp)+
  have hts: "bheight ?near = bheight x" "bheight ?far = bheight x" "red_ok ?near" "red_ok ?far"
    "balanced ?near" "balanced ?far" "path_ok path (bheight x + 1 + black_one (fcolour par))"
    "fcolour par = RED \<longrightarrow> path \<noteq> [] \<and> fcolour (hd path) = BLACK"
    using p wt e by (auto split: side.splits)
  show ?thesis
  proof (cases "colour ?near = BLACK \<and> colour ?far = BLACK")
    case True
    let ?x = "plug (par\<lparr>fother := set_colour RED (fother par)\<rparr>) x"
    have run: "fixup_black par path x = Some (Inl (path, ?x))"
      using True ch by (simp add: fixup_black_def Let_def)
    have "red_ok (set_colour BLACK ?x)" "balanced ?x" "bheight ?x = bheight x + black_one (fcolour par)"
      "entries ?x = entries (plug par x)"
      using True x hts wt by (cases ?s; auto simp: plug_def fcolour_def)+
    then have "fixup_ok (entries (zip_up (par # path) x)) (length path) (Inl (path, ?x))"
      using hts(7) by (simp add: fixup_ok_def entries_zip algebra_simps)
    with run show ?thesis by blast
  next
    case False
    have "\<exists>t. fixup_black par path x = Some (Inr (zip_up path t)) \<and> red_ok t \<and> balanced t \<and>
        colour t = fcolour par \<and> bheight t = bheight x + 1 + black_one (fcolour par) \<and> entries t = entries (plug par x)"
    proof (cases "colour ?far = BLACK")
      case True
      with False obtain nl ne nr where near: "?near = Element nl ne nr" "ecolour ne = RED"
        by (cases ?near) auto
      show ?thesis
        using True False near hts x wt
        by (cases ?s) (auto simp: fixup_black_def Let_def plug_def paint_def fcolour_def)
    next
      case far: False
      then obtain nl ne nr where far: "?far = Element nl ne nr" "ecolour ne = RED"
        by (cases ?far) auto
      show ?thesis
        using far hts x wt e
        by (cases ?s) (auto simp: fixup_black_def Let_def plug_def paint_def fcolour_def)
    qed
    then obtain t where t: "fixup_black par path x = Some (Inr (zip_up path t))" "red_ok t" "balanced t"
      "colour t = fcolour par" "bheight t = bheight x + 1 + black_one (fcolour par)" "entries t = entries (plug par x)"
      by blast
    have hd: "head_ok path t" using t(4) hts(8) by (auto simp: head_ok_def)
    note z = zip_ok [OF hts(7) [folded t(5)] t(2,3) hd]
    have "fixup_ok (entries (zip_up (par # path) x)) (length path) (Inr (zip_up path t))"
      using z(1,2) t(6) by (simp add: fixup_ok_def entries_zip)
    with t(1) show ?thesis by blast
  qed
qed

lemma fixup_step_correct:
  assumes x: "colour x = BLACK" "red_ok x" "balanced x" and p: "path_ok (par # path) (bheight x + 1)"
    and len: "length path + 2 < max_tree_hight"
  shows "\<exists>res. fixup_step par path x = Some res \<and>
     (fixup_ok (entries (zip_up (par # path) x)) (length path) res \<or>
      fixup_ok (entries (zip_up (par # path) x)) (length path + 1) res \<and> (\<forall>q y. res = Inl (q, y) \<longrightarrow> colour y = RED))"
proof (cases "colour (fother par) = BLACK")
  case True
  then have "fixup_step par path x = fixup_black par path x" by (simp add: fixup_step_def fixup_red_def)
  with fixup_black_correct [OF x p True] show ?thesis by auto
next
  case False
  let ?s = "fside par"
  obtain l e r where wt: "fother par = Element l e r" "ecolour e = RED"
    using False by (cases "fother par") auto
  have par: "fcolour par = BLACK" using p False by (cases "fcolour par") auto
  let ?near = "case ?s of L \<Rightarrow> l | R \<Rightarrow> r" and ?far = "case ?s of L \<Rightarrow> r | R \<Rightarrow> l"
  let ?par = "paint RED (par\<lparr>fother := ?near\<rparr>)"
  let ?up = "\<lparr>fside = ?s, felem = e\<lparr>ecolour := BLACK\<rparr>, fother = ?far\<rparr>"
  have red: "fixup_red par path = Some (?par, ?up # path)"
    using wt len by (cases ?s) (simp_all add: fixup_red_def Let_def)
  have p': "path_ok (?par # ?up # path) (bheight x + 1)" "colour (fother ?par) = BLACK"
    using p wt par by (auto simp: paint_def fcolour_def split: side.splits)
  obtain res where res: "fixup_black ?par (?up # path) x = Some res"
    "fixup_ok (entries (zip_up (?par # ?up # path) x)) (length (?up # path)) res"
    using fixup_black_correct [OF x p'] by blast
  have "entries (zip_up (?par # ?up # path) x) = entries (zip_up (par # path) x)"
    unfolding entries_zip using wt(1) by (cases ?s) simp_all
  moreover have "fixup_step par path x = Some res" using red res(1) by (simp add: fixup_step_def)
  moreover have "\<forall>q y. res = Inl (q, y) \<longrightarrow> colour y = RED"
    using res(1) fixup_black_Inl by (auto simp: paint_def fcolour_def dest: fixup_black_Inl)
  ultimately show ?thesis using res(2) by auto
qed

lemma rb_delete_fixup_correct:
  assumes "path_ok path (bheight x + 1)" "red_ok (set_colour BLACK x)" "balanced x" "colour x = BLACK \<longrightarrow> length path + 1 < max_tree_hight"
  shows "\<exists>t. rb_delete_fixup path x = Some t \<and> rb_tree t \<and> entries t = entries (zip_up path x)"
  using assms
proof (induction path x rule: rb_delete_fixup.induct)
  case (1 path x)
  show ?case
  proof (cases path)
    case Nil
    then show ?thesis using 1(3,4) by (simp add: rb_delete_fixup.simps [of "[]"] rb_tree_def)
  next
    case (Cons par rest)
    have lst: "fcolour (last path) = BLACK" using path_ok_last [OF 1(2)] Cons by simp
    show ?thesis
    proof (cases "colour x = RED")
      case True
      let ?x = "set_colour BLACK x"
      have "bheight ?x = bheight x + 1" using True by (simp add: bheight_set_colour)
      then have z: "red_ok (zip_up path ?x)" "balanced (zip_up path ?x)" "path \<noteq> [] \<Longrightarrow> colour (zip_up path ?x) = fcolour (last path)"
        using zip_ok [of path ?x] 1(2-4) by (simp_all add: head_ok_def)
      moreover have "entries (zip_up path ?x) = entries (zip_up path x)" by (simp add: entries_zip)
      moreover have "rb_delete_fixup path x = Some (zip_up path ?x)"
        using True Cons by (subst rb_delete_fixup.simps) simp
      ultimately show ?thesis using lst Cons by (simp add: rb_tree_def)
    next
      case False
      then have xb: "colour x = BLACK" by simp
      have rx: "red_ok x" using 1(3) xb by simp
      have len: "length rest + 2 < max_tree_hight" using 1(5) xb Cons by simp
      obtain res where res: "fixup_step par rest x = Some res"
        "fixup_ok (entries (zip_up path x)) (length rest) res \<or>
         fixup_ok (entries (zip_up path x)) (length rest + 1) res \<and> (\<forall>q y. res = Inl (q, y) \<longrightarrow> colour y = RED)"
        using fixup_step_correct [OF xb rx 1(4) 1(2) [unfolded Cons] len] Cons by blast
      show ?thesis
      proof (cases res)
        case (Inl pair)
        then obtain q y where y: "res = Inl (q, y)" by (cases pair) auto
        then have ok: "path_ok q (bheight y + 1)" "red_ok (set_colour BLACK y)" "balanced y"
          "entries (zip_up q y) = entries (zip_up path x)" "colour y = BLACK \<longrightarrow> length q = length rest"
          using res(2) by (auto simp: fixup_ok_def)
        have "\<exists>t. rb_delete_fixup q y = Some t \<and> rb_tree t \<and> entries t = entries (zip_up q y)"
          by (rule 1(1) [OF Cons False res(1) y refl ok(1-3)]) (use ok(5) len in auto)
        moreover have "rb_delete_fixup path x = rb_delete_fixup q y"
          using False res(1) y Cons by (subst rb_delete_fixup.simps) simp
        ultimately show ?thesis using ok(4) by simp
      next
        case (Inr t)
        then have ok: "red_ok t" "balanced t" "entries t = entries (zip_up path x)"
          using res(2) by (auto simp: fixup_ok_def)
        have "rb_delete_fixup path x = Some (set_colour BLACK t)"
          using False res(1) Inr Cons by (subst rb_delete_fixup.simps) simp
        with ok show ?thesis by (simp add: rb_tree_def)
      qed
    qed
  qed
qed

subsection \<open>The debug test and the height\<close>

lemma test_rb_tree_range: "- 1 \<le> test_rb_tree t"
  by (induction t) (auto simp: Let_def)

lemma test_rb_tree_correct:
  "0 \<le> test_rb_tree t \<longleftrightarrow> red_ok t \<and> balanced t"
  "red_ok t \<Longrightarrow> balanced t \<Longrightarrow> test_rb_tree t = int (bheight t)"
proof -
  show b: "red_ok t \<Longrightarrow> balanced t \<Longrightarrow> test_rb_tree t = int (bheight t)" for t :: "'a tree"
    by (induction t) (auto simp: Let_def black_one_def)
  have "0 \<le> test_rb_tree t \<Longrightarrow> red_ok t \<and> balanced t"
  proof (induction t)
    case (Element l e r)
    have n: "\<not> (ecolour e = RED \<and> (colour l = RED \<or> colour r = RED))"
      "0 \<le> test_rb_tree l" "0 \<le> test_rb_tree r" "test_rb_tree l = test_rb_tree r"
      using Element.prems by (simp_all only: test_rb_tree.simps Let_def) (simp_all split: if_splits)
    with Element.IH have lr: "red_ok l" "balanced l" "red_ok r" "balanced r" by simp_all
    then have "bheight l = bheight r" using b [of l] b [of r] n(4) by simp
    with lr n(1) show ?case by auto
  qed simp
  then show "0 \<le> test_rb_tree t \<longleftrightarrow> red_ok t \<and> balanced t" using b by auto
qed

primrec hgt :: "'k tree \<Rightarrow> nat" where
  "hgt Null = 0"
| "hgt (Element l e r) = Suc (max (hgt l) (hgt r))"

lemma hgt_bheight: "red_ok t \<Longrightarrow> balanced t \<Longrightarrow> hgt t \<le> 2 * bheight t + (if colour t = RED then 1 else 0)"
  by (induction t) (auto simp: black_one_def split: if_splits)

lemma bheight_size: "balanced t \<Longrightarrow> 2 ^ bheight t \<le> length (entries t) + 1"
proof (induction t)
  case (Element l e r)
  then have "2 ^ bheight l \<le> length (entries l) + 1" "(2::nat) ^ bheight l \<le> length (entries r) + 1" by auto
  then show ?case by (cases "ecolour e = RED") auto
qed simp

text \<open>Fewer than \<open>2 ^ 20 - 1\<close> elements: the 40 links of \<open>parents\<close> are enough.\<close>

lemma hgt_bound:
  assumes "rb_tree t" "length (entries t) + 1 < 2 ^ 20"
  shows "hgt t + 1 < max_tree_hight"
proof -
  have "(2::nat) ^ bheight t < 2 ^ 20" using bheight_size [of t] assms by (simp add: rb_tree_def)
  then have "bheight t < 20" by (simp only: power_strict_increasing_iff)
  then show ?thesis using hgt_bheight [of t] assms(1) by (simp add: rb_tree_def max_tree_hight_def)
qed

subsection \<open>The walk down\<close>

definition focus_ok :: "'k frame list \<Rightarrow> 'k tree \<Rightarrow> bool" where
  "focus_ok path t \<longleftrightarrow> path_ok path (bheight t) \<and> red_ok t \<and> balanced t \<and>
     (colour t = RED \<longrightarrow> path \<noteq> [] \<and> fcolour (hd path) = BLACK)"

lemma focus_down:
  assumes "focus_ok path (Element l e r)"
  shows "focus_ok (\<lparr>fside = R, felem = e, fother = l\<rparr> # path) r" "focus_ok (\<lparr>fside = L, felem = e, fother = r\<rparr> # path) l"
proof -
  have "fcolour \<lparr>fside = s, felem = e, fother = x\<rparr> = ecolour e" for s and x :: "'a tree" by (simp add: fcolour_def)
  with assms show "focus_ok (\<lparr>fside = R, felem = e, fother = l\<rparr> # path) r" "focus_ok (\<lparr>fside = L, felem = e, fother = r\<rparr> # path) l"
    by (auto simp: focus_ok_def)
qed

lemma focus_root: "focus_ok [] t \<longleftrightarrow> rb_tree t"
  by (auto simp: focus_ok_def rb_tree_def)

text \<open>The keys passed on the left come before the key looked for, those on the right after it.\<close>

definition split_at :: "('k \<Rightarrow> 'k \<Rightarrow> int) \<Rightarrow> 'k \<Rightarrow> 'k frame list \<Rightarrow> bool" where
  "split_at cmp key path \<longleftrightarrow>
     (\<forall>e \<in> set (before path). cmp (fst e) key < 0) \<and> (\<forall>e \<in> set (after path). 0 < cmp (fst e) key)"

lemma key_sorted_append:
  "key_sorted cmp (xs @ ys) \<longleftrightarrow> key_sorted cmp xs \<and> key_sorted cmp ys \<and>
     (\<forall>x \<in> set xs. \<forall>y \<in> set ys. cmp (fst x) (fst y) < 0)"
  by (auto simp: key_sorted_def sorted_wrt_append)

lemma descend_correct:
  assumes t: "total_cmp cmp"
  shows "length path + hgt t < max_tree_hight \<Longrightarrow> focus_ok path t \<Longrightarrow> split_at cmp key path \<Longrightarrow>
    key_sorted cmp (entries t) \<Longrightarrow>
    \<exists>p s. descend cmp key t path = Some (p, s) \<and> zip_up p s = zip_up path t \<and> focus_ok p s \<and> split_at cmp key p \<and>
      length p + hgt s \<le> length path + hgt t \<and> (\<forall>l e r. s = Element l e r \<longrightarrow> cmp (ekey e) key = 0) \<and>
      key_sorted cmp (entries s)"
proof (induction t arbitrary: path)
  case Null
  then show ?case by auto
next
  case (Element l e r)
  have ks: "key_sorted cmp (entries l)" "key_sorted cmp (entries r)"
    "\<And>x. x \<in> set (entries l) \<Longrightarrow> cmp (fst x) (ekey e) < 0" "\<And>x. x \<in> set (entries r) \<Longrightarrow> cmp (ekey e) (fst x) < 0"
    using Element.prems(4) by (auto simp: key_sorted_append info_def) (auto simp: key_sorted_def)
  consider "cmp (ekey e) key = 0" | "cmp (ekey e) key < 0" | "0 < cmp (ekey e) key" by linarith
  then show ?case
  proof cases
    case 1
    then show ?thesis using Element.prems by auto
  next
    case 2
    let ?p = "\<lparr>fside = R, felem = e, fother = l\<rparr> # path"
    have sp: "split_at cmp key ?p"
      using Element.prems(3) 2 ks(3) total_cmp_less_trans(1) [OF t]
      by (auto simp: split_at_def info_def) (metis less_imp_le total_cmp_less_trans(1) [OF t] fst_conv)
    have "\<exists>p s. descend cmp key r ?p = Some (p, s) \<and> zip_up p s = zip_up ?p r \<and> focus_ok p s \<and> split_at cmp key p \<and>
      length p + hgt s \<le> length ?p + hgt r \<and> (\<forall>l e r. s = Element l e r \<longrightarrow> cmp (ekey e) key = 0) \<and>
      key_sorted cmp (entries s)"
      by (rule Element.IH(2) [OF _ focus_down(1) [OF Element.prems(2)] sp ks(2)]) (use Element.prems(1) in simp)
    then show ?thesis using 2 Element.prems(1) by (auto simp: Let_def plug_def)
  next
    case 3
    let ?p = "\<lparr>fside = L, felem = e, fother = r\<rparr> # path"
    have "0 < cmp (fst x) key" if "x \<in> set (entries r)" for x
      using ks(4) [OF that] 3 total_cmp_less_trans(1) [OF t, of key "ekey e" "fst x"]
        total_cmpD(1) [OF t, of key "ekey e"] total_cmpD(1) [OF t, of key "fst x"] by simp
    then have sp: "split_at cmp key ?p"
      using Element.prems(3) 3 by (auto simp: split_at_def info_def)
    have "\<exists>p s. descend cmp key l ?p = Some (p, s) \<and> zip_up p s = zip_up ?p l \<and> focus_ok p s \<and> split_at cmp key p \<and>
      length p + hgt s \<le> length ?p + hgt l \<and> (\<forall>l e r. s = Element l e r \<longrightarrow> cmp (ekey e) key = 0) \<and>
      key_sorted cmp (entries s)"
      by (rule Element.IH(1) [OF _ focus_down(2) [OF Element.prems(2)] sp ks(1)]) (use Element.prems(1) in simp)
    then show ?thesis using 3 Element.prems(1) by (auto simp: Let_def plug_def)
  qed
qed

subsection \<open>The operations\<close>

abbreviation tree_cmp :: "('k, 'a) TREE \<Rightarrow> 'k \<Rightarrow> 'k \<Rightarrow> int" where
  "tree_cmp t \<equiv> compare t (custom_arg t)"

definition tree_wf :: "('k, 'a) TREE \<Rightarrow> bool" where
  "tree_wf t \<longleftrightarrow> total_cmp (tree_cmp t) \<and> rb_tree (troot t) \<and> key_sorted (tree_cmp t) (entries (troot t)) \<and>
     elements_in_tree t = length (entries (troot t))"

abbreviation tree_dict :: "('k, 'a) TREE \<Rightarrow> ('k \<times> 31 word) list" where
  "tree_dict t \<equiv> entries (troot t)"

definition tree_room :: nat where
  "tree_room = 2 ^ 20 - 2"

definition tree_has :: "('k, 'a) TREE \<Rightarrow> 'k \<Rightarrow> bool" where
  "tree_has t key \<longleftrightarrow> (\<exists>e \<in> set (tree_dict t). tree_cmp t (fst e) key = 0)"

lemma descend_tree:
  assumes wf: "tree_wf t" and room: "length (tree_dict t) \<le> tree_room"
  shows "\<exists>p s. descend (tree_cmp t) key (troot t) [] = Some (p, s) \<and> zip_up p s = troot t \<and> focus_ok p s \<and>
    split_at (tree_cmp t) key p \<and> length p + hgt s + 1 < max_tree_hight \<and>
    (\<forall>l e r. s = Element l e r \<longrightarrow> tree_cmp t (ekey e) key = 0) \<and> key_sorted (tree_cmp t) (entries s) \<and>
    (s = Null \<longleftrightarrow> \<not> tree_has t key)"
proof -
  have h: "hgt (troot t) + 1 < max_tree_hight"
    by (rule hgt_bound) (use wf room in \<open>auto simp: tree_wf_def tree_room_def\<close>)
  obtain p s where ps: "descend (tree_cmp t) key (troot t) [] = Some (p, s)" "zip_up p s = troot t" "focus_ok p s"
    "split_at (tree_cmp t) key p" "length p + hgt s \<le> hgt (troot t)"
    "\<forall>l e r. s = Element l e r \<longrightarrow> tree_cmp t (ekey e) key = 0" "key_sorted (tree_cmp t) (entries s)"
    using descend_correct [of "tree_cmp t" "[]" "troot t" key] wf h
    by (auto simp: tree_wf_def focus_root split_at_def)
  have "s = Null \<longleftrightarrow> \<not> tree_has t key"
  proof (cases s)
    case Null
    have "tree_dict t = before p @ after p" using entries_zip [of p s] ps(2) Null by simp
    then show ?thesis using ps(4) Null by (force simp: tree_has_def split_at_def)
  next
    case (Element l e r)
    have "tree_dict t = before p @ entries s @ after p" using entries_zip [of p s] ps(2) by simp
    then have "info e \<in> set (tree_dict t)" using Element by simp
    then show ?thesis using ps(6) Element by (auto simp: tree_has_def info_def intro: bexI [of _ "(ekey e, ecount e)"])
  qed
  with ps h show ?thesis by auto
qed

lemma tree_add_correct:
  assumes "path_ok path 0"
  shows "\<exists>t' c. tree_add mem t key ks path = Some (t', c) \<and>
     tree_cmp t' = tree_cmp t \<and> with_delete t' = with_delete t \<and> memory_limit t' = memory_limit t \<and>
     (if mem (tree_element_size + ks + size_of_element t)
      then c = Some 1 \<and> rb_tree (troot t') \<and> tree_dict t' = before path @ (key, 1) # after path \<and>
        elements_in_tree t' = elements_in_tree t + 1
      else c = None \<and> troot t' = troot t \<and> elements_in_tree t' = elements_in_tree t)"
proof -
  let ?e = "\<lparr>ekey = key, ecount = 1, ecolour = RED\<rparr>"
  obtain root where root: "rb_insert path (Element Null ?e Null) = Some root" "rb_tree root"
    "entries root = entries (zip_up path (Element Null ?e Null))"
    using rb_insert_correct [of path "Element Null ?e Null"] assms by auto
  then have "entries root = before path @ (key, 1) # after path" by (simp add: entries_zip info_def)
  with root show ?thesis by (auto simp: tree_add_def Let_def)
qed

text \<open>
  What an insert does: with a key that is there it raises the count; without one it adds the
  key, after a reset of the tree when the memory limit is passed; without memory it adds
  nothing. It never needs more links than \<open>parents\<close> has.
\<close>

lemma tree_insert_correct:
  fixes t :: "('k, 'a) TREE" and key :: 'k and ks :: nat
  assumes wf: "tree_wf t" and room: "length (tree_dict t) \<le> tree_room"
  defines "need \<equiv> tree_element_size + ks + size_of_element t"
  defines "over \<equiv> \<not> tree_has t key \<and> memory_limit t \<noteq> 0 \<and> tree_dict t \<noteq> [] \<and> memory_limit t < allocated t + need"
  defines "base \<equiv> if over then [] else tree_dict t"
  shows "\<exists>t' calls c. tree_insert mem t key ks = Some (t', calls, c) \<and> tree_wf t' \<and>
     calls = (if over then snd (reset_tree t) else []) \<and>
     tree_cmp t' = tree_cmp t \<and> with_delete t' = with_delete t \<and> memory_limit t' = memory_limit t \<and>
     (if tree_has t key \<or> mem need
      then tree_dict t' = ins_entry (tree_cmp t) key base \<and> c = Some (entry_count (tree_cmp t) key (tree_dict t'))
      else tree_dict t' = base \<and> c = None)"
proof -
  have tc: "total_cmp (tree_cmp t)" and srt: "key_sorted (tree_cmp t) (tree_dict t)" using wf by (simp_all add: tree_wf_def)
  obtain p s where ps: "descend (tree_cmp t) key (troot t) [] = Some (p, s)" "zip_up p s = troot t" "focus_ok p s"
    "split_at (tree_cmp t) key p" "\<forall>l e r. s = Element l e r \<longrightarrow> tree_cmp t (ekey e) key = 0"
    "s = Null \<longleftrightarrow> \<not> tree_has t key" "key_sorted (tree_cmp t) (entries s)"
    using descend_tree [OF wf room, of key] by blast
  have dict: "tree_dict t = before p @ entries s @ after p" using entries_zip [of p s] ps(2) by simp
  have bef: "\<And>e. e \<in> set (before p) \<Longrightarrow> tree_cmp t (fst e) key < 0"
    and aft: "\<And>e. e \<in> set (after p) \<Longrightarrow> 0 < tree_cmp t (fst e) key"
    using ps(4) by (auto simp: split_at_def)
  have count_out: "entry_count (tree_cmp t) key (before p @ xs @ after p) = entry_count (tree_cmp t) key xs" for xs
  proof -
    have "entry_count (tree_cmp t) key (before p) = 0" by (rule entry_count_none) (metis bef less_irrefl)
    moreover have "entry_count (tree_cmp t) key (after p) = 0" by (rule entry_count_none) (metis aft less_irrefl)
    ultimately show ?thesis by (simp add: entry_count_append)
  qed
  show ?thesis
  proof (cases s)
    case (Element l e r)
    let ?e = "e\<lparr>ecount := ecount e + 1\<rparr>" and ?t = "t\<lparr>troot := zip_up p (Element l (e\<lparr>ecount := ecount e + 1\<rparr>) r)\<rparr>"
    have has: "tree_has t key" and key: "tree_cmp t (ekey e) key = 0" using ps(5,6) Element by auto
    have run: "tree_insert mem t key ks = Some (?t, [], Some (ecount e + 1))"
      using ps(1) Element by (simp add: tree_insert_def Let_def)
    have sib: "key_sorted (tree_cmp t) (entries l @ info e # entries r)"
      using ps(7) Element by simp
    have keys: "\<And>x. x \<in> set (entries l) \<Longrightarrow> tree_cmp t (fst x) (ekey e) < 0"
      "\<And>x. x \<in> set (entries r) \<Longrightarrow> tree_cmp t (ekey e) (fst x) < 0"
      using sib by (auto simp: key_sorted_def sorted_wrt_append info_def)
    have lk: "\<And>x. x \<in> set (entries l) \<Longrightarrow> tree_cmp t (fst x) key < 0"
      using keys(1) key total_cmp_less_trans(1) [OF tc] by (metis order_refl)
    have rk: "0 < tree_cmp t (fst x) key" if "x \<in> set (entries r)" for x
      using keys(2) [OF that] key total_cmp_less_trans(2) [OF tc, of key "ekey e" "fst x"]
        total_cmpD(4) [OF tc, of "ekey e" key] total_cmpD(1) [OF tc, of key "fst x"] by simp
    have d': "tree_dict ?t = before p @ (entries l @ (ekey e, ecount e + 1) # entries r) @ after p"
      by (simp add: entries_zip info_def)
    have "ins_entry (tree_cmp t) key (tree_dict t) = tree_dict ?t"
    proof -
      have "ins_entry (tree_cmp t) key ((before p @ entries l) @ (ekey e, ecount e) # entries r @ after p) =
          (before p @ entries l) @ ins_entry (tree_cmp t) key ((ekey e, ecount e) # entries r @ after p)"
        by (rule ins_entry_skip) (use bef lk in auto)
      then show ?thesis unfolding d' dict Element using key by (simp add: info_def)
    qed
    moreover have "key_sorted (tree_cmp t) (tree_dict ?t)"
      using key_sorted_ins [OF tc srt, of key] calculation by simp
    moreover have "rb_tree (troot ?t)"
    proof -
      have "path_ok p (bheight (Element l ?e r))" "red_ok (Element l ?e r)" "balanced (Element l ?e r)"
        "head_ok p (Element l ?e r)" "colour (Element l ?e r) = RED \<longrightarrow> p \<noteq> []"
        using ps(3) Element by (auto simp: focus_ok_def head_ok_def)
      then show ?thesis
        using zip_ok [of p "Element l ?e r"] path_ok_last [of p] by (cases "p = []") (auto simp: rb_tree_def)
    qed
    moreover have "entry_count (tree_cmp t) key (tree_dict ?t) = ecount e + 1"
    proof -
      have "entry_count (tree_cmp t) key (entries l) = 0" by (rule entry_count_none) (metis lk less_irrefl)
      moreover have "entry_count (tree_cmp t) key (entries r) = 0" by (rule entry_count_none) (metis rk less_irrefl)
      ultimately show ?thesis unfolding d' count_out using key by (simp add: entry_count_append entry_count_Cons)
    qed
    moreover have "length (tree_dict ?t) = length (tree_dict t)" unfolding d' dict Element by (simp add: info_def)
    ultimately show ?thesis using run has wf unfolding over_def base_def by (auto simp: tree_wf_def)
  next
    case Null
    then have no: "\<not> tree_has t key" using ps(6) by simp
    have pk: "path_ok p 0" using ps(3) Null by (simp add: focus_ok_def)
    have ne: "elements_in_tree t \<noteq> 0 \<longleftrightarrow> tree_dict t \<noteq> []" using wf by (simp add: tree_wf_def)
    show ?thesis
    proof (cases over)
      case True
      let ?t0 = "fst (reset_tree t)"
      have t0: "?t0 = t\<lparr>troot := Null, elements_in_tree := 0, allocated := 0\<rparr>" by (simp add: reset_tree_def free_tree_def)
      obtain t' c where t': "tree_add mem ?t0 key ks [] = Some (t', c)"
        "tree_cmp t' = tree_cmp ?t0" "with_delete t' = with_delete ?t0" "memory_limit t' = memory_limit ?t0"
        "if mem (tree_element_size + ks + size_of_element ?t0)
         then c = Some 1 \<and> rb_tree (troot t') \<and> tree_dict t' = before [] @ (key, 1) # after [] \<and>
           elements_in_tree t' = elements_in_tree ?t0 + 1
         else c = None \<and> troot t' = troot ?t0 \<and> elements_in_tree t' = elements_in_tree ?t0"
        using tree_add_correct [of "[]" mem ?t0 key ks] by auto
      have run: "tree_insert mem t key ks = Some (t', snd (reset_tree t), c)"
        using ps(1) Null True ne t'(1) unfolding over_def need_def
        by (cases "reset_tree t") (simp add: tree_insert_def Let_def)
      have self: "tree_cmp t key key = 0" by (rule total_cmpD(5) [OF tc])
      show ?thesis
        using run t' True no wf unfolding base_def need_def t0
        by (cases "mem (tree_element_size + ks + size_of_element t)")
           (auto simp: tree_wf_def key_sorted_def entry_count_def rb_tree_def self)
    next
      case False
      obtain t' c where t': "tree_add mem t key ks p = Some (t', c)"
        "tree_cmp t' = tree_cmp t" "with_delete t' = with_delete t" "memory_limit t' = memory_limit t"
        "if mem (tree_element_size + ks + size_of_element t)
         then c = Some 1 \<and> rb_tree (troot t') \<and> tree_dict t' = before p @ (key, 1) # after p \<and>
           elements_in_tree t' = elements_in_tree t + 1
         else c = None \<and> troot t' = troot t \<and> elements_in_tree t' = elements_in_tree t"
        using tree_add_correct [OF pk, of mem t key ks] by auto
      have cond: "\<not> (memory_limit t \<noteq> 0 \<and> elements_in_tree t \<noteq> 0 \<and> memory_limit t < allocated t + need)"
        using False no ne by (auto simp: over_def)
      have run: "tree_insert mem t key ks = Some (t', [], c)"
        using ps(1) Null t'(1) cond unfolding need_def by (auto simp: tree_insert_def Let_def)
      have ins: "ins_entry (tree_cmp t) key (tree_dict t) = before p @ (key, 1) # after p"
        unfolding dict using Null ins_entry_skip [of "before p" "tree_cmp t" key "after p"] bef
          ins_entry_here [of "after p" "tree_cmp t" key] aft by simp
      have self: "tree_cmp t key key = 0" by (rule total_cmpD(5) [OF tc])
      have cnt: "entry_count (tree_cmp t) key (before p @ (key, 1) # after p) = 1"
        using count_out [of "[(key, 1)]"] self by (simp add: entry_count_def)
      show ?thesis
      proof (cases "mem need")
        case True
        then have t2: "c = Some 1" "rb_tree (troot t')" "tree_dict t' = before p @ (key, 1) # after p"
          "elements_in_tree t' = elements_in_tree t + 1"
          using t'(5) unfolding need_def by auto
        have "key_sorted (tree_cmp t) (tree_dict t')"
          using key_sorted_ins [OF tc srt, of key] unfolding ins t2(3) .
        moreover have "length (tree_dict t') = length (tree_dict t) + 1"
          unfolding t2(3) dict using Null by simp
        ultimately have "tree_wf t'" using t2 t'(2) wf by (simp add: tree_wf_def)
        with run t2 t'(2-4) True False ins cnt show ?thesis by (auto simp: base_def)
      next
        case nm: False
        then have "c = None" "troot t' = troot t" "elements_in_tree t' = elements_in_tree t"
          using t'(5) unfolding need_def by auto
        then show ?thesis using run t'(2-4) nm False no wf by (auto simp: base_def tree_wf_def)
      qed
    qed
  qed
qed

subsection \<open>Delete\<close>

lemma leftmost_correct:
  "t \<noteq> Null \<Longrightarrow> length path + hgt t < max_tree_hight + 1 \<Longrightarrow> focus_ok path t \<Longrightarrow>
   \<exists>nod x ds. leftmost t path = Some (nod, x, ds @ path) \<and> entries t = info nod # entries x @ after ds \<and> before ds = [] \<and>
     length ds + 1 \<le> hgt t \<and> focus_ok (ds @ path) (Element Null nod x)"
proof (induction t arbitrary: path)
  case (Element l e r)
  show ?case
  proof (cases "l = Null")
    case True
    then show ?thesis using Element.prems by (auto intro!: exI [of _ "[]"])
  next
    case False
    let ?f = "\<lparr>fside = L, felem = e, fother = r\<rparr>"
    have h: "0 < hgt l" using False by (cases l) auto
    have hl: "length path + hgt l < max_tree_hight" using Element.prems(2) by simp
    then obtain nod x ds where ds: "leftmost l (?f # path) = Some (nod, x, ds @ ?f # path)"
      "entries l = info nod # entries x @ after ds" "before ds = []" "length ds + 1 \<le> hgt l"
      "focus_ok (ds @ ?f # path) (Element Null nod x)"
      using Element.IH(1) [OF False, of "?f # path"] Element.prems focus_down(2) [OF Element.prems(3)] by auto
    have "leftmost (Element l e r) path = Some (nod, x, (ds @ [?f]) @ path)"
      using False ds(1) h Element.prems(2) by simp
    moreover have "entries (Element l e r) = info nod # entries x @ after (ds @ [?f])"
      using ds(2) by (simp add: after_append)
    ultimately show ?thesis using ds(3-5) by (intro exI [of _ nod] exI [of _ x] exI [of _ "ds @ [?f]"]) (simp add: before_append)
  qed
qed simp

text \<open>The frame of the element taken out gets the data of its successor, with the old colour.\<close>

lemma path_ok_swap:
  assumes "fcolour g = fcolour f" "fother g = fother f"
  shows "path_ok (ds @ f # path) h \<Longrightarrow> path_ok (ds @ g # path) h"
  using assms
proof (induction ds arbitrary: h)
  case (Cons d ds)
  then show ?case by (cases ds) auto
qed auto

definition unlinked_ok :: "'k frame list \<Rightarrow> 'k tree \<Rightarrow> rb_colour \<Rightarrow> bool" where
  "unlinked_ok path x c \<longleftrightarrow> red_ok x \<and> balanced x \<and> path_ok path (bheight x + black_one c) \<and>
     (c = RED \<longrightarrow> colour x = BLACK \<and> path \<noteq> [] \<and> fcolour (hd path) = BLACK)"

lemma unlink_element_correct:
  assumes f: "focus_ok path (Element l e r)" and h: "length path + hgt (Element l e r) < max_tree_hight"
  shows "\<exists>p x c. unlink_element l e r path = Some (p, x, c) \<and> unlinked_ok p x c \<and>
     entries (zip_up p x) = before path @ entries l @ entries r @ after path \<and> length p < length path + hgt (Element l e r)"
proof -
  consider "l = Null" | "l \<noteq> Null" "r = Null" | "l \<noteq> Null" "r \<noteq> Null" by blast
  then show ?thesis
  proof cases
    case 1
    then show ?thesis using f by (auto simp: unlink_element_def unlinked_ok_def focus_ok_def entries_zip)
  next
    case 2
    then show ?thesis using f by (auto simp: unlink_element_def unlinked_ok_def focus_ok_def entries_zip)
  next
    case 3
    let ?f = "\<lparr>fside = R, felem = e, fother = l\<rparr>"
    have hr: "0 < hgt r" using 3 by (cases r) auto
    have hh: "length path + hgt r < max_tree_hight" using h by simp
    obtain nod x ds where ds: "leftmost r (?f # path) = Some (nod, x, ds @ ?f # path)"
      "entries r = info nod # entries x @ after ds" "before ds = []" "length ds + 1 \<le> hgt r"
      "focus_ok (ds @ ?f # path) (Element Null nod x)"
      using leftmost_correct [OF 3(2), of "?f # path"] hh focus_down(1) [OF f] by auto
    let ?g = "\<lparr>fside = R, felem = nod\<lparr>ecolour := ecolour e\<rparr>, fother = l\<rparr>"
    have run: "unlink_element l e r path = Some (ds @ ?g # path, x, ecolour nod)"
      using 3 ds(1) h hr by (simp add: unlink_element_def)
    have col: "fcolour ?g = fcolour ?f" by (simp add: fcolour_def)
    have pg: "path_ok (ds @ ?f # path) (bheight (Element Null nod x)) \<Longrightarrow> path_ok (ds @ ?g # path) (bheight (Element Null nod x))"
      by (rule path_ok_swap [OF col]) simp_all
    have "fcolour (hd (ds @ ?g # path)) = fcolour (hd (ds @ ?f # path))" using col by (cases ds) simp_all
    then have "unlinked_ok (ds @ ?g # path) x (ecolour nod)"
      using ds(5) pg by (auto simp: focus_ok_def unlinked_ok_def)
    moreover have "entries (zip_up (ds @ ?g # path) x) = before path @ entries l @ entries r @ after path"
      using ds(2,3) by (simp add: entries_zip before_append after_append)
    ultimately show ?thesis using run ds(4) by auto
  qed
qed

lemma tree_delete_correct:
  fixes t :: "('k, 'a) TREE"
  assumes wf: "tree_wf t" and room: "length (tree_dict t) \<le> tree_room" and wd: "with_delete t"
  shows "\<exists>t' calls. tree_delete t key = Some (t', calls, if tree_has t key then 0 else 1) \<and> tree_wf t' \<and>
     tree_dict t' = del_entry (tree_cmp t) key (tree_dict t) \<and> tree_cmp t' = tree_cmp t \<and>
     with_delete t' = with_delete t \<and> memory_limit t' = memory_limit t \<and>
     (tree_has t key \<and> has_free t \<longrightarrow> (\<exists>k. calls = [Free_free k] \<and> tree_cmp t k key = 0)) \<and>
     (\<not> (tree_has t key \<and> has_free t) \<longrightarrow> calls = [])"
proof -
  have tc: "total_cmp (tree_cmp t)" and srt: "key_sorted (tree_cmp t) (tree_dict t)" using wf by (simp_all add: tree_wf_def)
  obtain p s where ps: "descend (tree_cmp t) key (troot t) [] = Some (p, s)" "zip_up p s = troot t" "focus_ok p s"
    "split_at (tree_cmp t) key p" "\<forall>l e r. s = Element l e r \<longrightarrow> tree_cmp t (ekey e) key = 0"
    "s = Null \<longleftrightarrow> \<not> tree_has t key" "key_sorted (tree_cmp t) (entries s)" "length p + hgt s + 1 < max_tree_hight"
    using descend_tree [OF wf room, of key] by blast
  show ?thesis
  proof (cases s)
    case Null
    then have "\<not> tree_has t key" using ps(6) by simp
    then have "del_entry (tree_cmp t) key (tree_dict t) = tree_dict t"
      by (auto simp: tree_has_def del_entry_def filter_id_conv)
    with Null ps(1,6) wd wf show ?thesis by (auto simp: tree_delete_def)
  next
    case (Element l e r)
    have has: "tree_has t key" and key: "tree_cmp t (ekey e) key = 0" using ps(5,6) Element by auto
    obtain q x c where q: "unlink_element l e r p = Some (q, x, c)" "unlinked_ok q x c"
      "entries (zip_up q x) = before p @ entries l @ entries r @ after p" "length q < length p + hgt s"
      using unlink_element_correct [of p l e r] ps(3,8) Element by auto
    have "\<exists>root. (if c = BLACK then rb_delete_fixup q x else Some (zip_up q x)) = Some root \<and> rb_tree root \<and>
        entries root = entries (zip_up q x)"
    proof (cases "c = BLACK")
      case True
      have "path_ok q (bheight x + 1)" "red_ok (set_colour BLACK x)" "balanced x"
        using q(2) True by (simp_all add: unlinked_ok_def)
      with rb_delete_fixup_correct [of q x] True q(4) ps(8) show ?thesis by auto
    next
      case False
      then have u: "path_ok q (bheight x)" "red_ok x" "balanced x" "head_ok q x" "q \<noteq> []"
        using q(2) by (auto simp: unlinked_ok_def head_ok_def)
      show ?thesis using zip_ok [OF u(1-4)] path_ok_last [OF u(1,5)] u(5) False by (auto simp: rb_tree_def)
    qed
    then obtain root where root: "(if c = BLACK then rb_delete_fixup q x else Some (zip_up q x)) = Some root"
      "rb_tree root" "entries root = entries (zip_up q x)" by blast
    let ?t = "t\<lparr>troot := root, elements_in_tree := elements_in_tree t - 1\<rparr>"
    have run: "tree_delete t key = Some (?t, if has_free t then [Free_free (ekey e)] else [], 0)"
      using wd ps(1) Element q(1) root(1) by (simp add: tree_delete_def)
    have dict: "tree_dict t = before p @ (entries l @ info e # entries r) @ after p"
      using entries_zip [of p s] ps(2) Element by simp
    have keys: "\<And>x. x \<in> set (entries l) \<Longrightarrow> tree_cmp t (fst x) (ekey e) < 0"
      "\<And>x. x \<in> set (entries r) \<Longrightarrow> tree_cmp t (ekey e) (fst x) < 0"
      using ps(7) Element by (auto simp: key_sorted_def sorted_wrt_append info_def)
    have lk: "tree_cmp t (fst x) key \<noteq> 0" if "x \<in> set (entries l)" for x
      using keys(1) [OF that] key total_cmp_less_trans(1) [OF tc, of "fst x" "ekey e" key] by simp
    have rk: "tree_cmp t (fst x) key \<noteq> 0" if "x \<in> set (entries r)" for x
      using keys(2) [OF that] key total_cmp_less_trans(2) [OF tc, of key "ekey e" "fst x"]
        total_cmpD(4) [OF tc, of "ekey e" key] total_cmpD(1) [OF tc, of key "fst x"] by simp
    have out: "tree_cmp t (fst x) key \<noteq> 0" if "x \<in> set (before p) \<union> set (after p)" for x
      using ps(4) that by (auto simp: split_at_def)
    have del: "del_entry (tree_cmp t) key (tree_dict t) = before p @ entries l @ entries r @ after p"
      unfolding dict del_entry_def using lk rk out key by (auto simp: filter_id_conv info_def)
    have "key_sorted (tree_cmp t) (tree_dict ?t)"
      using srt unfolding dict by (auto simp: key_sorted_def sorted_wrt_append root(3) q(3))
    moreover have "elements_in_tree t = length (tree_dict t)" using wf by (simp add: tree_wf_def)
    moreover have "tree_dict ?t = before p @ entries l @ entries r @ after p" using root(3) q(3) by simp
    ultimately have "tree_wf ?t" using tc root(2) dict by (simp add: tree_wf_def)
    with run has key del root(3) q(3) show ?thesis by auto
  qed
qed

subsection \<open>Search and walk\<close>

lemma search_from_correct:
  assumes t: "total_cmp cmp"
  shows "key_sorted cmp (entries t) \<Longrightarrow> search_from cmp key t = map_option fst (find (\<lambda>e. cmp (fst e) key = 0) (entries t))"
proof (induction t)
  case (Element l e r)
  have ks: "key_sorted cmp (entries l)" "key_sorted cmp (entries r)"
    "\<And>x. x \<in> set (entries l) \<Longrightarrow> cmp (fst x) (ekey e) < 0" "\<And>x. x \<in> set (entries r) \<Longrightarrow> cmp (ekey e) (fst x) < 0"
    using Element.prems by (auto simp: key_sorted_def sorted_wrt_append info_def)
  have find_append: "find P (xs @ ys) = (case find P xs of None \<Rightarrow> find P ys | Some x \<Rightarrow> Some x)" for P and xs ys :: "('a \<times> 31 word) list"
    by (induction xs) auto
  have none: "(\<And>x. x \<in> set xs \<Longrightarrow> cmp (fst x) key \<noteq> 0) \<Longrightarrow> find (\<lambda>e. cmp (fst e) key = 0) xs = None" for xs :: "('a \<times> 31 word) list"
    by (auto simp: find_None_iff)
  consider "cmp (ekey e) key = 0" | "cmp (ekey e) key < 0" | "0 < cmp (ekey e) key" by linarith
  then show ?case
  proof cases
    case 1
    have "find (\<lambda>e. cmp (fst e) key = 0) (entries l) = None"
      by (rule none) (metis 1 ks(3) less_irrefl order_refl total_cmp_less_trans(1) [OF t])
    with 1 show ?thesis by (simp add: find_append info_def)
  next
    case 2
    have "find (\<lambda>e. cmp (fst e) key = 0) (entries l) = None"
      by (rule none) (metis 2 ks(3) less_imp_le less_irrefl total_cmp_less_trans(1) [OF t])
    with 2 Element.IH(2) [OF ks(2)] show ?thesis by (simp add: find_append info_def Let_def)
  next
    case 3
    have "cmp (fst x) key \<noteq> 0" if "x \<in> set (entries r)" for x
      using ks(4) [OF that] 3 total_cmp_less_trans(1) [OF t, of key "ekey e" "fst x"]
        total_cmpD(1) [OF t, of key "ekey e"] total_cmpD(1) [OF t, of key "fst x"] by simp
    then have "find (\<lambda>e. cmp (fst e) key = 0) (entries r) = None" by (rule none)
    with 3 Element.IH(1) [OF ks(1)] show ?thesis by (simp add: find_append info_def Let_def split: option.split)
  qed
qed simp

lemma tree_search_correct:
  "tree_wf t \<Longrightarrow> tree_search t key = map_option fst (find (\<lambda>e. tree_cmp t (fst e) key = 0) (tree_dict t))"
  by (simp add: tree_search_def search_from_correct tree_wf_def)

text \<open>A walk runs the action over the entries, in order or in reverse, up to the first error.\<close>

primrec run_action :: "('k, 's) walk_action \<Rightarrow> ('k \<times> 31 word) list \<Rightarrow> 's \<Rightarrow> int \<times> 's" where
  "run_action action [] s = (0, s)"
| "run_action action (e # es) s =
     (let (error, s) = action (fst e) (snd e) s in if error \<noteq> 0 then (error, s) else run_action action es s)"

lemma run_action_append:
  "run_action action (xs @ ys) s =
     (let (error, s) = run_action action xs s in if error \<noteq> 0 then (error, s) else run_action action ys s)"
  by (induction xs arbitrary: s) (auto simp: Let_def split: prod.split)

lemma tree_walk_correct:
  "tree_walk t action arg visit =
     run_action action (case visit of Left_root_right \<Rightarrow> tree_dict t | Right_root_left \<Rightarrow> rev (tree_dict t)) arg"
proof -
  have "tree_walk_left_root_right action u s = run_action action (entries u) s" for u s
    by (induction u arbitrary: s) (auto simp: run_action_append info_def Let_def split: prod.split)
  moreover have "tree_walk_right_root_left action u s = run_action action (rev (entries u)) s" for u s
    by (induction u arbitrary: s) (auto simp: run_action_append info_def Let_def split: prod.split)
  ultimately show ?thesis by (simp add: tree_walk_def split: tree_walk_order.split)
qed

text \<open>Freeing the tree frees each key once, in order.\<close>

lemma delete_tree_element_calls:
  "delete_tree_element fr u = (if fr then map (\<lambda>e. Free_free (fst e)) (entries u) else [])"
  by (induction u) (auto simp: info_def)

lemma free_tree_correct:
  "free_tree t = (t\<lparr>troot := Null, elements_in_tree := 0, allocated := 0\<rparr>,
     if has_free t then
       (if \<not> with_delete t \<and> memory_limit t \<noteq> 0 then [Free_init] else []) @
       map (\<lambda>e. Free_free (fst e)) (tree_dict t) @
       (if \<not> with_delete t \<and> memory_limit t \<noteq> 0 then [Free_end] else [])
     else [])"
  by (simp add: free_tree_def delete_tree_element_calls)

lemma init_tree_correct:
  assumes "total_cmp (cmp arg)"
  shows "tree_wf (init_tree asize limit sz cmp wdel fr arg t)" "tree_dict (init_tree asize limit sz cmp wdel fr arg t) = []"
    "tree_cmp (init_tree asize limit sz cmp wdel fr arg t) = cmp arg"
    "with_delete (init_tree asize limit sz cmp wdel fr arg t) = wdel"
    "memory_limit (init_tree asize limit sz cmp wdel fr arg t) = limit"
  using assms by (simp_all add: init_tree_def Let_def tree_wf_def rb_tree_def key_sorted_def)

subsection \<open>The contract\<close>

definition tree_ins :: "('k, 'a) TREE \<Rightarrow> 'k \<Rightarrow> ('k, 'a) TREE option" where
  "tree_ins t key = map_option fst (tree_insert (\<lambda>_. True) t key 0)"

definition tree_del :: "('k, 'a) TREE \<Rightarrow> 'k \<Rightarrow> (('k, 'a) TREE \<times> bool) option" where
  "tree_del t key = map_option (\<lambda>(t, calls, r). (t, r \<noteq> 0)) (tree_delete t key)"

interpretation rb: counting_dict
  "\<lambda>t. tree_wf t \<and> length (tree_dict t) \<le> tree_room \<and> with_delete t \<and> memory_limit t = 0 \<and> tree_cmp t = cmp"
  tree_dict tree_ins tree_del tree_search cmp tree_room
  for cmp
proof
  fix t :: "('a, 'b) TREE" and k
  assume t: "tree_wf t \<and> length (tree_dict t) \<le> tree_room \<and> with_delete t \<and> memory_limit t = 0 \<and> tree_cmp t = cmp"
  then have wf: "tree_wf t" and room: "length (tree_dict t) \<le> tree_room" and wd: "with_delete t" by simp_all
  show "\<exists>t'. tree_ins t k = Some t' \<and>
      (tree_wf t' \<and> length (tree_dict t') \<le> tree_room \<and> with_delete t' \<and> memory_limit t' = 0 \<and> tree_cmp t' = cmp) \<and>
      tree_dict t' = ins_entry cmp k (tree_dict t)" if "length (tree_dict t) < tree_room"
    using tree_insert_correct [OF wf room, of "\<lambda>_. True" k 0] t that ins_entry_length [of cmp k "tree_dict t"]
    by (auto simp: tree_ins_def)
  have "length (del_entry cmp k (tree_dict t)) \<le> length (tree_dict t)" by (simp add: del_entry_def)
  then show "\<exists>t'. tree_del t k = Some (t', \<forall>e \<in> set (tree_dict t). cmp (fst e) k \<noteq> 0) \<and>
      (tree_wf t' \<and> length (tree_dict t') \<le> tree_room \<and> with_delete t' \<and> memory_limit t' = 0 \<and> tree_cmp t' = cmp) \<and>
      tree_dict t' = del_entry cmp k (tree_dict t)"
    using tree_delete_correct [OF wf room wd, of k] t by (auto simp: tree_del_def tree_has_def)
  show "tree_search t k = map_option fst (find (\<lambda>e. cmp (fst e) k = 0) (tree_dict t))"
    using tree_search_correct [OF wf, of k] t by simp
  show "total_cmp cmp \<and> key_sorted cmp (tree_dict t)" using t by (auto simp: tree_wf_def)
qed

subsection \<open>An example\<close>

definition ex_tree :: "(int, unit) TREE" where
  "ex_tree = init_tree 0 0 8 (\<lambda>_ a b. a - b) True False ()
     \<lparr>troot = Null, offset_to_key = 0, elements_in_tree = 0, size_of_element = 0, memory_limit = 0, allocated = 0,
      compare = (\<lambda>_ _ _. 0), custom_arg = (), mem_root_block = 0, mem_root_min = 0, with_delete = False, has_free = False\<rparr>"

lemma ex_cmp_total: "total_cmp (\<lambda>a b :: int. a - b)"
  by (auto simp: total_cmp_def)

lemma ex_tree_wf: "tree_wf ex_tree" "tree_dict ex_tree = []" "compare ex_tree () = (\<lambda>a b. a - b)" "with_delete ex_tree"
  "memory_limit ex_tree = 0"
  using init_tree_correct [of "\<lambda>_ a b :: int. a - b" "()"] ex_cmp_total by (simp_all add: ex_tree_def)

end
