(* ===== verification/HeapBlockSpec.thy ===== *)
theory HeapBlockSpec
  imports HeapBlock
begin

text \<open>
  Where the structures of an \<open>HP_BLOCK\<close> lie. The tree with \<open>n\<close> chunks is the one in which the
  node of level \<open>i\<close> with index \<open>m\<close> has the data blocks \<open>m * 128 ^ i\<close> up to
  \<open>(m + 1) * 128 ^ i\<close> below it; \<open>node_at i m\<close> is its address, \<open>node_at 0 m\<close> that of a data block.
\<close>

subsection \<open>How often 128 divides a number\<close>

fun val128 :: "nat \<Rightarrow> nat" where
  "val128 n = (if n = 0 \<or> n mod 128 \<noteq> 0 then 0 else Suc (val128 (n div 128)))"

declare val128.simps [simp del]

lemma val128_dvd: "0 < n \<Longrightarrow> 128 ^ i dvd n \<longleftrightarrow> i \<le> val128 n"
proof (induction n arbitrary: i rule: val128.induct)
  case (1 n)
  show ?case
  proof (cases "n mod 128 = 0")
    case False
    then have v: "val128 n = 0" by (simp add: val128.simps [of n])
    have "\<not> 128 ^ i dvd n" if "0 < i"
    proof
      assume "128 ^ i dvd n"
      with that have "128 dvd n" by (metis dvd_power dvd_trans)
      with False show False by (simp add: dvd_eq_mod_eq_0)
    qed
    with v show ?thesis by (cases "i = 0") auto
  next
    case True
    then obtain q where q: "n = 128 * q" by auto
    with 1(2) have q0: "0 < q" by simp
    have v: "val128 n = Suc (val128 q)" using True 1(2) by (subst val128.simps) (simp add: q)
    have IH: "128 ^ i dvd q \<longleftrightarrow> i \<le> val128 q" for i using 1(1) [of i] True 1(2) q0 by (simp add: q)
    show ?thesis
    proof (cases i)
      case (Suc k)
      then have "128 ^ i dvd n \<longleftrightarrow> 128 ^ k dvd q" by (simp add: q)
      with IH v Suc show ?thesis by simp
    qed simp
  qed
qed

lemma val128_pow: "val128 (128 ^ k) = k"
proof -
  have "i \<le> val128 (128 ^ k) \<longleftrightarrow> i \<le> k" for i
    using val128_dvd [of "128 ^ k" i] by (simp add: dvd_power_iff_le)
  from this [of k] this [of "val128 (128 ^ k)"] show ?thesis by simp
qed

text \<open>The digit at place \<open>k\<close> of the number of the last of \<open>n\<close> chunks.\<close>

lemma last_digit:
  assumes n: "0 < n" and k: "128 ^ k dvd n"
  shows "128 ^ Suc k dvd n \<Longrightarrow> (n - 1) div 128 ^ k mod 128 = 127"
    and "\<not> 128 ^ Suc k dvd n \<Longrightarrow> (n - 1) div 128 ^ k mod 128 < 127"
    and "\<not> 128 ^ Suc k dvd n \<Longrightarrow> Suc ((n - 1) div 128 ^ k mod 128) = n div 128 ^ k mod 128"
    and "\<not> 128 ^ Suc k dvd n \<Longrightarrow> (n - 1) div 128 ^ Suc k = n div 128 ^ Suc k"
proof -
  obtain q where q: "n = 128 ^ k * q" using k by auto
  with n have q0: "0 < q" by simp
  have d: "(n - 1) div 128 ^ k = q - 1"
  proof (rule div_nat_eqI)
    obtain r where r: "q = Suc r" using q0 by (cases q) auto
    have "(1 :: nat) \<le> 128 ^ k" by simp
    then show "128 ^ k * (q - 1) \<le> n - 1" "n - 1 < 128 ^ k * Suc (q - 1)"
      unfolding q r diff_Suc_1 mult_Suc_right by linarith+
  qed
  have e: "128 ^ Suc k dvd n \<longleftrightarrow> q mod 128 = 0" using n by (simp add: q dvd_eq_mod_eq_0 mult.commute [of 128])
  have nq: "n div 128 ^ k = q" by (simp add: q)
  have s: "x div 128 ^ Suc k = x div 128 ^ k div 128" for x :: nat
    unfolding power_Suc2 by (rule div_mult2_eq)
  obtain r where r: "q = Suc r" using q0 by (cases q) auto
  then have d': "(n - 1) div 128 ^ k = r" using d by simp
  note m = mod_Suc [of r 128] div_Suc [of r 128]
  show "128 ^ Suc k dvd n \<Longrightarrow> (n - 1) div 128 ^ k mod 128 = 127"
    unfolding e d' r using m by (simp split: if_splits)
  assume "\<not> 128 ^ Suc k dvd n"
  then have ne: "Suc r mod 128 \<noteq> 0" unfolding e r .
  then have "Suc (r mod 128) \<noteq> 128" using m by auto
  then show "(n - 1) div 128 ^ k mod 128 < 127" unfolding d' using mod_less_divisor [of 128 r] by linarith
  show "Suc ((n - 1) div 128 ^ k mod 128) = n div 128 ^ k mod 128"
    unfolding d' nq r using m ne by (simp split: if_splits)
  show "(n - 1) div 128 ^ Suc k = n div 128 ^ Suc k"
    unfolding s d' nq r using m ne by (simp split: if_splits)
qed

subsection \<open>Addresses\<close>

definition node_at :: "nat \<Rightarrow> nat \<Rightarrow> blkptr" where
  "node_at i m =
     (if m = 0 then (if i = 0 then (0, 0) else (128 ^ (i - 1), 0))
      else (m * 128 ^ i, val128 (m * 128 ^ i) - i + (if m * 128 ^ i = 128 ^ val128 (m * 128 ^ i) then 1 else 0)))"

lemma node_at_data: "fst (node_at 0 m) = m"
  by (simp add: node_at_def)

lemma node_at_of:
  assumes "0 < n" "i \<le> val128 n"
  shows "node_at i (n div 128 ^ i) = (n, val128 n - i + (if n = 128 ^ val128 n then 1 else 0))"
proof -
  have "128 ^ i dvd n" using assms by (simp add: val128_dvd)
  then have "n div 128 ^ i * 128 ^ i = n" "n div 128 ^ i \<noteq> 0" using assms(1) by auto
  then show ?thesis by (simp add: node_at_def)
qed

lemma node_at_inj:
  assumes eq: "node_at i m = node_at i' m'" and i: "1 \<le> i" "1 \<le> i'"
  shows "i = i' \<and> m = m'"
proof -
  have v: "j \<le> val128 (k * 128 ^ j)" if "k \<noteq> 0" for j k
    using that val128_dvd [of "k * 128 ^ j" j] by simp
  have mixed: False if "node_at j 0 = node_at j' k" "1 \<le> j" "k \<noteq> 0" for j j' k
  proof -
    have "128 ^ (j - 1) = k * 128 ^ j'" using that by (simp add: node_at_def)
    with that have "k * 128 ^ j' = 128 ^ val128 (k * 128 ^ j')" by (metis val128_pow)
    with that show False by (simp add: node_at_def)
  qed
  show ?thesis
  proof (cases "m = 0")
    case True
    then show ?thesis
      using eq i mixed [of i i' m'] by (cases "m' = 0") (auto simp: node_at_def)
  next
    case False
    have m': "m' \<noteq> 0" using eq i(2) False mixed [of i' i m] by metis
    from m' False eq have c: "m * 128 ^ i = m' * 128 ^ i'" by (simp add: node_at_def)
    with eq False m' have "val128 (m * 128 ^ i) - i = val128 (m * 128 ^ i) - i'" by (simp add: node_at_def)
    then have "i = i'" using v [OF False, of i] v [OF m', of i'] c by simp
    with c show ?thesis by simp
  qed
qed

lemma node_at_chunk:
  assumes "m * 128 ^ i < n" "m = 0 \<Longrightarrow> i \<noteq> 0 \<Longrightarrow> 128 ^ (i - 1) < n"
  shows "fst (node_at i m) < n"
  using assms by (auto simp: node_at_def)

subsection \<open>The invariant\<close>

definition level_ok :: "HP_BLOCK \<Rightarrow> nat \<Rightarrow> bool" where
  "level_ok b i \<longleftrightarrow>
     free_ptrs_in_block (level_infos b ! i) = (if i = 0 then 0 else 127 - (chunks b - 1) div 128 ^ (i - 1) mod 128) \<and>
     last_blocks (level_infos b ! i) = Some (node_at i ((chunks b - 1) div 128 ^ i))"

definition node_ok :: "nat \<Rightarrow> (blkptr \<rightharpoonup> (nat \<rightharpoonup> blkptr)) \<Rightarrow> nat \<Rightarrow> nat \<Rightarrow> bool" where
  "node_ok n ptrs i m \<longleftrightarrow> (\<exists>bl. ptrs (node_at i m) = Some bl \<and>
     (\<forall>j < 128. (m * 128 + j) * 128 ^ (i - 1) < n \<longrightarrow> bl j = Some (node_at (i - 1) (m * 128 + j))))"

definition tree_levels :: "nat \<Rightarrow> nat \<Rightarrow> bool" where
  "tree_levels lv n \<longleftrightarrow> 0 < lv \<and> 0 < n \<and> n \<le> 128 ^ (lv - 1) \<and> (2 \<le> lv \<longrightarrow> 128 ^ (lv - 2) < n)"

text \<open>
  How many chunks a tree can have: \<open>records_under_level\<close> has 32 bits, so the last level cannot be
  used where the blocks are large.
\<close>

definition block_cap :: "nat \<Rightarrow> nat" where
  "block_cap rib = (if rib * 128 ^ 3 < 2 ^ 32 then 128 ^ 4 else 128 ^ 3)"

definition max_cells :: "nat \<Rightarrow> nat" where
  "max_cells rib = block_cap rib * rib"

lemma block_cap_pos: "Suc 0 \<le> block_cap rib"
  by (simp add: block_cap_def)

lemma block_cap_le: "block_cap rib \<le> 128 ^ 4"
  by (simp add: block_cap_def)

lemma level_below_cap:
  assumes "tree_levels lv n" "n \<le> block_cap rib" "i < lv"
  shows "128 ^ i \<le> block_cap rib"
proof -
  obtain c where c: "block_cap rib = 128 ^ c" by (metis block_cap_def)
  have "lv - 1 \<le> c"
  proof (cases "2 \<le> lv")
    case True
    with assms(1) have "128 ^ (lv - 2) < n" by (simp only: tree_levels_def)
    also have "n \<le> 128 ^ c" using assms(2) unfolding c .
    finally have "(128 :: nat) ^ (lv - 2) < 128 ^ c" .
    then have "lv - 2 < c" by simp
    then show ?thesis by simp
  qed simp
  with assms(3) have "i \<le> c" by simp
  then show ?thesis unfolding c by (rule power_increasing) simp
qed

definition block_wf :: "HP_BLOCK \<Rightarrow> bool" where
  "block_wf b \<longleftrightarrow> length (level_infos b) = HP_MAX_LEVELS + 1 \<and> 0 < records_in_block b \<and>
     (\<forall>i \<le> HP_MAX_LEVELS. 128 ^ i \<le> block_cap (records_in_block b) \<longrightarrow> records_under_level (level_infos b ! i) =
        (if i = 0 then 1 else records_in_block b * 128 ^ (i - 1))) \<and>
     free_ptrs_in_block (level_infos b ! 0) = 0 \<and> chunks b \<le> block_cap (records_in_block b) \<and>
     (if chunks b = 0 then levels b = 0
      else tree_levels (levels b) (chunks b) \<and> levels b \<le> HP_MAX_LEVELS + 1 \<and>
        hb_root b = Some (node_at (levels b - 1) 0) \<and> (\<forall>i < levels b. level_ok b i) \<and>
        (\<forall>i m. 1 \<le> i \<longrightarrow> i < levels b \<longrightarrow> m * 128 ^ i < chunks b \<longrightarrow> node_ok (chunks b) (hp_ptrs b) i m))"

lemma block_wfD:
  assumes "block_wf b"
  shows "length (level_infos b) = 5" "0 < records_in_block b" "free_ptrs_in_block (level_infos b ! 0) = 0"
    "i < 5 \<Longrightarrow> 128 ^ i \<le> block_cap (records_in_block b) \<Longrightarrow> records_under_level (level_infos b ! i) = (if i = 0 then 1 else records_in_block b * 128 ^ (i - 1))"
    "chunks b \<le> block_cap (records_in_block b)" "chunks b = 0 \<Longrightarrow> levels b = 0"
    "chunks b \<noteq> 0 \<Longrightarrow> tree_levels (levels b) (chunks b)" "levels b \<le> 5"
    "chunks b \<noteq> 0 \<Longrightarrow> hb_root b = Some (node_at (levels b - 1) 0)"
    "chunks b \<noteq> 0 \<Longrightarrow> i < levels b \<Longrightarrow> level_ok b i"
    "chunks b \<noteq> 0 \<Longrightarrow> 1 \<le> i \<Longrightarrow> i < levels b \<Longrightarrow> m * 128 ^ i < chunks b \<Longrightarrow> node_ok (chunks b) (hp_ptrs b) i m"
proof -
  have le: "i < 5 \<Longrightarrow> i \<le> 4" by simp
  note w = assms [unfolded block_wf_def HP_MAX_LEVELS_def]
  from w have "length (level_infos b) = 4 + 1" by (elim conjE) assumption
  then show "length (level_infos b) = 5" by simp
  from w show "0 < records_in_block b" by (elim conjE) assumption
  from w show "free_ptrs_in_block (level_infos b ! 0) = 0" by (elim conjE) assumption
  from w show "chunks b \<le> block_cap (records_in_block b)" by (elim conjE) assumption
  from w have u: "\<forall>i \<le> 4. 128 ^ i \<le> block_cap (records_in_block b) \<longrightarrow> records_under_level (level_infos b ! i) = (if i = 0 then 1 else records_in_block b * 128 ^ (i - 1))"
    by (elim conjE) assumption
  show "i < 5 \<Longrightarrow> 128 ^ i \<le> block_cap (records_in_block b) \<Longrightarrow> records_under_level (level_infos b ! i) = (if i = 0 then 1 else records_in_block b * 128 ^ (i - 1))"
    using u le by blast
  from w have c: "if chunks b = 0 then levels b = 0
      else tree_levels (levels b) (chunks b) \<and> levels b \<le> 4 + 1 \<and>
        hb_root b = Some (node_at (levels b - 1) 0) \<and> (\<forall>i < levels b. level_ok b i) \<and>
        (\<forall>i m. 1 \<le> i \<longrightarrow> i < levels b \<longrightarrow> m * 128 ^ i < chunks b \<longrightarrow> node_ok (chunks b) (hp_ptrs b) i m)"
    by (elim conjE) assumption
  show "chunks b = 0 \<Longrightarrow> levels b = 0" using c by (simp only: if_True)
  have five: "4 + 1 = (5 :: nat)" by simp
  show "levels b \<le> 5"
  proof (cases "chunks b = 0")
    case True
    with c have "levels b = 0" by (simp only: if_True)
    then show ?thesis by simp
  qed (use c [unfolded five] in \<open>simp only: if_False\<close>)
  assume n: "chunks b \<noteq> 0"
  note c = c [unfolded if_not_P [OF n]]
  from c show "tree_levels (levels b) (chunks b)" by (elim conjE)
  from c show "hb_root b = Some (node_at (levels b - 1) 0)" by (elim conjE)
  from c show "i < levels b \<Longrightarrow> level_ok b i" by (elim conjE) blast
  from c show "1 \<le> i \<Longrightarrow> i < levels b \<Longrightarrow> m * 128 ^ i < chunks b \<Longrightarrow> node_ok (chunks b) (hp_ptrs b) i m"
    by (elim conjE) blast
qed

text \<open>The address of the cell at a position, and how many positions there are.\<close>

definition cell_addr :: "nat \<Rightarrow> nat \<Rightarrow> haddr" where
  "cell_addr rib pos = (node_at 0 (pos div rib), pos mod rib)"

lemma cell_addr_inj: "cell_addr rib p = cell_addr rib q \<Longrightarrow> p = q"
proof -
  assume "cell_addr rib p = cell_addr rib q"
  then have "p mod rib = q mod rib" "node_at 0 (p div rib) = node_at 0 (q div rib)" by (simp_all add: cell_addr_def)
  moreover from this(2) have "p div rib = q div rib" by (metis node_at_data)
  ultimately have "p div rib * rib + p mod rib = q div rib * rib + q mod rib" by simp
  then show "p = q" by simp
qed

lemma inj_cell_addr: "inj (cell_addr rib)"
  by (rule injI) (rule cell_addr_inj)

definition room :: "HP_BLOCK \<Rightarrow> nat" where
  "room b = chunks b * records_in_block b"

subsection \<open>Finding a cell\<close>

lemma find_from_node:
  assumes wf: "block_wf b" and n: "chunks b \<noteq> 0"
  shows "i < levels b \<Longrightarrow> pos < records_in_block b * 128 ^ i \<Longrightarrow> m * 128 ^ i + pos div records_in_block b < chunks b \<Longrightarrow>
    find_from b i (Some (node_at i m)) pos = Some (node_at 0 (m * 128 ^ i + pos div records_in_block b), pos mod records_in_block b)"
proof (induction i arbitrary: m pos)
  case 0
  then show ?case by simp
next
  case (Suc i)
  let ?r = "records_in_block b" and ?u = "records_in_block b * 128 ^ i"
  let ?j = "pos div ?u" and ?q = "pos mod ?u"
  note lv = block_wfD(8,1,2) [OF wf]
  have u: "level_at b (Suc i) = Some (level_infos b ! Suc i)" "records_under_level (level_infos b ! Suc i) = ?u"
  proof -
    have "Suc i < 5" using Suc.prems(1) lv(1) by linarith
    moreover have "128 ^ Suc i \<le> block_cap ?r"
      by (rule level_below_cap [OF block_wfD(7) [OF wf n] block_wfD(5) [OF wf] Suc.prems(1)])
    ultimately show "level_at b (Suc i) = Some (level_infos b ! Suc i)" "records_under_level (level_infos b ! Suc i) = ?u"
      using block_wfD(4) [OF wf, of "Suc i"] lv(2) by (simp_all only: level_at_def if_True nat.distinct if_False diff_Suc_1)
  qed
  have j: "?j < 128" using Suc.prems(2) lv(3) by (intro less_mult_imp_div_less) (simp add: algebra_simps)
  have pos: "pos = ?j * 128 ^ i * ?r + ?q" using div_mult_mod_eq [of pos ?u] by (simp add: algebra_simps)
  have dv: "pos div ?r = ?j * 128 ^ i + ?q div ?r" "pos mod ?r = ?q mod ?r"
    using lv(3) by (subst pos; simp)+
  have c: "(m * 128 + ?j) * 128 ^ i + ?q div ?r = m * 128 ^ Suc i + pos div ?r"
    by (simp add: dv(1) algebra_simps)
  have "m * 128 ^ Suc i < chunks b" using Suc.prems(3) by simp
  then have "node_ok (chunks b) (hp_ptrs b) (Suc i) m"
    using Suc.prems(1) by (intro block_wfD(11) [OF wf n]) simp_all
  moreover have "(m * 128 + ?j) * 128 ^ i < chunks b" using Suc.prems(3) c by linarith
  ultimately obtain bl where bl: "hp_ptrs b (node_at (Suc i) m) = Some bl" "bl ?j = Some (node_at i (m * 128 + ?j))"
    using j by (auto simp: node_ok_def)
  have "find_from b (Suc i) (Some (node_at (Suc i) m)) pos = find_from b i (Some (node_at i (m * 128 + ?j))) ?q"
    by (simp add: bl u)
  also have "\<dots> = Some (node_at 0 ((m * 128 + ?j) * 128 ^ i + ?q div ?r), ?q mod ?r)"
    using Suc.prems c lv(3) by (intro Suc.IH) (simp_all add: algebra_simps)
  finally show ?case unfolding c by (simp add: dv(2))
qed

lemma hp_find_block_correct:
  assumes wf: "block_wf b" and pos: "pos < room b"
  shows "hp_find_block b pos = Some (cell_addr (records_in_block b) pos)"
proof -
  have r: "0 < records_in_block b" "chunks b \<noteq> 0" using block_wfD(2) [OF wf] pos by (auto simp: room_def intro: gr0I)
  have d: "pos div records_in_block b < chunks b"
    using pos r(1) by (intro less_mult_imp_div_less) (simp add: room_def)
  have lv: "0 < levels b" "chunks b \<le> 128 ^ (levels b - 1)" "hb_root b = Some (node_at (levels b - 1) 0)"
    using block_wfD(7,9) [OF wf r(2)] by (simp_all add: tree_levels_def)
  have "pos < records_in_block b * 128 ^ (levels b - 1)"
    using pos mult_le_mono1 [OF lv(2), of "records_in_block b"]
    by (simp only: room_def mult.commute [of "records_in_block b"])
  with find_from_node [OF wf r(2), of "levels b - 1" pos 0] lv d show ?thesis
    by (simp add: hp_find_block_def cell_addr_def)
qed

subsection \<open>Allocation\<close>

lemma new_path_correct:
  assumes "v < length (level_infos b)"
  shows "\<exists>li. new_path v n k b = Some (b\<lparr>level_infos := li,
      hp_ptrs := (\<lambda>p. if fst p = n \<and> k \<le> snd p \<and> snd p < k + v then Some [0 \<mapsto> (n, snd p + 1)] else hp_ptrs b p)\<rparr>, (n, k + v)) \<and>
    length li = length (level_infos b) \<and>
    (\<forall>j. li ! j = (if 1 \<le> j \<and> j \<le> v
       then (level_infos b ! j)\<lparr>last_blocks := Some (n, k + v - j), free_ptrs_in_block := 127\<rparr> else level_infos b ! j))"
  using assms
proof (induction v arbitrary: k b)
  case 0
  have "(\<lambda>p. if fst p = n \<and> k \<le> snd p \<and> snd p < k + 0 then Some [0 \<mapsto> (n, snd p + 1)] else hp_ptrs b p) = hp_ptrs b"
    by (rule ext) auto
  then show ?case by (intro exI [of _ "level_infos b"]) auto
next
  case (Suc v)
  let ?li = "(level_infos b)[Suc v := (level_infos b ! Suc v)\<lparr>last_blocks := Some (n, k), free_ptrs_in_block := 127\<rparr>]"
  let ?b = "b\<lparr>level_infos := ?li, hp_ptrs := (hp_ptrs b)((n, k) \<mapsto> [0 \<mapsto> (n, k + 1)])\<rparr>"
  obtain li where li: "new_path v n (k + 1) ?b = Some (?b\<lparr>level_infos := li,
      hp_ptrs := (\<lambda>p. if fst p = n \<and> k + 1 \<le> snd p \<and> snd p < k + 1 + v then Some [0 \<mapsto> (n, snd p + 1)] else hp_ptrs ?b p)\<rparr>, (n, k + 1 + v))"
    "length li = length (level_infos ?b)"
    "\<forall>j. li ! j = (if 1 \<le> j \<and> j \<le> v
       then (level_infos ?b ! j)\<lparr>last_blocks := Some (n, k + 1 + v - j), free_ptrs_in_block := 127\<rparr> else level_infos ?b ! j)"
    using Suc.IH [of ?b "k + 1"] Suc.prems by auto
  have run: "new_path (Suc v) n k b = new_path v n (k + 1) ?b"
    using Suc.prems by (simp add: set_level_def HP_PTRS_IN_NOD_def)
  have ptrs: "(\<lambda>p. if fst p = n \<and> k + 1 \<le> snd p \<and> snd p < k + 1 + v then Some [0 \<mapsto> (n, snd p + 1)] else hp_ptrs ?b p) =
      (\<lambda>p. if fst p = n \<and> k \<le> snd p \<and> snd p < k + Suc v then Some [0 \<mapsto> (n, snd p + 1)] else hp_ptrs b p)"
    by (rule ext) (auto simp: prod_eq_iff)
  show ?case
  proof (intro exI [of _ li] conjI)
    show "new_path (Suc v) n k b = Some (b\<lparr>level_infos := li,
      hp_ptrs := (\<lambda>p. if fst p = n \<and> k \<le> snd p \<and> snd p < k + Suc v then Some [0 \<mapsto> (n, snd p + 1)] else hp_ptrs b p)\<rparr>, (n, k + Suc v))"
      unfolding run li(1) ptrs by simp
    show "length li = length (level_infos b)" using li(2) by simp
    show "\<forall>j. li ! j = (if 1 \<le> j \<and> j \<le> Suc v
       then (level_infos b ! j)\<lparr>last_blocks := Some (n, k + Suc v - j), free_ptrs_in_block := 127\<rparr> else level_infos b ! j)"
    proof
      fix j
      show "li ! j = (if 1 \<le> j \<and> j \<le> Suc v
       then (level_infos b ! j)\<lparr>last_blocks := Some (n, k + Suc v - j), free_ptrs_in_block := 127\<rparr> else level_infos b ! j)"
        using li(3) [rule_format, of j] Suc.prems by (cases "j = Suc v") auto
    qed
  qed
qed

lemma val128_levels:
  assumes "tree_levels lv n"
  shows "val128 n < lv" "val128 n = lv - 1 \<longleftrightarrow> n = 128 ^ (lv - 1)" "n = 128 ^ val128 n \<longleftrightarrow> n = 128 ^ (lv - 1)"
proof -
  from assms have a: "0 < lv" "0 < n" "n \<le> 128 ^ (lv - 1)" "2 \<le> lv \<Longrightarrow> 128 ^ (lv - 2) < n" by (simp_all add: tree_levels_def)
  have d: "128 ^ val128 n dvd n" using a(2) by (simp add: val128_dvd)
  then have "(128 :: nat) ^ val128 n \<le> 128 ^ (lv - 1)" using a(2,3) by (meson dvd_imp_le le_trans)
  then have v: "val128 n \<le> lv - 1" by simp
  then show "val128 n < lv" using a(1) by simp
  show e: "val128 n = lv - 1 \<longleftrightarrow> n = 128 ^ (lv - 1)"
    using d a(2,3) val128_pow [of "lv - 1"] by (metis dvd_imp_le le_antisym)
  show "n = 128 ^ val128 n \<longleftrightarrow> n = 128 ^ (lv - 1)"
  proof
    assume n: "n = 128 ^ val128 n"
    show "n = 128 ^ (lv - 1)"
    proof (rule ccontr)
      assume "n \<noteq> 128 ^ (lv - 1)"
      with e v have "val128 n < lv - 1" by simp
      then have "(128 :: nat) ^ val128 n \<le> 128 ^ (lv - 2)" "2 \<le> lv" by (simp_all add: power_increasing)
      with a(4) n show False by linarith
    qed
  qed (metis val128_pow)
qed

lemma free_level_correct:
  assumes wf: "block_wf b" and n: "chunks b \<noteq> 0"
  shows "free_level b = val128 (chunks b) + 1"
proof -
  let ?n = "chunks b" and ?v = "val128 (chunks b)" and ?xs = "take (levels b) (level_infos b)"
  have tl: "tree_levels (levels b) ?n" by (rule block_wfD(7) [OF wf n])
  have len: "length ?xs = levels b" using block_wfD(1,8) [OF wf] by simp
  have n0: "0 < ?n" using n by simp
  have fp: "free_ptrs_in_block (?xs ! i) = (if i = 0 then 0 else 127 - (?n - 1) div 128 ^ (i - 1) mod 128)" if "i < levels b" for i
    using block_wfD(10) [OF wf n that] that by (simp add: level_ok_def)
  have zero: "free_ptrs_in_block (?xs ! i) = 0" if "i \<le> ?v" "i < levels b" for i
  proof (cases i)
    case (Suc k)
    with that have "128 ^ k dvd ?n" "128 ^ Suc k dvd ?n" by (simp_all only: val128_dvd [OF n0])
    with last_digit(1) [OF n0] Suc fp [OF that(2)] show ?thesis by simp
  qed (use fp that in simp)
  have pos: "free_ptrs_in_block (?xs ! Suc ?v) \<noteq> 0" if "Suc ?v < levels b"
  proof -
    have "128 ^ ?v dvd ?n" "\<not> 128 ^ Suc ?v dvd ?n" by (simp_all only: val128_dvd [OF n0])
    from last_digit(2) [OF n0 this] fp [OF that] show ?thesis by simp
  qed
  have vl: "?v < levels b" by (rule val128_levels(1) [OF tl])
  have "length (takeWhile (\<lambda>l. free_ptrs_in_block l = 0) ?xs) = Suc ?v"
  proof (cases "Suc ?v < levels b")
    case True
    have "takeWhile (\<lambda>l. free_ptrs_in_block l = 0) ?xs = take (Suc ?v) ?xs"
      using True pos zero len by (intro takeWhile_eq_take_P_nth) auto
    then show ?thesis using True len by simp
  next
    case False
    with vl have lv: "levels b = Suc ?v" by simp
    have tw: "takeWhile (\<lambda>l. free_ptrs_in_block l = 0) ?xs = ?xs"
      using zero len lv by (subst takeWhile_eq_all_conv) (auto simp: in_set_conv_nth)
    show ?thesis by (simp only: tw len) (rule lv)
  qed
  then show ?thesis by (simp add: free_level_def)
qed

text \<open>The node of a level that gets the new chunk, and the place of the chunk in it.\<close>

lemma node_ok_step:
  assumes ok: "node_ok n ptrs i m" and i: "1 \<le> i" and q: "val128 n = v" "0 < n"
    and same: "\<And>bl. ptrs (node_at i m) = Some bl \<Longrightarrow> ptrs' (node_at i m) =
       Some (if i = v + 1 \<and> m = n div 128 ^ (v + 1) then bl(n div 128 ^ v mod 128 \<mapsto> node_at v (n div 128 ^ v)) else bl)"
    and lt: "m * 128 ^ i < n"
  shows "node_ok (n + 1) ptrs' i m"
proof -
  obtain bl where bl: "ptrs (node_at i m) = Some bl"
    "\<And>j. j < 128 \<Longrightarrow> (m * 128 + j) * 128 ^ (i - 1) < n \<Longrightarrow> bl j = Some (node_at (i - 1) (m * 128 + j))"
    using ok by (auto simp: node_ok_def)
  let ?bl = "if i = v + 1 \<and> m = n div 128 ^ (v + 1) then bl(n div 128 ^ v mod 128 \<mapsto> node_at v (n div 128 ^ v)) else bl"
  obtain k where k: "i = Suc k" using i by (cases i) auto
  have "?bl j = Some (node_at (i - 1) (m * 128 + j))" if j: "j < 128" "(m * 128 + j) * 128 ^ (i - 1) < n + 1" for j
  proof (cases "(m * 128 + j) * 128 ^ k = n")
    case True
    then have "128 ^ k dvd n" by (metis dvd_triv_right)
    then have kv: "k \<le> v" using q by (simp add: val128_dvd)
    have dk: "n div 128 ^ k = m * 128 + j" unfolding True [symmetric] by simp
    have "j \<noteq> 0"
    proof
      assume "j = 0"
      with True lt show False by (simp add: k mult.commute mult.left_commute)
    qed
    have "\<not> 128 ^ Suc k dvd n"
    proof
      assume "128 ^ Suc k dvd n"
      then have "128 dvd n div 128 ^ k" by (metis dvd_div_iff_mult dvd_triv_right mult.commute power_Suc True power_not_zero zero_neq_numeral)
      then have "(m * 128 + j) mod 128 = 0" unfolding dk by (rule dvd_imp_mod_0)
      with j(1) \<open>j \<noteq> 0\<close> show False by simp
    qed
    with kv q have "k = v" by (metis Suc_leI le_neq_implies_less val128_dvd)
    moreover have "n div 128 ^ (v + 1) = m"
    proof -
      have "n div 128 ^ (v + 1) = n div 128 ^ v div 128" unfolding Suc_eq_plus1 [symmetric] power_Suc2 by (rule div_mult2_eq)
      then show ?thesis using dk j(1) \<open>k = v\<close> by simp
    qed
    ultimately show ?thesis using dk j(1) by (simp add: k)
  next
    case False
    then have lt': "(m * 128 + j) * 128 ^ (i - 1) < n" using j(2) by (simp add: k)
    have "n div 128 ^ v mod 128 \<noteq> j" if "i = v + 1" "m = n div 128 ^ (v + 1)"
    proof
      assume "n div 128 ^ v mod 128 = j"
      moreover have "n div 128 ^ (v + 1) = n div 128 ^ v div 128" unfolding Suc_eq_plus1 [symmetric] power_Suc2 by (rule div_mult2_eq)
      ultimately have "m * 128 + j = n div 128 ^ v" using that div_mult_mod_eq [of "n div 128 ^ v" 128] by simp
      moreover have "128 ^ v dvd n" using q by (simp add: val128_dvd)
      ultimately have "(m * 128 + j) * 128 ^ v = n" by simp
      with False that k show False by simp
    qed
    with bl(2) [OF j(1) lt'] show ?thesis by auto
  qed
  with same [OF bl(1)] show ?thesis by (auto simp: node_ok_def)
qed

text \<open>
  The tree after an allocation. In the tree before, \<open>ptrs\<close> are the structures that are
  changed: the node that gets the new chunk, and the new ones in the chunk.
\<close>

definition grown_ptrs :: "nat \<Rightarrow> nat \<Rightarrow> (blkptr \<rightharpoonup> (nat \<rightharpoonup> blkptr)) \<Rightarrow> blkptr \<rightharpoonup> (nat \<rightharpoonup> blkptr)" where
  "grown_ptrs n k ptrs = (\<lambda>p. if fst p = n \<and> k \<le> snd p \<and> snd p < k + val128 n then Some [0 \<mapsto> (n, snd p + 1)] else ptrs p)"

lemma grown_levels:
  assumes tl: "tree_levels lv n" and lv: "lv' = (if n = 128 ^ (lv - 1) then lv + 1 else lv)"
  shows "tree_levels lv' (n + 1)"
proof -
  from tl have a: "0 < lv" "0 < n" "n \<le> 128 ^ (lv - 1)" "2 \<le> lv \<Longrightarrow> 128 ^ (lv - 2) < n" by (simp_all add: tree_levels_def)
  show ?thesis
  proof (cases "n = 128 ^ (lv - 1)")
    case True
    have "(128 :: nat) ^ (lv - 1) + 1 \<le> 128 ^ lv"
      using a(1) by (cases lv) simp_all
    with True a(1,2) lv show ?thesis by (simp add: tree_levels_def)
  next
    case False
    with a lv show ?thesis by (auto simp: tree_levels_def)
  qed
qed

lemma node_old:
  assumes tl: "tree_levels lv n" and i: "1 \<le> i" "i < lv" "m * 128 ^ i < n"
  shows "fst (node_at i m) < n"
proof (rule node_at_chunk [OF i(3)])
  have "(128 :: nat) ^ (i - 1) \<le> 128 ^ (lv - 2)" using i by (intro power_increasing) auto
  moreover have "128 ^ (lv - 2) < n" using tl i by (simp add: tree_levels_def)
  ultimately show "128 ^ (i - 1) < n" by (rule le_less_trans)
qed

lemma hp_get_new_block_first:
  assumes wf: "block_wf b" and n: "chunks b = 0" and mem: "mem (records_in_block b * recbuffer b)"
  shows "\<exists>b'. hp_get_new_block mem b = Some (b', records_in_block b * recbuffer b, False) \<and> block_wf b' \<and>
    chunks b' = chunks b + 1 \<and> records_in_block b' = records_in_block b \<and> recbuffer b' = recbuffer b \<and>
    last_allocated b' = last_allocated b \<and> last_blocks (level_infos b' ! 0) = Some (node_at 0 (chunks b))"
proof -
  let ?li = "(level_infos b)[0 := (level_infos b ! 0)\<lparr>last_blocks := Some (0, 0)\<rparr>]"
  let ?b = "b\<lparr>chunks := 1, level_infos := ?li, levels := 1, hb_root := Some (0, 0)\<rparr>"
  have lv: "levels b = 0" by (rule block_wfD(6) [OF wf n])
  note w = block_wfD(1-4) [OF wf]
  have ln: "0 < length (level_infos b)" unfolding w(1) by simp
  have "free_level b = 0" by (simp add: free_level_def lv)
  then have run: "hp_get_new_block mem b = Some (?b, records_in_block b * recbuffer b, False)"
    using n mem ln by (simp add: hp_get_new_block_def set_level_def Let_def)
  have "records_under_level (?li ! i) = (if i = 0 then 1 else records_in_block b * 128 ^ (i - 1))" if "i \<le> 4" "128 ^ i \<le> block_cap (records_in_block b)" for i
    using w(4) [of i] w(1) that by (cases "i = 0") auto
  then have "block_wf ?b"
    using w unfolding block_wf_def level_ok_def HP_MAX_LEVELS_def by (auto simp: tree_levels_def node_at_def block_cap_pos)
  with run n w(1) show ?thesis by (intro exI [of _ ?b]) (simp add: node_at_def)
qed

text \<open>The part of \<open>hp_get_new_block\<close> after the level that grows is known.\<close>

definition attach :: "nat \<Rightarrow> nat \<Rightarrow> nat \<Rightarrow> HP_BLOCK \<Rightarrow> HP_BLOCK option" where
  "attach i c k b =
     do {
       l \<leftarrow> level_at b i;
       q \<leftarrow> last_blocks l;
       blocks \<leftarrow> hp_ptrs b q;
       b \<leftarrow> set_level i (\<lambda>l. l\<lparr>free_ptrs_in_block := free_ptrs_in_block l - 1\<rparr>)
         (b\<lparr>hp_ptrs := (hp_ptrs b)(q \<mapsto> blocks(HP_PTRS_IN_NOD - free_ptrs_in_block l \<mapsto> (c, k)))\<rparr>);
       (b, p) \<leftarrow> new_path (i - 1) c k b;
       set_level 0 (\<lambda>l. l\<lparr>last_blocks := Some p\<rparr>) b
     }"

lemma attach_run:
  assumes v: "val128 n = v" "v + 1 < length (level_infos b)"
    and l: "last_blocks (level_infos b ! (v + 1)) = Some q" "hp_ptrs b q = Some bl"
  shows "\<exists>li. attach (v + 1) n k b = Some (b\<lparr>level_infos := li, hp_ptrs := grown_ptrs n k
      ((hp_ptrs b)(q \<mapsto> bl(128 - free_ptrs_in_block (level_infos b ! (v + 1)) \<mapsto> (n, k))))\<rparr>) \<and>
    length li = length (level_infos b) \<and>
    (\<forall>j. li ! j = (if j = 0 then (level_infos b ! 0)\<lparr>last_blocks := Some (n, k + v)\<rparr>
      else if j \<le> v then (level_infos b ! j)\<lparr>last_blocks := Some (n, k + v - j), free_ptrs_in_block := 127\<rparr>
      else if j = v + 1 then (level_infos b ! j)\<lparr>free_ptrs_in_block := free_ptrs_in_block (level_infos b ! j) - 1\<rparr>
      else level_infos b ! j))"
proof -
  let ?l = "level_infos b ! (v + 1)"
  let ?b = "b\<lparr>hp_ptrs := (hp_ptrs b)(q \<mapsto> bl(128 - free_ptrs_in_block ?l \<mapsto> (n, k))),
     level_infos := (level_infos b)[v + 1 := ?l\<lparr>free_ptrs_in_block := free_ptrs_in_block ?l - 1\<rparr>]\<rparr>"
  obtain li where li: "new_path v n k ?b = Some (?b\<lparr>level_infos := li, hp_ptrs := grown_ptrs n k (hp_ptrs ?b)\<rparr>, (n, k + v))"
    "length li = length (level_infos ?b)"
    "\<forall>j. li ! j = (if 1 \<le> j \<and> j \<le> v
       then (level_infos ?b ! j)\<lparr>last_blocks := Some (n, k + v - j), free_ptrs_in_block := 127\<rparr> else level_infos ?b ! j)"
    using new_path_correct [of v ?b n k] v unfolding grown_ptrs_def by auto
  have "v + 1 < length li" using li(2) v(2) by simp
  then have len: "0 < length li" by linarith
  have "attach (v + 1) n k b = Some (?b\<lparr>level_infos := li[0 := (li ! 0)\<lparr>last_blocks := Some (n, k + v)\<rparr>],
      hp_ptrs := grown_ptrs n k (hp_ptrs ?b)\<rparr>)"
    using l v(2) li(1) len by (simp add: attach_def level_at_def set_level_def HP_PTRS_IN_NOD_def)
  moreover have "(li[0 := (li ! 0)\<lparr>last_blocks := Some (n, k + v)\<rparr>]) ! j =
     (if j = 0 then (level_infos b ! 0)\<lparr>last_blocks := Some (n, k + v)\<rparr>
      else if j \<le> v then (level_infos b ! j)\<lparr>last_blocks := Some (n, k + v - j), free_ptrs_in_block := 127\<rparr>
      else if j = v + 1 then (level_infos b ! j)\<lparr>free_ptrs_in_block := free_ptrs_in_block (level_infos b ! j) - 1\<rparr>
      else level_infos b ! j)" for j
    using li(3) [rule_format, of j] v(2) len by (cases "j = 0") auto
  ultimately show ?thesis
    using li(2) by (intro exI [of _ "li[0 := (li ! 0)\<lparr>last_blocks := Some (n, k + v)\<rparr>]"]) simp
qed

text \<open>What holds when the new chunk is attached: a node with a place for it, the rest as before.\<close>

definition attach_ready :: "HP_BLOCK \<Rightarrow> HP_BLOCK \<Rightarrow> nat \<Rightarrow> (nat \<rightharpoonup> blkptr) \<Rightarrow> bool" where
  "attach_ready b b1 k bl \<longleftrightarrow>
     (let n = chunks b; v = val128 n; i = v + 1; lv = levels b1
      in k = (if n = 128 ^ v then 1 else 0) \<and> i < lv \<and> lv \<le> 5 \<and> tree_levels lv (n + 1) \<and> chunks b1 = n + 1 \<and>
         records_in_block b1 = records_in_block b \<and> recbuffer b1 = recbuffer b \<and> last_allocated b1 = last_allocated b \<and>
         hb_root b1 = Some (node_at (lv - 1) 0) \<and>
         length (level_infos b1) = 5 \<and>
         (\<forall>j \<le> 4. records_under_level (level_infos b1 ! j) = records_under_level (level_infos b ! j)) \<and>
         (\<forall>j. j < lv \<longrightarrow> j \<noteq> i \<longrightarrow> j < levels b \<and> level_infos b1 ! j = level_infos b ! j) \<and>
         last_blocks (level_infos b1 ! i) = Some (node_at i (n div 128 ^ i)) \<and>
         hp_ptrs b1 (node_at i (n div 128 ^ i)) = Some bl \<and>
         free_ptrs_in_block (level_infos b1 ! i) = 128 - n div 128 ^ v mod 128 \<and> n div 128 ^ v mod 128 \<noteq> 0 \<and>
         (\<forall>j m. 1 \<le> j \<longrightarrow> j < lv \<longrightarrow> m * 128 ^ j < n \<longrightarrow> fst (node_at j m) < n \<and> node_ok n (hp_ptrs b1) j m \<or>
            j = i \<and> m = 0 \<and> n = 128 ^ v \<and> bl = [0 \<mapsto> node_at v 0]))"

lemma attach_levels:
  assumes wf: "block_wf b" and n: "chunks b \<noteq> 0" and r: "attach_ready b b1 k bl"
    and li: "length (level_infos b2) = 5" "chunks b2 = chunks b + 1"
      "\<forall>j. level_infos b2 ! j = (if j = 0 then (level_infos b1 ! 0)\<lparr>last_blocks := Some (n, k + v)\<rparr>
      else if j \<le> v then (level_infos b1 ! j)\<lparr>last_blocks := Some (n, k + v - j), free_ptrs_in_block := 127\<rparr>
      else if j = v + 1 then (level_infos b1 ! j)\<lparr>free_ptrs_in_block := free_ptrs_in_block (level_infos b1 ! j) - 1\<rparr>
      else level_infos b1 ! j)"
    and nv: "n = chunks b" "v = val128 n" and j: "j < levels b1"
  shows "level_ok b2 j"
proof -
  have n0: "0 < n" using n nv by simp
  have k: "k = (if n = 128 ^ v then 1 else 0)" using r by (simp add: attach_ready_def Let_def nv)
  have dv: "128 ^ v dvd n" "\<not> 128 ^ Suc v dvd n" by (simp_all only: val128_dvd [OF n0] nv(2))
  consider "j = 0" | "1 \<le> j" "j \<le> v" | "j = v + 1" | "v + 1 < j" by linarith
  then show ?thesis
  proof cases
    case 1
    have "free_ptrs_in_block (level_infos b1 ! 0) = 0"
      using r j 1 block_wfD(3) [OF wf] by (auto simp: attach_ready_def Let_def)
    moreover have "node_at 0 n = (n, k + v)" using node_at_of [of n 0] n0 nv k by simp
    ultimately show ?thesis using 1 li(2,3) nv(1) by (simp add: level_ok_def)
  next
    case 2
    then have "128 ^ j dvd n" by (simp add: val128_dvd [OF n0] nv(2) [symmetric])
    then obtain q where "n = 128 ^ j * q" by auto
    moreover obtain j' where "j = Suc j'" using 2 by (cases j) auto
    ultimately have "n div 128 ^ (j - 1) mod 128 = 0" by (simp add: mult.assoc)
    moreover have "node_at j (n div 128 ^ j) = (n, k + v - j)"
      using node_at_of [of n j] n0 nv k 2 by (simp add: add.commute)
    ultimately show ?thesis using 2 li(2,3) nv(1) by (simp add: level_ok_def)
  next
    case 3
    have f: "free_ptrs_in_block (level_infos b1 ! (v + 1)) = 128 - n div 128 ^ v mod 128"
      "last_blocks (level_infos b1 ! (v + 1)) = Some (node_at (v + 1) (n div 128 ^ (v + 1)))"
      using r by (simp_all add: attach_ready_def Let_def nv)
    then show ?thesis using 3 li(2,3) nv(1) by (simp add: level_ok_def)
  next
    case 4
    then have b: "j < levels b" "level_infos b1 ! j = level_infos b ! j"
      using r j by (auto simp: attach_ready_def Let_def nv)
    have up: "(n - 1) div 128 ^ (Suc v + d) = n div 128 ^ (Suc v + d)" for d
      using last_digit(4) [OF n0 dv] by (simp only: power_add div_mult2_eq)
    obtain d where d: "j = Suc (Suc v + d)" using 4 less_imp_Suc_add [of "Suc v" j] by auto
    have "level_ok b j" by (rule block_wfD(10) [OF wf n b(1)])
    then show ?thesis
      using up [of d] up [of "Suc d"] 4 li(2,3) nv(1) b(2) by (simp add: level_ok_def d)
  qed
qed

lemma attach_nodes:
  assumes wf: "block_wf b" and n: "chunks b \<noteq> 0" and r: "attach_ready b b1 k bl"
    and nv: "n = chunks b" "v = val128 n" and q: "q = node_at (v + 1) (n div 128 ^ (v + 1))"
    and ptrs: "ptrs = grown_ptrs n k ((hp_ptrs b1)(q \<mapsto> bl(n div 128 ^ v mod 128 \<mapsto> (n, k))))"
    and j: "1 \<le> j" "j < levels b1" "m * 128 ^ j < n + 1"
  shows "node_ok (n + 1) ptrs j m"
proof -
  have n0: "0 < n" using n nv by simp
  have k: "k = (if n = 128 ^ v then 1 else 0)" using r by (simp add: attach_ready_def Let_def nv)
  have new: "node_at i (n div 128 ^ i) = (n, v - i + k)" if "i \<le> v" for i
    using node_at_of [of n i] n0 nv k that by simp
  show ?thesis
  proof (cases "m * 128 ^ j = n")
    case True
    then have m: "m = n div 128 ^ j" "128 ^ j dvd n" by auto
    then have jv: "j \<le> v" by (simp add: val128_dvd [OF n0] nv(2))
    have at: "ptrs (node_at j m) = Some [0 \<mapsto> (n, v - j + k + 1)]"
    proof -
      have "k \<le> v - j + k" "v - j + k < k + val128 n" using jv j(1) nv(2) by linarith+
      then show ?thesis unfolding m(1) new [OF jv] ptrs grown_ptrs_def by (simp only: fst_conv snd_conv simp_thms if_True)
    qed
    have "[0 \<mapsto> (n, v - j + k + 1)] i = Some (node_at (j - 1) (m * 128 + i))"
      if i: "i < 128" "(m * 128 + i) * 128 ^ (j - 1) < n + 1" for i
    proof -
      obtain j' where j': "j = Suc j'" using j(1) by (cases j) auto
      have m': "m * 128 * 128 ^ j' = n" using True by (simp add: j' mult.assoc)
      have "i = 0"
      proof (rule ccontr)
        assume "i \<noteq> 0"
        then have "1 * 128 ^ j' \<le> i * (128 :: nat) ^ j'" by (intro mult_le_mono1) simp
        moreover have "(1 :: nat) \<le> 128 ^ j'" by simp
        ultimately show False using i(2) m' by (simp add: j' algebra_simps)
      qed
      moreover have "n div 128 ^ j' = m * 128" unfolding m' [symmetric] by simp
      ultimately show ?thesis using new [of j'] jv by (simp add: j' Suc_diff_Suc)
    qed
    with at show ?thesis unfolding node_ok_def by blast
  next
    case False
    with j(3) have lt: "m * 128 ^ j < n" by simp
    consider "fst (node_at j m) < n" "node_ok n (hp_ptrs b1) j m"
      | "j = v + 1" "m = 0" "n = 128 ^ v" "bl = [0 \<mapsto> node_at v 0]"
      using r j(1,2) lt unfolding attach_ready_def Let_def nv(1) [symmetric] nv(2) [symmetric] by blast
    then show ?thesis
    proof cases
      case 1
      show ?thesis
      proof (rule node_ok_step [OF 1(2) j(1) nv(2) [symmetric] n0 _ lt])
        fix bl' assume bl': "hp_ptrs b1 (node_at j m) = Some bl'"
        have "node_at j m = q \<longleftrightarrow> j = v + 1 \<and> m = n div 128 ^ (v + 1)"
          unfolding q using node_at_inj [of j m "v + 1"] j(1) by auto
        moreover have "hp_ptrs b1 q = Some bl"
          using r by (simp add: attach_ready_def Let_def nv q)
        ultimately show "ptrs (node_at j m) = Some (if j = v + 1 \<and> m = n div 128 ^ (v + 1)
            then bl'(n div 128 ^ v mod 128 \<mapsto> node_at v (n div 128 ^ v)) else bl')"
          using bl' 1(1) new [of v] by (auto simp: ptrs grown_ptrs_def)
      qed
    next
      case 2
      have "n div 128 ^ (v + 1) = 0" "n div 128 ^ v = 1" by (simp_all add: 2(3))
      then have at: "ptrs (node_at j m) = Some [0 \<mapsto> node_at v 0, 1 \<mapsto> (n, k)]"
        using k by (simp add: ptrs grown_ptrs_def q 2 node_at_def)
      have v1: "node_at v 1 = (n, k)" using new [of v] \<open>n div 128 ^ v = 1\<close> by simp
      have "[0 \<mapsto> node_at v 0, 1 \<mapsto> (n, k)] i = Some (node_at (j - 1) (m * 128 + i))"
        if i: "(m * 128 + i) * 128 ^ (j - 1) < n + 1" for i
      proof -
        have "i \<le> 1"
        proof (rule ccontr)
          assume "\<not> i \<le> 1"
          then have "2 * 128 ^ v \<le> i * (128 :: nat) ^ v" by (intro mult_le_mono1) simp
          moreover have "(1 :: nat) \<le> 128 ^ v" by simp
          moreover have "i * 128 ^ v < 128 ^ v + 1" using i 2 by simp
          ultimately show False by linarith
        qed
        then show ?thesis using v1 2 by (cases i) auto
      qed
      with at show ?thesis unfolding node_ok_def by blast
    qed
  qed
qed

lemma attach_correct:
  assumes wf: "block_wf b" and n: "chunks b \<noteq> 0" "chunks b < block_cap (records_in_block b)" and r: "attach_ready b b1 k bl"
  shows "\<exists>b2. attach (val128 (chunks b) + 1) (chunks b) k b1 = Some b2 \<and> block_wf b2 \<and> chunks b2 = chunks b + 1 \<and>
    records_in_block b2 = records_in_block b \<and> recbuffer b2 = recbuffer b \<and> last_allocated b2 = last_allocated b \<and>
    last_blocks (level_infos b2 ! 0) = Some (node_at 0 (chunks b))"
proof -
  define n where "n = chunks b"
  define v where "v = val128 n"
  define q where "q = node_at (v + 1) (n div 128 ^ (v + 1))"
  have R: "k = (if n = 128 ^ v then 1 else 0)" "v + 1 < levels b1" "levels b1 \<le> 5" "tree_levels (levels b1) (n + 1)"
    "chunks b1 = n + 1" "records_in_block b1 = records_in_block b" "recbuffer b1 = recbuffer b"
    "last_allocated b1 = last_allocated b" "hb_root b1 = Some (node_at (levels b1 - 1) 0)" "length (level_infos b1) = 5"
    "\<forall>j \<le> 4. records_under_level (level_infos b1 ! j) = records_under_level (level_infos b ! j)"
    "last_blocks (level_infos b1 ! (v + 1)) = Some q" "hp_ptrs b1 q = Some bl"
    "free_ptrs_in_block (level_infos b1 ! (v + 1)) = 128 - n div 128 ^ v mod 128"
    using r unfolding attach_ready_def Let_def n_def [symmetric] v_def [symmetric] q_def by simp_all
  have n0: "0 < n" using n(1) n_def by simp
  have idx: "128 - free_ptrs_in_block (level_infos b1 ! (v + 1)) = n div 128 ^ v mod 128"
    using mod_less_divisor [of 128 "n div 128 ^ v"] R(14) by simp
  obtain li where li: "attach (v + 1) n k b1 = Some (b1\<lparr>level_infos := li, hp_ptrs := grown_ptrs n k
      ((hp_ptrs b1)(q \<mapsto> bl(n div 128 ^ v mod 128 \<mapsto> (n, k))))\<rparr>)" "length li = 5"
    "\<forall>j. li ! j = (if j = 0 then (level_infos b1 ! 0)\<lparr>last_blocks := Some (n, k + v)\<rparr>
      else if j \<le> v then (level_infos b1 ! j)\<lparr>last_blocks := Some (n, k + v - j), free_ptrs_in_block := 127\<rparr>
      else if j = v + 1 then (level_infos b1 ! j)\<lparr>free_ptrs_in_block := free_ptrs_in_block (level_infos b1 ! j) - 1\<rparr>
      else level_infos b1 ! j)"
    using attach_run [of n v b1 q bl k] R(2,3,10,12,13) v_def idx by auto
  let ?ptrs = "grown_ptrs n k ((hp_ptrs b1)(q \<mapsto> bl(n div 128 ^ v mod 128 \<mapsto> (n, k))))"
  let ?b2 = "b1\<lparr>level_infos := li, hp_ptrs := ?ptrs\<rparr>"
  have lev: "level_ok ?b2 j" if "j < levels b1" for j
    using attach_levels [OF wf n(1) r, of ?b2 n v j] li(2,3) R(5) n_def v_def that by simp
  have nodes: "node_ok (n + 1) ?ptrs j m" if "1 \<le> j" "j < levels b1" "m * 128 ^ j < n + 1" for j m
    by (rule attach_nodes [OF wf n(1) r n_def v_def q_def refl that])
  have l0: "last_blocks (li ! 0) = Some (node_at 0 n)"
    using li(3) node_at_of [of n 0] n0 R(1) v_def by (simp add: add.commute)
  have under: "records_under_level (li ! i) = (if i = 0 then 1 else records_in_block b * 128 ^ (i - 1))" if "i \<le> 4" "128 ^ i \<le> block_cap (records_in_block b)" for i
    using li(3) R(11) block_wfD(4) [OF wf, of i] that by auto
  have f0: "free_ptrs_in_block (li ! 0) = 0" using lev [of 0] R(2) by (simp add: level_ok_def)
  have "block_wf ?b2"
    unfolding block_wf_def HP_MAX_LEVELS_def
    using li(2) R(3,4,5,6,9) n(2) n_def under f0 lev nodes block_wfD(2) [OF wf] by simp
  with li(1) l0 R(5-8) show ?thesis by (intro exI [of _ ?b2]) (simp add: n_def v_def)
qed

lemma attach_ready_grow:
  assumes wf: "block_wf b" and n: "chunks b \<noteq> 0" "chunks b < 128 ^ 4"
    and i: "i = val128 (chunks b) + 1" "i = levels b" and old: "hb_root b = Some old"
  shows "\<exists>b1 bl. set_level i (\<lambda>l. l\<lparr>free_ptrs_in_block := HP_PTRS_IN_NOD - 1, last_blocks := Some (chunks b, 0)\<rparr>) (b\<lparr>chunks := chunks b + 1\<rparr>) = Some b1 \<and>
    attach_ready b (b1\<lparr>levels := i + 1, hp_ptrs := (hp_ptrs b1)((chunks b, 0) \<mapsto> [0 \<mapsto> old]), hb_root := Some (chunks b, 0)\<rparr>) 1 bl"
proof -
  define n where "n = chunks b"
  define v where "v = val128 n"
  note tl = block_wfD(7) [OF wf n(1), folded n_def]
  have n0: "0 < n" using n(1) n_def by simp
  have lv: "levels b = v + 1" using i n_def v_def by simp
  then have np: "n = 128 ^ v" using val128_levels(2) [OF tl] v_def by simp
  then have v4: "v < 4" using n(2) n_def by (metis nat_less_le not_less power_increasing_iff rel_simps(49) zero_less_numeral numeral_less_iff one_less_numeral_iff semiring_norm(76) linorder_not_le)
  let ?li = "(level_infos b)[i := (level_infos b ! i)\<lparr>free_ptrs_in_block := 127, last_blocks := Some (n, 0)\<rparr>]"
  let ?b1 = "b\<lparr>chunks := n + 1, level_infos := ?li\<rparr>"
  let ?b2 = "?b1\<lparr>levels := i + 1, hp_ptrs := (hp_ptrs ?b1)((n, 0) \<mapsto> [0 \<mapsto> old]), hb_root := Some (n, 0)\<rparr>"
  have len: "length (level_infos b) = 5" by (rule block_wfD(1) [OF wf])
  have i': "i = v + 1" using i n_def v_def by simp
  have il: "i < 5" using v4 i' by simp
  have run: "set_level i (\<lambda>l. l\<lparr>free_ptrs_in_block := HP_PTRS_IN_NOD - 1, last_blocks := Some (n, 0)\<rparr>) (b\<lparr>chunks := n + 1\<rparr>) = Some ?b1"
    using len il by (simp add: set_level_def HP_PTRS_IN_NOD_def)
  have dv: "n div 128 ^ (v + 1) = 0" "n div 128 ^ v = 1" unfolding np by simp_all
  have tl': "tree_levels (v + 2) (n + 1)" using grown_levels [OF tl refl] np lv by simp
  have old': "old = node_at v 0" using block_wfD(9) [OF wf n(1)] old lv by simp
  have nodes: "fst (node_at j m) < n \<and> node_ok n (hp_ptrs ?b2) j m \<or>
      j = i \<and> m = 0 \<and> n = 128 ^ v \<and> [0 \<mapsto> old] = [0 \<mapsto> node_at v 0]"
    if j: "1 \<le> j" "j < i + 1" "m * 128 ^ j < n" for j m
  proof (cases "j = i")
    case True
    have "n \<le> 128 ^ i" unfolding np i' by (rule power_increasing) simp_all
    with j(3) [unfolded True] have "m * 128 ^ i < 128 ^ i" by linarith
    then have "m = 0" by (cases m) simp_all
    with True np old' show ?thesis by simp
  next
    case False
    with j have jl: "j < levels b" using i(2) by simp
    have f: "fst (node_at j m) < n" by (rule node_old [OF tl j(1) jl j(3)])
    have "node_ok n (hp_ptrs b) j m" unfolding n_def by (rule block_wfD(11) [OF wf n(1) j(1) jl]) (use j(3) n_def in simp)
    with f have "node_ok n (hp_ptrs ?b2) j m" by (auto simp: node_ok_def)
    with f show ?thesis by simp
  qed
  have "attach_ready b ?b2 1 [0 \<mapsto> old]"
    unfolding attach_ready_def Let_def n_def [symmetric] v_def [symmetric] i' [symmetric]
  proof (intro conjI)
    have root: "node_at i 0 = (n, 0)" using i' np by (simp add: node_at_def)
    show "hb_root ?b2 = Some (node_at (levels ?b2 - 1) 0)" using root by simp
    show "last_blocks (level_infos ?b2 ! i) = Some (node_at i (n div 128 ^ i))"
      "hp_ptrs ?b2 (node_at i (n div 128 ^ i)) = Some [0 \<mapsto> old]"
      using dv(1) root i' il len by simp_all
    show "tree_levels (levels ?b2) (n + 1)" using tl' i' by simp
    show "\<forall>j m. 1 \<le> j \<longrightarrow> j < levels ?b2 \<longrightarrow> m * 128 ^ j < n \<longrightarrow> fst (node_at j m) < n \<and> node_ok n (hp_ptrs ?b2) j m \<or>
        j = i \<and> m = 0 \<and> n = 128 ^ v \<and> [0 \<mapsto> old] = [0 \<mapsto> node_at v 0]"
    proof (intro allI impI)
      fix j m
      assume "1 \<le> j" "j < levels ?b2" "m * 128 ^ j < n"
      then have "1 \<le> j" "j < i + 1" "m * 128 ^ j < n" by simp_all
      then show "fst (node_at j m) < n \<and> node_ok n (hp_ptrs ?b2) j m \<or>
        j = i \<and> m = 0 \<and> n = 128 ^ v \<and> [0 \<mapsto> old] = [0 \<mapsto> node_at v 0]" by (rule nodes)
    qed
  qed (use np il len dv lv i' in \<open>auto simp: nth_list_update\<close>)
  with run show ?thesis unfolding n_def by blast
qed

lemma attach_ready_room:
  assumes wf: "block_wf b" and n: "chunks b \<noteq> 0" and i: "val128 (chunks b) + 1 \<noteq> levels b"
  shows "\<exists>bl. attach_ready b (b\<lparr>chunks := chunks b + 1\<rparr>) 0 bl"
proof -
  define n where "n = chunks b"
  define v where "v = val128 n"
  note tl = block_wfD(7) [OF wf n, folded n_def]
  have n0: "0 < n" using n n_def by simp
  have lv: "v + 1 < levels b" using val128_levels(1) [OF tl] i n_def v_def by simp
  then have np: "n \<noteq> 128 ^ v" "n \<noteq> 128 ^ (levels b - 1)"
    using val128_levels(2,3) [OF tl] v_def by auto
  have dv: "128 ^ v dvd n" "\<not> 128 ^ Suc v dvd n" by (simp_all only: val128_dvd [OF n0] v_def)
  note ld = last_digit [OF n0 dv(1)]
  have ok: "level_ok b (v + 1)" by (rule block_wfD(10) [OF wf n lv])
  then have lb: "last_blocks (level_infos b ! (v + 1)) = Some (node_at (v + 1) (n div 128 ^ (v + 1)))"
    using ld(4) [OF dv(2)] by (simp add: level_ok_def n_def [symmetric])
  have fp: "free_ptrs_in_block (level_infos b ! (v + 1)) = 128 - n div 128 ^ v mod 128"
    using ok ld(3) [OF dv(2)] by (simp add: level_ok_def n_def [symmetric])
  have ne: "n div 128 ^ v mod 128 \<noteq> 0" using ld(3) [OF dv(2)] by linarith
  have tl': "tree_levels (levels b) (n + 1)" using grown_levels [OF tl refl] np(2) by simp
  have "\<not> 128 ^ (v + 1) dvd n" using dv(2) by simp
  then have lt: "n div 128 ^ (v + 1) * 128 ^ (v + 1) < n"
    using div_mult_mod_eq [of n "128 ^ (v + 1)"] by (metis dvd_eq_mod_eq_0 add.commute less_add_same_cancel2 neq0_conv)
  have nodes: "fst (node_at j m) < n \<and> node_ok n (hp_ptrs b) j m"
    if j: "1 \<le> j" "j < levels b" "m * 128 ^ j < n" for j m
    using node_old [OF tl j] block_wfD(11) [OF wf n j(1,2)] j(3) by (simp add: n_def)
  obtain bl where bl: "hp_ptrs b (node_at (v + 1) (n div 128 ^ (v + 1))) = Some bl"
    using nodes [OF _ lv lt] by (auto simp: node_ok_def)
  have "attach_ready b (b\<lparr>chunks := n + 1\<rparr>) 0 bl"
    unfolding attach_ready_def Let_def n_def [symmetric] v_def [symmetric]
    using np(1) lv block_wfD(1,8) [OF wf] block_wfD(9) [OF wf n] tl' lb fp ne bl nodes by simp
  then show ?thesis unfolding n_def by blast
qed

lemma hp_get_new_block_attach:
  "hp_get_new_block mem b =
     (let i = free_level b; len = hp_ptrs_size * i + records_in_block b * recbuffer b; c = chunks b; b1 = b\<lparr>chunks := c + 1\<rparr>
      in if \<not> mem len then Some (b, len, True)
         else if i = 0 then do {
             b \<leftarrow> set_level 0 (\<lambda>l. l\<lparr>last_blocks := Some (c, 0)\<rparr>) b1;
             Some (b\<lparr>levels := 1, hb_root := Some (c, 0)\<rparr>, len, False) }
         else do {
             (b, k) \<leftarrow> (if i = levels b then do {
                 old \<leftarrow> hb_root b;
                 b \<leftarrow> set_level i (\<lambda>l. l\<lparr>free_ptrs_in_block := HP_PTRS_IN_NOD - 1, last_blocks := Some (c, 0)\<rparr>) b1;
                 Some (b\<lparr>levels := i + 1, hp_ptrs := (hp_ptrs b)((c, 0) \<mapsto> [0 \<mapsto> old]), hb_root := Some (c, 0)\<rparr>, 1)
               } else Some (b1, 0));
             b \<leftarrow> attach i c k b;
             Some (b, len, False) })"
  by (simp add: hp_get_new_block_def attach_def Let_def split_def)

lemma hp_get_new_block_correct:
  assumes wf: "block_wf b" and lt: "chunks b < block_cap (records_in_block b)"
  shows "\<exists>len b' err. hp_get_new_block mem b = Some (b', len, err) \<and> err = (\<not> mem len) \<and>
      (if err then b' = b
       else block_wf b' \<and> chunks b' = chunks b + 1 \<and> records_in_block b' = records_in_block b \<and>
         recbuffer b' = recbuffer b \<and> last_allocated b' = last_allocated b \<and>
         last_blocks (level_infos b' ! 0) = Some (node_at 0 (chunks b)))"
proof -
  define len where "len = hp_ptrs_size * free_level b + records_in_block b * recbuffer b"
  show ?thesis
  proof (cases "mem len")
    case False
    then have "hp_get_new_block mem b = Some (b, len, True)" by (simp add: hp_get_new_block_def len_def Let_def)
    with False show ?thesis by auto
  next
    case True
    show ?thesis
    proof (cases "chunks b = 0")
      case n: True
      then have len: "len = records_in_block b * recbuffer b"
        using block_wfD(6) [OF wf] by (simp add: len_def free_level_def)
      obtain b' where "hp_get_new_block mem b = Some (b', len, False)" "block_wf b'" "chunks b' = chunks b + 1"
        "records_in_block b' = records_in_block b" "recbuffer b' = recbuffer b" "last_allocated b' = last_allocated b"
        "last_blocks (level_infos b' ! 0) = Some (node_at 0 (chunks b))"
        using hp_get_new_block_first [OF wf n, of mem] True unfolding len by blast
      with True show ?thesis by auto
    next
      case n: False
      let ?i = "val128 (chunks b) + 1"
      have i: "free_level b = ?i" by (rule free_level_correct [OF wf n])
      obtain b1 k bl where b1: "attach_ready b b1 k bl"
        "(if ?i = levels b then do {
             old \<leftarrow> hb_root b;
             b1 \<leftarrow> set_level ?i (\<lambda>l. l\<lparr>free_ptrs_in_block := HP_PTRS_IN_NOD - 1, last_blocks := Some (chunks b, 0)\<rparr>) (b\<lparr>chunks := chunks b + 1\<rparr>);
             Some (b1\<lparr>levels := ?i + 1, hp_ptrs := (hp_ptrs b1)((chunks b, 0) \<mapsto> [0 \<mapsto> old]), hb_root := Some (chunks b, 0)\<rparr>, 1)
           } else Some (b\<lparr>chunks := chunks b + 1\<rparr>, 0)) = Some (b1, k)"
      proof (cases "?i = levels b")
        case True
        obtain old where old: "hb_root b = Some old" using block_wfD(9) [OF wf n] by simp
        from attach_ready_grow [OF wf n less_le_trans [OF lt block_cap_le] refl True old] True old that show ?thesis by auto
      next
        case False
        from attach_ready_room [OF wf n False] False that show ?thesis by auto
      qed
      obtain b2 where b2: "attach ?i (chunks b) k b1 = Some b2" "block_wf b2" "chunks b2 = chunks b + 1"
        "records_in_block b2 = records_in_block b" "recbuffer b2 = recbuffer b" "last_allocated b2 = last_allocated b"
        "last_blocks (level_infos b2 ! 0) = Some (node_at 0 (chunks b))"
        using attach_correct [OF wf n lt b1(1)] by blast
      have "hp_get_new_block mem b = Some (b2, len, False)"
      proof -
        have "?i \<noteq> 0" by simp
        with True show ?thesis
          unfolding hp_get_new_block_attach Let_def i len_def [unfolded i, symmetric] b1(2) by (simp add: b2(1) [simplified])
      qed
      with b2 True show ?thesis by auto
    qed
  qed
qed

end
