(* ===== verification/HeapKey.thy ===== *)
theory HeapKey
  imports LinkDelete HeapBlockSpec
begin

text \<open>
  The hash indexes of the heap engine: heap/hp_hash.c, \<open>_hp_write_key\<close> of heap/hp_write.c and
  \<open>_hp_delete_key\<close> of heap/hp_delete.c. A pointer to a record is the address of its cell. A
  pointer to a \<open>HASH_INFO\<close> is the number of its cell in the blocks of the index;
  \<open>hp_find_block_correct\<close> says that \<open>hp_find_hash\<close> gives different cells different addresses.

  The records are in memory: \<open>rd p\<close> are the bytes of the record at \<open>p\<close>. The table
  \<open>my_sort_order\<close> of the character set is the parameter \<open>sort_order\<close>; the comparison is the
  one of a character set without a collation function. Bytes of a new block are those of the
  parameter \<open>junk\<close>. An unsigned long has 64 bits.
\<close>

subsection \<open>Key definitions\<close>

type_synonym bytes = "uchar list"

definition HA_KEYTYPE_TEXT :: nat where
  "HA_KEYTYPE_TEXT = 1"

definition HA_NOSAME :: nat where
  "HA_NOSAME = 1"

record HP_KEYSEG =
  seg_start :: nat
  seg_length :: nat
  seg_type :: nat

record HP_KEYDEF =
  kd_flag :: nat
  kd_length :: nat
  kd_seg :: "HP_KEYSEG list"
  kd_block :: HP_BLOCK
  kd_cells :: "haddr hlink list"

definition nosame :: "HP_KEYDEF \<Rightarrow> bool" where
  "nosame kd \<longleftrightarrow> kd_flag kd AND HA_NOSAME \<noteq> 0"

definition seg_part :: "HP_KEYSEG \<Rightarrow> bytes \<Rightarrow> bytes" where
  "seg_part sg rec = take (seg_length sg) (drop (seg_start sg) rec)"

subsection \<open>Hash numbers\<close>

definition hp_hash_step :: "ulong \<times> ulong \<Rightarrow> ulong \<Rightarrow> ulong \<times> ulong" where
  "hp_hash_step = (\<lambda>(nr, nr2) c. (nr XOR (((nr AND 63) + nr2) * c + push_bit 8 nr), nr2 + 3))"

definition seg_chars :: "(uchar \<Rightarrow> uchar) \<Rightarrow> HP_KEYSEG \<Rightarrow> bytes \<Rightarrow> ulong list" where
  "seg_chars sort_order sg part =
     map (\<lambda>c. ucast (if seg_type sg = HA_KEYTYPE_TEXT then sort_order c else c)) part"

primrec hashnr_segs :: "(uchar \<Rightarrow> uchar) \<Rightarrow> HP_KEYSEG list \<Rightarrow> bytes \<Rightarrow> ulong \<times> ulong \<Rightarrow> ulong \<times> ulong" where
  "hashnr_segs sort_order [] key st = st"
| "hashnr_segs sort_order (sg # segs) key st =
     hashnr_segs sort_order segs (drop (seg_length sg) key)
       (foldl hp_hash_step st (seg_chars sort_order sg (take (seg_length sg) key)))"

definition hp_hashnr :: "(uchar \<Rightarrow> uchar) \<Rightarrow> HP_KEYDEF \<Rightarrow> bytes \<Rightarrow> ulong" where
  "hp_hashnr sort_order kd key = fst (hashnr_segs sort_order (kd_seg kd) key (1, 4))"

primrec rec_hashnr_segs :: "(uchar \<Rightarrow> uchar) \<Rightarrow> HP_KEYSEG list \<Rightarrow> bytes \<Rightarrow> ulong \<times> ulong \<Rightarrow> ulong \<times> ulong" where
  "rec_hashnr_segs sort_order [] rec st = st"
| "rec_hashnr_segs sort_order (sg # segs) rec st =
     rec_hashnr_segs sort_order segs rec (foldl hp_hash_step st (seg_chars sort_order sg (seg_part sg rec)))"

definition hp_rec_hashnr :: "(uchar \<Rightarrow> uchar) \<Rightarrow> HP_KEYDEF \<Rightarrow> bytes \<Rightarrow> ulong" where
  "hp_rec_hashnr sort_order kd rec = fst (rec_hashnr_segs sort_order (kd_seg kd) rec (1, 4))"

text \<open>The functions of a build with \<open>NEW_HASH_FUNCTION\<close>.\<close>

definition hp_fnv_step :: "ulong \<Rightarrow> ulong \<Rightarrow> ulong" where
  "hp_fnv_step nr c = (nr * 16777619) XOR c"

primrec fnv_segs :: "(uchar \<Rightarrow> uchar) \<Rightarrow> HP_KEYSEG list \<Rightarrow> bytes \<Rightarrow> ulong \<Rightarrow> ulong" where
  "fnv_segs sort_order [] key nr = nr"
| "fnv_segs sort_order (sg # segs) key nr =
     fnv_segs sort_order segs (drop (seg_length sg) key)
       (foldl hp_fnv_step nr (seg_chars sort_order sg (take (seg_length sg) key)))"

definition hp_hashnr_fnv :: "(uchar \<Rightarrow> uchar) \<Rightarrow> HP_KEYDEF \<Rightarrow> bytes \<Rightarrow> ulong" where
  "hp_hashnr_fnv sort_order kd key = fnv_segs sort_order (kd_seg kd) key 0"

definition hp_rec_hashnr_fnv :: "(uchar \<Rightarrow> uchar) \<Rightarrow> HP_KEYDEF \<Rightarrow> bytes \<Rightarrow> ulong" where
  "hp_rec_hashnr_fnv sort_order kd rec =
     foldl (\<lambda>nr sg. foldl hp_fnv_step nr (seg_chars sort_order sg (seg_part sg rec))) 0 (kd_seg kd)"

subsection \<open>Comparisons and keys\<close>

fun my_sortcmp :: "(uchar \<Rightarrow> uchar) \<Rightarrow> bytes \<Rightarrow> bytes \<Rightarrow> int" where
  "my_sortcmp sort_order (a # s) (b # t) =
     (if sort_order a \<noteq> sort_order b then uint (sort_order a) - uint (sort_order b)
      else my_sortcmp sort_order s t)"
| "my_sortcmp sort_order _ _ = 0"

definition seg_differ :: "(uchar \<Rightarrow> uchar) \<Rightarrow> HP_KEYSEG \<Rightarrow> bytes \<Rightarrow> bytes \<Rightarrow> bool" where
  "seg_differ sort_order sg s t =
     (if seg_type sg = HA_KEYTYPE_TEXT then my_sortcmp sort_order s t \<noteq> 0 else s \<noteq> t)"

text \<open>True where the code returns 1.\<close>

definition hp_rec_key_cmp :: "(uchar \<Rightarrow> uchar) \<Rightarrow> HP_KEYDEF \<Rightarrow> bytes \<Rightarrow> bytes \<Rightarrow> bool" where
  "hp_rec_key_cmp sort_order kd rec1 rec2 =
     list_ex (\<lambda>sg. seg_differ sort_order sg (seg_part sg rec1) (seg_part sg rec2)) (kd_seg kd)"

fun key_cmp_segs :: "(uchar \<Rightarrow> uchar) \<Rightarrow> HP_KEYSEG list \<Rightarrow> bytes \<Rightarrow> bytes \<Rightarrow> bool" where
  "key_cmp_segs sort_order [] rec key = False"
| "key_cmp_segs sort_order (sg # segs) rec key =
     (if seg_differ sort_order sg (seg_part sg rec) (take (seg_length sg) key) then True
      else key_cmp_segs sort_order segs rec (drop (seg_length sg) key))"

definition hp_key_cmp :: "(uchar \<Rightarrow> uchar) \<Rightarrow> HP_KEYDEF \<Rightarrow> bytes \<Rightarrow> bytes \<Rightarrow> bool" where
  "hp_key_cmp sort_order kd rec key = key_cmp_segs sort_order (kd_seg kd) rec key"

definition hp_make_key :: "HP_KEYDEF \<Rightarrow> bytes \<Rightarrow> bytes" where
  "hp_make_key kd rec = concat (map (\<lambda>sg. seg_part sg rec) (kd_seg kd))"

subsection \<open>Writing a key\<close>

definition HA_ERR_KEY_NOT_FOUND :: int where "HA_ERR_KEY_NOT_FOUND = 120"
definition HA_ERR_FOUND_DUPP_KEY :: int where "HA_ERR_FOUND_DUPP_KEY = 121"
definition HA_ERR_RECORD_CHANGED :: int where "HA_ERR_RECORD_CHANGED = 123"
definition HA_ERR_WRONG_INDEX :: int where "HA_ERR_WRONG_INDEX = 124"
definition HA_ERR_CRASHED :: int where "HA_ERR_CRASHED = 126"
definition HA_ERR_NO_ACTIVE_RECORD :: int where "HA_ERR_NO_ACTIVE_RECORD = 133"
definition HA_ERR_RECORD_DELETED :: int where "HA_ERR_RECORD_DELETED = 134"
definition HA_ERR_RECORD_FILE_FULL :: int where "HA_ERR_RECORD_FILE_FULL = 135"
definition HA_ERR_END_OF_FILE :: int where "HA_ERR_END_OF_FILE = 137"

lemmas ha_errors = HA_ERR_KEY_NOT_FOUND_def HA_ERR_FOUND_DUPP_KEY_def HA_ERR_RECORD_CHANGED_def HA_ERR_WRONG_INDEX_def
  HA_ERR_CRASHED_def HA_ERR_NO_ACTIVE_RECORD_def HA_ERR_RECORD_DELETED_def HA_ERR_RECORD_FILE_FULL_def HA_ERR_END_OF_FILE_def

text \<open>
  The free cell for a new key: the index, what is added to \<open>index_length\<close>, and the address of
  the cell (null: no memory). The contents of a new block are appended to the cells.
\<close>

definition hp_find_free_hash ::
  "(nat \<Rightarrow> bool) \<Rightarrow> (nat \<Rightarrow> haddr hlink) \<Rightarrow> HP_KEYDEF \<Rightarrow> nat \<Rightarrow> (HP_KEYDEF \<times> nat \<times> haddr option) option" where
  "hp_find_free_hash mem junk kd records =
     (let b = kd_block kd
      in if records < last_allocated b then do { a \<leftarrow> hp_find_block b records; Some (kd, 0, Some a) }
         else do {
           let block_pos = records mod records_in_block b;
           (kd, len, err) \<leftarrow>
             (if block_pos = 0 then do {
                (b, len, err) \<leftarrow> hp_get_new_block mem b;
                Some (if err then (kd\<lparr>kd_block := b\<rparr>, 0, True)
                  else (kd\<lparr>kd_block := b, kd_cells := kd_cells kd @ map junk
                          [length (kd_cells kd)..<length (kd_cells kd) + records_in_block b]\<rparr>, len, False))
              } else Some (kd, 0, False));
           if err then Some (kd, len, None)
           else do {
             let kd = kd\<lparr>kd_block := (kd_block kd)\<lparr>last_allocated := records + 1\<rparr>\<rparr>;
             l \<leftarrow> level_at (kd_block kd) 0;
             p \<leftarrow> last_blocks l;
             Some (kd, len, Some (p, block_pos))
           }
         })"

abbreviation key_hash :: "(uchar \<Rightarrow> uchar) \<Rightarrow> (haddr \<Rightarrow> bytes) \<Rightarrow> HP_KEYDEF \<Rightarrow> haddr \<Rightarrow> nat" where
  "key_hash sort_order rd kd \<equiv> (\<lambda>p. unat (hp_rec_hashnr sort_order kd (rd p)))"

text \<open>
  The table code is that of \<open>LinkTable\<close>; the free cell is number \<open>records\<close>. The result is the
  index, what is added to \<open>index_length\<close>, and the return value: 0, -1 (no memory) or the
  error of a duplicate key.
\<close>

definition hp_write_key ::
  "(nat \<Rightarrow> bool) \<Rightarrow> (nat \<Rightarrow> haddr hlink) \<Rightarrow> (uchar \<Rightarrow> uchar) \<Rightarrow> (haddr \<Rightarrow> bytes) \<Rightarrow> nat \<Rightarrow> nat \<Rightarrow>
    HP_KEYDEF \<Rightarrow> bytes \<Rightarrow> haddr \<Rightarrow> (HP_KEYDEF \<times> nat \<times> int) option" where
  "hp_write_key mem junk sort_order rd blength records kd record recpos =
     do {
       (kd, len, emp) \<leftarrow> hp_find_free_hash mem junk kd records;
       case emp of
         None \<Rightarrow> Some (kd, len, - 1)
       | Some _ \<Rightarrow>
           do {
             (e, q) \<leftarrow> link_insert (key_hash sort_order rd kd) (kd_cells kd) blength records recpos
                (unat (hp_rec_hashnr sort_order kd record));
             let kd = kd\<lparr>kd_cells := e\<rparr>;
             dup \<leftarrow> (case q of
                 Some emp \<Rightarrow>
                   if nosame kd
                   then search_link (\<lambda>p. \<not> hp_rec_key_cmp sort_order kd record (rd p)) (\<lambda>_. False) e False emp
                   else Some None
               | None \<Rightarrow> Some None);
             Some (kd, len, if dup = None then 0 else HA_ERR_FOUND_DUPP_KEY)
           }
     }"

subsection \<open>Deleting a key\<close>

text \<open>The search for the cell of the record; \<open>last_ptr\<close> is the last cell before it with the same key.\<close>

partial_function (option) find_key ::
  "(haddr \<Rightarrow> bool) \<Rightarrow> haddr hlink list \<Rightarrow> haddr \<Rightarrow> nat option \<Rightarrow> nat option \<Rightarrow> nat \<Rightarrow>
    (nat option \<times> nat \<times> nat option) option option" where
  "find_key same e recpos gpos last_ptr pos =
     do {
       l \<leftarrow> link_at e pos;
       if hl_data l = recpos then Some (Some (gpos, pos, last_ptr))
       else do {
         let last_ptr = (if same (hl_data l) then Some pos else last_ptr);
         case hl_next l of
           None \<Rightarrow> Some None
         | Some p \<Rightarrow> find_key same e recpos (Some pos) last_ptr p
       }
     }"

text \<open>
  The result is the index, the return value, and with \<open>flag\<close> the new values of
  \<open>current_hash_ptr\<close> and \<open>current_ptr\<close>.
\<close>

definition hp_delete_key ::
  "(uchar \<Rightarrow> uchar) \<Rightarrow> (haddr \<Rightarrow> bytes) \<Rightarrow> nat \<Rightarrow> nat \<Rightarrow> HP_KEYDEF \<Rightarrow> bytes \<Rightarrow> haddr \<Rightarrow> bool \<Rightarrow>
    (HP_KEYDEF \<times> int \<times> (nat option \<times> haddr option) option) option" where
  "hp_delete_key sort_order rd blength records kd record recpos flag =
     do {
       let blength0 = (if records + 1 = blength then blength + blength else blength);
       f \<leftarrow> find_key (\<lambda>p. flag \<and> \<not> hp_rec_key_cmp sort_order kd record (rd p)) (kd_cells kd) recpos None None
            (hash_mask (unat (hp_rec_hashnr sort_order kd record)) blength0 (records + 1));
       case f of
         None \<Rightarrow> Some (kd, HA_ERR_CRASHED, None)
       | Some (gpos, pos, last_ptr) \<Rightarrow>
           do {
             cur \<leftarrow> (if flag then (case last_ptr of
                   None \<Rightarrow> Some (Some (None, None))
                 | Some i \<Rightarrow> do { l \<leftarrow> link_at (kd_cells kd) i; Some (Some (Some i, Some (hl_data l))) })
               else Some None);
             (e, emp) \<leftarrow> unlink (kd_cells kd) gpos pos;
             e \<leftarrow> move_last (key_hash sort_order rd kd) e blength0 blength records emp;
             Some (kd\<lparr>kd_cells := e\<rparr>, 0, cur)
           }
     }"

end
