(* ===== verification/HeapKeySpec.thy ===== *)
theory HeapKeySpec
  imports HeapKey
begin

text \<open>
  What the functions of heap/hp_hash.c agree on, and what \<open>hp_write_key\<close> and \<open>hp_delete_key\<close> do
  to an index: records with equal keys have equal hash numbers, a key made from a record has the
  hash number of the record, and an index stays a table of linked records.
\<close>

subsection \<open>Keys and hash numbers\<close>

definition rec_fits :: "HP_KEYDEF \<Rightarrow> bytes \<Rightarrow> bool" where
  "rec_fits kd rec \<longleftrightarrow> (\<forall>sg \<in> set (kd_seg kd). seg_start sg + seg_length sg \<le> length rec)"

lemma length_seg_part: "seg_start sg + seg_length sg \<le> length rec \<Longrightarrow> length (seg_part sg rec) = seg_length sg"
  by (simp add: seg_part_def)

lemma hashnr_make_key:
  "\<forall>sg \<in> set segs. seg_start sg + seg_length sg \<le> length rec \<Longrightarrow>
   hashnr_segs so segs (concat (map (\<lambda>sg. seg_part sg rec) segs) @ rest) st = rec_hashnr_segs so segs rec st"
  by (induction segs arbitrary: st) (simp_all add: length_seg_part)

lemma hp_hashnr_make_key: "rec_fits kd rec \<Longrightarrow> hp_hashnr so kd (hp_make_key kd rec) = hp_rec_hashnr so kd rec"
  using hashnr_make_key [of "kd_seg kd" rec so "[]"]
  by (simp add: hp_hashnr_def hp_rec_hashnr_def hp_make_key_def rec_fits_def)

lemma fnv_make_key:
  "\<forall>sg \<in> set segs. seg_start sg + seg_length sg \<le> length rec \<Longrightarrow>
   fnv_segs so segs (concat (map (\<lambda>sg. seg_part sg rec) segs) @ rest) nr =
   foldl (\<lambda>nr sg. foldl hp_fnv_step nr (seg_chars so sg (seg_part sg rec))) nr segs"
  by (induction segs arbitrary: nr) (simp_all add: length_seg_part)

lemma hp_hashnr_fnv_make_key:
  "rec_fits kd rec \<Longrightarrow> hp_hashnr_fnv so kd (hp_make_key kd rec) = hp_rec_hashnr_fnv so kd rec"
  using fnv_make_key [of "kd_seg kd" rec so "[]"]
  by (simp add: hp_hashnr_fnv_def hp_rec_hashnr_fnv_def hp_make_key_def rec_fits_def)

lemma key_cmp_make_key:
  "\<forall>sg \<in> set segs. seg_start sg + seg_length sg \<le> length rec2 \<Longrightarrow>
   key_cmp_segs so segs rec1 (concat (map (\<lambda>sg. seg_part sg rec2) segs) @ rest) \<longleftrightarrow>
     list_ex (\<lambda>sg. seg_differ so sg (seg_part sg rec1) (seg_part sg rec2)) segs"
  by (induction segs) (simp_all add: length_seg_part)

lemma hp_key_cmp_make_key: "rec_fits kd rec2 \<Longrightarrow> hp_key_cmp so kd rec1 (hp_make_key kd rec2) = hp_rec_key_cmp so kd rec1 rec2"
  using key_cmp_make_key [of "kd_seg kd" rec2 so rec1 "[]"]
  by (simp add: hp_key_cmp_def hp_rec_key_cmp_def hp_make_key_def rec_fits_def)

lemma my_sortcmp_zero: "length s = length t \<Longrightarrow> my_sortcmp so s t = 0 \<longleftrightarrow> map so s = map so t"
  by (induction so s t rule: my_sortcmp.induct) (auto simp: word_uint_eq_iff)

definition seg_image :: "(uchar \<Rightarrow> uchar) \<Rightarrow> HP_KEYSEG \<Rightarrow> bytes \<Rightarrow> uchar list" where
  "seg_image so sg part = (if seg_type sg = HA_KEYTYPE_TEXT then map so part else part)"

lemma seg_differ_image: "length s = length t \<Longrightarrow> seg_differ so sg s t \<longleftrightarrow> seg_image so sg s \<noteq> seg_image so sg t"
  by (simp add: seg_differ_def seg_image_def my_sortcmp_zero)

lemma seg_chars_image: "seg_chars so sg part = map ucast (seg_image so sg part)"
  by (simp add: seg_chars_def seg_image_def)

text \<open>The key of a record, with its letters replaced by their sort order: what counts for the index.\<close>

definition key_image :: "(uchar \<Rightarrow> uchar) \<Rightarrow> HP_KEYDEF \<Rightarrow> bytes \<Rightarrow> uchar list list" where
  "key_image so kd rec = map (\<lambda>sg. seg_image so sg (seg_part sg rec)) (kd_seg kd)"

lemma hp_rec_key_cmp_image:
  assumes "rec_fits kd r1" "rec_fits kd r2"
  shows "hp_rec_key_cmp so kd r1 r2 \<longleftrightarrow> key_image so kd r1 \<noteq> key_image so kd r2"
proof -
  have "seg_differ so sg (seg_part sg r1) (seg_part sg r2) \<longleftrightarrow>
      seg_image so sg (seg_part sg r1) \<noteq> seg_image so sg (seg_part sg r2)" if "sg \<in> set (kd_seg kd)" for sg
    using assms that by (intro seg_differ_image) (simp add: rec_fits_def length_seg_part)
  then show ?thesis by (auto simp: hp_rec_key_cmp_def key_image_def list_ex_iff)
qed

lemma rec_hashnr_image:
  "map (\<lambda>sg. seg_image so sg (seg_part sg r1)) segs = map (\<lambda>sg. seg_image so sg (seg_part sg r2)) segs \<Longrightarrow>
   rec_hashnr_segs so segs r1 st = rec_hashnr_segs so segs r2 st"
  by (induction segs arbitrary: st) (simp_all add: seg_chars_image)

lemma hp_rec_hashnr_image: "key_image so kd r1 = key_image so kd r2 \<Longrightarrow> hp_rec_hashnr so kd r1 = hp_rec_hashnr so kd r2"
  using rec_hashnr_image [of so r1 "kd_seg kd" r2] by (simp add: hp_rec_hashnr_def key_image_def)

lemma equal_keys_equal_hash:
  "rec_fits kd r1 \<Longrightarrow> rec_fits kd r2 \<Longrightarrow> \<not> hp_rec_key_cmp so kd r1 r2 \<Longrightarrow> hp_rec_hashnr so kd r1 = hp_rec_hashnr so kd r2"
  by (rule hp_rec_hashnr_image) (simp add: hp_rec_key_cmp_image)

subsection \<open>The table code reads only the records of the table\<close>

text \<open>\<open>move_last\<close> and \<open>link_insert\<close> compute the hash numbers of records in the table only.\<close>

lemma move_last_cong:
  assumes ts: "table_size bl n" and p: "p \<le> n" and eq: "\<And>j. j \<le> n \<Longrightarrow> j \<noteq> p \<Longrightarrow> h (dat e j) = h' (dat e j)"
  shows "move_last h e bl0 bl n p = move_last h' e bl0 bl n p"
proof (cases "p = n \<or> length e \<le> n")
  case True
  then show ?thesis by (auto simp: move_last_def link_at_def)
next
  case False
  with p have n: "h (dat e n) = h' (dat e n)" "n \<noteq> 0" using eq [of n] by auto
  let ?pos = "hash_mask (h' (dat e n)) bl n"
  have pos: "?pos < n" by (rule hash_mask_grow(3) [OF ts n(2)])
  have "?pos \<noteq> p \<Longrightarrow> h (dat e ?pos) = h' (dat e ?pos)" using eq [of ?pos] pos by simp
  with n False pos show ?thesis by (auto simp: move_last_def link_at_def Let_def)
qed

text \<open>
  The loop that splits a bucket stays within the first \<open>n\<close> cells, whose records are in \<open>D\<close>.
\<close>

definition split_within :: "'r set \<Rightarrow> nat \<Rightarrow> 'r split \<Rightarrow> bool" where
  "split_within D n s \<longleftrightarrow> n < length (sp_links s) \<and>
     (\<forall>j < n. dat (sp_links s) j \<in> D \<and> (\<forall>k. nxt (sp_links s) j = Some k \<longrightarrow> k < n)) \<and>
     (lowfind s \<longrightarrow> sp_rec s \<in> D) \<and> (highfind s \<longrightarrow> sp_rec2 s \<in> D)"

lemma nth_update_if: "xs[i := x] ! j = (if i = j \<and> i < length xs then x else xs ! j)"
  by (cases "i < length xs") (auto simp: nth_list_update list_update_beyond)

lemma split_within_put:
  assumes "split_within D n s" "r \<in> D" "\<And>k. nx = Some k \<Longrightarrow> k < n"
  shows "split_within D n (s\<lparr>sp_links := put_link (sp_links s) g r nx\<rparr>)"
  using assms by (auto simp: split_within_def put_link_def nth_update_if)

lemma split_within_fields:
  "split_within D n (s\<lparr>lowused := a\<rparr>) = split_within D n s" "split_within D n (s\<lparr>highused := a\<rparr>) = split_within D n s"
  "split_within D n (s\<lparr>sp_gpos := g\<rparr>) = split_within D n s" "split_within D n (s\<lparr>sp_gpos2 := g\<rparr>) = split_within D n s"
  "r \<in> D \<Longrightarrow> split_within D n s \<Longrightarrow> split_within D n (s\<lparr>sp_rec := r\<rparr>)"
  "r \<in> D \<Longrightarrow> split_within D n s \<Longrightarrow> split_within D n (s\<lparr>sp_rec2 := r\<rparr>)"
  unfolding split_within_def by simp_all

lemma split_step_within:
  assumes s: "split_within D n s" and pos: "pos < n" and r: "r = dat (sp_links s) pos"
  shows "split_within D n (split_step mv pos r s)"
proof -
  have rD: "r \<in> D" using s pos r by (simp add: split_within_def)
  have put: "split_within D n (s\<lparr>sp_links := put_link (sp_links s) g r' (Some pos)\<rparr>)" if "r' \<in> D" for g r'
    using split_within_put [OF s that, of "Some pos" g] pos by simp
  have lo: "lowfind s \<Longrightarrow> sp_rec s \<in> D" and hi: "highfind s \<Longrightarrow> sp_rec2 s \<in> D" using s by (simp_all add: split_within_def)
  show ?thesis
  proof (cases mv)
    case False
    show ?thesis
    proof (cases "lowfind s")
      case True
      let ?s = "if \<not> lowused s then s\<lparr>sp_links := put_link (sp_links s) (sp_gpos s) (sp_rec s) (Some pos),
          lowused := True, highused := False\<rparr> else s"
      have "split_within D n ?s"
        using s put [OF lo [OF True], of "sp_gpos s"] by (simp only: split_within_fields split: if_split) simp
      then have "split_within D n (?s\<lparr>sp_gpos := pos, sp_rec := r\<rparr>)"
        using split_within_fields rD by (simp only: split_within_fields)
      with False True show ?thesis by (simp only: split_step_def Let_def if_True if_False simp_thms)
    qed (use False s rD in \<open>simp add: split_step_def split_within_def\<close>)
  next
    case mv: True
    show ?thesis
    proof (cases "highfind s")
      case True
      let ?s = "if \<not> highused s then s\<lparr>sp_links := put_link (sp_links s) (sp_gpos2 s) (sp_rec2 s) (Some pos),
          highused := True, lowused := False\<rparr> else s"
      have "split_within D n ?s"
        using s put [OF hi [OF True], of "sp_gpos2 s"] by (simp only: split_within_fields split: if_split) simp
      then have "split_within D n (?s\<lparr>sp_gpos2 := pos, sp_rec2 := r\<rparr>)"
        using split_within_fields rD by (simp only: split_within_fields)
      with mv True show ?thesis by (simp only: split_step_def Let_def if_True if_False simp_thms)
    qed (use mv s rD in \<open>simp add: split_step_def split_within_def\<close>)
  qed
qed

lemma split_loop_cong:
  assumes run: "split_loop h hb s pos = Some y" and eq: "\<And>r. r \<in> D \<Longrightarrow> h r = h' r"
    and s: "split_within D n s" and pos: "pos < n"
  shows "split_loop h' hb s pos = Some y"
proof -
  define P where "P = (\<lambda>g hb s pos y. g = h \<longrightarrow> split_within D n s \<longrightarrow> pos < n \<longrightarrow> split_loop h' hb s pos = Some y)"
  have "P h hb s pos y"
  proof (rule split_loop.raw_induct [where P = P, OF _ run])
    fix loop g hb s pos y
    assume IH: "\<And>g hb s pos y. loop g hb s pos = Some y \<Longrightarrow> P g hb s pos y"
      and eq1: "do { l \<leftarrow> link_at (sp_links s) pos;
        let s = split_step (g (hl_data l) AND hb \<noteq> 0) pos (hl_data l) s in do {
          l \<leftarrow> link_at (sp_links s) pos;
          case hl_next l of None \<Rightarrow> Some s | Some pos \<Rightarrow> loop g hb s pos } } = Some y"
    show "P g hb s pos y"
      unfolding P_def
    proof (intro impI)
      assume g: "g = h" and w: "split_within D n s" and pos: "pos < n"
      let ?r = "dat (sp_links s) pos"
      let ?s = "split_step (h' ?r AND hb \<noteq> 0) pos ?r s"
      have l: "link_at (sp_links s) pos = Some (sp_links s ! pos)" and rD: "?r \<in> D"
        using w pos by (auto simp: split_within_def link_at_def)
      have w': "split_within D n ?s" by (rule split_step_within [OF w pos refl])
      then have l': "link_at (sp_links ?s) pos = Some (sp_links ?s ! pos)" and nx: "\<And>k. nxt (sp_links ?s) pos = Some k \<Longrightarrow> k < n"
        using pos by (auto simp: split_within_def link_at_def)
      have y: "(case nxt (sp_links ?s) pos of None \<Rightarrow> Some ?s | Some pos \<Rightarrow> loop g hb ?s pos) = Some y"
        using eq1 by (simp only: g l l' eq [OF rD] Let_def Option.bind.simps)
      show "split_loop h' hb s pos = Some y"
      proof (cases "nxt (sp_links ?s) pos")
        case None
        with y l l' show ?thesis by (simp add: split_loop.simps [of h' hb s pos] Let_def)
      next
        case (Some k)
        with y have "P g hb ?s k y" using IH by simp
        with g w' nx [OF Some] have "split_loop h' hb ?s k = Some y" by (simp add: P_def)
        with Some l l' show ?thesis by (simp add: split_loop.simps [of h' hb s pos] Let_def)
      qed
    qed
  qed
  with s pos show ?thesis by (simp add: P_def)
qed

lemma split_bucket_cong:
  assumes run: "split_bucket h e bl n r = Some res" and ts: "table_size bl n" and n: "n < length e"
    and D: "\<And>j. j < n \<Longrightarrow> dat e j \<in> D" "\<And>j k. j < n \<Longrightarrow> nxt e j = Some k \<Longrightarrow> k < n"
    and eq: "\<And>r. r \<in> D \<Longrightarrow> h r = h' r"
  shows "split_bucket h' e bl n r = Some res"
proof (cases "n - drop_bit 1 bl = n")
  case True
  with run show ?thesis by (simp add: split_bucket_def)
next
  case False
  let ?f = "n - drop_bit 1 bl"
  let ?s = "\<lparr>sp_links = e, lowfind = False, lowused = False, highfind = False, highused = False,
             sp_gpos = 0, sp_rec = r, sp_gpos2 = 0, sp_rec2 = r, sp_empty = n\<rparr>"
  have f: "?f < n" using False by linarith
  then have l: "link_at e ?f = Some (e ! ?f)" using n by (simp add: link_at_def)
  have hf: "h (dat e ?f) = h' (dat e ?f)" by (rule eq [OF D(1) [OF f]])
  have w: "split_within D n ?s" using n D by (simp add: split_within_def)
  show ?thesis
  proof (cases "hash_mask (h' (dat e ?f)) bl n = ?f")
    case True
    then obtain y where y: "split_loop h (drop_bit 1 bl) ?s ?f = Some y"
      using run False l hf by (cases "split_loop h (drop_bit 1 bl) ?s ?f") (simp_all add: split_bucket_def Let_def)
    have "split_loop h' (drop_bit 1 bl) ?s ?f = Some y" by (rule split_loop_cong [OF y eq w f])
    with run y False l hf True show ?thesis by (simp add: split_bucket_def Let_def)
  next
    case ne: False
    with run False l hf show ?thesis by (simp add: split_bucket_def Let_def)
  qed
qed

lemma chains_next:
  assumes c: "chains A e m ch" and j: "j \<in> A" "nxt e j = Some k"
  shows "k \<in> A"
proof -
  obtain xs where "path e (Some j) (j # xs) None" "set (j # xs) \<subseteq> A" using chain_suffix [OF c j(1)] by blast
  with j(2) show ?thesis by (cases xs) auto
qed

lemma recs_mem: "finite A \<Longrightarrow> r \<in># recs A e \<longleftrightarrow> (\<exists>j \<in> A. dat e j = r)"
  by (auto simp: recs_def)

lemma bucket_cong:
  assumes c: "chains A e m ch" and eq: "\<And>j. j \<in> A \<Longrightarrow> m (dat e j) = m' (dat e j)"
  shows "chains A e m' ch"
proof (rule chainsI)
  fix g
  show "distinct (ch g)" by (rule chainsD(1) [OF c])
  show "set (ch g) = {j \<in> A. m' (dat e j) = g}" using chainsD(2) [OF c, of g] eq by auto
  show "ch g \<noteq> [] \<Longrightarrow> hd (ch g) = g" by (rule chainsD(3) [OF c])
  show "ch g \<noteq> [] \<Longrightarrow> path e (Some g) (ch g) None" by (rule chainsD(4) [OF c])
qed

lemma link_wf_hash_cong:
  assumes wf: "link_wf h e bl n" and eq: "\<And>r. r \<in># recs {..<n} e \<Longrightarrow> h r = h' r"
  shows "link_wf h' e bl n"
proof -
  obtain ch where c: "chains {..<n} e (bucket h bl n) ch" using wf by (auto simp: link_wf_def)
  have "chains {..<n} e (bucket h' bl n) ch"
  proof (rule bucket_cong [OF c])
    fix j assume "j \<in> {..<n}"
    then have "h (dat e j) = h' (dat e j)" by (intro eq) (auto simp: recs_mem)
    then show "bucket h bl n (dat e j) = bucket h' bl n (dat e j)" by simp
  qed
  with wf show ?thesis by (auto simp: link_wf_def)
qed

lemma link_insert_fresh:
  assumes wf: "link_wf h e bl n" and n: "n < length e" and r: "r \<notin># recs {..<n} e"
  shows "\<exists>e' q ch. link_insert h e bl n r hr = Some (e', q) \<and> length e' = length e \<and>
     link_wf (h(r := hr)) e' (next_size bl n) (n + 1) \<and> recs {..<n + 1} e' = add_mset r (recs {..<n} e) \<and>
     chains {..<n + 1} e' (bucket (h(r := hr)) (next_size bl n) (n + 1)) ch \<and>
     (let idx = hash_mask hr bl (n + 1) in
        idx \<le> n \<and> e' ! idx = \<lparr>hl_next = q, hl_data = r\<rparr>)"
proof -
  let ?h = "h(r := hr)"
  define D where "D = dat e ` {..<n}"
  have eq: "?h x = h x" if "x \<in> D" for x using that r by (auto simp: D_def recs_mem)
  have wf': "link_wf ?h e bl n" using r by (intro link_wf_hash_cong [OF wf]) auto
  obtain e' q ch where i: "link_insert ?h e bl n r hr = Some (e', q)" "length e' = length e"
    "link_wf ?h e' (next_size bl n) (n + 1)" "recs {..<n + 1} e' = add_mset r (recs {..<n} e)"
    "chains {..<n + 1} e' (bucket ?h (next_size bl n) (n + 1)) ch"
    "let idx = hash_mask hr bl (n + 1) in idx \<le> n \<and> e' ! idx = \<lparr>hl_next = q, hl_data = r\<rparr>"
    using link_insert_correct [OF wf' n, of r hr] by auto
  obtain c where ts: "table_size bl n" and c: "chains {..<n} e (bucket ?h bl n) c"
    using wf' by (auto simp: link_wf_def)
  obtain e1 p ch1 where sp: "split_bucket ?h e bl n r = Some (e1, p)" "length e1 = length e" "p \<le> n"
    "recs ({..n} - {p}) e1 = recs {..<n} e"
    using split_bucket_correct [OF ts n c] by blast
  have sp': "split_bucket h e bl n r = Some (e1, p)"
    using chains_next [OF c] eq by (intro split_bucket_cong [OF sp(1) ts n, of D]) (auto simp: D_def)
  let ?idx = "hash_mask hr bl (n + 1)"
  have idx: "?idx \<le> n" using i(6) by (simp add: Let_def)
  have "h (dat e1 ?idx) = ?h (dat e1 ?idx)" if "?idx \<noteq> p"
  proof -
    have "dat e1 ?idx \<in># recs ({..n} - {p}) e1" using idx that by (auto simp: recs_mem)
    then obtain j where "j < n" "dat e j = dat e1 ?idx" unfolding sp(4) by (auto simp: recs_mem)
    then have "dat e1 ?idx \<in> D" unfolding D_def by (metis imageI lessThan_iff)
    then show ?thesis by (rule eq [symmetric])
  qed
  then have "link_insert h e bl n r hr = link_insert ?h e bl n r hr"
    using sp' sp(1,2) idx n by (simp add: link_insert_def Let_def link_at_def)
  with i show ?thesis by auto
qed


subsection \<open>The free cell\<close>

definition key_room_wf :: "HP_KEYDEF \<Rightarrow> nat \<Rightarrow> bool" where
  "key_room_wf kd n \<longleftrightarrow> (let b = kd_block kd in
     block_wf b \<and> length (kd_cells kd) = room b \<and> n \<le> last_allocated b \<and> last_allocated b \<le> room b \<and>
     room b < last_allocated b + records_in_block b)"

definition same_key :: "HP_KEYDEF \<Rightarrow> HP_KEYDEF \<Rightarrow> bool" where
  "same_key kd kd' \<longleftrightarrow> kd_flag kd' = kd_flag kd \<and> kd_seg kd' = kd_seg kd \<and> kd_length kd' = kd_length kd \<and>
     records_in_block (kd_block kd') = records_in_block (kd_block kd)"

lemma same_keyD:
  assumes "same_key kd kd'"
  shows "hp_rec_hashnr so kd' = hp_rec_hashnr so kd" "hp_rec_key_cmp so kd' = hp_rec_key_cmp so kd"
    "rec_fits kd' = rec_fits kd" "nosame kd' = nosame kd" "hp_hashnr so kd' = hp_hashnr so kd"
    "hp_key_cmp so kd' = hp_key_cmp so kd" "key_image so kd' = key_image so kd" "hp_make_key kd' = hp_make_key kd"
  using assms by (simp_all add: same_key_def hp_rec_hashnr_def hp_rec_key_cmp_def rec_fits_def nosame_def
    hp_hashnr_def hp_key_cmp_def key_image_def hp_make_key_def fun_eq_iff)

lemma same_key_refl [simp]: "same_key kd kd" "same_key kd (kd\<lparr>kd_cells := e\<rparr>)"
  by (simp_all add: same_key_def)

lemma same_key_trans: "same_key a b \<Longrightarrow> same_key b c \<Longrightarrow> same_key a c"
  by (simp add: same_key_def)

lemma block_fields [simp]:
  "block_wf (b\<lparr>last_allocated := x\<rparr>) = block_wf b" "room (b\<lparr>last_allocated := x\<rparr>) = room b"
  "hp_find_block (b\<lparr>last_allocated := x\<rparr>) pos = hp_find_block b pos"
proof -
  have "find_from (b\<lparr>last_allocated := x\<rparr>) i p pos = find_from b i p pos" for i p pos
    by (induction i arbitrary: p pos) (simp_all add: level_at_def)
  then show "hp_find_block (b\<lparr>last_allocated := x\<rparr>) pos = hp_find_block b pos" by (simp add: hp_find_block_def)
qed (simp_all add: block_wf_def level_ok_def room_def)

lemma hp_find_free_hash_correct:
  assumes wf: "key_room_wf kd n" and cap: "n < max_cells (records_in_block (kd_block kd))"
  shows "\<exists>kd' len a. hp_find_free_hash mem junk kd n = Some (kd', len, a) \<and> same_key kd kd' \<and>
    (case a of
       None \<Rightarrow> kd' = kd \<and> last_allocated (kd_block kd) = n \<and> (\<exists>x. \<not> mem x)
     | Some a \<Rightarrow> key_room_wf kd' (n + 1) \<and> n < length (kd_cells kd') \<and>
         hp_find_block (kd_block kd') n = Some a \<and> take (length (kd_cells kd)) (kd_cells kd') = kd_cells kd \<and>
         length (kd_cells kd) \<le> length (kd_cells kd'))"
proof -
  let ?b = "kd_block kd" and ?r = "records_in_block (kd_block kd)"
  have W: "block_wf ?b" "length (kd_cells kd) = room ?b" "n \<le> last_allocated ?b" "last_allocated ?b \<le> room ?b"
    "room ?b < last_allocated ?b + ?r"
    using wf by (simp_all add: key_room_wf_def Let_def)
  have r0: "0 < ?r" by (rule block_wfD(2) [OF W(1)])
  show ?thesis
  proof (cases "n < last_allocated ?b")
    case True
    then have "hp_find_block ?b n = Some (cell_addr ?r n)" using W(4) by (intro hp_find_block_correct [OF W(1)]) simp
    with True W show ?thesis by (simp add: hp_find_free_hash_def key_room_wf_def)
  next
    case False
    with W(3) have la: "last_allocated ?b = n" by simp
    show ?thesis
    proof (cases "n mod ?r = 0")
      case md: False
      have n: "n < room ?b"
      proof (rule ccontr)
        assume "\<not> n < room ?b"
        with W(4) la have "n = room ?b" by simp
        with md show False by (simp add: room_def)
      qed
      then have "chunks ?b \<noteq> 0" by (metis less_nat_zero_code mult_0 room_def)
      have "chunks ?b - 1 = n div ?r"
      proof (rule sym, rule div_nat_eqI)
        show "?r * (chunks ?b - 1) \<le> n" using W(5) la \<open>chunks ?b \<noteq> 0\<close> by (cases "chunks ?b") (simp_all add: room_def algebra_simps)
        show "n < ?r * Suc (chunks ?b - 1)" using n \<open>chunks ?b \<noteq> 0\<close> by (simp add: room_def mult.commute)
      qed
      moreover have "0 < levels ?b" using block_wfD(7) [OF W(1) \<open>chunks ?b \<noteq> 0\<close>] by (simp add: tree_levels_def)
      then have "level_ok ?b 0" by (rule block_wfD(10) [OF W(1) \<open>chunks ?b \<noteq> 0\<close>])
      ultimately have lb: "last_blocks (level_infos ?b ! 0) = Some (node_at 0 (n div ?r))" by (simp add: level_ok_def)
      have l0: "level_at ?b 0 = Some (level_infos ?b ! 0)" using block_wfD(1) [OF W(1)] by (simp add: level_at_def)
      let ?kd = "kd\<lparr>kd_block := ?b\<lparr>last_allocated := n + 1\<rparr>\<rparr>"
      have "level_at (kd_block ?kd) 0 = level_at ?b 0" by (simp add: level_at_def)
      then have "hp_find_free_hash mem junk kd n = Some (?kd, 0, Some (cell_addr ?r n))"
        using False md l0 lb by (simp add: hp_find_free_hash_def Let_def cell_addr_def)
      with W n la hp_find_block_correct [OF W(1) n] show ?thesis by (simp add: key_room_wf_def same_key_def)
    next
      case md: True
      have nr: "n = room ?b"
      proof -
        obtain c where c: "n = c * ?r" using md by (metis dvd_eq_mod_eq_0 dvd_div_mult_self)
        with W(4,5) la have "c * ?r \<le> chunks ?b * ?r" "chunks ?b * ?r < Suc c * ?r" by (simp_all add: room_def)
        then have "c = chunks ?b" using r0 by (simp only: mult_le_cancel2 mult_less_cancel2) simp
        with c show ?thesis by (simp add: room_def)
      qed
      with cap have "chunks ?b * ?r < block_cap ?r * ?r" by (simp only: room_def max_cells_def)
      then have ch: "chunks ?b < block_cap ?r" by (simp only: mult_less_cancel2)
      obtain len b' err where g: "hp_get_new_block mem ?b = Some (b', len, err)" "err = (\<not> mem len)"
        "if err then b' = ?b else block_wf b' \<and> chunks b' = chunks ?b + 1 \<and> records_in_block b' = ?r \<and>
         recbuffer b' = recbuffer ?b \<and> last_allocated b' = last_allocated ?b \<and>
         last_blocks (level_infos b' ! 0) = Some (node_at 0 (chunks ?b))"
        using hp_get_new_block_correct [OF W(1) ch, of mem] by blast
      show ?thesis
      proof (cases err)
        case True
        then have "hp_find_free_hash mem junk kd n = Some (kd, 0, None)"
          using False md g by (simp add: hp_find_free_hash_def Let_def)
        with la g(2) True show ?thesis by auto
      next
        case noerr: False
        with g(3) have B: "block_wf b'" "chunks b' = chunks ?b + 1" "records_in_block b' = ?r" "last_allocated b' = n"
          "last_blocks (level_infos b' ! 0) = Some (node_at 0 (chunks ?b))" using la by simp_all
        let ?e = "kd_cells kd @ map junk [length (kd_cells kd)..<length (kd_cells kd) + ?r]"
        let ?kd = "kd\<lparr>kd_block := b'\<lparr>last_allocated := n + 1\<rparr>, kd_cells := ?e\<rparr>"
        have l0: "level_at (kd_block ?kd) 0 = Some (level_infos b' ! 0)" using block_wfD(1) [OF B(1)] by (simp add: level_at_def)
        have "n div ?r = chunks ?b" using nr r0 by (simp add: room_def)
        then have run: "hp_find_free_hash mem junk kd n = Some (?kd, len, Some (cell_addr ?r n))"
          using False md g(1) noerr l0 B(3,5) by (simp add: hp_find_free_hash_def Let_def cell_addr_def)
        have rm: "room b' = room ?b + ?r" using B(2,3) by (simp add: room_def)
        have "hp_find_block b' n = Some (cell_addr ?r n)"
          using hp_find_block_correct [OF B(1), of n] rm nr r0 B(3) by simp
        with run W B nr rm r0 show ?thesis by (simp add: key_room_wf_def same_key_def)
      qed
    qed
  qed
qed

subsection \<open>Writing a key\<close>

definition key_wf :: "(haddr \<Rightarrow> nat) \<Rightarrow> HP_KEYDEF \<Rightarrow> nat \<Rightarrow> nat \<Rightarrow> bool" where
  "key_wf h kd bl n \<longleftrightarrow> link_wf h (kd_cells kd) bl n \<and> key_room_wf kd n"

definition key_recs :: "HP_KEYDEF \<Rightarrow> nat \<Rightarrow> haddr multiset" where
  "key_recs kd n = recs {..<n} (kd_cells kd)"

lemma size_key_recs: "size (key_recs kd n) = n"
  by (simp add: key_recs_def recs_def)

text \<open>The chain of a new record, after the cell it is in.\<close>

lemma new_chain:
  assumes c: "chains {..<n + 1} e (bucket h bl' (n + 1)) ch" and r: "e ! idx = \<lparr>hl_next = q, hl_data = r\<rparr>"
    and idx: "idx \<le> n" "bucket h bl' (n + 1) r = idx" and rc: "recs {..<n + 1} e = add_mset r B" "r \<notin># B"
  shows "\<exists>ws. path e q ws None \<and> dat e ` set ws = {p. p \<in># B \<and> bucket h bl' (n + 1) p = idx}"
proof -
  let ?m = "bucket h bl' (n + 1)"
  have i: "idx \<in> {..<n + 1}" "?m (dat e idx) = idx" using idx r by simp_all
  obtain ws where ws: "ch idx = idx # ws" using chain_head(3) [OF c i] by blast
  then have p: "path e q ws None" using chainsD(4) [OF c, of idx] r by simp
  have B: "B = recs ({..<n + 1} - {idx}) e"
  proof -
    have "recs {..<n + 1} e = add_mset (dat e idx) (recs ({..<n + 1} - {idx}) e)"
      using i(1) by (simp add: recs_def mset_set.remove)
    with rc(1) r show ?thesis by simp
  qed
  have s: "set ws = {j \<in> {..<n + 1}. ?m (dat e j) = idx} - {idx}"
    using chainsD(1,2) [OF c, of idx] ws by auto
  have "dat e ` set ws = {p. p \<in># B \<and> ?m p = idx}"
    unfolding s B by (auto simp: recs_mem)
  with p show ?thesis by blast
qed

lemma hp_write_key_correct:
  assumes wf: "key_wf (key_hash so rd kd) kd bl n" and r: "recpos \<notin># key_recs kd n"
    and cap: "n < max_cells (records_in_block (kd_block kd))"
    and fits: "rec_fits kd record" "\<And>p. p \<in># key_recs kd n \<Longrightarrow> rec_fits kd (rd p)"
  shows "\<exists>kd' len res. hp_write_key mem junk so rd bl n kd record recpos = Some (kd', len, res) \<and> same_key kd kd' \<and>
    (if res = - 1 then kd' = kd \<and> last_allocated (kd_block kd) = n \<and> (\<exists>x. \<not> mem x)
     else key_wf ((key_hash so rd kd)(recpos := unat (hp_rec_hashnr so kd record))) kd' (next_size bl n) (n + 1) \<and>
       key_recs kd' (n + 1) = add_mset recpos (key_recs kd n) \<and>
       res = (if nosame kd \<and> (\<exists>p \<in># key_recs kd n. \<not> hp_rec_key_cmp so kd record (rd p)) then HA_ERR_FOUND_DUPP_KEY else 0))"
proof -
  let ?hr = "unat (hp_rec_hashnr so kd record)" and ?h = "key_hash so rd kd"
  have W: "link_wf ?h (kd_cells kd) bl n" "key_room_wf kd n" using wf by (simp_all add: key_wf_def)
  obtain kd1 len a where f: "hp_find_free_hash mem junk kd n = Some (kd1, len, a)" "same_key kd kd1"
    "case a of None \<Rightarrow> kd1 = kd \<and> last_allocated (kd_block kd) = n \<and> (\<exists>x. \<not> mem x)
     | Some a \<Rightarrow> key_room_wf kd1 (n + 1) \<and> n < length (kd_cells kd1) \<and>
         hp_find_block (kd_block kd1) n = Some a \<and> take (length (kd_cells kd)) (kd_cells kd1) = kd_cells kd \<and>
         length (kd_cells kd) \<le> length (kd_cells kd1)"
    using hp_find_free_hash_correct [OF W(2) cap, of mem junk] by blast
  note sk = same_keyD [OF f(2)]
  show ?thesis
  proof (cases a)
    case None
    then have "hp_write_key mem junk so rd bl n kd record recpos = Some (kd1, len, - 1)" by (simp add: hp_write_key_def f(1))
    with f None show ?thesis by auto
  next
    case (Some ad)
    let ?e1 = "kd_cells kd1"
    have A: "key_room_wf kd1 (n + 1)" "n < length ?e1" "take (length (kd_cells kd)) ?e1 = kd_cells kd"
      "length (kd_cells kd) \<le> length ?e1" using f(3) Some by simp_all
    have nl: "n \<le> length (kd_cells kd)" using W(1) by (simp add: link_wf_def)
    have "take n ?e1 = take n (take (length (kd_cells kd)) ?e1)" using nl by (simp add: min_absorb1)
    then have tk: "take n ?e1 = take n (kd_cells kd)" by (simp only: A(3))
    have lw: "link_wf ?h ?e1 bl n" and rc1: "recs {..<n} ?e1 = key_recs kd n"
      using link_wf_cong [OF W(1) tk] by (simp_all add: key_recs_def)
    have r1: "recpos \<notin># recs {..<n} ?e1" using r rc1 by simp
    let ?h' = "?h(recpos := ?hr)" and ?idx = "hash_mask ?hr bl (n + 1)"
    obtain e q ch where i: "link_insert ?h ?e1 bl n recpos ?hr = Some (e, q)" "length e = length ?e1"
      "link_wf ?h' e (next_size bl n) (n + 1)" "recs {..<n + 1} e = add_mset recpos (key_recs kd n)"
      "chains {..<n + 1} e (bucket ?h' (next_size bl n) (n + 1)) ch"
      "?idx \<le> n" "e ! ?idx = \<lparr>hl_next = q, hl_data = recpos\<rparr>"
      using link_insert_fresh [OF lw A(2) r1, of ?hr] unfolding rc1 Let_def by blast
    have ts: "table_size bl n" using lw by (simp add: link_wf_def)
    have same: "hash_mask x (next_size bl n) (n + 1) = hash_mask x bl (n + 1)" for x
      unfolding next_size_def using table_size_grow(2) [OF ts] by simp
    obtain ws where ws: "path e q ws None"
      "dat e ` set ws = {p. p \<in># key_recs kd n \<and> bucket ?h' (next_size bl n) (n + 1) p = ?idx}"
      using new_chain [OF i(5,7,6) _ i(4) r] same by auto
    let ?P = "\<lambda>p. \<not> hp_rec_key_cmp so kd record (rd p)"
    have dupl: "(\<exists>j \<in> set ws. ?P (dat e j)) \<longleftrightarrow> (\<exists>p \<in># key_recs kd n. ?P p)"
    proof
      assume "\<exists>j \<in> set ws. ?P (dat e j)"
      then obtain j where j: "j \<in> set ws" "?P (dat e j)" by blast
      then have "dat e j \<in> dat e ` set ws" by blast
      with j(2) ws(2) show "\<exists>p \<in># key_recs kd n. ?P p" by auto
    next
      assume "\<exists>p \<in># key_recs kd n. ?P p"
      then obtain p where p: "p \<in># key_recs kd n" "?P p" by blast
      have "hp_rec_hashnr so kd record = hp_rec_hashnr so kd (rd p)"
        by (rule equal_keys_equal_hash [OF fits(1) fits(2) [OF p(1)] p(2)])
      moreover have "p \<noteq> recpos" using p(1) r by auto
      ultimately have "p \<in> dat e ` set ws" using p(1) same by (simp add: ws(2))
      with p(2) show "\<exists>j \<in> set ws. ?P (dat e j)" by blast
    qed
    let ?kd = "kd1\<lparr>kd_cells := e\<rparr>"
    have "same_key kd ?kd" using f(2) by (simp add: same_key_def)
    note sk' = same_keyD [OF this]
    have dup: "(case q of Some emp \<Rightarrow> if nosame kd then search_link ?P (\<lambda>_. False) e False emp else Some None | None \<Rightarrow> Some None) =
       Some (if nosame kd then find (\<lambda>j. ?P (dat e j)) ws else None)"
      using search_link_none [OF ws(1), of _ ?P "\<lambda>_. False"] ws(1) by (cases q; cases ws) (auto split: option.split)
    have fn: "find (\<lambda>j. ?P (dat e j)) ws \<noteq> None \<longleftrightarrow> (\<exists>p \<in># key_recs kd n. ?P p)"
      using dupl by (auto simp: find_None_iff)
    have run: "hp_write_key mem junk so rd bl n kd record recpos = Some (?kd, len,
        if nosame kd \<and> (\<exists>p \<in># key_recs kd n. ?P p) then HA_ERR_FOUND_DUPP_KEY else 0)"
    proof -
      have "hp_write_key mem junk so rd bl n kd record recpos = Some (?kd, len,
          if (if nosame kd then find (\<lambda>j. ?P (dat e j)) ws else None) = None then 0 else HA_ERR_FOUND_DUPP_KEY)"
        using dup unfolding sk' [symmetric] by (simp add: hp_write_key_def Let_def f(1) Some sk i(1))
      also have "\<dots> = Some (?kd, len, if nosame kd \<and> (\<exists>p \<in># key_recs kd n. ?P p) then HA_ERR_FOUND_DUPP_KEY else 0)"
        using fn by (cases "nosame kd") auto
      finally show ?thesis .
    qed
    have "key_room_wf ?kd (n + 1)" using A(1) i(2) by (simp add: key_room_wf_def)
    then have "key_wf ?h' ?kd (next_size bl n) (n + 1)" using i(3) by (simp add: key_wf_def)
    moreover have "key_recs ?kd (n + 1) = add_mset recpos (key_recs kd n)" using i(4) by (simp add: key_recs_def)
    moreover have "same_key kd ?kd" using f(2) by (simp add: same_key_def)
    ultimately show ?thesis using run by (auto simp: ha_errors)
  qed
qed

subsection \<open>Deleting a key\<close>

definition last_same :: "(haddr \<Rightarrow> bool) \<Rightarrow> haddr hlink list \<Rightarrow> nat option \<Rightarrow> nat list \<Rightarrow> nat option" where
  "last_same same e l js = foldl (\<lambda>l j. if same (dat e j) then Some j else l) l js"

lemma last_same_cases: "last_same same e l js = l \<or> (\<exists>j \<in> set js. same (dat e j) \<and> last_same same e l js = Some j)"
  by (induction js arbitrary: l) (auto simp: last_same_def)

lemma find_key_eval [code]:
  "find_key same e recpos gpos last_ptr pos =
     (if pos < length e then
        (if hl_data (e ! pos) = recpos then Some (Some (gpos, pos, last_ptr))
         else (case hl_next (e ! pos) of
             None \<Rightarrow> Some None
           | Some p \<Rightarrow> find_key same e recpos (Some pos) (if same (hl_data (e ! pos)) then Some pos else last_ptr) p))
      else None)"
  by (simp add: find_key.simps [of same e recpos gpos last_ptr pos] link_at_def Let_def)

lemma find_key_path:
  "path e (Some x) (x # xs) None \<Longrightarrow>
   find_key same e r g l x = (case find_link e r g x of
       None \<Rightarrow> None
     | Some None \<Rightarrow> Some None
     | Some (Some (gp, p)) \<Rightarrow> Some (Some (gp, p, last_same same e l (takeWhile (\<lambda>j. dat e j \<noteq> r) (x # xs)))))"
proof (induction xs arbitrary: x g l)
  case Nil
  then show ?case by (simp add: find_key_eval [of _ _ _ _ _ x] find_link_eval [of _ _ _ x] last_same_def)
next
  case (Cons y ys)
  then have "path e (Some y) (y # ys) None" by simp
  note IH = Cons.IH [OF this]
  from Cons.prems show ?case
    by (subst find_key_eval, subst find_link_eval)
      (auto simp: IH last_same_def split: option.splits)
qed

lemma hp_delete_key_correct:
  assumes wf: "key_wf ((key_hash so rd kd)(recpos := unat (hp_rec_hashnr so kd record))) kd bl0 (n + 1)"
    and r: "count (key_recs kd (n + 1)) recpos = 1"
  shows "\<exists>kd' cur. hp_delete_key so rd (prev_size bl0 n) n kd record recpos flag = Some (kd', 0, cur) \<and> same_key kd kd' \<and>
     key_wf (key_hash so rd kd) kd' (prev_size bl0 n) n \<and> key_recs kd (n + 1) = add_mset recpos (key_recs kd' n) \<and>
     kd_block kd' = kd_block kd \<and>
     (if flag then cur = Some (None, None) \<or> (\<exists>i p. cur = Some (Some i, Some p) \<and> p \<in># key_recs kd' n \<and>
          \<not> hp_rec_key_cmp so kd record (rd p)) else cur = None)"
proof -
  let ?e = "kd_cells kd" and ?hr = "unat (hp_rec_hashnr so kd record)" and ?h = "key_hash so rd kd"
  let ?h' = "?h(recpos := ?hr)" and ?bl = "prev_size bl0 n" and ?m = "bucket (?h(recpos := ?hr)) bl0 (n + 1)"
  have lw: "link_wf ?h' ?e bl0 (n + 1)" and kr: "key_room_wf kd (n + 1)" using wf by (simp_all add: key_wf_def)
  obtain ch where ts: "table_size bl0 (n + 1)" and len: "n + 1 \<le> length ?e" and c: "chains {..<n + 1} ?e ?m ch"
    using lw by (auto simp: link_wf_def)
  have bl: "(if n + 1 = ?bl then ?bl + ?bl else ?bl) = bl0" "table_size ?bl n"
    using table_size_shrink [of bl0 n] ts unfolding prev_size_def by simp_all
  have "recpos \<in># recs {..<n + 1} ?e" using r by (simp add: key_recs_def flip: count_greater_zero_iff)
  then obtain j where j: "j \<in> {..<n + 1}" "dat ?e j = recpos" by (auto simp: recs_mem)
  let ?idx = "hash_mask ?hr bl0 (n + 1)"
  have mr: "?m (dat ?e j) = ?idx" by (simp add: j(2))
  note hd = chain_head [OF c j(1) mr]
  have jc: "j \<in> set (ch ?idx)" using chain_mem [OF c, of j ?idx] j(1) mr by simp
  obtain us i ws where i: "ch ?idx = us @ i # ws" "dat ?e i = recpos"
    "find_link ?e recpos None ?idx = Some (Some (if us = [] then None else Some (last us), i))"
    using find_link_chain(2) [OF c hd(1,2) jc j(2)] by blast
  let ?same = "\<lambda>p. flag \<and> \<not> hp_rec_key_cmp so kd record (rd p)"
  obtain t where t: "ch ?idx = ?idx # t" using hd(3) by blast
  then have pt: "path ?e (Some ?idx) (?idx # t) None" using chainsD(4) [OF c, of ?idx] by simp
  let ?last = "last_same ?same ?e None (takeWhile (\<lambda>j. dat ?e j \<noteq> recpos) (?idx # t))"
  have fk: "find_key ?same ?e recpos None None ?idx = Some (Some (if us = [] then None else Some (last us), i, ?last))"
    using find_key_path [OF pt, of ?same recpos None None] i(3) by simp
  have last: "?last = None \<or> (\<exists>k < n + 1. ?last = Some k \<and> dat ?e k \<noteq> recpos \<and> flag \<and> \<not> hp_rec_key_cmp so kd record (rd (dat ?e k)))"
  proof -
    have "k < n + 1 \<and> dat ?e k \<noteq> recpos" if "k \<in> set (takeWhile (\<lambda>j. dat ?e j \<noteq> recpos) (?idx # t))" for k
    proof -
      have "k \<in> set (ch ?idx)" "dat ?e k \<noteq> recpos" using that unfolding t by (blast dest: set_takeWhileD)+
      then show ?thesis using chain_mem [OF c, of k ?idx] by simp
    qed
    with last_same_cases [of ?same ?e None "takeWhile (\<lambda>j. dat ?e j \<noteq> recpos) (?idx # t)"] show ?thesis by blast
  qed
  have A: "{..<n + 1} = {..n}" by auto
  obtain e1 p ch1 where u: "unlink ?e (if us = [] then None else Some (last us)) i = Some (e1, p)"
    "length e1 = length ?e" "p \<le> n" "recs {..n} ?e = add_mset (dat ?e i) (recs ({..n} - {p}) e1)"
    using unlink_correct [OF c _ i(1)] unfolding A by auto
  obtain e1' p' e2 where d: "unlink ?e (if us = [] then None else Some (last us)) i = Some (e1', p')"
    "move_last ?h' e1' bl0 ?bl n p' = Some e2" "length e2 = length ?e" "link_wf ?h' e2 ?bl n"
    "recs {..<n + 1} ?e = add_mset (dat ?e i) (recs {..<n} e2)"
    using link_delete_correct [OF lw c i(1)] by blast
  from d(1) u(1) have "e1' = e1" "p' = p" by simp_all
  note e2 = d(2-5) [unfolded this]
  have c0: "count (recs {..<n} e2) recpos = 0" "count (recs ({..n} - {p}) e1) recpos = 0"
    using r e2(4) u(4) i(2) A by (simp_all add: key_recs_def)
  have "?h (dat e1 k) = ?h' (dat e1 k)" if "k \<le> n" "k \<noteq> p" for k
  proof -
    have "dat e1 k \<in># recs ({..n} - {p}) e1" using that by (auto simp: recs_mem)
    with c0(2) have "dat e1 k \<noteq> recpos" by (metis count_eq_zero_iff)
    then show ?thesis by simp
  qed
  then have ml: "move_last ?h e1 bl0 ?bl n p = Some e2"
    using move_last_cong [OF bl(2) u(3), of ?h e1 ?h' bl0] e2(1) by simp
  have lw2: "link_wf ?h e2 ?bl n"
    using c0(1) by (intro link_wf_hash_cong [OF e2(3)]) (auto simp: count_eq_zero_iff)
  let ?kd = "kd\<lparr>kd_cells := e2\<rparr>"
  let ?cur = "if flag then Some (?last, map_option (\<lambda>k. dat ?e k) ?last) else None"
  have cur: "(if flag then (case ?last of None \<Rightarrow> Some (Some (None, None))
      | Some i \<Rightarrow> do { l \<leftarrow> link_at ?e i; Some (Some (Some i, Some (hl_data l))) }) else Some None) = Some ?cur"
    using last len by (auto simp: link_at_def split: option.split)
  have run: "hp_delete_key so rd ?bl n kd record recpos flag = Some (?kd, 0, ?cur)"
  proof -
    define la where "la = ?last"
    note fk' = fk [folded la_def] and cur' = cur [folded la_def]
    show ?thesis unfolding hp_delete_key_def bl(1) Let_def fk' la_def [symmetric]
      by (simp only: bind.bind_lunit option.case prod.case cur' u(1) ml refl)
  qed
  have "key_wf ?h ?kd ?bl n"
    using lw2 kr e2(2) by (simp add: key_wf_def key_room_wf_def Let_def)
  moreover have rc: "key_recs kd (n + 1) = add_mset recpos (key_recs ?kd n)"
    using e2(4) i(2) by (simp add: key_recs_def)
  moreover have "if flag then ?cur = Some (None, None) \<or> (\<exists>i p. ?cur = Some (Some i, Some p) \<and> p \<in># key_recs ?kd n \<and>
          \<not> hp_rec_key_cmp so kd record (rd p)) else ?cur = None"
  proof (cases "?last = None \<or> \<not> flag")
    case False
    with last obtain k where k: "k < n + 1" "?last = Some k" "dat ?e k \<noteq> recpos" "\<not> hp_rec_key_cmp so kd record (rd (dat ?e k))"
      by auto
    have "dat ?e k \<in># key_recs kd (n + 1)" using k(1) by (auto simp: key_recs_def recs_mem)
    with rc k(3) have "dat ?e k \<in># key_recs ?kd n" by auto
    with k False show ?thesis by simp
  qed auto
  ultimately show ?thesis using run by (intro exI [of _ ?kd] exI [of _ ?cur]) (simp add: same_key_def)
qed

end
