(* ===== verification/HeapTable.thy ===== *)
theory HeapTable
  imports HeapKeySpec
begin

text \<open>
  The tables of the heap engine: the structures of include/heap.h and the operations that write,
  delete and update records (heap/hp_write.c, heap/hp_delete.c, heap/hp_update.c,
  heap/_rectest.c).

  A record is the bytes of its cell in the data blocks; the byte after the record is 1 while it
  is in use. The first 8 bytes of a deleted cell hold the pointer to the next one. How pointers
  look as bytes, what new memory holds and whether an allocation succeeds (of data blocks,
  number 0, and of the blocks of index \<open>k\<close>, number \<open>k + 1\<close>) is given by a record \<open>hp_env\<close>.
\<close>

subsection \<open>Structures\<close>

record hp_env =
  env_sort_order :: "uchar \<Rightarrow> uchar"
  env_alloc :: "nat \<Rightarrow> nat \<Rightarrow> bool"
  env_hash_junk :: "nat \<Rightarrow> nat \<Rightarrow> haddr hlink"
  env_junk :: "nat \<Rightarrow> nat \<Rightarrow> uchar"
  env_ptr_bytes :: "haddr option \<Rightarrow> bytes"
  env_bytes_ptr :: "bytes \<Rightarrow> haddr option"
  env_dbug :: bool

record HP_SHARE =
  hs_block :: HP_BLOCK
  hs_data :: "blkptr \<rightharpoonup> bytes list"
  hs_keydef :: "HP_KEYDEF list"
  hs_min_records :: nat
  hs_max_records :: nat
  hs_data_length :: nat
  hs_index_length :: nat
  hs_records :: nat
  hs_blength :: nat
  hs_deleted :: nat
  hs_reclength :: nat
  hs_changed :: bool
  hs_max_key_length :: nat
  hs_open_count :: nat
  hs_del_link :: "haddr option"
  hs_name :: string
  hs_delete_on_close :: bool

text \<open>The field \<open>hi_errno\<close> is the variable \<open>my_errno\<close> of the thread that uses the handle.\<close>

record HP_INFO =
  hi_current_ptr :: "haddr option"
  hi_current_hash_ptr :: "nat option"
  hi_current_record :: ulong
  hi_next_block :: ulong
  hi_lastinx :: int
  hi_errkey :: int
  hi_mode :: uint
  hi_opt_flag :: uint
  hi_update :: uint
  hi_lastkey :: bytes
  hi_errno :: int

definition HA_STATE_AKTIV :: uint where "HA_STATE_AKTIV = 2"
definition HA_STATE_DELETED :: uint where "HA_STATE_DELETED = 8"
definition HA_STATE_NEXT_FOUND :: uint where "HA_STATE_NEXT_FOUND = 16"
definition HA_STATE_PREV_FOUND :: uint where "HA_STATE_PREV_FOUND = 32"
definition READ_CHECK_USED :: uint where "READ_CHECK_USED = 4"

definition O_RDONLY :: uint where "O_RDONLY = 0"
definition ENOENT :: int where "ENOENT = 2"
definition ENOMEM :: int where "ENOMEM = 12"
definition EACCES :: int where "EACCES = 13"

definition test_active :: "HP_INFO \<Rightarrow> bool" where
  "test_active info \<longleftrightarrow> hi_update info AND HA_STATE_AKTIV \<noteq> 0"

subsection \<open>The bytes of a cell\<close>

definition cell_at :: "HP_SHARE \<Rightarrow> haddr \<Rightarrow> bytes option" where
  "cell_at sh a = do { cs \<leftarrow> hs_data sh (fst a); if snd a < length cs then Some (cs ! snd a) else None }"

definition put_cell :: "HP_SHARE \<Rightarrow> haddr \<Rightarrow> bytes \<Rightarrow> HP_SHARE option" where
  "put_cell sh a c =
     do {
       cs \<leftarrow> hs_data sh (fst a);
       if snd a < length cs then Some (sh\<lparr>hs_data := (hs_data sh)(fst a \<mapsto> cs[snd a := c])\<rparr>) else None
     }"

definition rec_at :: "HP_SHARE \<Rightarrow> haddr \<Rightarrow> bytes" where
  "rec_at sh a = (case cell_at sh a of None \<Rightarrow> [] | Some c \<Rightarrow> take (hs_reclength sh) c)"

text \<open>The byte \<open>pos[share->reclength]\<close>, and \<open>memcpy\<close> of \<open>n\<close> bytes to the start of a buffer.\<close>

definition in_use :: "HP_SHARE \<Rightarrow> bytes \<Rightarrow> bool" where
  "in_use sh c \<longleftrightarrow> c ! hs_reclength sh \<noteq> 0"

definition memcpy :: "bytes \<Rightarrow> bytes \<Rightarrow> nat \<Rightarrow> bytes" where
  "memcpy dst src n = take n src @ drop n dst"

definition link_of :: "hp_env \<Rightarrow> bytes \<Rightarrow> haddr option" where
  "link_of env c = env_bytes_ptr env (take 8 c)"

text \<open>The statements that put a cell in front of the list of deleted ones.\<close>

definition free_cell :: "hp_env \<Rightarrow> HP_SHARE \<Rightarrow> haddr \<Rightarrow> HP_SHARE option" where
  "free_cell env sh pos =
     do {
       c \<leftarrow> cell_at sh pos;
       sh \<leftarrow> put_cell sh pos ((memcpy c (env_ptr_bytes env (hs_del_link sh)) 8)[hs_reclength sh := 0]);
       Some (sh\<lparr>hs_deleted := hs_deleted sh + 1, hs_del_link := Some pos\<rparr>)
     }"

definition hp_rectest :: "HP_SHARE \<Rightarrow> HP_INFO \<Rightarrow> bytes \<Rightarrow> (HP_INFO \<times> int) option" where
  "hp_rectest sh info old =
     do {
       a \<leftarrow> hi_current_ptr info;
       c \<leftarrow> cell_at sh a;
       if take (hs_reclength sh) c \<noteq> take (hs_reclength sh) old
       then Some (info\<lparr>hi_errno := HA_ERR_RECORD_CHANGED\<rparr>, HA_ERR_RECORD_CHANGED)
       else Some (info, 0)
     }"

subsection \<open>Writing\<close>

text \<open>A null pointer in the result comes with the error number.\<close>

definition next_free_record_pos :: "hp_env \<Rightarrow> HP_SHARE \<Rightarrow> (HP_SHARE \<times> (haddr + int)) option" where
  "next_free_record_pos env sh =
     (case hs_del_link sh of
        Some pos \<Rightarrow> do {
          c \<leftarrow> cell_at sh pos;
          Some (sh\<lparr>hs_del_link := link_of env c, hs_deleted := hs_deleted sh - 1\<rparr>, Inl pos)
        }
      | None \<Rightarrow> do {
          let block_pos = hs_records sh mod records_in_block (hs_block sh);
          (sh, err) \<leftarrow>
            (if block_pos \<noteq> 0 then Some (sh, 0)
             else if hs_max_records sh < hs_records sh \<and> hs_max_records sh \<noteq> 0 then Some (sh, HA_ERR_RECORD_FILE_FULL)
             else do {
               (b, len, err) \<leftarrow> hp_get_new_block (env_alloc env 0) (hs_block sh);
               if err then Some (sh, ENOMEM)
               else do {
                 l \<leftarrow> level_at b 0;
                 p \<leftarrow> last_blocks l;
                 let cs = map (\<lambda>i. map (\<lambda>j. env_junk env (chunks b * records_in_block b + i) j) [0..<recbuffer b])
                            [0..<records_in_block b];
                 Some (sh\<lparr>hs_block := b, hs_data := (hs_data sh)(p \<mapsto> cs), hs_data_length := hs_data_length sh + len\<rparr>, 0)
               }
             });
          if err \<noteq> 0 then Some (sh, Inr err)
          else do {
            l \<leftarrow> level_at (hs_block sh) 0;
            p \<leftarrow> last_blocks l;
            Some (sh, Inl (p, block_pos))
          }
        })"

text \<open>
  One call of \<open>_hp_write_key\<close> or \<open>_hp_delete_key\<close> for the index with a number. The calls
  also set \<open>my_errno\<close>: \<open>my_malloc\<close> does where there is no memory.
\<close>

definition write_key :: "hp_env \<Rightarrow> HP_SHARE \<Rightarrow> HP_INFO \<Rightarrow> nat \<Rightarrow> bytes \<Rightarrow> haddr \<Rightarrow> (HP_SHARE \<times> HP_INFO \<times> int) option" where
  "write_key env sh info key record pos =
     (if key < length (hs_keydef sh) then do {
        (kd, len, res) \<leftarrow> hp_write_key (env_alloc env (key + 1)) (env_hash_junk env key) (env_sort_order env) (rec_at sh)
           (hs_blength sh) (hs_records sh) (hs_keydef sh ! key) record pos;
        Some (sh\<lparr>hs_keydef := (hs_keydef sh)[key := kd], hs_index_length := hs_index_length sh + len\<rparr>,
              if res = 0 then info else info\<lparr>hi_errno := (if res = - 1 then ENOMEM else res)\<rparr>, res)
      } else None)"

definition delete_key :: "hp_env \<Rightarrow> HP_SHARE \<Rightarrow> HP_INFO \<Rightarrow> nat \<Rightarrow> bytes \<Rightarrow> haddr \<Rightarrow> bool \<Rightarrow> (HP_SHARE \<times> HP_INFO \<times> int) option" where
  "delete_key env sh info key record pos flag =
     (if key < length (hs_keydef sh) then do {
        (kd, res, cur) \<leftarrow> hp_delete_key (env_sort_order env) (rec_at sh) (hs_blength sh) (hs_records sh)
           (hs_keydef sh ! key) record pos flag;
        Some (sh\<lparr>hs_keydef := (hs_keydef sh)[key := kd]\<rparr>,
              (case cur of
                 None \<Rightarrow> if res = 0 then info else info\<lparr>hi_errno := res\<rparr>
               | Some (hp, p) \<Rightarrow> info\<lparr>hi_current_hash_ptr := hp, hi_current_ptr := p\<rparr>), res)
      } else None)"

text \<open>The loops over the indexes; the result is the number of the index that failed.\<close>

primrec write_keys :: "hp_env \<Rightarrow> HP_SHARE \<Rightarrow> HP_INFO \<Rightarrow> nat list \<Rightarrow> bytes \<Rightarrow> haddr \<Rightarrow>
    (HP_SHARE \<times> HP_INFO \<times> nat option) option" where
  "write_keys env sh info [] record pos = Some (sh, info, None)"
| "write_keys env sh info (key # ks) record pos =
     do {
       (sh, info, res) \<leftarrow> write_key env sh info key record pos;
       if res \<noteq> 0 then Some (sh, info, Some key) else write_keys env sh info ks record pos
     }"

primrec undo_write :: "hp_env \<Rightarrow> HP_SHARE \<Rightarrow> HP_INFO \<Rightarrow> nat list \<Rightarrow> bytes \<Rightarrow> haddr \<Rightarrow> (HP_SHARE \<times> HP_INFO) option" where
  "undo_write env sh info [] record pos = Some (sh, info)"
| "undo_write env sh info (key # ks) record pos =
     do {
       (sh, info, res) \<leftarrow> delete_key env sh info key record pos False;
       if res \<noteq> 0 then Some (sh, info) else undo_write env sh info ks record pos
     }"

definition count_up :: "HP_SHARE \<Rightarrow> HP_SHARE" where
  "count_up sh = (let n = hs_records sh + 1
     in sh\<lparr>hs_records := n, hs_blength := (if n = hs_blength sh then hs_blength sh + hs_blength sh else hs_blength sh)\<rparr>)"

definition count_down :: "HP_SHARE \<Rightarrow> HP_SHARE" where
  "count_down sh = (let n = hs_records sh - 1
     in sh\<lparr>hs_records := n, hs_blength := (if n < hs_blength sh div 2 then hs_blength sh div 2 else hs_blength sh)\<rparr>)"

definition heap_write :: "hp_env \<Rightarrow> HP_SHARE \<Rightarrow> HP_INFO \<Rightarrow> bytes \<Rightarrow> (HP_SHARE \<times> HP_INFO \<times> int) option" where
  "heap_write env sh info record =
     (if env_dbug env \<and> hi_mode info AND O_RDONLY \<noteq> 0 then Some (sh, info\<lparr>hi_errno := EACCES\<rparr>, EACCES)
      else do {
        (sh, r) \<leftarrow> next_free_record_pos env sh;
        case r of
          Inr err \<Rightarrow> Some (sh, info\<lparr>hi_errno := err\<rparr>, err)
        | Inl pos \<Rightarrow>
            do {
              let sh = sh\<lparr>hs_changed := True\<rparr>;
              (sh, info, failed) \<leftarrow> write_keys env sh info [0..<length (hs_keydef sh)] record pos;
              case failed of
                None \<Rightarrow> do {
                  c \<leftarrow> cell_at sh pos;
                  sh \<leftarrow> put_cell sh pos ((memcpy c record (hs_reclength sh))[hs_reclength sh := 1]);
                  Some (count_up sh, info\<lparr>hi_current_ptr := Some pos, hi_current_hash_ptr := None,
                    hi_update := hi_update info OR HA_STATE_AKTIV\<rparr>, 0)
                }
              | Some key \<Rightarrow> do {
                  (sh, info) \<leftarrow> undo_write env sh (info\<lparr>hi_errkey := int key\<rparr>) (rev [0..<key + 1]) record pos;
                  sh \<leftarrow> free_cell env sh pos;
                  Some (sh, info, hi_errno info)
                }
            }
      })"

subsection \<open>Deleting\<close>

primrec delete_keys :: "hp_env \<Rightarrow> HP_SHARE \<Rightarrow> HP_INFO \<Rightarrow> nat list \<Rightarrow> bytes \<Rightarrow> haddr \<Rightarrow>
    (HP_SHARE \<times> HP_INFO \<times> bool) option" where
  "delete_keys env sh info [] record pos = Some (sh, info, False)"
| "delete_keys env sh info (key # ks) record pos =
     do {
       (sh, info, res) \<leftarrow> delete_key env sh info key record pos (int key = hi_lastinx info);
       if res \<noteq> 0 then Some (sh, info, True) else delete_keys env sh info ks record pos
     }"

definition heap_delete :: "hp_env \<Rightarrow> HP_SHARE \<Rightarrow> HP_INFO \<Rightarrow> bytes \<Rightarrow> (HP_SHARE \<times> HP_INFO \<times> int) option" where
  "heap_delete env sh info record =
     (if \<not> test_active info then Some (sh, info\<lparr>hi_errno := HA_ERR_NO_ACTIVE_RECORD\<rparr>, - 1)
      else do {
        (info, changed) \<leftarrow> (if hi_opt_flag info AND READ_CHECK_USED \<noteq> 0 then hp_rectest sh info record else Some (info, 0));
        if changed \<noteq> 0 then Some (sh, info, hi_errno info)
        else do {
          let sh = count_down (sh\<lparr>hs_changed := True\<rparr>);
          pos \<leftarrow> hi_current_ptr info;
          (sh, info, err) \<leftarrow> delete_keys env sh info [0..<length (hs_keydef sh)] record pos;
          if err then Some (count_up sh, info, hi_errno info)
          else do {
            sh \<leftarrow> free_cell env sh pos;
            Some (sh, info\<lparr>hi_update := HA_STATE_DELETED, hi_current_hash_ptr := None\<rparr>, 0)
          }
        }
      })"

subsection \<open>Updating\<close>

text \<open>The two calls for one index: its key for \<open>old\<close> is replaced by that for \<open>new\<close>. The result says whether one failed.\<close>

definition replace_key :: "hp_env \<Rightarrow> HP_SHARE \<Rightarrow> HP_INFO \<Rightarrow> nat \<Rightarrow> bytes \<Rightarrow> bytes \<Rightarrow> haddr \<Rightarrow> bool \<Rightarrow>
    (HP_SHARE \<times> HP_INFO \<times> bool) option" where
  "replace_key env sh info key old new pos flag =
     do {
       (sh, info, res) \<leftarrow> delete_key env sh info key old pos flag;
       if res \<noteq> 0 then Some (sh, info, True)
       else do {
         (sh, info, res) \<leftarrow> write_key env sh info key new pos;
         Some (sh, info, res \<noteq> 0)
       }
     }"

definition key_changes :: "hp_env \<Rightarrow> HP_SHARE \<Rightarrow> nat \<Rightarrow> bytes \<Rightarrow> bytes \<Rightarrow> bool" where
  "key_changes env sh key old new \<longleftrightarrow> hp_rec_key_cmp (env_sort_order env) (hs_keydef sh ! key) old new"

primrec update_keys :: "hp_env \<Rightarrow> HP_SHARE \<Rightarrow> HP_INFO \<Rightarrow> nat list \<Rightarrow> bytes \<Rightarrow> bytes \<Rightarrow> haddr \<Rightarrow>
    (HP_SHARE \<times> HP_INFO \<times> nat option) option" where
  "update_keys env sh info [] old new pos = Some (sh, info, None)"
| "update_keys env sh info (key # ks) old new pos =
     do {
       (sh, info, err) \<leftarrow>
         (if key_changes env sh key old new then replace_key env sh info key old new pos (int key = hi_lastinx info)
          else Some (sh, info, False));
       if err then Some (sh, info, Some key) else update_keys env sh info ks old new pos
     }"

primrec undo_update :: "hp_env \<Rightarrow> HP_SHARE \<Rightarrow> HP_INFO \<Rightarrow> nat list \<Rightarrow> bytes \<Rightarrow> bytes \<Rightarrow> haddr \<Rightarrow>
    (HP_SHARE \<times> HP_INFO) option" where
  "undo_update env sh info [] old new pos = Some (sh, info)"
| "undo_update env sh info (key # ks) old new pos =
     do {
       (sh, info, err) \<leftarrow>
         (if key_changes env sh key old new then replace_key env sh info key new old pos False
          else Some (sh, info, False));
       if err then Some (sh, info) else undo_update env sh info ks old new pos
     }"

definition heap_update :: "hp_env \<Rightarrow> HP_SHARE \<Rightarrow> HP_INFO \<Rightarrow> bytes \<Rightarrow> bytes \<Rightarrow> (HP_SHARE \<times> HP_INFO \<times> int) option" where
  "heap_update env sh info old heap_new =
     (if \<not> test_active info then Some (sh, info\<lparr>hi_errno := HA_ERR_NO_ACTIVE_RECORD\<rparr>, - 1)
      else do {
        (info, changed) \<leftarrow> (if hi_opt_flag info AND READ_CHECK_USED \<noteq> 0 then hp_rectest sh info old else Some (info, 0));
        if changed \<noteq> 0 then Some (sh, info, hi_errno info)
        else do {
          pos \<leftarrow> hi_current_ptr info;
          let sh = (count_down sh)\<lparr>hs_changed := True\<rparr>;
          (sh, info, failed) \<leftarrow> update_keys env sh info [0..<length (hs_keydef sh)] old heap_new pos;
          case failed of
            None \<Rightarrow> do {
              c \<leftarrow> cell_at sh pos;
              sh \<leftarrow> put_cell sh pos (memcpy c heap_new (hs_reclength sh));
              Some (count_up sh, info, 0)
            }
          | Some key \<Rightarrow> do {
              (sh, info) \<leftarrow>
                (if hi_errno info = HA_ERR_FOUND_DUPP_KEY
                 then undo_update env sh (info\<lparr>hi_errkey := int key\<rparr>) (rev [0..<key + 1]) old heap_new pos
                 else Some (sh, info));
              Some (count_up sh, info, hi_errno info)
            }
        }
      })"

end
