(* ===== verification/HeapIndexSpec.thy ===== *)
theory HeapIndexSpec
  imports HeapTable
begin

text \<open>
  What an index of a heap table is: \<open>index_wf\<close> says that it holds exactly the records of a set,
  each once, under the hash numbers of their keys; \<open>index_ok\<close> adds that keys of an index with
  \<open>HA_NOSAME\<close> are different. The calls of \<open>_hp_write_key\<close> and \<open>_hp_delete_key\<close> add and remove
  one record, also while the record in memory is not yet, or no longer, the one in the index.
\<close>

definition key_fits :: "nat \<Rightarrow> HP_KEYDEF \<Rightarrow> bool" where
  "key_fits reclength kd \<longleftrightarrow> (\<forall>sg \<in> set (kd_seg kd). seg_start sg + seg_length sg \<le> reclength)"

lemma key_fits_rec: "key_fits (length rec) kd \<longleftrightarrow> rec_fits kd rec"
  by (simp add: key_fits_def rec_fits_def)

definition index_wf :: "(uchar \<Rightarrow> uchar) \<Rightarrow> (haddr \<Rightarrow> bytes) \<Rightarrow> nat \<Rightarrow> nat \<Rightarrow> haddr set \<Rightarrow> HP_KEYDEF \<Rightarrow> bool" where
  "index_wf so rd bl n S kd \<longleftrightarrow>
     finite S \<and> key_wf (key_hash so rd kd) kd bl n \<and> key_recs kd n = mset_set S \<and> (\<forall>p \<in> S. rec_fits kd (rd p))"

definition unique_keys :: "(uchar \<Rightarrow> uchar) \<Rightarrow> (haddr \<Rightarrow> bytes) \<Rightarrow> haddr set \<Rightarrow> HP_KEYDEF \<Rightarrow> bool" where
  "unique_keys so rd S kd \<longleftrightarrow> (nosame kd \<longrightarrow> inj_on (\<lambda>p. key_image so kd (rd p)) S)"

definition index_ok :: "(uchar \<Rightarrow> uchar) \<Rightarrow> (haddr \<Rightarrow> bytes) \<Rightarrow> nat \<Rightarrow> nat \<Rightarrow> haddr set \<Rightarrow> HP_KEYDEF \<Rightarrow> bool" where
  "index_ok so rd bl n S kd \<longleftrightarrow> index_wf so rd bl n S kd \<and> unique_keys so rd S kd"

text \<open>A record that may not be added to an index with \<open>HA_NOSAME\<close>.\<close>

definition dup_key :: "(uchar \<Rightarrow> uchar) \<Rightarrow> (haddr \<Rightarrow> bytes) \<Rightarrow> haddr set \<Rightarrow> bytes \<Rightarrow> HP_KEYDEF \<Rightarrow> bool" where
  "dup_key so rd S record kd \<longleftrightarrow> nosame kd \<and> (\<exists>p \<in> S. key_image so kd (rd p) = key_image so kd record)"

lemma index_mem:
  assumes "index_wf so rd bl n S kd"
  shows "p \<in># key_recs kd n \<longleftrightarrow> p \<in> S" "count (key_recs kd n) p = (if p \<in> S then 1 else 0)" "card S = n"
proof -
  show "p \<in># key_recs kd n \<longleftrightarrow> p \<in> S" "count (key_recs kd n) p = (if p \<in> S then 1 else 0)"
    using assms by (auto simp: index_wf_def count_mset_set')
  have "size (key_recs kd n) = size (mset_set S)" using assms by (simp add: index_wf_def)
  then show "card S = n" by (simp add: size_key_recs)
qed

lemma key_hash_upd: "key_hash so (rd(pos := record)) kd = (key_hash so rd kd)(pos := unat (hp_rec_hashnr so kd record))"
  by (simp add: fun_eq_iff)

lemma index_wf_cong:
  assumes wf: "index_wf so rd bl n S kd" and eq: "\<And>p. p \<in> S \<Longrightarrow> rd' p = rd p"
  shows "index_wf so rd' bl n S kd"
proof -
  have "link_wf (key_hash so rd' kd) (kd_cells kd) bl n"
  proof (rule link_wf_hash_cong)
    show "link_wf (key_hash so rd kd) (kd_cells kd) bl n" using wf by (simp add: index_wf_def key_wf_def)
    fix r assume "r \<in># recs {..<n} (kd_cells kd)"
    then have "r \<in> S" using index_mem(1) [OF wf, of r] by (simp add: key_recs_def)
    then show "key_hash so rd kd r = key_hash so rd' kd r" by (simp add: eq)
  qed
  with wf eq show ?thesis by (auto simp: index_wf_def key_wf_def)
qed

lemma unique_keys_cong: "unique_keys so rd S kd \<Longrightarrow> (\<And>p. p \<in> S \<Longrightarrow> rd' p = rd p) \<Longrightarrow> unique_keys so rd' S kd"
  by (auto simp: unique_keys_def inj_on_def)

lemma index_ok_cong: "index_ok so rd bl n S kd \<Longrightarrow> (\<And>p. p \<in> S \<Longrightarrow> rd' p = rd p) \<Longrightarrow> index_ok so rd' bl n S kd"
  unfolding index_ok_def by (blast intro: index_wf_cong unique_keys_cong)

lemma unique_keys_insert:
  assumes "unique_keys so rd S kd" "pos \<notin> S"
  shows "unique_keys so (rd(pos := record)) (insert pos S) kd \<longleftrightarrow> \<not> dup_key so rd S record kd"
proof -
  have "(\<lambda>p. key_image so kd ((rd(pos := record)) p)) ` S = (\<lambda>p. key_image so kd (rd p)) ` S"
    using assms(2) by (intro image_cong) auto
  moreover have "inj_on (\<lambda>p. key_image so kd ((rd(pos := record)) p)) S = inj_on (\<lambda>p. key_image so kd (rd p)) S"
    using assms(2) by (intro inj_on_cong) auto
  moreover have "(\<exists>p \<in> S. key_image so kd (rd p) = key_image so kd record) \<longleftrightarrow> key_image so kd record \<in> (\<lambda>p. key_image so kd (rd p)) ` S"
    by (metis (no_types, lifting) image_iff)
  ultimately show ?thesis using assms by (simp add: unique_keys_def dup_key_def)
qed

lemma unique_keys_mono: "unique_keys so rd S kd \<Longrightarrow> T \<subseteq> S \<Longrightarrow> unique_keys so rd T kd"
  by (auto simp: unique_keys_def intro: inj_on_subset)

lemma same_key_unique: "same_key kd kd' \<Longrightarrow> unique_keys so rd S kd' = unique_keys so rd S kd"
  by (simp add: unique_keys_def same_keyD)

lemma same_key_dup: "same_key kd kd' \<Longrightarrow> dup_key so rd S record kd' = dup_key so rd S record kd"
  by (simp add: dup_key_def same_keyD)

lemma index_write:
  assumes ok: "index_wf so rd bl n S kd" and pos: "pos \<notin> S" and cap: "n < max_cells (records_in_block (kd_block kd))"
    and fits: "rec_fits kd record"
  shows "\<exists>kd' len res. hp_write_key mem junk so rd bl n kd record pos = Some (kd', len, res) \<and> same_key kd kd' \<and>
    (if res = - 1 then kd' = kd \<and> last_allocated (kd_block kd) = n \<and> (\<exists>x. \<not> mem x)
     else index_wf so (rd(pos := record)) (next_size bl n) (n + 1) (insert pos S) kd' \<and>
       res = (if dup_key so rd S record kd then HA_ERR_FOUND_DUPP_KEY else 0))"
proof -
  note W = ok [unfolded index_wf_def]
  have "pos \<notin># key_recs kd n" using pos by (simp add: index_mem(1) [OF ok])
  moreover have "\<And>p. p \<in># key_recs kd n \<Longrightarrow> rec_fits kd (rd p)" using W by (simp add: index_mem(1) [OF ok])
  ultimately obtain kd' len res where run: "hp_write_key mem junk so rd bl n kd record pos = Some (kd', len, res)" "same_key kd kd'"
    and r: "if res = - 1 then kd' = kd \<and> last_allocated (kd_block kd) = n \<and> (\<exists>x. \<not> mem x)
     else key_wf ((key_hash so rd kd)(pos := unat (hp_rec_hashnr so kd record))) kd' (next_size bl n) (n + 1) \<and>
       key_recs kd' (n + 1) = add_mset pos (key_recs kd n) \<and>
       res = (if nosame kd \<and> (\<exists>p \<in># key_recs kd n. \<not> hp_rec_key_cmp so kd record (rd p)) then HA_ERR_FOUND_DUPP_KEY else 0)"
    using hp_write_key_correct [OF _ _ cap fits, of so rd bl pos mem junk] W by blast
  show ?thesis
  proof (cases "res = - 1")
    case True
    with run r show ?thesis by auto
  next
    case False
    with r have K: "key_wf (key_hash so (rd(pos := record)) kd') kd' (next_size bl n) (n + 1)"
      "key_recs kd' (n + 1) = add_mset pos (key_recs kd n)"
      "res = (if nosame kd \<and> (\<exists>p \<in># key_recs kd n. \<not> hp_rec_key_cmp so kd record (rd p)) then HA_ERR_FOUND_DUPP_KEY else 0)"
      unfolding key_hash_upd same_keyD(1) [OF run(2)] by simp_all
    have eq: "\<not> hp_rec_key_cmp so kd record (rd p) \<longleftrightarrow> key_image so kd (rd p) = key_image so kd record" if "p \<in> S" for p
      using hp_rec_key_cmp_image [OF fits, of "rd p" so] W that by auto
    have ex: "(\<exists>p \<in># key_recs kd n. \<not> hp_rec_key_cmp so kd record (rd p)) \<longleftrightarrow> (\<exists>p \<in> S. key_image so kd (rd p) = key_image so kd record)"
      using index_mem(1) [OF ok] eq by blast
    have dup: "res = (if dup_key so rd S record kd then HA_ERR_FOUND_DUPP_KEY else 0)"
      using K(3) unfolding ex dup_key_def .
    have "\<forall>p \<in> insert pos S. rec_fits kd ((rd(pos := record)) p)" using W fits by simp
    then have "index_wf so (rd(pos := record)) (next_size bl n) (n + 1) (insert pos S) kd'"
      using K(1,2) W pos by (simp add: index_wf_def same_keyD [OF run(2)])
    with dup run False show ?thesis by (intro exI [of _ kd'] exI [of _ len] exI [of _ res]) simp
  qed
qed

lemma index_delete:
  assumes ok: "index_wf so (rd(pos := record)) bl0 (n + 1) (insert pos S) kd" and pos: "pos \<notin> S"
  shows "\<exists>kd' cur. hp_delete_key so rd (prev_size bl0 n) n kd record pos flag = Some (kd', 0, cur) \<and> same_key kd kd' \<and>
    index_wf so rd (prev_size bl0 n) n S kd' \<and> kd_block kd' = kd_block kd \<and>
     (if flag then cur = Some (None, None) \<or> (\<exists>i p. cur = Some (Some i, Some p) \<and> p \<in> S \<and>
          key_image so kd (rd p) = key_image so kd record) else cur = None)"
proof -
  note W = ok [unfolded index_wf_def key_hash_upd]
  have "count (key_recs kd (n + 1)) pos = 1" using index_mem(2) [OF ok, of pos] by simp
  then obtain kd' cur where run: "hp_delete_key so rd (prev_size bl0 n) n kd record pos flag = Some (kd', 0, cur)" "same_key kd kd'"
     "key_wf (key_hash so rd kd) kd' (prev_size bl0 n) n" "key_recs kd (n + 1) = add_mset pos (key_recs kd' n)"
     "kd_block kd' = kd_block kd"
    and cur: "if flag then cur = Some (None, None) \<or> (\<exists>i p. cur = Some (Some i, Some p) \<and> p \<in># key_recs kd' n \<and>
          \<not> hp_rec_key_cmp so kd record (rd p)) else cur = None"
    using hp_delete_key_correct [where recpos = pos and flag = flag and so = so and rd = rd and kd = kd and n = n and ?bl0.0 = bl0] W by blast
  have fin: "finite S" using W by simp
  have rc: "key_recs kd' n = mset_set S"
    using run(4) W fin pos by (simp add: index_wf_def)
  have fits: "\<forall>p \<in> S. rec_fits kd (rd p)" using W pos by (metis fun_upd_other insert_iff)
  have wf: "index_wf so rd (prev_size bl0 n) n S kd'"
    using run(3) rc fin fits by (simp add: index_wf_def same_keyD [OF run(2)])
  have "rec_fits kd record" using W by simp
  with cur fits have "if flag then cur = Some (None, None) \<or> (\<exists>i p. cur = Some (Some i, Some p) \<and> p \<in> S \<and>
          key_image so kd (rd p) = key_image so kd record) else cur = None"
    by (auto simp: rc fin hp_rec_key_cmp_image split: if_splits)
  with run wf show ?thesis by blast
qed

end
