(* ===== verification/HeapDataSpec.thy ===== *)
theory HeapDataSpec
  imports HeapIndexSpec
begin

text \<open>
  The data blocks of a heap table: \<open>data_ok\<close> says that the first \<open>n\<close> cells have memory and that
  \<open>del_link\<close> leads through the deleted cells \<open>ds\<close>, none of which is one of the records \<open>A\<close>. The
  operations that take a cell, write it and free it keep this.
\<close>

text \<open>
  What the code relies on when it keeps pointers in the cells: reading a pointer gives what was
  written. It is asked of null and of the cells a table can have.
\<close>

definition ptr_ok :: "hp_env \<Rightarrow> nat \<Rightarrow> bool" where
  "ptr_ok env rib \<longleftrightarrow> (\<forall>q. q = None \<or> (\<exists>p < max_cells rib. q = Some (cell_addr rib p)) \<longrightarrow>
     length (env_ptr_bytes env q) = 8 \<and> env_bytes_ptr env (env_ptr_bytes env q) = q)"

primrec del_chain :: "hp_env \<Rightarrow> HP_SHARE \<Rightarrow> haddr option \<Rightarrow> haddr list \<Rightarrow> bool" where
  "del_chain env sh q [] \<longleftrightarrow> q = None"
| "del_chain env sh q (a # as) \<longleftrightarrow> q = Some a \<and>
     (case cell_at sh a of None \<Rightarrow> False | Some c \<Rightarrow> \<not> in_use sh c \<and> del_chain env sh (link_of env c) as)"

definition used_cells :: "HP_BLOCK \<Rightarrow> nat \<Rightarrow> haddr set" where
  "used_cells b n = cell_addr (records_in_block b) ` {..<n}"

definition cells_exist :: "HP_SHARE \<Rightarrow> bool" where
  "cells_exist sh \<longleftrightarrow> (\<forall>p < room (hs_block sh). \<exists>c. cell_at sh (cell_addr (records_in_block (hs_block sh)) p) = Some c \<and>
     length c = recbuffer (hs_block sh))"

definition in_use_at :: "HP_SHARE \<Rightarrow> haddr \<Rightarrow> bool" where
  "in_use_at sh a \<longleftrightarrow> (case cell_at sh a of None \<Rightarrow> False | Some c \<Rightarrow> in_use sh c)"

definition sizes_ok :: "hp_env \<Rightarrow> HP_SHARE \<Rightarrow> nat \<Rightarrow> bool" where
  "sizes_ok env sh n \<longleftrightarrow> block_wf (hs_block sh) \<and> ptr_ok env (records_in_block (hs_block sh)) \<and> 8 \<le> hs_reclength sh \<and>
     hs_reclength sh < recbuffer (hs_block sh) \<and> n \<le> room (hs_block sh) \<and>
     room (hs_block sh) < n + records_in_block (hs_block sh)"

definition data_ok :: "hp_env \<Rightarrow> HP_SHARE \<Rightarrow> nat \<Rightarrow> haddr set \<Rightarrow> haddr list \<Rightarrow> bool" where
  "data_ok env sh n A ds \<longleftrightarrow> sizes_ok env sh n \<and> cells_exist sh \<and> A \<union> set ds \<subseteq> used_cells (hs_block sh) n \<and> A \<inter> set ds = {} \<and>
     distinct ds \<and> hs_deleted sh = length ds \<and> (\<forall>a \<in> A. in_use_at sh a) \<and> del_chain env sh (hs_del_link sh) ds"

lemma data_okD:
  assumes "data_ok env sh n A ds"
  shows "sizes_ok env sh n" "cells_exist sh" "A \<subseteq> used_cells (hs_block sh) n" "set ds \<subseteq> used_cells (hs_block sh) n"
    "A \<inter> set ds = {}" "distinct ds" "hs_deleted sh = length ds" "\<And>a. a \<in> A \<Longrightarrow> in_use_at sh a" "del_chain env sh (hs_del_link sh) ds"
  using assms by (simp_all add: data_ok_def)

lemma sizes_okD:
  assumes "sizes_ok env sh n"
  shows "block_wf (hs_block sh)" "ptr_ok env (records_in_block (hs_block sh))" "8 \<le> hs_reclength sh"
    "hs_reclength sh < recbuffer (hs_block sh)" "n \<le> room (hs_block sh)"
    "room (hs_block sh) < n + records_in_block (hs_block sh)"
  using assms by (simp_all add: sizes_ok_def)

text \<open>What \<open>data_ok\<close> depends on.\<close>

lemma del_chain_cong:
  assumes "hs_reclength sh' = hs_reclength sh" "\<And>a. a \<in> set ds \<Longrightarrow> cell_at sh' a = cell_at sh a"
  shows "del_chain env sh' q ds = del_chain env sh q ds"
  using assms(2) by (induction ds arbitrary: q) (auto simp: in_use_def assms(1) split: option.split)

lemma data_ok_view:
  assumes "hs_block sh' = hs_block sh" "hs_data sh' = hs_data sh" "hs_reclength sh' = hs_reclength sh"
    "hs_deleted sh' = hs_deleted sh" "hs_del_link sh' = hs_del_link sh"
  shows "data_ok env sh' n A ds = data_ok env sh n A ds"
proof -
  have c: "cell_at sh' = cell_at sh" by (simp add: cell_at_def fun_eq_iff assms)
  have "in_use sh' = in_use sh" by (rule ext) (simp only: in_use_def assms)
  then have "in_use_at sh' = in_use_at sh" by (intro ext) (simp only: in_use_at_def c)
  moreover have "cells_exist sh' = cells_exist sh" by (simp only: cells_exist_def c assms)
  moreover have "sizes_ok env sh' n = sizes_ok env sh n" by (simp only: sizes_ok_def assms)
  moreover have "del_chain env sh' q ds = del_chain env sh q ds" for q by (rule del_chain_cong) (simp_all add: c assms)
  ultimately show ?thesis by (simp only: data_ok_def assms)
qed

lemma rec_at_cong: "cell_at sh' a = cell_at sh a \<Longrightarrow> hs_reclength sh' = hs_reclength sh \<Longrightarrow> rec_at sh' a = rec_at sh a"
  by (simp add: rec_at_def split: option.split)

lemma card_used_cells: "card (used_cells b n) = n"
  using inj_cell_addr by (simp add: used_cells_def card_image inj_on_def cell_addr_inj)

lemma finite_used_cells [simp]: "finite (used_cells b n)"
  by (simp add: used_cells_def)

lemma used_cells_Suc: "used_cells b (n + 1) = insert (cell_addr (records_in_block b) n) (used_cells b n)"
  by (simp add: used_cells_def lessThan_Suc)

lemma used_cells_new: "cell_addr (records_in_block b) n \<notin> used_cells b n"
  by (auto simp: used_cells_def dest!: cell_addr_inj)

lemma used_cell_exists:
  assumes "data_ok env sh n A ds" "pos \<in> used_cells (hs_block sh) n"
  obtains c where "cell_at sh pos = Some c" "length c = recbuffer (hs_block sh)"
proof -
  from assms(2) obtain p where p: "p < n" "pos = cell_addr (records_in_block (hs_block sh)) p"
    unfolding used_cells_def by blast
  with sizes_okD(5) [OF data_okD(1) [OF assms(1)]] have "p < room (hs_block sh)" by simp
  with data_okD(2) [OF assms(1)] p(2) that show thesis unfolding cells_exist_def by blast
qed

subsection \<open>Writing a cell\<close>

lemma put_cell_correct:
  assumes ok: "data_ok env sh n A ds" and pos: "pos \<in> used_cells (hs_block sh) n" "pos \<notin> set ds"
    and c: "length c = recbuffer (hs_block sh)"
  obtains d where "put_cell sh pos c = Some (sh\<lparr>hs_data := d\<rparr>)" "\<And>a. cell_at (sh\<lparr>hs_data := d\<rparr>) a = (if a = pos then Some c else cell_at sh a)"
    "data_ok env (sh\<lparr>hs_data := d\<rparr>) n (if in_use sh c then insert pos A else A - {pos}) ds"
proof -
  obtain c0 where c0: "cell_at sh pos = Some c0" using used_cell_exists [OF ok pos(1)] by blast
  then obtain cs where cs: "hs_data sh (fst pos) = Some cs" "snd pos < length cs"
    by (auto simp: cell_at_def bind_eq_Some_conv split: if_splits)
  let ?d = "(hs_data sh)(fst pos \<mapsto> cs[snd pos := c])"
  let ?sh = "sh\<lparr>hs_data := ?d\<rparr>"
  have at: "cell_at ?sh a = (if a = pos then Some c else cell_at sh a)" for a
    using cs by (cases a, cases pos) (auto simp: cell_at_def nth_list_update split: option.split)
  have ds: "del_chain env ?sh (hs_del_link sh) ds"
  proof -
    have "del_chain env ?sh (hs_del_link sh) ds = del_chain env sh (hs_del_link sh) ds"
      using pos(2) by (intro del_chain_cong) (auto simp: at)
    with data_okD(9) [OF ok] show ?thesis by simp
  qed
  have ex: "cells_exist ?sh" using data_okD(2) [OF ok] c by (simp add: cells_exist_def at)
  have us: "in_use_at ?sh a = (if a = pos then in_use sh c else in_use_at sh a)" for a
    by (simp add: in_use_at_def at in_use_def split: option.split)
  have "data_ok env ?sh n (if in_use sh c then insert pos A else A - {pos}) ds"
    using data_okD(1,3-8) [OF ok] pos by (auto simp: data_ok_def ds ex us sizes_ok_def)
  moreover have "put_cell sh pos c = Some ?sh" using cs by (simp add: put_cell_def)
  ultimately show ?thesis using that at by blast
qed

lemma free_cell_correct:
  assumes ok: "data_ok env sh n A ds" and pos: "pos \<in> used_cells (hs_block sh) n" "pos \<notin> set ds"
    and cap: "n \<le> max_cells (records_in_block (hs_block sh))"
  obtains d where
    "free_cell env sh pos = Some (sh\<lparr>hs_data := d, hs_deleted := Suc (hs_deleted sh), hs_del_link := Some pos\<rparr>)"
    "\<And>a. a \<noteq> pos \<Longrightarrow> cell_at (sh\<lparr>hs_data := d, hs_deleted := Suc (hs_deleted sh), hs_del_link := Some pos\<rparr>) a = cell_at sh a"
    "data_ok env (sh\<lparr>hs_data := d, hs_deleted := Suc (hs_deleted sh), hs_del_link := Some pos\<rparr>) n (A - {pos}) (pos # ds)"
proof -
  let ?rl = "hs_reclength sh" and ?l = "hs_del_link sh"
  obtain c0 where c0: "cell_at sh pos = Some c0" "length c0 = recbuffer (hs_block sh)" using used_cell_exists [OF ok pos(1)] by blast
  note S = sizes_okD [OF data_okD(1) [OF ok]]
  have "?l = None \<or> (\<exists>p < max_cells (records_in_block (hs_block sh)). ?l = Some (cell_addr (records_in_block (hs_block sh)) p))"
  proof (cases ds)
    case (Cons a as)
    then have "?l = Some a" "a \<in> used_cells (hs_block sh) n" using data_okD(9,4) [OF ok] by auto
    with cap show ?thesis by (auto simp: used_cells_def intro: less_le_trans)
  qed (use data_okD(9) [OF ok] in simp)
  with S(2) have pb: "length (env_ptr_bytes env ?l) = 8" "env_bytes_ptr env (env_ptr_bytes env ?l) = ?l" by (auto simp: ptr_ok_def)
  let ?c = "(memcpy c0 (env_ptr_bytes env ?l) 8)[?rl := 0]"
  have len: "length ?c = recbuffer (hs_block sh)" using c0(2) pb(1) S(3,4) by (simp add: memcpy_def)
  have lk: "link_of env ?c = ?l" using pb S(3) by (simp add: link_of_def memcpy_def)
  have nu: "\<not> in_use sh ?c" using len S(4) by (simp add: in_use_def)
  obtain d where d: "put_cell sh pos ?c = Some (sh\<lparr>hs_data := d\<rparr>)"
    "\<And>a. cell_at (sh\<lparr>hs_data := d\<rparr>) a = (if a = pos then Some ?c else cell_at sh a)"
    "data_ok env (sh\<lparr>hs_data := d\<rparr>) n (if in_use sh ?c then insert pos A else A - {pos}) ds"
    using put_cell_correct [OF ok pos len] by blast
  define sh1 where "sh1 = sh\<lparr>hs_data := d\<rparr>"
  define sh' where "sh' = sh\<lparr>hs_data := d, hs_deleted := Suc (hs_deleted sh), hs_del_link := Some pos\<rparr>"
  have f: "hs_block sh' = hs_block sh1" "hs_reclength sh' = hs_reclength sh1" "hs_del_link sh' = Some pos"
    "hs_deleted sh' = Suc (hs_deleted sh1)" "hs_reclength sh1 = hs_reclength sh" "hs_del_link sh1 = ?l" "hs_block sh1 = hs_block sh"
    by (simp_all add: sh'_def sh1_def)
  have at: "cell_at sh' = cell_at sh1" by (simp add: cell_at_def fun_eq_iff sh'_def sh1_def)
  note D = data_okD [OF d(3) [unfolded if_not_P [OF nu], folded sh1_def]]
  have "del_chain env sh' (hs_del_link sh') (pos # ds)"
  proof -
    have "del_chain env sh' ?l ds = del_chain env sh1 ?l ds" by (rule del_chain_cong) (simp_all only: at f)
    with D(9) show ?thesis using nu lk by (simp add: at d(2) [folded sh1_def] in_use_def f)
  qed
  moreover have "in_use sh' = in_use sh1" by (rule ext) (simp add: in_use_def f)
  then have "in_use_at sh' = in_use_at sh1" by (intro ext) (simp only: in_use_at_def at)
  moreover have "cells_exist sh' = cells_exist sh1" by (simp only: cells_exist_def at f)
  moreover have "sizes_ok env sh' n = sizes_ok env sh1 n" by (simp only: sizes_ok_def f)
  ultimately have "data_ok env sh' n (A - {pos}) (pos # ds)"
    using D(1-8) pos unfolding data_ok_def f by simp
  moreover have "free_cell env sh pos = Some sh'" using c0(1) d(1) by (simp add: free_cell_def sh'_def)
  ultimately show ?thesis using that d(2) at unfolding sh'_def sh1_def by simp
qed

subsection \<open>Taking a cell\<close>

text \<open>The cell taken is neither a record nor deleted; it stays out of both until it is written or freed.\<close>

lemma take_deleted:
  assumes ok: "data_ok env sh n A (a # as)"
  obtains c where "cell_at sh a = Some c" "hs_del_link sh = Some a"
    "data_ok env (sh\<lparr>hs_del_link := link_of env c, hs_deleted := hs_deleted sh - 1\<rparr>) n A as"
proof -
  obtain c where c: "cell_at sh a = Some c" "hs_del_link sh = Some a" "del_chain env sh (link_of env c) as"
    using data_okD(9) [OF ok] by (auto split: option.splits)
  let ?sh = "sh\<lparr>hs_del_link := link_of env c, hs_deleted := hs_deleted sh - 1\<rparr>"
  have at: "cell_at ?sh = cell_at sh" by (simp add: cell_at_def fun_eq_iff)
  have "in_use ?sh = in_use sh" by (rule ext) (simp add: in_use_def)
  then have "in_use_at ?sh = in_use_at sh" by (intro ext) (simp only: in_use_at_def at)
  moreover have "cells_exist ?sh = cells_exist sh" unfolding cells_exist_def at by simp
  moreover have "del_chain env ?sh (link_of env c) as = del_chain env sh (link_of env c) as"
    by (rule del_chain_cong) (simp, simp only: at)
  ultimately have "data_ok env ?sh n A as"
    using data_okD [OF ok] c(3) by (simp add: data_ok_def sizes_ok_def)
  with c that show ?thesis by blast
qed

lemma data_ok_none: "data_ok env sh n A ds \<Longrightarrow> hs_del_link sh = None \<longleftrightarrow> ds = []"
  by (cases ds) (auto dest: data_okD(9))

text \<open>A cell of the last block that is not yet used.\<close>

lemma take_unused:
  assumes ok: "data_ok env sh n A []" and n: "n < room (hs_block sh)"
  shows "data_ok env sh (n + 1) A []"
proof -
  have "sizes_ok env sh (n + 1)" using sizes_okD [OF data_okD(1) [OF ok]] n by (simp add: sizes_ok_def)
  moreover have "A \<subseteq> used_cells (hs_block sh) (n + 1)" using data_okD(3) [OF ok] unfolding used_cells_Suc by blast
  ultimately show ?thesis using data_okD [OF ok] by (simp add: data_ok_def)
qed

lemma last_block:
  assumes wf: "block_wf b" and n: "n < room b" "room b \<le> n + records_in_block b"
  shows "level_at b 0 = Some (level_infos b ! 0)"
    "last_blocks (level_infos b ! 0) = Some (fst (cell_addr (records_in_block b) n))"
    "snd (cell_addr (records_in_block b) n) = n mod records_in_block b"
proof -
  let ?r = "records_in_block b"
  have ch: "chunks b \<noteq> 0" using n by (cases "chunks b") (simp_all add: room_def)
  have "chunks b - 1 = n div ?r"
  proof (rule sym, rule div_nat_eqI)
    show "?r * (chunks b - 1) \<le> n" using n(2) ch by (cases "chunks b") (simp_all add: room_def algebra_simps)
    show "n < ?r * Suc (chunks b - 1)" using n(1) ch by (simp add: room_def mult.commute)
  qed
  moreover have "0 < levels b" using block_wfD(7) [OF wf ch] by (simp add: tree_levels_def)
  then have "level_ok b 0" by (rule block_wfD(10) [OF wf ch])
  ultimately show "last_blocks (level_infos b ! 0) = Some (fst (cell_addr ?r n))"
    by (simp add: level_ok_def cell_addr_def)
  show "level_at b 0 = Some (level_infos b ! 0)" using block_wfD(1) [OF wf] by (simp add: level_at_def)
  show "snd (cell_addr ?r n) = n mod ?r" by (simp add: cell_addr_def)
qed

lemma room_multiple:
  assumes ok: "sizes_ok env sh n"
  shows "n mod records_in_block (hs_block sh) = 0 \<longleftrightarrow> n = room (hs_block sh)"
proof
  let ?b = "hs_block sh" and ?r = "records_in_block (hs_block sh)"
  note S = sizes_okD [OF ok]
  assume "n mod ?r = 0"
  then obtain c where c: "n = c * ?r" by (metis dvd_eq_mod_eq_0 dvd_div_mult_self)
  with S(5,6) have "c * ?r \<le> chunks ?b * ?r" "chunks ?b * ?r < Suc c * ?r" by (simp_all add: room_def)
  then have "c = chunks ?b" using block_wfD(2) [OF S(1)] by (simp only: mult_le_cancel2 mult_less_cancel2) simp
  with c show "n = room ?b" by (simp add: room_def)
qed (simp add: room_def)

lemma new_block_cells:
  fixes l
  assumes ok: "data_ok env sh n A []" and n: "n = room (hs_block sh)" and B: "block_wf b" "chunks b = chunks (hs_block sh) + 1"
    "records_in_block b = records_in_block (hs_block sh)" "recbuffer b = recbuffer (hs_block sh)"
    and cs: "length cs = records_in_block b" "\<And>c. c \<in> set cs \<Longrightarrow> length c = recbuffer b"
  defines "sh' \<equiv> sh\<lparr>hs_block := b, hs_data := (hs_data sh)(node_at 0 (chunks (hs_block sh)) \<mapsto> cs), hs_data_length := l\<rparr>"
  shows "data_ok env sh' (n + 1) A []" "\<And>a. a \<in> A \<Longrightarrow> cell_at sh' a = cell_at sh a"
proof -
  let ?r = "records_in_block b" and ?m = "chunks (hs_block sh)"
  note S = sizes_okD [OF data_okD(1) [OF ok]]
  have r0: "0 < ?r" by (rule block_wfD(2) [OF B(1)])
  have rm: "room b = room (hs_block sh) + ?r" using B(2,3) by (simp add: room_def)
  have f: "hs_block sh' = b" "hs_reclength sh' = hs_reclength sh" "hs_del_link sh' = hs_del_link sh" "hs_deleted sh' = hs_deleted sh"
    by (simp_all add: sh'_def)
  have old: "cell_at sh' (cell_addr ?r p) = cell_at sh (cell_addr ?r p)" if "p < room (hs_block sh)" for p
  proof -
    have "p div ?r < ?m" using that r0 B(3) by (simp add: room_def less_mult_imp_div_less)
    then have "node_at 0 (p div ?r) \<noteq> node_at 0 ?m" by (metis node_at_data less_irrefl)
    then show ?thesis by (simp add: cell_at_def sh'_def cell_addr_def)
  qed
  have new: "\<exists>c. cell_at sh' (cell_addr ?r p) = Some c \<and> length c = recbuffer b" if "room (hs_block sh) \<le> p" "p < room b" for p
  proof -
    have "p div ?r = ?m" using that B(2,3) by (intro div_nat_eqI) (simp_all add: room_def mult.commute)
    then show ?thesis using cs r0 by (simp add: cell_at_def sh'_def cell_addr_def)
  qed
  show A: "cell_at sh' a = cell_at sh a" if "a \<in> A" for a
  proof -
    have "a \<in> used_cells (hs_block sh) n" using data_okD(3) [OF ok] that by blast
    then obtain p where "p < n" "a = cell_addr ?r p" unfolding used_cells_def B(3) by blast
    with old n show ?thesis by simp
  qed
  have "cells_exist sh'"
    unfolding cells_exist_def f
  proof (intro allI impI)
    fix p assume p: "p < room b"
    show "\<exists>c. cell_at sh' (cell_addr ?r p) = Some c \<and> length c = recbuffer b"
    proof (cases "p < room (hs_block sh)")
      case True
      with data_okD(2) [OF ok] old [OF True] B(3,4) show ?thesis by (simp add: cells_exist_def)
    next
      case False
      with new p show ?thesis by simp
    qed
  qed
  moreover have "sizes_ok env sh' (n + 1)" using S B rm n r0 by (simp add: sizes_ok_def f)
  moreover have "in_use_at sh' a" if "a \<in> A" for a
    using data_okD(8) [OF ok that] A [OF that] by (simp add: in_use_at_def in_use_def f split: option.splits)
  moreover have "used_cells b n = used_cells (hs_block sh) n" by (simp add: used_cells_def B(3))
  then have "A \<subseteq> used_cells b (n + 1)" using data_okD(3) [OF ok] unfolding used_cells_Suc by (simp add: subset_insertI2)
  ultimately show "data_ok env sh' (n + 1) A []"
    using data_okD(7,9) [OF ok] by (simp add: data_ok_def f)
qed

text \<open>
  \<open>next_free_record_pos\<close>: the fields it leaves alone, and the cell it returns. It fails only
  where no cell is deleted and the last block is full.
\<close>

definition same_table :: "HP_SHARE \<Rightarrow> HP_SHARE \<Rightarrow> bool" where
  "same_table sh sh' \<longleftrightarrow> hs_keydef sh' = hs_keydef sh \<and> hs_min_records sh' = hs_min_records sh \<and> hs_max_records sh' = hs_max_records sh \<and>
     hs_records sh' = hs_records sh \<and> hs_blength sh' = hs_blength sh \<and> hs_reclength sh' = hs_reclength sh \<and>
     records_in_block (hs_block sh') = records_in_block (hs_block sh) \<and> recbuffer (hs_block sh') = recbuffer (hs_block sh)"

lemma next_free_record_pos_correct:
  assumes ok: "data_ok env sh (hs_records sh + hs_deleted sh) A ds"
    and A: "A \<union> set ds = used_cells (hs_block sh) (hs_records sh + hs_deleted sh)"
    and cap: "hs_records sh + hs_deleted sh < max_cells (records_in_block (hs_block sh))"
  shows "\<exists>sh' r. next_free_record_pos env sh = Some (sh', r) \<and> same_table sh sh' \<and>
    (case r of
       Inr err \<Rightarrow> sh' = sh \<and> ds = [] \<and> (err = HA_ERR_RECORD_FILE_FULL \<and> 0 < hs_max_records sh \<and> hs_max_records sh < hs_records sh \<or> err = ENOMEM \<and> (\<exists>x. \<not> env_alloc env 0 x))
     | Inl pos \<Rightarrow> \<exists>ds'. data_ok env sh' (hs_records sh + length ds' + 1) A ds' \<and> pos \<notin> A \<union> set ds' \<and>
         used_cells (hs_block sh') (hs_records sh + length ds' + 1) = insert pos (A \<union> set ds') \<and>
         (\<forall>a \<in> A. cell_at sh' a = cell_at sh a))"
proof (cases ds)
  case (Cons a as)
  obtain c where c: "cell_at sh a = Some c" "hs_del_link sh = Some a"
    "data_ok env (sh\<lparr>hs_del_link := link_of env c, hs_deleted := hs_deleted sh - 1\<rparr>) (hs_records sh + hs_deleted sh) A as"
    using take_deleted [OF ok [unfolded Cons]] by blast
  let ?sh = "sh\<lparr>hs_del_link := link_of env c, hs_deleted := hs_deleted sh - 1\<rparr>"
  have d: "hs_deleted sh = length as + 1" using data_okD(7) [OF ok] Cons by simp
  then have "data_ok env ?sh (hs_records sh + length as + 1) A as" using c(3) by (simp add: add.assoc)
  moreover have "a \<notin> A \<union> set as" using data_okD(5,6) [OF ok] Cons by auto
  moreover have "used_cells (hs_block ?sh) (hs_records sh + length as + 1) = insert a (A \<union> set as)"
    using A d Cons by (simp add: add.assoc)
  moreover have "\<forall>x \<in> A. cell_at ?sh x = cell_at sh x" by (simp add: cell_at_def)
  ultimately have "\<exists>ds'. data_ok env ?sh (hs_records sh + length ds' + 1) A ds' \<and> a \<notin> A \<union> set ds' \<and>
         used_cells (hs_block ?sh) (hs_records sh + length ds' + 1) = insert a (A \<union> set ds') \<and> (\<forall>x \<in> A. cell_at ?sh x = cell_at sh x)"
    by blast
  moreover have "next_free_record_pos env sh = Some (?sh, Inl a)" using c by (simp add: next_free_record_pos_def)
  ultimately show ?thesis by (simp add: same_table_def)
next
  case Nil
  let ?b = "hs_block sh" and ?r = "records_in_block (hs_block sh)" and ?n = "hs_records sh"
  have d0: "hs_deleted sh = 0" using data_okD(7) [OF ok] Nil by simp
  note ok' = ok [unfolded Nil d0 add_0_right] and A' = A [unfolded Nil d0 add_0_right, simplified]
  note S = sizes_okD [OF data_okD(1) [OF ok']]
  have dl: "hs_del_link sh = None" using data_ok_none [OF ok'] by simp
  show ?thesis
  proof (cases "?n mod ?r = 0")
    case False
    with room_multiple [OF data_okD(1) [OF ok']] S(5) have n: "?n < room ?b" by simp
    note T = last_block [OF S(1) n less_imp_le [OF S(6)]]
    let ?pos = "cell_addr ?r ?n"
    have "next_free_record_pos env sh = Some (sh, Inl ?pos)"
      using dl False T by (simp add: next_free_record_pos_def prod_eq_iff)
    moreover have "?pos \<notin> A" using used_cells_new A' by simp
    moreover have "used_cells ?b (?n + 1) = insert ?pos A" unfolding used_cells_Suc A' ..
    ultimately show ?thesis using take_unused [OF ok' n]
      by (intro exI [of _ sh] exI [of _ "Inl ?pos"]) (simp add: same_table_def exI [of _ "[]"])
  next
    case True
    with room_multiple [OF data_okD(1) [OF ok']] have n: "?n = room ?b" by simp
    show ?thesis
    proof (cases "hs_max_records sh < ?n \<and> hs_max_records sh \<noteq> 0")
      case full: True
      then have "next_free_record_pos env sh = Some (sh, Inr HA_ERR_RECORD_FILE_FULL)"
        using dl True by (simp add: next_free_record_pos_def ha_errors)
      with full Nil show ?thesis by (simp add: same_table_def)
    next
      case max: False
      have "chunks ?b * ?r < block_cap ?r * ?r" using cap n d0 by (simp only: room_def max_cells_def add_0_right)
      then have ch: "chunks ?b < block_cap ?r" by (simp only: mult_less_cancel2)
      obtain len b' err where g: "hp_get_new_block (env_alloc env 0) ?b = Some (b', len, err)" "err = (\<not> env_alloc env 0 len)"
        "if err then b' = ?b else block_wf b' \<and> chunks b' = chunks ?b + 1 \<and> records_in_block b' = ?r \<and>
         recbuffer b' = recbuffer ?b \<and> last_allocated b' = last_allocated ?b \<and>
         last_blocks (level_infos b' ! 0) = Some (node_at 0 (chunks ?b))"
        using hp_get_new_block_correct [OF S(1) ch, of "env_alloc env 0"] by blast
      show ?thesis
      proof (cases err)
        case err: True
        then have "next_free_record_pos env sh = Some (sh, Inr ENOMEM)"
          using dl True max g(1) by (auto simp: next_free_record_pos_def ENOMEM_def)
        with err g(2) Nil show ?thesis by (auto simp: same_table_def)
      next
        case False
        with g(3) have B: "block_wf b'" "chunks b' = chunks ?b + 1" "records_in_block b' = ?r" "recbuffer b' = recbuffer ?b"
          "last_blocks (level_infos b' ! 0) = Some (node_at 0 (chunks ?b))" by simp_all
        let ?cs = "map (\<lambda>i. map (env_junk env (chunks b' * records_in_block b' + i)) [0..<recbuffer b']) [0..<records_in_block b']"
        let ?sh = "sh\<lparr>hs_block := b', hs_data := (hs_data sh)(node_at 0 (chunks ?b) \<mapsto> ?cs), hs_data_length := hs_data_length sh + len\<rparr>"
        have cs: "length ?cs = records_in_block b'" "\<And>c. c \<in> set ?cs \<Longrightarrow> length c = recbuffer b'" by auto
        note N = new_block_cells [OF ok' n B(1-4) cs, where l = "hs_data_length sh + len"]
        have rm: "?n < room b'" "room b' \<le> ?n + records_in_block b'"
          using n B(2,3) block_wfD(2) [OF B(1)] by (simp_all add: room_def)
        note T = last_block [OF B(1) rm]
        let ?pos = "cell_addr ?r ?n"
        have md: "?n mod ?r = 0" by (rule True)
        have "fst ?pos = node_at 0 (chunks ?b)" "snd ?pos = 0" using B(3,5) T(2,3) md by simp_all
        then have ca: "?pos = (node_at 0 (chunks ?b), 0)" by (simp only: prod_eq_iff fst_conv snd_conv)
        have "next_free_record_pos env sh = Some (?sh, Inl ?pos)"
          using dl max False g(1) B(3,5) T(1) ca by (auto simp: next_free_record_pos_def md)
        moreover have "?pos \<notin> A" using used_cells_new A' by simp
        moreover have "used_cells (hs_block ?sh) (?n + 1) = insert ?pos A"
          using used_cells_Suc [of ?b ?n] A' B(3) by (simp add: used_cells_def)
        moreover have "same_table sh ?sh" using B by (simp add: same_table_def)
        ultimately show ?thesis using N
          by (intro exI [of _ ?sh] exI [of _ "Inl ?pos"]) (simp add: exI [of _ "[]"])
      qed
    qed
  qed
qed

end
