(* ===== verification/HeapSpec.thy ===== *)
theory HeapSpec
  imports HeapDataSpec
begin

text \<open>
  The invariant of a heap table and what the operations of \<open>HeapTable\<close> do to it: the loops over
  the indexes take a record into all of them or out of all of them, a duplicate key undoes what
  was done, and in terms of the rows of the table the operations are updates of a map.
\<close>

subsection \<open>The loops over the indexes\<close>

text \<open>
  The indexes in \<open>D\<close> hold the records of \<open>A\<close> and that at \<open>pos\<close>, with the bytes \<open>record\<close>; the
  others hold those of \<open>A\<close>.
\<close>

definition with_rec :: "(uchar \<Rightarrow> uchar) \<Rightarrow> (haddr \<Rightarrow> bytes) \<Rightarrow> nat \<Rightarrow> nat \<Rightarrow> haddr set \<Rightarrow> haddr \<Rightarrow> bytes \<Rightarrow> nat set \<Rightarrow>
    HP_KEYDEF list \<Rightarrow> bool" where
  "with_rec so rd bl n A pos rec D K \<longleftrightarrow> (\<forall>i < length K.
     if i \<in> D then index_wf so (rd(pos := rec)) (next_size bl n) (n + 1) (insert pos A) (K ! i)
     else index_wf so rd bl n A (K ! i))"

abbreviation same_keys :: "HP_KEYDEF list \<Rightarrow> HP_KEYDEF list \<Rightarrow> bool" where
  "same_keys \<equiv> list_all2 same_key"

lemma same_keys_refl [simp]: "same_keys K K"
  by (simp add: list_all2_conv_all_nth)

lemma same_keys_trans: "same_keys K L \<Longrightarrow> same_keys L M \<Longrightarrow> same_keys K M"
  by (rule list_all2_trans [OF same_key_trans])

lemma same_keys_update: "k < length K \<Longrightarrow> same_key (K ! k) kd \<Longrightarrow> same_keys K (K[k := kd])"
  by (simp add: list_all2_conv_all_nth nth_list_update)

lemma same_keys_nth: "same_keys K L \<Longrightarrow> i < length K \<Longrightarrow> same_key (K ! i) (L ! i)"
  by (simp add: list_all2_conv_all_nth)

lemma with_rec_nth:
  assumes "with_rec so rd bl n A pos rec D K" "i < length K"
  shows "i \<in> D \<Longrightarrow> index_wf so (rd(pos := rec)) (next_size bl n) (n + 1) (insert pos A) (K ! i)"
    "i \<notin> D \<Longrightarrow> index_wf so rd bl n A (K ! i)"
  using spec [OF assms(1) [unfolded with_rec_def], of i] assms(2) by (simp_all only: if_True if_False not_False_eq_True simp_thms)

lemma with_rec_update:
  assumes "with_rec so rd bl n A pos rec D K"
    "if d then index_wf so (rd(pos := rec)) (next_size bl n) (n + 1) (insert pos A) kd else index_wf so rd bl n A kd"
  shows "with_rec so rd bl n A pos rec (if d then insert k D else D - {k}) (K[k := kd])"
  unfolding with_rec_def
proof (intro allI impI)
  fix i assume "i < length (K[k := kd])"
  then have i: "i < length K" by simp
  show "if i \<in> (if d then insert k D else D - {k})
      then index_wf so (rd(pos := rec)) (next_size bl n) (n + 1) (insert pos A) (K[k := kd] ! i)
      else index_wf so rd bl n A (K[k := kd] ! i)"
    using with_rec_nth [OF assms(1) i] assms(2) i by (cases "i = k"; cases "i \<in> D"; cases d) simp_all
qed

lemma rec_at_fields [simp]:
  "rec_at (sh\<lparr>hs_keydef := K\<rparr>) = rec_at sh" "rec_at (sh\<lparr>hs_index_length := l\<rparr>) = rec_at sh"
  "rec_at (sh\<lparr>hs_records := x\<rparr>) = rec_at sh" "rec_at (sh\<lparr>hs_blength := x\<rparr>) = rec_at sh" "rec_at (sh\<lparr>hs_changed := c\<rparr>) = rec_at sh"
  by (rule ext, simp add: rec_at_def cell_at_def split: option.split)+

text \<open>Memory for the indexes, and indexes and blocks below the size their levels can have.\<close>

definition index_memory :: "hp_env \<Rightarrow> bool" where
  "index_memory env \<longleftrightarrow> (\<forall>k x. env_alloc env (k + 1) x)"

definition index_room :: "nat \<Rightarrow> HP_KEYDEF list \<Rightarrow> bool" where
  "index_room n K \<longleftrightarrow> (\<forall>kd \<in> set K. n < max_cells (records_in_block (kd_block kd)))"

lemma index_room_same: "same_keys K L \<Longrightarrow> index_room n L = index_room n K"
  by (auto simp: index_room_def list_all2_conv_all_nth all_set_conv_all_nth same_key_def)

lemma key_fits_same: "same_key kd kd' \<Longrightarrow> key_fits l kd' = key_fits l kd"
  by (simp add: key_fits_def same_key_def)

lemma table_size_grow_back: "table_size bl n \<Longrightarrow> prev_size (next_size bl n) n = bl"
  by (auto simp: table_size_def prev_size_def next_size_def drop_bit_eq_div)

lemma write_key_correct:
  assumes k: "k < length (hs_keydef sh)" and wf: "index_wf (env_sort_order env) (rec_at sh) (hs_blength sh) (hs_records sh) A (hs_keydef sh ! k)"
    and pos: "pos \<notin> A" and c: "hs_records sh < max_cells (records_in_block (kd_block (hs_keydef sh ! k)))"
    and fits: "rec_fits (hs_keydef sh ! k) rec" and mem: "index_memory env \<or> last_allocated (kd_block (hs_keydef sh ! k)) \<noteq> hs_records sh"
  shows "\<exists>kd l. write_key env sh info k rec pos =
        (let dup = dup_key (env_sort_order env) (rec_at sh) A rec (hs_keydef sh ! k)
         in Some (sh\<lparr>hs_keydef := (hs_keydef sh)[k := kd], hs_index_length := l\<rparr>,
             if dup then info\<lparr>hi_errno := HA_ERR_FOUND_DUPP_KEY\<rparr> else info, if dup then HA_ERR_FOUND_DUPP_KEY else 0)) \<and>
      same_key (hs_keydef sh ! k) kd \<and>
      index_wf (env_sort_order env) ((rec_at sh)(pos := rec)) (next_size (hs_blength sh) (hs_records sh)) (hs_records sh + 1) (insert pos A) kd"
proof -
  obtain kd' len res where w: "hp_write_key (env_alloc env (k + 1)) (env_hash_junk env k) (env_sort_order env) (rec_at sh)
      (hs_blength sh) (hs_records sh) (hs_keydef sh ! k) rec pos = Some (kd', len, res)" "same_key (hs_keydef sh ! k) kd'"
    "if res = - 1 then kd' = hs_keydef sh ! k \<and> last_allocated (kd_block (hs_keydef sh ! k)) = hs_records sh \<and> (\<exists>x. \<not> env_alloc env (k + 1) x)
     else index_wf (env_sort_order env) ((rec_at sh)(pos := rec)) (next_size (hs_blength sh) (hs_records sh)) (hs_records sh + 1) (insert pos A) kd' \<and>
       res = (if dup_key (env_sort_order env) (rec_at sh) A rec (hs_keydef sh ! k) then HA_ERR_FOUND_DUPP_KEY else 0)"
    using index_write [OF wf pos c fits] by blast
  have "res \<noteq> - 1" using w(3) mem by (auto simp: index_memory_def)
  with w(3) have r: "index_wf (env_sort_order env) ((rec_at sh)(pos := rec)) (next_size (hs_blength sh) (hs_records sh)) (hs_records sh + 1) (insert pos A) kd'"
    "res = (if dup_key (env_sort_order env) (rec_at sh) A rec (hs_keydef sh ! k) then HA_ERR_FOUND_DUPP_KEY else 0)" by simp_all
  show ?thesis
    using k w(1,2) r by (intro exI [of _ kd'] exI [of _ "hs_index_length sh + len"]) (simp add: write_key_def Let_def ha_errors)
qed

lemma delete_key_correct:
  assumes k: "k < length (hs_keydef sh)"
    and wf: "index_wf (env_sort_order env) ((rec_at sh)(pos := rec)) (next_size (hs_blength sh) (hs_records sh)) (hs_records sh + 1) (insert pos A) (hs_keydef sh ! k)"
    and pos: "pos \<notin> A" and ts: "table_size (hs_blength sh) (hs_records sh)"
  shows "\<exists>kd hp p. delete_key env sh info k rec pos flag =
        Some (sh\<lparr>hs_keydef := (hs_keydef sh)[k := kd]\<rparr>,
          if flag then info\<lparr>hi_current_hash_ptr := hp, hi_current_ptr := p\<rparr> else info, 0) \<and>
      same_key (hs_keydef sh ! k) kd \<and> kd_block kd = kd_block (hs_keydef sh ! k) \<and>
      index_wf (env_sort_order env) (rec_at sh) (hs_blength sh) (hs_records sh) A kd \<and>
      (p = None \<or> (\<exists>q \<in> A. p = Some q \<and> key_image (env_sort_order env) kd (rec_at sh q) = key_image (env_sort_order env) kd rec))"
proof -
  have bl: "prev_size (next_size (hs_blength sh) (hs_records sh)) (hs_records sh) = hs_blength sh"
    using table_size_grow_back [OF ts] .
  obtain kd' cur where d: "hp_delete_key (env_sort_order env) (rec_at sh) (hs_blength sh) (hs_records sh) (hs_keydef sh ! k) rec pos flag = Some (kd', 0, cur)"
    "same_key (hs_keydef sh ! k) kd'" "index_wf (env_sort_order env) (rec_at sh) (hs_blength sh) (hs_records sh) A kd'"
    "kd_block kd' = kd_block (hs_keydef sh ! k)"
    "if flag then cur = Some (None, None) \<or> (\<exists>i p. cur = Some (Some i, Some p) \<and> p \<in> A \<and>
          key_image (env_sort_order env) (hs_keydef sh ! k) (rec_at sh p) = key_image (env_sort_order env) (hs_keydef sh ! k) rec) else cur = None"
    using index_delete [OF wf pos, of flag] unfolding bl by blast
  obtain hp p where cur: "cur = (if flag then Some (hp, p) else None)"
    "p = None \<or> (\<exists>q \<in> A. p = Some q \<and> key_image (env_sort_order env) kd' (rec_at sh q) = key_image (env_sort_order env) kd' rec)"
    using d(5) unfolding same_keyD(7) [OF d(2)] by (cases flag) auto
  with k d(1-4) show ?thesis
    by (intro exI [of _ kd'] exI [of _ hp] exI [of _ p]) (simp add: delete_key_def)
qed

text \<open>Writing the keys of a record stops at the first index that has the key already.\<close>

abbreviation share_with :: "hp_env \<Rightarrow> HP_SHARE \<Rightarrow> haddr set \<Rightarrow> haddr \<Rightarrow> bytes \<Rightarrow> nat set \<Rightarrow> bool" where
  "share_with env sh A pos rec D \<equiv>
     with_rec (env_sort_order env) (rec_at sh) (hs_blength sh) (hs_records sh) A pos rec D (hs_keydef sh)"

abbreviation dup_at :: "hp_env \<Rightarrow> HP_SHARE \<Rightarrow> haddr set \<Rightarrow> bytes \<Rightarrow> nat \<Rightarrow> bool" where
  "dup_at env sh A rec k \<equiv> dup_key (env_sort_order env) (rec_at sh) A rec (hs_keydef sh ! k)"

lemma same_keys_dup: "same_keys K L \<Longrightarrow> k < length K \<Longrightarrow> dup_key so rd A rec (L ! k) = dup_key so rd A rec (K ! k)"
  by (rule same_key_dup) (rule same_keys_nth)

lemma write_keys_correct:
  assumes "share_with env sh A pos rec D" "distinct ks" "set ks \<subseteq> {..<length (hs_keydef sh)} - D" "pos \<notin> A"
    "index_room (hs_records sh) (hs_keydef sh)" "\<forall>kd \<in> set (hs_keydef sh). rec_fits kd rec" "index_memory env"
  shows "\<exists>K l i failed. write_keys env sh info ks rec pos = Some (sh\<lparr>hs_keydef := K, hs_index_length := l\<rparr>, i, failed) \<and>
      same_keys (hs_keydef sh) K \<and>
      (case failed of
         None \<Rightarrow> i = info \<and> share_with env (sh\<lparr>hs_keydef := K\<rparr>) A pos rec (D \<union> set ks) \<and> (\<forall>k \<in> set ks. \<not> dup_at env sh A rec k)
       | Some k \<Rightarrow> \<exists>us vs. ks = us @ k # vs \<and> i = info\<lparr>hi_errno := HA_ERR_FOUND_DUPP_KEY\<rparr> \<and>
           share_with env (sh\<lparr>hs_keydef := K\<rparr>) A pos rec (D \<union> set us \<union> {k}) \<and> dup_at env sh A rec k \<and> (\<forall>k \<in> set us. \<not> dup_at env sh A rec k))"
  using assms(1-6)
proof (induction ks arbitrary: sh D)
  case Nil
  have "write_keys env sh info [] rec pos =
      Some (sh\<lparr>hs_keydef := hs_keydef sh, hs_index_length := hs_index_length sh\<rparr>, info, None)" by simp
  with Nil.prems(1) show ?case
    by (intro exI [of _ "hs_keydef sh"] exI [of _ "hs_index_length sh"] exI [of _ info] exI [of _ None]) simp
next
  case (Cons k ks)
  let ?so = "env_sort_order env" and ?K = "hs_keydef sh"
  have k: "k < length ?K" "k \<notin> D" "k \<notin> set ks" using Cons.prems(2,3) by auto
  have wf: "index_wf ?so (rec_at sh) (hs_blength sh) (hs_records sh) A (?K ! k)"
    by (rule with_rec_nth(2) [OF Cons.prems(1) k(1,2)])
  have fits: "rec_fits (?K ! k) rec" using Cons.prems(6) k(1) by simp
  have room: "hs_records sh < max_cells (records_in_block (kd_block (?K ! k)))" using Cons.prems(5) k(1) by (simp add: index_room_def)
  let ?dup = "dup_at env sh A rec k"
  obtain kd l where w: "write_key env sh info k rec pos =
        Some (sh\<lparr>hs_keydef := ?K[k := kd], hs_index_length := l\<rparr>,
             if ?dup then info\<lparr>hi_errno := HA_ERR_FOUND_DUPP_KEY\<rparr> else info, if ?dup then HA_ERR_FOUND_DUPP_KEY else 0)"
      "same_key (?K ! k) kd"
      "index_wf ?so ((rec_at sh)(pos := rec)) (next_size (hs_blength sh) (hs_records sh)) (hs_records sh + 1) (insert pos A) kd"
    using write_key_correct [OF k(1) wf Cons.prems(4) room fits disjI1 [OF assms(7)], of info] unfolding Let_def by blast
  let ?sh = "sh\<lparr>hs_keydef := ?K[k := kd], hs_index_length := l\<rparr>"
  have sk: "same_keys ?K (?K[k := kd])" by (rule same_keys_update [OF k(1) w(2)])
  have st: "share_with env ?sh A pos rec (insert k D)"
    using with_rec_update [OF Cons.prems(1), of True kd k] w(3) by simp
  show ?case
  proof (cases ?dup)
    case True
    have e: "HA_ERR_FOUND_DUPP_KEY \<noteq> 0" by (simp add: ha_errors)
    with w(1) True have run: "write_keys env sh info (k # ks) rec pos = Some (?sh, info\<lparr>hi_errno := HA_ERR_FOUND_DUPP_KEY\<rparr>, Some k)" by simp
    have "\<exists>us vs. k # ks = us @ k # vs \<and> info\<lparr>hi_errno := HA_ERR_FOUND_DUPP_KEY\<rparr> = info\<lparr>hi_errno := HA_ERR_FOUND_DUPP_KEY\<rparr> \<and>
           share_with env (sh\<lparr>hs_keydef := ?K[k := kd]\<rparr>) A pos rec (D \<union> set us \<union> {k}) \<and> ?dup \<and> (\<forall>k \<in> set us. \<not> dup_at env sh A rec k)"
      using True st by (intro exI [of _ "[]"] exI [of _ ks]) simp
    with run sk show ?thesis
      by (intro exI [of _ "?K[k := kd]"] exI [of _ l] exI [of _ "info\<lparr>hi_errno := HA_ERR_FOUND_DUPP_KEY\<rparr>"] exI [of _ "Some k"]) simp
  next
    case False
    have run: "write_keys env sh info (k # ks) rec pos = write_keys env ?sh info ks rec pos" using w(1) False by simp
    have pre: "distinct ks" "set ks \<subseteq> {..<length (hs_keydef ?sh)} - insert k D" "pos \<notin> A"
      using Cons.prems(2-4) by auto
    have "index_room (hs_records ?sh) (hs_keydef ?sh)" using index_room_same [OF sk] Cons.prems(5) by simp
    moreover have "\<forall>kd \<in> set (hs_keydef ?sh). rec_fits kd rec"
      using Cons.prems(6) fits same_keyD(3) [OF w(2)] by (auto dest!: set_update_subset_insert [THEN subsetD])
    ultimately obtain K' l' i failed where IH: "write_keys env ?sh info ks rec pos = Some (?sh\<lparr>hs_keydef := K', hs_index_length := l'\<rparr>, i, failed)"
      "same_keys (hs_keydef ?sh) K'"
      "case failed of
         None \<Rightarrow> i = info \<and> share_with env (?sh\<lparr>hs_keydef := K'\<rparr>) A pos rec (insert k D \<union> set ks) \<and> (\<forall>k \<in> set ks. \<not> dup_at env ?sh A rec k)
       | Some k' \<Rightarrow> \<exists>us vs. ks = us @ k' # vs \<and> i = info\<lparr>hi_errno := HA_ERR_FOUND_DUPP_KEY\<rparr> \<and>
           share_with env (?sh\<lparr>hs_keydef := K'\<rparr>) A pos rec (insert k D \<union> set us \<union> {k'}) \<and> dup_at env ?sh A rec k' \<and> (\<forall>k \<in> set us. \<not> dup_at env ?sh A rec k)"
      using Cons.IH [OF st pre] by blast
    have dup: "dup_at env ?sh A rec i = dup_at env sh A rec i" if "i \<in> set ks" for i
      using same_keys_dup [OF sk, of i] that Cons.prems(3) by auto
    have "case failed of
         None \<Rightarrow> i = info \<and> share_with env (sh\<lparr>hs_keydef := K'\<rparr>) A pos rec (D \<union> set (k # ks)) \<and> (\<forall>k \<in> set (k # ks). \<not> dup_at env sh A rec k)
       | Some k' \<Rightarrow> \<exists>us vs. k # ks = us @ k' # vs \<and> i = info\<lparr>hi_errno := HA_ERR_FOUND_DUPP_KEY\<rparr> \<and>
           share_with env (sh\<lparr>hs_keydef := K'\<rparr>) A pos rec (D \<union> set us \<union> {k'}) \<and> dup_at env sh A rec k' \<and> (\<forall>k \<in> set us. \<not> dup_at env sh A rec k)"
    proof (cases failed)
      case None
      with IH(3) False dup show ?thesis by simp
    next
      case (Some k')
      with IH(3) obtain us vs where U: "ks = us @ k' # vs" "i = info\<lparr>hi_errno := HA_ERR_FOUND_DUPP_KEY\<rparr>"
        "share_with env (?sh\<lparr>hs_keydef := K'\<rparr>) A pos rec (insert k D \<union> set us \<union> {k'})" "dup_at env ?sh A rec k'"
        "\<forall>k \<in> set us. \<not> dup_at env ?sh A rec k" by auto
      have "dup_at env sh A rec k'" "\<forall>k \<in> set us. \<not> dup_at env sh A rec k" using U(1,4,5) dup by simp_all
      with Some U(1-3) False show ?thesis
        by (simp only: option.case) (intro exI [of _ "k # us"] exI [of _ vs], simp)
    qed
    with run IH(1) same_keys_trans [OF sk] IH(2) show ?thesis
      by (intro exI [of _ K'] exI [of _ l'] exI [of _ i] exI [of _ failed]) simp
  qed
qed

text \<open>Taking the record out of indexes again, after a failed write and in a delete.\<close>

lemma undo_write_correct:
  assumes "share_with env sh A pos rec D" "distinct ks" "set ks \<subseteq> {..<length (hs_keydef sh)} \<inter> D" "pos \<notin> A"
    "table_size (hs_blength sh) (hs_records sh)"
  shows "\<exists>K. undo_write env sh info ks rec pos = Some (sh\<lparr>hs_keydef := K\<rparr>, info) \<and> same_keys (hs_keydef sh) K \<and>
      share_with env (sh\<lparr>hs_keydef := K\<rparr>) A pos rec (D - set ks)"
  using assms
proof (induction ks arbitrary: sh D)
  case Nil
  then show ?case by (intro exI [of _ "hs_keydef sh"]) simp
next
  case (Cons k ks)
  let ?so = "env_sort_order env" and ?K = "hs_keydef sh"
  have k: "k < length ?K" "k \<in> D" "k \<notin> set ks" using Cons.prems(2,3) by auto
  note wf = with_rec_nth(1) [OF Cons.prems(1) k(1,2)]
  obtain kd where d: "delete_key env sh info k rec pos False = Some (sh\<lparr>hs_keydef := ?K[k := kd]\<rparr>, info, 0)" "same_key (?K ! k) kd"
     "index_wf ?so (rec_at sh) (hs_blength sh) (hs_records sh) A kd"
    using delete_key_correct [OF k(1) wf Cons.prems(4,5), of info False] by auto
  let ?sh = "sh\<lparr>hs_keydef := ?K[k := kd]\<rparr>"
  have st: "share_with env ?sh A pos rec (D - {k})" using with_rec_update [OF Cons.prems(1), of False kd k] d(3) by simp
  have sk: "same_keys ?K (?K[k := kd])" by (rule same_keys_update [OF k(1) d(2)])
  have "distinct ks" "set ks \<subseteq> {..<length (hs_keydef ?sh)} \<inter> (D - {k})" "table_size (hs_blength ?sh) (hs_records ?sh)"
    using Cons.prems k by auto
  then obtain K where "undo_write env ?sh info ks rec pos = Some (?sh\<lparr>hs_keydef := K\<rparr>, info)" "same_keys (hs_keydef ?sh) K"
    "share_with env (?sh\<lparr>hs_keydef := K\<rparr>) A pos rec (D - {k} - set ks)"
    using Cons.IH [OF st] Cons.prems(4) by blast
  with d(1) same_keys_trans [OF sk] show ?case by (intro exI [of _ K]) (simp add: Diff_insert2 [of D k "set ks"])
qed

text \<open>
  With the index of the cursor among them, the cursor goes to the record before in the chain
  that has the same key, or to none.
\<close>

definition cursor_moved :: "hp_env \<Rightarrow> HP_SHARE \<Rightarrow> haddr set \<Rightarrow> bytes \<Rightarrow> HP_INFO \<Rightarrow> HP_INFO \<Rightarrow> bool" where
  "cursor_moved env sh A rec info info' \<longleftrightarrow> (\<exists>hp p. info' = info\<lparr>hi_current_hash_ptr := hp, hi_current_ptr := p\<rparr> \<and>
     (p = None \<or> (\<exists>q \<in> A. p = Some q \<and>
        key_image (env_sort_order env) (hs_keydef sh ! nat (hi_lastinx info)) (rec_at sh q) =
        key_image (env_sort_order env) (hs_keydef sh ! nat (hi_lastinx info)) rec)))"

lemma cursor_moved_same:
  assumes "same_keys (hs_keydef sh) K" "nat (hi_lastinx info) < length (hs_keydef sh)"
  shows "cursor_moved env (sh\<lparr>hs_keydef := K\<rparr>) A rec info info' = cursor_moved env sh A rec info info'"
  using same_keyD(7) [OF same_keys_nth [OF assms]] by (simp add: cursor_moved_def)

lemma delete_keys_correct:
  assumes "share_with env sh A pos rec D" "distinct ks" "set ks \<subseteq> {..<length (hs_keydef sh)} \<inter> D" "pos \<notin> A"
    "table_size (hs_blength sh) (hs_records sh)"
  shows "\<exists>K i. delete_keys env sh info ks rec pos = Some (sh\<lparr>hs_keydef := K\<rparr>, i, False) \<and> same_keys (hs_keydef sh) K \<and>
      share_with env (sh\<lparr>hs_keydef := K\<rparr>) A pos rec (D - set ks) \<and>
      (if hi_lastinx info \<in> int ` set ks then cursor_moved env sh A rec info i else i = info)"
  using assms
proof (induction ks arbitrary: sh D info)
  case Nil
  then show ?case by (intro exI [of _ "hs_keydef sh"]) simp
next
  case (Cons k ks)
  let ?so = "env_sort_order env" and ?K = "hs_keydef sh" and ?flag = "int k = hi_lastinx info"
  have k: "k < length ?K" "k \<in> D" "k \<notin> set ks" using Cons.prems(2,3) by auto
  note wf = with_rec_nth(1) [OF Cons.prems(1) k(1,2)]
  obtain kd hp p where d: "delete_key env sh info k rec pos ?flag = Some (sh\<lparr>hs_keydef := ?K[k := kd]\<rparr>,
      if ?flag then info\<lparr>hi_current_hash_ptr := hp, hi_current_ptr := p\<rparr> else info, 0)" "same_key (?K ! k) kd"
     "index_wf ?so (rec_at sh) (hs_blength sh) (hs_records sh) A kd"
     "p = None \<or> (\<exists>q \<in> A. p = Some q \<and> key_image ?so kd (rec_at sh q) = key_image ?so kd rec)"
    using delete_key_correct [OF k(1) wf Cons.prems(4,5), of info ?flag] by blast
  let ?i = "if ?flag then info\<lparr>hi_current_hash_ptr := hp, hi_current_ptr := p\<rparr> else info"
  let ?sh = "sh\<lparr>hs_keydef := ?K[k := kd]\<rparr>"
  have mv: "cursor_moved env sh A rec info ?i" if ?flag
    using d(4) that [symmetric] unfolding same_keyD(7) [OF d(2)]
    by (auto simp: cursor_moved_def simp del: split_paired_Ex)
  have st: "share_with env ?sh A pos rec (D - {k})" using with_rec_update [OF Cons.prems(1), of False kd k] d(3) by simp
  have sk: "same_keys ?K (?K[k := kd])" by (rule same_keys_update [OF k(1) d(2)])
  have ks: "distinct ks" "set ks \<subseteq> {..<length (hs_keydef ?sh)} \<inter> (D - {k})" "table_size (hs_blength ?sh) (hs_records ?sh)"
    using Cons.prems k by auto
  then obtain K i where IH: "delete_keys env ?sh ?i ks rec pos = Some (?sh\<lparr>hs_keydef := K\<rparr>, i, False)" "same_keys (hs_keydef ?sh) K"
    "share_with env (?sh\<lparr>hs_keydef := K\<rparr>) A pos rec (D - {k} - set ks)"
    "if hi_lastinx ?i \<in> int ` set ks then cursor_moved env ?sh A rec ?i i else i = ?i"
    using Cons.IH [OF st _ _ Cons.prems(4), of ?i] by blast
  have li: "hi_lastinx ?i = hi_lastinx info" by simp
  have "if hi_lastinx info \<in> int ` set (k # ks) then cursor_moved env sh A rec info i else i = info"
  proof (cases ?flag)
    case True
    with k(3) have "hi_lastinx info \<notin> int ` set ks" by auto
    with IH(4) li have "i = ?i" by simp
    with mv True show ?thesis by auto
  next
    case False
    show ?thesis
    proof (cases "hi_lastinx info \<in> int ` set ks")
      case True
      then have "nat (hi_lastinx info) < length ?K" using Cons.prems(3) by auto
      with IH(4) li True False cursor_moved_same [OF sk] show ?thesis by simp
    next
      case nf: False
      with IH(4) li False show ?thesis by auto
    qed
  qed
  with d(1) IH same_keys_trans [OF sk] show ?case
    by (intro exI [of _ K] exI [of _ i]) (simp add: Diff_insert2 [of D k "set ks"])
qed

subsection \<open>The invariant of a table\<close>

definition active :: "HP_SHARE \<Rightarrow> haddr set" where
  "active sh = {a \<in> used_cells (hs_block sh) (hs_records sh + hs_deleted sh). in_use_at sh a}"

definition share_inv :: "hp_env \<Rightarrow> HP_SHARE \<Rightarrow> haddr set \<Rightarrow> haddr list \<Rightarrow> bool" where
  "share_inv env sh A ds \<longleftrightarrow> data_ok env sh (hs_records sh + hs_deleted sh) A ds \<and>
     A \<union> set ds = used_cells (hs_block sh) (hs_records sh + hs_deleted sh) \<and> table_size (hs_blength sh) (hs_records sh) \<and>
     (\<forall>kd \<in> set (hs_keydef sh). index_ok (env_sort_order env) (rec_at sh) (hs_blength sh) (hs_records sh) A kd \<and>
        key_fits (hs_reclength sh) kd)"

definition share_wf :: "hp_env \<Rightarrow> HP_SHARE \<Rightarrow> bool" where
  "share_wf env sh \<longleftrightarrow> (\<exists>ds. share_inv env sh (active sh) ds)"

text \<open>The rows: where they are and what they hold.\<close>

definition table_rows :: "HP_SHARE \<Rightarrow> haddr \<rightharpoonup> bytes" where
  "table_rows sh a = (if a \<in> active sh then Some (rec_at sh a) else None)"

definition has_room :: "HP_SHARE \<Rightarrow> bool" where
  "has_room sh \<longleftrightarrow> hs_records sh + hs_deleted sh < max_cells (records_in_block (hs_block sh)) \<and> index_room (hs_records sh) (hs_keydef sh)"

lemma dom_table_rows: "dom (table_rows sh) = active sh"
  by (auto simp: table_rows_def dom_def)

lemma del_chain_free: "del_chain env sh q ds \<Longrightarrow> a \<in> set ds \<Longrightarrow> \<not> in_use_at sh a"
  by (induction ds arbitrary: q) (auto simp: in_use_at_def split: option.splits)

lemma share_inv_active:
  assumes "share_inv env sh A ds"
  shows "active sh = A"
proof
  note D = data_okD [OF conjunct1 [OF assms [unfolded share_inv_def]]]
  show "A \<subseteq> active sh" using D(3,8) by (auto simp: active_def simp del: split_paired_All)
  show "active sh \<subseteq> A" using assms del_chain_free [OF D(9)] by (auto simp: active_def share_inv_def simp del: split_paired_All)
qed

lemma share_inv_wf: "share_inv env sh A ds \<Longrightarrow> share_wf env sh"
  using share_inv_active by (auto simp: share_wf_def)

lemma share_invD:
  assumes "share_inv env sh A ds"
  shows "data_ok env sh (hs_records sh + hs_deleted sh) A ds" "A \<union> set ds = used_cells (hs_block sh) (hs_records sh + hs_deleted sh)"
    "table_size (hs_blength sh) (hs_records sh)" "finite A" "card A = hs_records sh"
    "kd \<in> set (hs_keydef sh) \<Longrightarrow> index_wf (env_sort_order env) (rec_at sh) (hs_blength sh) (hs_records sh) A kd"
    "kd \<in> set (hs_keydef sh) \<Longrightarrow> unique_keys (env_sort_order env) (rec_at sh) A kd"
    "kd \<in> set (hs_keydef sh) \<Longrightarrow> key_fits (hs_reclength sh) kd"
proof -
  note I = assms [unfolded share_inv_def]
  show d: "data_ok env sh (hs_records sh + hs_deleted sh) A ds" and u: "A \<union> set ds = used_cells (hs_block sh) (hs_records sh + hs_deleted sh)"
    and "table_size (hs_blength sh) (hs_records sh)" using I by blast+
  note D = data_okD [OF d]
  show f: "finite A" using D(3) finite_used_cells by (rule finite_subset)
  have "card (A \<union> set ds) = hs_records sh + hs_deleted sh" unfolding u by (rule card_used_cells)
  moreover have "card (A \<union> set ds) = card A + length ds" using D(5,6) f by (simp add: card_Un_disjoint distinct_card)
  ultimately show "card A = hs_records sh" using D(7) by simp
  assume kd: "kd \<in> set (hs_keydef sh)"
  with I show "index_wf (env_sort_order env) (rec_at sh) (hs_blength sh) (hs_records sh) A kd"
    "unique_keys (env_sort_order env) (rec_at sh) A kd" "key_fits (hs_reclength sh) kd" by (auto simp: index_ok_def)
qed

lemma share_with_all:
  assumes "share_inv env sh A ds"
  shows "share_with env sh A pos rec {}"
  using share_invD(6) [OF assms] by (simp add: with_rec_def)

lemma share_invI:
  assumes "data_ok env sh (hs_records sh + hs_deleted sh) A ds" "A \<union> set ds = used_cells (hs_block sh) (hs_records sh + hs_deleted sh)"
    "table_size (hs_blength sh) (hs_records sh)"
    "\<And>i. i < length (hs_keydef sh) \<Longrightarrow> index_wf (env_sort_order env) (rec_at sh) (hs_blength sh) (hs_records sh) A (hs_keydef sh ! i)"
    "\<And>i. i < length (hs_keydef sh) \<Longrightarrow> unique_keys (env_sort_order env) (rec_at sh) A (hs_keydef sh ! i)"
    "\<And>i. i < length (hs_keydef sh) \<Longrightarrow> key_fits (hs_reclength sh) (hs_keydef sh ! i)"
  shows "share_inv env sh A ds"
  using assms by (auto simp: share_inv_def index_ok_def in_set_conv_nth)

text \<open>What one operation leaves as it is.\<close>

definition same_defs :: "HP_SHARE \<Rightarrow> HP_SHARE \<Rightarrow> bool" where
  "same_defs sh sh' \<longleftrightarrow> same_keys (hs_keydef sh) (hs_keydef sh') \<and> hs_max_records sh' = hs_max_records sh \<and>
     hs_reclength sh' = hs_reclength sh \<and> records_in_block (hs_block sh') = records_in_block (hs_block sh)"

lemma upt_split: "[0..<n] = us @ k # vs \<Longrightarrow> us = [0..<k] \<and> k < n"
proof -
  assume a: "[0..<n] = us @ k # vs"
  from arg_cong [OF a, of length] have l: "length us < n" by simp
  have "k = length us" using arg_cong [OF a, of "\<lambda>xs. xs ! length us"] l by simp
  moreover have "us = [0..<length us]" using arg_cong [OF a, of "take (length us)"] l by (simp add: take_upt)
  ultimately show ?thesis using l by simp
qed

text \<open>The indexes of a table whose memory has changed in cells that are not records.\<close>

lemma share_with_taken:
  assumes inv: "share_inv env sh A ds" and st: "same_table sh sh'" and eq: "\<forall>a \<in> A. cell_at sh' a = cell_at sh a"
  shows "share_with env sh' A pos rec {}" "i < length (hs_keydef sh') \<Longrightarrow> unique_keys (env_sort_order env) (rec_at sh') A (hs_keydef sh' ! i)"
    "hs_keydef sh' = hs_keydef sh" "a \<in> A \<Longrightarrow> rec_at sh' a = rec_at sh a"
proof -
  have f: "hs_keydef sh' = hs_keydef sh" "hs_records sh' = hs_records sh" "hs_blength sh' = hs_blength sh" "hs_reclength sh' = hs_reclength sh"
    using st by (simp_all add: same_table_def)
  have r: "rec_at sh' a = rec_at sh a" if "a \<in> A" for a using rec_at_cong eq f that by blast
  show "hs_keydef sh' = hs_keydef sh" "a \<in> A \<Longrightarrow> rec_at sh' a = rec_at sh a" using f r by simp_all
  show "share_with env sh' A pos rec {}"
    unfolding with_rec_def f
  proof (intro allI impI, simp only: empty_iff if_False)
    fix i assume "i < length (hs_keydef sh)"
    then show "index_wf (env_sort_order env) (rec_at sh') (hs_blength sh) (hs_records sh) A (hs_keydef sh ! i)"
      using index_wf_cong [OF share_invD(6) [OF inv nth_mem] r] by blast
  qed
  show "unique_keys (env_sort_order env) (rec_at sh') A (hs_keydef sh' ! i)" if "i < length (hs_keydef sh')"
    using unique_keys_cong [OF share_invD(7) [OF inv nth_mem] r] that unfolding f by blast
qed

lemma data_ok_keydef [simp]:
  "data_ok env (sh\<lparr>hs_keydef := K\<rparr>) n A ds = data_ok env sh n A ds"
  "data_ok env (sh\<lparr>hs_index_length := l\<rparr>) n A ds = data_ok env sh n A ds"
  "data_ok env (sh\<lparr>hs_changed := c\<rparr>) n A ds = data_ok env sh n A ds"
  "data_ok env (sh\<lparr>hs_records := r\<rparr>) n A ds = data_ok env sh n A ds"
  "data_ok env (sh\<lparr>hs_blength := bl\<rparr>) n A ds = data_ok env sh n A ds"
  by (rule data_ok_view; simp)+

lemma cell_at_keydef [simp]:
  "cell_at (sh\<lparr>hs_keydef := K\<rparr>) = cell_at sh" "cell_at (sh\<lparr>hs_index_length := l\<rparr>) = cell_at sh"
  "cell_at (sh\<lparr>hs_changed := c\<rparr>) = cell_at sh" "cell_at (sh\<lparr>hs_records := r\<rparr>) = cell_at sh"
  "cell_at (sh\<lparr>hs_blength := bl\<rparr>) = cell_at sh"
  by (rule ext, simp add: cell_at_def)+

lemma count_up_fields [simp]:
  "hs_records (count_up sh) = hs_records sh + 1" "hs_blength (count_up sh) = next_size (hs_blength sh) (hs_records sh)"
  "hs_keydef (count_up sh) = hs_keydef sh" "hs_block (count_up sh) = hs_block sh" "hs_deleted (count_up sh) = hs_deleted sh"
  "hs_reclength (count_up sh) = hs_reclength sh" "hs_max_records (count_up sh) = hs_max_records sh"
  "data_ok env (count_up sh) n A ds = data_ok env sh n A ds" "rec_at (count_up sh) = rec_at sh" "cell_at (count_up sh) = cell_at sh"
  "hs_max_key_length (count_up sh) = hs_max_key_length sh"
  by (simp_all add: count_up_def Let_def next_size_def)

lemma count_down_fields [simp]:
  "hs_records (count_down sh) = hs_records sh - 1" "hs_blength (count_down sh) = prev_size (hs_blength sh) (hs_records sh - 1)"
  "hs_keydef (count_down sh) = hs_keydef sh" "hs_block (count_down sh) = hs_block sh" "hs_deleted (count_down sh) = hs_deleted sh"
  "hs_reclength (count_down sh) = hs_reclength sh" "hs_max_records (count_down sh) = hs_max_records sh"
  "data_ok env (count_down sh) n A ds = data_ok env sh n A ds" "rec_at (count_down sh) = rec_at sh" "cell_at (count_down sh) = cell_at sh"
  "hs_changed (count_down sh) = hs_changed sh" "hs_max_key_length (count_down sh) = hs_max_key_length sh"
  by (simp_all add: count_down_def Let_def prev_size_def drop_bit_eq_div)

lemma table_size_next: "table_size bl n \<Longrightarrow> table_size (next_size bl n) (n + 1)"
  unfolding next_size_def by (rule table_size_grow(1))

text \<open>A row written into the cell taken for it.\<close>

lemma write_row:
  assumes d: "data_ok env sh (n + 1) A ds" and pos: "pos \<in> used_cells (hs_block sh) (n + 1)" "pos \<notin> set ds"
    and len: "length rec = hs_reclength sh" and act: "fresh \<or> pos \<in> A"
  obtains c d' where "cell_at sh pos = Some c"
    "put_cell sh pos (if fresh then (memcpy c rec (hs_reclength sh))[hs_reclength sh := 1] else memcpy c rec (hs_reclength sh)) = Some (sh\<lparr>hs_data := d'\<rparr>)"
    "data_ok env (sh\<lparr>hs_data := d'\<rparr>) (n + 1) (insert pos A) ds" "rec_at (sh\<lparr>hs_data := d'\<rparr>) = (rec_at sh)(pos := rec)"
proof -
  obtain c where c: "cell_at sh pos = Some c" "length c = recbuffer (hs_block sh)" using used_cell_exists [OF d pos(1)] by blast
  have sz: "hs_reclength sh < recbuffer (hs_block sh)" by (rule sizes_okD(4) [OF data_okD(1) [OF d]])
  let ?m = "memcpy c rec (hs_reclength sh)"
  define c' where "c' = (if fresh then ?m[hs_reclength sh := 1] else ?m)"
  have len': "length c' = recbuffer (hs_block sh)" using c(2) len sz by (simp add: c'_def memcpy_def)
  have tk: "take (hs_reclength sh) c' = rec" using len by (simp add: c'_def memcpy_def)
  have use: "in_use sh c'"
  proof (cases fresh)
    case True
    then show ?thesis using c(2) len sz by (simp add: c'_def in_use_def memcpy_def)
  next
    case False
    with act have "in_use_at sh pos" using data_okD(8) [OF d] by blast
    with False show ?thesis using c sz len by (simp add: in_use_at_def c'_def in_use_def memcpy_def nth_append)
  qed
  obtain d' where d': "put_cell sh pos c' = Some (sh\<lparr>hs_data := d'\<rparr>)" "\<And>a. cell_at (sh\<lparr>hs_data := d'\<rparr>) a = (if a = pos then Some c' else cell_at sh a)"
    "data_ok env (sh\<lparr>hs_data := d'\<rparr>) (n + 1) (insert pos A) ds"
    using put_cell_correct [OF d pos len'] use by auto
  have "rec_at (sh\<lparr>hs_data := d'\<rparr>) = (rec_at sh)(pos := rec)"
    by (rule ext) (simp add: rec_at_def d'(2) tk split: option.split)
  with that [OF c(1)] d' show ?thesis by (simp add: c'_def)
qed

subsection \<open>Writing a row\<close>

lemma table_rows_inv: "share_inv env sh A ds \<Longrightarrow> table_rows sh a = (if a \<in> A then Some (rec_at sh a) else None)"
  by (simp add: table_rows_def share_inv_active)

lemma heap_write_correct:
  assumes wf: "share_wf env sh" and len: "length rec = hs_reclength sh" and cap: "has_room sh" and mem: "index_memory env"
  shows "\<exists>sh' info' ret. heap_write env sh info rec = Some (sh', info', ret) \<and> share_wf env sh' \<and> same_defs sh sh' \<and>
    (if ret = 0
     then (\<forall>k < length (hs_keydef sh). \<not> dup_at env sh (active sh) rec k) \<and>
       (\<exists>pos. table_rows sh pos = None \<and> table_rows sh' = (table_rows sh)(pos \<mapsto> rec) \<and> hi_current_ptr info' = Some pos \<and> test_active info')
     else table_rows sh' = table_rows sh \<and> hi_errno info' = ret \<and>
       (ret = HA_ERR_FOUND_DUPP_KEY \<and> (\<exists>k < length (hs_keydef sh). hi_errkey info' = int k \<and> dup_at env sh (active sh) rec k \<and>
            (\<forall>j < k. \<not> dup_at env sh (active sh) rec j)) \<or>
        ret = HA_ERR_RECORD_FILE_FULL \<and> 0 < hs_max_records sh \<and> hs_max_records sh < hs_records sh \<or> ret = ENOMEM \<and> (\<exists>x. \<not> env_alloc env 0 x)))"
proof -
  obtain ds where inv: "share_inv env sh (active sh) ds" using wf by (auto simp: share_wf_def)
  let ?A = "active sh" and ?so = "env_sort_order env"
  obtain sh1 r where np: "next_free_record_pos env sh = Some (sh1, r)" "same_table sh sh1"
    "case r of
       Inr err \<Rightarrow> sh1 = sh \<and> ds = [] \<and> (err = HA_ERR_RECORD_FILE_FULL \<and> 0 < hs_max_records sh \<and> hs_max_records sh < hs_records sh \<or> err = ENOMEM \<and> (\<exists>x. \<not> env_alloc env 0 x))
     | Inl pos \<Rightarrow> \<exists>ds'. data_ok env sh1 (hs_records sh + length ds' + 1) ?A ds' \<and> pos \<notin> ?A \<union> set ds' \<and>
         used_cells (hs_block sh1) (hs_records sh + length ds' + 1) = insert pos (?A \<union> set ds') \<and>
         (\<forall>a \<in> ?A. cell_at sh1 a = cell_at sh a)"
    using next_free_record_pos_correct [OF share_invD(1,2) [OF inv]] cap by (auto simp: has_room_def)
  show ?thesis
  proof (cases r)
    case (Inr err)
    with np(1) have "heap_write env sh info rec = Some (sh1, info\<lparr>hi_errno := err\<rparr>, err)" by (simp add: heap_write_def O_RDONLY_def)
    moreover have "err \<noteq> 0" using np(3) Inr by (auto simp: ha_errors ENOMEM_def)
    ultimately show ?thesis using np(3) Inr wf
      by (intro exI [of _ sh1] exI [of _ "info\<lparr>hi_errno := err\<rparr>"] exI [of _ err]) (auto simp: same_defs_def)
  next
    case (Inl pos)
    with np(3) obtain ds' where T: "data_ok env sh1 (hs_records sh + length ds' + 1) ?A ds'" "pos \<notin> ?A" "pos \<notin> set ds'"
      "used_cells (hs_block sh1) (hs_records sh + length ds' + 1) = insert pos (?A \<union> set ds')"
      "\<forall>a \<in> ?A. cell_at sh1 a = cell_at sh a" by auto
    note S1 = share_with_taken [OF inv np(2) T(5)]
    have f1: "hs_records sh1 = hs_records sh" "hs_blength sh1 = hs_blength sh" "hs_reclength sh1 = hs_reclength sh"
      "hs_max_records sh1 = hs_max_records sh" "records_in_block (hs_block sh1) = records_in_block (hs_block sh)"
      using np(2) by (simp_all add: same_table_def)
    have ts: "table_size (hs_blength sh1) (hs_records sh1)" using share_invD(3) [OF inv] f1 by simp
    have fit: "\<forall>kd \<in> set (hs_keydef sh). rec_fits kd rec"
      using share_invD(8) [OF inv] len by (simp flip: key_fits_rec)
    have dups: "dup_at env sh1 ?A rec k = dup_at env sh ?A rec k" for k
      using S1(4) by (auto simp: dup_key_def S1(3) simp del: split_paired_Ex)
    let ?sh1 = "sh1\<lparr>hs_changed := True\<rparr>" and ?ks = "[0..<length (hs_keydef sh1)]"
    have pre: "share_with env ?sh1 ?A pos rec {}" "distinct ?ks" "set ?ks \<subseteq> {..<length (hs_keydef ?sh1)} - {}" "pos \<notin> ?A"
      "index_room (hs_records ?sh1) (hs_keydef ?sh1)" "\<forall>kd \<in> set (hs_keydef ?sh1). rec_fits kd rec"
      using S1(1) T(2) cap f1 fit by (auto simp: has_room_def S1(3))
    obtain K l i failed where w: "write_keys env ?sh1 info ?ks rec pos = Some (?sh1\<lparr>hs_keydef := K, hs_index_length := l\<rparr>, i, failed)"
      "same_keys (hs_keydef ?sh1) K"
      "case failed of
         None \<Rightarrow> i = info \<and> share_with env (?sh1\<lparr>hs_keydef := K\<rparr>) ?A pos rec ({} \<union> set ?ks) \<and> (\<forall>k \<in> set ?ks. \<not> dup_at env ?sh1 ?A rec k)
       | Some k \<Rightarrow> \<exists>us vs. ?ks = us @ k # vs \<and> i = info\<lparr>hi_errno := HA_ERR_FOUND_DUPP_KEY\<rparr> \<and>
           share_with env (?sh1\<lparr>hs_keydef := K\<rparr>) ?A pos rec ({} \<union> set us \<union> {k}) \<and> dup_at env ?sh1 ?A rec k \<and> (\<forall>k \<in> set us. \<not> dup_at env ?sh1 ?A rec k)"
      using write_keys_correct [OF pre mem, of info] by blast
    define sh2 where "sh2 = ?sh1\<lparr>hs_keydef := K, hs_index_length := l\<rparr>"
    have f2: "hs_keydef sh2 = K" "hs_block sh2 = hs_block sh1" "hs_records sh2 = hs_records sh" "hs_blength sh2 = hs_blength sh"
      "hs_reclength sh2 = hs_reclength sh" "hs_deleted sh2 = hs_deleted sh1" "hs_max_records sh2 = hs_max_records sh"
      "rec_at sh2 = rec_at sh1" "data_ok env sh2 n A' es = data_ok env sh1 n A' es" for n A' es
      using f1 by (simp_all add: sh2_def)
    have sk: "same_keys (hs_keydef sh) K" using w(2) S1(3) by simp
    have d2: "data_ok env sh2 (hs_records sh + length ds' + 1) ?A ds'" using T(1) by (simp only: f2)
    have pos2: "pos \<in> used_cells (hs_block sh2) (hs_records sh + length ds' + 1)" using T(4) by (simp add: f2)
    have del1: "hs_deleted sh1 = length ds'" by (rule data_okD(7) [OF T(1)])
    show ?thesis
    proof (cases failed)
      case None
      with w(3) have W: "i = info" "share_with env sh2 ?A pos rec {..<length K}" "\<And>k. k < length K \<Longrightarrow> \<not> dup_at env sh ?A rec k"
        using list_all2_lengthD [OF sk] dups S1(3) by (auto simp: sh2_def atLeast0LessThan)
      obtain c d' where C: "cell_at sh2 pos = Some c"
        "put_cell sh2 pos ((memcpy c rec (hs_reclength sh2))[hs_reclength sh2 := 1]) = Some (sh2\<lparr>hs_data := d'\<rparr>)"
        "data_ok env (sh2\<lparr>hs_data := d'\<rparr>) (hs_records sh + length ds' + 1) (insert pos ?A) ds'"
        "rec_at (sh2\<lparr>hs_data := d'\<rparr>) = (rec_at sh2)(pos := rec)"
        using write_row [OF d2 pos2 T(3), of rec True] len by (auto simp: f2)
      let ?sh3 = "count_up (sh2\<lparr>hs_data := d'\<rparr>)"
      let ?info = "info\<lparr>hi_current_ptr := Some pos, hi_current_hash_ptr := None, hi_update := hi_update info OR HA_STATE_AKTIV\<rparr>"
      have run: "heap_write env sh info rec = Some (?sh3, ?info, 0)"
        using np(1) Inl w(1) None C(1,2) W(1) unfolding sh2_def by (simp add: heap_write_def O_RDONLY_def)
      have n3: "hs_records ?sh3 + hs_deleted ?sh3 = hs_records sh + length ds' + 1" by (simp add: f2 del1)
      have "share_inv env ?sh3 (insert pos ?A) ds'"
      proof (rule share_invI)
        show "data_ok env ?sh3 (hs_records ?sh3 + hs_deleted ?sh3) (insert pos ?A) ds'" unfolding n3 using C(3) by simp
        show "insert pos ?A \<union> set ds' = used_cells (hs_block ?sh3) (hs_records ?sh3 + hs_deleted ?sh3)"
          unfolding n3 using T(4) by (simp add: f2)
        show "table_size (hs_blength ?sh3) (hs_records ?sh3)" using table_size_next [OF ts] f1 by (simp add: f2)
        fix k assume "k < length (hs_keydef ?sh3)"
        then have k: "k < length K" "k < length (hs_keydef sh)" "k < length (hs_keydef sh1)"
          using list_all2_lengthD [OF sk] S1(3) by (simp_all add: f2)
        show "index_wf ?so (rec_at ?sh3) (hs_blength ?sh3) (hs_records ?sh3) (insert pos ?A) (hs_keydef ?sh3 ! k)"
          using with_rec_nth(1) [OF W(2)] k(1) by (simp add: f2 C(4))
        have "unique_keys ?so ((rec_at sh1)(pos := rec)) (insert pos ?A) (hs_keydef sh1 ! k)"
          using unique_keys_insert [OF S1(2) [OF k(3)] T(2)] W(3) [OF k(1)] dups by simp
        then show "unique_keys ?so (rec_at ?sh3) (insert pos ?A) (hs_keydef ?sh3 ! k)"
          using same_key_unique [OF same_keys_nth [OF sk k(2)]] S1(3) by (simp add: f2 C(4))
        show "key_fits (hs_reclength ?sh3) (hs_keydef ?sh3 ! k)"
          using key_fits_same [OF same_keys_nth [OF sk k(2)]] share_invD(8) [OF inv] k(2) by (simp add: f2)
      qed
      note inv3 = this
      have "table_rows ?sh3 = (table_rows sh)(pos \<mapsto> rec)"
      proof
        fix a show "table_rows ?sh3 a = ((table_rows sh)(pos \<mapsto> rec)) a"
          using S1(4) [of a] by (simp add: table_rows_inv [OF inv3] table_rows_inv [OF inv] C(4) f2)
      qed
      moreover have "same_defs sh ?sh3" using sk f1 by (simp add: same_defs_def f2)
      moreover have "table_rows sh pos = None" using T(2) by (simp add: table_rows_def)
      moreover have "test_active ?info" by (simp add: test_active_def HA_STATE_AKTIV_def bit.conj_disj_distrib2)
      ultimately show ?thesis using run share_inv_wf [OF inv3] W(3) list_all2_lengthD [OF sk]
        by (intro exI [of _ ?sh3] exI [of _ ?info] exI [of _ 0]) (auto simp del: split_paired_Ex)
    next
      case (Some key)
      with w(3) obtain us vs where U: "?ks = us @ key # vs" "i = info\<lparr>hi_errno := HA_ERR_FOUND_DUPP_KEY\<rparr>"
        "share_with env sh2 ?A pos rec (set us \<union> {key})" "dup_at env ?sh1 ?A rec key" "\<forall>k \<in> set us. \<not> dup_at env ?sh1 ?A rec k"
        by (auto simp: sh2_def)
      have us: "us = [0..<key]" "key < length (hs_keydef sh1)" using upt_split [OF U(1)] by simp_all
      let ?i = "i\<lparr>hi_errkey := int key\<rparr>" and ?rks = "rev [0..<key + 1]"
      have ks: "distinct ?rks" "set ?rks \<subseteq> {..<length (hs_keydef sh2)} \<inter> (set us \<union> {key})" "table_size (hs_blength sh2) (hs_records sh2)"
        using us list_all2_lengthD [OF sk] S1(3) ts f1 by (auto simp: f2)
      obtain K' where u: "undo_write env sh2 ?i ?rks rec pos = Some (sh2\<lparr>hs_keydef := K'\<rparr>, ?i)" "same_keys (hs_keydef sh2) K'"
        "share_with env (sh2\<lparr>hs_keydef := K'\<rparr>) ?A pos rec (set us \<union> {key} - set ?rks)"
        using undo_write_correct [OF U(3) ks(1,2) T(2) ks(3), of ?i] by blast
      have D0: "set us \<union> {key} - set ?rks = {}" by (auto simp: us)
      define sh3 where "sh3 = sh2\<lparr>hs_keydef := K'\<rparr>"
      have f3: "hs_keydef sh3 = K'" "hs_block sh3 = hs_block sh1" "hs_records sh3 = hs_records sh" "hs_blength sh3 = hs_blength sh"
        "hs_reclength sh3 = hs_reclength sh" "hs_deleted sh3 = length ds'" "hs_max_records sh3 = hs_max_records sh" "rec_at sh3 = rec_at sh1"
        by (simp_all add: sh3_def f2 del1)
      have d3: "data_ok env sh3 (hs_records sh + length ds' + 1) ?A ds'" using d2 by (simp add: sh3_def)
      have capn: "hs_records sh + length ds' + 1 \<le> max_cells (records_in_block (hs_block sh3))"
      proof -
        note Z = sizes_okD [OF data_okD(1) [OF d3]]
        have "room (hs_block sh3) \<le> max_cells (records_in_block (hs_block sh3))"
          unfolding room_def max_cells_def using block_wfD(5) [OF Z(1)] by (rule mult_le_mono1)
        with Z(5) show ?thesis by simp
      qed
      have pos3: "pos \<in> used_cells (hs_block sh3) (hs_records sh + length ds' + 1)" using T(4) by (simp add: f3)
      obtain d where F: "free_cell env sh3 pos = Some (sh3\<lparr>hs_data := d, hs_deleted := Suc (hs_deleted sh3), hs_del_link := Some pos\<rparr>)"
        "\<And>a. a \<noteq> pos \<Longrightarrow> cell_at (sh3\<lparr>hs_data := d, hs_deleted := Suc (hs_deleted sh3), hs_del_link := Some pos\<rparr>) a = cell_at sh3 a"
        "data_ok env (sh3\<lparr>hs_data := d, hs_deleted := Suc (hs_deleted sh3), hs_del_link := Some pos\<rparr>) (hs_records sh + length ds' + 1) (?A - {pos}) (pos # ds')"
        using free_cell_correct [OF d3 pos3 T(3) capn] by blast
      define sh4 where "sh4 = sh3\<lparr>hs_data := d, hs_deleted := Suc (hs_deleted sh3), hs_del_link := Some pos\<rparr>"
      have f4: "hs_keydef sh4 = K'" "hs_block sh4 = hs_block sh1" "hs_records sh4 = hs_records sh" "hs_blength sh4 = hs_blength sh"
        "hs_reclength sh4 = hs_reclength sh" "hs_deleted sh4 = length ds' + 1" "hs_max_records sh4 = hs_max_records sh"
        by (simp_all add: sh4_def f3)
      have r4: "rec_at sh4 a = rec_at sh1 a" if "a \<in> ?A" for a
      proof -
        have "a \<noteq> pos" using that T(2) by blast
        then have "rec_at sh4 a = rec_at sh3 a" by (intro rec_at_cong) (simp_all add: sh4_def F(2))
        then show ?thesis by (simp add: f3)
      qed
      have run: "heap_write env sh info rec = Some (sh4, ?i, HA_ERR_FOUND_DUPP_KEY)"
        using np(1) Inl w(1) Some u(1) F(1) U(2) unfolding sh2_def sh3_def sh4_def
        by (simp add: heap_write_def O_RDONLY_def del: upt_Suc undo_write.simps)
      have sk': "same_keys (hs_keydef sh) K'" using same_keys_trans [OF sk] u(2) by (simp add: f2)
      have n4: "hs_records sh4 + hs_deleted sh4 = hs_records sh + length ds' + 1" by (simp add: f4)
      have inv4: "share_inv env sh4 ?A (pos # ds')"
      proof (rule share_invI)
        show "data_ok env sh4 (hs_records sh4 + hs_deleted sh4) ?A (pos # ds')" unfolding n4 using F(3) T(2) by (simp add: sh4_def)
        show "?A \<union> set (pos # ds') = used_cells (hs_block sh4) (hs_records sh4 + hs_deleted sh4)" unfolding n4 using T(4) by (simp add: f4)
        show "table_size (hs_blength sh4) (hs_records sh4)" using ts f1 by (simp add: f4)
        fix k assume "k < length (hs_keydef sh4)"
        then have k: "k < length K'" "k < length (hs_keydef sh)" "k < length (hs_keydef sh1)"
          using list_all2_lengthD [OF sk'] S1(3) by (simp_all add: f4)
        have "index_wf ?so (rec_at sh1) (hs_blength sh) (hs_records sh) ?A (K' ! k)"
          using with_rec_nth(2) [OF u(3) [unfolded D0]] k(1) by (simp add: f2)
        then show "index_wf ?so (rec_at sh4) (hs_blength sh4) (hs_records sh4) ?A (hs_keydef sh4 ! k)"
          using r4 unfolding f4 by (rule index_wf_cong)
        have "unique_keys ?so (rec_at sh4) ?A (hs_keydef sh1 ! k)" using S1(2) [OF k(3)] r4 by (rule unique_keys_cong)
        then show "unique_keys ?so (rec_at sh4) ?A (hs_keydef sh4 ! k)"
          using same_key_unique [OF same_keys_nth [OF sk' k(2)]] S1(3) by (simp add: f4)
        show "key_fits (hs_reclength sh4) (hs_keydef sh4 ! k)"
          using key_fits_same [OF same_keys_nth [OF sk' k(2)]] share_invD(8) [OF inv] k(2) by (simp add: f4)
      qed
      have "table_rows sh4 = table_rows sh"
      proof
        fix a show "table_rows sh4 a = table_rows sh a"
          using S1(4) [of a] r4 [of a] by (simp add: table_rows_inv [OF inv4] table_rows_inv [OF inv])
      qed
      moreover have "same_defs sh sh4" using sk' f1 by (simp add: same_defs_def f4)
      moreover have "dup_at env sh ?A rec key" "\<forall>j < key. \<not> dup_at env sh ?A rec j" "key < length (hs_keydef sh)"
        using U(4,5) us dups S1(3) by (auto simp: simp del: split_paired_Ex)
      moreover have "HA_ERR_FOUND_DUPP_KEY \<noteq> 0" by (simp add: ha_errors)
      ultimately show ?thesis using run share_inv_wf [OF inv4] U(2)
        by (intro exI [of _ sh4] exI [of _ ?i] exI [of _ HA_ERR_FOUND_DUPP_KEY]) (auto simp del: split_paired_Ex)
    qed
  qed
qed

subsection \<open>Deleting a row\<close>

lemma count_down_sizes:
  assumes "table_size bl n" "0 < n"
  shows "table_size (prev_size bl (n - 1)) (n - 1)" "next_size (prev_size bl (n - 1)) (n - 1) = bl"
proof -
  have n: "n = Suc (n - 1)" using assms(2) by simp
  with assms(1) have ts: "table_size bl (Suc (n - 1))" by simp
  show "table_size (prev_size bl (n - 1)) (n - 1)" using table_size_shrink(1) [OF ts] by (simp add: prev_size_def)
  show "next_size (prev_size bl (n - 1)) (n - 1) = bl" 
    unfolding prev_size_def next_size_def by (rule table_size_shrink(2) [OF ts, symmetric])
qed

text \<open>The record of the cursor is in all indexes, seen from the lowered number of records.\<close>

lemma share_with_cursor:
  assumes inv: "share_inv env sh A ds" and pos: "pos \<in> A" "rec_at sh pos = rec"
  shows "share_with env (count_down sh) (A - {pos}) pos rec {..<length (hs_keydef sh)}" "0 < hs_records sh"
    "table_size (hs_blength (count_down sh)) (hs_records (count_down sh))"
    "next_size (hs_blength (count_down sh)) (hs_records (count_down sh)) = hs_blength sh"
proof -
  show n: "0 < hs_records sh" using share_invD(4,5) [OF inv] pos(1) by (metis card_gt_0_iff empty_iff)
  note sz = count_down_sizes [OF share_invD(3) [OF inv] n]
  show "table_size (hs_blength (count_down sh)) (hs_records (count_down sh))"
    "next_size (hs_blength (count_down sh)) (hs_records (count_down sh)) = hs_blength sh" using sz by simp_all
  have "(rec_at sh)(pos := rec) = rec_at sh" using pos(2) by auto
  moreover have "insert pos (A - {pos}) = A" using pos(1) by auto
  ultimately show "share_with env (count_down sh) (A - {pos}) pos rec {..<length (hs_keydef sh)}"
    using share_invD(6) [OF inv nth_mem] n sz(2) by (simp add: with_rec_def)
qed

lemma heap_delete_correct:
  assumes wf: "share_wf env sh" and act: "test_active info" "hi_current_ptr info = Some pos" and row: "table_rows sh pos = Some rec"
  shows "\<exists>sh' info'. heap_delete env sh info rec = Some (sh', info', 0) \<and> share_wf env sh' \<and> same_defs sh sh' \<and>
    table_rows sh' = (table_rows sh)(pos := None) \<and> \<not> test_active info' \<and>
    (\<exists>i. info' = i\<lparr>hi_update := HA_STATE_DELETED, hi_current_hash_ptr := None\<rparr> \<and>
       (if hi_lastinx info \<in> int ` {..<length (hs_keydef sh)} then cursor_moved env sh (active sh - {pos}) rec info i else i = info))"
proof -
  obtain ds where inv: "share_inv env sh (active sh) ds" using wf by (auto simp: share_wf_def)
  let ?A = "active sh" and ?so = "env_sort_order env" and ?ks = "[0..<length (hs_keydef sh)]"
  have pos: "pos \<in> ?A" "rec_at sh pos = rec" using row by (auto simp: table_rows_def split: if_splits)
  let ?B = "?A - {pos}"
  note S = share_with_cursor [OF inv pos]
  define shd where "shd = count_down (sh\<lparr>hs_changed := True\<rparr>)"
  have fd: "hs_keydef shd = hs_keydef sh" "hs_records shd = hs_records sh - 1" "hs_blength shd = prev_size (hs_blength sh) (hs_records sh - 1)"
    "rec_at shd = rec_at sh" "hs_block shd = hs_block sh" "hs_deleted shd = hs_deleted sh" "hs_reclength shd = hs_reclength sh"
    "hs_max_records shd = hs_max_records sh" "data_ok env shd n A' es = data_ok env sh n A' es" "cell_at shd = cell_at sh" for n A' es
    by (simp_all add: shd_def)
  have pre: "share_with env shd ?B pos rec {..<length (hs_keydef sh)}" "distinct ?ks"
    "set ?ks \<subseteq> {..<length (hs_keydef shd)} \<inter> {..<length (hs_keydef sh)}" "pos \<notin> ?B" "table_size (hs_blength shd) (hs_records shd)"
    using S(1,3) by (auto simp: fd)
  obtain c where c: "cell_at sh pos = Some c"
    using used_cell_exists [OF share_invD(1) [OF inv], of pos] pos(1) share_invD(2) [OF inv] by blast
  have rt: "hp_rectest sh info rec = Some (info, 0)"
    using pos(2) act(2) c by (auto simp: hp_rectest_def rec_at_def)
  obtain K i where d: "delete_keys env shd info ?ks rec pos = Some (shd\<lparr>hs_keydef := K\<rparr>, i, False)" "same_keys (hs_keydef shd) K"
      "share_with env (shd\<lparr>hs_keydef := K\<rparr>) ?B pos rec ({..<length (hs_keydef sh)} - set ?ks)"
      "if hi_lastinx info \<in> int ` set ?ks then cursor_moved env shd ?B rec info i else i = info"
    using delete_keys_correct [OF pre, of info] by blast
  define sh1 where "sh1 = shd\<lparr>hs_keydef := K\<rparr>"
  have f1: "hs_keydef sh1 = K" "hs_records sh1 = hs_records sh - 1" "hs_blength sh1 = prev_size (hs_blength sh) (hs_records sh - 1)"
    "rec_at sh1 = rec_at sh" "hs_block sh1 = hs_block sh" "hs_deleted sh1 = hs_deleted sh" "hs_reclength sh1 = hs_reclength sh"
    "hs_max_records sh1 = hs_max_records sh" "data_ok env sh1 n A' es = data_ok env sh n A' es" "cell_at sh1 = cell_at sh" for n A' es
    by (simp_all add: sh1_def fd)
  let ?n = "hs_records sh + hs_deleted sh"
  have D: "data_ok env sh1 ?n ?A ds" using share_invD(1) [OF inv] by (simp only: f1)
  have pu: "pos \<in> used_cells (hs_block sh1) ?n" "pos \<notin> set ds"
    using pos(1) share_invD(2) [OF inv] data_okD(5) [OF D] by (auto simp: f1)
  have capn: "?n \<le> max_cells (records_in_block (hs_block sh1))"
  proof -
    note Z = sizes_okD [OF data_okD(1) [OF D]]
    have "room (hs_block sh1) \<le> max_cells (records_in_block (hs_block sh1))"
      unfolding room_def max_cells_def using block_wfD(5) [OF Z(1)] by (rule mult_le_mono1)
    with Z(5) show ?thesis by simp
  qed
  obtain d' where F: "free_cell env sh1 pos = Some (sh1\<lparr>hs_data := d', hs_deleted := Suc (hs_deleted sh1), hs_del_link := Some pos\<rparr>)"
    "\<And>a. a \<noteq> pos \<Longrightarrow> cell_at (sh1\<lparr>hs_data := d', hs_deleted := Suc (hs_deleted sh1), hs_del_link := Some pos\<rparr>) a = cell_at sh1 a"
    "data_ok env (sh1\<lparr>hs_data := d', hs_deleted := Suc (hs_deleted sh1), hs_del_link := Some pos\<rparr>) ?n ?B (pos # ds)"
    using free_cell_correct [OF D pu capn] by blast
  define sh2 where "sh2 = sh1\<lparr>hs_data := d', hs_deleted := Suc (hs_deleted sh1), hs_del_link := Some pos\<rparr>"
  have f2: "hs_keydef sh2 = K" "hs_records sh2 = hs_records sh - 1" "hs_blength sh2 = prev_size (hs_blength sh) (hs_records sh - 1)"
    "hs_block sh2 = hs_block sh" "hs_deleted sh2 = hs_deleted sh + 1" "hs_reclength sh2 = hs_reclength sh" "hs_max_records sh2 = hs_max_records sh"
    by (simp_all add: sh2_def f1)
  have r2: "rec_at sh2 a = rec_at sh a" if "a \<noteq> pos" for a
  proof -
    have "rec_at sh2 a = rec_at sh1 a" using that by (intro rec_at_cong) (simp_all add: sh2_def F(2))
    then show ?thesis by (simp add: f1)
  qed
  let ?i = "i\<lparr>hi_update := HA_STATE_DELETED, hi_current_hash_ptr := None\<rparr>"
  have run: "heap_delete env sh info rec = Some (sh2, ?i, 0)"
    using act d(1) F(1) rt unfolding shd_def sh1_def sh2_def by (simp add: heap_delete_def)
  have sk: "same_keys (hs_keydef sh) K" using d(2) by (simp add: fd)
  have n2: "hs_records sh2 + hs_deleted sh2 = ?n" using S(2) by (simp add: f2)
  have inv2: "share_inv env sh2 ?B (pos # ds)"
  proof (rule share_invI)
    show "data_ok env sh2 (hs_records sh2 + hs_deleted sh2) ?B (pos # ds)" unfolding n2 using F(3) by (simp add: sh2_def)
    show "?B \<union> set (pos # ds) = used_cells (hs_block sh2) (hs_records sh2 + hs_deleted sh2)"
      unfolding n2 using share_invD(2) [OF inv] pos(1) by (auto simp: f2)
    show "table_size (hs_blength sh2) (hs_records sh2)" using S(3) by (simp add: f2)
    fix k assume "k < length (hs_keydef sh2)"
    then have k: "k < length K" "k < length (hs_keydef sh)" using list_all2_lengthD [OF sk] by (simp_all add: f2)
    have "index_wf ?so (rec_at sh) (hs_blength sh2) (hs_records sh2) ?B (K ! k)"
      using with_rec_nth(2) [OF d(3)] k by (simp add: f2 fd)
    then show "index_wf ?so (rec_at sh2) (hs_blength sh2) (hs_records sh2) ?B (hs_keydef sh2 ! k)"
      unfolding f2(1) by (rule index_wf_cong) (simp add: r2)
    have "unique_keys ?so (rec_at sh) ?B (hs_keydef sh ! k)"
      using unique_keys_mono [OF share_invD(7) [OF inv nth_mem [OF k(2)]]] by blast
    then have "unique_keys ?so (rec_at sh2) ?B (hs_keydef sh ! k)" by (rule unique_keys_cong) (simp add: r2)
    then show "unique_keys ?so (rec_at sh2) ?B (hs_keydef sh2 ! k)"
      using same_key_unique [OF same_keys_nth [OF sk k(2)]] by (simp add: f2)
    show "key_fits (hs_reclength sh2) (hs_keydef sh2 ! k)"
      using key_fits_same [OF same_keys_nth [OF sk k(2)]] share_invD(8) [OF inv] k(2) by (simp add: f2)
  qed
  have "table_rows sh2 = (table_rows sh)(pos := None)"
  proof
    fix a show "table_rows sh2 a = ((table_rows sh)(pos := None)) a"
      using r2 [of a] by (simp add: table_rows_inv [OF inv2] table_rows_inv [OF inv])
  qed
  moreover have "same_defs sh sh2" using sk by (simp add: same_defs_def f2)
  moreover have "\<not> test_active ?i" by (simp add: test_active_def HA_STATE_DELETED_def HA_STATE_AKTIV_def)
  moreover have cm: "cursor_moved env shd = cursor_moved env sh" by (intro ext) (simp only: cursor_moved_def fd)
  have "if hi_lastinx info \<in> int ` {..<length (hs_keydef sh)} then cursor_moved env sh ?B rec info i else i = info"
    using d(4) unfolding cm by (simp add: atLeast0LessThan)
  ultimately show ?thesis using run share_inv_wf [OF inv2]
    by (intro exI [of _ sh2] exI [of _ ?i]) (simp add: exI [of _ i])
qed

subsection \<open>Updating a row\<close>

lemma index_wf_image_cong:
  assumes wf: "index_wf so rd bl n S kd"
    and eq: "\<And>p. p \<in> S \<Longrightarrow> key_image so kd (rd' p) = key_image so kd (rd p) \<and> rec_fits kd (rd' p)"
  shows "index_wf so rd' bl n S kd"
proof -
  have "link_wf (key_hash so rd' kd) (kd_cells kd) bl n"
  proof (rule link_wf_hash_cong)
    show "link_wf (key_hash so rd kd) (kd_cells kd) bl n" using wf by (simp add: index_wf_def key_wf_def)
    fix r assume "r \<in># recs {..<n} (kd_cells kd)"
    then have "r \<in> S" using index_mem(1) [OF wf, of r] by (simp add: key_recs_def)
    then show "key_hash so rd kd r = key_hash so rd' kd r" using hp_rec_hashnr_image eq by metis
  qed
  with wf eq show ?thesis by (simp add: index_wf_def key_wf_def)
qed

text \<open>The indexes in \<open>D\<close> have the new record at \<open>pos\<close>, the others the old one.\<close>

definition upd_rec :: "hp_env \<Rightarrow> HP_SHARE \<Rightarrow> haddr set \<Rightarrow> haddr \<Rightarrow> bytes \<Rightarrow> bytes \<Rightarrow> nat set \<Rightarrow> bool" where
  "upd_rec env sh B pos old new D \<longleftrightarrow> (\<forall>i < length (hs_keydef sh).
     index_wf (env_sort_order env) ((rec_at sh)(pos := (if i \<in> D then new else old))) (next_size (hs_blength sh) (hs_records sh))
       (hs_records sh + 1) (insert pos B) (hs_keydef sh ! i))"

lemma upd_rec_update:
  assumes "upd_rec env sh B pos old new D"
    "index_wf (env_sort_order env) ((rec_at sh)(pos := (if d then new else old))) (next_size (hs_blength sh) (hs_records sh))
       (hs_records sh + 1) (insert pos B) kd"
  shows "upd_rec env (sh\<lparr>hs_keydef := (hs_keydef sh)[k := kd]\<rparr>) B pos old new (if d then insert k D else D - {k})"
  unfolding upd_rec_def
proof (intro allI impI)
  fix i assume "i < length (hs_keydef (sh\<lparr>hs_keydef := (hs_keydef sh)[k := kd]\<rparr>))"
  then have i: "i < length (hs_keydef sh)" by simp
  from spec [OF assms(1) [unfolded upd_rec_def], of i] i assms(2)
  show "index_wf (env_sort_order env) ((rec_at (sh\<lparr>hs_keydef := (hs_keydef sh)[k := kd]\<rparr>))
          (pos := (if i \<in> (if d then insert k D else D - {k}) then new else old)))
        (next_size (hs_blength (sh\<lparr>hs_keydef := (hs_keydef sh)[k := kd]\<rparr>)) (hs_records (sh\<lparr>hs_keydef := (hs_keydef sh)[k := kd]\<rparr>)))
       (hs_records (sh\<lparr>hs_keydef := (hs_keydef sh)[k := kd]\<rparr>) + 1) (insert pos B) (hs_keydef (sh\<lparr>hs_keydef := (hs_keydef sh)[k := kd]\<rparr>) ! i)"
    by (cases "i = k"; cases "i \<in> D"; cases d) simp_all
qed

lemma upd_rec_fields [simp]: "upd_rec env (sh\<lparr>hs_index_length := l\<rparr>) = upd_rec env sh"
    "upd_rec env (sh\<lparr>hs_index_length := l, hs_keydef := K\<rparr>) = upd_rec env (sh\<lparr>hs_keydef := K\<rparr>)"
  by (intro ext, simp add: upd_rec_def)+

lemma replace_key_correct:
  assumes k: "k < length (hs_keydef sh)" and pos: "pos \<notin> B" and ts: "table_size (hs_blength sh) (hs_records sh)"
    and wf: "index_wf (env_sort_order env) ((rec_at sh)(pos := r1)) (next_size (hs_blength sh) (hs_records sh)) (hs_records sh + 1) (insert pos B) (hs_keydef sh ! k)"
    and fits: "rec_fits (hs_keydef sh ! k) r2"
  shows "\<exists>kd l hp p. replace_key env sh info k r1 r2 pos flag =
        (let dup = dup_key (env_sort_order env) (rec_at sh) B r2 (hs_keydef sh ! k);
             i = (if flag then info\<lparr>hi_current_hash_ptr := hp, hi_current_ptr := p\<rparr> else info)
         in Some (sh\<lparr>hs_keydef := (hs_keydef sh)[k := kd], hs_index_length := l\<rparr>,
             if dup then i\<lparr>hi_errno := HA_ERR_FOUND_DUPP_KEY\<rparr> else i, dup)) \<and>
      same_key (hs_keydef sh ! k) kd \<and>
      index_wf (env_sort_order env) ((rec_at sh)(pos := r2)) (next_size (hs_blength sh) (hs_records sh)) (hs_records sh + 1) (insert pos B) kd"
proof -
  let ?so = "env_sort_order env" and ?n = "hs_records sh"
  obtain kd1 hp p where d: "delete_key env sh info k r1 pos flag =
        Some (sh\<lparr>hs_keydef := (hs_keydef sh)[k := kd1]\<rparr>, if flag then info\<lparr>hi_current_hash_ptr := hp, hi_current_ptr := p\<rparr> else info, 0)"
      "same_key (hs_keydef sh ! k) kd1" "kd_block kd1 = kd_block (hs_keydef sh ! k)"
      "index_wf ?so (rec_at sh) (hs_blength sh) ?n B kd1"
    using delete_key_correct [OF k wf pos ts, of info flag] by blast
  let ?i = "if flag then info\<lparr>hi_current_hash_ptr := hp, hi_current_ptr := p\<rparr> else info"
  define sh1 where "sh1 = sh\<lparr>hs_keydef := (hs_keydef sh)[k := kd1]\<rparr>"
  have f1: "hs_keydef sh1 ! k = kd1" "rec_at sh1 = rec_at sh" "hs_blength sh1 = hs_blength sh" "hs_records sh1 = ?n" "k < length (hs_keydef sh1)"
    using k by (simp_all add: sh1_def)
  have f1k: "hs_keydef sh1 = (hs_keydef sh)[k := kd1]" by (simp add: sh1_def)
  have "key_room_wf (hs_keydef sh ! k) (?n + 1)" using wf by (simp add: index_wf_def key_wf_def)
  then have R: "block_wf (kd_block kd1)" "?n + 1 \<le> last_allocated (kd_block kd1)" "last_allocated (kd_block kd1) \<le> room (kd_block kd1)"
    by (simp_all add: key_room_wf_def Let_def d(3))
  have "room (kd_block kd1) \<le> max_cells (records_in_block (kd_block kd1))"
    unfolding room_def max_cells_def using block_wfD(5) [OF R(1)] by (rule mult_le_mono1)
  with R have c: "hs_records sh1 < max_cells (records_in_block (kd_block (hs_keydef sh1 ! k)))" by (simp add: f1)
  have m: "index_memory env \<or> last_allocated (kd_block (hs_keydef sh1 ! k)) \<noteq> hs_records sh1" using R(2) by (simp add: f1)
  have wf1: "index_wf ?so (rec_at sh1) (hs_blength sh1) (hs_records sh1) B (hs_keydef sh1 ! k)" using d(4) by (simp add: f1)
  have fits1: "rec_fits (hs_keydef sh1 ! k) r2" using fits same_keyD(3) [OF d(2)] by (simp add: f1)
  obtain kd l where w: "write_key env sh1 ?i k r2 pos =
        (let dup = dup_key ?so (rec_at sh1) B r2 (hs_keydef sh1 ! k)
         in Some (sh1\<lparr>hs_keydef := (hs_keydef sh1)[k := kd], hs_index_length := l\<rparr>,
             if dup then ?i\<lparr>hi_errno := HA_ERR_FOUND_DUPP_KEY\<rparr> else ?i, if dup then HA_ERR_FOUND_DUPP_KEY else 0))"
      "same_key (hs_keydef sh1 ! k) kd"
      "index_wf ?so ((rec_at sh1)(pos := r2)) (next_size (hs_blength sh1) (hs_records sh1)) (hs_records sh1 + 1) (insert pos B) kd"
    using write_key_correct [OF f1(5) wf1 pos c fits1 m, of ?i] by blast
  have dup: "dup_key ?so (rec_at sh1) B r2 (hs_keydef sh1 ! k) = dup_key ?so (rec_at sh) B r2 (hs_keydef sh ! k)"
    using same_key_dup [OF d(2)] by (simp add: f1)
  have sk: "same_key (hs_keydef sh ! k) kd" using same_key_trans [OF d(2)] w(2) by (simp add: f1)
  have e: "HA_ERR_FOUND_DUPP_KEY \<noteq> 0" by (simp add: ha_errors)
  have "sh1\<lparr>hs_keydef := (hs_keydef sh1)[k := kd], hs_index_length := l\<rparr> = sh\<lparr>hs_keydef := (hs_keydef sh)[k := kd], hs_index_length := l\<rparr>"
    unfolding f1k by (simp add: sh1_def)
  with d(1) w(1) [unfolded dup] e have "replace_key env sh info k r1 r2 pos flag =
      (let dup = dup_key ?so (rec_at sh) B r2 (hs_keydef sh ! k)
         in Some (sh\<lparr>hs_keydef := (hs_keydef sh)[k := kd], hs_index_length := l\<rparr>,
             if dup then ?i\<lparr>hi_errno := HA_ERR_FOUND_DUPP_KEY\<rparr> else ?i, dup))"
    unfolding replace_key_def d(1) sh1_def [symmetric] by (simp add: Let_def)
  with sk w(3) show ?thesis unfolding f1(2-4) Let_def by blast
qed

lemma key_changes_same: "same_keys (hs_keydef sh) K \<Longrightarrow> k < length (hs_keydef sh) \<Longrightarrow>
    key_changes env (sh\<lparr>hs_keydef := K, hs_index_length := l\<rparr>) k old new = key_changes env sh k old new"
  using same_keyD(2) [OF same_keys_nth] by (simp add: key_changes_def)

lemma upd_rec_same_image:
  assumes u: "upd_rec env sh B pos old new D" and k: "k < length (hs_keydef sh)" and nc: "\<not> key_changes env sh k old new"
    and fits: "rec_fits (hs_keydef sh ! k) old" "rec_fits (hs_keydef sh ! k) new"
  shows "upd_rec env sh B pos old new (insert k D)" "upd_rec env sh B pos old new (D - {k})"
proof -
  let ?so = "env_sort_order env" and ?kd = "hs_keydef sh ! k"
  have im: "key_image ?so ?kd old = key_image ?so ?kd new"
    using nc fits by (simp add: key_changes_def hp_rec_key_cmp_image)
  note wf = mp [OF spec [OF u [unfolded upd_rec_def], of k] k]
  have f: "rec_fits ?kd (if k \<in> D then new else old)" "key_image ?so ?kd (if k \<in> D then new else old) = key_image ?so ?kd old"
    using fits im by simp_all
  have all: "index_wf ?so ((rec_at sh)(pos := r)) (next_size (hs_blength sh) (hs_records sh)) (hs_records sh + 1) (insert pos B) ?kd"
    if r: "r = old \<or> r = new" for r
  proof (rule index_wf_image_cong [OF wf])
    fix p assume "p \<in> insert pos B"
    from wf have "\<forall>p \<in> insert pos B. rec_fits ?kd (((rec_at sh)(pos := (if k \<in> D then new else old))) p)"
      unfolding index_wf_def by (elim conjE) assumption
    then have "rec_fits ?kd (((rec_at sh)(pos := (if k \<in> D then new else old))) p)" using \<open>p \<in> insert pos B\<close> by (rule bspec)
    then show "key_image ?so ?kd (((rec_at sh)(pos := r)) p) = key_image ?so ?kd (((rec_at sh)(pos := (if k \<in> D then new else old))) p) \<and>
        rec_fits ?kd (((rec_at sh)(pos := r)) p)" using r fits im f(2) by (cases "p = pos") auto
  qed
  show "upd_rec env sh B pos old new (insert k D)" "upd_rec env sh B pos old new (D - {k})"
    unfolding upd_rec_def
    by (intro allI impI; rename_tac i; case_tac "i = k"; use all spec [OF u [unfolded upd_rec_def]] in simp)+
qed

lemma update_keys_correct:
  assumes "upd_rec env sh B pos old new D" "distinct ks" "set ks \<subseteq> {..<length (hs_keydef sh)} - D" "pos \<notin> B"
    "table_size (hs_blength sh) (hs_records sh)" "\<forall>kd \<in> set (hs_keydef sh). rec_fits kd old \<and> rec_fits kd new"
  shows "\<exists>K l hp p failed. update_keys env sh info ks old new pos =
        Some (sh\<lparr>hs_keydef := K, hs_index_length := l\<rparr>,
          (let i = info\<lparr>hi_current_hash_ptr := hp, hi_current_ptr := p\<rparr>
           in if failed = None then i else i\<lparr>hi_errno := HA_ERR_FOUND_DUPP_KEY\<rparr>), failed) \<and>
      same_keys (hs_keydef sh) K \<and>
      (hi_lastinx info \<notin> int ` set ks \<longrightarrow> hp = hi_current_hash_ptr info \<and> p = hi_current_ptr info) \<and>
      (case failed of
         None \<Rightarrow> upd_rec env (sh\<lparr>hs_keydef := K\<rparr>) B pos old new (D \<union> set ks) \<and>
           (\<forall>k \<in> set ks. key_changes env sh k old new \<longrightarrow> \<not> dup_at env sh B new k)
       | Some k \<Rightarrow> \<exists>us vs. ks = us @ k # vs \<and> upd_rec env (sh\<lparr>hs_keydef := K\<rparr>) B pos old new (D \<union> set us \<union> {k}) \<and>
           key_changes env sh k old new \<and> dup_at env sh B new k \<and>
           (\<forall>k \<in> set us. key_changes env sh k old new \<longrightarrow> \<not> dup_at env sh B new k))"
  using assms
proof (induction ks arbitrary: sh D info)
  case Nil
  have "update_keys env sh info [] old new pos = Some (sh\<lparr>hs_keydef := hs_keydef sh, hs_index_length := hs_index_length sh\<rparr>,
      (let i = info\<lparr>hi_current_hash_ptr := hi_current_hash_ptr info, hi_current_ptr := hi_current_ptr info\<rparr>
       in if None = None then i else i\<lparr>hi_errno := HA_ERR_FOUND_DUPP_KEY\<rparr>), None)" by (simp add: Let_def)
  moreover have "sh\<lparr>hs_keydef := hs_keydef sh\<rparr> = sh" by simp
  moreover have "D \<union> set [] = D" by simp
  ultimately show ?case using Nil.prems(1)
    by (intro exI [of _ "hs_keydef sh"] exI [of _ "hs_index_length sh"] exI [of _ "hi_current_hash_ptr info"]
        exI [of _ "hi_current_ptr info"] exI [of _ None]) (simp only: option.case same_keys_refl simp_thms ball_simps list.set)
next
  case (Cons k ks)
  let ?so = "env_sort_order env" and ?K = "hs_keydef sh" and ?flag = "int k = hi_lastinx info"
  have k: "k < length ?K" "k \<notin> D" "k \<notin> set ks" using Cons.prems(2,3) by auto
  have fits: "rec_fits (?K ! k) old" "rec_fits (?K ! k) new" using Cons.prems(6) k(1) by simp_all
  let ?ch = "key_changes env sh k old new" and ?dup = "dup_at env sh B new k"
  obtain kd l hp0 p0 where R: "(if ?ch then replace_key env sh info k old new pos ?flag else Some (sh, info, False)) =
      Some (sh\<lparr>hs_keydef := ?K[k := kd], hs_index_length := l\<rparr>,
        (let i = info\<lparr>hi_current_hash_ptr := hp0, hi_current_ptr := p0\<rparr> in if ?ch \<and> ?dup then i\<lparr>hi_errno := HA_ERR_FOUND_DUPP_KEY\<rparr> else i),
        ?ch \<and> ?dup)"
      "same_key (?K ! k) kd" "upd_rec env (sh\<lparr>hs_keydef := ?K[k := kd]\<rparr>) B pos old new (insert k D)"
      "\<not> ?flag \<longrightarrow> hp0 = hi_current_hash_ptr info \<and> p0 = hi_current_ptr info"
  proof (cases ?ch)
    case True
    have "index_wf ?so ((rec_at sh)(pos := old)) (next_size (hs_blength sh) (hs_records sh)) (hs_records sh + 1) (insert pos B) (?K ! k)"
      using spec [OF Cons.prems(1) [unfolded upd_rec_def], of k] k by simp
    from replace_key_correct [OF k(1) Cons.prems(4,5) this fits(2), of info ?flag] obtain kd l hp p where
      r: "replace_key env sh info k old new pos ?flag =
        (let i = (if ?flag then info\<lparr>hi_current_hash_ptr := hp, hi_current_ptr := p\<rparr> else info)
         in Some (sh\<lparr>hs_keydef := ?K[k := kd], hs_index_length := l\<rparr>,
             if ?dup then i\<lparr>hi_errno := HA_ERR_FOUND_DUPP_KEY\<rparr> else i, ?dup))" "same_key (?K ! k) kd"
      "index_wf ?so ((rec_at sh)(pos := new)) (next_size (hs_blength sh) (hs_records sh)) (hs_records sh + 1) (insert pos B) kd"
      unfolding Let_def by blast
    have u: "upd_rec env (sh\<lparr>hs_keydef := ?K[k := kd]\<rparr>) B pos old new (insert k D)"
      using upd_rec_update [OF Cons.prems(1), of True kd k] r(3) by simp
    show ?thesis
    proof (cases ?flag)
      case flag: True
      show ?thesis by (rule that [OF _ r(2) u, of l p hp]) (use True flag r(1) in \<open>simp_all add: Let_def\<close>)
    next
      case flag: False
      show ?thesis by (rule that [OF _ r(2) u, of l "hi_current_ptr info" "hi_current_hash_ptr info"])
        (use True flag r(1) in \<open>simp_all add: Let_def\<close>)
    qed
  next
    case False
    have "upd_rec env (sh\<lparr>hs_keydef := ?K[k := ?K ! k]\<rparr>) B pos old new (insert k D)"
      using upd_rec_same_image(1) [OF Cons.prems(1) k(1) False fits] by simp
    then show ?thesis by (rule that [OF _ same_key_refl(1), of "hs_index_length sh" "hi_current_ptr info" "hi_current_hash_ptr info", rotated])
       (use False in \<open>simp_all add: Let_def\<close>)
  qed
  let ?sh = "sh\<lparr>hs_keydef := ?K[k := kd], hs_index_length := l\<rparr>" and ?i = "info\<lparr>hi_current_hash_ptr := hp0, hi_current_ptr := p0\<rparr>"
  have sk: "same_keys ?K (?K[k := kd])" by (rule same_keys_update [OF k(1) R(2)])
  show ?case
  proof (cases "?ch \<and> ?dup")
    case True
    then have "update_keys env sh info (k # ks) old new pos =
        Some (?sh, (let i = ?i in if Some k = None then i else i\<lparr>hi_errno := HA_ERR_FOUND_DUPP_KEY\<rparr>), Some k)" using R(1) by simp
    moreover have "hi_lastinx info \<notin> int ` set (k # ks) \<longrightarrow> hp0 = hi_current_hash_ptr info \<and> p0 = hi_current_ptr info"
      using R(4) by auto
    moreover have "\<exists>us vs. k # ks = us @ k # vs \<and> upd_rec env (sh\<lparr>hs_keydef := ?K[k := kd]\<rparr>) B pos old new (D \<union> set us \<union> {k}) \<and>
           ?ch \<and> ?dup \<and> (\<forall>k \<in> set us. key_changes env sh k old new \<longrightarrow> \<not> dup_at env sh B new k)"
      using True R(3) by (intro exI [of _ "[]"] exI [of _ ks]) simp
    ultimately show ?thesis using sk
      by (intro exI [of _ "?K[k := kd]"] exI [of _ l] exI [of _ hp0] exI [of _ p0] exI [of _ "Some k"]) simp
  next
    case False
    have run: "update_keys env sh info (k # ks) old new pos = update_keys env ?sh ?i ks old new pos" using R(1) False by simp
    have pre: "upd_rec env ?sh B pos old new (insert k D)" "distinct ks" "set ks \<subseteq> {..<length (hs_keydef ?sh)} - insert k D" "pos \<notin> B"
      "table_size (hs_blength ?sh) (hs_records ?sh)" "\<forall>kd \<in> set (hs_keydef ?sh). rec_fits kd old \<and> rec_fits kd new"
      using Cons.prems R(3) fits same_keyD(3) [OF R(2)] k by (auto dest!: set_update_subset_insert [THEN subsetD])
    obtain K' l' hp p failed where IH: "update_keys env ?sh ?i ks old new pos =
        Some (?sh\<lparr>hs_keydef := K', hs_index_length := l'\<rparr>,
          (let i = ?i\<lparr>hi_current_hash_ptr := hp, hi_current_ptr := p\<rparr>
           in if failed = None then i else i\<lparr>hi_errno := HA_ERR_FOUND_DUPP_KEY\<rparr>), failed)"
      "same_keys (hs_keydef ?sh) K'"
      "hi_lastinx ?i \<notin> int ` set ks \<longrightarrow> hp = hi_current_hash_ptr ?i \<and> p = hi_current_ptr ?i"
      "case failed of
         None \<Rightarrow> upd_rec env (?sh\<lparr>hs_keydef := K'\<rparr>) B pos old new (insert k D \<union> set ks) \<and>
           (\<forall>k \<in> set ks. key_changes env ?sh k old new \<longrightarrow> \<not> dup_at env ?sh B new k)
       | Some k' \<Rightarrow> \<exists>us vs. ks = us @ k' # vs \<and> upd_rec env (?sh\<lparr>hs_keydef := K'\<rparr>) B pos old new (insert k D \<union> set us \<union> {k'}) \<and>
           key_changes env ?sh k' old new \<and> dup_at env ?sh B new k' \<and>
           (\<forall>k \<in> set us. key_changes env ?sh k old new \<longrightarrow> \<not> dup_at env ?sh B new k)"
      using Cons.IH [OF pre, of ?i] by blast
    have same: "dup_at env ?sh B new j = dup_at env sh B new j" "key_changes env ?sh j old new = key_changes env sh j old new"
      if "j \<in> set ks" for j
      using same_keys_dup [OF sk, of j] key_changes_same [OF sk, of j] that Cons.prems(3) by auto
    have "case failed of
         None \<Rightarrow> upd_rec env (sh\<lparr>hs_keydef := K'\<rparr>) B pos old new (D \<union> set (k # ks)) \<and>
           (\<forall>k \<in> set (k # ks). key_changes env sh k old new \<longrightarrow> \<not> dup_at env sh B new k)
       | Some k' \<Rightarrow> \<exists>us vs. k # ks = us @ k' # vs \<and> upd_rec env (sh\<lparr>hs_keydef := K'\<rparr>) B pos old new (D \<union> set us \<union> {k'}) \<and>
           key_changes env sh k' old new \<and> dup_at env sh B new k' \<and>
           (\<forall>k \<in> set us. key_changes env sh k old new \<longrightarrow> \<not> dup_at env sh B new k)"
    proof (cases failed)
      case None
      with IH(4) False same show ?thesis by simp
    next
      case (Some k')
      with IH(4) obtain us vs where U: "ks = us @ k' # vs" "upd_rec env (?sh\<lparr>hs_keydef := K'\<rparr>) B pos old new (insert k D \<union> set us \<union> {k'})"
        "key_changes env ?sh k' old new" "dup_at env ?sh B new k'"
        "\<forall>k \<in> set us. key_changes env ?sh k old new \<longrightarrow> \<not> dup_at env ?sh B new k" by auto
      have "key_changes env sh k' old new" "dup_at env sh B new k'"
        "\<forall>k \<in> set us. key_changes env sh k old new \<longrightarrow> \<not> dup_at env sh B new k" using U(1,3-5) same by simp_all
      with Some U(1,2) False show ?thesis
        by (simp only: option.case) (intro exI [of _ "k # us"] exI [of _ vs], simp)
    qed
    moreover have "hi_lastinx info \<notin> int ` set (k # ks) \<longrightarrow> hp = hi_current_hash_ptr info \<and> p = hi_current_ptr info"
      using IH(3) R(4) by auto
    ultimately show ?thesis using run IH(1) same_keys_trans [OF sk] IH(2)
      by (intro exI [of _ K'] exI [of _ l'] exI [of _ hp] exI [of _ p] exI [of _ failed]) simp
  qed
qed

lemma undo_update_correct:
  assumes "upd_rec env sh B pos old new D" "distinct ks" "set ks \<subseteq> {..<length (hs_keydef sh)} \<inter> D" "pos \<notin> B"
    "table_size (hs_blength sh) (hs_records sh)" "\<forall>kd \<in> set (hs_keydef sh). rec_fits kd old \<and> rec_fits kd new"
    "\<forall>k < length (hs_keydef sh). \<not> dup_at env sh B old k"
  shows "\<exists>K l. undo_update env sh info ks old new pos = Some (sh\<lparr>hs_keydef := K, hs_index_length := l\<rparr>, info) \<and>
      same_keys (hs_keydef sh) K \<and> upd_rec env (sh\<lparr>hs_keydef := K\<rparr>) B pos old new (D - set ks)"
  using assms
proof (induction ks arbitrary: sh D)
  case Nil
  then show ?case by (intro exI [of _ "hs_keydef sh"] exI [of _ "hs_index_length sh"]) simp
next
  case (Cons k ks)
  let ?so = "env_sort_order env" and ?K = "hs_keydef sh" and ?ch = "key_changes env sh k old new"
  have k: "k < length ?K" "k \<in> D" "k \<notin> set ks" using Cons.prems(2,3) by auto
  have fits: "rec_fits (?K ! k) old" "rec_fits (?K ! k) new" using Cons.prems(6) k(1) by simp_all
  have nd: "\<not> dup_at env sh B old k" using Cons.prems(7) k(1) by blast
  obtain kd l where R: "(if ?ch then replace_key env sh info k new old pos False else Some (sh, info, False)) =
      Some (sh\<lparr>hs_keydef := ?K[k := kd], hs_index_length := l\<rparr>, info, False)"
      "same_key (?K ! k) kd" "upd_rec env (sh\<lparr>hs_keydef := ?K[k := kd]\<rparr>) B pos old new (D - {k})"
  proof (cases ?ch)
    case True
    have "index_wf ?so ((rec_at sh)(pos := new)) (next_size (hs_blength sh) (hs_records sh)) (hs_records sh + 1) (insert pos B) (?K ! k)"
      using spec [OF Cons.prems(1) [unfolded upd_rec_def], of k] k by simp
    from replace_key_correct [OF k(1) Cons.prems(4,5) this fits(1), of info False] obtain kd l where
      r: "replace_key env sh info k new old pos False = Some (sh\<lparr>hs_keydef := ?K[k := kd], hs_index_length := l\<rparr>, info, False)"
      "same_key (?K ! k) kd"
      "index_wf ?so ((rec_at sh)(pos := old)) (next_size (hs_blength sh) (hs_records sh)) (hs_records sh + 1) (insert pos B) kd"
      using nd by (auto simp: Let_def)
    have "upd_rec env (sh\<lparr>hs_keydef := ?K[k := kd]\<rparr>) B pos old new (D - {k})"
      using upd_rec_update [OF Cons.prems(1), of False kd k] r(3) by simp
    with r True show ?thesis by (intro that [of l kd]) simp_all
  next
    case False
    have "upd_rec env (sh\<lparr>hs_keydef := ?K[k := ?K ! k]\<rparr>) B pos old new (D - {k})"
      using upd_rec_same_image(2) [OF Cons.prems(1) k(1) False fits] by simp
    with False show ?thesis by (intro that [of "hs_index_length sh" "?K ! k"]) simp_all
  qed
  let ?sh = "sh\<lparr>hs_keydef := ?K[k := kd], hs_index_length := l\<rparr>"
  have sk: "same_keys ?K (?K[k := kd])" by (rule same_keys_update [OF k(1) R(2)])
  have run: "undo_update env sh info (k # ks) old new pos = undo_update env ?sh info ks old new pos" using R(1) by simp
  have pre: "upd_rec env ?sh B pos old new (D - {k})" "distinct ks" "set ks \<subseteq> {..<length (hs_keydef ?sh)} \<inter> (D - {k})" "pos \<notin> B"
      "table_size (hs_blength ?sh) (hs_records ?sh)" "\<forall>kd \<in> set (hs_keydef ?sh). rec_fits kd old \<and> rec_fits kd new"
    using Cons.prems R(3) fits same_keyD(3) [OF R(2)] k by (auto dest!: set_update_subset_insert [THEN subsetD])
  have "\<forall>k < length (hs_keydef ?sh). \<not> dup_at env ?sh B old k"
    using Cons.prems(7) same_keys_dup [OF sk] by simp
  then obtain K' l' where "undo_update env ?sh info ks old new pos = Some (?sh\<lparr>hs_keydef := K', hs_index_length := l'\<rparr>, info)"
      "same_keys (hs_keydef ?sh) K'" "upd_rec env (?sh\<lparr>hs_keydef := K'\<rparr>) B pos old new (D - {k} - set ks)"
    using Cons.IH [OF pre] by blast
  with run same_keys_trans [OF sk] show ?case
    by (intro exI [of _ K'] exI [of _ l']) (simp add: Diff_insert2 [of D k "set ks"])
qed

text \<open>
  The cursor stays at the record only if the index it was read with is not changed: \<open>_hp_delete_key\<close>
  moves it to the record before, and nothing moves it back.
\<close>

lemma heap_update_correct:
  assumes wf: "share_wf env sh" and act: "test_active info" "hi_current_ptr info = Some pos" and row: "table_rows sh pos = Some old"
    and len: "length new = hs_reclength sh"
  shows "\<exists>sh' info' ret. heap_update env sh info old new = Some (sh', info', ret) \<and> share_wf env sh' \<and> same_defs sh sh' \<and>
    test_active info' \<and> (hi_lastinx info \<notin> int ` {..<length (hs_keydef sh)} \<longrightarrow> hi_current_ptr info' = Some pos) \<and>
    (if ret = 0
     then table_rows sh' = (table_rows sh)(pos \<mapsto> new) \<and> (\<forall>k < length (hs_keydef sh). \<not> dup_at env sh (active sh - {pos}) new k)
     else ret = HA_ERR_FOUND_DUPP_KEY \<and> table_rows sh' = table_rows sh \<and> (\<exists>k < length (hs_keydef sh). hi_errkey info' = int k \<and>
       dup_at env sh (active sh - {pos}) new k \<and> (\<forall>j < k. \<not> dup_at env sh (active sh - {pos}) new j)))"
proof -
  obtain ds where inv: "share_inv env sh (active sh) ds" using wf by (auto simp: share_wf_def)
  let ?A = "active sh" and ?so = "env_sort_order env" and ?ks = "[0..<length (hs_keydef sh)]"
  have pos: "pos \<in> ?A" "rec_at sh pos = old" using row by (auto simp: table_rows_def split: if_splits)
  let ?B = "?A - {pos}"
  have AB: "insert pos ?B = ?A" using pos(1) by auto
  note S = share_with_cursor [OF inv pos]
  let ?n = "hs_records sh - 1" and ?N = "hs_records sh + hs_deleted sh"
  have n1: "?n + 1 = hs_records sh" using S(2) by simp
  define shd where "shd = (count_down sh)\<lparr>hs_changed := True\<rparr>"
  have fd: "hs_keydef shd = hs_keydef sh" "hs_records shd = ?n" "hs_blength shd = prev_size (hs_blength sh) ?n"
    "rec_at shd = rec_at sh" "hs_block shd = hs_block sh" "hs_deleted shd = hs_deleted sh" "hs_reclength shd = hs_reclength sh"
    "hs_max_records shd = hs_max_records sh" "data_ok env shd n A' es = data_ok env sh n A' es" "cell_at shd = cell_at sh" for n A' es
    by (simp_all add: shd_def)
  have nx: "next_size (prev_size (hs_blength sh) ?n) ?n = hs_blength sh" using S(4) by simp
  obtain c where c: "cell_at sh pos = Some c"
    using used_cell_exists [OF share_invD(1) [OF inv], of pos] pos(1) share_invD(2) [OF inv] by blast
  have rt: "hp_rectest sh info old = Some (info, 0)"
    using pos(2) act(2) c by (auto simp: hp_rectest_def rec_at_def)
  have lenold: "length old = hs_reclength sh"
  proof -
    obtain c' where c': "cell_at sh pos = Some c'" "length c' = recbuffer (hs_block sh)"
      using used_cell_exists [OF share_invD(1) [OF inv], of pos] pos(1) share_invD(2) [OF inv] by blast
    then show ?thesis using pos(2) sizes_okD(4) [OF data_okD(1) [OF share_invD(1) [OF inv]]] by (auto simp: rec_at_def)
  qed
  have fits: "\<forall>kd \<in> set (hs_keydef sh). rec_fits kd old \<and> rec_fits kd new"
    using share_invD(8) [OF inv] len lenold by (simp flip: key_fits_rec)
  have same: "(rec_at sh)(pos := old) = rec_at sh" using pos(2) by auto
  have pre: "upd_rec env shd ?B pos old new {}" "distinct ?ks" "set ?ks \<subseteq> {..<length (hs_keydef shd)} - {}" "pos \<notin> ?B"
    "table_size (hs_blength shd) (hs_records shd)" "\<forall>kd \<in> set (hs_keydef shd). rec_fits kd old \<and> rec_fits kd new"
    using S(3) fits share_invD(6) [OF inv nth_mem] same AB nx n1 by (auto simp: fd upd_rec_def)
  have undup: "\<not> dup_at env sh ?B old k" if "k < length (hs_keydef sh)" for k
    using unique_keys_insert [OF unique_keys_mono [OF share_invD(7) [OF inv nth_mem [OF that]], of ?B] pre(4), of old]
      share_invD(7) [OF inv nth_mem [OF that]] same AB by auto
  have nochange: "\<not> dup_at env sh ?B new k" if "k < length (hs_keydef sh)" "\<not> key_changes env shd k old new" for k
  proof -
    have "key_image ?so (hs_keydef sh ! k) old = key_image ?so (hs_keydef sh ! k) new"
      using that fits by (simp add: key_changes_def fd hp_rec_key_cmp_image)
    with undup [OF that(1)] show ?thesis by (simp add: dup_key_def)
  qed
  obtain K l hp p failed where u: "update_keys env shd info ?ks old new pos =
        Some (shd\<lparr>hs_keydef := K, hs_index_length := l\<rparr>,
          (let i = info\<lparr>hi_current_hash_ptr := hp, hi_current_ptr := p\<rparr>
           in if failed = None then i else i\<lparr>hi_errno := HA_ERR_FOUND_DUPP_KEY\<rparr>), failed)"
      "same_keys (hs_keydef shd) K" "hi_lastinx info \<notin> int ` set ?ks \<longrightarrow> hp = hi_current_hash_ptr info \<and> p = hi_current_ptr info"
      "case failed of
         None \<Rightarrow> upd_rec env (shd\<lparr>hs_keydef := K\<rparr>) ?B pos old new ({} \<union> set ?ks) \<and>
           (\<forall>k \<in> set ?ks. key_changes env shd k old new \<longrightarrow> \<not> dup_at env shd ?B new k)
       | Some k \<Rightarrow> \<exists>us vs. ?ks = us @ k # vs \<and> upd_rec env (shd\<lparr>hs_keydef := K\<rparr>) ?B pos old new ({} \<union> set us \<union> {k}) \<and>
           key_changes env shd k old new \<and> dup_at env shd ?B new k \<and>
           (\<forall>k \<in> set us. key_changes env shd k old new \<longrightarrow> \<not> dup_at env shd ?B new k)"
    using update_keys_correct [OF pre, of info] by blast
  let ?info = "info\<lparr>hi_current_hash_ptr := hp, hi_current_ptr := p\<rparr>"
  have ptr: "hi_lastinx info \<notin> int ` {..<length (hs_keydef sh)} \<longrightarrow> p = Some pos"
    using u(3) act(2) by (simp add: atLeast0LessThan)
  define sh1 where "sh1 = shd\<lparr>hs_keydef := K, hs_index_length := l\<rparr>"
  have f1: "hs_keydef sh1 = K" "hs_records sh1 = ?n" "hs_blength sh1 = prev_size (hs_blength sh) ?n"
    "rec_at sh1 = rec_at sh" "hs_block sh1 = hs_block sh" "hs_deleted sh1 = hs_deleted sh" "hs_reclength sh1 = hs_reclength sh"
    "hs_max_records sh1 = hs_max_records sh" "data_ok env sh1 n A' es = data_ok env sh n A' es" "cell_at sh1 = cell_at sh" for n A' es
    by (simp_all add: sh1_def fd)
  have sk: "same_keys (hs_keydef sh) K" using u(2) by (simp add: fd)
  text \<open>A table with these indexes and the rows of \<open>A\<close>, the one at \<open>pos\<close> being \<open>r\<close>, is right.\<close>
  have fin: "share_inv env s ?A ds"
    if s: "data_ok env s ?N ?A ds" "hs_records s = hs_records sh" "hs_deleted s = hs_deleted sh" "hs_block s = hs_block sh"
      "hs_blength s = hs_blength sh" "hs_reclength s = hs_reclength sh" "same_keys (hs_keydef sh) (hs_keydef s)"
      "rec_at s = (rec_at sh)(pos := r)" "\<And>k. k < length (hs_keydef sh) \<Longrightarrow> \<not> dup_at env sh ?B r k"
      "\<And>k. k < length (hs_keydef s) \<Longrightarrow> index_wf ?so ((rec_at sh)(pos := r)) (hs_blength sh) (hs_records sh) ?A (hs_keydef s ! k)" for s r
  proof (rule share_invI)
    show "data_ok env s (hs_records s + hs_deleted s) ?A ds" using s(1-3) by simp
    show "?A \<union> set ds = used_cells (hs_block s) (hs_records s + hs_deleted s)" using share_invD(2) [OF inv] s(2-4) by simp
    show "table_size (hs_blength s) (hs_records s)" using share_invD(3) [OF inv] s(2,5) by simp
    fix k assume k: "k < length (hs_keydef s)"
    then have k': "k < length (hs_keydef sh)" using list_all2_lengthD [OF s(7)] by simp
    show "index_wf ?so (rec_at s) (hs_blength s) (hs_records s) ?A (hs_keydef s ! k)" using s(10) [OF k] s(2,5,8) by simp
    have "unique_keys ?so ((rec_at sh)(pos := r)) (insert pos ?B) (hs_keydef sh ! k)"
      using unique_keys_insert [OF unique_keys_mono [OF share_invD(7) [OF inv nth_mem [OF k']], of ?B] pre(4), of r] s(9) [OF k'] by blast
    then show "unique_keys ?so (rec_at s) ?A (hs_keydef s ! k)"
      using same_key_unique [OF same_keys_nth [OF s(7) k']] s(8) AB by simp
    show "key_fits (hs_reclength s) (hs_keydef s ! k)"
      using key_fits_same [OF same_keys_nth [OF s(7) k']] share_invD(8) [OF inv] k' s(6) by simp
  qed
  have dupd: "dup_at env shd ?B new k = dup_at env sh ?B new k" for k by (simp add: fd)
  show ?thesis
  proof (cases failed)
    case None
    with u(4) have U: "upd_rec env sh1 ?B pos old new {..<length (hs_keydef sh)}"
      "\<And>k. k < length (hs_keydef sh) \<Longrightarrow> key_changes env shd k old new \<longrightarrow> \<not> dup_at env sh ?B new k"
      by (simp_all add: sh1_def dupd atLeast0LessThan)
    have nodup: "\<not> dup_at env sh ?B new k" if "k < length (hs_keydef sh)" for k using U(2) nochange that by blast
    have d1: "data_ok env sh1 (?N - 1 + 1) ?A ds" using share_invD(1) [OF inv] S(2) by (simp add: f1)
    have pu: "pos \<in> used_cells (hs_block sh1) (?N - 1 + 1)" "pos \<notin> set ds"
      using pos(1) share_invD(2) [OF inv] data_okD(5) [OF share_invD(1) [OF inv]] S(2) by (auto simp: f1)
    obtain c d' where C: "cell_at sh1 pos = Some c" "put_cell sh1 pos (memcpy c new (hs_reclength sh1)) = Some (sh1\<lparr>hs_data := d'\<rparr>)"
      "data_ok env (sh1\<lparr>hs_data := d'\<rparr>) (?N - 1 + 1) (insert pos ?A) ds" "rec_at (sh1\<lparr>hs_data := d'\<rparr>) = (rec_at sh1)(pos := new)"
      using write_row [OF d1 pu, of new False] len pos(1) by (auto simp: f1)
    let ?sh2 = "count_up (sh1\<lparr>hs_data := d'\<rparr>)"
    have run: "heap_update env sh info old new = Some (?sh2, ?info, 0)"
      using act rt u(1) None C(1,2) unfolding shd_def sh1_def by (simp add: heap_update_def Let_def)
    have f2: "hs_keydef ?sh2 = K" "hs_records ?sh2 = hs_records sh" "hs_blength ?sh2 = hs_blength sh" "hs_block ?sh2 = hs_block sh"
      "hs_deleted ?sh2 = hs_deleted sh" "hs_reclength ?sh2 = hs_reclength sh" "hs_max_records ?sh2 = hs_max_records sh"
      "rec_at ?sh2 = (rec_at sh)(pos := new)" using n1 nx C(4) by (simp_all add: f1)
    have inv2: "share_inv env ?sh2 ?A ds"
    proof (rule fin [of _ new])
      show "data_ok env ?sh2 ?N ?A ds" using C(3) S(2) pos(1) by (simp add: insert_absorb)
      show "\<And>k. k < length (hs_keydef sh) \<Longrightarrow> \<not> dup_at env sh ?B new k" by (rule nodup)
      fix k assume k: "k < length (hs_keydef ?sh2)"
      then have k': "k < length K" "k < length (hs_keydef sh)" using list_all2_lengthD [OF sk] by (simp_all add: f1)
      then show "index_wf ?so ((rec_at sh)(pos := new)) (hs_blength sh) (hs_records sh) ?A (hs_keydef ?sh2 ! k)"
        using spec [OF U(1) [unfolded upd_rec_def], of k] AB nx n1 by (simp add: f1)
    qed (use sk f2 in simp_all)
    have "table_rows ?sh2 = (table_rows sh)(pos \<mapsto> new)"
    proof
      fix a show "table_rows ?sh2 a = ((table_rows sh)(pos \<mapsto> new)) a"
        using pos(1) C(4) by (auto simp: table_rows_inv [OF inv2] table_rows_inv [OF inv] f1)
    qed
    moreover have "same_defs sh ?sh2" using sk by (simp add: same_defs_def f1)
    moreover have "test_active ?info" using act(1) by (simp add: test_active_def)
    ultimately show ?thesis using run share_inv_wf [OF inv2] nodup ptr
      by (intro exI [of _ ?sh2] exI [of _ ?info] exI [of _ 0]) simp
  next
    case (Some key)
    with u(4) obtain us vs where U: "?ks = us @ key # vs" "upd_rec env sh1 ?B pos old new (set us \<union> {key})"
      "dup_at env sh ?B new key" "\<forall>k \<in> set us. key_changes env shd k old new \<longrightarrow> \<not> dup_at env sh ?B new k"
      by (auto simp: sh1_def dupd simp del: split_paired_Ex)
    have us: "us = [0..<key]" "key < length (hs_keydef sh)" using upt_split [OF U(1)] by simp_all
    let ?i = "?info\<lparr>hi_errno := HA_ERR_FOUND_DUPP_KEY, hi_errkey := int key\<rparr>" and ?rks = "rev [0..<key + 1]"
    have ks: "distinct ?rks" "set ?rks \<subseteq> {..<length (hs_keydef sh1)} \<inter> (set us \<union> {key})" "table_size (hs_blength sh1) (hs_records sh1)"
      "\<forall>kd \<in> set (hs_keydef sh1). rec_fits kd old \<and> rec_fits kd new" "\<forall>k < length (hs_keydef sh1). \<not> dup_at env sh1 ?B old k"
    proof -
      show "distinct ?rks" "set ?rks \<subseteq> {..<length (hs_keydef sh1)} \<inter> (set us \<union> {key})"
        using us list_all2_lengthD [OF sk] by (auto simp: f1)
      show "table_size (hs_blength sh1) (hs_records sh1)" using S(3) by (simp add: f1)
      show "\<forall>kd \<in> set (hs_keydef sh1). rec_fits kd old \<and> rec_fits kd new"
      proof
        fix kd assume "kd \<in> set (hs_keydef sh1)"
        then obtain j where j: "j < length K" "kd = K ! j" by (auto simp: f1 in_set_conv_nth)
        then have "j < length (hs_keydef sh)" using list_all2_lengthD [OF sk] by simp
        with same_keyD(3) [OF same_keys_nth [OF sk this]] fits j show "rec_fits kd old \<and> rec_fits kd new" by simp
      qed
      show "\<forall>k < length (hs_keydef sh1). \<not> dup_at env sh1 ?B old k"
        using undup same_keys_dup [OF sk] list_all2_lengthD [OF sk] by (simp add: f1)
    qed
    obtain K' l' where v: "undo_update env sh1 ?i ?rks old new pos = Some (sh1\<lparr>hs_keydef := K', hs_index_length := l'\<rparr>, ?i)"
      "same_keys (hs_keydef sh1) K'" "upd_rec env (sh1\<lparr>hs_keydef := K'\<rparr>) ?B pos old new (set us \<union> {key} - set ?rks)"
      using undo_update_correct [OF U(2) ks(1,2) pre(4) ks(3-5), of ?i] by blast
    have D0: "set us \<union> {key} - set ?rks = {}" by (auto simp: us)
    let ?sh2 = "count_up (sh1\<lparr>hs_keydef := K', hs_index_length := l'\<rparr>)"
    have sk': "same_keys (hs_keydef sh) K'" using same_keys_trans [OF sk] v(2) by (simp add: f1)
    have f2: "hs_keydef ?sh2 = K'" "hs_records ?sh2 = hs_records sh" "hs_blength ?sh2 = hs_blength sh" "hs_block ?sh2 = hs_block sh"
      "hs_deleted ?sh2 = hs_deleted sh" "hs_reclength ?sh2 = hs_reclength sh" "hs_max_records ?sh2 = hs_max_records sh"
      "rec_at ?sh2 = rec_at sh" using n1 nx by (simp_all add: f1)
    have run: "heap_update env sh info old new = Some (?sh2, ?i, HA_ERR_FOUND_DUPP_KEY)"
      using act rt u(1) Some v(1) unfolding shd_def sh1_def
      by (simp add: heap_update_def Let_def del: upt_Suc undo_update.simps)
    have inv2: "share_inv env ?sh2 ?A ds"
    proof (rule fin [of _ old])
      show "data_ok env ?sh2 ?N ?A ds" using share_invD(1) [OF inv] by (simp add: f1)
      show "\<And>k. k < length (hs_keydef sh) \<Longrightarrow> \<not> dup_at env sh ?B old k" by (rule undup)
      show "rec_at ?sh2 = (rec_at sh)(pos := old)" unfolding same by (rule f2(8))
      fix k assume k: "k < length (hs_keydef ?sh2)"
      then have k': "k < length K'" by (simp add: f2)
      then show "index_wf ?so ((rec_at sh)(pos := old)) (hs_blength sh) (hs_records sh) ?A (hs_keydef ?sh2 ! k)"
        using spec [OF v(3) [unfolded D0 upd_rec_def], of k] AB nx n1 by (simp add: f1)
    qed (use sk' f2 in simp_all)
    have "table_rows ?sh2 = table_rows sh"
    proof
      fix a show "table_rows ?sh2 a = table_rows sh a"
        by (simp add: table_rows_inv [OF inv2] table_rows_inv [OF inv] f1)
    qed
    moreover have "same_defs sh ?sh2" using sk' by (simp add: same_defs_def f1)
    moreover have "test_active ?i" using act(1) by (simp add: test_active_def)
    moreover have "\<forall>j < key. \<not> dup_at env sh ?B new j"
    proof (intro allI impI)
      fix j assume "j < key"
      then have "j \<in> set us" "j < length (hs_keydef sh)" using us by simp_all
      with U(4) nochange show "\<not> dup_at env sh ?B new j" by blast
    qed
    moreover have "HA_ERR_FOUND_DUPP_KEY \<noteq> 0" by (simp add: ha_errors)
    ultimately show ?thesis using run share_inv_wf [OF inv2] U(3) us(2) ptr
      by (intro exI [of _ ?sh2] exI [of _ ?i] exI [of _ HA_ERR_FOUND_DUPP_KEY]) simp
  qed
qed

end
