(* ===== verification/HeapRead.thy ===== *)
theory HeapRead
  imports HeapSpec
begin

text \<open>
  Reading a heap table: \<open>_hp_search\<close> and \<open>_hp_search_next\<close> of heap/hp_hash.c, the functions
  that read by key (heap/hp_rkey.c, hp_rnext.c, hp_rprev.c, hp_rfirst.c, hp_rlast.c, hp_rsame.c),
  by position (hp_rrnd.c) and one after the other (hp_scan.c), and the check of the indexes
  (heap/_check.c), in which the statistics that are only printed are left out.
\<close>

subsection \<open>Searching an index\<close>

text \<open>
  The loop of \<open>_hp_search\<close>. \<open>matches\<close> compares the key of a record, \<open>home\<close> is the first cell of
  the bucket of a record, \<open>prev\<close> the cell before with the key, with the record it points to. The
  result is either what the function returns from inside the loop, that is the new
  \<open>current_hash_ptr\<close> and \<open>current_ptr\<close> and whether \<open>my_errno\<close> is set, or how the loop ends.
\<close>

type_synonym hash_cell = "nat \<times> haddr"

partial_function (option) search_loop ::
  "(haddr \<Rightarrow> bool) \<Rightarrow> (haddr \<Rightarrow> nat) \<Rightarrow> haddr hlink list \<Rightarrow> haddr option \<Rightarrow> nat \<Rightarrow> hash_cell option \<Rightarrow> bool \<Rightarrow> nat \<Rightarrow>
    ((hash_cell option \<times> bool) + (nat \<times> hash_cell option)) option" where
  "search_loop matches home e cur nextflag prev flag pos =
     do {
       l \<leftarrow> link_at e pos;
       let found = matches (hl_data l);
       let at_cur = (Some (hl_data l) = cur);
       if found \<and> nextflag = 0 then Some (Inl (Some (pos, hl_data l), False))
       else if found \<and> nextflag = 2 \<and> at_cur then Some (Inl (prev, True))
       else if found \<and> nextflag = 3 \<and> at_cur then Some (Inl (Some (pos, hl_data l), False))
       else do {
         let nextflag = (if found \<and> nextflag = 1 \<and> at_cur then 0 else nextflag);
         let prev = (if found \<and> nextflag = 2 then Some (pos, hl_data l) else prev);
         if flag \<and> home (hl_data l) \<noteq> pos then Some (Inr (nextflag, prev))
         else case hl_next l of
           None \<Rightarrow> Some (Inr (nextflag, prev))
         | Some p \<Rightarrow> search_loop matches home e cur nextflag prev False p
       }
     }"

definition set_cursor :: "hash_cell option \<Rightarrow> HP_INFO \<Rightarrow> HP_INFO" where
  "set_cursor c info = info\<lparr>hi_current_hash_ptr := map_option fst c, hi_current_ptr := map_option snd c\<rparr>"

text \<open>\<open>next_flag\<close> is 0 to search, 1 for the next record, 2 for the previous and 3 for the same one.\<close>

definition hp_search :: "hp_env \<Rightarrow> HP_SHARE \<Rightarrow> HP_INFO \<Rightarrow> HP_KEYDEF \<Rightarrow> bytes \<Rightarrow> nat \<Rightarrow> (HP_INFO \<times> haddr option) option" where
  "hp_search env sh info kd key nextflag =
     do {
       let so = env_sort_order env;
       r \<leftarrow> (if hs_records sh \<noteq> 0
         then search_loop (\<lambda>p. \<not> hp_key_cmp so kd (rec_at sh p) key)
           (\<lambda>p. hash_mask (unat (hp_rec_hashnr so kd (rec_at sh p))) (hs_blength sh) (hs_records sh))
           (kd_cells kd) (hi_current_ptr info) nextflag None True
           (hash_mask (unat (hp_hashnr so kd key)) (hs_blength sh) (hs_records sh))
         else Some (Inr (nextflag, None)));
       let info = (case r of
           Inl (c, nf) \<Rightarrow> set_cursor c (if nf then info\<lparr>hi_errno := HA_ERR_KEY_NOT_FOUND\<rparr> else info)
         | Inr (flag, prev) \<Rightarrow>
             (let info = info\<lparr>hi_errno := HA_ERR_KEY_NOT_FOUND\<rparr>
              in if flag = 2 \<and> hi_current_ptr info = None then set_cursor prev info
                 else set_cursor None (if nextflag \<noteq> 0 \<and> flag \<noteq> 0 then info\<lparr>hi_errno := HA_ERR_RECORD_CHANGED\<rparr> else info)));
       Some (info, hi_current_ptr info)
     }"

partial_function (option) search_next_loop ::
  "(haddr \<Rightarrow> bool) \<Rightarrow> haddr hlink list \<Rightarrow> nat \<Rightarrow> hash_cell option option" where
  "search_next_loop matches e pos =
     do {
       l \<leftarrow> link_at e pos;
       case hl_next l of
         None \<Rightarrow> Some None
       | Some p \<Rightarrow> do {
           l \<leftarrow> link_at e p;
           if matches (hl_data l) then Some (Some (p, hl_data l)) else search_next_loop matches e p
         }
     }"

definition hp_search_next :: "hp_env \<Rightarrow> HP_SHARE \<Rightarrow> HP_INFO \<Rightarrow> HP_KEYDEF \<Rightarrow> bytes \<Rightarrow> nat \<Rightarrow> (HP_INFO \<times> haddr option) option" where
  "hp_search_next env sh info kd key pos =
     do {
       r \<leftarrow> search_next_loop (\<lambda>p. \<not> hp_key_cmp (env_sort_order env) kd (rec_at sh p) key) (kd_cells kd) pos;
       let info = set_cursor r (if r = None then info\<lparr>hi_errno := HA_ERR_KEY_NOT_FOUND\<rparr> else info);
       Some (info, hi_current_ptr info)
     }"

subsection \<open>Reading by key\<close>

text \<open>
  The functions return the record read, or the buffer given where none is read, with the
  return value.
\<close>

definition read_rec :: "HP_SHARE \<Rightarrow> bytes \<Rightarrow> haddr \<Rightarrow> bytes option" where
  "read_rec sh buf a = do { c \<leftarrow> cell_at sh a; Some (memcpy buf c (hs_reclength sh)) }"

definition key_at :: "HP_SHARE \<Rightarrow> int \<Rightarrow> HP_KEYDEF option" where
  "key_at sh inx = (if 0 \<le> inx \<and> nat inx < length (hs_keydef sh) then Some (hs_keydef sh ! nat inx) else None)"

definition heap_rkey :: "hp_env \<Rightarrow> HP_SHARE \<Rightarrow> HP_INFO \<Rightarrow> bytes \<Rightarrow> int \<Rightarrow> bytes \<Rightarrow> (HP_INFO \<times> bytes \<times> int) option" where
  "heap_rkey env sh info buf inx key =
     (case key_at sh inx of
        None \<Rightarrow> Some (info\<lparr>hi_errno := HA_ERR_WRONG_INDEX\<rparr>, buf, HA_ERR_WRONG_INDEX)
      | Some kd \<Rightarrow>
          do {
            let info = info\<lparr>hi_lastinx := inx, hi_current_record := NOT 0\<rparr>;
            (info, pos) \<leftarrow> hp_search env sh info kd key 0;
            case pos of
              None \<Rightarrow> Some (info\<lparr>hi_update := 0\<rparr>, buf, hi_errno info)
            | Some p \<Rightarrow> do {
                buf \<leftarrow> read_rec sh buf p;
                let info = info\<lparr>hi_update := HA_STATE_AKTIV\<rparr>;
                Some (if nosame kd then info else info\<lparr>hi_lastkey := memcpy (hi_lastkey info) key (kd_length kd)\<rparr>, buf, 0)
              }
          })"

definition heap_find :: "hp_env \<Rightarrow> HP_SHARE \<Rightarrow> HP_INFO \<Rightarrow> int \<Rightarrow> bytes \<Rightarrow> (HP_INFO \<times> haddr option) option" where
  "heap_find env sh info inx key = do { kd \<leftarrow> key_at sh inx; hp_search env sh info kd key 0 }"

text \<open>What \<open>heap_rnext\<close> and \<open>heap_rprev\<close> do after the search.\<close>

definition read_found :: "HP_SHARE \<Rightarrow> HP_INFO \<Rightarrow> bytes \<Rightarrow> uint \<Rightarrow> haddr option \<Rightarrow> (HP_INFO \<times> bytes \<times> int) option" where
  "read_found sh info buf state pos =
     (case pos of
        None \<Rightarrow>
          (let info = info\<lparr>hi_update := state\<rparr>;
               info = (if hi_errno info = HA_ERR_KEY_NOT_FOUND then info\<lparr>hi_errno := HA_ERR_END_OF_FILE\<rparr> else info)
           in Some (info, buf, hi_errno info))
      | Some p \<Rightarrow> do {
          buf \<leftarrow> read_rec sh buf p;
          Some (info\<lparr>hi_update := HA_STATE_AKTIV OR state\<rparr>, buf, 0)
        })"

definition heap_rnext :: "hp_env \<Rightarrow> HP_SHARE \<Rightarrow> HP_INFO \<Rightarrow> bytes \<Rightarrow> (HP_INFO \<times> bytes \<times> int) option" where
  "heap_rnext env sh info buf =
     (if hi_lastinx info < 0 then Some (info\<lparr>hi_errno := HA_ERR_WRONG_INDEX\<rparr>, buf, HA_ERR_WRONG_INDEX)
      else do {
        kd \<leftarrow> key_at sh (hi_lastinx info);
        (info, pos) \<leftarrow>
          (case hi_current_hash_ptr info of
             Some h \<Rightarrow> hp_search_next env sh info kd (hi_lastkey info) h
           | None \<Rightarrow>
               if hi_current_ptr info = None \<and> hi_update info AND HA_STATE_NEXT_FOUND \<noteq> 0
               then Some (info\<lparr>hi_errno := HA_ERR_KEY_NOT_FOUND\<rparr>, None)
               else if hi_current_ptr info = None then hp_search env sh info kd (hi_lastkey info) 0
               else hp_search env sh info kd (hi_lastkey info) 1);
        read_found sh info buf HA_STATE_NEXT_FOUND pos
      })"

definition heap_rprev :: "hp_env \<Rightarrow> HP_SHARE \<Rightarrow> HP_INFO \<Rightarrow> bytes \<Rightarrow> (HP_INFO \<times> bytes \<times> int) option" where
  "heap_rprev env sh info buf =
     (if hi_lastinx info < 0 then Some (info\<lparr>hi_errno := HA_ERR_WRONG_INDEX\<rparr>, buf, HA_ERR_WRONG_INDEX)
      else do {
        kd \<leftarrow> key_at sh (hi_lastinx info);
        (info, pos) \<leftarrow>
          (if hi_current_ptr info \<noteq> None \<or> hi_update info AND HA_STATE_NEXT_FOUND \<noteq> 0
           then if hi_update info AND HA_STATE_DELETED \<noteq> 0 then hp_search env sh info kd (hi_lastkey info) 3
             else hp_search env sh info kd (hi_lastkey info) 2
           else Some (info\<lparr>hi_errno := HA_ERR_KEY_NOT_FOUND\<rparr>, None));
        read_found sh info buf HA_STATE_PREV_FOUND pos
      })"

definition heap_rfirst :: "hp_env \<Rightarrow> HP_SHARE \<Rightarrow> HP_INFO \<Rightarrow> bytes \<Rightarrow> (HP_INFO \<times> bytes \<times> int) option" where
  "heap_rfirst env sh info buf =
     heap_rnext env sh (info\<lparr>hi_current_record := 0, hi_current_hash_ptr := None, hi_update := HA_STATE_PREV_FOUND\<rparr>) buf"

definition heap_rlast :: "hp_env \<Rightarrow> HP_SHARE \<Rightarrow> HP_INFO \<Rightarrow> bytes \<Rightarrow> (HP_INFO \<times> bytes \<times> int) option" where
  "heap_rlast env sh info buf =
     heap_rprev env sh (info\<lparr>hi_current_ptr := None, hi_current_hash_ptr := None, hi_update := HA_STATE_NEXT_FOUND\<rparr>) buf"

definition heap_rsame :: "hp_env \<Rightarrow> HP_SHARE \<Rightarrow> HP_INFO \<Rightarrow> bytes \<Rightarrow> int \<Rightarrow> (HP_INFO \<times> bytes \<times> int) option" where
  "heap_rsame env sh info buf inx =
     (if \<not> test_active info then Some (info\<lparr>hi_errno := HA_ERR_NO_ACTIVE_RECORD\<rparr>, buf, - 1)
      else do {
        a \<leftarrow> hi_current_ptr info;
        c \<leftarrow> cell_at sh a;
        if \<not> in_use sh c then Some (info\<lparr>hi_update := 0, hi_errno := HA_ERR_RECORD_DELETED\<rparr>, buf, HA_ERR_RECORD_DELETED)
        else if inx < - 1 \<or> int (length (hs_keydef sh)) \<le> inx
        then Some (info\<lparr>hi_errno := HA_ERR_WRONG_INDEX\<rparr>, buf, HA_ERR_WRONG_INDEX)
        else do {
          (info, pos) \<leftarrow>
            (if inx \<noteq> - 1 then do {
               kd \<leftarrow> key_at sh inx;
               let key = hp_make_key kd buf;
               let info = info\<lparr>hi_lastinx := inx, hi_lastkey := memcpy (hi_lastkey info) key (length key)\<rparr>;
               hp_search env sh info kd (hi_lastkey info) 3
             } else Some (info, hi_current_ptr info));
          case pos of
            None \<Rightarrow> Some (info\<lparr>hi_update := 0\<rparr>, buf, hi_errno info)
          | Some p \<Rightarrow> do { buf \<leftarrow> read_rec sh buf p; Some (info, buf, 0) }
        }
      })"

subsection \<open>Reading by position\<close>

text \<open>The end of the functions that read the record at \<open>current_ptr\<close>.\<close>

definition read_current :: "HP_SHARE \<Rightarrow> HP_INFO \<Rightarrow> bytes \<Rightarrow> (HP_INFO \<times> bytes \<times> int) option" where
  "read_current sh info buf =
     do {
       a \<leftarrow> hi_current_ptr info;
       c \<leftarrow> cell_at sh a;
       if \<not> in_use sh c
       then Some (info\<lparr>hi_update := HA_STATE_PREV_FOUND OR HA_STATE_NEXT_FOUND, hi_errno := HA_ERR_RECORD_DELETED\<rparr>, buf, HA_ERR_RECORD_DELETED)
       else do {
         buf \<leftarrow> read_rec sh buf a;
         Some (info\<lparr>hi_update := HA_STATE_PREV_FOUND OR HA_STATE_NEXT_FOUND OR HA_STATE_AKTIV, hi_current_hash_ptr := None\<rparr>, buf, 0)
       }
     }"

definition heap_rrnd :: "HP_SHARE \<Rightarrow> HP_INFO \<Rightarrow> bytes \<Rightarrow> haddr option \<Rightarrow> (HP_INFO \<times> bytes \<times> int) option" where
  "heap_rrnd sh info buf pos =
     (let info = info\<lparr>hi_lastinx := - 1, hi_current_ptr := pos\<rparr>
      in if pos = None then Some (info\<lparr>hi_update := 0, hi_errno := HA_ERR_END_OF_FILE\<rparr>, buf, HA_ERR_END_OF_FILE)
         else read_current sh info buf)"

definition hp_find_record :: "HP_SHARE \<Rightarrow> HP_INFO \<Rightarrow> nat \<Rightarrow> HP_INFO option" where
  "hp_find_record sh info pos = do { a \<leftarrow> hp_find_block (hs_block sh) pos; Some (info\<lparr>hi_current_ptr := Some a\<rparr>) }"

text \<open>The address \<open>recbuffer\<close> bytes behind.\<close>

definition next_ptr :: "haddr option \<Rightarrow> haddr option" where
  "next_ptr a = map_option (\<lambda>(p, i). (p, i + 1)) a"

definition heap_rrnd_old :: "HP_SHARE \<Rightarrow> HP_INFO \<Rightarrow> bytes \<Rightarrow> ulong \<Rightarrow> (HP_INFO \<times> bytes \<times> int) option" where
  "heap_rrnd_old sh info buf pos =
     (let info = info\<lparr>hi_lastinx := - 1\<rparr>;
          step = (pos = - 1);
          pos = (if step then hi_current_record info + 1 else pos);
          info = info\<lparr>hi_current_record := pos\<rparr>;
          total = hs_records sh + hs_deleted sh
      in if step \<and> unat pos mod records_in_block (hs_block sh) \<noteq> 0 \<and> unat pos < total \<and> hi_update info AND HA_STATE_PREV_FOUND \<noteq> 0
         then read_current sh (info\<lparr>hi_current_ptr := next_ptr (hi_current_ptr info)\<rparr>) buf
         else if total \<le> unat pos then Some (info\<lparr>hi_update := 0, hi_errno := HA_ERR_END_OF_FILE\<rparr>, buf, HA_ERR_END_OF_FILE)
         else do { info \<leftarrow> hp_find_record sh info (unat pos); read_current sh info buf })"

subsection \<open>Scanning\<close>

definition heap_scan_init :: "HP_INFO \<Rightarrow> HP_INFO" where
  "heap_scan_init info = info\<lparr>hi_lastinx := - 1, hi_current_record := NOT 0, hi_update := 0, hi_next_block := 0\<rparr>"

definition heap_scan :: "HP_SHARE \<Rightarrow> HP_INFO \<Rightarrow> bytes \<Rightarrow> (HP_INFO \<times> bytes \<times> int) option" where
  "heap_scan sh info buf =
     (let pos = hi_current_record info + 1;
          info = info\<lparr>hi_current_record := pos\<rparr>;
          total = word_of_nat (hs_records sh + hs_deleted sh)
      in if pos < hi_next_block info then read_current sh (info\<lparr>hi_current_ptr := next_ptr (hi_current_ptr info)\<rparr>) buf
         else (let info = info\<lparr>hi_next_block := hi_next_block info + word_of_nat (records_in_block (hs_block sh))\<rparr>;
                   over = (total \<le> hi_next_block info);
                   info = (if over then info\<lparr>hi_next_block := total\<rparr> else info)
               in if over \<and> hi_next_block info \<le> pos
                  then Some (info\<lparr>hi_update := 0, hi_errno := HA_ERR_END_OF_FILE\<rparr>, buf, HA_ERR_END_OF_FILE)
                  else do { info \<leftarrow> hp_find_record sh info (unat pos); read_current sh info buf }))"

subsection \<open>Checking the indexes\<close>

partial_function (option) check_links :: "(haddr \<Rightarrow> nat) \<Rightarrow> haddr hlink list \<Rightarrow> nat \<Rightarrow> nat \<Rightarrow> nat option \<Rightarrow> nat \<Rightarrow> bool \<Rightarrow> (nat \<times> bool) option" where
  "check_links home e records i next found err =
     (case next of
        None \<Rightarrow> Some (found, err)
      | Some p \<Rightarrow>
          if found < records + 1 then do {
            l \<leftarrow> link_at e p;
            if home (hl_data l) \<noteq> i then check_links home e records i (hl_next l) found True
            else check_links home e records i (hl_next l) (found + 1) err
          } else Some (found, err))"

primrec check_buckets :: "(haddr \<Rightarrow> nat) \<Rightarrow> haddr hlink list \<Rightarrow> nat \<Rightarrow> nat list \<Rightarrow> nat \<times> bool \<Rightarrow> (nat \<times> bool) option" where
  "check_buckets home e records [] st = Some st"
| "check_buckets home e records (i # is) st =
     do {
       l \<leftarrow> link_at e i;
       st \<leftarrow> (if home (hl_data l) = i then check_links home e records i (hl_next l) (fst st + 1) (snd st) else Some st);
       check_buckets home e records is st
     }"

definition check_one_key :: "hp_env \<Rightarrow> HP_SHARE \<Rightarrow> HP_KEYDEF \<Rightarrow> bool option" where
  "check_one_key env sh kd =
     do {
       (found, err) \<leftarrow> check_buckets
         (\<lambda>p. hash_mask (unat (hp_rec_hashnr (env_sort_order env) kd (rec_at sh p))) (hs_blength sh) (hs_records sh))
         (kd_cells kd) (hs_records sh) [0..<hs_records sh] (0, False);
       Some (err \<or> found \<noteq> hs_records sh)
     }"

primrec check_keys :: "hp_env \<Rightarrow> HP_SHARE \<Rightarrow> HP_KEYDEF list \<Rightarrow> bool option" where
  "check_keys env sh [] = Some False"
| "check_keys env sh (kd # kds) = do { e \<leftarrow> check_one_key env sh kd; es \<leftarrow> check_keys env sh kds; Some (e \<or> es) }"

definition heap_check_heap :: "hp_env \<Rightarrow> HP_SHARE \<Rightarrow> bool option" where
  "heap_check_heap env sh = check_keys env sh (hs_keydef sh)"

end
