(* ===== verification/HeapReadSpec.thy ===== *)
theory HeapReadSpec
  imports HeapRead
begin

text \<open>
  Reading by key: the records with a key form a list, in the order of the chain of their bucket;
  \<open>_hp_search\<close> and \<open>_hp_search_next\<close> go to its first element, to the next and to the previous
  one. Scanning: the cells are read in the order of their positions. The check of the indexes
  accepts every table that satisfies the invariant.
\<close>

subsection \<open>The loops on a chain\<close>

abbreviation hits :: "(haddr \<Rightarrow> bool) \<Rightarrow> haddr hlink list \<Rightarrow> nat list \<Rightarrow> hash_cell list" where
  "hits m e js \<equiv> map (\<lambda>j. (j, dat e j)) (filter (\<lambda>j. m (dat e j)) js)"

definition first :: "'a list \<Rightarrow> 'a option" where
  "first xs = (case xs of [] \<Rightarrow> None | x # _ \<Rightarrow> Some x)"

definition final :: "'a option \<Rightarrow> 'a list \<Rightarrow> 'a option" where
  "final d xs = (if xs = [] then d else Some (last xs))"

lemma final_Cons: "final d (x # xs) = final (Some x) xs"
  by (simp add: final_def)

lemma first_drop: "first (drop i xs) = (if i < length xs then Some (xs ! i) else None)"
  by (cases "i < length xs") (simp_all add: first_def Cons_nth_drop_Suc [symmetric])

lemma final_take: "i < length xs \<Longrightarrow> final None (take i xs) = (if i = 0 then None else Some (xs ! (i - 1)))"
  by (cases xs) (simp_all add: final_def last_conv_nth)

lemma search_first:
  assumes "path e (Some p) (p # js) None" "flag \<longrightarrow> home (dat e p) = p"
  shows "search_loop m home e cur 0 prev flag p =
    Some (case hits m e (p # js) of [] \<Rightarrow> Inr (0, prev) | c # _ \<Rightarrow> Inl (Some c, False))"
  using assms
proof (induction js arbitrary: p flag)
  case Nil
  then show ?case by (subst search_loop.simps) (simp add: link_at_def)
next
  case (Cons q js)
  then have IH: "search_loop m home e cur 0 prev False q =
      Some (case hits m e (q # js) of [] \<Rightarrow> Inr (0, prev) | c # _ \<Rightarrow> Inl (Some c, False))"
    by (intro Cons.IH) auto
  from Cons.prems show ?case by (subst search_loop.simps) (cases flag; simp add: link_at_def IH)
qed

lemma search_prev:
  assumes "path e (Some p) (p # js) None" "flag \<longrightarrow> home (dat e p) = p" "p # js = us @ c # vs" "m (dat e c)"
    "\<forall>u \<in> set us. dat e u \<noteq> dat e c"
  shows "search_loop m home e (Some (dat e c)) 2 prev flag p = Some (Inl (final prev (hits m e us), True))"
  using assms
proof (induction js arbitrary: p flag us prev)
  case Nil
  then have "us = []" "p = c" by (simp_all add: Cons_eq_append_conv)
  with Nil show ?case by (subst search_loop.simps) (simp add: link_at_def final_def Let_def)
next
  case (Cons q js)
  show ?case
  proof (cases us)
    case Nil
    then have "p = c" using Cons.prems(3) by simp
    with Nil Cons.prems show ?thesis by (subst search_loop.simps) (simp add: link_at_def final_def Let_def)
  next
    case (Cons u us')
    with Cons.prems(3) have u: "u = p" "q # js = us' @ c # vs" by simp_all
    have ne: "dat e p \<noteq> dat e c" using Cons.prems(5) Cons u(1) by simp
    have pq: "path e (Some q) (q # js) None" using Cons.prems(1) by simp
    have IH: "search_loop m home e (Some (dat e c)) 2 prev' False q = Some (Inl (final prev' (hits m e us'), True))" for prev'
      by (rule Cons.IH [OF pq _ u(2) Cons.prems(4)]) (use Cons.prems(5) Cons in auto)
    have nq: "nxt e p = Some q" "p < length e" using Cons.prems(1) by simp_all
    with Cons.prems(2,4) ne show ?thesis
      by (subst search_loop.simps) (cases flag; simp add: link_at_def IH Cons u(1) final_def Let_def)
  qed
qed

lemma search_last:
  assumes "path e (Some p) (p # js) None" "flag \<longrightarrow> home (dat e p) = p"
  shows "search_loop m home e None 2 prev flag p = Some (Inr (2, final prev (hits m e (p # js))))"
  using assms
proof (induction js arbitrary: p flag prev)
  case Nil
  then show ?case by (subst search_loop.simps) (simp add: link_at_def final_def Let_def)
next
  case (Cons q js)
  then have IH: "search_loop m home e None 2 prev' False q = Some (Inr (2, final prev' (hits m e (q # js))))" for prev'
    by (intro Cons.IH) auto
  from Cons.prems show ?case by (subst search_loop.simps) (cases flag; simp add: link_at_def IH final_def Let_def)
qed

lemma search_same:
  assumes "path e (Some p) (p # js) None" "flag \<longrightarrow> home (dat e p) = p" "p # js = us @ c # vs" "m (dat e c)"
    "\<forall>u \<in> set us. dat e u \<noteq> dat e c"
  shows "search_loop m home e (Some (dat e c)) 3 prev flag p = Some (Inl (Some (c, dat e c), False))"
  using assms
proof (induction js arbitrary: p flag us)
  case Nil
  then have "us = []" "p = c" by (simp_all add: Cons_eq_append_conv)
  with Nil show ?case by (subst search_loop.simps) (simp add: link_at_def)
next
  case (Cons q js)
  show ?case
  proof (cases us)
    case Nil
    then have "p = c" using Cons.prems(3) by simp
    with Cons.prems show ?thesis by (subst search_loop.simps) (simp add: link_at_def)
  next
    case (Cons u us')
    with Cons.prems(3) have u: "u = p" "q # js = us' @ c # vs" by simp_all
    have ne: "dat e p \<noteq> dat e c" using Cons.prems(5) Cons u(1) by simp
    have pq: "path e (Some q) (q # js) None" using Cons.prems(1) by simp
    have IH: "search_loop m home e (Some (dat e c)) 3 prev False q = Some (Inl (Some (c, dat e c), False))"
      by (rule Cons.IH [OF pq _ u(2) Cons.prems(4)]) (use Cons.prems(5) Cons in auto)
    have nq: "nxt e p = Some q" "p < length e" using Cons.prems(1) by simp_all
    with Cons.prems(2,4) ne show ?thesis by (subst search_loop.simps) (cases flag; simp add: link_at_def IH)
  qed
qed

lemma search_miss:
  assumes "path e (Some p) (p # js) None" "flag \<longrightarrow> home (dat e p) = p" "\<forall>j \<in> set (p # js). \<not> m (dat e j)"
  shows "search_loop m home e cur nf prev flag p = Some (Inr (nf, prev))"
  using assms
proof (induction js arbitrary: p flag)
  case Nil
  then show ?case by (subst search_loop.simps) (simp add: link_at_def)
next
  case (Cons q js)
  then have IH: "search_loop m home e cur nf prev False q = Some (Inr (nf, prev))"
    by (intro Cons.IH) auto
  from Cons.prems show ?case by (subst search_loop.simps) (cases flag; simp add: link_at_def IH)
qed

lemma search_next_path:
  assumes "path e (nxt e p) js None" "p < length e"
  shows "search_next_loop m e p = Some (first (hits m e js))"
  using assms
proof (induction js arbitrary: p)
  case Nil
  then show ?case by (subst search_next_loop.simps) (simp add: link_at_def first_def)
next
  case (Cons q js)
  then have "search_next_loop m e q = Some (first (hits m e js))" by (intro Cons.IH) auto
  with Cons.prems show ?case by (subst search_next_loop.simps) (simp add: link_at_def first_def)
qed

lemma hits_split:
  "i < length (hits m e js) \<Longrightarrow> \<exists>us c vs. js = us @ c # vs \<and> hits m e us = take i (hits m e js) \<and> hits m e js ! i = (c, dat e c) \<and>
     hits m e vs = drop (Suc i) (hits m e js) \<and> m (dat e c)"
proof (induction js arbitrary: i)
  case (Cons j js)
  show ?case
  proof (cases "m (dat e j)")
    case True
    then have h: "hits m e (j # xs) = (j, dat e j) # hits m e xs" for xs by simp
    show ?thesis
    proof (cases i)
      case 0
      have "j # js = [] @ j # js" "hits m e [] = take 0 (hits m e (j # js))" "hits m e (j # js) ! 0 = (j, dat e j)"
        "hits m e js = drop (Suc 0) (hits m e (j # js))" unfolding h by simp_all
      with True show ?thesis unfolding 0 by blast
    next
      case (Suc i')
      with Cons.prems have "i' < length (hits m e js)" unfolding h by simp
      from Cons.IH [OF this] obtain us c vs where C: "js = us @ c # vs" "hits m e us = take i' (hits m e js)"
        "hits m e js ! i' = (c, dat e c)" "hits m e vs = drop (Suc i') (hits m e js)" "m (dat e c)" by blast
      have "j # js = (j # us) @ c # vs" unfolding C(1) by simp
      moreover have "hits m e (j # us) = take (Suc i') (hits m e (j # js))"
        "hits m e (j # js) ! Suc i' = (c, dat e c)" "hits m e vs = drop (Suc (Suc i')) (hits m e (j # js))"
        unfolding h take_Suc_Cons nth_Cons_Suc drop_Suc_Cons using C(2-4) by simp_all
      ultimately show ?thesis using C(5) unfolding Suc by blast
    qed
  next
    case False
    then have h: "hits m e (j # xs) = hits m e xs" for xs by simp
    have "i < length (hits m e js)" using Cons.prems False by simp
    from Cons.IH [OF this] obtain us c vs where C: "js = us @ c # vs" "hits m e us = take i (hits m e js)"
      "hits m e js ! i = (c, dat e c)" "hits m e vs = drop (Suc i) (hits m e js)" "m (dat e c)" by blast
    have "j # js = (j # us) @ c # vs" unfolding C(1) by simp
    moreover have "hits m e (j # us) = take i (hits m e (j # js))" "hits m e (j # js) ! i = (c, dat e c)"
      "hits m e vs = drop (Suc i) (hits m e (j # js))"
      unfolding h by (rule C(2), rule C(3), rule C(4))
    ultimately show ?thesis using C(5) by blast
  qed
qed simp

subsection \<open>The records with a key\<close>

text \<open>The key is that of a record \<open>r\<close>, with any bytes behind it, as in the buffer \<open>lastkey\<close>.\<close>

lemma key_suffix:
  assumes "rec_fits kd r"
  shows "hp_hashnr so kd (hp_make_key kd r @ rest) = hp_rec_hashnr so kd r"
    "rec_fits kd s \<Longrightarrow> \<not> hp_key_cmp so kd s (hp_make_key kd r @ rest) \<longleftrightarrow> key_image so kd s = key_image so kd r"
proof -
  show "hp_hashnr so kd (hp_make_key kd r @ rest) = hp_rec_hashnr so kd r"
    using assms by (simp add: hp_hashnr_def hp_make_key_def hp_rec_hashnr_def rec_fits_def hashnr_make_key)
  show "\<not> hp_key_cmp so kd s (hp_make_key kd r @ rest) \<longleftrightarrow> key_image so kd s = key_image so kd r" if "rec_fits kd s"
    using hp_rec_key_cmp_image [OF that assms, of so] assms
    by (simp add: hp_key_cmp_def hp_make_key_def hp_rec_key_cmp_def rec_fits_def key_cmp_make_key)
qed

text \<open>The bucket of a key: either its chain, or a cell of another chain and no record with the key.\<close>

lemma key_bucket:
  assumes wf: "index_wf so rd bl n A kd" and r: "rec_fits kd r" and n: "n \<noteq> 0" and so: "\<And>a. a \<in> A \<Longrightarrow> m a \<longleftrightarrow> key_image so kd (rd a) = key_image so kd r"
  defines "home \<equiv> \<lambda>p. hash_mask (unat (hp_rec_hashnr so kd (rd p))) bl n" and "idx \<equiv> hash_mask (unat (hp_rec_hashnr so kd r)) bl n"
  obtains js where "distinct (map snd (hits m (kd_cells kd) js))" "set (map snd (hits m (kd_cells kd) js)) = {a \<in> A. m a}"
    "distinct (map (dat (kd_cells kd)) js)" "dat (kd_cells kd) ` set js \<subseteq> A" "idx < length (kd_cells kd)" "dat (kd_cells kd) idx \<in> A"
    "js = [] \<and> \<not> m (dat (kd_cells kd) idx) \<and> home (dat (kd_cells kd) idx) \<noteq> idx \<or>
     (\<exists>t. js = idx # t) \<and> path (kd_cells kd) (Some idx) js None \<and> home (dat (kd_cells kd) idx) = idx"
proof -
  let ?e = "kd_cells kd"
  obtain ch where ts: "table_size bl n" and len: "n \<le> length ?e" and c: "chains {..<n} ?e (bucket (key_hash so rd kd) bl n) ch"
    using wf by (auto simp: index_wf_def key_wf_def link_wf_def)
  have idx: "idx < n" unfolding idx_def by (rule hash_mask_grow(3) [OF ts n])
  have hm: "bucket (key_hash so rd kd) bl n a = home a" for a by (simp add: home_def)
  note c = c [unfolded hm]
  have rc: "dat ?e j \<in> A" if "j < n" for j
    using index_mem(1) [OF wf, of "dat ?e j"] that by (auto simp: key_recs_def recs_mem)
  have inj: "inj_on (dat ?e) {..<n}"
  proof (rule eq_card_imp_inj_on)
    have "set_mset (key_recs kd n) = A" using index_mem(1) [OF wf] by blast
    then have "dat ?e ` {..<n} = A" by (simp add: key_recs_def recs_def)
    then show "card (dat ?e ` {..<n}) = card {..<n}" using index_mem(3) [OF wf] by simp
  qed simp
  have mh: "home a = idx" if "a \<in> A" "m a" for a
    using hp_rec_hashnr_image [of so kd "rd a" r] so that by (simp add: home_def idx_def)
  let ?js = "ch idx"
  have js: "distinct ?js" "set ?js = {j \<in> {..<n}. home (dat ?e j) = idx}" using chainsD(1,2) [OF c] by simp_all
  have dd: "distinct (map (dat ?e) ?js)"
    using js inj by (auto simp: distinct_map intro: inj_on_subset)
  have sn: "map snd (hits m ?e ?js) = map (dat ?e) (filter (\<lambda>j. m (dat ?e j)) ?js)" by simp
  show thesis
  proof (rule that [of ?js])
    show "distinct (map snd (hits m ?e ?js))" unfolding sn using dd by (auto simp: distinct_map intro: inj_on_subset)
    show "set (map snd (hits m ?e ?js)) = {a \<in> A. m a}"
    proof
      show "set (map snd (hits m ?e ?js)) \<subseteq> {a \<in> A. m a}" unfolding sn using js(2) rc by auto
      show "{a \<in> A. m a} \<subseteq> set (map snd (hits m ?e ?js))"
      proof
        fix a assume "a \<in> {a \<in> A. m a}"
        then have a: "a \<in> A" "m a" by simp_all
        then obtain j where "j < n" "dat ?e j = a" using index_mem(1) [OF wf, of a] by (auto simp: key_recs_def recs_mem)
        with a mh [OF a] show "a \<in> set (map snd (hits m ?e ?js))" unfolding sn js(2) by (auto simp: js(2))
      qed
    qed
    show "distinct (map (dat ?e) ?js)" by (rule dd)
    show "dat ?e ` set ?js \<subseteq> A" using js(2) rc by auto
    show "idx < length ?e" using idx len by simp
    show "dat ?e idx \<in> A" by (rule rc [OF idx])
    show "?js = [] \<and> \<not> m (dat ?e idx) \<and> home (dat ?e idx) \<noteq> idx \<or>
     (\<exists>t. ?js = idx # t) \<and> path ?e (Some idx) ?js None \<and> home (dat ?e idx) = idx"
    proof (cases "home (dat ?e idx) = idx")
      case True
      have h: "?js = idx # tl ?js" by (rule chain_head(3) [OF c]) (use idx True in auto)
      then have ne: "?js \<noteq> []" by (metis list.distinct(1))
      have "\<exists>t. ?js = idx # t" using h by blast
      with chainsD(4) [OF c ne] True show ?thesis by blast
    next
      case False
      then have "?js = []" by (intro chain_empty [OF c]) simp
      with False mh [OF rc [OF idx]] show ?thesis by blast
    qed
  qed
qed

text \<open>Where the cursor is after a read.\<close>

definition cursor_at :: "hash_cell option \<Rightarrow> HP_INFO \<Rightarrow> HP_INFO \<times> haddr option" where
  "cursor_at c info = (set_cursor c info, map_option snd c)"

definition not_found :: "HP_INFO \<Rightarrow> HP_INFO" where
  "not_found info = info\<lparr>hi_errno := HA_ERR_KEY_NOT_FOUND\<rparr>"

lemma cursor_ptr: "(set_cursor c info, hi_current_ptr (set_cursor c info)) = cursor_at c info"
  by (simp add: cursor_at_def set_cursor_def)

lemma hp_search_correct:
  assumes wf: "index_wf (env_sort_order env) (rec_at sh) (hs_blength sh) (hs_records sh) A kd" and r: "rec_fits kd r"
  obtains M where "distinct (map snd M)" "set (map snd M) = {a \<in> A. key_image (env_sort_order env) kd (rec_at sh a) = key_image (env_sort_order env) kd r}"
    "\<And>info rest. hp_search env sh info kd (hp_make_key kd r @ rest) 0 =
       Some (if M = [] then cursor_at None (not_found info) else cursor_at (first M) info)"
    "\<And>info rest i. i < length M \<Longrightarrow> hp_search_next env sh info kd (hp_make_key kd r @ rest) (fst (M ! i)) =
       Some (if Suc i < length M then cursor_at (Some (M ! Suc i)) info else cursor_at None (not_found info))"
    "\<And>info rest i. i < length M \<Longrightarrow> hi_current_ptr info = Some (snd (M ! i)) \<Longrightarrow>
       hp_search env sh info kd (hp_make_key kd r @ rest) 2 = Some (cursor_at (if i = 0 then None else Some (M ! (i - 1))) (not_found info))"
    "\<And>info rest i. i < length M \<Longrightarrow> hi_current_ptr info = Some (snd (M ! i)) \<Longrightarrow>
       hp_search env sh info kd (hp_make_key kd r @ rest) 3 = Some (cursor_at (Some (M ! i)) info)"
    "\<And>info rest. hi_current_ptr info = None \<Longrightarrow>
       hp_search env sh info kd (hp_make_key kd r @ rest) 2 = Some (cursor_at (final None M) (not_found info))"
proof -
  let ?so = "env_sort_order env" and ?rd = "rec_at sh" and ?e = "kd_cells kd" and ?n = "hs_records sh" and ?bl = "hs_blength sh"
  define m where "m = (\<lambda>a. rec_fits kd (?rd a) \<and> key_image ?so kd (?rd a) = key_image ?so kd r)"
  define home where "home = (\<lambda>p. hash_mask (unat (hp_rec_hashnr ?so kd (?rd p))) ?bl ?n)"
  define idx where "idx = hash_mask (unat (hp_rec_hashnr ?so kd r)) ?bl ?n"
  have fitA: "rec_fits kd (?rd a)" if "a \<in> A" for a using wf that by (simp add: index_wf_def)
  define X where "X = (\<lambda>rest p. \<not> hp_key_cmp ?so kd (?rd p) (hp_make_key kd r @ rest))"
  have X: "X rest a = (key_image ?so kd (?rd a) = key_image ?so kd r)" if "a \<in> A" for rest a
    using key_suffix(2) [OF r fitA [OF that]] by (simp add: X_def)
  show thesis
  proof (cases "?n = 0")
    case True
    then have "A = {}" using index_mem(3) [OF wf] wf by (simp add: index_wf_def)
    have s: "hp_search env sh info kd key f = Some (let info = not_found info in
        if f = 2 \<and> hi_current_ptr info = None then cursor_at None info
        else cursor_at None (if f \<noteq> 0 then info\<lparr>hi_errno := HA_ERR_RECORD_CHANGED\<rparr> else info))" for info key f
      using True by (simp add: hp_search_def Let_def cursor_at_def not_found_def set_cursor_def)
    show thesis
      by (rule that [of "[]"]) (simp_all add: \<open>A = {}\<close> s Let_def final_def not_found_def)
  next
    case n: False
    obtain js where js: "distinct (map snd (hits (X []) ?e js))" "set (map snd (hits (X []) ?e js)) = {a \<in> A. X [] a}"
      "distinct (map (dat ?e) js)" "dat ?e ` set js \<subseteq> A" "idx < length ?e" "dat ?e idx \<in> A"
      "js = [] \<and> \<not> X [] (dat ?e idx) \<and> home (dat ?e idx) \<noteq> idx \<or>
       (\<exists>t. js = idx # t) \<and> path ?e (Some idx) js None \<and> home (dat ?e idx) = idx"
      using key_bucket [OF wf r n X [where rest = "[]"]] unfolding home_def idx_def by blast
    let ?M = "hits (X []) ?e js"
    have Xr: "X rest (dat ?e j) = X [] (dat ?e j)" if "j \<in> set js" for rest j using X js(4) that by blast
    have hr: "hits (X rest) ?e ks = hits (X []) ?e ks" if "set ks \<subseteq> set js" for rest ks
    proof -
      have "filter (\<lambda>j. X rest (dat ?e j)) ks = filter (\<lambda>j. X [] (dat ?e j)) ks"
        by (rule filter_cong [OF refl]) (use Xr that in blast)
      then show ?thesis by simp
    qed
    have sl: "hp_search env sh info kd (hp_make_key kd r @ rest) f = do {
        res \<leftarrow> search_loop (X rest) home ?e (hi_current_ptr info) f None True idx;
        Some (case res of Inl (c, nf) \<Rightarrow> cursor_at c (if nf then not_found info else info)
         | Inr (flag, prev) \<Rightarrow> if flag = 2 \<and> hi_current_ptr info = None then cursor_at prev (not_found info)
             else cursor_at None (if f \<noteq> 0 \<and> flag \<noteq> 0 then info\<lparr>hi_errno := HA_ERR_RECORD_CHANGED\<rparr> else not_found info)) }" for info rest f
      unfolding hp_search_def Let_def key_suffix(1) [OF r] idx_def [symmetric] fun_cong [OF X_def, symmetric] home_def [symmetric]
      using n by (cases "search_loop (X rest) home ?e (hi_current_ptr info) f None True idx")
        (auto simp: X_def cursor_at_def not_found_def set_cursor_def split: sum.split)
    have cs: "(\<exists>t. js = idx # t) \<and> path ?e (Some idx) (idx # tl js) None \<and> home (dat ?e idx) = idx" if "?M \<noteq> []"
      using that js(7) by auto
    have S: "path ?e (Some idx) (idx # tl js) None" "True \<longrightarrow> home (dat ?e idx) = idx" "idx # tl js = js" if "?M \<noteq> []"
      using cs [OF that] by auto
    have spl: "\<exists>us c vs. js = us @ c # vs \<and> hits (X rest) ?e us = take i ?M \<and> ?M ! i = (c, dat ?e c) \<and>
        hits (X rest) ?e vs = drop (Suc i) ?M \<and> X rest (dat ?e c) \<and> (\<forall>u \<in> set us. dat ?e u \<noteq> dat ?e c)" if i: "i < length ?M" for i rest
    proof -
      from hits_split [OF i] obtain us c vs where C: "js = us @ c # vs" "hits (X []) ?e us = take i ?M" "?M ! i = (c, dat ?e c)"
        "hits (X []) ?e vs = drop (Suc i) ?M" "X [] (dat ?e c)" by blast
      have sub: "set us \<subseteq> set js" "set vs \<subseteq> set js" "c \<in> set js" unfolding C(1) by auto
      have "dat ?e c \<notin> dat ?e ` set us" using js(3) unfolding C(1) by simp
      then have d: "\<forall>u \<in> set us. dat ?e u \<noteq> dat ?e c" by (metis imageI)
      show ?thesis using C(1,3) C(2) [folded hr [OF sub(1), of rest]] C(4) [folded hr [OF sub(2), of rest]] C(5) Xr [OF sub(3), of rest] d by blast
    qed
    have miss: "search_loop (X rest) home ?e cur flag None True idx = Some (Inr (flag, None))" if e: "?M = []" for rest cur flag
    proof (cases "js = []")
      case True
      then have d: "\<not> X [] (dat ?e idx)" "home (dat ?e idx) \<noteq> idx" using js(7) by auto
      have "\<not> X rest (dat ?e idx)" using d(1) X [OF js(6)] by simp
      then show ?thesis using d(2) js(5) by (subst search_loop.simps) (simp add: link_at_def)
    next
      case False
      then have h: "path ?e (Some idx) (idx # tl js) None" "True \<longrightarrow> home (dat ?e idx) = idx" "idx # tl js = js"
        using js(7) by auto
      have "\<not> X rest (dat ?e j)" if "j \<in> set js" for j using Xr [OF that] e that by (auto simp: filter_empty_conv)
      then show ?thesis by (intro search_miss [where home = home and e = "?e" and p = idx and flag = True, OF h(1,2)]) (use h(3) in auto)
    qed
    show thesis
    proof (rule that [of ?M])
      show "distinct (map snd ?M)" by (rule js(1))
      show "set (map snd ?M) = {a \<in> A. key_image ?so kd (?rd a) = key_image ?so kd r}"
        unfolding js(2) using X by blast
      show "hp_search env sh info kd (hp_make_key kd r @ rest) 0 =
         Some (if ?M = [] then cursor_at None (not_found info) else cursor_at (first ?M) info)" for info rest
      proof (cases "?M = []")
        case False
        have "search_loop (X rest) home ?e (hi_current_ptr info) 0 None True idx = Some (Inl (first ?M, False))"
          unfolding search_first [where home = home and e = "?e" and p = idx and flag = True, OF S(1,2) [OF False]] S(3) [OF False] hr [where rest = rest and ks = js, OF subset_refl] using False
          by (cases ?M) (simp_all only: list.case first_def not_True_eq_False simp_thms)
        with False show ?thesis unfolding sl by simp
      qed (simp add: sl miss)
      show "hp_search_next env sh info kd (hp_make_key kd r @ rest) (fst (?M ! i)) =
         Some (if Suc i < length ?M then cursor_at (Some (?M ! Suc i)) info else cursor_at None (not_found info))"
        if i: "i < length ?M" for info rest i
      proof -
        obtain us c vs where C: "js = us @ c # vs" "?M ! i = (c, dat ?e c)" "hits (X rest) ?e vs = drop (Suc i) ?M"
          using spl [OF i] by blast
        have ne: "?M \<noteq> []" using i by (metis less_nat_zero_code list.size(3))
        have "path ?e (Some idx) (us @ c # vs) None" using S(1) [OF ne, unfolded S(3) [OF ne]] unfolding C(1) .
        then have "path ?e (nxt ?e c) vs None" "c < length ?e" by (auto simp: path_append)
        from search_next_path [OF this, of "X rest"]
        have "search_next_loop (X rest) ?e c = Some (first (drop (Suc i) ?M))" unfolding C(3) .
        note run = this [unfolded first_drop]
        show ?thesis unfolding hp_search_next_def fun_cong [OF X_def, symmetric] C(2) fst_conv run
          by (cases "Suc i < length ?M") (simp_all only: if_True if_False Option.bind.simps Let_def cursor_ptr not_found_def option.distinct simp_thms)
      qed
      show "hp_search env sh info kd (hp_make_key kd r @ rest) 2 = Some (cursor_at (if i = 0 then None else Some (?M ! (i - 1))) (not_found info))"
        if i: "i < length ?M" and cur: "hi_current_ptr info = Some (snd (?M ! i))" for info rest i
      proof -
        obtain us c vs where C: "js = us @ c # vs" "hits (X rest) ?e us = take i ?M" "?M ! i = (c, dat ?e c)"
          "X rest (dat ?e c)" "\<forall>u \<in> set us. dat ?e u \<noteq> dat ?e c" using spl [OF i, of rest] by blast
        have ne: "?M \<noteq> []" using i by (metis less_nat_zero_code list.size(3))
        have cu: "hi_current_ptr info = Some (dat ?e c)" using cur C(3) by simp
        show ?thesis unfolding sl cu search_prev [where home = home and e = "?e" and p = idx and flag = True and m = "X rest", OF S(1,2) [OF ne] trans [OF S(3) [OF ne] C(1)] C(4,5)] C(2) final_take [OF i] by simp
      qed
      show "hp_search env sh info kd (hp_make_key kd r @ rest) 3 = Some (cursor_at (Some (?M ! i)) info)"
        if i: "i < length ?M" and cur: "hi_current_ptr info = Some (snd (?M ! i))" for info rest i
      proof -
        obtain us c vs where C: "js = us @ c # vs" "hits (X rest) ?e us = take i ?M" "?M ! i = (c, dat ?e c)"
          "X rest (dat ?e c)" "\<forall>u \<in> set us. dat ?e u \<noteq> dat ?e c" using spl [OF i, of rest] by blast
        have ne: "?M \<noteq> []" using i by (metis less_nat_zero_code list.size(3))
        have cu: "hi_current_ptr info = Some (dat ?e c)" using cur C(3) by simp
        then show ?thesis using C(3) unfolding sl cu search_same [where home = home and e = "?e" and p = idx and flag = True and m = "X rest", OF S(1,2) [OF ne] trans [OF S(3) [OF ne] C(1)] C(4,5)] by simp
      qed
      show "hp_search env sh info kd (hp_make_key kd r @ rest) 2 = Some (cursor_at (final None ?M) (not_found info))"
        if cur: "hi_current_ptr info = None" for info rest
      proof (cases "?M = []")
        case True
        then show ?thesis unfolding sl cur miss [OF True] by (simp add: final_def)
      next
        case False
        show ?thesis unfolding sl cur search_last [where home = home and e = "?e" and p = idx and flag = True, OF S(1,2) [OF False]] S(3) [OF False] hr [where rest = rest and ks = js, OF subset_refl] by simp
      qed
    qed
  qed
qed

end
