(* ===== verification/HeapScanSpec.thy ===== *)
theory HeapScanSpec
  imports HeapReadSpec
begin

text \<open>
  What a reader of a heap table sees: all records with a key, one after the other; every cell in
  use, one after the other, in a scan. The check of the indexes accepts a well-formed table.
\<close>

subsection \<open>The check\<close>

lemma check_links_path:
  assumes "path e x xs None" "\<forall>j \<in> set xs. home (dat e j) = i" "f + length xs \<le> n"
  shows "check_links home e n i x f err = Some (f + length xs, err)"
  using assms
proof (induction xs arbitrary: x f)
  case Nil
  then show ?case by (subst check_links.simps) simp
next
  case (Cons y ys)
  then have "check_links home e n i (nxt e y) (f + 1) err = Some (f + 1 + length ys, err)"
    by (intro Cons.IH) auto
  with Cons.prems show ?case by (subst check_links.simps) (simp add: link_at_def)
qed

lemma check_buckets_chains:
  assumes c: "chains {..<n} e home ch"
  shows "set is \<subseteq> {..<n} \<Longrightarrow> f + sum_list (map (\<lambda>i. length (ch i)) is) \<le> n \<Longrightarrow>
    check_buckets home e n is (f, err) = Some (f + sum_list (map (\<lambda>i. length (ch i)) is), err)"
proof (induction "is" arbitrary: f)
  case (Cons i "is")
  have i: "i < n" "i < length e" using Cons.prems chain_bound [OF c, of i] by auto
  have rest: "check_buckets home e n is (f + length (ch i), err) =
      Some (f + length (ch i) + sum_list (map (\<lambda>i. length (ch i)) is), err)"
    using Cons.prems by (intro Cons.IH) auto
  show ?case
  proof (cases "home (dat e i) = i")
    case True
    have "ch i = i # tl (ch i)" by (rule chain_head(3) [OF c]) (use i True in auto)
    then obtain t where t: "ch i = i # t" by blast
    then have ne: "ch i \<noteq> []" by simp
    have p: "path e (nxt e i) t None" using chainsD(4) [OF c ne] t by simp
    have "\<forall>j \<in> set t. home (dat e j) = i"
    proof
      fix j assume "j \<in> set t"
      then have "j \<in> set (ch i)" using t by simp
      then show "home (dat e j) = i" by (simp add: chain_mem [OF c])
    qed
    with p have "check_links home e n i (nxt e i) (f + 1) err = Some (f + 1 + length t, err)"
      using Cons.prems(2) t by (intro check_links_path) auto
    with rest t i True show ?thesis by (simp add: link_at_def)
  next
    case False
    then have "ch i = []" by (intro chain_empty [OF c]) simp
    with rest i False show ?thesis by (simp add: link_at_def)
  qed
qed simp

lemma check_one_key_correct:
  assumes wf: "index_wf (env_sort_order env) (rec_at sh) (hs_blength sh) (hs_records sh) A kd"
  shows "check_one_key env sh kd = Some False"
proof (cases "hs_records sh = 0")
  case True
  then show ?thesis by (simp add: check_one_key_def)
next
  case False
  let ?n = "hs_records sh" and ?home = "\<lambda>p. hash_mask (unat (hp_rec_hashnr (env_sort_order env) kd (rec_at sh p))) (hs_blength sh) (hs_records sh)"
  obtain ch where ts: "table_size (hs_blength sh) ?n"
    and c: "chains {..<?n} (kd_cells kd) (bucket (key_hash (env_sort_order env) (rec_at sh) kd) (hs_blength sh) ?n) ch"
    using wf by (auto simp: index_wf_def key_wf_def link_wf_def)
  have c:  "chains {..<?n} (kd_cells kd) ?home ch" using c by simp
  have mb: "?home (dat (kd_cells kd) j) < ?n" for j by (rule hash_mask_grow(3) [OF ts False])
  have tot: "sum_list (map (\<lambda>i. length (ch i)) [0..<?n]) = ?n"
    by (rule chains_total [OF c mb])
  have "check_buckets ?home (kd_cells kd) ?n [0..<?n] (0, False) = Some (0 + sum_list (map (\<lambda>i. length (ch i)) [0..<?n]), False)"
    by (rule check_buckets_chains [OF c]) (auto simp: tot)
  then show ?thesis by (simp add: check_one_key_def tot)
qed

lemma heap_check_heap_correct:
  assumes "share_wf env sh"
  shows "heap_check_heap env sh = Some False"
proof -
  obtain ds where inv: "share_inv env sh (active sh) ds" using assms by (auto simp: share_wf_def)
  have "check_keys env sh K = Some False" if "set K \<subseteq> set (hs_keydef sh)" for K
    using that by (induction K) (auto simp: check_one_key_correct [OF share_invD(6) [OF inv]])
  then show ?thesis by (simp add: heap_check_heap_def)
qed

subsection \<open>Reading by key\<close>

text \<open>Reads with \<open>heap_rnext\<close> until it returns an error, at most \<open>n\<close> times; the records read and the error.\<close>

primrec read_rest :: "nat \<Rightarrow> hp_env \<Rightarrow> HP_SHARE \<Rightarrow> HP_INFO \<Rightarrow> bytes \<Rightarrow> (bytes list \<times> int) option" where
  "read_rest 0 env sh info buf = None"
| "read_rest (Suc n) env sh info buf = do {
     (info, buf, e) \<leftarrow> heap_rnext env sh info buf;
     if e \<noteq> 0 then Some ([], e) else map_option (apfst (Cons buf)) (read_rest n env sh info buf) }"

definition read_key :: "nat \<Rightarrow> hp_env \<Rightarrow> HP_SHARE \<Rightarrow> HP_INFO \<Rightarrow> bytes \<Rightarrow> int \<Rightarrow> bytes \<Rightarrow> (bytes list \<times> int) option" where
  "read_key n env sh info buf inx key = do {
     (info, buf, e) \<leftarrow> heap_rkey env sh info buf inx key;
     if e \<noteq> 0 then Some ([], e) else map_option (apfst (Cons buf)) (read_rest n env sh info buf) }"

lemma read_rec_active:
  assumes "share_wf env sh" "a \<in> active sh" "length buf = hs_reclength sh"
  shows "read_rec sh buf a = Some (rec_at sh a)"
proof -
  obtain ds where inv: "share_inv env sh (active sh) ds" using assms(1) by (auto simp: share_wf_def)
  obtain c where c: "cell_at sh a = Some c" using data_okD(8) [OF share_invD(1) [OF inv] assms(2)]
    by (auto simp: in_use_at_def split: option.splits)
  then show ?thesis using assms(3) by (simp add: read_rec_def rec_at_def memcpy_def)
qed

lemma rec_at_length:
  assumes "share_wf env sh" "a \<in> active sh"
  shows "length (rec_at sh a) = hs_reclength sh"
proof -
  obtain ds where inv: "share_inv env sh (active sh) ds" using assms(1) by (auto simp: share_wf_def)
  note D = data_okD [OF share_invD(1) [OF inv]] and S = sizes_okD [OF data_okD(1) [OF share_invD(1) [OF inv]]]
  obtain p where p: "p < hs_records sh + hs_deleted sh" "a = cell_addr (records_in_block (hs_block sh)) p"
    using D(3) assms(2) by (auto simp: used_cells_def simp del: split_paired_All)
  then have "p < room (hs_block sh)" using S(5) by linarith
  with p(2) obtain c where "cell_at sh a = Some c" "length c = recbuffer (hs_block sh)"
    using D(2) unfolding cells_exist_def by blast
  then show ?thesis using S(4) by (simp add: rec_at_def)
qed

lemma active_state [simp]:
  "hi_errno (info\<lparr>hi_update := u\<rparr>) = hi_errno info" "HA_STATE_AKTIV OR HA_STATE_NEXT_FOUND = 18"
  by (simp_all add: HA_STATE_AKTIV_def HA_STATE_NEXT_FOUND_def)

lemma read_key_correct:
  assumes wf: "share_wf env sh" and k: "k < length (hs_keydef sh)" and kd: "hs_keydef sh ! k = kd" and ns: "\<not> nosame kd"
    and r: "rec_fits kd r" and kl: "kd_length kd = length (hp_make_key kd r)" and buf: "length buf = hs_reclength sh"
  shows "\<exists>as. read_key (hs_records sh) env sh info buf (int k) (hp_make_key kd r @ rest) =
      Some (map (rec_at sh) as, if as = [] then HA_ERR_KEY_NOT_FOUND else HA_ERR_END_OF_FILE) \<and> distinct as \<and>
    set as = {a \<in> active sh. key_image (env_sort_order env) kd (rec_at sh a) = key_image (env_sort_order env) kd r}"
proof -
  let ?key = "hp_make_key kd r"
  obtain ds where inv: "share_inv env sh (active sh) ds" using wf by (auto simp: share_wf_def)
  have mem: "kd \<in> set (hs_keydef sh)" using k kd by auto
  have at: "key_at sh (int k) = Some kd" using k kd by (simp add: key_at_def)
  obtain M where M: "distinct (map snd M)"
    "set (map snd M) = {a \<in> active sh. key_image (env_sort_order env) kd (rec_at sh a) = key_image (env_sort_order env) kd r}"
    "\<And>info rest. hp_search env sh info kd (?key @ rest) 0 =
       Some (if M = [] then cursor_at None (not_found info) else cursor_at (first M) info)"
    "\<And>info rest i. i < length M \<Longrightarrow> hp_search_next env sh info kd (?key @ rest) (fst (M ! i)) =
       Some (if Suc i < length M then cursor_at (Some (M ! Suc i)) info else cursor_at None (not_found info))"
    by (rule hp_search_correct [OF share_invD(6) [OF inv mem] r]) (rule that, assumption+)
  have act: "snd (M ! i) \<in> active sh" if "i < length M" for i
  proof -
    have "snd (M ! i) \<in> set (map snd M)" using that by simp
    then show ?thesis unfolding M(2) by simp
  qed
  note rd = read_rec_active [OF wf act] and rl = rec_at_length [OF wf act]
  have loop: "read_rest n env sh info buf = Some (map (rec_at sh) (map snd (drop (Suc i) M)), HA_ERR_END_OF_FILE)"
    if "i < length M" "length M \<le> n + i" "hi_lastinx info = int k" "hi_lastkey info = ?key @ rest'" "hi_current_hash_ptr info = Some (fst (M ! i))"
      "length buf = hs_reclength sh" for n i info buf rest'
    using that
  proof (induction n arbitrary: i info buf)
    case (Suc n)
    show ?case
    proof (cases "Suc i < length M")
      case True
      let ?info = "(set_cursor (Some (M ! Suc i)) info)\<lparr>hi_update := HA_STATE_AKTIV OR HA_STATE_NEXT_FOUND\<rparr>"
      have "heap_rnext env sh info buf = Some (?info, rec_at sh (snd (M ! Suc i)), 0)"
        using Suc.prems True by (simp add: heap_rnext_def at M(4) cursor_at_def read_found_def rd)
      moreover have "read_rest n env sh ?info (rec_at sh (snd (M ! Suc i))) =
          Some (map (rec_at sh) (map snd (drop (Suc (Suc i)) M)), HA_ERR_END_OF_FILE)"
        by (rule Suc.IH [OF True]) (use Suc.prems True in \<open>simp_all add: set_cursor_def rl\<close>)
      ultimately show ?thesis using True by (simp add: Cons_nth_drop_Suc [symmetric])
    next
      case False
      have "heap_rnext env sh info buf = Some ((set_cursor None info)\<lparr>hi_update := HA_STATE_NEXT_FOUND, hi_errno := HA_ERR_END_OF_FILE\<rparr>, buf, HA_ERR_END_OF_FILE)"
        using Suc.prems False by (simp add: heap_rnext_def at M(4) cursor_at_def read_found_def not_found_def set_cursor_def Let_def)
      then show ?thesis using False by (simp add: HA_ERR_END_OF_FILE_def)
    qed
  qed simp
  have L: "length M \<le> hs_records sh"
  proof -
    have "length M = card (set (map snd M))" using distinct_card [OF M(1)] by simp
    also have "\<dots> \<le> card (active sh)" unfolding M(2) by (rule card_mono) (use share_invD(4) [OF inv] in auto)
    finally show ?thesis using share_invD(5) [OF inv] by simp
  qed
  have lk: "memcpy old (?key @ rest) (kd_length kd) = ?key @ drop (kd_length kd) old" for old
    using kl by (simp add: memcpy_def)
  have "read_key (hs_records sh) env sh info buf (int k) (?key @ rest) =
      Some (map (rec_at sh) (map snd M), if M = [] then HA_ERR_KEY_NOT_FOUND else HA_ERR_END_OF_FILE)"
  proof (cases M)
    case Nil
    then show ?thesis
      by (simp add: read_key_def heap_rkey_def at M(3) cursor_at_def not_found_def set_cursor_def Let_def HA_ERR_KEY_NOT_FOUND_def)
  next
    case (Cons c M')
    then have c: "M ! 0 = c" "0 < length M" "M \<noteq> []" "first M = Some c" by (simp_all add: first_def)
    let ?info = "(set_cursor (Some c) (info\<lparr>hi_lastinx := int k, hi_current_record := NOT 0\<rparr>))\<lparr>hi_update := HA_STATE_AKTIV,
      hi_lastkey := ?key @ drop (kd_length kd) (hi_lastkey info)\<rparr>"
    have "heap_rkey env sh info buf (int k) (?key @ rest) = Some (?info, rec_at sh (snd c), 0)"
      using rd [OF c(2) buf] ns by (simp add: heap_rkey_def at M(3) c(1,3,4) cursor_at_def set_cursor_def Let_def lk)
    moreover have "read_rest (hs_records sh) env sh ?info (rec_at sh (snd c)) =
        Some (map (rec_at sh) (map snd (drop (Suc 0) M)), HA_ERR_END_OF_FILE)"
      by (rule loop [OF c(2)]) (use L rl [OF c(2)] in \<open>simp_all add: set_cursor_def c(1)\<close>)
    ultimately show ?thesis using Cons by (simp add: read_key_def)
  qed
  then show ?thesis using M(1,2) by (intro exI [of _ "map snd M"]) auto
qed

subsection \<open>Scanning\<close>

text \<open>Reads with \<open>heap_scan\<close> until the end of the file, at most \<open>n\<close> times.\<close>

primrec scan_rest :: "nat \<Rightarrow> HP_SHARE \<Rightarrow> HP_INFO \<Rightarrow> bytes \<Rightarrow> bytes list option" where
  "scan_rest 0 sh info buf = None"
| "scan_rest (Suc n) sh info buf = do {
     (info, buf, e) \<leftarrow> heap_scan sh info buf;
     if e = HA_ERR_END_OF_FILE then Some []
     else if e = 0 then map_option (Cons buf) (scan_rest n sh info buf)
     else scan_rest n sh info buf }"

text \<open>Before cell \<open>k\<close> is read: the cells up to \<open>nb\<close> are in the block of the cell before.\<close>

definition scan_at :: "HP_SHARE \<Rightarrow> nat \<Rightarrow> nat \<Rightarrow> HP_INFO \<Rightarrow> bool" where
  "scan_at sh k nb info \<longleftrightarrow>
     (let rib = records_in_block (hs_block sh); tot = hs_records sh + hs_deleted sh in
      hi_current_record info + 1 = word_of_nat k \<and> hi_next_block info = word_of_nat nb \<and> k \<le> nb \<and> nb \<le> tot \<and>
      (nb = tot \<or> rib dvd nb) \<and>
      (k < nb \<longrightarrow> 0 < k mod rib \<and> nb \<le> (k div rib + 1) * rib \<and> hi_current_ptr info = Some (cell_addr rib (k - 1))))"

lemma scan_atD:
  assumes "scan_at sh k nb info"
  defines "rib \<equiv> records_in_block (hs_block sh)" and "tot \<equiv> hs_records sh + hs_deleted sh"
  shows "hi_current_record info + 1 = word_of_nat k" "hi_next_block info = word_of_nat nb" "k \<le> nb" "nb \<le> tot"
    "nb = tot \<or> rib dvd nb" "k < nb \<longrightarrow> 0 < k mod rib \<and> nb \<le> (k div rib + 1) * rib \<and> hi_current_ptr info = Some (cell_addr rib (k - 1))"
proof -
  note A = assms(1) [unfolded scan_at_def Let_def, folded rib_def tot_def]
  from A show "hi_current_record info + 1 = word_of_nat k" by (elim conjE)
  from A show "hi_next_block info = word_of_nat nb" by (elim conjE)
  from A show "k \<le> nb" by (elim conjE)
  from A show "nb \<le> tot" by (elim conjE)
  from A show "nb = tot \<or> rib dvd nb" by (elim conjE)
  from A show "k < nb \<longrightarrow> 0 < k mod rib \<and> nb \<le> (k div rib + 1) * rib \<and> hi_current_ptr info = Some (cell_addr rib (k - 1))" by (elim conjE)
qed

lemma next_cell:
  assumes "0 < k mod rib"
  shows "next_ptr (Some (cell_addr rib (k - 1))) = Some (cell_addr rib k)"
proof -
  obtain j where k: "k = Suc j" using assms by (cases k) simp_all
  have "j div rib = k div rib \<and> Suc (j mod rib) = k mod rib"
    using assms unfolding k by (simp add: div_Suc mod_Suc split: if_splits)
  then show ?thesis using k by (simp add: next_ptr_def cell_addr_def)
qed

lemma used_cell:
  assumes wf: "share_wf env sh" and k: "k < hs_records sh + hs_deleted sh"
  defines "a \<equiv> cell_addr (records_in_block (hs_block sh)) k"
  shows "\<exists>c. cell_at sh a = Some c \<and> length c = recbuffer (hs_block sh)" "hp_find_block (hs_block sh) k = Some a"
    "hs_reclength sh < recbuffer (hs_block sh)"
proof -
  obtain ds where inv: "share_inv env sh (active sh) ds" using wf by (auto simp: share_wf_def)
  note D = data_okD [OF share_invD(1) [OF inv]] and S = sizes_okD [OF data_okD(1) [OF share_invD(1) [OF inv]]]
  have "k < room (hs_block sh)" using k S(5) by linarith
  then show "\<exists>c. cell_at sh a = Some c \<and> length c = recbuffer (hs_block sh)" "hp_find_block (hs_block sh) k = Some a"
    using D(2) hp_find_block_correct [OF S(1)] unfolding cells_exist_def a_def by blast+
  show "hs_reclength sh < recbuffer (hs_block sh)" by (rule S(4))
qed

lemma read_current_cell:
  assumes "\<exists>c. cell_at sh a = Some c \<and> length c = recbuffer (hs_block sh)" "length buf = hs_reclength sh"
    "hs_reclength sh < recbuffer (hs_block sh)" "hi_current_ptr info = Some a"
  shows "\<exists>info' buf'. read_current sh info buf = Some (info', buf', if in_use_at sh a then 0 else HA_ERR_RECORD_DELETED) \<and>
    length buf' = hs_reclength sh \<and> (in_use_at sh a \<longrightarrow> buf' = rec_at sh a) \<and> hi_current_record info' = hi_current_record info \<and>
    hi_next_block info' = hi_next_block info \<and> hi_current_ptr info' = Some a"
proof -
  obtain c where c: "cell_at sh a = Some c" "length c = recbuffer (hs_block sh)" using assms(1) by blast
  show ?thesis
  proof (cases "in_use sh c")
    case True
    then show ?thesis using c assms(2-4) by (simp add: read_current_def in_use_at_def read_rec_def rec_at_def memcpy_def)
  next
    case False
    then show ?thesis using c assms(2-4) by (simp add: read_current_def in_use_at_def)
  qed
qed

lemma heap_scan_step:
  assumes wf: "share_wf env sh" and at: "scan_at sh k nb info" and buf: "length buf = hs_reclength sh"
    and big: "hs_records sh + hs_deleted sh + records_in_block (hs_block sh) < 2 ^ 64" and k: "k < hs_records sh + hs_deleted sh"
  defines "a \<equiv> cell_addr (records_in_block (hs_block sh)) k"
  shows "\<exists>info' buf' nb'. heap_scan sh info buf = Some (info', buf', if in_use_at sh a then 0 else HA_ERR_RECORD_DELETED) \<and>
    length buf' = hs_reclength sh \<and> (in_use_at sh a \<longrightarrow> buf' = rec_at sh a) \<and> scan_at sh (Suc k) nb' info'"
proof -
  let ?rib = "records_in_block (hs_block sh)" and ?total = "hs_records sh + hs_deleted sh"
  have rib: "0 < ?rib" using wf by (auto simp: share_wf_def dest!: share_invD(1) data_okD(1) sizes_okD(1) block_wfD(2))
  note U = used_cell [OF wf k, folded a_def]
  note A = scan_atD [OF at]
  let ?info = "info\<lparr>hi_current_record := word_of_nat k\<rparr>"
  have u: "unat (word_of_nat j :: ulong) = j" if "j \<le> ?total + ?rib" for j
    using that big by (simp add: unat_of_nat take_bit_eq_mod)
  have lt: "(word_of_nat i :: ulong) < word_of_nat j \<longleftrightarrow> i < j" and le: "(word_of_nat i :: ulong) \<le> word_of_nat j \<longleftrightarrow> i \<le> j"
    if "i \<le> ?total + ?rib" "j \<le> ?total + ?rib" for i j
    using that by (simp_all add: word_less_nat_alt word_le_nat_alt u)
  have succ: "0 < Suc k mod ?rib \<and> nb' \<le> (Suc k div ?rib + 1) * ?rib" if "Suc k < nb'" "nb' \<le> (k div ?rib + 1) * ?rib" for nb'
  proof -
    have "Suc (k mod ?rib) \<noteq> ?rib"
    proof
      assume e: "Suc (k mod ?rib) = ?rib"
      have "(k div ?rib + 1) * ?rib = k div ?rib * ?rib + Suc (k mod ?rib)" unfolding e by simp
      then have "(k div ?rib + 1) * ?rib = Suc k" by simp
      with that show False by simp
    qed
    then have m: "Suc k mod ?rib = Suc (k mod ?rib)" by (simp add: mod_Suc)
    then show ?thesis using that by (simp add: div_Suc)
  qed
  have at': "scan_at sh (Suc k) nb' i" if "hi_current_record i = word_of_nat k" "hi_next_block i = word_of_nat nb'" "hi_current_ptr i = Some a"
    "Suc k \<le> nb'" "nb' \<le> ?total" "nb' = ?total \<or> ?rib dvd nb'" "nb' \<le> (k div ?rib + 1) * ?rib" for i nb'
    using that succ [of nb'] unfolding scan_at_def Let_def a_def by simp
  show ?thesis
  proof (cases "k < nb")
    case True
    let ?i = "?info\<lparr>hi_current_ptr := Some a\<rparr>"
    have "heap_scan sh info buf = read_current sh ?i buf"
      using A True next_cell [of k ?rib] k by (simp add: heap_scan_def Let_def A(1) lt a_def)
    moreover obtain i' b' where R: "read_current sh ?i buf = Some (i', b', if in_use_at sh a then 0 else HA_ERR_RECORD_DELETED)"
      "length b' = hs_reclength sh" "in_use_at sh a \<longrightarrow> b' = rec_at sh a" "hi_current_record i' = hi_current_record ?i"
      "hi_next_block i' = hi_next_block ?i" "hi_current_ptr i' = Some a"
      using read_current_cell [OF U(1) buf U(3), of ?i] by auto
    moreover have "scan_at sh (Suc k) nb i'" by (rule at') (use R A True in auto)
    ultimately show ?thesis by auto
  next
    case False
    then have nb: "nb = k" "?rib dvd k" using A(3,5) k by auto
    define nb' where "nb' = min (k + ?rib) ?total"
    let ?i = "?info\<lparr>hi_next_block := word_of_nat nb', hi_current_ptr := Some a\<rparr>"
    have ov: "word_of_nat ?total \<le> (word_of_nat (k + ?rib) :: ulong) \<longleftrightarrow> ?total \<le> k + ?rib" by (rule le) (use k in auto)
    have np: "word_of_nat ?total \<le> (word_of_nat k :: ulong) \<longleftrightarrow> ?total \<le> k" by (rule le) (use k in auto)
    have "heap_scan sh info buf = read_current sh ?i buf"
      using U(2) k by (simp add: heap_scan_def Let_def A(1,2) nb(1) ov [unfolded of_nat_add] np [unfolded of_nat_add] u nb'_def hp_find_record_def min_def)
    moreover obtain i' b' where R: "read_current sh ?i buf = Some (i', b', if in_use_at sh a then 0 else HA_ERR_RECORD_DELETED)"
      "length b' = hs_reclength sh" "in_use_at sh a \<longrightarrow> b' = rec_at sh a" "hi_current_record i' = hi_current_record ?i"
      "hi_next_block i' = hi_next_block ?i" "hi_current_ptr i' = Some a"
      using read_current_cell [OF U(1) buf U(3), of ?i] by auto
    moreover have "scan_at sh (Suc k) nb' i'"
    proof (rule at')
      show "nb' = ?total \<or> ?rib dvd nb'" using nb(2) by (auto simp: nb'_def min_def)
      show "nb' \<le> (k div ?rib + 1) * ?rib" using nb(2) by (simp add: nb'_def algebra_simps)
    qed (use R k rib in \<open>auto simp: nb'_def\<close>)
    ultimately show ?thesis by auto
  qed
qed

lemma heap_scan_end:
  assumes at: "scan_at sh (hs_records sh + hs_deleted sh) nb info" and wf: "share_wf env sh"
    and big: "hs_records sh + hs_deleted sh + records_in_block (hs_block sh) < 2 ^ 64"
  shows "\<exists>info'. heap_scan sh info buf = Some (info', buf, HA_ERR_END_OF_FILE)"
proof -
  let ?rib = "records_in_block (hs_block sh)" and ?total = "hs_records sh + hs_deleted sh"
  have nb: "nb = ?total" using scan_atD(3,4) [OF at] by (rule antisym [rotated])
  note A = scan_atD(1,2) [OF at, unfolded nb]
  have "unat (word_of_nat ?total :: ulong) = ?total" "unat (word_of_nat (?total + ?rib) :: ulong) = ?total + ?rib"
    using big by (simp_all add: unat_of_nat take_bit_eq_mod del: of_nat_add)
  then have "(word_of_nat ?total :: ulong) \<le> word_of_nat (?total + ?rib)" unfolding word_le_nat_alt by simp
  with A show ?thesis by (simp add: heap_scan_def Let_def)
qed

lemma scan_correct:
  assumes wf: "share_wf env sh" and buf: "length buf = hs_reclength sh"
    and big: "hs_records sh + hs_deleted sh + records_in_block (hs_block sh) < 2 ^ 64"
  shows "scan_rest (hs_records sh + hs_deleted sh + 1) sh (heap_scan_init info) buf =
    Some (map (rec_at sh) (filter (in_use_at sh) (map (cell_addr (records_in_block (hs_block sh))) [0..<hs_records sh + hs_deleted sh])))"
proof -
  let ?rib = "records_in_block (hs_block sh)" and ?total = "hs_records sh + hs_deleted sh"
  have "scan_rest n sh info buf = Some (map (rec_at sh) (filter (in_use_at sh) (map (cell_addr ?rib) [k..<?total])))"
    if "k \<le> ?total" "n = Suc (?total - k)" "scan_at sh k nb info" "length buf = hs_reclength sh" for n k nb info buf
    using that
  proof (induction "?total - k" arbitrary: n k nb info buf)
    case 0
    then have k: "k = ?total" "n = Suc 0" by simp_all
    obtain info' where "heap_scan sh info buf = Some (info', buf, HA_ERR_END_OF_FILE)"
      using heap_scan_end [OF 0(4) [unfolded k(1)] wf big] by blast
    then show ?case unfolding k by simp
  next
    case (Suc d)
    then have k: "k < ?total" by simp
    let ?a = "cell_addr ?rib k"
    obtain i' b' nb' where S: "heap_scan sh info buf = Some (i', b', if in_use_at sh ?a then 0 else HA_ERR_RECORD_DELETED)"
      "length b' = hs_reclength sh" "in_use_at sh ?a \<longrightarrow> b' = rec_at sh ?a" "scan_at sh (Suc k) nb' i'"
      using heap_scan_step [OF wf Suc.prems(3,4) big k] by blast
    have n: "n = Suc (Suc (?total - Suc k))" using Suc.prems(2) k by simp
    have "scan_rest (Suc (?total - Suc k)) sh i' b' = Some (map (rec_at sh) (filter (in_use_at sh) (map (cell_addr ?rib) [Suc k..<?total])))"
      by (rule Suc.hyps(1) [OF _ _ refl S(4,2)]) (use Suc.hyps(2) k in simp_all)
    then show ?case unfolding n upt_conv_Cons [OF k] using S(1,3) by (simp add: ha_errors)
  qed
  from this [of 0 _ 0] buf show ?thesis by (simp add: scan_at_def heap_scan_init_def Let_def)
qed

lemma scanned_cells:
  assumes wf: "share_wf env sh"
  defines "as \<equiv> filter (in_use_at sh) (map (cell_addr (records_in_block (hs_block sh))) [0..<hs_records sh + hs_deleted sh])"
  shows "distinct as" "set as = active sh"
proof -
  show "distinct as" unfolding as_def by (intro distinct_filter) (simp add: distinct_map inj_on_subset [OF inj_cell_addr])
  show "set as = active sh" unfolding as_def active_def used_cells_def by (auto simp: atLeast0LessThan)
qed

end
