(* ===== verification/HeapOpen.thy ===== *)
theory HeapOpen
  imports HeapRead
begin

text \<open>
  The list of heap tables and the list of open handles: heap/hp_open.c, hp_close.c, hp_create.c,
  hp_clear.c, hp_rename.c, hp_panic.c, with hp_info.c and hp_extra.c. The lists are those of
  numbers of structures, a structure that is freed leaves its map. What \<open>my_malloc\<close> and
  \<open>my_strdup\<close> return is an argument; \<open>cache_size\<close> is \<open>my_default_record_cache_size\<close>. The
  functions run under the mutex \<open>THR_LOCK_heap\<close>, one at a time.
\<close>

subsection \<open>Clearing a table\<close>

text \<open>
  The second component of a result lists the chunks of memory that are freed. The numbers of
  freed chunks, their addresses, are given out again from 0.
\<close>

definition free_blocks :: "HP_BLOCK \<Rightarrow> (HP_BLOCK \<times> blkptr list) option" where
  "free_blocks b =
     do {
       freed \<leftarrow> (if levels b \<noteq> 0 then do {
           r \<leftarrow> hb_root b;
           (_, freed) \<leftarrow> hp_free_level b (levels b) r None;
           Some freed
         } else Some []);
       Some (b\<lparr>levels := 0, hp_ptrs := Map.empty, chunks := 0\<rparr>, freed)
     }"

primrec clear_keys :: "HP_KEYDEF list \<Rightarrow> (HP_KEYDEF list \<times> blkptr list list) option" where
  "clear_keys [] = Some ([], [])"
| "clear_keys (kd # kds) =
     do {
       (b, freed) \<leftarrow> free_blocks (kd_block kd);
       (kds, fs) \<leftarrow> clear_keys kds;
       Some (kd\<lparr>kd_block := b\<lparr>last_allocated := 0\<rparr>, kd_cells := []\<rparr> # kds, freed # fs)
     }"

definition hp_clear :: "HP_SHARE \<Rightarrow> (HP_SHARE \<times> blkptr list list) option" where
  "hp_clear sh =
     do {
       (b, freed) \<leftarrow> free_blocks (hs_block sh);
       (kds, fs) \<leftarrow> clear_keys (hs_keydef sh);
       Some (sh\<lparr>hs_block := b, hs_data := Map.empty, hs_keydef := kds, hs_records := 0, hs_deleted := 0,
           hs_data_length := 0, hs_index_length := 0, hs_blength := 1, hs_changed := False, hs_del_link := None\<rparr>, freed # fs)
     }"

subsection \<open>The lists\<close>

record heap_lists =
  share_list :: "nat list"
  shares :: "nat \<rightharpoonup> HP_SHARE"
  open_list :: "nat list"
  handles :: "nat \<rightharpoonup> (nat \<times> HP_INFO)"

primrec find_named :: "(nat \<rightharpoonup> HP_SHARE) \<Rightarrow> string \<Rightarrow> nat list \<Rightarrow> nat option option" where
  "find_named shs name [] = Some None"
| "find_named shs name (i # is) =
     do { sh \<leftarrow> shs i; if name = hs_name sh then Some (Some i) else find_named shs name is }"

definition hp_find_named_heap :: "heap_lists \<Rightarrow> string \<Rightarrow> nat option option" where
  "hp_find_named_heap g name = find_named (shares g) name (share_list g)"

subsection \<open>Opening\<close>

definition fix_key :: "nat \<Rightarrow> nat \<Rightarrow> nat \<Rightarrow> HP_KEYDEF \<Rightarrow> HP_KEYDEF" where
  "fix_key cache_size min_records max_records kd =
     kd\<lparr>kd_length := sum_list (map seg_length (kd_seg kd)), kd_block := init_block cache_size zero_block 16 min_records max_records,
       kd_cells := []\<rparr>"

definition new_share :: "nat \<Rightarrow> string \<Rightarrow> HP_KEYDEF list \<Rightarrow> nat \<Rightarrow> nat \<Rightarrow> nat \<Rightarrow> HP_SHARE" where
  "new_share cache_size name keydef reclength max_records min_records =
     (let kds = map (fix_key cache_size min_records max_records) keydef
      in \<lparr>hs_block = init_block cache_size zero_block (reclength + 1) min_records max_records, hs_data = Map.empty, hs_keydef = kds,
          hs_min_records = min_records, hs_max_records = max_records, hs_data_length = 0, hs_index_length = 0, hs_records = 0,
          hs_blength = 1, hs_deleted = 0, hs_reclength = reclength, hs_changed = False,
          hs_max_key_length = foldl max 0 (map kd_length kds), hs_open_count = 0, hs_del_link = None, hs_name = name,
          hs_delete_on_close = False\<rparr>)"

definition new_info :: "bool \<Rightarrow> int \<Rightarrow> uint \<Rightarrow> HP_SHARE \<Rightarrow> HP_INFO" where
  "new_info dbug errno mode sh =
     \<lparr>hi_current_ptr = None, hi_current_hash_ptr = None, hi_current_record = NOT 0, hi_next_block = 0, hi_lastinx = - 1,
      hi_errkey = - 1, hi_mode = mode, hi_opt_flag = (if dbug then READ_CHECK_USED else 0), hi_update = 0,
      hi_lastkey = replicate (hs_max_key_length sh) 0, hi_errno = errno\<rparr>"

text \<open>
  \<open>share_mem\<close>, \<open>name_mem\<close> and \<open>info_mem\<close> are what the three allocations return, in the order
  of the code. The result is the number of the handle, or null.
\<close>

definition heap_open ::
  "nat \<Rightarrow> bool \<Rightarrow> int \<Rightarrow> nat option \<Rightarrow> bool \<Rightarrow> nat option \<Rightarrow> heap_lists \<Rightarrow> string \<Rightarrow> uint \<Rightarrow> HP_KEYDEF list \<Rightarrow> nat \<Rightarrow> nat \<Rightarrow> nat \<Rightarrow>
    (heap_lists \<times> nat option) option" where
  "heap_open cache_size dbug errno share_mem name_mem info_mem g name mode keydef reclength max_records min_records =
     do {
       found \<leftarrow> hp_find_named_heap g name;
       let (g, share) = (case found of
           Some i \<Rightarrow> (g, Some i)
         | None \<Rightarrow>
             (case share_mem of
                None \<Rightarrow> (g, None)
              | Some i \<Rightarrow>
                  if name_mem
                  then (g\<lparr>share_list := i # share_list g,
                      shares := (shares g)(i \<mapsto> new_share cache_size name keydef reclength max_records min_records)\<rparr>, Some i)
                  else (g, None)));
       case share of
         None \<Rightarrow> Some (g, None)
       | Some i \<Rightarrow>
           (case info_mem of
              None \<Rightarrow> Some (g, None)
            | Some h \<Rightarrow> do {
                sh \<leftarrow> shares g i;
                Some (g\<lparr>shares := (shares g)(i \<mapsto> sh\<lparr>hs_open_count := hs_open_count sh + 1\<rparr>), open_list := h # open_list g,
                    handles := (handles g)(h \<mapsto> (i, new_info dbug errno mode sh))\<rparr>, Some h)
              })
     }"

subsection \<open>Closing and deleting\<close>

definition hp_free :: "heap_lists \<Rightarrow> nat \<Rightarrow> heap_lists option" where
  "hp_free g i =
     do {
       sh \<leftarrow> shares g i;
       _ \<leftarrow> hp_clear sh;
       Some (g\<lparr>share_list := remove1 i (share_list g), shares := (shares g)(i := None)\<rparr>)
     }"

definition hp_close :: "hp_env \<Rightarrow> heap_lists \<Rightarrow> nat \<Rightarrow> (heap_lists \<times> int) option" where
  "hp_close env g h =
     do {
       (i, _) \<leftarrow> handles g h;
       sh \<leftarrow> shares g i;
       crashed \<leftarrow> (if env_dbug env \<and> hs_changed sh then heap_check_heap env sh else Some False);
       let sh = sh\<lparr>hs_changed := False, hs_open_count := hs_open_count sh - 1\<rparr>;
       let g = g\<lparr>open_list := remove1 h (open_list g), shares := (shares g)(i \<mapsto> sh), handles := (handles g)(h := None)\<rparr>;
       g \<leftarrow> (if hs_open_count sh = 0 \<and> hs_delete_on_close sh then hp_free g i else Some g);
       Some (g, if crashed then HA_ERR_CRASHED else 0)
     }"

definition heap_close :: "hp_env \<Rightarrow> heap_lists \<Rightarrow> nat \<Rightarrow> (heap_lists \<times> int) option" where
  "heap_close env g h = hp_close env g h"

text \<open>The last component of a result is the value \<open>my_errno\<close> is set to, if it is.\<close>

definition heap_create :: "heap_lists \<Rightarrow> string \<Rightarrow> (heap_lists \<times> int \<times> int option) option" where
  "heap_create g name =
     do {
       found \<leftarrow> hp_find_named_heap g name;
       case found of
         None \<Rightarrow> Some (g, 0, Some ENOENT)
       | Some i \<Rightarrow> do {
           sh \<leftarrow> shares g i;
           g \<leftarrow> (if hs_open_count sh = 0 then hp_free g i else Some g);
           Some (g, 0, None)
         }
     }"

definition heap_delete_table :: "heap_lists \<Rightarrow> string \<Rightarrow> (heap_lists \<times> int \<times> int option) option" where
  "heap_delete_table g name =
     do {
       found \<leftarrow> hp_find_named_heap g name;
       case found of
         None \<Rightarrow> Some (g, ENOENT, Some ENOENT)
       | Some i \<Rightarrow> do {
           sh \<leftarrow> shares g i;
           g \<leftarrow> (if hs_open_count sh = 0 then hp_free g i
             else Some (g\<lparr>shares := (shares g)(i \<mapsto> sh\<lparr>hs_delete_on_close := True\<rparr>)\<rparr>));
           Some (g, 0, None)
         }
     }"

definition heap_rename :: "bool \<Rightarrow> heap_lists \<Rightarrow> string \<Rightarrow> string \<Rightarrow> (heap_lists \<times> int) option" where
  "heap_rename name_mem g old_name new_name =
     do {
       found \<leftarrow> hp_find_named_heap g old_name;
       case found of
         None \<Rightarrow> Some (g, 0)
       | Some i \<Rightarrow>
           if \<not> name_mem then Some (g, ENOMEM)
           else do {
             sh \<leftarrow> shares g i;
             Some (g\<lparr>shares := (shares g)(i \<mapsto> sh\<lparr>hs_name := new_name\<rparr>)\<rparr>, 0)
           }
     }"

definition heap_clear :: "heap_lists \<Rightarrow> nat \<Rightarrow> heap_lists option" where
  "heap_clear g h =
     do {
       (i, _) \<leftarrow> handles g h;
       sh \<leftarrow> shares g i;
       (sh, _) \<leftarrow> hp_clear sh;
       Some (g\<lparr>shares := (shares g)(i \<mapsto> sh)\<rparr>)
     }"

primrec close_all :: "hp_env \<Rightarrow> nat list \<Rightarrow> heap_lists \<Rightarrow> heap_lists option" where
  "close_all env [] g = Some g"
| "close_all env (h # hs) g = do { (g, _) \<leftarrow> hp_close env g h; close_all env hs g }"

primrec free_unused :: "nat list \<Rightarrow> heap_lists \<Rightarrow> heap_lists option" where
  "free_unused [] g = Some g"
| "free_unused (i # is) g =
     do {
       sh \<leftarrow> shares g i;
       g \<leftarrow> (if hs_open_count sh = 0 then hp_free g i else Some g);
       free_unused is g
     }"

text \<open>The argument says whether the flag is \<open>HA_PANIC_CLOSE\<close>; with the others the loops do nothing.\<close>

definition heap_panic :: "hp_env \<Rightarrow> heap_lists \<Rightarrow> bool \<Rightarrow> heap_lists option" where
  "heap_panic env g close =
     (if close then do { g \<leftarrow> close_all env (open_list g) g; free_unused (share_list g) g } else Some g)"

subsection \<open>Information and flags\<close>

record HEAPINFO =
  x_records :: nat
  x_deleted :: nat
  x_max_records :: nat
  x_data_length :: nat
  x_index_length :: nat
  x_reclength :: nat
  x_errkey :: int

definition heap_info :: "HP_SHARE \<Rightarrow> HP_INFO \<Rightarrow> HEAPINFO" where
  "heap_info sh info =
     \<lparr>x_records = hs_records sh, x_deleted = hs_deleted sh, x_max_records = hs_max_records sh, x_data_length = hs_data_length sh,
      x_index_length = hs_index_length sh, x_reclength = hs_reclength sh, x_errkey = hi_errkey info\<rparr>"

definition heap_position :: "HP_INFO \<Rightarrow> haddr option" where
  "heap_position info = (if hi_update info AND HA_STATE_AKTIV \<noteq> 0 then hi_current_ptr info else None)"

definition heap_position_old :: "HP_INFO \<Rightarrow> ulong" where
  "heap_position_old info = (if hi_update info AND HA_STATE_AKTIV \<noteq> 0 then hi_current_record info else NOT 0)"

datatype ha_extra_function = HA_EXTRA_RESET | HA_EXTRA_RESET_STATE | HA_EXTRA_NO_READCHECK | HA_EXTRA_READCHECK | Other_extra nat

definition heap_extra :: "HP_INFO \<Rightarrow> ha_extra_function \<Rightarrow> HP_INFO" where
  "heap_extra info f =
     (case f of
        HA_EXTRA_RESET \<Rightarrow> info\<lparr>hi_lastinx := - 1, hi_current_record := NOT 0, hi_current_hash_ptr := None, hi_update := 0\<rparr>
      | HA_EXTRA_RESET_STATE \<Rightarrow> info\<lparr>hi_lastinx := - 1, hi_current_record := NOT 0, hi_current_hash_ptr := None, hi_update := 0\<rparr>
      | HA_EXTRA_NO_READCHECK \<Rightarrow> info\<lparr>hi_opt_flag := hi_opt_flag info AND NOT READ_CHECK_USED\<rparr>
      | HA_EXTRA_READCHECK \<Rightarrow> info\<lparr>hi_opt_flag := hi_opt_flag info OR READ_CHECK_USED\<rparr>
      | Other_extra _ \<Rightarrow> info)"

end
