(* ===== verification/HeapFreeSpec.thy ===== *)
theory HeapFreeSpec
  imports HeapBlockSpec "HOL-Library.Multiset"
begin

text \<open>
  \<open>_hp_free_level\<close> calls \<open>my_free\<close> once for every chunk of memory of an \<open>HP_BLOCK\<close>: a structure
  inside a chunk, which the walk reaches at the address \<open>last_pos\<close>, is freed with the chunk.
\<close>

definition free_child :: "HP_BLOCK \<Rightarrow> nat \<Rightarrow> (nat \<rightharpoonup> blkptr) \<Rightarrow> nat \<Rightarrow> (haddr option \<times> blkptr list) option \<Rightarrow>
    (haddr option \<times> blkptr list) option" where
  "free_child b level blocks i st = do {
     (next_ptr, freed) \<leftarrow> st;
     p \<leftarrow> blocks i;
     (next_ptr, fr) \<leftarrow> hp_free_level b level p next_ptr;
     Some (next_ptr, freed @ fr) }"

lemma hp_free_level_data:
  "hp_free_level b (Suc 0) pos lp = Some (if Some (pos, 0) \<noteq> lp then (lp, [pos]) else (Some (pos, recbuffer b), []))"
  by (simp add: hp_free_level.simps)

lemma hp_free_level_node:
  assumes "level_at b (Suc i) = Some l" "hp_ptrs b pos = Some blocks"
  shows "hp_free_level b (Suc (Suc i)) pos lp = do {
     (next_ptr, freed) \<leftarrow> fold (free_child b (Suc i) blocks)
        [0..<(if last_blocks l = Some pos then HP_PTRS_IN_NOD - free_ptrs_in_block l else HP_PTRS_IN_NOD)]
        (Some (Some ((fst pos, snd pos + 1), 0), []));
     Some (if Some (pos, 0) \<noteq> lp then (lp, freed @ [pos]) else (next_ptr, freed)) }"
proof -
  have "free_child b (Suc i) blocks = (\<lambda>j st. do {
                (next_ptr, freed) \<leftarrow> st;
                p \<leftarrow> blocks j;
                (next_ptr, fr) \<leftarrow> hp_free_level b (Suc i) p next_ptr;
                Some (next_ptr, freed @ fr) })"
    by (intro ext) (simp add: free_child_def)
  then show ?thesis
    by (subst hp_free_level.simps) (simp add: assms Let_def if_distrib split_def cong: if_cong)
qed

text \<open>The data blocks below a node, and the chunk the node lies in.\<close>

definition below :: "nat \<Rightarrow> nat \<Rightarrow> nat \<Rightarrow> nat set" where
  "below n i m = {x. m * 128 ^ i \<le> x \<and> x < (m + 1) * 128 ^ i \<and> x < n}"

lemma node_in_below:
  assumes "m * 128 ^ i < n" "i \<noteq> 0 \<Longrightarrow> 128 ^ (i - 1) < n"
  shows "fst (node_at i m) \<in> below n i m"
  using assms by (cases i) (auto simp: below_def node_at_def)

text \<open>Which child of a node lies in the same chunk, and where the others begin.\<close>

lemma child_in_chunk:
  assumes i: "1 \<le> i"
  shows "node_at (i - 1) (m * 128 + (if m = 0 then 1 else 0)) = (fst (node_at i m), snd (node_at i m) + 1)"
proof -
  obtain k where k: "i = Suc k" using i by (cases i) auto
  show ?thesis
  proof (cases "m = 0")
    case True
    then show ?thesis using val128_pow [of k] by (simp add: k node_at_def)
  next
    case False
    define N where "N = m * 128 ^ Suc k"
    have "128 ^ Suc k dvd N" "0 < N" using False by (simp_all add: N_def)
    then have v: "Suc k \<le> val128 N" by (simp add: val128_dvd [symmetric])
    have e: "m * 128 * 128 ^ k = N" by (simp add: N_def)
    have "node_at k (m * 128) = (N, val128 N - k + (if N = 128 ^ val128 N then 1 else 0))"
      using False unfolding node_at_def e by simp
    moreover have "node_at (Suc k) m = (N, val128 N - Suc k + (if N = 128 ^ val128 N then 1 else 0))"
      using False unfolding node_at_def N_def [symmetric] by simp
    ultimately show ?thesis using False v by (simp add: k)
  qed
qed

lemma child_own_chunk:
  assumes i: "1 \<le> i" and j: "j < 128" "j \<noteq> (if m = 0 then 1 else 0)"
  shows "snd (node_at (i - 1) (m * 128 + j)) = 0"
proof -
  obtain k where k: "i = Suc k" using i by (cases i) auto
  show ?thesis
  proof (cases "m * 128 + j = 0")
    case True
    then show ?thesis by (simp add: node_at_def)
  next
    case False
    with j have j0: "j \<noteq> 0" by (auto split: if_splits)
    have "\<not> 128 ^ Suc k dvd (m * 128 + j) * 128 ^ k"
    proof
      assume "128 ^ Suc k dvd (m * 128 + j) * 128 ^ k"
      then have "128 dvd m * 128 + j" by simp
      then have "(m * 128 + j) mod 128 = 0" by (rule dvd_imp_mod_0)
      with j(1) j0 show False by simp
    qed
    moreover have "128 ^ k dvd (m * 128 + j) * 128 ^ k" by simp
    ultimately have "val128 ((m * 128 + j) * 128 ^ k) = k"
      using False by (metis val128_dvd Suc_leI le_neq_implies_less mult_pos_pos neq0_conv power_not_zero rel_simps(76))
    moreover have "(m * 128 + j) * 128 ^ k \<noteq> 128 ^ k" using j j0 by auto
    ultimately show ?thesis using False by (simp add: k node_at_def)
  qed
qed

lemma below_child:
  assumes "1 \<le> i"
  shows "below n (i - 1) (m * 128 + j) = {x. (m * 128 + j) * 128 ^ (i - 1) \<le> x \<and> x < (m * 128 + (j + 1)) * 128 ^ (i - 1) \<and> x < n}"
  by (simp add: below_def add.assoc)

subsection \<open>The walk\<close>

definition children :: "HP_BLOCK \<Rightarrow> nat \<Rightarrow> nat \<Rightarrow> nat" where
  "children b i m = (if last_blocks (level_infos b ! i) = Some (node_at i m)
     then HP_PTRS_IN_NOD - free_ptrs_in_block (level_infos b ! i) else HP_PTRS_IN_NOD)"

lemma children_iff:
  assumes wf: "block_wf b" and n: "chunks b \<noteq> 0" and i: "1 \<le> i" "i < levels b" and m: "m * 128 ^ i < chunks b"
  shows "j < children b i m \<longleftrightarrow> j < 128 \<and> (m * 128 + j) * 128 ^ (i - 1) < chunks b"
proof -
  define P :: nat where "P = 128 ^ (i - 1)"
  define d where "d = (chunks b - 1) div P"
  have P0: "0 < P" by (simp add: P_def)
  have Pi: "128 ^ i = P * 128" using i(1) by (cases i) (simp_all add: P_def)
  have dd: "(chunks b - 1) div 128 ^ i = d div 128" unfolding Pi d_def by (rule div_mult2_eq)
  have lt: "x * P < chunks b \<longleftrightarrow> x \<le> d" for x
    using n P0 by (simp add: d_def less_eq_div_iff_mult_less_eq) linarith
  have ok: "level_ok b i" by (rule block_wfD(10) [OF wf n i(2)])
  then have L: "last_blocks (level_infos b ! i) = Some (node_at i (d div 128))" "free_ptrs_in_block (level_infos b ! i) = 127 - d mod 128"
    using ok [unfolded level_ok_def dd, folded P_def, folded d_def] i(1) by simp_all
  have md: "m \<le> d div 128" using m unfolding Pi using lt [of "m * 128"] by (simp add: ac_simps less_eq_div_iff_mult_less_eq)
  have eq: "node_at i (d div 128) = node_at i m \<longleftrightarrow> m = d div 128" using node_at_inj [of i "d div 128" i m] i(1) by auto
  have "j < children b i m \<longleftrightarrow> j < 128 \<and> m * 128 + j \<le> d"
  proof (cases "m = d div 128")
    case True
    have "d mod 128 < 128" by simp
    with True have "children b i m = d mod 128 + 1" by (simp add: children_def L HP_PTRS_IN_NOD_def)
    moreover have "d = m * 128 + d mod 128" unfolding True by simp
    ultimately show ?thesis using \<open>d mod 128 < 128\<close> by linarith
  next
    case False
    with md have "m < d div 128" by simp
    then have "(m + 1) * 128 \<le> d div 128 * 128" by simp
    also have "\<dots> \<le> d" by simp
    finally have "m * 128 + j \<le> d" if "j < 128" using that by simp
    with False eq show ?thesis by (auto simp: children_def L HP_PTRS_IN_NOD_def)
  qed
  then show ?thesis unfolding P_def [symmetric] lt .
qed

text \<open>What freeing a node does: \<open>F\<close> are the chunks of the data blocks below it that are not its own.\<close>

definition freed_below :: "nat \<Rightarrow> nat \<Rightarrow> nat \<Rightarrow> blkptr list \<Rightarrow> bool" where
  "freed_below n i m F \<longleftrightarrow> distinct F \<and> (\<forall>p \<in> set F. snd p = 0) \<and> fst ` set F = below n i m - {fst (node_at i m)}"

definition frees_node :: "HP_BLOCK \<Rightarrow> nat \<Rightarrow> nat \<Rightarrow> bool" where
  "frees_node b i m \<longleftrightarrow> (\<forall>lp. lp \<noteq> Some (node_at i m, 0) \<longrightarrow> snd (node_at i m) = 0 \<longrightarrow>
      (\<exists>F. hp_free_level b (Suc i) (node_at i m) lp = Some (lp, F @ [node_at i m]) \<and> freed_below (chunks b) i m F)) \<and>
    (\<exists>F k o'. hp_free_level b (Suc i) (node_at i m) (Some (node_at i m, 0)) = Some (Some ((fst (node_at i m), k), o'), F) \<and>
       freed_below (chunks b) i m F)"

lemma range_split: "(a :: nat) \<le> b \<Longrightarrow> b \<le> c \<Longrightarrow> {x. a \<le> x \<and> x < c \<and> x < n} = {x. a \<le> x \<and> x < b \<and> x < n} \<union> {x. b \<le> x \<and> x < c \<and> x < n}"
  by auto

lemma frees_children:
  assumes wf: "block_wf b" and n: "chunks b \<noteq> 0" and i: "Suc i < levels b" and m: "m * 128 ^ Suc i < chunks b"
    and IH: "\<And>m'. m' * 128 ^ i < chunks b \<Longrightarrow> frees_node b i m'"
    and bl: "\<And>j. j < 128 \<Longrightarrow> (m * 128 + j) * 128 ^ i < chunks b \<Longrightarrow> bl j = Some (node_at i (m * 128 + j))"
    and t: "t \<le> children b (Suc i) m"
  shows "\<exists>F k o'. fold (free_child b (Suc i) bl) [0..<t] (Some (Some ((fst (node_at (Suc i) m), snd (node_at (Suc i) m) + 1), 0), [])) =
      Some (Some ((fst (node_at (Suc i) m), k), o'), F) \<and> distinct F \<and> (\<forall>p \<in> set F. snd p = 0) \<and>
      fst ` set F = {x. m * 128 ^ Suc i \<le> x \<and> x < (m * 128 + t) * 128 ^ i \<and> x < chunks b} - {fst (node_at (Suc i) m)} \<and>
      (t \<le> (if m = 0 then 1 else 0) \<longrightarrow> k = snd (node_at (Suc i) m) + 1 \<and> o' = 0)"
  using t
proof (induction t)
  case 0
  then show ?case by auto
next
  case (Suc t)
  let ?c = "fst (node_at (Suc i) m)" and ?k = "snd (node_at (Suc i) m)" and ?M = "m * 128 + t" and ?jc = "if m = 0 then 1 else 0 :: nat"
  obtain F k o' where S: "fold (free_child b (Suc i) bl) [0..<t] (Some (Some ((?c, ?k + 1), 0), [])) = Some (Some ((?c, k), o'), F)"
    "distinct F" "\<forall>p \<in> set F. snd p = 0"
    "fst ` set F = {x. m * 128 ^ Suc i \<le> x \<and> x < ?M * 128 ^ i \<and> x < chunks b} - {?c}"
    "t \<le> ?jc \<longrightarrow> k = ?k + 1 \<and> o' = 0"
    using Suc by auto
  have one: "1 \<le> Suc i" by simp
  have t128: "t < 128" "?M * 128 ^ i < chunks b" using children_iff [OF wf n one i m, of t] Suc.prems by simp_all
  have small: "i \<noteq> 0 \<Longrightarrow> 128 ^ (i - 1) < chunks b" "128 ^ i < chunks b"
  proof -
    have "128 ^ (levels b - 2) < chunks b" using block_wfD(7) [OF wf n] i by (simp add: tree_levels_def)
    moreover have "(128 :: nat) ^ i \<le> 128 ^ (levels b - 2)" "(128 :: nat) ^ (i - 1) \<le> 128 ^ (levels b - 2)"
      using i by (simp_all add: power_increasing)
    ultimately show "128 ^ i < chunks b" "i \<noteq> 0 \<Longrightarrow> 128 ^ (i - 1) < chunks b" by linarith+
  qed
  have own: "fst (node_at i ?M) \<in> below (chunks b) i ?M" by (rule node_in_below [OF t128(2) small(1)])
  have cin: "?c \<in> below (chunks b) (Suc i) m" using m small(2) by (intro node_in_below) simp_all
  have M: "m * 128 ^ Suc i \<le> ?M * 128 ^ i" by simp
  have ext: "{x. m * 128 ^ Suc i \<le> x \<and> x < (m * 128 + Suc t) * 128 ^ i \<and> x < chunks b} =
      {x. m * 128 ^ Suc i \<le> x \<and> x < ?M * 128 ^ i \<and> x < chunks b} \<union> below (chunks b) i ?M"
  proof -
    have C: "(m * 128 + Suc t) * 128 ^ i = (?M + 1) * 128 ^ i" by simp
    show ?thesis unfolding below_def C by (rule range_split [OF M]) simp
  qed
  have disj: "{x. m * 128 ^ Suc i \<le> x \<and> x < ?M * 128 ^ i \<and> x < chunks b} \<inter> below (chunks b) i ?M = {}"
    by (auto simp: below_def)
  have run: "fold (free_child b (Suc i) bl) [0..<Suc t] (Some (Some ((?c, ?k + 1), 0), [])) =
      do { (nx, fr) \<leftarrow> hp_free_level b (Suc i) (node_at i ?M) (Some ((?c, k), o')); Some (nx, F @ fr) }"
    using S(1) bl [OF t128] by (simp add: free_child_def)
  show ?case
  proof (cases "t = ?jc")
    case True
    have addr: "node_at i ?M = (?c, ?k + 1)" using child_in_chunk [OF one, of m] True by simp
    with True S(5) have lp: "Some ((?c, k), o') = Some (node_at i ?M, 0)" by simp
    obtain F' k' o2 where C: "hp_free_level b (Suc i) (node_at i ?M) (Some (node_at i ?M, 0)) = Some (Some ((fst (node_at i ?M), k'), o2), F')"
       "freed_below (chunks b) i ?M F'"
      using IH [OF t128(2)] unfolding frees_node_def by blast
    have fst: "fst (node_at i ?M) = ?c" using addr by simp
    have F': "distinct F'" "\<forall>p \<in> set F'. snd p = 0" "fst ` set F' = below (chunks b) i ?M - {?c}"
      using C(2) by (simp_all add: freed_below_def fst)
    have "distinct (F @ F')"
    proof -
      have "fst ` set F \<inter> fst ` set F' = {}" using S(4) F'(3) disj by blast
      then show ?thesis using S(2) F'(1) by auto
    qed
    moreover have "fst ` set (F @ F') = {x. m * 128 ^ Suc i \<le> x \<and> x < (m * 128 + Suc t) * 128 ^ i \<and> x < chunks b} - {?c}"
      unfolding ext using S(4) F'(3) by auto
    moreover have "\<not> Suc t \<le> ?jc" using True by simp
    ultimately show ?thesis unfolding run lp C(1) fst using S(3) F'(2) by (auto simp del: split_paired_Ex)
  next
    case False
    have z: "snd (node_at i ?M) = 0" using child_own_chunk [OF one t128(1) False] by simp
    have cb: "?c \<notin> below (chunks b) i ?M"
    proof
      assume "?c \<in> below (chunks b) i ?M"
      have "fst (node_at i (m * 128 + ?jc)) = ?c" using child_in_chunk [OF one, of m] by simp
      moreover have "(m * 128 + ?jc) * 128 ^ i < chunks b" using m small(2) by (cases "m = 0") simp_all
      ultimately have "?c \<in> below (chunks b) i (m * 128 + ?jc)" using node_in_below [OF _ small(1)] by metis
      with \<open>?c \<in> below (chunks b) i ?M\<close>
      have r: "(m * 128 + ?jc) * 128 ^ i < (?M + 1) * 128 ^ i" "?M * 128 ^ i < (m * 128 + ?jc + 1) * 128 ^ i"
        unfolding below_def by simp_all
      then have "m * 128 + ?jc < ?M + 1" "?M < m * 128 + ?jc + 1" by (simp_all only: mult_less_cancel2)
      with False show False by simp
    qed
    have lp: "Some ((?c, k), o') \<noteq> Some (node_at i ?M, 0)"
    proof
      assume "Some ((?c, k), o') = Some (node_at i ?M, 0)"
      then have "fst (node_at i ?M) = ?c" by (metis fst_conv option.inject)
      with own cb show False by simp
    qed
    obtain F' where C: "hp_free_level b (Suc i) (node_at i ?M) (Some ((?c, k), o')) = Some (Some ((?c, k), o'), F' @ [node_at i ?M])"
      "freed_below (chunks b) i ?M F'"
      using IH [OF t128(2)] lp z unfolding frees_node_def by blast
    have F': "distinct F'" "\<forall>p \<in> set F'. snd p = 0" "fst ` set F' = below (chunks b) i ?M - {fst (node_at i ?M)}"
      using C(2) by (simp_all add: freed_below_def)
    have full: "fst ` set (F' @ [node_at i ?M]) = below (chunks b) i ?M" using F'(3) own by auto
    have "distinct (F @ F' @ [node_at i ?M])"
    proof -
      have "fst ` set F \<inter> fst ` set (F' @ [node_at i ?M]) = {}" unfolding full using S(4) disj by blast
      then have "set F \<inter> set (F' @ [node_at i ?M]) = {}" by blast
      moreover have "node_at i ?M \<notin> set F'" using F'(3) by blast
      ultimately show ?thesis using S(2) F'(1) by auto
    qed
    moreover have "fst ` set (F @ F' @ [node_at i ?M]) = {x. m * 128 ^ Suc i \<le> x \<and> x < (m * 128 + Suc t) * 128 ^ i \<and> x < chunks b} - {?c}"
    proof -
      have "fst ` set (F @ F' @ [node_at i ?M]) = fst ` set F \<union> below (chunks b) i ?M" using full by auto
      then show ?thesis unfolding ext S(4) using cb by blast
    qed
    moreover have "Suc t \<le> ?jc \<longrightarrow> k = ?k + 1 \<and> o' = 0" using S(5) by simp
    ultimately show ?thesis unfolding run C(1) using S(3) F'(2) z by (auto simp del: split_paired_Ex)
  qed
qed

lemma frees_all_nodes:
  assumes wf: "block_wf b" and n: "chunks b \<noteq> 0"
  shows "i < levels b \<Longrightarrow> m * 128 ^ i < chunks b \<Longrightarrow> frees_node b i m"
proof (induction i arbitrary: m)
  case 0
  then have "below (chunks b) 0 m = {m}" by (auto simp: below_def)
  then have "freed_below (chunks b) 0 m []" by (simp add: freed_below_def node_at_data)
  moreover have "\<exists>k. node_at 0 m = (fst (node_at 0 m), k)" by (metis prod.collapse)
  ultimately show ?case unfolding frees_node_def by (auto simp: hp_free_level_data simp del: split_paired_Ex split_paired_All)
next
  case (Suc i)
  have IH: "frees_node b i m'" if "m' * 128 ^ i < chunks b" for m' using Suc.IH [of m'] Suc.prems(1) that by simp
  have one: "1 \<le> Suc i" by simp
  obtain bl where bl: "hp_ptrs b (node_at (Suc i) m) = Some bl"
    "\<And>j. j < 128 \<Longrightarrow> (m * 128 + j) * 128 ^ i < chunks b \<Longrightarrow> bl j = Some (node_at i (m * 128 + j))"
    using block_wfD(11) [OF wf n one Suc.prems] by (auto simp: node_ok_def)
  have lv: "level_at b (Suc i) = Some (level_infos b ! Suc i)"
    using block_wfD(1,8) [OF wf] Suc.prems(1) by (simp add: level_at_def)
  let ?c = "fst (node_at (Suc i) m)" and ?t = "children b (Suc i) m"
  obtain F k o' where S: "fold (free_child b (Suc i) bl) [0..<?t] (Some (Some ((?c, snd (node_at (Suc i) m) + 1), 0), [])) =
      Some (Some ((?c, k), o'), F)" "distinct F" "\<forall>p \<in> set F. snd p = 0"
    "fst ` set F = {x. m * 128 ^ Suc i \<le> x \<and> x < (m * 128 + ?t) * 128 ^ i \<and> x < chunks b} - {?c}"
    using frees_children [OF wf n Suc.prems IH bl(2) order.refl] by blast
  have "{x. m * 128 ^ Suc i \<le> x \<and> x < (m * 128 + ?t) * 128 ^ i \<and> x < chunks b} = below (chunks b) (Suc i) m"
  proof (cases "?t < 128")
    case True
    then have "chunks b \<le> (m * 128 + ?t) * 128 ^ i" using children_iff [OF wf n one Suc.prems, of ?t] by simp
    moreover have "(m * 128 + ?t) * 128 ^ i \<le> (m + 1) * 128 ^ Suc i"
    proof -
      have "(m * 128 + ?t) * 128 ^ i \<le> ((m + 1) * 128) * 128 ^ i" using True by (intro mult_le_mono1) simp
      then show ?thesis by (simp only: power_Suc mult.assoc)
    qed
    ultimately have "chunks b \<le> (m * 128 + ?t) * 128 ^ i" "chunks b \<le> (m + 1) * 128 ^ Suc i" by simp_all
    then show ?thesis unfolding below_def by (intro Collect_cong) (metis less_le_trans)
  next
    case False
    have "?t \<le> 128" using children_iff [OF wf n one Suc.prems, of 128] by simp
    with False have "?t = 128" by simp
    then have "(m * 128 + ?t) * 128 ^ i = (m + 1) * 128 ^ Suc i"
      by (simp only: power_Suc mult.assoc [symmetric]) simp
    then show ?thesis unfolding below_def by simp
  qed
  then have fb: "freed_below (chunks b) (Suc i) m F" using S(2-4) by (simp add: freed_below_def)
  note step = hp_free_level_node [OF lv bl(1), folded children_def]
  have "hp_free_level b (Suc (Suc i)) (node_at (Suc i) m) lp =
      Some (if Some (node_at (Suc i) m, 0) \<noteq> lp then (lp, F @ [node_at (Suc i) m]) else (Some ((?c, k), o'), F))" for lp
    unfolding step S(1) by simp
  then show ?case using fb unfolding frees_node_def by (auto simp del: split_paired_Ex split_paired_All)
qed

text \<open>All of it: every chunk is freed at its beginning, once.\<close>

lemma hp_free_level_correct:
  assumes wf: "block_wf b" and n: "chunks b \<noteq> 0"
  shows "\<exists>r fs. hb_root b = Some r \<and> hp_free_level b (levels b) r None = Some (None, fs) \<and> mset fs = mset_set ((\<lambda>c. (c, 0)) ` {..<chunks b})"
proof -
  obtain i where i: "levels b = Suc i" using block_wfD(7) [OF wf n] by (cases "levels b") (auto simp: tree_levels_def)
  have cap: "chunks b \<le> 128 ^ i" using block_wfD(7) [OF wf n] i by (simp add: tree_levels_def)
  have "frees_node b i 0" by (rule frees_all_nodes [OF wf n]) (use i n in simp_all)
  moreover have "snd (node_at i 0) = 0" by (simp add: node_at_def)
  ultimately obtain F where F: "hp_free_level b (Suc i) (node_at i 0) None = Some (None, F @ [node_at i 0])" "freed_below (chunks b) i 0 F"
    unfolding frees_node_def by (metis option.distinct(1))
  have bl: "below (chunks b) i 0 = {..<chunks b}" using cap by (auto simp: below_def)
  have own: "fst (node_at i 0) \<in> {..<chunks b}"
  proof -
    have "fst (node_at i 0) \<in> below (chunks b) i 0"
    proof (rule node_in_below)
      assume "i \<noteq> 0"
      then show "128 ^ (i - 1) < chunks b" using block_wfD(7) [OF wf n] i by (cases i) (simp_all add: tree_levels_def)
    qed (use n in simp)
    then show ?thesis unfolding bl .
  qed
  let ?fs = "F @ [node_at i 0]"
  have z: "\<forall>p \<in> set ?fs. snd p = 0" using F(2) by (auto simp: freed_below_def node_at_def)
  have "distinct ?fs" using F(2) by (auto simp: freed_below_def)
  then have "mset ?fs = mset_set (set ?fs)" by (simp only: mset_set_set)
  moreover have "set ?fs = (\<lambda>c. (c, 0)) ` {..<chunks b}"
  proof -
    have "fst ` set ?fs = {..<chunks b}" using F(2) own unfolding freed_below_def bl by auto
    moreover have "set ?fs = (\<lambda>c. (c, 0)) ` fst ` set ?fs"
    proof -
      have "(\<lambda>c. (c, 0)) ` fst ` set ?fs = id ` set ?fs"
        unfolding image_image by (rule image_cong) (use z in \<open>auto simp: prod_eq_iff\<close>)
      then show ?thesis by simp
    qed
    ultimately show ?thesis by simp
  qed
  ultimately show ?thesis using F(1) block_wfD(9) [OF wf n] i by auto
qed

end
