(* ===== verification/HeapOpenSpec.thy ===== *)
theory HeapOpenSpec
  imports HeapOpen HeapFreeSpec
begin

text \<open>
  A table made by \<open>heap_open\<close> satisfies the invariant and has no rows; clearing one gives such a
  table again and frees its memory.
\<close>

subsection \<open>A new table\<close>

lemma under_level_exact:
  assumes "rib * 128 ^ 2 < 2 ^ 32" "i \<le> 4" "128 ^ i \<le> block_cap rib"
  shows "under_level rib i = (if i = 0 then 1 else rib * 128 ^ (i - 1))"
proof -
  have b: "rib * 128 < 2 ^ 32" "rib * 16384 < 2 ^ 32" using assms(1) by simp_all
  have c: "rib * 2097152 < 2 ^ 32" if "i = 4"
    using assms(3) that by (simp add: block_cap_def split: if_splits)
  from assms(2) consider "i = 0" | "i = 1" | "i = 2" | "i = 3" | "i = 4" by linarith
  then show ?thesis
  proof cases
    case 5
    note c = c [OF 5]
    have e4: "(4 :: nat) = Suc (Suc (Suc (Suc 0)))" by simp
    have "under_level rib 4 = rib * 2097152"
      unfolding e4 using b c by (simp add: HP_PTRS_IN_NOD_def)
    then show ?thesis using 5 by simp
  qed (use b in \<open>simp_all add: HP_PTRS_IN_NOD_def numeral_2_eq_2 numeral_3_eq_3\<close>)
qed

lemma init_block_fields:
  "levels (init_block cs b l mn mx) = levels b" "chunks (init_block cs b l mn mx) = chunks b"
  "last_allocated (init_block cs b l mn mx) = 0" "recbuffer (init_block cs b l mn mx) = (l + 8 - 1) div 8 * 8"
  by (simp_all add: init_block_def Let_def)

text \<open>The bound says that the third level counts in 32 bits; the next lemma gives it for any usual size.\<close>

lemma init_block_wf:
  assumes "records_in_block (init_block cs zero_block l mn mx) * 128 ^ 2 < 2 ^ 32" "0 < records_in_block (init_block cs zero_block l mn mx)"
  shows "block_wf (init_block cs zero_block l mn mx)"
proof -
  define rib where "rib = records_in_block (init_block cs zero_block l mn mx)"
  define b where "b = init_block cs zero_block l mn mx"
  have li: "level_infos b = map (\<lambda>i. (level_infos zero_block ! i)\<lparr>records_under_level := under_level rib i\<rparr>) [0..<HP_MAX_LEVELS + 1]"
    by (simp add: b_def rib_def init_block_def Let_def)
  have n: "level_infos b ! i = (level_infos zero_block ! i)\<lparr>records_under_level := under_level rib i\<rparr>" if "i \<le> 4" for i
    unfolding li using that by (simp add: HP_MAX_LEVELS_def nth_map del: upt_Suc)
  have "records_under_level (level_infos b ! i) = (if i = 0 then 1 else rib * 128 ^ (i - 1))"
    if "i \<le> HP_MAX_LEVELS" "128 ^ i \<le> block_cap rib" for i
    using n [of i] under_level_exact [of rib i] assms(1) that by (simp add: HP_MAX_LEVELS_def rib_def)
  moreover have "free_ptrs_in_block (level_infos b ! 0) = 0" using n [of 0] by (simp add: zero_block_def HP_MAX_LEVELS_def)
  moreover have "length (level_infos b) = HP_MAX_LEVELS + 1" by (simp add: li)
  moreover have "chunks b = 0" "levels b = 0" by (simp_all add: b_def init_block_fields zero_block_def)
  moreover have "records_in_block b = rib" by (simp add: b_def rib_def)
  ultimately have "block_wf b" using assms(2) by (simp add: block_wf_def rib_def)
  then show ?thesis by (simp add: b_def)
qed

lemma init_block_bounds:
  assumes "cs \<le> 2 ^ 20" "0 < l"
  shows "records_in_block (init_block cs zero_block l mn mx) * 128 ^ 2 < 2 ^ 32" "0 < records_in_block (init_block cs zero_block l mn mx)"
proof -
  define rec where "rec = (l + 8 - 1) div 8 * 8"
  define c where "c = cs - hp_ptrs_size * HP_MAX_LEVELS"
  have r8: "8 \<le> rec" using assms(2) by (simp add: rec_def)
  have c20: "c \<le> 2 ^ 20" using assms(1) by (simp add: c_def)
  define rib0 where "rib0 = (let m = max mn mx; m = (if m = 0 then 1000 else m); r = m div 10 in if r < 10 \<and> m \<noteq> 0 then 10 else r)"
  have rib: "records_in_block (init_block cs zero_block l mn mx) = (if rib0 = 0 \<or> c < rib0 * rec then c div rec + 1 else rib0)"
    by (simp add: init_block_def Let_def rib0_def rec_def c_def)
  then show "0 < records_in_block (init_block cs zero_block l mn mx)" by simp
  have "c div rec \<le> c div 8" using r8 by (intro div_le_mono2) simp_all
  then have a: "c div rec + 1 \<le> 131073" using c20 by simp
  have "rib0 \<le> 131072" if "\<not> c < rib0 * rec"
  proof -
    have "rib0 * 8 \<le> rib0 * rec" using r8 by (rule mult_le_mono2)
    moreover have "rib0 * rec \<le> 1048576" using that c20 by simp
    ultimately show ?thesis by linarith
  qed
  with a have "records_in_block (init_block cs zero_block l mn mx) \<le> 131073" unfolding rib by auto
  then show "records_in_block (init_block cs zero_block l mn mx) * 128 ^ 2 < 2 ^ 32" by simp
qed

lemma empty_key_wf:
  assumes "block_wf (kd_block kd)" "chunks (kd_block kd) = 0" "last_allocated (kd_block kd) = 0" "kd_cells kd = []"
  shows "index_ok so rd 1 0 {} kd"
proof -
  have "link_wf h [] 1 0" for h :: "haddr \<Rightarrow> nat"
    by (auto simp: link_wf_def chains_def table_size_zero intro: exI [of _ "\<lambda>_. []"])
  then show ?thesis
    using assms block_wfD(2) [OF assms(1)]
    by (simp add: index_ok_def index_wf_def unique_keys_def key_wf_def key_room_wf_def Let_def room_def key_recs_def recs_def)
qed

text \<open>A table without rows, as \<open>heap_open\<close> and \<open>_hp_clear\<close> make it.\<close>

lemma empty_share_inv:
  assumes "block_wf (hs_block sh)" "chunks (hs_block sh) = 0" "hs_records sh = 0" "hs_deleted sh = 0" "hs_blength sh = 1"
    "hs_del_link sh = None" "ptr_ok env (records_in_block (hs_block sh))" "8 \<le> hs_reclength sh" "hs_reclength sh < recbuffer (hs_block sh)"
    "\<And>kd. kd \<in> set (hs_keydef sh) \<Longrightarrow> block_wf (kd_block kd) \<and> chunks (kd_block kd) = 0 \<and> last_allocated (kd_block kd) = 0 \<and>
       kd_cells kd = [] \<and> key_fits (hs_reclength sh) kd"
  shows "share_inv env sh {} []"
proof -
  have "data_ok env sh 0 {} []"
    using assms(1,2,4,6-9) block_wfD(2) [OF assms(1)]
    by (simp add: data_ok_def sizes_ok_def cells_exist_def room_def used_cells_def)
  moreover have "used_cells (hs_block sh) 0 = {}" by (simp add: used_cells_def)
  moreover have "table_size 1 0" by (simp add: table_size_zero)
  ultimately show ?thesis using assms(3-5,10) empty_key_wf by (simp add: share_inv_def)
qed

lemma share_inv_empty_rows: "share_inv env sh {} [] \<Longrightarrow> table_rows sh = Map.empty"
  using table_rows_inv by fastforce

lemma new_share_correct:
  assumes "cs \<le> 2 ^ 20" "8 \<le> reclength" "ptr_ok env (records_in_block (init_block cs zero_block (reclength + 1) mn mx))"
    "\<And>kd. kd \<in> set keydef \<Longrightarrow> key_fits reclength kd"
  shows "share_wf env (new_share cs name keydef reclength mx mn)" "table_rows (new_share cs name keydef reclength mx mn) = Map.empty"
    "has_room (new_share cs name keydef reclength mx mn)"
proof -
  let ?sh = "new_share cs name keydef reclength mx mn" and ?b = "init_block cs zero_block (reclength + 1) mn mx"
  have f: "hs_block ?sh = ?b" "hs_records ?sh = 0" "hs_deleted ?sh = 0" "hs_blength ?sh = 1" "hs_del_link ?sh = None"
    "hs_reclength ?sh = reclength" "hs_keydef ?sh = map (fix_key cs mn mx) keydef"
    by (simp_all add: new_share_def Let_def)
  have wf: "block_wf (init_block cs zero_block l mn mx)" if "0 < l" for l
    by (rule init_block_wf [OF init_block_bounds [OF assms(1) that]])
  have z: "chunks (init_block cs zero_block l mn mx) = 0" for l by (simp add: init_block_fields zero_block_def)
  have inv: "share_inv env ?sh {} []"
  proof (rule empty_share_inv)
    show "block_wf (hs_block ?sh)" "chunks (hs_block ?sh) = 0" using wf z by (simp_all add: f)
    show "ptr_ok env (records_in_block (hs_block ?sh))" using assms(3) by (simp add: f)
    show "hs_reclength ?sh < recbuffer (hs_block ?sh)" by (simp add: f init_block_fields)
    fix kd assume "kd \<in> set (hs_keydef ?sh)"
    then obtain k where k: "k \<in> set keydef" "kd = fix_key cs mn mx k" by (auto simp: f)
    then show "block_wf (kd_block kd) \<and> chunks (kd_block kd) = 0 \<and> last_allocated (kd_block kd) = 0 \<and>
       kd_cells kd = [] \<and> key_fits (hs_reclength ?sh) kd"
      using wf z assms(4) by (simp add: fix_key_def init_block_fields key_fits_def f)
  qed (use assms f in simp_all)
  from inv show "share_wf env ?sh" by (rule share_inv_wf)
  from inv show "table_rows ?sh = Map.empty" by (rule share_inv_empty_rows)
  have "0 < max_cells r" if "0 < r" for r using that by (simp add: max_cells_def block_cap_def)
  with init_block_bounds(2) [OF assms(1)] show "has_room ?sh"
    by (simp add: has_room_def f index_room_def fix_key_def)
qed

subsection \<open>Clearing\<close>

definition all_chunks :: "HP_BLOCK \<Rightarrow> blkptr multiset" where
  "all_chunks b = mset_set ((\<lambda>c. (c, 0)) ` {..<chunks b})"

lemma free_blocks_correct:
  assumes wf: "block_wf b"
  shows "\<exists>fs. free_blocks b = Some (b\<lparr>levels := 0, hp_ptrs := Map.empty, chunks := 0\<rparr>, fs) \<and> mset fs = all_chunks b"
    "block_wf (b\<lparr>levels := 0, hp_ptrs := Map.empty, chunks := 0\<rparr>)"
proof -
  show "\<exists>fs. free_blocks b = Some (b\<lparr>levels := 0, hp_ptrs := Map.empty, chunks := 0\<rparr>, fs) \<and> mset fs = all_chunks b"
  proof (cases "chunks b = 0")
    case True
    then show ?thesis using block_wfD(6) [OF wf] by (simp add: free_blocks_def all_chunks_def)
  next
    case False
    from hp_free_level_correct [OF wf False] block_wfD(7) [OF wf False] show ?thesis
      by (auto simp: free_blocks_def all_chunks_def tree_levels_def)
  qed
  show "block_wf (b\<lparr>levels := 0, hp_ptrs := Map.empty, chunks := 0\<rparr>)"
    using block_wfD(1-4) [OF wf] by (simp add: block_wf_def HP_MAX_LEVELS_def)
qed

lemma clear_keys_correct:
  assumes "\<forall>kd \<in> set K. block_wf (kd_block kd)"
  shows "\<exists>L fs. clear_keys K = Some (L, fs) \<and> list_all2 (\<lambda>kd f. mset f = all_chunks (kd_block kd)) K fs \<and> same_keys K L \<and>
    (\<forall>kd \<in> set L. block_wf (kd_block kd) \<and> chunks (kd_block kd) = 0 \<and> last_allocated (kd_block kd) = 0 \<and> kd_cells kd = [])"
  using assms
proof (induction K)
  case (Cons kd K)
  then obtain L fs where IH: "clear_keys K = Some (L, fs)" "list_all2 (\<lambda>kd f. mset f = all_chunks (kd_block kd)) K fs" "same_keys K L"
    "\<forall>kd \<in> set L. block_wf (kd_block kd) \<and> chunks (kd_block kd) = 0 \<and> last_allocated (kd_block kd) = 0 \<and> kd_cells kd = []" by auto
  have wf: "block_wf (kd_block kd)" using Cons.prems by simp
  obtain f where f: "free_blocks (kd_block kd) = Some ((kd_block kd)\<lparr>levels := 0, hp_ptrs := Map.empty, chunks := 0\<rparr>, f)"
    "mset f = all_chunks (kd_block kd)" using free_blocks_correct(1) [OF wf] by blast
  let ?b = "(kd_block kd)\<lparr>levels := 0, hp_ptrs := Map.empty, chunks := 0\<rparr>"
  have "clear_keys (kd # K) = Some (kd\<lparr>kd_block := ?b\<lparr>last_allocated := 0\<rparr>, kd_cells := []\<rparr> # L, f # fs)"
    using f(1) IH(1) by simp
  moreover have "block_wf (?b\<lparr>last_allocated := 0\<rparr>)" using free_blocks_correct(2) [OF wf] block_fields(1) by metis
  moreover have sk: "same_key kd (kd\<lparr>kd_block := ?b\<lparr>last_allocated := 0\<rparr>, kd_cells := []\<rparr>)" by (simp add: same_key_def)
  ultimately show ?case using IH(2-4) f(2)
    by (intro exI [of _ "kd\<lparr>kd_block := ?b\<lparr>last_allocated := 0\<rparr>, kd_cells := []\<rparr> # L"] exI [of _ "f # fs"]) (simp add: sk)
qed simp

lemma hp_clear_correct:
  assumes wf: "share_wf env sh"
  shows "\<exists>sh' fs. hp_clear sh = Some (sh', fs) \<and> share_wf env sh' \<and> same_defs sh sh' \<and> table_rows sh' = Map.empty \<and> hs_records sh' = 0 \<and>
    hs_open_count sh' = hs_open_count sh \<and> hs_name sh' = hs_name sh \<and> hs_delete_on_close sh' = hs_delete_on_close sh \<and>
    list_all2 (\<lambda>b f. mset f = all_chunks b) (hs_block sh # map kd_block (hs_keydef sh)) fs"
proof -
  obtain ds where inv: "share_inv env sh (active sh) ds" using wf by (auto simp: share_wf_def)
  note S = sizes_okD [OF data_okD(1) [OF share_invD(1) [OF inv]]]
  have kb: "\<forall>kd \<in> set (hs_keydef sh). block_wf (kd_block kd)"
    using share_invD(6) [OF inv] by (auto simp: index_wf_def key_wf_def key_room_wf_def Let_def)
  obtain L fs where C: "clear_keys (hs_keydef sh) = Some (L, fs)" "list_all2 (\<lambda>kd f. mset f = all_chunks (kd_block kd)) (hs_keydef sh) fs"
    "same_keys (hs_keydef sh) L"
    "\<forall>kd \<in> set L. block_wf (kd_block kd) \<and> chunks (kd_block kd) = 0 \<and> last_allocated (kd_block kd) = 0 \<and> kd_cells kd = []"
    using clear_keys_correct [OF kb] by blast
  let ?b = "(hs_block sh)\<lparr>levels := 0, hp_ptrs := Map.empty, chunks := 0\<rparr>"
  obtain f where f: "free_blocks (hs_block sh) = Some (?b, f)" "mset f = all_chunks (hs_block sh)"
    using free_blocks_correct(1) [OF S(1)] by blast
  let ?sh = "sh\<lparr>hs_block := ?b, hs_data := Map.empty, hs_keydef := L, hs_records := 0, hs_deleted := 0,
           hs_data_length := 0, hs_index_length := 0, hs_blength := 1, hs_changed := False, hs_del_link := None\<rparr>"
  have run: "hp_clear sh = Some (?sh, f # fs)" using f(1) C(1) by (simp add: hp_clear_def)
  have inv': "share_inv env ?sh {} []"
  proof (rule empty_share_inv)
    show "block_wf (hs_block ?sh)" using free_blocks_correct(2) [OF S(1)] by simp
    fix kd assume "kd \<in> set (hs_keydef ?sh)"
    then obtain i where i: "i < length L" "kd = L ! i" by (auto simp: in_set_conv_nth)
    then have i': "i < length (hs_keydef sh)" using list_all2_lengthD [OF C(3)] by simp
    have "key_fits (hs_reclength sh) kd" using key_fits_same [OF same_keys_nth [OF C(3) i']] share_invD(8) [OF inv nth_mem [OF i']] i by simp
    with C(4) i show "block_wf (kd_block kd) \<and> chunks (kd_block kd) = 0 \<and> last_allocated (kd_block kd) = 0 \<and>
       kd_cells kd = [] \<and> key_fits (hs_reclength ?sh) kd" by simp
  qed (use S in simp_all)
  have "list_all2 (\<lambda>b f. mset f = all_chunks b) (hs_block sh # map kd_block (hs_keydef sh)) (f # fs)"
    using f(2) C(2) by (simp add: list_all2_map1)
  moreover have "same_defs sh ?sh" using C(3) by (simp add: same_defs_def)
  ultimately show ?thesis using run share_inv_wf [OF inv'] share_inv_empty_rows [OF inv']
    by (intro exI [of _ ?sh] exI [of _ "f # fs"]) simp
qed

end
