(* ===== verification/HeapExample.thy ===== *)
theory HeapExample
  imports HeapScanSpec HeapOpenSpec
begin

text \<open>
  A heap table to evaluate the theorems on: records of 8 bytes with a key on the first
  byte, in a machine whose pointers are written as 8 bytes with the lowest first.
\<close>

primrec le_bytes :: "nat \<Rightarrow> nat \<Rightarrow> bytes" where
  "le_bytes 0 v = []"
| "le_bytes (Suc n) v = word_of_nat (v mod 256) # le_bytes n (v div 256)"

primrec le_val :: "bytes \<Rightarrow> nat" where
  "le_val [] = 0"
| "le_val (b # bs) = unat b + 256 * le_val bs"

lemma length_le_bytes [simp]: "length (le_bytes n v) = n"
  by (induction n arbitrary: v) simp_all

lemma le_val_bytes: "v < 256 ^ n \<Longrightarrow> le_val (le_bytes n v) = v"
proof (induction n arbitrary: v)
  case (Suc n)
  then have "v div 256 < 256 ^ n" by (simp add: less_mult_imp_div_less)
  then show ?case by (simp add: Suc.IH unat_of_nat take_bit_eq_mod)
qed simp

definition ex_env :: "nat \<Rightarrow> hp_env" where
  "ex_env rib = \<lparr>env_sort_order = id, env_alloc = (\<lambda>_ _. True), env_hash_junk = (\<lambda>_ _. \<lparr>hl_next = None, hl_data = ((0, 0), 0)\<rparr>),
     env_junk = (\<lambda>_ _. 0),
     env_ptr_bytes = (\<lambda>q. le_bytes 8 (case q of None \<Rightarrow> 0 | Some a \<Rightarrow> fst (fst a) * rib + snd a + 1)),
     env_bytes_ptr = (\<lambda>b. case le_val b of 0 \<Rightarrow> None | Suc p \<Rightarrow> Some (cell_addr rib p)), env_dbug = True\<rparr>"

lemma ex_env_ptr_ok:
  assumes "0 < rib" "rib \<le> 2 ^ 20"
  shows "ptr_ok (ex_env rib) rib"
proof -
  have cap: "max_cells rib + 1 < 256 ^ 8"
  proof -
    have "block_cap rib * rib \<le> 128 ^ 4 * 2 ^ 20" using assms by (intro mult_le_mono) (simp_all add: block_cap_def)
    then show ?thesis by (simp add: max_cells_def)
  qed
  have e: "env_ptr_bytes (ex_env rib) (Some (cell_addr rib p)) = le_bytes 8 (p + 1)" for p
    by (simp add: ex_env_def cell_addr_def node_at_data)
  have d: "env_bytes_ptr (ex_env rib) (le_bytes 8 (p + 1)) = Some (cell_addr rib p)" if "p < max_cells rib" for p
  proof -
    have "le_val (le_bytes 8 (p + 1)) = Suc p" using that cap by (subst le_val_bytes) simp_all
    then show ?thesis by (simp only: ex_env_def hp_env.simps nat.case)
  qed
  have n: "env_bytes_ptr (ex_env rib) (le_bytes 8 0) = None"
  proof -
    have "le_val (le_bytes 8 0) = 0" by (subst le_val_bytes) simp_all
    then show ?thesis by (simp only: ex_env_def hp_env.simps nat.case)
  qed
  have "env_ptr_bytes (ex_env rib) None = le_bytes 8 0" by (simp add: ex_env_def)
  with e d n show ?thesis unfolding ptr_ok_def by (metis length_le_bytes)
qed

definition ex_heap_key :: "nat \<Rightarrow> HP_KEYDEF" where
  "ex_heap_key f = \<lparr>kd_flag = f, kd_length = 0, kd_seg = [\<lparr>seg_start = 0, seg_length = 1, seg_type = 0\<rparr>],
     kd_block = zero_block, kd_cells = []\<rparr>"

definition ex_table :: "nat \<Rightarrow> HP_SHARE" where
  "ex_table f = new_share 131072 ''t'' [ex_heap_key f] 8 0 0"

definition ex_info :: HP_INFO where
  "ex_info = new_info True 0 2 (ex_table 0)"

definition ex_rec :: "nat \<Rightarrow> bytes" where
  "ex_rec n = word_of_nat n # replicate 7 0"

lemma ex_table_block: "records_in_block (init_block 131072 zero_block 9 0 0) = 100" "records_in_block (hs_block (ex_table f)) = 100"
  by (simp_all add: ex_table_def new_share_def init_block_def zero_block_def hp_ptrs_size_def HP_MAX_LEVELS_def HP_PTRS_IN_NOD_def Let_def)

lemma ex_table_correct: "share_wf (ex_env 100) (ex_table f)" "table_rows (ex_table f) = Map.empty" "has_room (ex_table f)"
proof -
  have p: "ptr_ok (ex_env 100) (records_in_block (init_block 131072 zero_block (8 + 1) 0 0))"
    using ex_env_ptr_ok [of 100] by (simp add: ex_table_block)
  have k: "key_fits 8 kd" if "kd \<in> set [ex_heap_key f]" for kd
    using that by (simp add: key_fits_def ex_heap_key_def)
  note N = new_share_correct [of 131072 8, OF _ _ p k, where name = "''t''"]
  show "share_wf (ex_env 100) (ex_table f)" "table_rows (ex_table f) = Map.empty" "has_room (ex_table f)"
    unfolding ex_table_def by (rule N; simp)+
qed

lemma ex_table_fields: "hs_reclength (ex_table f) = 8" "hs_records (ex_table f) = 0" "hs_max_records (ex_table f) = 0"
  "length (hs_keydef (ex_table f)) = 1" "length (ex_rec n) = 8" "index_memory (ex_env r)" "env_alloc (ex_env r) i x"
  by (simp_all add: ex_table_def new_share_def Let_def ex_rec_def index_memory_def ex_env_def)

text \<open>The table with one row, and the handle that wrote it.\<close>

lemma ex_row:
  obtains sh info pos where "heap_write (ex_env 100) (ex_table f) ex_info (ex_rec n) = Some (sh, info, 0)" "share_wf (ex_env 100) sh"
    "table_rows sh = [pos \<mapsto> ex_rec n]" "hi_current_ptr info = Some pos" "test_active info" "same_defs (ex_table f) sh"
proof -
  note W = heap_write_correct [OF ex_table_correct(1) [of f] _ ex_table_correct(3) ex_table_fields(6), where rec = "ex_rec n" and info = ex_info]
  have nd: "\<not> dup_at (ex_env 100) (ex_table f) (active (ex_table f)) (ex_rec n) k" for k
    using dom_table_rows [of "ex_table f"] by (simp add: ex_table_correct(2) dup_key_def)
  from W nd show thesis by (auto simp: ex_table_fields ex_table_correct(2) split: if_splits intro: that)
qed

text \<open>The key of that table: the first byte, unique where the flag is \<open>HA_NOSAME\<close>.\<close>

lemma ex_row_key:
  assumes "same_defs (ex_table f) sh"
  shows "length (hs_keydef sh) = 1" "hs_reclength sh = 8" "kd_flag (hs_keydef sh ! 0) = f"
    "kd_seg (hs_keydef sh ! 0) = [\<lparr>seg_start = 0, seg_length = 1, seg_type = 0\<rparr>]" "kd_length (hs_keydef sh ! 0) = 1"
proof -
  have k: "hs_keydef (ex_table f) = [fix_key 131072 0 0 (ex_heap_key f)]" by (simp add: ex_table_def new_share_def Let_def)
  have s: "same_keys (hs_keydef (ex_table f)) (hs_keydef sh)" using assms by (simp add: same_defs_def)
  then obtain kd where kd: "hs_keydef sh = [kd]" "same_key (fix_key 131072 0 0 (ex_heap_key f)) kd"
    unfolding k by (auto simp: list_all2_Cons1)
  then show "length (hs_keydef sh) = 1" "kd_flag (hs_keydef sh ! 0) = f"
    "kd_seg (hs_keydef sh ! 0) = [\<lparr>seg_start = 0, seg_length = 1, seg_type = 0\<rparr>]" "kd_length (hs_keydef sh ! 0) = 1"
    by (simp_all add: same_key_def fix_key_def ex_heap_key_def)
  show "hs_reclength sh = 8" using assms by (simp add: same_defs_def ex_table_fields)
qed

text \<open>The same machine without memory for the blocks of an index.\<close>

definition ex_no_index :: hp_env where
  "ex_no_index = (ex_env 100)\<lparr>env_alloc := \<lambda>i _. i = 0\<rparr>"

lemma first_key_no_memory:
  assumes K: "hs_keydef sh = [fix_key 131072 0 0 (ex_heap_key f)]" and n: "hs_records sh = 0"
  shows "write_keys ex_no_index sh info [0] rec pos = Some (sh, info\<lparr>hi_errno := ENOMEM\<rparr>, Some 0)"
    "undo_write env sh i' [0] rec pos = None"
proof -
  let ?kd = "fix_key 131072 0 0 (ex_heap_key f)"
  have g: "hp_get_new_block (env_alloc ex_no_index (Suc 0)) (kd_block ?kd) = Some (kd_block ?kd, hp_ptrs_size * free_level (kd_block ?kd) + records_in_block (kd_block ?kd) * recbuffer (kd_block ?kd), True)"
    by (simp add: hp_get_new_block_def ex_no_index_def Let_def)
  have l: "\<not> 0 < last_allocated (kd_block ?kd)" by (simp add: fix_key_def init_block_def Let_def)
  have f: "hp_find_free_hash (env_alloc ex_no_index (Suc 0)) junk ?kd 0 = Some (?kd, 0, None)" for junk
    unfolding hp_find_free_hash_def Let_def using g l by simp
  show "write_keys ex_no_index sh info [0] rec pos = Some (sh, info\<lparr>hi_errno := ENOMEM\<rparr>, Some 0)"
    using f by (simp add: write_key_def K n hp_write_key_def)
  have k: "find_key same [] pos gp lp j = None" for same gp lp j by (subst find_key.simps) (simp add: link_at_def)
  show "undo_write env sh i' [0] rec pos = None"
    by (simp add: delete_key_def K hp_delete_key_def fix_key_def k)
qed

lemma write_no_index_memory: "heap_write ex_no_index (ex_table f) ex_info (ex_rec m) = None"
proof -
  have F: "hs_keydef (ex_table f) = [fix_key 131072 0 0 (ex_heap_key f)]" "hs_records (ex_table f) = 0" "hs_deleted (ex_table f) = 0"
    "hs_del_link (ex_table f) = None" "hs_max_records (ex_table f) = 0"
    by (simp_all add: ex_table_def new_share_def Let_def)
  have p: "ptr_ok ex_no_index (records_in_block (init_block 131072 zero_block (8 + 1) 0 0))"
    using ex_env_ptr_ok [of 100] by (simp add: ex_table_block ex_no_index_def ptr_ok_def)
  have k: "key_fits 8 kd" if "kd \<in> set [ex_heap_key f]" for kd using that by (simp add: key_fits_def ex_heap_key_def)
  have wf: "share_wf ex_no_index (ex_table f)" unfolding ex_table_def by (rule new_share_correct(1) [OF _ _ p k]) simp_all
  then obtain ds where inv: "share_inv ex_no_index (ex_table f) (active (ex_table f)) ds" by (auto simp: share_wf_def)
  obtain sh1 r where np: "next_free_record_pos ex_no_index (ex_table f) = Some (sh1, r)" "same_table (ex_table f) sh1"
    "case r of Inr err \<Rightarrow> err = HA_ERR_RECORD_FILE_FULL \<and> 0 < hs_max_records (ex_table f) \<and> hs_max_records (ex_table f) < hs_records (ex_table f) \<or>
       err = ENOMEM \<and> (\<exists>x. \<not> env_alloc ex_no_index 0 x) | Inl _ \<Rightarrow> True"
    using next_free_record_pos_correct [OF share_invD(1,2) [OF inv]] ex_table_correct(3) [of f]
    unfolding has_room_def by (fastforce split: sum.splits simp del: split_paired_All)
  obtain pos where r: "r = Inl pos" using np(3) by (cases r) (simp_all add: F ex_no_index_def)
  have "hs_keydef (sh1\<lparr>hs_changed := True\<rparr>) = [fix_key 131072 0 0 (ex_heap_key f)]" "hs_records (sh1\<lparr>hs_changed := True\<rparr>) = 0"
    using np(2) F(1,2) by (simp_all add: same_table_def)
  note W = first_key_no_memory [OF this] this
  show ?thesis using np(1) W by (simp add: heap_write_def O_RDONLY_def r del: write_keys.simps undo_write.simps)
qed

end
