(* ===== verification/HeapRun.thy ===== *)
theory HeapRun
  imports HeapExample
begin

text \<open>
  A heap table as its users see it over any sequence of calls: the rows that were written, each under the
  number of its insert, until it is deleted. The users keep the positions of the rows, as \<open>ha_heap\<close> does in
  its references, and come back to them with \<open>heap_rrnd\<close>.
\<close>

subsection \<open>The size of a table\<close>

text \<open>The cells a table has used; no operation uses more than one new cell.\<close>

abbreviation used :: "HP_SHARE \<Rightarrow> nat" where
  "used sh \<equiv> hs_records sh + hs_deleted sh"

lemma write_key_used: "write_key env sh info k r pos = Some (sh', i, e) \<Longrightarrow> hs_records sh' = hs_records sh \<and> hs_deleted sh' = hs_deleted sh"
  by (auto simp: write_key_def bind_eq_Some_conv split: if_splits)

lemma delete_key_used: "delete_key env sh info k r pos f = Some (sh', i, e) \<Longrightarrow> hs_records sh' = hs_records sh \<and> hs_deleted sh' = hs_deleted sh"
  by (auto simp: delete_key_def bind_eq_Some_conv split: if_splits)

lemma write_keys_used: "write_keys env sh info ks r pos = Some (sh', i, e) \<Longrightarrow> hs_records sh' = hs_records sh \<and> hs_deleted sh' = hs_deleted sh"
  by (induction ks arbitrary: sh info) (auto simp: bind_eq_Some_conv dest!: write_key_used split: if_splits)

lemma undo_write_used: "undo_write env sh info ks r pos = Some (sh', i) \<Longrightarrow> hs_records sh' = hs_records sh \<and> hs_deleted sh' = hs_deleted sh"
  by (induction ks arbitrary: sh info) (auto simp: bind_eq_Some_conv dest!: delete_key_used split: if_splits)

lemma delete_keys_used: "delete_keys env sh info ks r pos = Some (sh', i, e) \<Longrightarrow> hs_records sh' = hs_records sh \<and> hs_deleted sh' = hs_deleted sh"
  by (induction ks arbitrary: sh info) (auto simp: bind_eq_Some_conv dest!: delete_key_used split: if_splits)

lemma replace_key_used: "replace_key env sh info k old new pos f = Some (sh', i, e) \<Longrightarrow> hs_records sh' = hs_records sh \<and> hs_deleted sh' = hs_deleted sh"
  by (auto simp: replace_key_def bind_eq_Some_conv dest!: delete_key_used write_key_used split: if_splits)

lemma update_keys_used: "update_keys env sh info ks old new pos = Some (sh', i, e) \<Longrightarrow> hs_records sh' = hs_records sh \<and> hs_deleted sh' = hs_deleted sh"
  by (induction ks arbitrary: sh info) (auto simp: bind_eq_Some_conv dest!: replace_key_used split: if_splits)

lemma undo_update_used: "undo_update env sh info ks old new pos = Some (sh', i) \<Longrightarrow> hs_records sh' = hs_records sh \<and> hs_deleted sh' = hs_deleted sh"
  by (induction ks arbitrary: sh info) (auto simp: bind_eq_Some_conv dest!: replace_key_used split: if_splits)

lemma put_cell_used: "put_cell sh a c = Some sh' \<Longrightarrow> hs_records sh' = hs_records sh \<and> hs_deleted sh' = hs_deleted sh"
  by (auto simp: put_cell_def bind_eq_Some_conv split: if_splits)

lemma free_cell_used: "free_cell env sh a = Some sh' \<Longrightarrow> hs_records sh' = hs_records sh \<and> hs_deleted sh' = hs_deleted sh + 1"
  by (auto simp: free_cell_def bind_eq_Some_conv dest!: put_cell_used)

lemmas used_simps = write_keys_used undo_write_used delete_keys_used update_keys_used undo_update_used put_cell_used free_cell_used

lemma next_free_record_pos_used:
  "next_free_record_pos env sh = Some (sh', r) \<Longrightarrow> hs_records sh' = hs_records sh \<and> hs_deleted sh' \<le> hs_deleted sh"
  by (auto simp: next_free_record_pos_def bind_eq_Some_conv Let_def split: option.splits if_splits)

lemma heap_write_used:
  assumes w: "heap_write env sh info r = Some (sh', i, e)"
  shows "used sh' \<le> Suc (used sh)"
proof (cases "env_dbug env \<and> hi_mode info AND O_RDONLY \<noteq> 0")
  case True
  then show ?thesis using w by (simp add: heap_write_def)
next
  case False
  with w obtain sh1 q where n: "next_free_record_pos env sh = Some (sh1, q)" by (auto simp: heap_write_def bind_eq_Some_conv)
  note U = next_free_record_pos_used [OF n]
  show ?thesis
  proof (cases q)
    case (Inr err)
    then show ?thesis using w False n U by (simp add: heap_write_def)
  next
    case (Inl pos)
    let ?ks = "[0..<length (hs_keydef sh1)]"
    obtain sh2 i2 failed where k: "write_keys env (sh1\<lparr>hs_changed := True\<rparr>) info ?ks r pos = Some (sh2, i2, failed)"
      using w False n Inl by (auto simp: heap_write_def bind_eq_Some_conv)
    note K = write_keys_used [OF k]
    show ?thesis
    proof (cases failed)
      case None
      then show ?thesis using w False n Inl k K U
        by (auto simp: heap_write_def bind_eq_Some_conv dest!: put_cell_used)
    next
      case (Some key)
      then show ?thesis using w False n Inl k K U
        by (auto simp: heap_write_def bind_eq_Some_conv simp del: undo_write.simps upt_Suc dest!: undo_write_used free_cell_used)
    qed
  qed
qed

lemma heap_delete_used:
  assumes d: "heap_delete env sh info r = Some (sh', i, e)"
  shows "used sh' \<le> Suc (used sh)"
proof -
  let ?shd = "count_down (sh\<lparr>hs_changed := True\<rparr>)" and ?ks = "[0..<length (hs_keydef sh)]"
  consider "sh' = sh" | info1 pos sh1 i1 err where "delete_keys env ?shd info1 ?ks r pos = Some (sh1, i1, err)"
      "if err then sh' = count_up sh1 else free_cell env sh1 pos = Some sh'"
    using d by (cases "test_active info") (auto simp: heap_delete_def bind_eq_Some_conv Let_def split: if_splits)
  then show ?thesis
  proof cases
    case 2
    from delete_keys_used [OF 2(1)] 2(2) show ?thesis by (cases err) (auto dest!: free_cell_used)
  qed simp
qed

lemma heap_update_used:
  assumes u: "heap_update env sh info old new = Some (sh', i, e)"
  shows "used sh' \<le> Suc (used sh)"
proof -
  let ?shd = "(count_down sh)\<lparr>hs_changed := True\<rparr>" and ?ks = "[0..<length (hs_keydef sh)]"
  consider "sh' = sh"
    | info1 pos sh1 i1 failed sh2 where "update_keys env ?shd info1 ?ks old new pos = Some (sh1, i1, failed)" "sh' = count_up sh2"
        "sh2 = sh1 \<or> (\<exists>c. put_cell sh1 pos c = Some sh2) \<or> (\<exists>i2 ks i3. undo_update env sh1 i2 ks old new pos = Some (sh2, i3))"
    using u by (cases "test_active info")
      (fastforce simp: heap_update_def bind_eq_Some_conv Let_def simp del: upt_Suc undo_update.simps split: if_splits option.splits)+
  then show ?thesis
  proof cases
    case 2
    from 2(3) have "hs_records sh2 = hs_records sh1 \<and> hs_deleted sh2 = hs_deleted sh1"
      using put_cell_used undo_update_used by blast
    with update_keys_used [OF 2(1)] 2(2) show ?thesis by simp
  qed simp
qed

subsection \<open>Calls on rows\<close>

text \<open>
  A record stands for its key where a row is searched. \<open>Lookup_row\<close> is for an index with unique keys,
  \<open>Find_rows\<close> for one without.
\<close>

datatype table_op =
    Insert_row bytes
  | Fetch_row nat
  | Remove_row nat
  | Change_row nat bytes
  | Lookup_row nat bytes
  | Find_rows nat bytes
  | Scan_rows
  | Clear_rows
  | Check_rows

datatype table_reply =
    Done
  | Duplicate nat
  | Row_read bytes
  | Rows_read "bytes multiset" int
  | Scanned "bytes multiset"
  | Failed int

definition live :: "bytes option list \<Rightarrow> nat list" where
  "live rs = filter (\<lambda>k. rs ! k \<noteq> None) [0..<length rs]"

definition live_rows :: "bytes option list \<Rightarrow> bytes list" where
  "live_rows rs = map (\<lambda>k. the (rs ! k)) (live rs)"

text \<open>The first index that has the key of \<open>r\<close> from another row and does not allow two.\<close>

definition first_dup :: "(uchar \<Rightarrow> uchar) \<Rightarrow> HP_KEYDEF list \<Rightarrow> bytes list \<Rightarrow> bytes \<Rightarrow> nat option" where
  "first_dup so K old r = find (\<lambda>i. nosame (K ! i) \<and> (\<exists>x \<in> set old. key_image so (K ! i) x = key_image so (K ! i) r)) [0..<length K]"

primrec rows_step :: "(uchar \<Rightarrow> uchar) \<Rightarrow> HP_KEYDEF list \<Rightarrow> table_op \<Rightarrow> bytes option list \<Rightarrow> bytes option list \<times> table_reply" where
  "rows_step so K (Insert_row r) rs =
     (case first_dup so K (live_rows rs) r of None \<Rightarrow> (rs @ [Some r], Done) | Some i \<Rightarrow> (rs, Duplicate i))"
| "rows_step so K (Fetch_row k) rs = (rs, Row_read (the (rs ! k)))"
| "rows_step so K (Remove_row k) rs = (rs[k := None], Done)"
| "rows_step so K (Change_row k r) rs =
     (case first_dup so K (live_rows (rs[k := None])) r of None \<Rightarrow> (rs[k := Some r], Done) | Some i \<Rightarrow> (rs, Duplicate i))"
| "rows_step so K (Lookup_row i r) rs =
     (rs, case find (\<lambda>x. key_image so (K ! i) x = key_image so (K ! i) r) (live_rows rs) of
            None \<Rightarrow> Failed HA_ERR_KEY_NOT_FOUND | Some x \<Rightarrow> Row_read x)"
| "rows_step so K (Find_rows i r) rs =
     (let found = filter (\<lambda>x. key_image so (K ! i) x = key_image so (K ! i) r) (live_rows rs)
      in (rs, Rows_read (mset found) (if found = [] then HA_ERR_KEY_NOT_FOUND else HA_ERR_END_OF_FILE)))"
| "rows_step so K Scan_rows rs = (rs, Scanned (mset (live_rows rs)))"
| "rows_step so K Clear_rows rs = (map (\<lambda>_. None) rs, Done)"
| "rows_step so K Check_rows rs = (rs, Done)"

text \<open>What the users keep to: records have their length, and only rows that are there are asked for by position.\<close>

primrec op_ok :: "nat \<Rightarrow> HP_KEYDEF list \<Rightarrow> bytes option list \<Rightarrow> table_op \<Rightarrow> bool" where
  "op_ok n K rs (Insert_row r) \<longleftrightarrow> length r = n"
| "op_ok n K rs (Fetch_row k) \<longleftrightarrow> k \<in> set (live rs)"
| "op_ok n K rs (Remove_row k) \<longleftrightarrow> k \<in> set (live rs)"
| "op_ok n K rs (Change_row k r) \<longleftrightarrow> k \<in> set (live rs) \<and> length r = n"
| "op_ok n K rs (Lookup_row i r) \<longleftrightarrow> i < length K \<and> nosame (K ! i) \<and> rec_fits (K ! i) r"
| "op_ok n K rs (Find_rows i r) \<longleftrightarrow> i < length K \<and> \<not> nosame (K ! i) \<and> rec_fits (K ! i) r \<and>
     kd_length (K ! i) = length (hp_make_key (K ! i) r)"
| "op_ok n K rs Scan_rows \<longleftrightarrow> True"
| "op_ok n K rs Clear_rows \<longleftrightarrow> True"
| "op_ok n K rs Check_rows \<longleftrightarrow> True"

primrec rows_run :: "(uchar \<Rightarrow> uchar) \<Rightarrow> HP_KEYDEF list \<Rightarrow> table_op list \<Rightarrow> bytes option list \<Rightarrow> bytes option list \<times> table_reply list" where
  "rows_run so K [] rs = (rs, [])"
| "rows_run so K (op # ops) rs =
     (let (rs, a) = rows_step so K op rs; (rs, as) = rows_run so K ops rs in (rs, a # as))"

primrec ops_ok :: "(uchar \<Rightarrow> uchar) \<Rightarrow> nat \<Rightarrow> HP_KEYDEF list \<Rightarrow> bytes option list \<Rightarrow> table_op list \<Rightarrow> bool" where
  "ops_ok so n K rs [] \<longleftrightarrow> True"
| "ops_ok so n K rs (op # ops) \<longleftrightarrow> op_ok n K rs op \<and> ops_ok so n K (fst (rows_step so K op rs)) ops"

subsection \<open>The same calls on a table\<close>

text \<open>
  A table with a handle, and the positions of the rows that were written. A row is deleted or changed after
  \<open>heap_rrnd\<close> has read it; searches and scans do not move the handle, as if they used one of their own.
\<close>

type_synonym table_state = "HP_SHARE \<times> HP_INFO \<times> haddr list"

definition reply_of :: "HP_INFO \<Rightarrow> int \<Rightarrow> table_reply" where
  "reply_of info ret =
     (if ret = 0 then Done else if ret = HA_ERR_FOUND_DUPP_KEY then Duplicate (nat (hi_errkey info)) else Failed ret)"

definition row_buffer :: "HP_SHARE \<Rightarrow> bytes" where
  "row_buffer sh = replicate (hs_reclength sh) 0"

definition fetch_row :: "HP_SHARE \<Rightarrow> HP_INFO \<Rightarrow> haddr list \<Rightarrow> nat \<Rightarrow> (HP_INFO \<times> bytes \<times> int) option" where
  "fetch_row sh info hs k = (if k < length hs then heap_rrnd sh info (row_buffer sh) (Some (hs ! k)) else None)"

fun table_step :: "hp_env \<Rightarrow> table_op \<Rightarrow> table_state \<Rightarrow> (table_state \<times> table_reply) option" where
  "table_step env (Insert_row r) (sh, info, hs) = do {
     (sh, info, ret) \<leftarrow> heap_write env sh info r;
     hs \<leftarrow> (if ret = 0 then map_option (\<lambda>a. hs @ [a]) (heap_position info) else Some hs);
     Some ((sh, info, hs), reply_of info ret) }"
| "table_step env (Fetch_row k) (sh, info, hs) = do {
     (info, r, e) \<leftarrow> fetch_row sh info hs k;
     Some ((sh, info, hs), if e = 0 then Row_read r else Failed e) }"
| "table_step env (Remove_row k) (sh, info, hs) = do {
     (info, r, e) \<leftarrow> fetch_row sh info hs k;
     if e \<noteq> 0 then Some ((sh, info, hs), Failed e)
     else do { (sh, info, ret) \<leftarrow> heap_delete env sh info r; Some ((sh, info, hs), reply_of info ret) } }"
| "table_step env (Change_row k r') (sh, info, hs) = do {
     (info, r, e) \<leftarrow> fetch_row sh info hs k;
     if e \<noteq> 0 then Some ((sh, info, hs), Failed e)
     else do { (sh, info, ret) \<leftarrow> heap_update env sh info r r'; Some ((sh, info, hs), reply_of info ret) } }"
| "table_step env (Lookup_row i r) (sh, info, hs) = do {
     kd \<leftarrow> key_at sh (int i);
     (_, x, e) \<leftarrow> heap_rkey env sh info (row_buffer sh) (int i) (hp_make_key kd r);
     Some ((sh, info, hs), if e = 0 then Row_read x else Failed e) }"
| "table_step env (Find_rows i r) (sh, info, hs) = do {
     kd \<leftarrow> key_at sh (int i);
     (xs, e) \<leftarrow> read_key (hs_records sh) env sh info (row_buffer sh) (int i) (hp_make_key kd r);
     Some ((sh, info, hs), Rows_read (mset xs) e) }"
| "table_step env Scan_rows (sh, info, hs) = do {
     xs \<leftarrow> scan_rest (used sh + 1) sh (heap_scan_init info) (row_buffer sh);
     Some ((sh, info, hs), Scanned (mset xs)) }"
| "table_step env Clear_rows (sh, info, hs) = do { (sh, _) \<leftarrow> hp_clear sh; Some ((sh, info, hs), Done) }"
| "table_step env Check_rows (sh, info, hs) = do {
     err \<leftarrow> heap_check_heap env sh;
     Some ((sh, info, hs), if err then Failed HA_ERR_CRASHED else Done) }"

primrec run_calls :: "('o \<Rightarrow> 's \<Rightarrow> ('s \<times> 'r) option) \<Rightarrow> 'o list \<Rightarrow> 's \<Rightarrow> ('s \<times> 'r list) option" where
  "run_calls call [] st = Some (st, [])"
| "run_calls call (op # ops) st = do {
     (st, a) \<leftarrow> call op st;
     (st, as) \<leftarrow> run_calls call ops st;
     Some (st, a # as) }"

definition table_run :: "hp_env \<Rightarrow> table_op list \<Rightarrow> table_state \<Rightarrow> (table_state \<times> table_reply list) option" where
  "table_run env = run_calls (table_step env)"

subsection \<open>Rows and their positions\<close>

definition rows_at :: "HP_SHARE \<Rightarrow> haddr list \<Rightarrow> bytes option list \<Rightarrow> bool" where
  "rows_at sh hs rs \<longleftrightarrow> length hs = length rs \<and> inj_on ((!) hs) (set (live rs)) \<and>
     (\<forall>a r. table_rows sh a = Some r \<longleftrightarrow> (\<exists>k < length rs. hs ! k = a \<and> rs ! k = Some r))"

lemma set_live: "k \<in> set (live rs) \<longleftrightarrow> k < length rs \<and> rs ! k \<noteq> None"
  by (simp add: live_def)

lemma set_live_simps:
  "set (live (rs @ [Some r])) = insert (length rs) (set (live rs))"
  "set (live (rs[k := None])) = set (live rs) - {k}"
  "k \<in> set (live rs) \<Longrightarrow> set (live (rs[k := Some r])) = set (live rs)"
  "set (live (map (\<lambda>_. None) rs)) = {}"
proof -
  show "set (live (rs @ [Some r])) = insert (length rs) (set (live rs))" by (auto simp: set_live nth_append less_Suc_eq)
  show "set (live (rs[k := None])) = set (live rs) - {k}" 
  proof (rule set_eqI)
    show "j \<in> set (live (rs[k := None])) \<longleftrightarrow> j \<in> set (live rs) - {k}" for j by (cases "j = k") (simp_all add: set_live)
  qed
  show "set (live (map (\<lambda>_. None) rs)) = {}" by (rule set_eqI) (simp add: set_live)
  show "set (live (rs[k := Some r])) = set (live rs)" if "k \<in> set (live rs)"
    using that by (intro set_eqI) (auto simp: set_live nth_list_update)
qed

lemma set_live_rows: "x \<in> set (live_rows rs) \<longleftrightarrow> (\<exists>k < length rs. rs ! k = Some x)"
  by (auto simp: live_rows_def live_def image_iff)

lemma live_rows_filter: "live_rows rs = map the (filter (\<lambda>x. x \<noteq> None) rs)"
proof -
  have "filter (\<lambda>x. x \<noteq> None) rs = filter (\<lambda>x. x \<noteq> None) (map ((!) rs) [0..<length rs])" by (simp only: map_nth)
  also have "\<dots> = map ((!) rs) (live rs)" by (simp only: live_def filter_map comp_def)
  finally show ?thesis by (simp add: live_rows_def)
qed

lemma live_rows_simps: "live_rows [] = []" "live_rows (None # rs) = live_rows rs" "live_rows (Some r # rs) = r # live_rows rs"
  by (simp_all add: live_rows_filter)

lemma rows_at_iff:
  "rows_at sh hs rs \<Longrightarrow> table_rows sh a = Some r \<longleftrightarrow> (\<exists>k < length rs. hs ! k = a \<and> rs ! k = Some r)"
  unfolding rows_at_def by blast

lemma rows_atD:
  assumes "rows_at sh hs rs"
  shows "active sh = (!) hs ` set (live rs)" "k \<in> set (live rs) \<Longrightarrow> table_rows sh (hs ! k) = Some (the (rs ! k))"
    "k \<in> set (live rs) \<Longrightarrow> rec_at sh (hs ! k) = the (rs ! k)" "k \<in> set (live rs) \<Longrightarrow> k < length hs"
    "k \<in> set (live rs) \<Longrightarrow> hs ! k \<in> active sh"
proof -
  note r = rows_at_iff [OF assms]
  show t: "table_rows sh (hs ! k) = Some (the (rs ! k))" if "k \<in> set (live rs)" for k
    unfolding r using that by (auto simp: set_live)
  show "active sh = (!) hs ` set (live rs)"
  proof (rule set_eqI)
    fix a
    have "a \<in> active sh \<longleftrightarrow> (\<exists>x. table_rows sh a = Some x)" by (auto simp: dom_table_rows [symmetric])
    also have "\<dots> \<longleftrightarrow> a \<in> (!) hs ` set (live rs)" by (fastforce simp: r set_live image_def)
    finally show "a \<in> active sh \<longleftrightarrow> a \<in> (!) hs ` set (live rs)" .
  qed
  then show "hs ! k \<in> active sh" if "k \<in> set (live rs)" for k using that by simp
  show "rec_at sh (hs ! k) = the (rs ! k)" if "k \<in> set (live rs)" for k
    using t [OF that] by (simp add: table_rows_def split: if_splits)
  show "k < length hs" if "k \<in> set (live rs)" for k using that assms by (simp add: set_live rows_at_def)
qed

lemma rows_at_insert:
  assumes "rows_at sh hs rs" "table_rows sh pos = None" "table_rows sh' = (table_rows sh)(pos \<mapsto> r)"
  shows "rows_at sh' (hs @ [pos]) (rs @ [Some r])"
proof -
  have R: "length hs = length rs" "inj_on ((!) hs) (set (live rs))" using assms(1) by (simp_all add: rows_at_def)
  note I = rows_at_iff [OF assms(1)]
  have pos: "pos \<notin> (!) hs ` set (live rs)" using assms(2) rows_atD(1) [OF assms(1)] by (simp add: table_rows_def split: if_splits)
  have "inj_on ((!) (hs @ [pos])) (set (live (rs @ [Some r])))"
    using R pos by (auto simp: set_live_simps inj_on_def nth_append set_live image_iff)
  moreover have "table_rows sh' a = Some x \<longleftrightarrow> (\<exists>k < Suc (length rs). (hs @ [pos]) ! k = a \<and> (rs @ [Some r]) ! k = Some x)" for a x
  proof (cases "a = pos")
    case True
    have "\<not> (\<exists>k < length rs. hs ! k = pos \<and> rs ! k = Some x)" using I assms(2) by (metis option.distinct(1))
    with R True assms(3) show ?thesis by (auto simp: less_Suc_eq nth_append)
  next
    case False
    with R assms(3) show ?thesis by (auto simp: I less_Suc_eq nth_append)
  qed
  ultimately show ?thesis using R by (simp add: rows_at_def)
qed

lemma rows_at_put:
  assumes "rows_at sh hs rs" "k \<in> set (live rs)" "table_rows sh' = (table_rows sh)(hs ! k := x)"
  shows "rows_at sh' hs (rs[k := x])"
proof -
  have R: "length hs = length rs" "inj_on ((!) hs) (set (live rs))" using assms(1) by (simp_all add: rows_at_def)
  note I = rows_at_iff [OF assms(1)]
  have sub: "set (live (rs[k := x])) \<subseteq> set (live rs)" using assms(2) by (cases x) (simp_all add: set_live_simps)
  have other: "hs ! j \<noteq> hs ! k" if "j < length rs" "j \<noteq> k" "rs ! j = Some y" for j y
    using R assms(2) that by (auto simp: inj_on_def set_live)
  have "table_rows sh' a = Some y \<longleftrightarrow> (\<exists>j < length rs. hs ! j = a \<and> rs[k := x] ! j = Some y)" for a y
  proof (cases "a = hs ! k")
    case True
    with assms(2,3) other show ?thesis by (auto simp: set_live nth_list_update split: if_splits)
  next
    case False
    then have "table_rows sh' a = table_rows sh a" using assms(3) by simp
    moreover have "rs[k := x] ! j = rs ! j" if "hs ! j = a" for j using that False by (cases "j = k") simp_all
    ultimately show ?thesis by (auto simp: I)
  qed
  with R sub show ?thesis by (simp add: rows_at_def inj_on_subset)
qed

lemma rows_at_same: "rows_at sh hs rs \<Longrightarrow> table_rows sh' = table_rows sh \<Longrightarrow> rows_at sh' hs rs"
  by (simp add: rows_at_def)

text \<open>Reading the rows at some addresses once each is reading the rows with a property.\<close>

lemma rows_at_mset:
  assumes r: "rows_at sh hs rs" and "as": "distinct as" "set as = {a \<in> active sh. P (rec_at sh a)}"
  shows "mset (map (rec_at sh) as) = mset (filter P (live_rows rs))"
proof -
  let ?ks = "filter (\<lambda>k. P (the (rs ! k))) (live rs)"
  have i: "inj_on ((!) hs) (set (live rs))" using r by (simp add: rows_at_def)
  have "distinct (map ((!) hs) ?ks)"
    by (simp add: distinct_map live_def inj_on_subset [OF i, unfolded live_def] Collect_mono_iff)
  moreover have "set (map ((!) hs) ?ks) = set as"
    unfolding as(2) rows_atD(1) [OF r] using rows_atD(3) [OF r] by auto
  ultimately have "mset as = mset (map ((!) hs) ?ks)" using as(1) set_eq_iff_mset_eq_distinct by blast
  then have "mset (map (rec_at sh) as) = mset (map (\<lambda>k. rec_at sh (hs ! k)) ?ks)"
    by (metis (no_types, lifting) map_map mset_map comp_apply map_eq_conv)
  also have "map (\<lambda>k. rec_at sh (hs ! k)) ?ks = map (\<lambda>k. the (rs ! k)) ?ks" using rows_atD(3) [OF r] by simp
  finally show ?thesis by (simp add: live_rows_def filter_map comp_def)
qed

subsection \<open>Searching a unique index, and duplicates\<close>

lemma heap_rkey_correct:
  assumes wf: "share_wf env sh" and k: "k < length (hs_keydef sh)" and kd: "hs_keydef sh ! k = kd" and r: "rec_fits kd r"
    and buf: "length buf = hs_reclength sh"
  shows "\<exists>info' x e. heap_rkey env sh info buf (int k) (hp_make_key kd r) = Some (info', x, e) \<and>
    (if \<exists>a \<in> active sh. key_image (env_sort_order env) kd (rec_at sh a) = key_image (env_sort_order env) kd r
     then e = 0 \<and> (\<exists>a \<in> active sh. key_image (env_sort_order env) kd (rec_at sh a) = key_image (env_sort_order env) kd r \<and> x = rec_at sh a)
     else e = HA_ERR_KEY_NOT_FOUND)"
proof -
  obtain ds where inv: "share_inv env sh (active sh) ds" using wf by (auto simp: share_wf_def)
  have mem: "kd \<in> set (hs_keydef sh)" using k kd by auto
  have at: "key_at sh (int k) = Some kd" using k kd by (simp add: key_at_def)
  let ?S = "{a \<in> active sh. key_image (env_sort_order env) kd (rec_at sh a) = key_image (env_sort_order env) kd r}"
  obtain M where M: "set (map snd M) = ?S" "\<And>info. hp_search env sh info kd (hp_make_key kd r) 0 =
       Some (if M = [] then cursor_at None (not_found info) else cursor_at (first M) info)"
    by (rule hp_search_correct [OF share_invD(6) [OF inv mem] r]) (rule that, assumption, metis append_Nil2)
  show ?thesis
  proof (cases M)
    case Nil
    then have "\<not> (\<exists>a \<in> active sh. key_image (env_sort_order env) kd (rec_at sh a) = key_image (env_sort_order env) kd r)" using M(1) by auto
    then show ?thesis using M(2) Nil
      by (simp del: split_paired_Ex split_paired_All add: heap_rkey_def at Let_def cursor_at_def not_found_def set_cursor_def)
  next
    case (Cons c M')
    then have c: "snd c \<in> ?S" using M(1) by auto
    with M(2) Cons read_rec_active [OF wf _ buf, of "snd c"] show ?thesis
      by (auto simp: heap_rkey_def at Let_def cursor_at_def set_cursor_def first_def)
  qed
qed

lemma first_dup_None:
  "first_dup so K old r = None \<longleftrightarrow>
     (\<forall>i < length K. \<not> (nosame (K ! i) \<and> (\<exists>x \<in> set old. key_image so (K ! i) x = key_image so (K ! i) r)))"
  by (auto simp: first_dup_def find_None_iff)

lemma first_dup_Some:
  assumes "i < length K" "nosame (K ! i) \<and> (\<exists>x \<in> set old. key_image so (K ! i) x = key_image so (K ! i) r)"
    "\<forall>j < i. \<not> (nosame (K ! j) \<and> (\<exists>x \<in> set old. key_image so (K ! j) x = key_image so (K ! j) r))"
  shows "first_dup so K old r = Some i"
  unfolding first_dup_def find_Some_iff using assms by (intro exI [of _ i]) simp

lemma dup_at_rows:
  assumes "same_keys K (hs_keydef sh)" "i < length K" "rec_at sh ` B = set old"
  shows "dup_at env sh B r i \<longleftrightarrow> nosame (K ! i) \<and> (\<exists>x \<in> set old. key_image (env_sort_order env) (K ! i) x = key_image (env_sort_order env) (K ! i) r)"
  by (subst same_keys_dup [OF assms(1,2)]) (simp add: dup_key_def assms(3) [symmetric])

lemma live_rows_active:
  assumes r: "rows_at sh hs rs"
  shows "rec_at sh ` active sh = set (live_rows rs)"
    "k \<in> set (live rs) \<Longrightarrow> rec_at sh ` (active sh - {hs ! k}) = set (live_rows (rs[k := None]))"
proof -
  note D = rows_atD [OF r]
  have i: "inj_on ((!) hs) (set (live rs))" using r by (simp add: rows_at_def)
  have e: "rec_at sh ` (!) hs ` X = (\<lambda>k. the (rs ! k)) ` X" if "X \<subseteq> set (live rs)" for X
    unfolding image_image using D(3) that by (intro image_cong) auto
  show "rec_at sh ` active sh = set (live_rows rs)" unfolding D(1) e [OF subset_refl] by (simp add: live_rows_def)
  assume k: "k \<in> set (live rs)"
  then have "active sh - {hs ! k} = (!) hs ` (set (live rs) - {k})"
    unfolding D(1) using inj_on_image_set_diff [OF i, of "set (live rs)" "{k}"] by auto
  then show "rec_at sh ` (active sh - {hs ! k}) = set (live_rows (rs[k := None]))"
    using e [of "set (live rs) - {k}"] by (auto simp: live_rows_def set_live_simps image_iff)
qed

subsection \<open>One call\<close>

text \<open>Cells for \<open>m\<close> more calls, in the tree of blocks of the table and of each index and in the limit of its rows.\<close>

definition room_for :: "nat \<Rightarrow> HP_SHARE \<Rightarrow> bool" where
  "room_for m sh \<longleftrightarrow> (\<forall>b \<in> set (hs_block sh # map kd_block (hs_keydef sh)). used sh + m \<le> max_cells (records_in_block b)) \<and>
     (hs_max_records sh = 0 \<or> used sh + m \<le> hs_max_records sh) \<and> used sh + m + records_in_block (hs_block sh) < 2 ^ 64"

lemma room_for_step:
  assumes "room_for (Suc m) sh" "same_defs sh sh'" "used sh' \<le> Suc (used sh)"
  shows "room_for m sh'"
proof -
  have b: "\<exists>b \<in> set (hs_block sh # map kd_block (hs_keydef sh)). records_in_block b' = records_in_block b"
    if "b' \<in> set (hs_block sh' # map kd_block (hs_keydef sh'))" for b'
  proof (cases "b' = hs_block sh'")
    case True
    then show ?thesis using assms(2) by (simp add: same_defs_def)
  next
    case False
    with that obtain i where i: "i < length (hs_keydef sh')" "b' = kd_block (hs_keydef sh' ! i)" by (auto simp: in_set_conv_nth)
    have sk: "same_keys (hs_keydef sh) (hs_keydef sh')" using assms(2) by (simp add: same_defs_def)
    have "i < length (hs_keydef sh)" using i(1) list_all2_lengthD [OF sk] by simp
    with same_keys_nth [OF sk this] i(2) show ?thesis
      by (intro bexI [of _ "kd_block (hs_keydef sh ! i)"]) (simp_all add: same_key_def)
  qed
  have "used sh' + m \<le> max_cells (records_in_block b')" if "b' \<in> set (hs_block sh' # map kd_block (hs_keydef sh'))" for b'
    using b [OF that] assms(1,3) by (fastforce simp: room_for_def)
  then show ?thesis using assms unfolding room_for_def same_defs_def by auto
qed

lemma room_for_fewer: "room_for (Suc m) sh \<Longrightarrow> room_for m sh"
  by (auto simp: room_for_def)

lemma room_for_has_room: "room_for (Suc m) sh \<Longrightarrow> has_room sh"
  by (auto simp: room_for_def has_room_def index_room_def)

definition table_ok :: "hp_env \<Rightarrow> nat \<Rightarrow> HP_KEYDEF list \<Rightarrow> nat \<Rightarrow> table_state \<Rightarrow> bytes option list \<Rightarrow> bool" where
  "table_ok env n K m st rs \<longleftrightarrow> (case st of (sh, info, hs) \<Rightarrow>
     share_wf env sh \<and> same_keys K (hs_keydef sh) \<and> hs_reclength sh = n \<and> rows_at sh hs rs \<and> room_for m sh)"

lemma table_okI:
  assumes "table_ok env n K (Suc m) (sh, info, hs) rs" "share_wf env sh'" "same_defs sh sh'" "used sh' \<le> Suc (used sh)" "rows_at sh' hs' rs'"
  shows "table_ok env n K m (sh', info', hs') rs'"
  using assms room_for_step [of m sh sh'] same_keys_trans [of K "hs_keydef sh" "hs_keydef sh'"] by (auto simp: table_ok_def same_defs_def)

lemma table_ok_read: "table_ok env n K (Suc m) (sh, info, hs) rs \<Longrightarrow> table_ok env n K m (sh, info', hs) rs"
  by (auto simp: table_ok_def room_for_fewer)

lemma fetch_row_correct:
  assumes wf: "share_wf env sh" and r: "rows_at sh hs rs" and k: "k \<in> set (live rs)"
  shows "\<exists>info'. fetch_row sh info hs k = Some (info', the (rs ! k), 0) \<and> test_active info' \<and> hi_current_ptr info' = Some (hs ! k)"
proof -
  note D = rows_atD [OF r]
  obtain ds where inv: "share_inv env sh (active sh) ds" using wf by (auto simp: share_wf_def)
  obtain c where c: "cell_at sh (hs ! k) = Some c" "in_use sh c"
    using data_okD(8) [OF share_invD(1) [OF inv] D(5) [OF k]] by (auto simp: in_use_at_def split: option.splits)
  have "read_rec sh (row_buffer sh) (hs ! k) = Some (the (rs ! k))"
    using read_rec_active [OF wf D(5) [OF k], of "row_buffer sh"] D(3) [OF k] by (simp add: row_buffer_def)
  then show ?thesis using c D(4) [OF k]
    by (simp add: fetch_row_def heap_rrnd_def read_current_def test_active_def HA_STATE_AKTIV_def HA_STATE_PREV_FOUND_def HA_STATE_NEXT_FOUND_def)
qed

text \<open>Each call returns what the rows say, and leaves a table with the rows after it.\<close>

definition all_memory :: "hp_env \<Rightarrow> bool" where
  "all_memory env \<longleftrightarrow> (\<forall>i x. env_alloc env i x)"

abbreviation step_right :: "hp_env \<Rightarrow> nat \<Rightarrow> HP_KEYDEF list \<Rightarrow> nat \<Rightarrow> table_state \<Rightarrow> bytes option list \<Rightarrow> table_op \<Rightarrow> bool" where
  "step_right env n K m st rs op \<equiv> \<exists>st'. table_step env op st = Some (st', snd (rows_step (env_sort_order env) K op rs)) \<and>
     table_ok env n K m st' (fst (rows_step (env_sort_order env) K op rs))"

lemma insert_step:
  assumes ok: "table_ok env n K (Suc m) (sh, info, hs) rs" and mem: "all_memory env" and len: "length r = n"
  shows "step_right env n K m (sh, info, hs) rs (Insert_row r)"
proof -
  let ?so = "env_sort_order env"
  have T: "share_wf env sh" "same_keys K (hs_keydef sh)" "hs_reclength sh = n" "rows_at sh hs rs" "room_for (Suc m) sh"
    using ok by (simp_all add: table_ok_def)
  have full: "\<not> (0 < hs_max_records sh \<and> hs_max_records sh < hs_records sh)" using T(5) by (auto simp: room_for_def)
  have im: "index_memory env" using mem by (simp add: all_memory_def index_memory_def)
  have lk: "length (hs_keydef sh) = length K" using list_all2_lengthD [OF T(2)] by simp
  note dup = dup_at_rows [OF T(2) _ live_rows_active(1) [OF T(4)], of _ env r]
  obtain sh' info' ret where W: "heap_write env sh info r = Some (sh', info', ret)" "share_wf env sh'" "same_defs sh sh'"
    "if ret = 0 then (\<forall>k < length (hs_keydef sh). \<not> dup_at env sh (active sh) r k) \<and>
       (\<exists>pos. table_rows sh pos = None \<and> table_rows sh' = (table_rows sh)(pos \<mapsto> r) \<and> hi_current_ptr info' = Some pos \<and> test_active info')
     else table_rows sh' = table_rows sh \<and> ret = HA_ERR_FOUND_DUPP_KEY \<and> (\<exists>k < length (hs_keydef sh). hi_errkey info' = int k \<and>
       dup_at env sh (active sh) r k \<and> (\<forall>j < k. \<not> dup_at env sh (active sh) r j))"
    using heap_write_correct [OF T(1) _ room_for_has_room [OF T(5)] im, of r info] full mem len T(3)
    by (auto simp: all_memory_def split: if_splits simp del: split_paired_Ex)
  note okI = table_okI [OF ok W(2,3) heap_write_used [OF W(1)]]
  show ?thesis
  proof (cases "ret = 0")
    case True
    with W(4) obtain pos where P: "\<forall>k < length (hs_keydef sh). \<not> dup_at env sh (active sh) r k" "table_rows sh pos = None"
      "table_rows sh' = (table_rows sh)(pos \<mapsto> r)" "heap_position info' = Some pos" by (auto simp: heap_position_def test_active_def)
    have "first_dup ?so K (live_rows rs) r = None" unfolding first_dup_None using P(1) dup by (simp add: lk)
    then show ?thesis using W(1) True P(4) okI [OF rows_at_insert [OF T(4) P(2,3)]] by (simp add: reply_of_def)
  next
    case False
    with W(4) obtain k where P: "table_rows sh' = table_rows sh" "ret = HA_ERR_FOUND_DUPP_KEY" "k < length (hs_keydef sh)" "hi_errkey info' = int k"
       "dup_at env sh (active sh) r k" "\<forall>j < k. \<not> dup_at env sh (active sh) r j" by auto
    have "first_dup ?so K (live_rows rs) r = Some k" by (rule first_dup_Some) (use P(3,5,6) dup in \<open>simp_all add: lk\<close>)
    then show ?thesis using W(1) False P(2,4) okI [OF rows_at_same [OF T(4) P(1)]] by (simp add: reply_of_def)
  qed
qed

lemma remove_step:
  assumes ok: "table_ok env n K (Suc m) (sh, info, hs) rs" and k: "k \<in> set (live rs)"
  shows "step_right env n K m (sh, info, hs) rs (Remove_row k)"
proof -
  have T: "share_wf env sh" "rows_at sh hs rs" using ok by (simp_all add: table_ok_def)
  obtain info1 where F: "fetch_row sh info hs k = Some (info1, the (rs ! k), 0)" "test_active info1" "hi_current_ptr info1 = Some (hs ! k)"
    using fetch_row_correct [OF T k] by blast
  obtain sh' info' where D: "heap_delete env sh info1 (the (rs ! k)) = Some (sh', info', 0)" "share_wf env sh'" "same_defs sh sh'"
    "table_rows sh' = (table_rows sh)(hs ! k := None)"
    using heap_delete_correct [OF T(1) F(2,3) rows_atD(2) [OF T(2) k]] by blast
  show ?thesis using F(1) D(1) table_okI [OF ok D(2,3) heap_delete_used [OF D(1)] rows_at_put [OF T(2) k D(4)]]
    by (simp add: reply_of_def)
qed

lemma change_step:
  assumes ok: "table_ok env n K (Suc m) (sh, info, hs) rs" and k: "k \<in> set (live rs)" and len: "length r = n"
  shows "step_right env n K m (sh, info, hs) rs (Change_row k r)"
proof -
  let ?so = "env_sort_order env" and ?B = "active sh - {hs ! k}"
  have T: "share_wf env sh" "rows_at sh hs rs" "same_keys K (hs_keydef sh)" "hs_reclength sh = n" using ok by (simp_all add: table_ok_def)
  have lk: "length (hs_keydef sh) = length K" using list_all2_lengthD [OF T(3)] by simp
  note dup = dup_at_rows [OF T(3) _ live_rows_active(2) [OF T(2) k], of _ env r]
  obtain info1 where F: "fetch_row sh info hs k = Some (info1, the (rs ! k), 0)" "test_active info1" "hi_current_ptr info1 = Some (hs ! k)"
    using fetch_row_correct [OF T(1,2) k] by blast
  have len': "length r = hs_reclength sh" using len T(4) by simp
  obtain sh' info' ret where U: "heap_update env sh info1 (the (rs ! k)) r = Some (sh', info', ret)" "share_wf env sh'" "same_defs sh sh'"
    "if ret = 0 then table_rows sh' = (table_rows sh)(hs ! k \<mapsto> r) \<and> (\<forall>i < length (hs_keydef sh). \<not> dup_at env sh ?B r i)
     else ret = HA_ERR_FOUND_DUPP_KEY \<and> table_rows sh' = table_rows sh \<and> (\<exists>i < length (hs_keydef sh). hi_errkey info' = int i \<and>
       dup_at env sh ?B r i \<and> (\<forall>j < i. \<not> dup_at env sh ?B r j))"
    using heap_update_correct [OF T(1) F(2,3) rows_atD(2) [OF T(2) k] len'] by blast
  note okI = table_okI [OF ok U(2,3) heap_update_used [OF U(1)]]
  show ?thesis
  proof (cases "ret = 0")
    case True
    with U(4) have P: "table_rows sh' = (table_rows sh)(hs ! k \<mapsto> r)" "\<forall>i < length (hs_keydef sh). \<not> dup_at env sh ?B r i" by simp_all
    have "first_dup ?so K (live_rows (rs[k := None])) r = None" unfolding first_dup_None using P(2) dup by (simp add: lk)
    then show ?thesis using F(1) U(1) True okI [OF rows_at_put [OF T(2) k P(1)]] by (simp add: reply_of_def)
  next
    case False
    with U(4) obtain i where P: "table_rows sh' = table_rows sh" "ret = HA_ERR_FOUND_DUPP_KEY" "i < length (hs_keydef sh)" "hi_errkey info' = int i"
       "dup_at env sh ?B r i" "\<forall>j < i. \<not> dup_at env sh ?B r j" by auto
    have "first_dup ?so K (live_rows (rs[k := None])) r = Some i" by (rule first_dup_Some) (use P(3,5,6) dup in \<open>simp_all add: lk\<close>)
    then show ?thesis using F(1) U(1) False P(2,4) okI [OF rows_at_same [OF T(2) P(1)]] by (simp add: reply_of_def)
  qed
qed

lemma fetch_step:
  assumes ok: "table_ok env n K (Suc m) (sh, info, hs) rs" and k: "k \<in> set (live rs)"
  shows "step_right env n K m (sh, info, hs) rs (Fetch_row k)"
proof -
  have T: "share_wf env sh" "rows_at sh hs rs" using ok by (simp_all add: table_ok_def)
  from fetch_row_correct [OF this k, of info] table_ok_read [OF ok] show ?thesis by auto
qed

lemma table_key:
  assumes "same_keys K (hs_keydef sh)" "i < length K"
  shows "i < length (hs_keydef sh)" "key_at sh (int i) = Some (hs_keydef sh ! i)" "nosame (hs_keydef sh ! i) = nosame (K ! i)"
    "rec_fits (hs_keydef sh ! i) = rec_fits (K ! i)" "hp_make_key (hs_keydef sh ! i) = hp_make_key (K ! i)"
    "key_image so (hs_keydef sh ! i) = key_image so (K ! i)" "kd_length (hs_keydef sh ! i) = kd_length (K ! i)"
proof -
  show i: "i < length (hs_keydef sh)" using assms list_all2_lengthD by fastforce
  show "key_at sh (int i) = Some (hs_keydef sh ! i)" using i by (simp add: key_at_def)
  note S = same_keys_nth [OF assms]
  show "nosame (hs_keydef sh ! i) = nosame (K ! i)" "rec_fits (hs_keydef sh ! i) = rec_fits (K ! i)" "hp_make_key (hs_keydef sh ! i) = hp_make_key (K ! i)"
    "key_image so (hs_keydef sh ! i) = key_image so (K ! i)" "kd_length (hs_keydef sh ! i) = kd_length (K ! i)"
    using same_keyD(3,4,7,8) [OF S] S by (simp_all add: same_key_def)
qed

lemma length_row_buffer [simp]: "length (row_buffer sh) = hs_reclength sh"
  by (simp add: row_buffer_def)

lemma lookup_step:
  assumes ok: "table_ok env n K (Suc m) (sh, info, hs) rs" and i: "i < length K" "nosame (K ! i)" "rec_fits (K ! i) r"
  shows "step_right env n K m (sh, info, hs) rs (Lookup_row i r)"
proof -
  let ?so = "env_sort_order env" and ?P = "\<lambda>x. key_image (env_sort_order env) (K ! i) x = key_image (env_sort_order env) (K ! i) r"
  have T: "share_wf env sh" "rows_at sh hs rs" "same_keys K (hs_keydef sh)" using ok by (simp_all add: table_ok_def)
  note A = live_rows_active(1) [OF T(2)]
  note Q = table_key [OF T(3) i(1)]
  have fits: "rec_fits (hs_keydef sh ! i) r" using i(3) Q(4) by simp
  obtain info' x e where R: "heap_rkey env sh info (row_buffer sh) (int i) (hp_make_key (K ! i) r) = Some (info', x, e)"
    "if \<exists>a \<in> active sh. ?P (rec_at sh a) then e = 0 \<and> (\<exists>a \<in> active sh. ?P (rec_at sh a) \<and> x = rec_at sh a) else e = HA_ERR_KEY_NOT_FOUND"
    using heap_rkey_correct [OF T(1) Q(1) refl fits length_row_buffer, of info] unfolding Q(5,6) by blast
  have reply: "(if e = 0 then Row_read x else Failed e) = (case find ?P (live_rows rs) of None \<Rightarrow> Failed HA_ERR_KEY_NOT_FOUND | Some x \<Rightarrow> Row_read x)"
  proof (cases "find ?P (live_rows rs)")
    case None
    then have "\<not> (\<exists>a \<in> active sh. ?P (rec_at sh a))" unfolding find_None_iff A [symmetric] by blast
    with R(2) None show ?thesis by (simp add: HA_ERR_KEY_NOT_FOUND_def del: split_paired_Ex)
  next
    case (Some y)
    then have "y \<in> rec_at sh ` active sh" "?P y" unfolding A by (auto simp: find_Some_iff)
    then obtain a where a: "a \<in> active sh" "y = rec_at sh a" "?P (rec_at sh a)" by blast
    with R(2) obtain b where b: "e = 0" "b \<in> active sh" "?P (rec_at sh b)" "x = rec_at sh b" by (auto split: if_splits)
    obtain ds where inv: "share_inv env sh (active sh) ds" using T(1) by (auto simp: share_wf_def)
    have "a = b" using share_invD(7) [OF inv nth_mem [OF Q(1)]] i(2) a b unfolding unique_keys_def Q(3,6) inj_on_def by metis
    then show ?thesis using Some a(2) b(1,4) by simp
  qed
  show ?thesis using R(1) reply table_ok_read [OF ok] by (simp add: Q(2,5))
qed

lemma find_step:
  assumes ok: "table_ok env n K (Suc m) (sh, info, hs) rs" and i: "i < length K" "\<not> nosame (K ! i)" "rec_fits (K ! i) r"
    and l: "kd_length (K ! i) = length (hp_make_key (K ! i) r)"
  shows "step_right env n K m (sh, info, hs) rs (Find_rows i r)"
proof -
  let ?P = "\<lambda>x. key_image (env_sort_order env) (K ! i) x = key_image (env_sort_order env) (K ! i) r"
  have T: "share_wf env sh" "rows_at sh hs rs" "same_keys K (hs_keydef sh)" using ok by (simp_all add: table_ok_def)
  note Q = table_key [OF T(3) i(1)]
  have k: "\<not> nosame (hs_keydef sh ! i)" "rec_fits (hs_keydef sh ! i) r" "kd_length (hs_keydef sh ! i) = length (hp_make_key (hs_keydef sh ! i) r)"
    using i l Q by simp_all
  obtain as where R: "read_key (hs_records sh) env sh info (row_buffer sh) (int i) (hp_make_key (K ! i) r) =
      Some (map (rec_at sh) as, if as = [] then HA_ERR_KEY_NOT_FOUND else HA_ERR_END_OF_FILE)" "distinct as" "set as = {a \<in> active sh. ?P (rec_at sh a)}"
    using read_key_correct [OF T(1) Q(1) refl k length_row_buffer, of info "[]"] unfolding Q(5,6) append_Nil2 by blast
  note M = rows_at_mset [OF T(2) R(2,3)]
  have "as = [] \<longleftrightarrow> filter ?P (live_rows rs) = []" using arg_cong [OF M, of size] by (metis length_0_conv length_map size_mset)
  then show ?thesis using R(1) M table_ok_read [OF ok] by (simp add: Q(2,5) Let_def del: mset_map mset_filter)
qed

lemma scan_step:
  assumes ok: "table_ok env n K (Suc m) (sh, info, hs) rs"
  shows "step_right env n K m (sh, info, hs) rs Scan_rows"
proof -
  have T: "share_wf env sh" "rows_at sh hs rs" "room_for (Suc m) sh" using ok by (simp_all add: table_ok_def)
  have big: "used sh + records_in_block (hs_block sh) < 2 ^ 64" using T(3) by (simp add: room_for_def)
  let ?as = "filter (in_use_at sh) (map (cell_addr (records_in_block (hs_block sh))) [0..<used sh])"
  have "mset (map (rec_at sh) ?as) = mset (filter (\<lambda>_. True) (live_rows rs))"
    by (rule rows_at_mset [OF T(2) scanned_cells(1) [OF T(1)]]) (simp only: scanned_cells(2) [OF T(1)] simp_thms Collect_mem_eq)
  then show ?thesis using scan_correct [OF T(1) length_row_buffer big, of info] table_ok_read [OF ok]
    by (simp del: mset_map mset_filter)
qed

lemma clear_step:
  assumes ok: "table_ok env n K (Suc m) (sh, info, hs) rs"
  shows "step_right env n K m (sh, info, hs) rs Clear_rows"
proof -
  have T: "share_wf env sh" "rows_at sh hs rs" using ok by (simp_all add: table_ok_def)
  obtain sh' fs where C: "hp_clear sh = Some (sh', fs)" "share_wf env sh'" "same_defs sh sh'" "table_rows sh' = Map.empty"
    using hp_clear_correct [OF T(1)] by blast
  have u: "used sh' \<le> Suc (used sh)" using C(1) by (auto simp: hp_clear_def bind_eq_Some_conv)
  have "rows_at sh' hs (map (\<lambda>_. None) rs)"
    using T(2) C(4) by (auto simp: rows_at_def set_live_simps(4))
  then show ?thesis using C(1) table_okI [OF ok C(2,3) u] by simp
qed

lemma check_step:
  assumes ok: "table_ok env n K (Suc m) (sh, info, hs) rs"
  shows "step_right env n K m (sh, info, hs) rs Check_rows"
proof -
  have "share_wf env sh" using ok by (simp add: table_ok_def)
  from heap_check_heap_correct [OF this] table_ok_read [OF ok] show ?thesis by simp
qed

lemma table_step_correct:
  assumes "table_ok env n K (Suc m) st rs" "all_memory env" "op_ok n K rs op"
  shows "step_right env n K m st rs op"
proof -
  obtain sh info hs where st: "st = (sh, info, hs)" by (cases st)
  note ok = assms(1) [unfolded st]
  show ?thesis unfolding st
  proof (cases op)
    case (Insert_row r)
    show "step_right env n K m (sh, info, hs) rs op" unfolding Insert_row by (rule insert_step [OF ok assms(2)]) (use assms(3) Insert_row in simp)
  next
    case (Fetch_row k)
    show "step_right env n K m (sh, info, hs) rs op" unfolding Fetch_row by (rule fetch_step [OF ok]) (use assms(3) Fetch_row in simp)
  next
    case (Remove_row k)
    show "step_right env n K m (sh, info, hs) rs op" unfolding Remove_row by (rule remove_step [OF ok]) (use assms(3) Remove_row in simp)
  next
    case (Change_row k r)
    show "step_right env n K m (sh, info, hs) rs op" unfolding Change_row by (rule change_step [OF ok]) (use assms(3) Change_row in simp_all)
  next
    case (Lookup_row i r)
    show "step_right env n K m (sh, info, hs) rs op" unfolding Lookup_row by (rule lookup_step [OF ok]) (use assms(3) Lookup_row in simp_all)
  next
    case (Find_rows i r)
    show "step_right env n K m (sh, info, hs) rs op" unfolding Find_rows by (rule find_step [OF ok]) (use assms(3) Find_rows in simp_all)
  next
    case Scan_rows
    show "step_right env n K m (sh, info, hs) rs op" unfolding Scan_rows by (rule scan_step [OF ok])
  next
    case Clear_rows
    show "step_right env n K m (sh, info, hs) rs op" unfolding Clear_rows by (rule clear_step [OF ok])
  next
    case Check_rows
    show "step_right env n K m (sh, info, hs) rs op" unfolding Check_rows by (rule check_step [OF ok])
  qed
qed

subsection \<open>Sequences of calls\<close>

text \<open>The contract of a table: while it has room, each call returns what the rows say.\<close>

locale row_table =
  fixes so :: "uchar \<Rightarrow> uchar"
    and n :: nat
    and K :: "HP_KEYDEF list"
    and holds :: "nat \<Rightarrow> 's \<Rightarrow> bytes option list \<Rightarrow> bool"
    and call :: "table_op \<Rightarrow> 's \<Rightarrow> ('s \<times> table_reply) option"
  assumes call_law: "holds (Suc m) st rs \<Longrightarrow> op_ok n K rs op \<Longrightarrow>
    \<exists>st'. call op st = Some (st', snd (rows_step so K op rs)) \<and> holds m st' (fst (rows_step so K op rs))"
begin

lemma run_law:
  "\<lbrakk>holds (length ops) st rs; ops_ok so n K rs ops\<rbrakk> \<Longrightarrow>
    \<exists>st'. run_calls call ops st = Some (st', snd (rows_run so K ops rs)) \<and> holds 0 st' (fst (rows_run so K ops rs))"
proof (induction ops arbitrary: st rs)
  case Nil
  then show ?case by simp
next
  case (Cons op ops)
  then have v: "op_ok n K rs op" "ops_ok so n K (fst (rows_step so K op rs)) ops" by simp_all
  obtain st1 where s: "call op st = Some (st1, snd (rows_step so K op rs))" "holds (length ops) st1 (fst (rows_step so K op rs))"
    using call_law [OF _ v(1)] Cons.prems(1) by fastforce
  from Cons.IH [OF s(2) v(2)] s(1) show ?case by (auto simp: case_prod_unfold Let_def)
qed

end

interpretation heap: row_table "env_sort_order env" n K "\<lambda>m st rs. all_memory env \<and> table_ok env n K m st rs" "table_step env" for env n K
proof
  fix m st rs op
  assume "all_memory env \<and> table_ok env n K (Suc m) st rs" "op_ok n K rs op"
  then show "\<exists>st'. table_step env op st = Some (st', snd (rows_step (env_sort_order env) K op rs)) \<and>
      all_memory env \<and> table_ok env n K m st' (fst (rows_step (env_sort_order env) K op rs))"
    using table_step_correct [of env n K m st rs op] by blast
qed

text \<open>A table whose rows are at the positions \<open>hs\<close>.\<close>

lemma rows_at_start:
  assumes "distinct hs" "set hs = dom (table_rows sh)"
  shows "rows_at sh hs (map (table_rows sh) hs)"
proof -
  have "inj_on ((!) hs) (set (live (map (table_rows sh) hs)))"
    using assms(1) by (auto simp: inj_on_def set_live nth_eq_iff_index_eq)
  moreover have "table_rows sh a = Some r \<longleftrightarrow> (\<exists>k < length (map (table_rows sh) hs). hs ! k = a \<and> map (table_rows sh) hs ! k = Some r)" for a r
  proof
    assume r: "table_rows sh a = Some r"
    then have "a \<in> set hs" using assms(2) by auto
    then obtain k where "k < length hs" "hs ! k = a" by (auto simp: in_set_conv_nth)
    with r show "\<exists>k < length (map (table_rows sh) hs). hs ! k = a \<and> map (table_rows sh) hs ! k = Some r" by auto
  qed auto
  ultimately show ?thesis unfolding rows_at_def length_map by blast
qed

lemma heap_run_correct:
  assumes wf: "share_wf env sh" and mem: "\<And>i x. env_alloc env i x" and hs: "distinct hs" "set hs = dom (table_rows sh)"
    and room: "room_for (length ops) sh" and ok: "ops_ok (env_sort_order env) (hs_reclength sh) (hs_keydef sh) (map (table_rows sh) hs) ops"
    and run: "rows_run (env_sort_order env) (hs_keydef sh) ops (map (table_rows sh) hs) = (rs, as)"
  shows "\<exists>sh' info' hs'. table_run env ops (sh, info, hs) = Some ((sh', info', hs'), as) \<and>
    share_wf env sh' \<and> length hs' = length rs \<and> (\<forall>a r. table_rows sh' a = Some r \<longleftrightarrow> (\<exists>k < length rs. hs' ! k = a \<and> rs ! k = Some r))"
proof -
  have m: "all_memory env" using mem by (simp add: all_memory_def)
  have t: "table_ok env (hs_reclength sh) (hs_keydef sh) (length ops) (sh, info, hs) (map (table_rows sh) hs)"
    using wf room rows_at_start [OF hs] by (simp add: table_ok_def)
  obtain sh' info' hs' where "table_run env ops (sh, info, hs) = Some ((sh', info', hs'), as)"
    "table_ok env (hs_reclength sh) (hs_keydef sh) 0 (sh', info', hs') rs"
    using heap.run_law [OF conjI [OF m t] ok] unfolding run fst_conv snd_conv table_run_def by (metis prod_cases3)
  then show ?thesis unfolding table_ok_def prod.case rows_at_def by blast
qed

subsection \<open>An example\<close>


definition ex_ops :: "table_op list" where
  "ex_ops = [Insert_row (ex_rec 5), Insert_row (ex_rec 5), Insert_row (ex_rec 7), Change_row 1 (ex_rec 5), Change_row 1 (ex_rec 6),
     Remove_row 0, Lookup_row 0 (ex_rec 5), Scan_rows]"

lemma ex_keys: "hs_keydef (ex_table f) = [fix_key 131072 0 0 (ex_heap_key f)]"
  by (simp add: ex_table_def new_share_def Let_def)

lemma ex_key_image: "key_image id (fix_key 131072 0 0 (ex_heap_key f)) (ex_rec n) = [[word_of_nat n]]"
  "nosame (fix_key 131072 0 0 (ex_heap_key HA_NOSAME))" "rec_fits (fix_key 131072 0 0 (ex_heap_key f)) (ex_rec n)"
  by (simp_all add: key_image_def seg_image_def seg_part_def ex_rec_def fix_key_def ex_heap_key_def Let_def nosame_def HA_NOSAME_def rec_fits_def)

lemmas ex_run_simps = ex_key_image ex_table_fields first_dup_def live_rows_simps set_live ex_keys ex_ops_def

lemma ex_so: "env_sort_order (ex_env r) = id"
  by (simp add: ex_env_def)

lemma ex_rows_run:
  "rows_run (env_sort_order (ex_env 100)) (hs_keydef (ex_table HA_NOSAME)) ex_ops [] =
     ([None, Some (ex_rec 6)], [Done, Duplicate 0, Done, Duplicate 0, Done, Done, Failed HA_ERR_KEY_NOT_FOUND, Scanned {#ex_rec 6#}])"
  by (simp add: ex_run_simps ex_so)

lemma ex_ops_ok: "ops_ok (env_sort_order (ex_env 100)) 8 (hs_keydef (ex_table HA_NOSAME)) [] ex_ops"
  by (simp add: ex_run_simps ex_so)

lemma ex_room: "m \<le> 100 \<Longrightarrow> room_for m (ex_table f)"
proof -
  assume m: "m \<le> 100"
  have c: "100 \<le> max_cells n" if "100 \<le> n" for n
  proof -
    have "1 * n \<le> block_cap n * n" using block_cap_pos [of n] by (intro mult_le_mono) simp_all
    with that show ?thesis unfolding max_cells_def by linarith
  qed
  have b: "100 \<le> records_in_block (kd_block (fix_key 131072 0 0 (ex_heap_key f)))"
    by (simp add: fix_key_def init_block_def Let_def HP_MAX_LEVELS_def HP_PTRS_IN_NOD_def hp_ptrs_size_def ex_heap_key_def zero_block_def)
  show ?thesis using m c [OF b] c [of 100]
    by (simp add: room_for_def ex_keys ex_table_block ex_table_fields) (simp add: ex_table_def new_share_def Let_def)
qed

end
