(* ===== verification/CaseConv.thy ===== *)
theory CaseConv
  imports HashTable HeapKey
begin

text \<open>
  Conversion of case and comparison of strings (mysys/mf_casecnv.c). The functions work with the
  tables of the character set, \<open>to_upper\<close>, \<open>to_lower\<close> and \<open>sort_order\<close>, and in a multibyte
  character set with \<open>my_ismbchar\<close>, the length of the character at the start of a string or 0,
  and \<open>my_ismbhead\<close>; \<open>mb\<close> is None where the character set has single bytes. The collation by
  \<open>strcoll\<close> is left out. A string that ends with a null byte is the list of the bytes before it.
\<close>

record mb_set =
  ismbchar :: "uchar list \<Rightarrow> nat"
  ismbhead :: "uchar \<Rightarrow> bool"

subsection \<open>Conversion\<close>

text \<open>The loop for a multibyte character set, over the bytes up to the end of the string.\<close>

function conv_mb :: "(uchar list \<Rightarrow> nat) \<Rightarrow> (uchar \<Rightarrow> uchar) \<Rightarrow> uchar list \<Rightarrow> uchar list" where
  "conv_mb ism f [] = []"
| "conv_mb ism f (c # s) =
     (let l = ism (c # s)
      in if l \<noteq> 0 then take l (c # s) @ conv_mb ism f (drop l (c # s)) else f c # conv_mb ism f s)"
  by pat_completeness auto
termination by (relation "measure (\<lambda>(_, _, s). length s)") auto

text \<open>The loop \<open>while ((*str = toupper(*str)) != 0)\<close>.\<close>

fun conv_str :: "(uchar \<Rightarrow> uchar) \<Rightarrow> uchar list \<Rightarrow> uchar list" where
  "conv_str f [] = []"
| "conv_str f (c # s) = (if f c = 0 then f c # s else f c # conv_str f s)"

definition caseup_str :: "(uchar \<Rightarrow> uchar) \<Rightarrow> mb_set option \<Rightarrow> uchar list \<Rightarrow> uchar list" where
  "caseup_str to_upper mb s = (case mb of Some m \<Rightarrow> conv_mb (ismbchar m) to_upper s | None \<Rightarrow> conv_str to_upper s)"

definition casedn_str :: "(uchar \<Rightarrow> uchar) \<Rightarrow> mb_set option \<Rightarrow> uchar list \<Rightarrow> uchar list" where
  "casedn_str to_lower mb s = (case mb of Some m \<Rightarrow> conv_mb (ismbchar m) to_lower s | None \<Rightarrow> conv_str to_lower s)"

definition caseup :: "(uchar \<Rightarrow> uchar) \<Rightarrow> mb_set option \<Rightarrow> uchar list \<Rightarrow> uchar list" where
  "caseup to_upper mb s = (case mb of Some m \<Rightarrow> conv_mb (ismbchar m) to_upper s | None \<Rightarrow> map to_upper s)"

definition casedn :: "(uchar \<Rightarrow> uchar) \<Rightarrow> mb_set option \<Rightarrow> uchar list \<Rightarrow> uchar list" where
  "casedn to_lower mb s = (case mb of Some m \<Rightarrow> conv_mb (ismbchar m) to_lower s | None \<Rightarrow> map to_lower s)"

definition case_sort :: "(uchar \<Rightarrow> uchar) \<Rightarrow> uchar list \<Rightarrow> uchar list" where
  "case_sort sort_order s = map sort_order s"

subsection \<open>Search\<close>

text \<open>
  The inner loop: whether the rest of the string searched for is at the start of the string. A read of
  the end gives 0; going on behind it has no result.
\<close>

fun matches_at :: "(uchar \<Rightarrow> uchar) \<Rightarrow> uchar list \<Rightarrow> uchar list \<Rightarrow> bool option" where
  "matches_at up i [] = Some True"
| "matches_at up [] (c # j) = (if up 0 = up c then None else Some False)"
| "matches_at up (d # i) (c # j) = (if up d = up c then matches_at up i j else Some False)"

text \<open>The position of the first match; the second case compares with the null byte that ends an empty string.\<close>

fun strcasestr_loop :: "(uchar \<Rightarrow> uchar) \<Rightarrow> uchar list \<Rightarrow> uchar list \<Rightarrow> nat \<Rightarrow> nat option option" where
  "strcasestr_loop up [] search pos = Some None"
| "strcasestr_loop up (c # s) [] pos = (if up c = up 0 then None else strcasestr_loop up s [] (pos + 1))"
| "strcasestr_loop up (c # s) (d # j) pos =
     (if up c = up d then
        (case matches_at up s j of
           None \<Rightarrow> None
         | Some True \<Rightarrow> Some (Some pos)
         | Some False \<Rightarrow> strcasestr_loop up s (d # j) (pos + 1))
      else strcasestr_loop up s (d # j) (pos + 1))"

definition my_strcasestr :: "(uchar \<Rightarrow> uchar) \<Rightarrow> uchar list \<Rightarrow> uchar list \<Rightarrow> nat option option" where
  "my_strcasestr up s search = strcasestr_loop up s search 0"

subsection \<open>Comparison\<close>

definition at_start :: "uchar list \<Rightarrow> uchar" where
  "at_start s = (case s of [] \<Rightarrow> 0 | c # _ \<Rightarrow> c)"

text \<open>The loop of \<open>my_strcasecmp\<close> and \<open>my_strsortcmp\<close>; it goes on behind the end of \<open>t\<close> where a byte equals the null byte.\<close>

fun strcmp_by :: "(uchar \<Rightarrow> uchar) \<Rightarrow> uchar list \<Rightarrow> uchar list \<Rightarrow> int option" where
  "strcmp_by f [] t = Some (if f 0 = f (at_start t) then 0 else uint (f 0) - uint (f (at_start t)))"
| "strcmp_by f (c # s) [] = (if f c = f 0 then None else Some (uint (f c) - uint (f 0)))"
| "strcmp_by f (c # s) (d # t) = (if f c = f d then strcmp_by f s t else Some (uint (f c) - uint (f d)))"

text \<open>The loop for multibyte characters; \<open>fin\<close> is what is returned at the end of \<open>s\<close>.\<close>

function casecmp_mb :: "(uchar \<Rightarrow> uchar) \<Rightarrow> mb_set \<Rightarrow> (uchar list \<Rightarrow> int) \<Rightarrow> uchar list \<Rightarrow> uchar list \<Rightarrow> int option" where
  "casecmp_mb up m fin [] t = Some (fin t)"
| "casecmp_mb up m fin (c # s) t =
     (let l = ismbchar m (c # s)
      in if l \<noteq> 0 then if take l (c # s) = take l t then casecmp_mb up m fin (drop l (c # s)) (drop l t) else Some 1
         else if ismbhead m (at_start t) then Some 1
         else if up c \<noteq> up (at_start t) then Some 1
         else case t of [] \<Rightarrow> None | _ # t \<Rightarrow> casecmp_mb up m fin s t)"
  by pat_completeness auto
termination by (relation "measure (\<lambda>(_, _, _, s, _). length s)") auto

definition my_strcasecmp :: "(uchar \<Rightarrow> uchar) \<Rightarrow> mb_set option \<Rightarrow> uchar list \<Rightarrow> uchar list \<Rightarrow> int option" where
  "my_strcasecmp up mb s t =
     (case mb of Some m \<Rightarrow> casecmp_mb up m (\<lambda>t. sint (at_start t)) s t | None \<Rightarrow> strcmp_by up s t)"

text \<open>\<open>while (len-- != 0 && toupper(*s++) == toupper(*t++))\<close>: how many bytes are left, with the one that differs.\<close>

fun bytes_left :: "(uchar \<Rightarrow> uchar) \<Rightarrow> uchar list \<Rightarrow> uchar list \<Rightarrow> nat" where
  "bytes_left up (c # s) (d # t) = (if up c = up d then bytes_left up s t else length s + 1)"
| "bytes_left up s t = 0"

definition my_casecmp_len :: "(uchar \<Rightarrow> uchar) \<Rightarrow> mb_set option \<Rightarrow> uchar list \<Rightarrow> uchar list \<Rightarrow> nat \<Rightarrow> int option" where
  "my_casecmp_len up mb s t len =
     (case mb of Some m \<Rightarrow> casecmp_mb up m (\<lambda>_. 0) (take len s) t
      | None \<Rightarrow> Some (int (bytes_left up (take len s) (take len t))))"

definition my_strsortcmp :: "(uchar \<Rightarrow> uchar) \<Rightarrow> uchar list \<Rightarrow> uchar list \<Rightarrow> int option" where
  "my_strsortcmp sort_order s t = strcmp_by sort_order s t"

text \<open>The lengths are \<open>uint\<close>; their difference is converted to \<open>int\<close>.\<close>

definition my_sortncmp :: "(uchar \<Rightarrow> uchar) \<Rightarrow> uchar list \<Rightarrow> uchar list \<Rightarrow> int" where
  "my_sortncmp sort_order s t =
     (let len = min (length s) (length t); c = my_sortcmp sort_order (take len s) (take len t)
      in if c \<noteq> 0 then c else sint (word_of_nat (length s) - word_of_nat (length t) :: uint))"

subsection \<open>Properties\<close>

lemma length_caseup: "length (conv_mb ism f s) = length s" "length (conv_str f s) = length s"
proof -
  show "length (conv_mb ism f s) = length s"
    by (induction ism f s rule: conv_mb.induct) (auto simp: Let_def)
  show "length (conv_str f s) = length s" by (induction f s rule: conv_str.induct) auto
qed

lemma my_sortcmp_lex:
  assumes "length s = length t"
  shows "my_sortcmp so s t < 0 \<longleftrightarrow> ord_class.lexordp (map so s) (map so t)" "my_sortcmp so s t = 0 \<longleftrightarrow> map so s = map so t"
  using assms
  by (induction so s t rule: my_sortcmp.induct) (auto simp: word_less_def word_uint_eq_iff)

lemma lexordp_take:
  fixes xs ys :: "'a::linorder list"
  assumes "n = min (length xs) (length ys)"
  shows "ord_class.lexordp xs ys \<longleftrightarrow>
    (if take n xs = take n ys then length xs < length ys else ord_class.lexordp (take n xs) (take n ys))"
  using assms
proof (induction xs arbitrary: n ys)
  case Nil
  then show ?case by (cases ys) simp_all
next
  case (Cons x xs)
  show ?case
  proof (cases ys)
    case (Cons y zs)
    then obtain k where "n = Suc k" "k = min (length xs) (length zs)" using Cons.prems by (cases n) auto
    with Cons Cons.IH [of k zs] show ?thesis by auto
  qed (use Cons.prems in simp)
qed

lemma sint_len_diff:
  assumes "m < 2 ^ 31" "n < 2 ^ 31"
  shows "sint (word_of_nat m - word_of_nat n :: uint) = int m - int n"
proof -
  have "(word_of_nat m - word_of_nat n :: uint) = word_of_int (int m - int n)" by simp
  moreover have "sint (word_of_int (int m - int n) :: uint) = int m - int n"
    using assms by (simp add: int_word_sint del: of_int_diff of_int_of_nat_eq)
  ultimately show ?thesis by simp
qed

lemma my_sortncmp_lex:
  assumes "length s < 2 ^ 31" "length t < 2 ^ 31"
  shows "my_sortncmp so s t < 0 \<longleftrightarrow> ord_class.lexordp (map so s) (map so t)" "my_sortncmp so s t = 0 \<longleftrightarrow> map so s = map so t"
proof -
  let ?n = "min (length s) (length t)"
  have l: "length (take ?n s) = length (take ?n t)" by simp
  note c = my_sortcmp_lex [OF l, of so]
  note x = lexordp_take [of ?n "map so s" "map so t"]
  show "my_sortncmp so s t < 0 \<longleftrightarrow> ord_class.lexordp (map so s) (map so t)"
    using c x sint_len_diff [OF assms] by (simp add: my_sortncmp_def Let_def take_map)
  show "my_sortncmp so s t = 0 \<longleftrightarrow> map so s = map so t"
  proof (cases "length s = length t")
    case True
    then show ?thesis using c(2) by (simp add: my_sortncmp_def Let_def)
  next
    case False
    then have "map so s \<noteq> map so t" by (metis length_map)
    then show ?thesis using False sint_len_diff [OF assms] by (simp add: my_sortncmp_def Let_def)
  qed
qed

lemma matches_at_prefix:
  assumes "\<And>c. up c = up 0 \<longleftrightarrow> c = 0" "0 \<notin> set j"
  shows "matches_at up i j = Some (map up j = take (length j) (map up i))"
  using assms
proof (induction up i j rule: matches_at.induct)
  case (2 up c j)
  from 2(1) [of c] 2(2) show ?case by auto
next
  case (3 up d i c j)
  show ?case using 3(1) [OF _ 3(2)] 3(3) by auto
qed simp

text \<open>The first position at which the search string starts, in a string without it None.\<close>

lemma strcasestr_first:
  assumes up: "\<And>c. up c = up 0 \<longleftrightarrow> c = 0" and s: "0 \<notin> set s" and j: "0 \<notin> set j" "j \<noteq> []"
  defines "at \<equiv> \<lambda>s i. map up j = take (length j) (drop i (map up s))"
  shows "strcasestr_loop up s j pos = Some (if \<exists>i. at s i then Some (pos + (LEAST i. at s i)) else None)"
  using s
proof (induction s arbitrary: pos)
  case Nil
  then show ?case using j(2) by (simp add: at_def)
next
  case (Cons c s)
  obtain d js where d: "j = d # js" using j(2) by (cases j) simp_all
  have 0: "at (c # s) 0 \<longleftrightarrow> up c = up d \<and> map up js = take (length js) (map up s)" by (auto simp: at_def d)
  have S: "at (c # s) (Suc i) = at s i" for i by (simp add: at_def)
  have m: "matches_at up s js = Some (map up js = take (length js) (map up s))"
    by (rule matches_at_prefix [OF up]) (use j(1) d in simp)
  show ?case
  proof (cases "at (c # s) 0")
    case True
    then have "(LEAST i. at (c # s) i) = 0" by (simp add: Least_eq_0)
    moreover have "strcasestr_loop up (c # s) j pos = Some (Some pos)" using True m unfolding 0 by (simp add: d)
    ultimately show ?thesis using True by auto
  next
    case False
    have "strcasestr_loop up (c # s) j pos = strcasestr_loop up s j (pos + 1)" using False m unfolding 0 by (auto simp: d)
    also have "\<dots> = Some (if \<exists>i. at s i then Some (pos + 1 + (LEAST i. at s i)) else None)" using Cons by simp
    also have "(\<exists>i. at s i) = (\<exists>i. at (c # s) i)" using False S by (metis not0_implies_Suc)
    also have "pos + 1 + (LEAST i. at s i) = pos + (LEAST i. at (c # s) i)" if "\<exists>i. at (c # s) i"
    proof -
      from that obtain i where "at (c # s) i" ..
      then have "(LEAST i. at (c # s) i) = Suc (LEAST i. at (c # s) (Suc i))" by (rule Least_Suc) (rule False)
      then show ?thesis by (simp add: S)
    qed
    then have "(if \<exists>i. at (c # s) i then Some (pos + 1 + (LEAST i. at s i)) else None) =
        (if \<exists>i. at (c # s) i then Some (pos + (LEAST i. at (c # s) i)) else None)" by simp
    finally show ?thesis .
  qed
qed

end
