(* ===== verification/ThrLock.thy ===== *)
theory ThrLock
  imports Prelude
begin

text \<open>
  Table locks (mysys/thr_lock.c, include/thr_lock.h). A lock has four queues of requests: the locks
  held for reading and for writing, and the requests that wait for them. A queue, in the code a list
  with a pointer to its last link, is a list of numbers of \<open>THR_LOCK_DATA\<close> structures. Each function
  is one step, since it holds the mutex of the lock; a thread that has to wait gives up the mutex
  in \<open>wait_for_lock\<close>, which is split there into \<open>wait_read\<close> or \<open>wait_write\<close> and \<open>wait_end\<close>.
\<close>

subsection \<open>Types of locks\<close>

datatype thr_lock_type = TL_IGNORE | TL_UNLOCK | TL_READ | TL_READ_WITH_SHARED_LOCKS | TL_READ_HIGH_PRIORITY
  | TL_READ_NO_INSERT | TL_WRITE_ALLOW_WRITE | TL_WRITE_ALLOW_READ | TL_WRITE_CONCURRENT_INSERT
  | TL_WRITE_DELAYED | TL_WRITE_LOW_PRIORITY | TL_WRITE | TL_WRITE_ONLY

primrec tl_num :: "thr_lock_type \<Rightarrow> int" where
  "tl_num TL_IGNORE = - 1"
| "tl_num TL_UNLOCK = 0"
| "tl_num TL_READ = 1"
| "tl_num TL_READ_WITH_SHARED_LOCKS = 2"
| "tl_num TL_READ_HIGH_PRIORITY = 3"
| "tl_num TL_READ_NO_INSERT = 4"
| "tl_num TL_WRITE_ALLOW_WRITE = 5"
| "tl_num TL_WRITE_ALLOW_READ = 6"
| "tl_num TL_WRITE_CONCURRENT_INSERT = 7"
| "tl_num TL_WRITE_DELAYED = 8"
| "tl_num TL_WRITE_LOW_PRIORITY = 9"
| "tl_num TL_WRITE = 10"
| "tl_num TL_WRITE_ONLY = 11"

lemma tl_num_inj: "tl_num a = tl_num b \<Longrightarrow> a = b"
  by (cases a; cases b) simp_all

instantiation thr_lock_type :: linorder
begin

definition less_eq_thr_lock_type :: "thr_lock_type \<Rightarrow> thr_lock_type \<Rightarrow> bool" where
  "a \<le> b \<longleftrightarrow> tl_num a \<le> tl_num b"

definition less_thr_lock_type :: "thr_lock_type \<Rightarrow> thr_lock_type \<Rightarrow> bool" where
  "a < b \<longleftrightarrow> tl_num a < tl_num b"

instance
  by standard (auto simp: less_eq_thr_lock_type_def less_thr_lock_type_def dest: tl_num_inj)

end

lemmas tl_order = less_eq_thr_lock_type_def less_thr_lock_type_def

subsection \<open>State\<close>

text \<open>The field \<open>cond\<close> is not null while the request waits: \<open>d_waiting\<close>.\<close>

record THR_LOCK_DATA =
  d_thread :: nat
  d_type :: thr_lock_type
  d_waiting :: bool
  d_param :: nat

text \<open>A call of one of the functions of the table handler, with the parameters of the requests.\<close>

datatype status_call = Get_status nat | Update_status nat | Copy_status nat nat

record THR_LOCK =
  lk_data :: "nat \<Rightarrow> THR_LOCK_DATA"
  lk_read_wait :: "nat list"
  lk_read :: "nat list"
  lk_write_wait :: "nat list"
  lk_write :: "nat list"
  lk_write_lock_count :: nat
  lk_read_no_write_count :: nat
  lk_calls :: "status_call list"

text \<open>
  The functions of the table handler that are not null, what \<open>check_status\<close> answers, and the
  global variables \<open>thr_upgraded_concurrent_insert_lock\<close> and \<open>max_write_lock_count\<close>.
\<close>

record lock_env =
  le_get_status :: bool
  le_copy_status :: bool
  le_update_status :: bool
  le_has_check :: bool
  le_check_status :: "nat \<Rightarrow> bool"
  le_upgraded :: thr_lock_type
  le_max_writes :: nat

abbreviation type_of :: "THR_LOCK \<Rightarrow> nat \<Rightarrow> thr_lock_type" where
  "type_of lk d \<equiv> d_type (lk_data lk d)"

abbreviation thread_of :: "THR_LOCK \<Rightarrow> nat \<Rightarrow> nat" where
  "thread_of lk d \<equiv> d_thread (lk_data lk d)"

definition set_data :: "nat \<Rightarrow> (THR_LOCK_DATA \<Rightarrow> THR_LOCK_DATA) \<Rightarrow> THR_LOCK \<Rightarrow> THR_LOCK" where
  "set_data d f lk = lk\<lparr>lk_data := (lk_data lk)(d := f (lk_data lk d))\<rparr>"

abbreviation set_type :: "nat \<Rightarrow> thr_lock_type \<Rightarrow> THR_LOCK \<Rightarrow> THR_LOCK" where
  "set_type d ty \<equiv> set_data d (\<lambda>x. x\<lparr>d_type := ty\<rparr>)"

abbreviation set_waiting :: "nat \<Rightarrow> bool \<Rightarrow> THR_LOCK \<Rightarrow> THR_LOCK" where
  "set_waiting d w \<equiv> set_data d (\<lambda>x. x\<lparr>d_waiting := w\<rparr>)"

definition thr_lock_init :: "(nat \<Rightarrow> THR_LOCK_DATA) \<Rightarrow> THR_LOCK" where
  "thr_lock_init ds = \<lparr>lk_data = ds, lk_read_wait = [], lk_read = [], lk_write_wait = [], lk_write = [],
     lk_write_lock_count = 0, lk_read_no_write_count = 0, lk_calls = []\<rparr>"

definition thr_lock_data_init :: "nat \<Rightarrow> nat \<Rightarrow> THR_LOCK_DATA" where
  "thr_lock_data_init thread param = \<lparr>d_thread = thread, d_type = TL_UNLOCK, d_waiting = False, d_param = param\<rparr>"

definition get_status :: "lock_env \<Rightarrow> nat \<Rightarrow> THR_LOCK \<Rightarrow> THR_LOCK" where
  "get_status env d lk = (if le_get_status env then lk\<lparr>lk_calls := lk_calls lk @ [Get_status (d_param (lk_data lk d))]\<rparr> else lk)"

definition update_status :: "lock_env \<Rightarrow> nat \<Rightarrow> THR_LOCK \<Rightarrow> THR_LOCK" where
  "update_status env d lk =
     (if le_update_status env then lk\<lparr>lk_calls := lk_calls lk @ [Update_status (d_param (lk_data lk d))]\<rparr> else lk)"

definition have_old_read_lock :: "THR_LOCK \<Rightarrow> nat list \<Rightarrow> nat \<Rightarrow> bool" where
  "have_old_read_lock lk ds thread \<longleftrightarrow> list_ex (\<lambda>d. thread_of lk d = thread) ds"

definition have_specific_lock :: "THR_LOCK \<Rightarrow> nat list \<Rightarrow> thr_lock_type \<Rightarrow> bool" where
  "have_specific_lock lk ds ty \<longleftrightarrow> list_ex (\<lambda>d. type_of lk d = ty) ds"

subsection \<open>Locking\<close>

datatype lock_answer = Got_lock | No_lock | Must_wait

definition add_read :: "lock_env \<Rightarrow> nat \<Rightarrow> thr_lock_type \<Rightarrow> THR_LOCK \<Rightarrow> THR_LOCK" where
  "add_read env d ty lk = get_status env d (lk\<lparr>lk_read := lk_read lk @ [d],
     lk_read_no_write_count := lk_read_no_write_count lk + (if ty = TL_READ_NO_INSERT then 1 else 0)\<rparr>)"

definition add_write :: "lock_env \<Rightarrow> nat \<Rightarrow> THR_LOCK \<Rightarrow> THR_LOCK" where
  "add_write env d lk = get_status env d (lk\<lparr>lk_write := lk_write lk @ [d]\<rparr>)"

text \<open>The start of \<open>wait_for_lock\<close>, up to the first \<open>pthread_cond_wait\<close>.\<close>

definition wait_read :: "nat \<Rightarrow> THR_LOCK \<Rightarrow> THR_LOCK" where
  "wait_read d lk = set_waiting d True (lk\<lparr>lk_read_wait := lk_read_wait lk @ [d]\<rparr>)"

definition wait_write :: "nat \<Rightarrow> THR_LOCK \<Rightarrow> THR_LOCK" where
  "wait_write d lk = set_waiting d True (lk\<lparr>lk_write_wait := lk_write_wait lk @ [d]\<rparr>)"

definition lock_read :: "lock_env \<Rightarrow> nat \<Rightarrow> thr_lock_type \<Rightarrow> THR_LOCK \<Rightarrow> THR_LOCK \<times> lock_answer" where
  "lock_read env d ty lk =
     (case lk_write lk of
        w # _ \<Rightarrow>
          if thread_of lk d = thread_of lk w \<or>
             type_of lk w \<le> TL_WRITE_DELAYED \<and>
               (ty \<le> TL_READ_HIGH_PRIORITY \<or> type_of lk w \<noteq> TL_WRITE_CONCURRENT_INSERT \<and> type_of lk w \<noteq> TL_WRITE_ALLOW_READ)
          then (add_read env d ty lk, Got_lock)
          else if type_of lk w = TL_WRITE_ONLY then (set_type d TL_UNLOCK lk, No_lock)
          else (wait_read d lk, Must_wait)
      | [] \<Rightarrow>
          if (case lk_write_wait lk of [] \<Rightarrow> True | w # _ \<Rightarrow> type_of lk w \<le> TL_WRITE_LOW_PRIORITY) \<or>
             ty = TL_READ_HIGH_PRIORITY \<or> have_old_read_lock lk (lk_read lk) (thread_of lk d)
          then (add_read env d ty lk, Got_lock)
          else (wait_read d lk, Must_wait))"

text \<open>The part for a write lock after the tests for \<open>TL_WRITE_DELAYED\<close> and for a missing \<open>check_status\<close>.\<close>

definition lock_write :: "lock_env \<Rightarrow> nat \<Rightarrow> thr_lock_type \<Rightarrow> THR_LOCK \<Rightarrow> THR_LOCK \<times> lock_answer" where
  "lock_write env d ty lk =
     (case lk_write lk of
        w # _ \<Rightarrow>
          if type_of lk w = TL_WRITE_ONLY then (set_type d TL_UNLOCK lk, No_lock)
          else if thread_of lk d = thread_of lk w \<or>
            ty = TL_WRITE_ALLOW_WRITE \<and> lk_write_wait lk = [] \<and> type_of lk w = TL_WRITE_ALLOW_WRITE
          then (add_write env d lk, Got_lock)
          else (wait_write d lk, Must_wait)
      | [] \<Rightarrow>
          if lk_write_wait lk = [] then
            (let upgrade = (ty = TL_WRITE_CONCURRENT_INSERT \<and> le_check_status env (d_param (lk_data lk d)));
                 ty = (if upgrade then le_upgraded env else ty);
                 lk = (if upgrade then set_type d ty lk else lk)
             in if lk_read lk = [] \<or>
                  ty \<le> TL_WRITE_DELAYED \<and>
                    ((ty \<noteq> TL_WRITE_CONCURRENT_INSERT \<and> ty \<noteq> TL_WRITE_ALLOW_WRITE) \<or> lk_read_no_write_count lk = 0)
                then (add_write env d lk, Got_lock)
                else (wait_write d lk, Must_wait))
          else (wait_write d lk, Must_wait))"

definition thr_lock :: "lock_env \<Rightarrow> nat \<Rightarrow> nat \<Rightarrow> thr_lock_type \<Rightarrow> THR_LOCK \<Rightarrow> THR_LOCK \<times> lock_answer" where
  "thr_lock env thread d ty lk =
     (let lk = set_data d (\<lambda>x. x\<lparr>d_waiting := False, d_type := ty, d_thread := thread\<rparr>) lk
      in if ty \<le> TL_READ_NO_INSERT then lock_read env d ty lk
         else if ty = TL_WRITE_DELAYED then
           (if lk_write lk \<noteq> [] \<and> type_of lk (hd (lk_write lk)) = TL_WRITE_ONLY
            then (set_type d TL_UNLOCK lk, No_lock)
            else if (lk_write lk = [] \<or> type_of lk (hd (lk_write lk)) \<noteq> TL_WRITE_ALLOW_READ) \<and>
              \<not> have_specific_lock lk (lk_write_wait lk) TL_WRITE_ALLOW_READ \<and> (lk_write lk \<noteq> [] \<or> lk_read lk \<noteq> [])
            then (get_status env d (wait_write d lk), Got_lock)
            else lock_write env d ty lk)
         else if ty = TL_WRITE_CONCURRENT_INSERT \<and> \<not> le_has_check env
         then lock_write env d (le_upgraded env) (set_type d (le_upgraded env) lk)
         else lock_write env d ty lk)"

text \<open>
  The end of \<open>wait_for_lock\<close>, when the request has been given the lock or removed, or the thread is
  aborted while it waits; the result is 1 where it has no lock.
\<close>

definition drop_request :: "nat \<Rightarrow> THR_LOCK \<Rightarrow> THR_LOCK" where
  "drop_request d lk = lk\<lparr>lk_read_wait := remove1 d (lk_read_wait lk), lk_read := remove1 d (lk_read lk),
     lk_write_wait := remove1 d (lk_write_wait lk), lk_write := remove1 d (lk_write lk)\<rparr>"

definition wait_end :: "lock_env \<Rightarrow> nat \<Rightarrow> THR_LOCK \<Rightarrow> THR_LOCK \<times> int" where
  "wait_end env d lk =
     (if d_waiting (lk_data lk d) \<or> type_of lk d = TL_UNLOCK
      then (set_type d TL_UNLOCK (if d_waiting (lk_data lk d) then drop_request d lk else lk), 1)
      else (get_status env d lk, 0))"

subsection \<open>Unlocking\<close>

definition free_all_read_locks :: "bool \<Rightarrow> THR_LOCK \<Rightarrow> THR_LOCK" where
  "free_all_read_locks using_concurrent_insert lk =
     (let stays = (\<lambda>d. using_concurrent_insert \<and> type_of lk d = TL_READ_NO_INSERT);
          stay = filter stays (lk_read_wait lk);
          go = filter (\<lambda>d. \<not> stays d) (lk_read_wait lk)
      in lk\<lparr>lk_read := lk_read lk @ go, lk_read_wait := stay,
           lk_data := (\<lambda>d. if d \<in> set go then (lk_data lk d)\<lparr>d_waiting := False\<rparr> else lk_data lk d),
           lk_read_no_write_count := lk_read_no_write_count lk + length (filter (\<lambda>d. type_of lk d = TL_READ_NO_INSERT) go),
           lk_write_lock_count := (if stay = [] then 0 else lk_write_lock_count lk)\<rparr>)"

definition give_write :: "nat \<Rightarrow> THR_LOCK \<Rightarrow> THR_LOCK" where
  "give_write d lk = set_waiting d False (lk\<lparr>lk_write_wait := remove1 d (lk_write_wait lk), lk_write := lk_write lk @ [d]\<rparr>)"

text \<open>The loop \<open>for (;;)\<close> over the requests that wait; the result has the type of the last lock given.\<close>

fun give_writes :: "lock_env \<Rightarrow> nat list \<Rightarrow> THR_LOCK \<Rightarrow> THR_LOCK \<times> thr_lock_type" where
  "give_writes env [] lk = (lk, TL_IGNORE)"
| "give_writes env (d # ds) lk =
     (let lk = give_write d lk;
          lk = (if type_of lk d = TL_WRITE_CONCURRENT_INSERT \<and> le_check_status env (d_param (lk_data lk d))
                then set_type d TL_WRITE lk else lk)
      in if type_of lk d \<noteq> TL_WRITE_ALLOW_WRITE \<or> ds = [] \<or> type_of lk (hd ds) \<noteq> TL_WRITE_ALLOW_WRITE
         then (lk, type_of lk d) else give_writes env ds lk)"

text \<open>The loop that gives write locks together with read locks.\<close>

fun give_shared :: "nat list \<Rightarrow> thr_lock_type \<Rightarrow> THR_LOCK \<Rightarrow> THR_LOCK" where
  "give_shared [] ty lk = lk"
| "give_shared (d # ds) ty lk =
     (let lk = give_write d lk
      in if ty = TL_WRITE_ALLOW_WRITE \<and> ds \<noteq> [] \<and> type_of lk (hd ds) = TL_WRITE_ALLOW_WRITE
         then give_shared ds ty lk else lk)"

definition shared_insert :: "thr_lock_type \<Rightarrow> bool" where
  "shared_insert ty \<longleftrightarrow> ty = TL_WRITE_CONCURRENT_INSERT \<or> ty = TL_WRITE_ALLOW_WRITE"

definition free_waiting_reads :: "bool \<Rightarrow> THR_LOCK \<Rightarrow> THR_LOCK" where
  "free_waiting_reads conc lk = (if lk_read_wait lk \<noteq> [] then free_all_read_locks conc lk else lk)"

text \<open>What \<open>thr_unlock\<close> does where no lock at all is held any more.\<close>

definition wake_idle :: "lock_env \<Rightarrow> THR_LOCK \<Rightarrow> THR_LOCK" where
  "wake_idle env lk =
     (case lk_write_wait lk of
        [] \<Rightarrow> free_waiting_reads False lk
      | d # _ \<Rightarrow>
          if type_of lk d \<noteq> TL_WRITE_LOW_PRIORITY \<or> lk_read_wait lk = [] \<or> type_of lk (hd (lk_read_wait lk)) < TL_READ_HIGH_PRIORITY
          then (let many = (le_max_writes env < lk_write_lock_count lk);
                    lk = lk\<lparr>lk_write_lock_count := (if many then 0 else lk_write_lock_count lk + 1)\<rparr>
                in if many \<and> lk_read_wait lk \<noteq> [] then free_all_read_locks False lk
                   else (let (lk, ty) = give_writes env (lk_write_wait lk) lk
                         in if TL_WRITE_LOW_PRIORITY \<le> ty then lk else free_waiting_reads (shared_insert ty) lk))
          else free_waiting_reads (shared_insert (type_of lk d)) lk)"

text \<open>What it does where only read locks are held.\<close>

definition wake_writes :: "lock_env \<Rightarrow> THR_LOCK \<Rightarrow> THR_LOCK" where
  "wake_writes env lk =
     (case lk_write_wait lk of
        [] \<Rightarrow> free_waiting_reads False lk
      | d # _ \<Rightarrow>
          (let ty = type_of lk d
           in if ty \<le> TL_WRITE_DELAYED \<and> ((ty \<noteq> TL_WRITE_CONCURRENT_INSERT \<and> ty \<noteq> TL_WRITE_ALLOW_WRITE) \<or> lk_read_no_write_count lk = 0)
              then if ty = TL_WRITE_CONCURRENT_INSERT \<and> le_check_status env (d_param (lk_data lk d))
                   then free_waiting_reads False (set_type d TL_WRITE lk)
                   else free_waiting_reads (shared_insert ty) (give_shared (lk_write_wait lk) ty lk)
              else lk))"

definition thr_unlock :: "lock_env \<Rightarrow> nat \<Rightarrow> THR_LOCK \<Rightarrow> THR_LOCK" where
  "thr_unlock env d lk =
     (let ty = type_of lk d;
          lk = drop_request d lk;
          lk = (if TL_WRITE_CONCURRENT_INSERT \<le> ty then update_status env d lk else lk);
          lk = (if ty = TL_READ_NO_INSERT then lk\<lparr>lk_read_no_write_count := lk_read_no_write_count lk - 1\<rparr> else lk);
          lk = set_type d TL_UNLOCK lk
      in if lk_write lk \<noteq> [] then lk else if lk_read lk = [] then wake_idle env lk else wake_writes env lk)"

subsection \<open>Aborting, upgrading, rescheduling\<close>

definition thr_abort_locks :: "THR_LOCK \<Rightarrow> THR_LOCK" where
  "thr_abort_locks lk =
     (let gone = set (lk_read_wait lk) \<union> set (lk_write_wait lk);
          lk = lk\<lparr>lk_data := (\<lambda>d. if d \<in> gone then (lk_data lk d)\<lparr>d_type := TL_UNLOCK, d_waiting := False\<rparr> else lk_data lk d),
            lk_read_wait := [], lk_write_wait := []\<rparr>
      in case lk_write lk of [] \<Rightarrow> lk | w # _ \<Rightarrow> set_type w TL_WRITE_ONLY lk)"

text \<open>The answer \<open>Must_wait\<close> means that the thread goes on in \<open>wait_for_lock\<close>, in the queue already.\<close>

definition thr_upgrade_write_delay_lock :: "lock_env \<Rightarrow> nat \<Rightarrow> THR_LOCK \<Rightarrow> THR_LOCK \<times> lock_answer" where
  "thr_upgrade_write_delay_lock env d lk =
     (if type_of lk d = TL_UNLOCK then (lk, No_lock)
      else if TL_WRITE_LOW_PRIORITY \<le> type_of lk d then (lk, Got_lock)
      else (let lk = set_type d TL_WRITE lk
        in if \<not> d_waiting (lk_data lk d)
           then if lk_read lk = [] then (get_status env d lk, Got_lock)
             else (set_waiting d True (lk\<lparr>lk_write := remove1 d (lk_write lk), lk_write_wait := d # lk_write_wait lk\<rparr>), Must_wait)
           else (lk, Must_wait)))"

definition thr_reschedule_write_lock :: "lock_env \<Rightarrow> nat \<Rightarrow> THR_LOCK \<Rightarrow> THR_LOCK \<times> lock_answer" where
  "thr_reschedule_write_lock env d lk =
     (if lk_read_wait lk = [] then (lk, Got_lock)
      else (let lk = update_status env d (set_type d TL_WRITE_DELAYED lk);
                lk = set_waiting d True (lk\<lparr>lk_write := remove1 d (lk_write lk), lk_write_wait := d # lk_write_wait lk\<rparr>);
                lk = free_all_read_locks False lk
            in thr_upgrade_write_delay_lock env d lk))"

subsection \<open>The checks of a debug build\<close>

definition MAX_LOCKS :: nat where
  "MAX_LOCKS = 100"

text \<open>
  \<open>check_lock\<close> goes through a queue; the result is whether it reports an error. Its tests of the
  pointers \<open>prev\<close> and \<open>last\<close> hold for a queue that is a list.
\<close>

fun check_queue :: "THR_LOCK \<Rightarrow> bool \<Rightarrow> bool \<Rightarrow> nat \<Rightarrow> thr_lock_type \<Rightarrow> nat \<Rightarrow> nat list \<Rightarrow> bool" where
  "check_queue lk same_thread no_cond first last_type count [] = False"
| "check_queue lk same_thread no_cond first last_type count (d # ds) =
     (if MAX_LOCKS \<le> count then True
      else (let last_type = (if type_of lk d \<noteq> last_type then TL_IGNORE else last_type)
        in if same_thread \<and> thread_of lk d \<noteq> first \<and> last_type \<noteq> TL_WRITE_ALLOW_WRITE then True
           else if no_cond \<and> d_waiting (lk_data lk d) then True
           else check_queue lk same_thread no_cond first last_type (count + 1) ds))"

definition check_lock :: "THR_LOCK \<Rightarrow> nat list \<Rightarrow> bool \<Rightarrow> bool \<Rightarrow> bool" where
  "check_lock lk ds same_thread no_cond =
     (case ds of [] \<Rightarrow> False | d # _ \<Rightarrow> check_queue lk same_thread no_cond (thread_of lk d) (type_of lk d) 0 ds)"

definition check_locks :: "THR_LOCK \<Rightarrow> bool \<Rightarrow> bool" where
  "check_locks lk allow_no_locks \<longleftrightarrow>
     check_lock lk (lk_write lk) True True \<or> check_lock lk (lk_write_wait lk) False False \<or>
     check_lock lk (lk_read lk) False True \<or> check_lock lk (lk_read_wait lk) False False \<or>
     length (filter (\<lambda>d. type_of lk d = TL_READ_NO_INSERT) (lk_read lk)) \<noteq> lk_read_no_write_count lk \<or>
     (case lk_write lk of
        [] \<Rightarrow>
          \<not> allow_no_locks \<and> lk_read lk = [] \<and> (lk_write_wait lk \<noteq> [] \<or> lk_read_wait lk \<noteq> []) \<or>
          (case lk_write_wait lk of
             [] \<Rightarrow> \<not> allow_no_locks \<and> lk_read_wait lk \<noteq> []
           | w # _ \<Rightarrow> \<not> allow_no_locks \<and>
               ((type_of lk w = TL_WRITE_CONCURRENT_INSERT \<or> type_of lk w = TL_WRITE_ALLOW_WRITE) \<and> lk_read_no_write_count lk = 0 \<or>
                type_of lk w = TL_WRITE_ALLOW_READ \<or> type_of lk w = TL_WRITE_DELAYED \<and> lk_read lk = []))
      | v # _ \<Rightarrow>
          (case lk_write_wait lk of
             [] \<Rightarrow> False
           | w # _ \<Rightarrow> \<not> allow_no_locks \<and> type_of lk v = TL_WRITE_ALLOW_WRITE \<and> type_of lk w = TL_WRITE_ALLOW_WRITE) \<or>
          (case lk_read lk of
             [] \<Rightarrow> False
           | r # _ \<Rightarrow>
               thread_of lk v \<noteq> thread_of lk r \<and> TL_WRITE_DELAYED < type_of lk v \<and> type_of lk v \<noteq> TL_WRITE_ONLY \<or>
               (type_of lk v = TL_WRITE_CONCURRENT_INSERT \<or> type_of lk v = TL_WRITE_ALLOW_WRITE) \<and> lk_read_no_write_count lk \<noteq> 0) \<or>
          (case lk_read_wait lk of
             [] \<Rightarrow> False
           | r # _ \<Rightarrow> \<not> allow_no_locks \<and> type_of lk v \<le> TL_WRITE_DELAYED \<and> type_of lk r \<le> TL_READ_HIGH_PRIORITY))"

end
