(* ===== verification/ThrLockSpec.thy ===== *)
theory ThrLockSpec
  imports ThrLock
begin

text \<open>
  The invariant of a table lock: which locks can be held at the same time, that the requests that
  wait hold none, and that the counter of the locks that forbid inserts is right. Every step of the
  users of a lock keeps it, so it holds in every state that can be reached.
\<close>

subsection \<open>The invariant\<close>

text \<open>When a write lock and a read lock, or two write locks, can be held together.\<close>

definition read_write_ok :: "THR_LOCK \<Rightarrow> nat \<Rightarrow> nat \<Rightarrow> bool" where
  "read_write_ok lk w r \<longleftrightarrow> thread_of lk w = thread_of lk r \<or> type_of lk w = TL_WRITE_ONLY \<or>
     type_of lk w \<le> TL_WRITE_DELAYED \<and> \<not> (type_of lk w = TL_WRITE_CONCURRENT_INSERT \<and> type_of lk r = TL_READ_NO_INSERT)"

definition write_write_ok :: "THR_LOCK \<Rightarrow> nat \<Rightarrow> nat \<Rightarrow> bool" where
  "write_write_ok lk v w \<longleftrightarrow> type_of lk v \<in> {TL_WRITE_ALLOW_WRITE, TL_WRITE_ONLY} \<and> type_of lk w \<in> {TL_WRITE_ALLOW_WRITE, TL_WRITE_ONLY} \<or>
     thread_of lk v = thread_of lk w \<and> TL_WRITE_DELAYED < type_of lk v \<and> TL_WRITE_DELAYED < type_of lk w"

definition held_ok :: "THR_LOCK \<Rightarrow> bool" where
  "held_ok lk \<longleftrightarrow> (\<forall>w \<in> set (lk_write lk). \<forall>r \<in> set (lk_read lk). read_write_ok lk w r) \<and>
     (\<forall>v \<in> set (lk_write lk). \<forall>w \<in> set (lk_write lk). v \<noteq> w \<longrightarrow> write_write_ok lk v w)"

definition no_inserts :: "THR_LOCK \<Rightarrow> nat list \<Rightarrow> nat" where
  "no_inserts lk ds = length (filter (\<lambda>d. type_of lk d = TL_READ_NO_INSERT) ds)"

definition queues :: "THR_LOCK \<Rightarrow> nat list" where
  "queues lk = lk_read lk @ lk_read_wait lk @ lk_write lk @ lk_write_wait lk"

definition types_ok :: "THR_LOCK \<Rightarrow> bool" where
  "types_ok lk \<longleftrightarrow> distinct (queues lk) \<and>
     (\<forall>d \<in> set (lk_read lk) \<union> set (lk_read_wait lk). TL_UNLOCK < type_of lk d \<and> type_of lk d \<le> TL_READ_NO_INSERT) \<and>
     (\<forall>d \<in> set (lk_write lk) \<union> set (lk_write_wait lk). TL_READ_NO_INSERT < type_of lk d) \<and>
     (\<forall>d \<in> set (lk_read lk) \<union> set (lk_write lk). \<not> d_waiting (lk_data lk d)) \<and>
     (\<forall>d \<in> set (lk_read_wait lk) \<union> set (lk_write_wait lk). d_waiting (lk_data lk d))"

definition lock_inv :: "THR_LOCK \<Rightarrow> bool" where
  "lock_inv lk \<longleftrightarrow> types_ok lk \<and> held_ok lk \<and> lk_read_no_write_count lk = no_inserts lk (lk_read lk)"

lemma lock_invD:
  assumes "lock_inv lk"
  shows "types_ok lk" "held_ok lk" "lk_read_no_write_count lk = no_inserts lk (lk_read lk)"
  using assms by (simp_all add: lock_inv_def)

lemma types_okD:
  assumes "types_ok lk"
  shows "distinct (queues lk)"
    "d \<in> set (lk_read lk) \<or> d \<in> set (lk_read_wait lk) \<Longrightarrow> TL_UNLOCK < type_of lk d \<and> type_of lk d \<le> TL_READ_NO_INSERT"
    "d \<in> set (lk_write lk) \<or> d \<in> set (lk_write_wait lk) \<Longrightarrow> TL_READ_NO_INSERT < type_of lk d"
    "d \<in> set (lk_read lk) \<or> d \<in> set (lk_write lk) \<Longrightarrow> \<not> d_waiting (lk_data lk d)"
    "d \<in> set (lk_read_wait lk) \<or> d \<in> set (lk_write_wait lk) \<Longrightarrow> d_waiting (lk_data lk d)"
  using assms by (auto simp: types_ok_def)

text \<open>What the invariant depends on: the queues, and the data of the requests in them.\<close>

definition same_queues :: "THR_LOCK \<Rightarrow> THR_LOCK \<Rightarrow> bool" where
  "same_queues lk lk' \<longleftrightarrow> lk_read lk' = lk_read lk \<and> lk_read_wait lk' = lk_read_wait lk \<and> lk_write lk' = lk_write lk \<and>
     lk_write_wait lk' = lk_write_wait lk \<and> lk_read_no_write_count lk' = lk_read_no_write_count lk \<and>
     (\<forall>d \<in> set (queues lk). lk_data lk' d = lk_data lk d)"

lemma no_inserts_cong: "\<forall>d \<in> set ds. type_of lk' d = type_of lk d \<Longrightarrow> no_inserts lk' ds = no_inserts lk ds"
  by (simp add: no_inserts_def cong: filter_cong)

lemma lock_inv_cong:
  assumes "lock_inv lk" "same_queues lk lk'"
  shows "lock_inv lk'"
proof -
  have q: "lk_read lk' = lk_read lk" "lk_read_wait lk' = lk_read_wait lk" "lk_write lk' = lk_write lk"
    "lk_write_wait lk' = lk_write_wait lk" "lk_read_no_write_count lk' = lk_read_no_write_count lk"
    "\<And>d. d \<in> set (lk_read lk) \<or> d \<in> set (lk_read_wait lk) \<or> d \<in> set (lk_write lk) \<or> d \<in> set (lk_write_wait lk) \<Longrightarrow> lk_data lk' d = lk_data lk d"
    using assms(2) by (auto simp: same_queues_def queues_def)
  note I = lock_invD [OF assms(1)]
  have "types_ok lk'" using I(1) q(6) unfolding types_ok_def queues_def q(1-4) by auto
  moreover have "held_ok lk'" using I(2) q(6) unfolding held_ok_def read_write_ok_def write_write_ok_def q(1-4) by simp
  moreover have "no_inserts lk' (lk_read lk) = no_inserts lk (lk_read lk)" using q(6) by (intro no_inserts_cong) auto
  ultimately show ?thesis using I(3) unfolding lock_inv_def q by simp
qed

lemma get_status_simps [simp]:
  "lk_read (get_status env d lk) = lk_read lk" "lk_read_wait (get_status env d lk) = lk_read_wait lk"
  "lk_write (get_status env d lk) = lk_write lk" "lk_write_wait (get_status env d lk) = lk_write_wait lk"
  "lk_data (get_status env d lk) = lk_data lk" "lk_read_no_write_count (get_status env d lk) = lk_read_no_write_count lk"
  "lk_write_lock_count (get_status env d lk) = lk_write_lock_count lk"
  by (simp_all add: get_status_def)

lemma update_status_simps [simp]:
  "lk_read (update_status env d lk) = lk_read lk" "lk_read_wait (update_status env d lk) = lk_read_wait lk"
  "lk_write (update_status env d lk) = lk_write lk" "lk_write_wait (update_status env d lk) = lk_write_wait lk"
  "lk_data (update_status env d lk) = lk_data lk" "lk_read_no_write_count (update_status env d lk) = lk_read_no_write_count lk"
  "lk_write_lock_count (update_status env d lk) = lk_write_lock_count lk"
  by (simp_all add: update_status_def)

lemma set_data_simps [simp]:
  "lk_read (set_data d f lk) = lk_read lk" "lk_read_wait (set_data d f lk) = lk_read_wait lk"
  "lk_write (set_data d f lk) = lk_write lk" "lk_write_wait (set_data d f lk) = lk_write_wait lk"
  "lk_read_no_write_count (set_data d f lk) = lk_read_no_write_count lk"
  "lk_write_lock_count (set_data d f lk) = lk_write_lock_count lk"
  "lk_data (set_data d f lk) = (lk_data lk)(d := f (lk_data lk d))"
  by (simp_all add: set_data_def)

lemma inv_get_status [simp]: "lock_inv (get_status env d lk) = lock_inv lk"
  by (simp add: lock_inv_def types_ok_def held_ok_def read_write_ok_def write_write_ok_def queues_def no_inserts_def)

subsection \<open>Adding requests\<close>

lemma lock_inv_set_idle:
  assumes "lock_inv lk" "d \<notin> set (queues lk)"
  shows "lock_inv (set_data d f lk)"
  by (rule lock_inv_cong [OF assms(1)]) (use assms(2) in \<open>auto simp: same_queues_def\<close>)

lemma inv_add_read:
  assumes inv: "lock_inv lk" and d: "d \<notin> set (queues lk)" and ty: "type_of lk d = ty" "TL_UNLOCK < ty" "ty \<le> TL_READ_NO_INSERT"
    "\<not> d_waiting (lk_data lk d)" and ok: "\<forall>w \<in> set (lk_write lk). read_write_ok lk w d"
  shows "lock_inv (add_read env d ty lk)"
proof -
  note I = lock_invD [OF inv]
  let ?lk = "lk\<lparr>lk_read := lk_read lk @ [d], lk_read_no_write_count := lk_read_no_write_count lk + (if ty = TL_READ_NO_INSERT then 1 else 0)\<rparr>"
  have "types_ok ?lk" using I(1) d ty by (auto simp: types_ok_def queues_def)
  moreover have "held_ok ?lk" using I(2) ok by (auto simp: held_ok_def read_write_ok_def write_write_ok_def)
  moreover have "lk_read_no_write_count ?lk = no_inserts ?lk (lk_read ?lk)" using I(3) ty(1) by (simp add: no_inserts_def)
  ultimately have "lock_inv ?lk" by (simp only: lock_inv_def)
  then show ?thesis by (simp add: add_read_def)
qed

lemma inv_add_write:
  assumes inv: "lock_inv lk" and d: "d \<notin> set (queues lk)" and ty: "TL_READ_NO_INSERT < type_of lk d" "\<not> d_waiting (lk_data lk d)"
    and r: "\<forall>r \<in> set (lk_read lk). read_write_ok lk d r" and w: "\<forall>w \<in> set (lk_write lk). write_write_ok lk w d"
  shows "lock_inv (add_write env d lk)"
proof -
  note I = lock_invD [OF inv]
  let ?lk = "lk\<lparr>lk_write := lk_write lk @ [d]\<rparr>"
  have w': "\<forall>w \<in> set (lk_write lk). write_write_ok lk d w" using w by (auto simp: write_write_ok_def)
  have "types_ok ?lk" using I(1) d ty by (auto simp: types_ok_def queues_def)
  moreover have "held_ok ?lk" using I(2) r w w' by (auto simp: held_ok_def read_write_ok_def write_write_ok_def)
  moreover have "lk_read_no_write_count ?lk = no_inserts ?lk (lk_read ?lk)" using I(3) by (simp add: no_inserts_def)
  ultimately have "lock_inv ?lk" by (simp only: lock_inv_def)
  then show ?thesis by (simp add: add_write_def)
qed

lemma inv_wait:
  assumes inv: "lock_inv lk" and d: "d \<notin> set (queues lk)"
  shows "TL_UNLOCK < type_of lk d \<Longrightarrow> type_of lk d \<le> TL_READ_NO_INSERT \<Longrightarrow> lock_inv (wait_read d lk)"
    "TL_READ_NO_INSERT < type_of lk d \<Longrightarrow> lock_inv (wait_write d lk)"
proof -
  note I = lock_invD [OF inv]
  let ?r = "wait_read d lk" and ?w = "wait_write d lk"
  have h: "held_ok ?r" "held_ok ?w" using I(2) d
    by (auto simp: held_ok_def read_write_ok_def write_write_ok_def wait_read_def wait_write_def queues_def)
  have n: "no_inserts ?r (lk_read lk) = no_inserts lk (lk_read lk)" "no_inserts ?w (lk_read lk) = no_inserts lk (lk_read lk)"
    by (rule no_inserts_cong; simp add: wait_read_def wait_write_def)+
  show "lock_inv ?r" if "TL_UNLOCK < type_of lk d" "type_of lk d \<le> TL_READ_NO_INSERT"
  proof -
    have "types_ok ?r" using I(1) d that by (auto simp: types_ok_def queues_def wait_read_def)
    then show ?thesis using h(1) n(1) I(3) by (simp add: lock_inv_def) (simp add: wait_read_def)
  qed
  show "lock_inv ?w" if "TL_READ_NO_INSERT < type_of lk d"
  proof -
    have "types_ok ?w" using I(1) d that by (auto simp: types_ok_def queues_def wait_write_def)
    then show ?thesis using h(2) n(2) I(3) by (simp add: lock_inv_def) (simp add: wait_write_def)
  qed
qed

subsection \<open>Locking keeps the invariant\<close>

lemma held_writers:
  assumes "lock_inv lk" "lk_write lk = w # ws" "v \<in> set (lk_write lk)"
  shows "v = w \<or> write_write_ok lk w v"
  using lock_invD(2) [OF assms(1)] assms(2,3) by (auto simp: held_ok_def)

lemma inv_lock_read:
  assumes inv: "lock_inv lk" and d: "d \<notin> set (queues lk)" and ty: "type_of lk d = ty" "TL_UNLOCK < ty" "ty \<le> TL_READ_NO_INSERT"
    "\<not> d_waiting (lk_data lk d)"
  shows "lock_inv (fst (lock_read env d ty lk))"
proof -
  note wait = inv_wait(1) [OF inv d, unfolded ty(1), OF ty(2,3)]
  note idle = lock_inv_set_idle [OF inv d]
  show ?thesis
  proof (cases "lk_write lk")
    case Nil
    then have "lock_inv (add_read env d ty lk)" by (intro inv_add_read [OF inv d ty]) simp
    with Nil wait show ?thesis by (simp add: lock_read_def)
  next
    case (Cons w ws)
    have g: "lock_inv (add_read env d ty lk)"
      if c: "thread_of lk d = thread_of lk w \<or> type_of lk w \<le> TL_WRITE_DELAYED \<and>
          (ty \<le> TL_READ_HIGH_PRIORITY \<or> type_of lk w \<noteq> TL_WRITE_CONCURRENT_INSERT \<and> type_of lk w \<noteq> TL_WRITE_ALLOW_READ)"
    proof (rule inv_add_read [OF inv d ty], rule ballI)
      fix v assume v: "v \<in> set (lk_write lk)"
      show "read_write_ok lk v d"
        using held_writers [OF inv Cons v] c ty(1)
        by (auto simp: read_write_ok_def write_write_ok_def tl_order)
    qed
    show ?thesis using g wait idle by (simp add: lock_read_def Cons)
  qed
qed

lemma inv_lock_write:
  assumes inv: "lock_inv lk" and d: "d \<notin> set (queues lk)" and ty: "type_of lk d = ty" "TL_READ_NO_INSERT < ty" "\<not> d_waiting (lk_data lk d)"
    and own: "lk_write lk \<noteq> [] \<Longrightarrow> thread_of lk (hd (lk_write lk)) = thread_of lk d \<Longrightarrow>
      TL_WRITE_DELAYED < type_of lk (hd (lk_write lk)) \<and> TL_WRITE_DELAYED < ty \<or>
      type_of lk (hd (lk_write lk)) = TL_WRITE_ALLOW_WRITE \<and> ty = TL_WRITE_ALLOW_WRITE"
    and up: "TL_WRITE_DELAYED < le_upgraded env"
  shows "lock_inv (fst (lock_write env d ty lk))"
proof (cases "lk_write lk")
  case (Cons w ws)
  have g: "lock_inv (add_write env d lk)"
    if c: "type_of lk w \<noteq> TL_WRITE_ONLY" "thread_of lk d = thread_of lk w \<or> ty = TL_WRITE_ALLOW_WRITE \<and> type_of lk w = TL_WRITE_ALLOW_WRITE"
  proof (rule inv_add_write [OF inv d])
    have o: "TL_WRITE_DELAYED < type_of lk w \<and> TL_WRITE_DELAYED < ty \<and> thread_of lk d = thread_of lk w \<or>
        type_of lk w = TL_WRITE_ALLOW_WRITE \<and> ty = TL_WRITE_ALLOW_WRITE" using own c Cons by auto
    show "\<forall>r \<in> set (lk_read lk). read_write_ok lk d r"
    proof
      fix r assume "r \<in> set (lk_read lk)"
      then have "read_write_ok lk w r" using lock_invD(2) [OF inv] Cons by (auto simp: held_ok_def)
      then show "read_write_ok lk d r" using o c(1) ty(1) by (auto simp: read_write_ok_def tl_order)
    qed
    show "\<forall>v \<in> set (lk_write lk). write_write_ok lk v d"
    proof
      fix v assume v: "v \<in> set (lk_write lk)"
      show "write_write_ok lk v d" using held_writers [OF inv Cons v] o c(1) ty(1) by (auto simp: write_write_ok_def tl_order)
    qed
  qed (use ty in simp_all)
  have "lock_inv (set_type d TL_UNLOCK lk)" by (rule lock_inv_set_idle [OF inv d])
  with g inv_wait(2) [OF inv d] ty Cons show ?thesis by (simp add: lock_write_def)
next
  case Nil
  define up where "up = (ty = TL_WRITE_CONCURRENT_INSERT \<and> le_check_status env (d_param (lk_data lk d)))"
  define ty' where "ty' = (if up then le_upgraded env else ty)"
  define lk' where "lk' = (if up then set_type d ty' lk else lk)"
  have i: "lock_inv lk'" using inv lock_inv_set_idle [OF inv d] by (simp add: lk'_def)
  have f: "set (queues lk') = set (queues lk)" "type_of lk' d = ty'" "\<not> d_waiting (lk_data lk' d)" "lk_write lk' = []" "lk_read lk' = lk_read lk"
    "lk_write_wait lk' = lk_write_wait lk" "lk_read_no_write_count lk' = lk_read_no_write_count lk"
    using ty Nil by (simp_all add: lk'_def ty'_def queues_def)
  have d': "d \<notin> set (queues lk')" using d f(1) by simp
  have t: "TL_READ_NO_INSERT < ty'" using ty up by (auto simp: ty'_def tl_order)
  have w: "lock_inv (wait_write d lk')" by (rule inv_wait(2) [OF i d']) (simp add: f t)
  have g: "lock_inv (add_write env d lk')"
    if c: "lk_read lk = [] \<or> ty' \<le> TL_WRITE_DELAYED \<and>
        ((ty' \<noteq> TL_WRITE_CONCURRENT_INSERT \<and> ty' \<noteq> TL_WRITE_ALLOW_WRITE) \<or> lk_read_no_write_count lk = 0)"
  proof (rule inv_add_write [OF i d'])
    have n: "type_of lk' r \<noteq> TL_READ_NO_INSERT" if "lk_read_no_write_count lk = 0" "r \<in> set (lk_read lk)" for r
      using lock_invD(3) [OF i] that f by (auto simp: no_inserts_def filter_empty_conv)
    show "\<forall>r \<in> set (lk_read lk'). read_write_ok lk' d r" using c n f by (auto simp: read_write_ok_def)
  qed (use f t in simp_all)
  have "lock_inv (wait_write d lk)" using inv_wait(2) [OF inv d] ty by simp
  then show ?thesis using w g
    unfolding lock_write_def Nil list.case Let_def up_def [symmetric] ty'_def [symmetric] lk'_def [symmetric] f(5,7) by simp
qed

text \<open>
  What the users of a lock keep to. A thread that holds a write lock asks for another only if both
  shut out the others, or both are \<open>TL_WRITE_ALLOW_WRITE\<close>; the comment in \<open>thr_lock\<close> says that the rest never
  happens.
\<close>

definition may_request :: "THR_LOCK \<Rightarrow> nat \<Rightarrow> nat \<Rightarrow> thr_lock_type \<Rightarrow> bool" where
  "may_request lk thread d ty \<longleftrightarrow> d \<notin> set (queues lk) \<and> TL_UNLOCK < ty \<and>
     (TL_READ_NO_INSERT < ty \<longrightarrow> lk_write lk \<noteq> [] \<longrightarrow> thread_of lk (hd (lk_write lk)) = thread \<longrightarrow>
       TL_WRITE_DELAYED < type_of lk (hd (lk_write lk)) \<and> TL_WRITE_DELAYED < ty \<or>
       type_of lk (hd (lk_write lk)) = TL_WRITE_ALLOW_WRITE \<and> ty = TL_WRITE_ALLOW_WRITE)"

lemma thr_lock_inv:
  assumes inv: "lock_inv lk" and may: "may_request lk thread d ty" and up: "TL_WRITE_DELAYED < le_upgraded env"
  shows "lock_inv (fst (thr_lock env thread d ty lk))"
proof -
  define lk1 where "lk1 = set_data d (\<lambda>x. x\<lparr>d_waiting := False, d_type := ty, d_thread := thread\<rparr>) lk"
  have d: "d \<notin> set (queues lk)" using may by (simp add: may_request_def)
  have i: "lock_inv lk1" unfolding lk1_def by (rule lock_inv_set_idle [OF inv d])
  have f: "set (queues lk1) = set (queues lk)" "type_of lk1 d = ty" "\<not> d_waiting (lk_data lk1 d)" "thread_of lk1 d = thread"
    "lk_write lk1 = lk_write lk" "lk_write_wait lk1 = lk_write_wait lk" "lk_read lk1 = lk_read lk"
    by (simp_all add: lk1_def queues_def)
  have d1: "d \<notin> set (queues lk1)" using d f(1) by simp
  have h: "lk_data lk1 (hd (lk_write lk)) = lk_data lk (hd (lk_write lk))" if "lk_write lk \<noteq> []"
  proof -
    have "hd (lk_write lk) \<in> set (queues lk)" using that by (simp add: queues_def)
    then have "hd (lk_write lk) \<noteq> d" using d by blast
    then show ?thesis by (simp add: lk1_def)
  qed
  have own: "TL_WRITE_DELAYED < type_of lk1 (hd (lk_write lk)) \<and> TL_WRITE_DELAYED < ty \<or>
      type_of lk1 (hd (lk_write lk)) = TL_WRITE_ALLOW_WRITE \<and> ty = TL_WRITE_ALLOW_WRITE"
    if "TL_READ_NO_INSERT < ty" "lk_write lk \<noteq> []" "thread_of lk1 (hd (lk_write lk)) = thread"
    using may that h by (simp add: may_request_def)
  have idle: "lock_inv (set_type d TL_UNLOCK lk1)" by (rule lock_inv_set_idle [OF i d1])
  show ?thesis
  proof (cases "ty \<le> TL_READ_NO_INSERT")
    case True
    have "TL_UNLOCK < ty" using may by (simp add: may_request_def)
    from inv_lock_read [OF i d1 f(2) this True f(3)] show ?thesis using True
      by (simp add: thr_lock_def Let_def lk1_def [symmetric])
  next
    case False
    then have t: "TL_READ_NO_INSERT < ty" by simp
    have w: "lock_inv (fst (lock_write env d ty lk1))"
      by (rule inv_lock_write [OF i d1 f(2) t f(3) _ up]) (use own t f in auto)
    let ?lk2 = "set_type d (le_upgraded env) lk1"
    have w2: "lock_inv (fst (lock_write env d (le_upgraded env) ?lk2))" if c: "ty = TL_WRITE_CONCURRENT_INSERT"
    proof (rule inv_lock_write [OF lock_inv_set_idle [OF i d1] _ _ _ _ _ up])
      show "d \<notin> set (queues ?lk2)" using d1 by (simp add: queues_def)
      show "TL_READ_NO_INSERT < le_upgraded env" using up by (simp add: tl_order)
      assume a: "lk_write ?lk2 \<noteq> []" "thread_of ?lk2 (hd (lk_write ?lk2)) = thread_of ?lk2 d"
      have "hd (lk_write lk) \<in> set (queues lk)" using a(1) f(5) by (simp add: queues_def)
      then have "hd (lk_write lk) \<noteq> d" using d by blast
      then show "TL_WRITE_DELAYED < type_of ?lk2 (hd (lk_write ?lk2)) \<and> TL_WRITE_DELAYED < le_upgraded env \<or>
          type_of ?lk2 (hd (lk_write ?lk2)) = TL_WRITE_ALLOW_WRITE \<and> le_upgraded env = TL_WRITE_ALLOW_WRITE"
        using own [OF t] a f(4,5) c by (simp add: tl_order)
    qed (use f in simp_all)
    have ww: "lock_inv (wait_write d lk1)" by (rule inv_wait(2) [OF i d1]) (simp add: f t)
    show ?thesis using False w w2 ww idle unfolding thr_lock_def Let_def lk1_def [symmetric]
      by (cases "ty = TL_WRITE_DELAYED") simp_all
  qed
qed

subsection \<open>Removing and waking requests\<close>

lemma no_inserts_remove1:
  assumes "distinct ds"
  shows "no_inserts lk (remove1 d ds) = no_inserts lk ds - (if d \<in> set ds \<and> type_of lk d = TL_READ_NO_INSERT then 1 else 0)"
  by (simp add: no_inserts_def filter_remove1 length_remove1)

lemma drop_request_simps [simp]:
  "lk_read (drop_request d lk) = remove1 d (lk_read lk)" "lk_read_wait (drop_request d lk) = remove1 d (lk_read_wait lk)"
  "lk_write (drop_request d lk) = remove1 d (lk_write lk)" "lk_write_wait (drop_request d lk) = remove1 d (lk_write_wait lk)"
  "lk_data (drop_request d lk) = lk_data lk" "lk_read_no_write_count (drop_request d lk) = lk_read_no_write_count lk"
  by (simp_all add: drop_request_def)

lemma inv_drop:
  assumes inv: "lock_inv lk" and d: "d \<in> set (queues lk)"
    and lk': "lk' = (drop_request d lk)\<lparr>lk_read_no_write_count :=
      lk_read_no_write_count lk - (if d \<in> set (lk_read lk) \<and> type_of lk d = TL_READ_NO_INSERT then 1 else 0), lk_calls := calls\<rparr>"
  shows "lock_inv lk'" "d \<notin> set (queues lk')" "lock_inv (set_type d ty lk')"
proof -
  note I = lock_invD [OF inv]
  note T = types_okD(1) [OF I(1), unfolded queues_def]
  have f: "lk_read lk' = remove1 d (lk_read lk)" "lk_read_wait lk' = remove1 d (lk_read_wait lk)" "lk_write lk' = remove1 d (lk_write lk)"
    "lk_write_wait lk' = remove1 d (lk_write_wait lk)" "lk_data lk' = lk_data lk"
    by (simp_all add: lk')
  have dis: "distinct (lk_read lk)" "distinct (lk_read_wait lk)" "distinct (lk_write lk)" "distinct (lk_write_wait lk)" using T by simp_all
  have S: "set (remove1 d (lk_read lk)) = set (lk_read lk) - {d}" "set (remove1 d (lk_read_wait lk)) = set (lk_read_wait lk) - {d}"
    "set (remove1 d (lk_write lk)) = set (lk_write lk) - {d}" "set (remove1 d (lk_write_wait lk)) = set (lk_write_wait lk) - {d}"
    using dis by simp_all
  show nd: "d \<notin> set (queues lk')" by (simp add: queues_def f S)
  have "types_ok lk'" using I(1) unfolding types_ok_def queues_def f by (auto simp: S dis distinct_remove1)
  moreover have "held_ok lk'" using I(2) unfolding held_ok_def read_write_ok_def write_write_ok_def f S by blast
  moreover have "lk_read_no_write_count lk' = no_inserts lk' (lk_read lk')"
  proof -
    have "no_inserts lk' (lk_read lk') = no_inserts lk (lk_read lk')" by (simp add: no_inserts_def f)
    then show ?thesis using I(3) no_inserts_remove1 [OF dis(1), of lk d] by (simp add: f(1)) (simp add: lk')
  qed
  ultimately show i: "lock_inv lk'" by (simp add: lock_inv_def)
  show "lock_inv (set_type d ty lk')" by (rule lock_inv_set_idle [OF i nd])
qed

lemma free_all_simps:
  "lk_read (free_all_read_locks c lk) = lk_read lk @ filter (\<lambda>d. \<not> (c \<and> type_of lk d = TL_READ_NO_INSERT)) (lk_read_wait lk)"
  "lk_read_wait (free_all_read_locks c lk) = filter (\<lambda>d. c \<and> type_of lk d = TL_READ_NO_INSERT) (lk_read_wait lk)"
  "lk_write (free_all_read_locks c lk) = lk_write lk" "lk_write_wait (free_all_read_locks c lk) = lk_write_wait lk"
  "type_of (free_all_read_locks c lk) d = type_of lk d" "thread_of (free_all_read_locks c lk) d = thread_of lk d"
  "d_waiting (lk_data (free_all_read_locks c lk) d) \<longleftrightarrow>
     d_waiting (lk_data lk d) \<and> \<not> (d \<in> set (lk_read_wait lk) \<and> \<not> (c \<and> type_of lk d = TL_READ_NO_INSERT))"
  by (simp_all add: free_all_read_locks_def Let_def)

lemma inv_free_all:
  assumes inv: "lock_inv lk"
    and ok: "\<And>w r. w \<in> set (lk_write lk) \<Longrightarrow> r \<in> set (lk_read_wait lk) \<Longrightarrow> \<not> (c \<and> type_of lk r = TL_READ_NO_INSERT) \<Longrightarrow> read_write_ok lk w r"
  shows "lock_inv (free_all_read_locks c lk)"
proof -
  let ?lk = "free_all_read_locks c lk"
  note I = lock_invD [OF inv] and F = free_all_simps [of c lk]
  note T = types_okD [OF I(1)]
  have "types_ok ?lk" using I(1) unfolding types_ok_def queues_def F by auto
  moreover have "held_ok ?lk" using I(2) ok unfolding held_ok_def read_write_ok_def write_write_ok_def F by auto
  moreover have "lk_read_no_write_count ?lk = no_inserts ?lk (lk_read ?lk)"
    using I(3) unfolding no_inserts_def F by (simp add: free_all_read_locks_def Let_def)
  ultimately show ?thesis by (simp add: lock_inv_def)
qed

lemma inv_free_waiting:
  assumes "lock_inv lk"
    and "\<And>w. w \<in> set (lk_write lk) \<Longrightarrow> type_of lk w \<le> TL_WRITE_DELAYED \<and> (type_of lk w = TL_WRITE_CONCURRENT_INSERT \<longrightarrow> c)"
  shows "lock_inv (free_waiting_reads c lk)"
  unfolding free_waiting_reads_def using assms inv_free_all [OF assms(1), of c] by (auto simp: read_write_ok_def)

lemma give_write_simps [simp]:
  "lk_read (give_write d lk) = lk_read lk" "lk_read_wait (give_write d lk) = lk_read_wait lk"
  "lk_write (give_write d lk) = lk_write lk @ [d]" "lk_write_wait (give_write d lk) = remove1 d (lk_write_wait lk)"
  "type_of (give_write d lk) e = type_of lk e" "thread_of (give_write d lk) e = thread_of lk e"
  "d_waiting (lk_data (give_write d lk) e) \<longleftrightarrow> e \<noteq> d \<and> d_waiting (lk_data lk e)"
  "lk_read_no_write_count (give_write d lk) = lk_read_no_write_count lk"
  by (simp_all add: give_write_def)

lemma inv_give_write:
  assumes inv: "lock_inv lk" and d: "d \<in> set (lk_write_wait lk)"
    and ok: "\<forall>r \<in> set (lk_read lk). read_write_ok lk d r" "\<forall>w \<in> set (lk_write lk). write_write_ok lk w d"
  shows "lock_inv (give_write d lk)"
proof -
  let ?lk = "give_write d lk"
  note I = lock_invD [OF inv] and T = types_okD(1) [OF lock_invD(1) [OF inv], unfolded queues_def]
  have s: "set (remove1 d (lk_write_wait lk)) = set (lk_write_wait lk) - {d}" using T by simp
  have w': "\<forall>w \<in> set (lk_write lk). write_write_ok lk d w" using ok(2) by (auto simp: write_write_ok_def)
  have "types_ok ?lk" using I(1) d unfolding types_ok_def queues_def by (auto simp: s distinct_remove1)
  moreover have "held_ok ?lk" using I(2) ok w' by (auto simp: held_ok_def read_write_ok_def write_write_ok_def)
  moreover have "lk_read_no_write_count ?lk = no_inserts ?lk (lk_read ?lk)" using I(3) by (simp add: no_inserts_def)
  ultimately show ?thesis by (simp add: lock_inv_def)
qed

lemma inv_retype:
  assumes inv: "lock_inv lk" and d: "d \<in> set (lk_write lk) \<or> d \<in> set (lk_write_wait lk)" and ty: "TL_READ_NO_INSERT < ty"
    and w: "d \<in> set (lk_write lk) \<Longrightarrow> lk_write lk = [d] \<and> lk_read lk = []"
  shows "lock_inv (set_type d ty lk)"
proof -
  let ?lk = "set_type d ty lk"
  note I = lock_invD [OF inv] and T = types_okD(1) [OF lock_invD(1) [OF inv], unfolded queues_def]
  have nr: "d \<notin> set (lk_read lk)" "d \<notin> set (lk_read_wait lk)" using T d by auto
  have "types_ok ?lk" using I(1) nr ty by (auto simp: types_ok_def queues_def)
  moreover have "held_ok ?lk" using I(2) w nr by (auto simp: held_ok_def read_write_ok_def write_write_ok_def)
  moreover have "no_inserts ?lk (lk_read lk) = no_inserts lk (lk_read lk)" using nr by (intro no_inserts_cong) auto
  ultimately show ?thesis using I(3) by (simp add: lock_inv_def)
qed

lemma give_writes_inv:
  assumes "lock_inv lk" "lk_write_wait lk = ds" "ds \<noteq> []" "lk_read lk = []"
    "lk_write lk = [] \<or> (\<forall>w \<in> set (lk_write lk). type_of lk w = TL_WRITE_ALLOW_WRITE) \<and> type_of lk (hd ds) = TL_WRITE_ALLOW_WRITE"
    "give_writes env ds lk = (lk', ty)"
  shows "lock_inv lk' \<and> lk_read lk' = [] \<and> lk_read_wait lk' = lk_read_wait lk \<and> lk_write lk' \<noteq> [] \<and> (\<forall>w \<in> set (lk_write lk'). type_of lk' w = ty)"
  using assms
proof (induction env ds lk rule: give_writes.induct)
  case (2 env d ds lk)
  let ?lk1 = "give_write d lk"
  define lk2 where "lk2 = (if type_of ?lk1 d = TL_WRITE_CONCURRENT_INSERT \<and> le_check_status env (d_param (lk_data ?lk1 d))
                then set_type d TL_WRITE ?lk1 else ?lk1)"
  have "\<forall>w \<in> set (lk_write lk). write_write_ok lk w d" using 2(6) by (auto simp: write_write_ok_def)
  then have i1: "lock_inv ?lk1" using 2(2,3,5) by (intro inv_give_write) auto
  have w0: "lk_write lk = [] \<or> type_of lk d = TL_WRITE_ALLOW_WRITE" using 2(6) by auto
  then have i2: "lock_inv lk2" using i1 2(5) by (auto simp: lk2_def intro!: inv_retype simp: tl_order)
  have f: "lk_read lk2 = []" "lk_read_wait lk2 = lk_read_wait lk" "lk_write lk2 = lk_write lk @ [d]" "lk_write_wait lk2 = ds"
    "e \<noteq> d \<Longrightarrow> type_of lk2 e = type_of lk e" for e
    using 2(3,5) by (simp_all add: lk2_def)
  have nd: "d \<notin> set (lk_write lk)" "d \<notin> set ds"
    using types_okD(1) [OF lock_invD(1) [OF 2(2)]] 2(3) by (auto simp: queues_def)
  have d2: "type_of lk2 d = TL_WRITE_ALLOW_WRITE \<longleftrightarrow> type_of lk d = TL_WRITE_ALLOW_WRITE" by (simp add: lk2_def)
  have all: "\<forall>w \<in> set (lk_write lk2). type_of lk2 w = type_of lk2 d"
  proof (cases "lk_write lk = []")
    case True
    then show ?thesis by (simp add: f)
  next
    case False
    then have "\<forall>w \<in> set (lk_write lk). type_of lk w = TL_WRITE_ALLOW_WRITE" "type_of lk2 d = TL_WRITE_ALLOW_WRITE" using 2(6) d2 by auto
    moreover have "type_of lk2 w = type_of lk w" if "w \<in> set (lk_write lk)" for w by (rule f(5)) (use that nd in blast)
    ultimately show ?thesis by (simp add: f(3))
  qed
  have e: "give_writes env (d # ds) lk =
      (if type_of lk2 d \<noteq> TL_WRITE_ALLOW_WRITE \<or> ds = [] \<or> type_of lk2 (hd ds) \<noteq> TL_WRITE_ALLOW_WRITE
       then (lk2, type_of lk2 d) else give_writes env ds lk2)"
    unfolding give_writes.simps Let_def lk2_def by (rule refl)
  show ?case
  proof (cases "type_of lk2 d \<noteq> TL_WRITE_ALLOW_WRITE \<or> ds = [] \<or> type_of lk2 (hd ds) \<noteq> TL_WRITE_ALLOW_WRITE")
    case True
    have "(lk2, type_of lk2 d) = (lk', ty)" using 2(7) unfolding e if_P [OF True] .
    then have l: "lk' = lk2" "ty = type_of lk2 d" by blast+
    have "lk_write lk2 \<noteq> []" by (simp add: f(3))
    then show ?thesis unfolding l by (intro conjI i2 f(1,2) all)
  next
    case False
    then have "give_writes env ds lk2 = (lk', ty)" using 2(7) unfolding e by simp
    from 2(1) [OF refl lk2_def False i2 f(4) _ f(1) _ this] False all f(2) show ?thesis by auto
  qed
qed simp

lemma give_shared_inv:
  assumes "lock_inv lk" "lk_write_wait lk = ds" "ds \<noteq> []" "type_of lk (hd ds) = ty" "ty \<le> TL_WRITE_DELAYED"
    "shared_insert ty \<Longrightarrow> lk_read_no_write_count lk = 0"
    "lk_write lk = [] \<or> (\<forall>w \<in> set (lk_write lk). type_of lk w = TL_WRITE_ALLOW_WRITE) \<and> ty = TL_WRITE_ALLOW_WRITE"
  shows "lock_inv (give_shared ds ty lk) \<and> (\<forall>w \<in> set (lk_write (give_shared ds ty lk)). type_of (give_shared ds ty lk) w = ty) \<and>
    lk_write (give_shared ds ty lk) \<noteq> [] \<and> lk_read (give_shared ds ty lk) = lk_read lk \<and>
    lk_read_wait (give_shared ds ty lk) = lk_read_wait lk"
  using assms
proof (induction ds ty lk rule: give_shared.induct)
  case (2 d ds ty lk)
  let ?lk1 = "give_write d lk"
  have n: "type_of lk r \<noteq> TL_READ_NO_INSERT" if "shared_insert ty" "r \<in> set (lk_read lk)" for r
    using lock_invD(3) [OF 2(2)] 2(7) that by (auto simp: no_inserts_def filter_empty_conv)
  have r: "\<forall>r \<in> set (lk_read lk). read_write_ok lk d r" using n 2(5,6) by (auto simp: read_write_ok_def shared_insert_def)
  have w: "\<forall>w \<in> set (lk_write lk). write_write_ok lk w d" using 2(5,8) by (auto simp: write_write_ok_def)
  have i1: "lock_inv ?lk1" using 2(3) by (intro inv_give_write [OF 2(2) _ r w]) simp
  have f: "lk_write_wait ?lk1 = ds" "\<forall>w \<in> set (lk_write ?lk1). type_of ?lk1 w = ty" using 2(3,5,8) by auto
  show ?case
  proof (cases "ty = TL_WRITE_ALLOW_WRITE \<and> ds \<noteq> [] \<and> type_of ?lk1 (hd ds) = TL_WRITE_ALLOW_WRITE")
    case True
    have "lock_inv (give_shared ds ty ?lk1) \<and> (\<forall>w \<in> set (lk_write (give_shared ds ty ?lk1)). type_of (give_shared ds ty ?lk1) w = ty) \<and>
      lk_write (give_shared ds ty ?lk1) \<noteq> [] \<and> lk_read (give_shared ds ty ?lk1) = lk_read ?lk1 \<and>
      lk_read_wait (give_shared ds ty ?lk1) = lk_read_wait ?lk1"
      by (rule 2(1) [OF refl True i1 f(1)]) (use True 2(6,7) f in auto)
    with True show ?thesis by (simp add: Let_def)
  next
    case False
    then have "give_shared (d # ds) ty lk = ?lk1" by (auto simp: Let_def)
    then show ?thesis using i1 f by simp
  qed
qed simp

lemma inv_same_count:
  assumes "lock_inv lk" "lk' = lk\<lparr>lk_write_lock_count := n\<rparr>"
  shows "lock_inv lk'"
  by (rule lock_inv_cong [OF assms(1)]) (simp add: assms(2) same_queues_def)

lemma wake_idle_inv:
  assumes inv: "lock_inv lk" and idle: "lk_write lk = []" "lk_read lk = []"
  shows "lock_inv (wake_idle env lk)" "lk_write (wake_idle env lk) = [] \<Longrightarrow> lk_read (wake_idle env lk) = [] \<Longrightarrow>
    lk_write_wait (wake_idle env lk) = [] \<and> lk_read_wait (wake_idle env lk) = []"
proof -
  have "lock_inv (wake_idle env lk) \<and> (lk_write (wake_idle env lk) = [] \<longrightarrow> lk_read (wake_idle env lk) = [] \<longrightarrow>
    lk_write_wait (wake_idle env lk) = [] \<and> lk_read_wait (wake_idle env lk) = [])"
  proof (cases "lk_write_wait lk")
    case Nil
    have "lock_inv (free_waiting_reads False lk)" by (rule inv_free_waiting [OF inv]) (simp add: idle)
    then show ?thesis using Nil by (simp add: wake_idle_def) (simp add: free_waiting_reads_def free_all_simps)
  next
    case (Cons d ds)
    let ?c = "type_of lk d \<noteq> TL_WRITE_LOW_PRIORITY \<or> lk_read_wait lk = [] \<or> type_of lk (hd (lk_read_wait lk)) < TL_READ_HIGH_PRIORITY"
    define many where "many = (le_max_writes env < lk_write_lock_count lk)"
    define lk1 where "lk1 = lk\<lparr>lk_write_lock_count := (if many then 0 else lk_write_lock_count lk + 1)\<rparr>"
    obtain lk2 ty where g: "give_writes env (d # ds) lk1 = (lk2, ty)" by fastforce
    have f: "lk_write_wait lk1 = d # ds" "lk_read lk1 = []" "lk_write lk1 = []" "lk_read_wait lk1 = lk_read_wait lk"
      using Cons idle by (simp_all add: lk1_def)
    have i1: "lock_inv lk1" by (rule inv_same_count [OF inv lk1_def])
    have G: "lock_inv lk2 \<and> lk_read lk2 = [] \<and> lk_read_wait lk2 = lk_read_wait lk1 \<and> lk_write lk2 \<noteq> [] \<and> (\<forall>w \<in> set (lk_write lk2). type_of lk2 w = ty)"
      by (rule give_writes_inv [OF i1 f(1) _ f(2) _ g]) (simp_all add: f)
    have i2: "lock_inv (free_waiting_reads (shared_insert ty) lk2)" if "\<not> TL_WRITE_LOW_PRIORITY \<le> ty"
      by (rule inv_free_waiting) (use G that in \<open>auto simp: shared_insert_def tl_order\<close>)
    have w: "lk_write (free_waiting_reads c lk2) = lk_write lk2" for c by (simp add: free_waiting_reads_def free_all_simps)
    have i3: "lock_inv (free_all_read_locks False lk1)" by (rule inv_free_all [OF i1]) (simp add: f)
    have e: "wake_idle env lk =
      (if ?c then if many \<and> lk_read_wait lk1 \<noteq> [] then free_all_read_locks False lk1
         else if TL_WRITE_LOW_PRIORITY \<le> ty then lk2 else free_waiting_reads (shared_insert ty) lk2
       else free_waiting_reads (shared_insert (type_of lk d)) lk)"
      unfolding wake_idle_def Cons list.case Let_def many_def [symmetric] lk1_def [symmetric] f(1) g prod.case by simp
    show ?thesis
    proof (cases ?c)
      case True
      then show ?thesis using i2 i3 G w unfolding e by (simp add: free_all_simps)
    next
      case False
      then have c: "shared_insert (type_of lk d) = False" by (simp add: shared_insert_def)
      have "lock_inv (free_waiting_reads False lk)" by (rule inv_free_waiting [OF inv]) (simp add: idle)
      then show ?thesis using False unfolding e c by (simp add: free_waiting_reads_def free_all_simps)
    qed
  qed
  then show "lock_inv (wake_idle env lk)" "lk_write (wake_idle env lk) = [] \<Longrightarrow> lk_read (wake_idle env lk) = [] \<Longrightarrow>
    lk_write_wait (wake_idle env lk) = [] \<and> lk_read_wait (wake_idle env lk) = []" by blast+
qed

lemma wake_writes_inv:
  assumes inv: "lock_inv lk" and idle: "lk_write lk = []"
  shows "lock_inv (wake_writes env lk)" "lk_read lk \<noteq> [] \<Longrightarrow> lk_read (wake_writes env lk) \<noteq> []"
proof -
  have fr: "lk_read (free_waiting_reads c lk1) \<noteq> []" if "lk_read lk1 \<noteq> []" for c lk1
    using that by (simp add: free_waiting_reads_def free_all_simps)
  have "lock_inv (wake_writes env lk) \<and> (lk_read lk \<noteq> [] \<longrightarrow> lk_read (wake_writes env lk) \<noteq> [])"
  proof (cases "lk_write_wait lk")
    case Nil
    have "lock_inv (free_waiting_reads False lk)" by (rule inv_free_waiting [OF inv]) (simp add: idle)
    then show ?thesis using Nil fr by (simp add: wake_writes_def)
  next
    case (Cons d ds)
    let ?ty = "type_of lk d"
    have up: "lock_inv (set_type d TL_WRITE lk)"
      by (rule inv_retype [OF inv]) (use Cons idle in \<open>simp_all add: tl_order\<close>)
    have u: "lock_inv (free_waiting_reads False (set_type d TL_WRITE lk))" by (rule inv_free_waiting [OF up]) (simp add: idle)
    have g: "lock_inv (free_waiting_reads (shared_insert ?ty) (give_shared (d # ds) ?ty lk))"
      "lk_read lk \<noteq> [] \<Longrightarrow> lk_read (free_waiting_reads (shared_insert ?ty) (give_shared (d # ds) ?ty lk)) \<noteq> []"
      if "?ty \<le> TL_WRITE_DELAYED" "(?ty \<noteq> TL_WRITE_CONCURRENT_INSERT \<and> ?ty \<noteq> TL_WRITE_ALLOW_WRITE) \<or> lk_read_no_write_count lk = 0"
    proof -
      have G: "lock_inv (give_shared (d # ds) ?ty lk) \<and> (\<forall>w \<in> set (lk_write (give_shared (d # ds) ?ty lk)). type_of (give_shared (d # ds) ?ty lk) w = ?ty) \<and>
        lk_write (give_shared (d # ds) ?ty lk) \<noteq> [] \<and> lk_read (give_shared (d # ds) ?ty lk) = lk_read lk \<and>
        lk_read_wait (give_shared (d # ds) ?ty lk) = lk_read_wait lk"
        by (rule give_shared_inv [OF inv Cons]) (use that idle in \<open>auto simp: shared_insert_def\<close>)
      show "lock_inv (free_waiting_reads (shared_insert ?ty) (give_shared (d # ds) ?ty lk))"
        by (rule inv_free_waiting) (use G that in \<open>auto simp: shared_insert_def\<close>)
      show "lk_read (free_waiting_reads (shared_insert ?ty) (give_shared (d # ds) ?ty lk)) \<noteq> []" if "lk_read lk \<noteq> []"
        by (rule fr) (use G that in simp)
    qed
    show ?thesis using inv u g fr [of "set_type d TL_WRITE lk"] unfolding wake_writes_def Cons list.case Let_def by simp
  qed
  then show "lock_inv (wake_writes env lk)" "lk_read lk \<noteq> [] \<Longrightarrow> lk_read (wake_writes env lk) \<noteq> []" by blast+
qed

text \<open>A request that may be unlocked: one that holds its lock, or a delayed write lock that waits.\<close>

definition may_unlock :: "THR_LOCK \<Rightarrow> nat \<Rightarrow> bool" where
  "may_unlock lk d \<longleftrightarrow> d \<in> set (lk_read lk) \<or> d \<in> set (lk_write lk) \<or> d \<in> set (lk_write_wait lk) \<and> type_of lk d = TL_WRITE_DELAYED"

lemma thr_unlock_inv:
  assumes inv: "lock_inv lk" and d: "may_unlock lk d"
  shows "lock_inv (thr_unlock env d lk)"
    "lk_write (thr_unlock env d lk) = [] \<Longrightarrow> lk_read (thr_unlock env d lk) = [] \<Longrightarrow>
      lk_write_wait (thr_unlock env d lk) = [] \<and> lk_read_wait (thr_unlock env d lk) = []"
proof -
  let ?ty = "type_of lk d"
  define lk1 where "lk1 = (let lk = drop_request d lk;
          lk = (if TL_WRITE_CONCURRENT_INSERT \<le> ?ty then update_status env d lk else lk);
          lk = (if ?ty = TL_READ_NO_INSERT then lk\<lparr>lk_read_no_write_count := lk_read_no_write_count lk - 1\<rparr> else lk)
      in set_type d TL_UNLOCK lk)"
  have q: "d \<in> set (queues lk)" using d by (auto simp: may_unlock_def queues_def)
  have r: "?ty = TL_READ_NO_INSERT \<longleftrightarrow> d \<in> set (lk_read lk) \<and> ?ty = TL_READ_NO_INSERT"
    using d types_okD(3) [OF lock_invD(1) [OF inv], of d] by (auto simp: may_unlock_def)
  define calls where "calls = lk_calls (if TL_WRITE_CONCURRENT_INSERT \<le> ?ty then update_status env d (drop_request d lk) else drop_request d lk)"
  have "lk1 = set_type d TL_UNLOCK ((drop_request d lk)\<lparr>lk_read_no_write_count :=
      lk_read_no_write_count lk - (if d \<in> set (lk_read lk) \<and> ?ty = TL_READ_NO_INSERT then 1 else 0), lk_calls := calls\<rparr>)"
    unfolding r [symmetric] by (auto simp: lk1_def calls_def Let_def update_status_def drop_request_def set_data_def)
  then have i: "lock_inv lk1" using inv_drop(3) [OF inv q refl] by simp
  have e: "thr_unlock env d lk = (if lk_write lk1 \<noteq> [] then lk1 else if lk_read lk1 = [] then wake_idle env lk1 else wake_writes env lk1)"
    unfolding thr_unlock_def lk1_def Let_def by (rule refl)
  show "lock_inv (thr_unlock env d lk)" unfolding e using i wake_idle_inv(1) [OF i] wake_writes_inv(1) [OF i] by simp
  show "lk_write_wait (thr_unlock env d lk) = [] \<and> lk_read_wait (thr_unlock env d lk) = []"
    if "lk_write (thr_unlock env d lk) = []" "lk_read (thr_unlock env d lk) = []"
    using that wake_idle_inv(2) [OF i, of env] wake_writes_inv(2) [OF i, of env] unfolding e by (auto split: if_splits)
qed

subsection \<open>The other steps\<close>

lemma wait_end_inv:
  assumes inv: "lock_inv lk" and d: "d_waiting (lk_data lk d) \<Longrightarrow> d \<in> set (lk_read_wait lk) \<or> d \<in> set (lk_write_wait lk)"
  shows "lock_inv (fst (wait_end env d lk))"
proof (cases "d_waiting (lk_data lk d)")
  case True
  note w = d [OF True]
  have nr: "d \<notin> set (lk_read lk)" using types_okD(1) [OF lock_invD(1) [OF inv]] w by (auto simp: queues_def)
  have q: "d \<in> set (queues lk)" using w by (auto simp: queues_def)
  have e: "drop_request d lk = (drop_request d lk)\<lparr>lk_read_no_write_count :=
      lk_read_no_write_count lk - (if d \<in> set (lk_read lk) \<and> type_of lk d = TL_READ_NO_INSERT then 1 else 0), lk_calls := lk_calls lk\<rparr>"
    using nr by (simp add: drop_request_def)
  from inv_drop(3) [OF inv q e] True show ?thesis by (simp add: wait_end_def)
next
  case False
  have "lock_inv (set_type d TL_UNLOCK lk)" if "type_of lk d = TL_UNLOCK"
    by (rule lock_inv_cong [OF inv]) (use that in \<open>auto simp: same_queues_def\<close>)
  with False inv show ?thesis by (simp add: wait_end_def)
qed

lemma thr_abort_locks_inv:
  assumes inv: "lock_inv lk"
  shows "lock_inv (thr_abort_locks lk)"
proof -
  note I = lock_invD [OF inv] and T = types_okD(1) [OF lock_invD(1) [OF inv], unfolded queues_def]
  define gone where "gone = set (lk_read_wait lk) \<union> set (lk_write_wait lk)"
  define lk1 where "lk1 = lk\<lparr>lk_data := (\<lambda>d. if d \<in> gone then (lk_data lk d)\<lparr>d_type := TL_UNLOCK, d_waiting := False\<rparr> else lk_data lk d),
      lk_read_wait := [], lk_write_wait := []\<rparr>"
  have g: "lk_data lk1 d = lk_data lk d" if "d \<in> set (lk_read lk) \<union> set (lk_write lk)" for d
    using T that by (auto simp: lk1_def gone_def)
  have f: "lk_read lk1 = lk_read lk" "lk_write lk1 = lk_write lk" "lk_read_wait lk1 = []" "lk_write_wait lk1 = []"
    "lk_read_no_write_count lk1 = lk_read_no_write_count lk" by (simp_all add: lk1_def)
  have "types_ok lk1" using I(1) g unfolding types_ok_def queues_def f by auto
  moreover have "held_ok lk1" using I(2) g unfolding held_ok_def read_write_ok_def write_write_ok_def f by simp
  moreover have "no_inserts lk1 (lk_read lk) = no_inserts lk (lk_read lk)" using g by (intro no_inserts_cong) auto
  ultimately have i: "lock_inv lk1" using I(3) by (simp add: lock_inv_def f)
  show ?thesis
  proof (cases "lk_write lk")
    case Nil
    then show ?thesis using i by (simp add: thr_abort_locks_def Let_def lk1_def gone_def)
  next
    case (Cons w ws)
    let ?lk = "set_type w TL_WRITE_ONLY lk1"
    note J = lock_invD [OF i] and wl = Cons [folded f(2)]
    have nr: "w \<notin> set (lk_read lk1)" "w \<notin> set ws" using types_okD(1) [OF J(1)] wl by (auto simp: queues_def)
    have "types_ok ?lk" using J(1) wl nr by (auto simp: types_ok_def queues_def tl_order)
    moreover have "held_ok ?lk" using J(2) wl nr by (auto simp: held_ok_def read_write_ok_def write_write_ok_def tl_order)
    moreover have "no_inserts ?lk (lk_read lk1) = no_inserts lk1 (lk_read lk1)" using nr by (intro no_inserts_cong) auto
    ultimately have "lock_inv ?lk" using J(3) by (simp add: lock_inv_def)
    then show ?thesis using Cons by (simp add: thr_abort_locks_def Let_def lk1_def gone_def)
  qed
qed

text \<open>A held write lock goes back to the front of the queue.\<close>

lemma inv_requeue:
  assumes inv: "lock_inv lk" and d: "d \<in> set (lk_write lk)" and ty: "TL_READ_NO_INSERT < ty"
    and lk': "lk' = (set_data d (\<lambda>x. x\<lparr>d_type := ty, d_waiting := True\<rparr>) lk)\<lparr>lk_write := remove1 d (lk_write lk),
      lk_write_wait := d # lk_write_wait lk, lk_calls := calls\<rparr>"
  shows "lock_inv lk'"
proof -
  note I = lock_invD [OF inv] and T = types_okD(1) [OF lock_invD(1) [OF inv], unfolded queues_def]
  have nr: "d \<notin> set (lk_read lk)" "d \<notin> set (lk_read_wait lk)" "d \<notin> set (lk_write_wait lk)" using T d by auto
  have s: "set (remove1 d (lk_write lk)) = set (lk_write lk) - {d}" using T by simp
  have f: "lk_read lk' = lk_read lk" "lk_read_wait lk' = lk_read_wait lk" "lk_write lk' = remove1 d (lk_write lk)"
    "lk_write_wait lk' = d # lk_write_wait lk" "lk_data lk' = (lk_data lk)(d := (lk_data lk d)\<lparr>d_type := ty, d_waiting := True\<rparr>)"
    "lk_read_no_write_count lk' = lk_read_no_write_count lk" by (simp_all add: lk')
  have "types_ok lk'" using I(1) nr ty unfolding types_ok_def queues_def f by (auto simp: s distinct_remove1)
  moreover have "held_ok lk'" using I(2) nr unfolding held_ok_def read_write_ok_def write_write_ok_def f by (auto simp: s)
  moreover have "no_inserts lk' (lk_read lk) = no_inserts lk (lk_read lk)" using nr by (intro no_inserts_cong) (auto simp: f)
  ultimately show ?thesis using I(3) by (simp add: lock_inv_def f(1,6))
qed

lemma held_delayed_alone:
  assumes inv: "lock_inv lk" and d: "d \<in> set (lk_write lk)" "type_of lk d = TL_WRITE_DELAYED"
  shows "lk_write lk = [d]"
proof -
  have "v = d" if "v \<in> set (lk_write lk)" for v
    using lock_invD(2) [OF inv] d that by (auto simp: held_ok_def write_write_ok_def tl_order)
  then have s: "set (lk_write lk) = {d}" using d(1) by blast
  have "distinct (lk_write lk)" using types_okD(1) [OF lock_invD(1) [OF inv]] by (simp add: queues_def)
  from distinct_card [OF this] have "length (lk_write lk) = Suc 0" unfolding s by simp
  then obtain x where "lk_write lk = [x]" unfolding length_eq_1_conv by blast
  with s show ?thesis by simp
qed

definition may_upgrade :: "THR_LOCK \<Rightarrow> nat \<Rightarrow> bool" where
  "may_upgrade lk d \<longleftrightarrow> d \<in> set (lk_write_wait lk) \<or> d \<in> set (lk_write lk) \<and> type_of lk d = TL_WRITE_DELAYED \<or>
     type_of lk d = TL_UNLOCK \<or> TL_WRITE_LOW_PRIORITY \<le> type_of lk d"

lemma thr_upgrade_inv:
  assumes inv: "lock_inv lk" and d: "may_upgrade lk d"
  shows "lock_inv (fst (thr_upgrade_write_delay_lock env d lk))"
proof (cases "type_of lk d = TL_UNLOCK \<or> TL_WRITE_LOW_PRIORITY \<le> type_of lk d")
  case True
  then show ?thesis using inv by (auto simp: thr_upgrade_write_delay_lock_def)
next
  case False
  then have c: "d \<in> set (lk_write_wait lk) \<or> d \<in> set (lk_write lk) \<and> type_of lk d = TL_WRITE_DELAYED"
    using d by (auto simp: may_upgrade_def)
  have t: "TL_READ_NO_INSERT < TL_WRITE" by (simp add: tl_order)
  have nw: "d \<notin> set (lk_write_wait lk) \<or> d \<notin> set (lk_write lk)"
    using types_okD(1) [OF lock_invD(1) [OF inv]] by (auto simp: queues_def)
  show ?thesis
  proof (cases "d \<in> set (lk_write_wait lk)")
    case True
    then have "d_waiting (lk_data lk d)" using types_okD(5) [OF lock_invD(1) [OF inv]] by blast
    moreover have "lock_inv (set_type d TL_WRITE lk)" by (rule inv_retype [OF inv _ t]) (use True nw in auto)
    ultimately show ?thesis using False by (simp add: thr_upgrade_write_delay_lock_def Let_def)
  next
    case nwait: False
    then have h: "d \<in> set (lk_write lk)" "type_of lk d = TL_WRITE_DELAYED" using c by auto
    then have nc: "\<not> d_waiting (lk_data lk d)" using types_okD(4) [OF lock_invD(1) [OF inv]] by blast
    have "lock_inv (set_type d TL_WRITE lk)" if "lk_read lk = []"
      by (rule inv_retype [OF inv _ t]) (use h that held_delayed_alone [OF inv h] in auto)
    moreover have "lock_inv (set_waiting d True ((set_type d TL_WRITE lk)\<lparr>lk_write := remove1 d (lk_write lk), lk_write_wait := d # lk_write_wait lk\<rparr>))"
      by (rule inv_requeue [OF inv h(1) t, where calls = "lk_calls lk"]) (simp add: set_data_def)
    ultimately show ?thesis using False nc by (simp add: thr_upgrade_write_delay_lock_def Let_def)
  qed
qed

lemma thr_reschedule_inv:
  assumes inv: "lock_inv lk" and d: "lk_write lk = [d]"
  shows "lock_inv (fst (thr_reschedule_write_lock env d lk))"
proof (cases "lk_read_wait lk = []")
  case True
  then show ?thesis using inv by (simp add: thr_reschedule_write_lock_def)
next
  case False
  define lk1 where "lk1 = update_status env d (set_type d TL_WRITE_DELAYED lk)"
  define lk2 where "lk2 = set_waiting d True (lk1\<lparr>lk_write := remove1 d (lk_write lk1), lk_write_wait := d # lk_write_wait lk1\<rparr>)"
  have i2: "lock_inv lk2"
    by (rule inv_requeue [OF inv, where d = d and ty = TL_WRITE_DELAYED and calls = "lk_calls lk1"])
      (simp_all add: d tl_order lk2_def lk1_def update_status_def set_data_def)
  have w: "lk_write lk2 = []" "d \<in> set (lk_write_wait lk2)" by (simp_all add: lk2_def lk1_def d)
  have i3: "lock_inv (free_all_read_locks False lk2)" by (rule inv_free_all [OF i2]) (simp add: w)
  have "may_upgrade (free_all_read_locks False lk2) d" using w(2) by (simp add: may_upgrade_def free_all_simps)
  from thr_upgrade_inv [OF i3 this] show ?thesis using False
    by (simp add: thr_reschedule_write_lock_def Let_def lk1_def lk2_def)
qed

subsection \<open>Reachable states\<close>

inductive lock_step :: "THR_LOCK \<Rightarrow> THR_LOCK \<Rightarrow> bool" where
  request: "may_request lk thread d ty \<Longrightarrow> TL_WRITE_DELAYED < le_upgraded env \<Longrightarrow> lock_step lk (fst (thr_lock env thread d ty lk))"
| resume: "(d_waiting (lk_data lk d) \<Longrightarrow> d \<in> set (lk_read_wait lk) \<or> d \<in> set (lk_write_wait lk)) \<Longrightarrow> lock_step lk (fst (wait_end env d lk))"
| unlock: "may_unlock lk d \<Longrightarrow> lock_step lk (thr_unlock env d lk)"
| abort: "lock_step lk (thr_abort_locks lk)"
| upgrade: "may_upgrade lk d \<Longrightarrow> lock_step lk (fst (thr_upgrade_write_delay_lock env d lk))"
| reschedule: "lk_write lk = [d] \<Longrightarrow> lock_step lk (fst (thr_reschedule_write_lock env d lk))"

inductive lock_reachable :: "THR_LOCK \<Rightarrow> bool" where
  init: "lock_reachable (thr_lock_init ds)"
| step: "lock_reachable lk \<Longrightarrow> lock_step lk lk' \<Longrightarrow> lock_reachable lk'"

lemma init_inv: "lock_inv (thr_lock_init ds)"
  by (simp add: lock_inv_def types_ok_def held_ok_def queues_def no_inserts_def thr_lock_init_def)

lemma lock_step_inv:
  assumes "lock_step lk lk'" "lock_inv lk"
  shows "lock_inv lk'"
  using assms
proof (cases rule: lock_step.cases)
  case (request thread d ty env)
  then show ?thesis using thr_lock_inv [OF assms(2)] by simp
next
  case (resume d env)
  then show ?thesis using wait_end_inv [OF assms(2)] by simp
next
  case (unlock d env)
  then show ?thesis using thr_unlock_inv(1) [OF assms(2)] by simp
next
  case abort
  then show ?thesis using thr_abort_locks_inv [OF assms(2)] by simp
next
  case (upgrade d env)
  then show ?thesis using thr_upgrade_inv [OF assms(2)] by simp
next
  case (reschedule d env)
  then show ?thesis using thr_reschedule_inv [OF assms(2)] by simp
qed

lemma lock_reachable_inv: "lock_reachable lk \<Longrightarrow> lock_inv lk"
  by (induction rule: lock_reachable.induct) (auto intro: init_inv lock_step_inv)

text \<open>A thread with a plain write lock shuts out every other thread.\<close>

lemma write_lock_excludes:
  assumes inv: "lock_inv lk" and w: "w \<in> set (lk_write lk)" "type_of lk w = TL_WRITE \<or> type_of lk w = TL_WRITE_LOW_PRIORITY"
    and d: "d \<in> set (lk_read lk) \<or> d \<in> set (lk_write lk)"
  shows "thread_of lk d = thread_of lk w"
proof (cases "d = w")
  case False
  have "read_write_ok lk w d \<or> write_write_ok lk w d" using lock_invD(2) [OF inv] w(1) d False by (auto simp: held_ok_def)
  then show ?thesis using w(2) by (auto simp: read_write_ok_def write_write_ok_def tl_order)
qed simp

end
