(* ===== verification/ThrMulti.thy ===== *)
theory ThrMulti
  imports ThrLockSpec "HOL-Library.Multiset"
begin

text \<open>
  Several table locks at once (\<open>thr_multi_lock\<close> and \<open>thr_multi_unlock\<close> of mysys/thr_lock.c). A request is
  the address of its lock with the number of its data; the state gives the lock at each address.
\<close>

type_synonym lock_req = "nat \<times> nat"

type_synonym lock_store = "nat \<Rightarrow> THR_LOCK"

definition req_type :: "lock_store \<Rightarrow> lock_req \<Rightarrow> thr_lock_type" where
  "req_type ms r = type_of (ms (fst r)) (snd r)"

definition req_param :: "lock_store \<Rightarrow> lock_req \<Rightarrow> nat" where
  "req_param ms r = d_param (lk_data (ms (fst r)) (snd r))"

subsection \<open>The order of locking\<close>

text \<open>The comparison \<open>LOCK_CMP\<close>: addresses, less the number of the type (no request has the type \<open>TL_IGNORE\<close>).\<close>

definition lock_key :: "lock_store \<Rightarrow> lock_req \<Rightarrow> int" where
  "lock_key ms r = int (fst r) - tl_num (req_type ms r)"

definition lock_cmp :: "lock_store \<Rightarrow> lock_req \<Rightarrow> lock_req \<Rightarrow> bool" where
  "lock_cmp ms a b \<longleftrightarrow> lock_key ms a < lock_key ms b"

text \<open>One turn of the insertion sort: the part sorted so far, last element first, makes room for the next.\<close>

primrec sort_step :: "lock_store \<Rightarrow> lock_req \<Rightarrow> lock_req list \<Rightarrow> lock_req list" where
  "sort_step ms tmp [] = [tmp]"
| "sort_step ms tmp (p # ps) = (if lock_cmp ms tmp p then p # sort_step ms tmp ps else tmp # p # ps)"

definition sort_locks :: "lock_store \<Rightarrow> lock_req list \<Rightarrow> lock_req list" where
  "sort_locks ms rs = rev (foldl (\<lambda>ps tmp. sort_step ms tmp ps) [] rs)"

subsection \<open>Locking and unlocking\<close>

fun thr_multi_unlock :: "(nat \<Rightarrow> lock_env) \<Rightarrow> lock_req list \<Rightarrow> lock_store \<Rightarrow> lock_store" where
  "thr_multi_unlock env [] ms = ms"
| "thr_multi_unlock env ((l, d) # rs) ms =
     thr_multi_unlock env rs (if type_of (ms l) d \<noteq> TL_UNLOCK then ms(l := thr_unlock (env l) d (ms l)) else ms)"

text \<open>A call of \<open>thr_lock\<close>; \<open>others\<close> is what the other threads have made of the locks when a wait is over.\<close>

definition lock_one :: "(nat \<Rightarrow> lock_env) \<Rightarrow> (lock_req \<Rightarrow> lock_store \<Rightarrow> lock_store) \<Rightarrow> nat \<Rightarrow> lock_req \<Rightarrow> lock_store \<Rightarrow> lock_store \<times> int" where
  "lock_one env others thread r ms =
     (case r of (l, d) \<Rightarrow>
        (case thr_lock (env l) thread d (type_of (ms l) d) (ms l) of
           (lk, Got_lock) \<Rightarrow> (ms(l := lk), 0)
         | (lk, No_lock) \<Rightarrow> (ms(l := lk), 1)
         | (lk, Must_wait) \<Rightarrow>
             (let ms = others r (ms(l := lk)); (lk, res) = wait_end (env l) d (ms l) in (ms(l := lk), res))))"

primrec lock_all :: "(nat \<Rightarrow> lock_env) \<Rightarrow> (lock_req \<Rightarrow> lock_store \<Rightarrow> lock_store) \<Rightarrow> nat \<Rightarrow> lock_req list \<Rightarrow> lock_req list \<Rightarrow> lock_store \<Rightarrow>
    lock_store \<times> int" where
  "lock_all env others thread got [] ms = (ms, 0)"
| "lock_all env others thread got (r # rs) ms =
     (let (ms, res) = lock_one env others thread r ms
      in if res \<noteq> 0 then (thr_multi_unlock env got ms, 1) else lock_all env others thread (got @ [r]) rs ms)"

text \<open>
  The loops that copy the status. \<open>back_to_write\<close> goes back over the read locks of a table to the last
  write lock, or to the first request; the result of \<open>copy_loop\<close> is the list of calls.
\<close>

fun back_to_write :: "lock_store \<Rightarrow> lock_req list \<Rightarrow> nat \<Rightarrow> nat" where
  "back_to_write ms rs 0 = 0"
| "back_to_write ms rs (Suc i) =
     (if req_type ms (rs ! Suc i) \<le> TL_READ_NO_INSERT \<and> fst (rs ! i) = fst (rs ! Suc i) then back_to_write ms rs i else Suc i)"

lemma back_to_write_le: "back_to_write ms rs i \<le> i"
  by (induction ms rs i rule: back_to_write.induct) auto

text \<open>In \<open>copy_loop\<close> the next request looked at is the one before \<open>pos\<close>; \<open>lst\<close> is \<open>last_lock\<close>.\<close>

function copy_loop :: "(nat \<Rightarrow> lock_env) \<Rightarrow> lock_store \<Rightarrow> lock_req list \<Rightarrow> nat \<Rightarrow> nat \<Rightarrow> (nat \<times> nat) list" where
  "copy_loop env ms rs lst 0 = []"
| "copy_loop env ms rs lst (Suc p) =
     (if fst (rs ! lst) = fst (rs ! p) \<and> le_copy_status (env (fst (rs ! lst)))
      then if req_type ms (rs ! lst) \<le> TL_READ_NO_INSERT
        then (let q = back_to_write ms rs p
          in map (\<lambda>i. (req_param ms (rs ! i), req_param ms (rs ! q))) [q + 1..<lst + 1] @ copy_loop env ms rs q q)
        else (req_param ms (rs ! p), req_param ms (rs ! lst)) # copy_loop env ms rs lst p
      else copy_loop env ms rs p p)"
  by pat_completeness auto
termination
  by (relation "measure (\<lambda>(_, _, _, _, p). p)") (auto simp: less_Suc_eq_le back_to_write_le)

definition copy_all_status :: "(nat \<Rightarrow> lock_env) \<Rightarrow> lock_store \<Rightarrow> lock_req list \<Rightarrow> (nat \<times> nat) list" where
  "copy_all_status env ms rs = (if 1 < length rs then copy_loop env ms rs (length rs - 1) (length rs - 1) else [])"

definition thr_multi_lock :: "(nat \<Rightarrow> lock_env) \<Rightarrow> (lock_req \<Rightarrow> lock_store \<Rightarrow> lock_store) \<Rightarrow> nat \<Rightarrow> lock_req list \<Rightarrow> lock_store \<Rightarrow>
    lock_store \<times> (nat \<times> nat) list \<times> int" where
  "thr_multi_lock env others thread rs ms =
     (let rs = sort_locks ms rs; (ms, res) = lock_all env others thread [] rs ms
      in if res \<noteq> 0 then (ms, [], 1) else (ms, copy_all_status env ms rs, 0))"

subsection \<open>The order is right\<close>

lemma sort_step_mset: "mset (sort_step ms t ps) = add_mset t (mset ps)"
  by (induction ps) auto

lemma sort_step_set: "set (sort_step ms t ps) = insert t (set ps)"
  by (induction ps) auto

lemma sort_step_sorted:
  "sorted_wrt (\<lambda>a b. lock_key ms b \<le> lock_key ms a) ps \<Longrightarrow> sorted_wrt (\<lambda>a b. lock_key ms b \<le> lock_key ms a) (sort_step ms t ps)"
  by (induction ps) (fastforce simp: sort_step_set lock_cmp_def)+

lemma sort_locks_correct:
  "mset (sort_locks ms rs) = mset rs" "sorted_wrt (\<lambda>a b. lock_key ms a \<le> lock_key ms b) (sort_locks ms rs)"
proof -
  have "mset (foldl (\<lambda>ps tmp. sort_step ms tmp ps) ps rs) = mset ps + mset rs" for ps
    by (induction rs arbitrary: ps) (simp_all add: sort_step_mset)
  then show "mset (sort_locks ms rs) = mset rs" by (simp add: sort_locks_def)
  have "sorted_wrt (\<lambda>a b. lock_key ms b \<le> lock_key ms a) ps \<Longrightarrow>
      sorted_wrt (\<lambda>a b. lock_key ms b \<le> lock_key ms a) (foldl (\<lambda>ps tmp. sort_step ms tmp ps) ps rs)" for ps
    by (induction rs arbitrary: ps) (simp_all add: sort_step_sorted)
  then show "sorted_wrt (\<lambda>a b. lock_key ms a \<le> lock_key ms b) (sort_locks ms rs)" by (simp add: sort_locks_def sorted_wrt_rev)
qed

text \<open>The locks are far enough from each other for the addresses to decide.\<close>

lemma sort_locks_order:
  fixes ms :: lock_store
  assumes far: "\<And>a b. a \<in> set rs \<Longrightarrow> b \<in> set rs \<Longrightarrow> fst a < fst b \<Longrightarrow> fst a + 13 \<le> fst b" and i: "i < j" "j < length rs"
  defines "ss \<equiv> sort_locks ms rs"
  shows "fst (ss ! i) \<le> fst (ss ! j)" "fst (ss ! i) = fst (ss ! j) \<Longrightarrow> req_type ms (ss ! j) \<le> req_type ms (ss ! i)"
proof -
  have len: "length ss = length rs" using sort_locks_correct(1) [of ms rs] unfolding ss_def by (rule mset_eq_length)
  have k: "lock_key ms (ss ! i) \<le> lock_key ms (ss ! j)"
    using sort_locks_correct(2) [of ms rs] i len by (auto simp: ss_def sorted_wrt_iff_nth_less)
  have mem: "ss ! i \<in> set rs" "ss ! j \<in> set rs"
    using i len mset_eq_setD [OF sort_locks_correct(1), of ms rs] unfolding ss_def by (metis nth_mem order.strict_trans)+
  have b: "- 1 \<le> tl_num t" "tl_num t \<le> 11" for t by (cases t; simp)+
  show "fst (ss ! i) \<le> fst (ss ! j)"
  proof (rule ccontr)
    assume "\<not> fst (ss ! i) \<le> fst (ss ! j)"
    then have "fst (ss ! j) + 13 \<le> fst (ss ! i)" using far [OF mem(2,1)] by simp
    then show False using k b [of "req_type ms (ss ! i)"] b [of "req_type ms (ss ! j)"] by (simp add: lock_key_def)
  qed
  show "req_type ms (ss ! j) \<le> req_type ms (ss ! i)" if "fst (ss ! i) = fst (ss ! j)"
    using k that by (simp add: lock_key_def less_eq_thr_lock_type_def)
qed

subsection \<open>All requests of a table get the same status\<close>

text \<open>The status behind each parameter, after a list of calls of \<open>copy_status(to, from)\<close>.\<close>

definition run_copies :: "(nat \<times> nat) list \<Rightarrow> (nat \<Rightarrow> 's) \<Rightarrow> nat \<Rightarrow> 's" where
  "run_copies cs st = foldl (\<lambda>st (to, from). st(to := st from)) st cs"

lemma run_copies_simps:
  "run_copies [] st = st" "run_copies ((a, b) # cs) st = run_copies cs (st(a := st b))"
  "run_copies (cs @ ds) st = run_copies ds (run_copies cs st)"
  by (simp_all add: run_copies_def)

lemma run_copies_from:
  assumes "b \<notin> set as"
  shows "run_copies (map (\<lambda>a. (a, b)) as) st x = (if x \<in> set as then st b else st x)"
  using assms by (induction as arbitrary: st) (auto simp: run_copies_simps)

lemma back_to_write_range:
  fixes ms :: lock_store
  assumes "i < length rs"
  defines "q \<equiv> back_to_write ms rs i"
  shows "q \<le> i" "\<And>j. q \<le> j \<Longrightarrow> j \<le> i \<Longrightarrow> fst (rs ! j) = fst (rs ! i)"
    "q = 0 \<or> TL_READ_NO_INSERT < req_type ms (rs ! q) \<or> fst (rs ! (q - 1)) \<noteq> fst (rs ! q)"
proof -
  have "q \<le> i \<and> (\<forall>j. q \<le> j \<longrightarrow> j \<le> i \<longrightarrow> fst (rs ! j) = fst (rs ! i)) \<and>
      (q = 0 \<or> TL_READ_NO_INSERT < req_type ms (rs ! q) \<or> fst (rs ! (q - 1)) \<noteq> fst (rs ! q))"
    unfolding q_def using assms(1)
  proof (induction ms rs i rule: back_to_write.induct)
    case (2 ms rs i)
    show ?case
    proof (cases "req_type ms (rs ! Suc i) \<le> TL_READ_NO_INSERT \<and> fst (rs ! i) = fst (rs ! Suc i)")
      case True
      then have b: "back_to_write ms rs (Suc i) = back_to_write ms rs i" by simp
      let ?q = "back_to_write ms rs i"
      have IH: "?q \<le> i" "\<And>j. ?q \<le> j \<Longrightarrow> j \<le> i \<Longrightarrow> fst (rs ! j) = fst (rs ! i)"
        "?q = 0 \<or> TL_READ_NO_INSERT < req_type ms (rs ! ?q) \<or> fst (rs ! (?q - 1)) \<noteq> fst (rs ! ?q)"
        using 2(1) [OF True Suc_lessD [OF 2(2)]] by blast+
      have "fst (rs ! j) = fst (rs ! Suc i)" if "?q \<le> j" "j \<le> Suc i" for j
        using IH(2) [OF that(1)] that(2) True by (cases "j = Suc i") simp_all
      then show ?thesis unfolding b using le_SucI [OF IH(1)] IH(3) by blast
    next
      case False
      then have b: "back_to_write ms rs (Suc i) = Suc i" by (simp only: back_to_write.simps if_False)
      then show ?thesis using False unfolding b by (auto simp: le_antisym)
    qed
  qed simp
  then show "q \<le> i" "\<And>j. q \<le> j \<Longrightarrow> j \<le> i \<Longrightarrow> fst (rs ! j) = fst (rs ! i)"
    "q = 0 \<or> TL_READ_NO_INSERT < req_type ms (rs ! q) \<or> fst (rs ! (q - 1)) \<noteq> fst (rs ! q)" by blast+
qed

definition same_status :: "(nat \<Rightarrow> lock_env) \<Rightarrow> lock_store \<Rightarrow> lock_req list \<Rightarrow> nat \<Rightarrow> (nat \<Rightarrow> 's) \<Rightarrow> bool" where
  "same_status env ms rs p st \<longleftrightarrow> (\<forall>i j. p \<le> i \<longrightarrow> i < length rs \<longrightarrow> p \<le> j \<longrightarrow> j < length rs \<longrightarrow> fst (rs ! i) = fst (rs ! j) \<longrightarrow>
     le_copy_status (env (fst (rs ! i))) \<longrightarrow> st (req_param ms (rs ! i)) = st (req_param ms (rs ! j)))"

lemma same_statusD:
  "same_status env ms rs p st \<Longrightarrow> p \<le> i \<Longrightarrow> i < length rs \<Longrightarrow> p \<le> j \<Longrightarrow> j < length rs \<Longrightarrow> fst (rs ! i) = fst (rs ! j) \<Longrightarrow>
     le_copy_status (env (fst (rs ! i))) \<Longrightarrow> st (req_param ms (rs ! i)) = st (req_param ms (rs ! j))"
  unfolding same_status_def by blast

lemma copy_loop_correct:
  assumes ord: "\<And>i j. i < j \<Longrightarrow> j < length rs \<Longrightarrow> fst (rs ! i) \<le> fst (rs ! j)"
    and par: "inj_on (\<lambda>i. req_param ms (rs ! i)) {..<length rs}"
    and "p \<le> lst" "lst < length rs" "\<And>i. p \<le> i \<Longrightarrow> i \<le> lst \<Longrightarrow> fst (rs ! i) = fst (rs ! lst)" "same_status env ms rs p st"
    "req_type ms (rs ! lst) \<le> TL_READ_NO_INSERT \<Longrightarrow> p = lst \<and>
       (lst = 0 \<or> fst (rs ! (lst - 1)) \<noteq> fst (rs ! lst) \<or> \<not> le_copy_status (env (fst (rs ! lst))) \<or>
        (\<forall>j. lst < j \<longrightarrow> j < length rs \<longrightarrow> fst (rs ! j) \<noteq> fst (rs ! lst)))"
  shows "same_status env ms rs 0 (run_copies (copy_loop env ms rs lst p) st)"
  using assms(3-)
proof (induction p arbitrary: lst st rule: less_induct)
  case (less p)
  note pl = less.prems(1) and ln = less.prems(2) and blk = less.prems(3) and ss = less.prems(4) and rd = less.prems(5)
  let ?l = "\<lambda>i. fst (rs ! i)" and ?x = "\<lambda>i. req_param ms (rs ! i)"
  have inj: "?x i = ?x j \<longleftrightarrow> i = j" if "i < length rs" "j < length rs" for i j using par that by (auto simp: inj_on_def)
  show ?case
  proof (cases p)
    case 0
    then show ?thesis using ss by (simp add: run_copies_simps)
  next
    case (Suc p')
    have p': "p' < length rs" "p' < p" using Suc pl ln by simp_all
    show ?thesis
    proof (cases "?l lst = ?l p' \<and> le_copy_status (env (?l lst))")
      case same: True
      show ?thesis
      proof (cases "req_type ms (rs ! lst) \<le> TL_READ_NO_INSERT")
        case True
        have lst: "lst = Suc p'" and top: "\<And>j. lst < j \<Longrightarrow> j < length rs \<Longrightarrow> ?l j \<noteq> ?l lst" using rd [OF True] same Suc by auto
        define q where "q = back_to_write ms rs p'"
        note Q = back_to_write_range [OF p'(1), of ms, folded q_def]
        have ql: "q < length rs" "q < p" using Q(1) p' by simp_all
        have in_block: "?l i = ?l lst" if "q \<le> i" "i \<le> lst" for i
          using Q(2) [of i] that same lst by (cases "i = lst") auto
        define as where "as = map ?x [q + 1..<lst + 1]"
        define st1 where "st1 = run_copies (map (\<lambda>a. (a, ?x q)) as) st"
        have mem: "?x i \<in> set as \<longleftrightarrow> q < i \<and> i \<le> lst" if "i < length rs" for i
        proof -
          have "set [q + 1..<lst + 1] = {q<..lst}" by auto
          then have "set as = ?x ` {q<..lst}" by (simp only: as_def set_map)
          then have "?x i \<in> set as \<longleftrightarrow> (\<exists>j. q < j \<and> j \<le> lst \<and> ?x i = ?x j)" by auto
          also have "\<dots> \<longleftrightarrow> q < i \<and> i \<le> lst" using inj [OF that] ln by (metis order.strict_trans1)
          finally show ?thesis .
        qed
        have "?x q \<notin> set as" using mem [OF ql(1)] by simp
        then have st1: "st1 x = (if x \<in> set as then st (?x q) else st x)" for x unfolding st1_def by (rule run_copies_from)
        have S1: "same_status env ms rs q st1"
          unfolding same_status_def
        proof (intro allI impI)
          fix i j assume i: "q \<le> i" "i < length rs" and j: "q \<le> j" "j < length rs" and e: "?l i = ?l j" "le_copy_status (env (?l i))"
          show "st1 (?x i) = st1 (?x j)"
          proof (cases "?l i = ?l lst")
            case True
            then have "i \<le> lst" "j \<le> lst" using top i(2) j(2) e(1) by (metis not_le_imp_less)+
            then have "st1 (?x k) = st (?x q)" if "k = i \<or> k = j" for k
              using st1 mem i j that by (cases "k = q") auto
            then show ?thesis by simp
          next
            case False
            then have o: "lst < i" "lst < j" using in_block i(1) j(1) e(1) by (metis not_le_imp_less)+
            then have "st (?x i) = st (?x j)" using same_statusD [OF ss _ i(2) _ j(2) e] pl by simp
            then show ?thesis using st1 mem [OF i(2)] mem [OF j(2)] o by simp
          qed
        qed
        have "same_status env ms rs 0 (run_copies (copy_loop env ms rs q q) st1)"
        proof (rule less.IH [OF ql(2) order_refl ql(1) _ S1])
          show "?l i = ?l q" if "q \<le> i" "i \<le> q" for i using that by simp
          show "q = q \<and> (q = 0 \<or> ?l (q - 1) \<noteq> ?l q \<or> \<not> le_copy_status (env (?l q)) \<or> (\<forall>j. q < j \<longrightarrow> j < length rs \<longrightarrow> ?l j \<noteq> ?l q))"
            if "req_type ms (rs ! q) \<le> TL_READ_NO_INSERT" using Q(3) that by auto
        qed
        moreover have "copy_loop env ms rs lst p = map (\<lambda>a. (a, ?x q)) as @ copy_loop env ms rs q q"
          unfolding Suc copy_loop.simps if_P [OF same] if_P [OF True] Let_def q_def [symmetric] as_def map_map comp_def by (rule refl)
        ultimately show ?thesis by (simp add: run_copies_simps st1_def)
      next
        case False
        define st1 where "st1 = st(?x p' := st (?x lst))"
        have st1: "st1 (?x i) = (if i = p' then st (?x lst) else st (?x i))" if "i < length rs" for i
          using inj [OF that p'(1)] by (simp add: st1_def)
        have S1: "same_status env ms rs p' st1"
          unfolding same_status_def
        proof (intro allI impI)
          fix i j assume i: "p' \<le> i" "i < length rs" and j: "p' \<le> j" "j < length rs" and e: "?l i = ?l j" "le_copy_status (env (?l i))"
          have v: "st1 (?x k) = st (?x lst)" if "k < length rs" "p' \<le> k" "?l k = ?l lst" for k
          proof (cases "k = p'")
            case False
            have c: "le_copy_status (env (?l k))" unfolding that(3) using same by blast
            have "p \<le> k" using False that(2) Suc by simp
            from same_statusD [OF ss this that(1) pl ln that(3) c] have "st (?x k) = st (?x lst)" .
            then show ?thesis using st1 [OF that(1)] False by simp
          qed (use st1 [OF that(1)] in simp)
          show "st1 (?x i) = st1 (?x j)"
          proof (cases "?l i = ?l lst")
            case True
            then show ?thesis using v [OF i(2,1)] v [OF j(2,1)] e(1) by simp
          next
            case False
            then have "i \<noteq> p'" "j \<noteq> p'" using same e(1) by auto
            then show ?thesis using same_statusD [OF ss _ i(2) _ j(2) e] st1 [OF i(2)] st1 [OF j(2)] i(1) j(1) Suc by simp
          qed
        qed
        have "same_status env ms rs 0 (run_copies (copy_loop env ms rs lst p') st1)"
        proof (rule less.IH [OF p'(2) _ ln _ S1])
          show "p' \<le> lst" using pl Suc by simp
          show "?l i = ?l lst" if "p' \<le> i" "i \<le> lst" for i using blk [of i] that same Suc by (cases "i = p'") auto
        qed (use False in simp)
        then show ?thesis unfolding Suc copy_loop.simps if_P [OF same] if_not_P [OF False] run_copies_simps st1_def .
      qed
    next
      case differ: False
      have later: "?l lst = ?l p'" if "p' < j" "j < length rs" "?l j = ?l p'" for j
      proof (cases "j \<le> lst")
        case True
        then show ?thesis using blk [of j] that Suc by simp
      next
        case False
        then show ?thesis using ord [of p' lst] ord [of lst j] that pl ln Suc by simp
      qed
      have S1: "same_status env ms rs p' st"
        unfolding same_status_def
      proof (intro allI impI)
        fix i j assume i: "p' \<le> i" "i < length rs" and j: "p' \<le> j" "j < length rs" and e: "?l i = ?l j" "le_copy_status (env (?l i))"
        show "st (?x i) = st (?x j)"
        proof (cases "i = j")
          case False
          have "i \<noteq> p'" using later [of j] differ e j False by auto
          moreover have "j \<noteq> p'" using later [of i] differ e i False by auto
          ultimately show ?thesis using same_statusD [OF ss _ i(2) _ j(2) e] i(1) j(1) Suc by simp
        qed simp
      qed
      have "same_status env ms rs 0 (run_copies (copy_loop env ms rs p' p') st)"
      proof (rule less.IH [OF p'(2) order_refl p'(1) _ S1])
        show "?l i = ?l p'" if "p' \<le> i" "i \<le> p'" for i using that by simp
        show "p' = p' \<and> (p' = 0 \<or> ?l (p' - 1) \<noteq> ?l p' \<or> \<not> le_copy_status (env (?l p')) \<or> (\<forall>j. p' < j \<longrightarrow> j < length rs \<longrightarrow> ?l j \<noteq> ?l p'))"
          if "req_type ms (rs ! p') \<le> TL_READ_NO_INSERT" using later differ by auto
      qed
      then show ?thesis unfolding Suc copy_loop.simps if_not_P [OF differ] .
    qed
  qed
qed

lemma copy_all_status_correct:
  assumes "\<And>i j. i < j \<Longrightarrow> j < length rs \<Longrightarrow> fst (rs ! i) \<le> fst (rs ! j)" "inj_on (\<lambda>i. req_param ms (rs ! i)) {..<length rs}"
  shows "same_status env ms rs 0 (run_copies (copy_all_status env ms rs) st)"
proof (cases "1 < length rs")
  case True
  let ?n = "length rs - 1"
  have "same_status env ms rs 0 (run_copies (copy_loop env ms rs ?n ?n) st)"
  proof (rule copy_loop_correct [OF assms order_refl])
    show "same_status env ms rs ?n st" unfolding same_status_def
    proof (intro allI impI)
      fix i j assume "?n \<le> i" "i < length rs" "?n \<le> j" "j < length rs"
      then have "i = j" by simp
      then show "st (req_param ms (rs ! i)) = st (req_param ms (rs ! j))" by simp
    qed
    show "?n = ?n \<and> (?n = 0 \<or> fst (rs ! (?n - 1)) \<noteq> fst (rs ! ?n) \<or> \<not> le_copy_status (env (fst (rs ! ?n))) \<or>
        (\<forall>j. ?n < j \<longrightarrow> j < length rs \<longrightarrow> fst (rs ! j) \<noteq> fst (rs ! ?n)))" by auto
  qed (use True in auto)
  with True show ?thesis by (simp add: copy_all_status_def)
next
  case False
  then have one: "length rs \<le> 1" by simp
  have "same_status env ms rs 0 st" unfolding same_status_def
  proof (intro allI impI)
    fix i j assume "i < length rs" "j < length rs"
    then have "i = j" using one by simp
    then show "st (req_param ms (rs ! i)) = st (req_param ms (rs ! j))" by simp
  qed
  with False show ?thesis by (simp add: copy_all_status_def run_copies_simps)
qed

subsection \<open>An example\<close>

definition ex_lock_env :: lock_env where
  "ex_lock_env = \<lparr>le_get_status = True, le_copy_status = True, le_update_status = True, le_has_check = True,
     le_check_status = (\<lambda>_. False), le_upgraded = TL_WRITE, le_max_writes = 10\<rparr>"

definition ex_lock_data :: "nat \<Rightarrow> THR_LOCK_DATA" where
  "ex_lock_data d = thr_lock_data_init 0 d"

definition ex_locked :: THR_LOCK where
  "ex_locked = fst (thr_lock ex_lock_env 1 1 TL_WRITE (thr_lock_init ex_lock_data))"

lemma ex_locked_eq: "lk_write ex_locked = [1]" "lk_read ex_locked = []" "type_of ex_locked 1 = TL_WRITE" "thread_of ex_locked 1 = 1"
  "d_param (lk_data ex_locked d) = d" "type_of ex_locked (Suc 0) = TL_WRITE" "thread_of ex_locked (Suc 0) = 1" "lk_write_wait ex_locked = []"
  "lk_read_wait ex_locked = []"
  by (simp_all add: ex_locked_def thr_lock_def lock_write_def add_write_def thr_lock_init_def ex_lock_data_def thr_lock_data_init_def
    set_data_def get_status_def Let_def tl_order)

lemma ex_locked_reachable: "lock_reachable ex_locked"
  unfolding ex_locked_def
proof (rule lock_reachable.step [OF lock_reachable.init], rule lock_step.request)
  show "may_request (thr_lock_init ex_lock_data) 1 1 TL_WRITE"
    by (simp add: may_request_def queues_def thr_lock_init_def tl_order)
qed (simp add: ex_lock_env_def tl_order)

text \<open>The thread that has the write lock takes a read lock, too.\<close>

definition ex_locked2 :: THR_LOCK where
  "ex_locked2 = fst (thr_lock ex_lock_env 1 2 TL_READ ex_locked)"

lemma ex_locked2_eq: "lk_write ex_locked2 = [1]" "lk_read ex_locked2 = [2]" "type_of ex_locked2 1 = TL_WRITE" "type_of ex_locked2 (Suc 0) = TL_WRITE"
  by (code_simp)+

lemma ex_locked2_reachable: "lock_reachable ex_locked2"
  unfolding ex_locked2_def
proof (rule lock_reachable.step [OF ex_locked_reachable], rule lock_step.request)
  show "may_request ex_locked 1 2 TL_READ" by (simp add: may_request_def queues_def ex_locked_eq tl_order)
qed (simp add: ex_lock_env_def tl_order)

end
