(* ===== verification/KeyCache.thy ===== *)
theory KeyCache
  imports QSort
begin

text \<open>
  The key cache (mysys/mf_keycache.c): blocks of index files in memory, found through a hash, reused in
  the order in which they were last used, and written back when they are reused or flushed.

  A block is the number of its \<open>SEC_LINK\<close> structure. A doubly linked list of the code (the chains
  of the hash, the used chain, the lists of the changed blocks and of the other blocks of
  the files) is the list of its blocks; taking a block out of the list it is in is removing it from all.
  The buffer of a block is part of its structure: block \<open>n\<close> has the buffer with the offset
  \<open>n << key_cache_shift\<close>, so buffers are separate when \<open>key_cache_block_size\<close> is a power of two.

  Files are maps from positions to bytes. Whether a call of the operating system succeeds is
  told by \<open>io n\<close>, with the number of the call; one that fails reads and writes nothing. The mutex
  \<open>THR_LOCK_keycache\<close> is a flag; a function that locks it while it is locked never returns, which is
  the result None. A build with threads is modelled, so \<open>return_buffer\<close> is not used.
\<close>

subsection \<open>Files\<close>

type_synonym bytes = "uchar list"

type_synonym disk = "int \<Rightarrow> nat \<Rightarrow> uchar option"

definition pread :: "disk \<Rightarrow> int \<Rightarrow> nat \<Rightarrow> nat \<Rightarrow> bytes option" where
  "pread dk file pos n = those (map (\<lambda>i. dk file (pos + i)) [0..<n])"

definition pwrite :: "disk \<Rightarrow> int \<Rightarrow> nat \<Rightarrow> bytes \<Rightarrow> disk" where
  "pwrite dk file pos buff =
     dk(file := (\<lambda>i. if pos \<le> i \<and> i < pos + length buff then Some (buff ! (i - pos)) else dk file i))"

subsection \<open>State\<close>

record SEC_LINK =
  sl_file :: int
  sl_diskpos :: nat
  sl_buffer :: bytes
  sl_changed :: bool

record key_cache =
  kc_inited :: bool
  kc_disk_blocks :: int
  kc_disk_blocks_used :: nat
  kc_blocks_used :: nat
  kc_hash_blocks :: nat
  kc_shift :: nat
  kc_block_size :: nat
  kc_block :: "nat \<Rightarrow> SEC_LINK"
  kc_hash :: "nat \<Rightarrow> nat list"
  kc_used :: "nat list"
  kc_changed :: "nat \<Rightarrow> nat list"
  kc_files :: "nat \<Rightarrow> nat list"
  kc_blocks_changed :: nat
  kc_w_requests :: nat
  kc_write :: nat
  kc_r_requests :: nat
  kc_read :: nat
  kc_locked :: bool
  kc_disk :: disk
  kc_io :: nat

definition CHANGED_BLOCKS_HASH :: int where
  "CHANGED_BLOCKS_HASH = 128"

definition FLUSH_CACHE :: nat where
  "FLUSH_CACHE = 2000"

datatype flush_type = FLUSH_KEEP | FLUSH_RELEASE | FLUSH_IGNORE_CHANGED | FLUSH_FORCE_WRITE

abbreviation set_block :: "nat \<Rightarrow> (SEC_LINK \<Rightarrow> SEC_LINK) \<Rightarrow> key_cache \<Rightarrow> key_cache" where
  "set_block p f c \<equiv> c\<lparr>kc_block := (kc_block c)(p := f (kc_block c p))\<rparr>"

text \<open>The calls of the operating system; the second result of \<open>my_pwrite\<close> is True for an error.\<close>

definition my_pread :: "(nat \<Rightarrow> bool) \<Rightarrow> int \<Rightarrow> nat \<Rightarrow> nat \<Rightarrow> key_cache \<Rightarrow> key_cache \<times> bytes option" where
  "my_pread io file n pos c =
     (c\<lparr>kc_io := kc_io c + 1\<rparr>, if io (kc_io c) then pread (kc_disk c) file pos n else None)"

definition my_pwrite :: "(nat \<Rightarrow> bool) \<Rightarrow> int \<Rightarrow> bytes \<Rightarrow> nat \<Rightarrow> key_cache \<Rightarrow> key_cache \<times> bool" where
  "my_pwrite io file buff pos c =
     (if io (kc_io c) then (c\<lparr>kc_io := kc_io c + 1, kc_disk := pwrite (kc_disk c) file pos buff\<rparr>, False)
      else (c\<lparr>kc_io := kc_io c + 1\<rparr>, True))"

definition lock_cache :: "key_cache \<Rightarrow> key_cache option" where
  "lock_cache c = (if kc_locked c then None else Some (c\<lparr>kc_locked := True\<rparr>))"

definition unlock_cache :: "key_cache \<Rightarrow> key_cache" where
  "unlock_cache c = c\<lparr>kc_locked := False\<rparr>"

subsection \<open>Start and end\<close>

fun my_bit_log2 :: "nat \<Rightarrow> nat" where
  "my_bit_log2 value = (if 1 < value then my_bit_log2 (value div 2) + 1 else 0)"

declare my_bit_log2.simps [simp del]

text \<open>
  The size of a \<open>SEC_LINK\<close> is 80 and that of a pointer 8 bytes; \<open>alloc n\<close> tells whether both blocks of memory
  are there in turn \<open>n\<close>. The number of blocks does not reach 0 in the inner loop, since the hash
  takes at most 20 bytes for each block there is memory for.
\<close>

primrec fit_blocks :: "nat \<Rightarrow> nat \<Rightarrow> nat \<Rightarrow> nat \<Rightarrow> nat" where
  "fit_blocks use_mem shift hash_blocks 0 = 0"
| "fit_blocks use_mem shift hash_blocks (Suc blocks) =
     (if use_mem < (Suc blocks * 80 + 8 * hash_blocks) + Suc blocks * 2 ^ shift
      then fit_blocks use_mem shift hash_blocks blocks else Suc blocks)"

lemma fit_blocks_le: "fit_blocks use_mem shift hash_blocks blocks \<le> blocks"
  by (induction blocks) auto

text \<open>The loop \<open>for (;;)\<close>; the result has the numbers of blocks and of chains of the hash.\<close>

function alloc_blocks :: "(nat \<Rightarrow> bool) \<Rightarrow> nat \<Rightarrow> nat \<Rightarrow> nat \<Rightarrow> nat \<Rightarrow> (nat \<times> nat) option" where
  "alloc_blocks alloc use_mem shift n blocks =
     (let hash_blocks = 2 ^ (my_bit_log2 (blocks * 5 div 4) + 1);
          blocks = fit_blocks use_mem shift hash_blocks blocks
      in if alloc n then Some (blocks, hash_blocks)
         else if blocks < 8 then None
         else alloc_blocks alloc use_mem shift (n + 1) (blocks div 4 * 3))"
  by pat_completeness auto
termination
proof (relation "measure (\<lambda>(_, _, _, _, blocks). blocks)", goal_cases)
  case (2 alloc use_mem shift n blocks h b)
  have "b \<le> blocks" using 2(2) by (simp add: fit_blocks_le)
  then show ?case using 2(4) by simp
qed simp

declare alloc_blocks.simps [simp del]

definition init_key_cache :: "(nat \<Rightarrow> bool) \<Rightarrow> nat \<Rightarrow> key_cache \<Rightarrow> key_cache \<times> int" where
  "init_key_cache alloc use_mem c =
     (if kc_inited c \<and> 0 < kc_disk_blocks c then (c, 0)
      else (let c = (if \<not> kc_inited c
                     then c\<lparr>kc_inited := True, kc_disk_blocks := - 1, kc_shift := my_bit_log2 (kc_block_size c)\<rparr> else c);
                blocks = use_mem div (80 + 8 * 5 div 4 + kc_block_size c);
                none = (\<lambda>_. [])
        in if 8 \<le> blocks \<and> kc_disk_blocks c < 0
           then (case alloc_blocks alloc use_mem (kc_shift c) 0 blocks of
               None \<Rightarrow> (c, 0)
             | Some (blocks, hash_blocks) \<Rightarrow>
                 (c\<lparr>kc_disk_blocks := int blocks, kc_hash_blocks := hash_blocks, kc_hash := none, kc_used := [],
                    kc_blocks_used := 0, kc_disk_blocks_used := 0, kc_blocks_changed := 0,
                    kc_w_requests := 0, kc_r_requests := 0, kc_read := 0, kc_write := 0,
                    kc_changed := none, kc_files := none\<rparr>, int blocks))
           else (c\<lparr>kc_changed := none, kc_files := none\<rparr>, int blocks)))"

definition end_key_cache :: "key_cache \<Rightarrow> key_cache" where
  "end_key_cache c =
     (let c = (if kc_blocks_changed c = 0 \<and> 0 < kc_disk_blocks c then c\<lparr>kc_disk_blocks := - 1\<rparr> else c)
      in c\<lparr>kc_inited := False, kc_hash_blocks := 0, kc_blocks_used := 0\<rparr>)"

subsection \<open>The lists of blocks\<close>

definition chain_of :: "int \<Rightarrow> nat" where
  "chain_of file = nat (file mod CHANGED_BLOCKS_HASH)"

text \<open>Taking a block out of the list of changed blocks or of blocks of the files.\<close>

definition unlink_block :: "nat \<Rightarrow> key_cache \<Rightarrow> key_cache" where
  "unlink_block p c = c\<lparr>kc_changed := (\<lambda>i. remove1 p (kc_changed c i)), kc_files := (\<lambda>i. remove1 p (kc_files c i))\<rparr>"

definition link_into_file_blocks :: "nat \<Rightarrow> int \<Rightarrow> key_cache \<Rightarrow> key_cache" where
  "link_into_file_blocks p file c =
     c\<lparr>kc_files := (kc_files c)(chain_of file := p # kc_files c (chain_of file))\<rparr>"

definition relink_into_file_blocks :: "nat \<Rightarrow> int \<Rightarrow> key_cache \<Rightarrow> key_cache" where
  "relink_into_file_blocks p file c = link_into_file_blocks p file (unlink_block p c)"

definition link_changed_to_file :: "nat \<Rightarrow> int \<Rightarrow> key_cache \<Rightarrow> key_cache" where
  "link_changed_to_file p file c =
     (let c = link_into_file_blocks p file (unlink_block p c)
      in set_block p (\<lambda>b. b\<lparr>sl_changed := False\<rparr>) (c\<lparr>kc_blocks_changed := kc_blocks_changed c - 1\<rparr>))"

definition link_file_to_changed :: "nat \<Rightarrow> key_cache \<Rightarrow> key_cache" where
  "link_file_to_changed p c =
     (let c = unlink_block p c; i = chain_of (sl_file (kc_block c p))
      in set_block p (\<lambda>b. b\<lparr>sl_changed := True\<rparr>)
           (c\<lparr>kc_changed := (kc_changed c)(i := p # kc_changed c i), kc_blocks_changed := kc_blocks_changed c + 1\<rparr>))"

subsection \<open>Finding a block\<close>

definition hash_chain :: "key_cache \<Rightarrow> int \<Rightarrow> nat \<Rightarrow> nat" where
  "hash_chain c file filepos =
     unat ((word_of_nat (filepos div 2 ^ kc_shift c) + word_of_int file :: ulong) AND word_of_nat (kc_hash_blocks c - 1))"

definition unlink_hash :: "nat \<Rightarrow> key_cache \<Rightarrow> key_cache" where
  "unlink_hash p c = c\<lparr>kc_hash := (\<lambda>h. remove1 p (kc_hash c h))\<rparr>"

text \<open>The block of a position in memory, and where none is, the block to be used for it; None is an error.\<close>

definition search_hash :: "key_cache \<Rightarrow> int \<Rightarrow> nat \<Rightarrow> nat option" where
  "search_hash c file filepos =
     find (\<lambda>p. sl_diskpos (kc_block c p) = filepos \<and> sl_file (kc_block c p) = file) (kc_hash c (hash_chain c file filepos))"

definition unused_block :: "int \<Rightarrow> key_cache \<Rightarrow> key_cache \<times> nat" where
  "unused_block file c =
     (let p = kc_blocks_used c; c = set_block p (\<lambda>b. b\<lparr>sl_changed := False\<rparr>) (c\<lparr>kc_blocks_used := p + 1\<rparr>);
          c = link_into_file_blocks p file c
      in (c\<lparr>kc_disk_blocks_used := kc_disk_blocks_used c + 1, kc_used := kc_used c @ [p]\<rparr>, p))"

definition reuse_block :: "(nat \<Rightarrow> bool) \<Rightarrow> int \<Rightarrow> key_cache \<Rightarrow> (key_cache \<times> nat option) option" where
  "reuse_block io file c =
     (case kc_used c of
        [] \<Rightarrow> None
      | p # rest \<Rightarrow>
          (let b = kc_block c p;
               (c, failed) = (if sl_changed b then my_pwrite io (sl_file b) (sl_buffer b) (sl_diskpos b) c else (c, False))
           in if failed then Some (c, None)
              else (let c = (if sl_changed b then link_changed_to_file p file (c\<lparr>kc_write := kc_write c + 1\<rparr>)
                             else if sl_file b = - 1 then link_into_file_blocks p file c
                             else relink_into_file_blocks p file c)
                in Some ((unlink_hash p c)\<lparr>kc_used := rest @ [p]\<rparr>, Some p))))"

definition find_key_block :: "(nat \<Rightarrow> bool) \<Rightarrow> int \<Rightarrow> nat \<Rightarrow> key_cache \<Rightarrow> (key_cache \<times> nat option \<times> bool) option" where
  "find_key_block io file filepos c =
     (case search_hash c file filepos of
        Some p \<Rightarrow>
          Some (c\<lparr>kc_used := (if p \<noteq> last (kc_used c) then remove1 p (kc_used c) @ [p] else kc_used c)\<rparr>, Some p, False)
      | None \<Rightarrow> do {
          (c, np) \<leftarrow> (if int (kc_disk_blocks_used c + 1) \<le> kc_disk_blocks c
                      then Some (map_prod id Some (unused_block file c)) else reuse_block io file c);
          case np of
            None \<Rightarrow> Some (c, None, True)
          | Some p \<Rightarrow>
              (let start = hash_chain c file filepos
               in Some (set_block p (\<lambda>b. b\<lparr>sl_file := file, sl_diskpos := filepos\<rparr>)
                          (c\<lparr>kc_hash := (kc_hash c)(start := p # kc_hash c start)\<rparr>), Some p, True))
        })"

subsection \<open>Reading and writing\<close>

text \<open>
  The loop of \<open>key_cache_read\<close>; the result is null or the bytes read. \<open>acc\<close> has those before.
\<close>

definition fill_block :: "nat \<Rightarrow> bytes \<Rightarrow> key_cache \<Rightarrow> key_cache" where
  "fill_block p bs c = set_block p (\<lambda>b. b\<lparr>sl_buffer := bs @ drop (length bs) (sl_buffer b)\<rparr>) c"

definition read_one :: "(nat \<Rightarrow> bool) \<Rightarrow> int \<Rightarrow> nat \<Rightarrow> nat \<Rightarrow> key_cache \<Rightarrow> (key_cache \<times> bytes option) option" where
  "read_one io file filepos read_length c = do {
     (c, np, new) \<leftarrow> find_key_block io file filepos (c\<lparr>kc_r_requests := kc_r_requests c + 1\<rparr>);
     case np of
       None \<Rightarrow> Some (c, None)
     | Some p \<Rightarrow>
         if new then
           (case my_pread io file read_length filepos c of
              (c, None) \<Rightarrow> Some (c, None)
            | (c, Some bs) \<Rightarrow>
                (let c = fill_block p bs (c\<lparr>kc_read := kc_read c + 1\<rparr>) in Some (c, Some (take read_length (sl_buffer (kc_block c p))))))
         else Some (c, Some (take read_length (sl_buffer (kc_block c p))))
   }"

partial_function (option) read_loop ::
  "(nat \<Rightarrow> bool) \<Rightarrow> int \<Rightarrow> nat \<Rightarrow> nat \<Rightarrow> bytes \<Rightarrow> key_cache \<Rightarrow> (key_cache \<times> bytes option) option" where
  "read_loop io file filepos len acc c =
     (let read_length = (if kc_block_size c < len then kc_block_size c else len)
      in do {
        (c, bs) \<leftarrow> read_one io file filepos read_length c;
        case bs of
          None \<Rightarrow> Some (c, None)
        | Some bs \<Rightarrow>
            if len - read_length \<noteq> 0 then read_loop io file (filepos + read_length) (len - read_length) (acc @ bs) c
            else Some (c, Some (acc @ bs))
      })"

definition key_cache_read :: "(nat \<Rightarrow> bool) \<Rightarrow> int \<Rightarrow> nat \<Rightarrow> nat \<Rightarrow> key_cache \<Rightarrow> (key_cache \<times> bytes option) option" where
  "key_cache_read io file filepos len c =
     (if 0 < kc_disk_blocks c then do {
        c \<leftarrow> lock_cache c;
        (c, bs) \<leftarrow> read_loop io file filepos len [] c;
        Some (unlock_cache c, bs)
      }
      else Some (my_pread io file len filepos (c\<lparr>kc_r_requests := kc_r_requests c + 1, kc_read := kc_read c + 1\<rparr>)))"

text \<open>The loop of \<open>key_cache_write\<close>; the result says whether it went to \<open>end\<close> after an error.\<close>

definition write_one :: "(nat \<Rightarrow> bool) \<Rightarrow> int \<Rightarrow> nat \<Rightarrow> bytes \<Rightarrow> bool \<Rightarrow> key_cache \<Rightarrow> (key_cache \<times> bool) option" where
  "write_one io file filepos bs dont_write c = do {
     (c, np, new) \<leftarrow> find_key_block io file filepos c;
     case np of
       None \<Rightarrow> Some (c, True)
     | Some p \<Rightarrow>
         (let b = kc_block c p;
              c = (if \<not> dont_write then if sl_changed b then link_changed_to_file p (sl_file b) c else c
                   else if \<not> sl_changed b then link_file_to_changed p c else c)
          in Some (fill_block p bs c, False))
   }"

partial_function (option) write_loop ::
  "(nat \<Rightarrow> bool) \<Rightarrow> int \<Rightarrow> nat \<Rightarrow> bytes \<Rightarrow> bool \<Rightarrow> key_cache \<Rightarrow> (key_cache \<times> bool) option" where
  "write_loop io file filepos buff dont_write c =
     (let read_length = (if kc_block_size c < length buff then kc_block_size c else length buff)
      in do {
        (c, failed) \<leftarrow> write_one io file filepos (take read_length buff) dont_write c;
        if failed then Some (c, True)
        else if length buff - read_length \<noteq> 0
        then write_loop io file (filepos + read_length) (drop read_length buff) dont_write c
        else Some (c, False)
      })"

declare read_loop.simps [code] write_loop.simps [code]

definition key_cache_write :: "(nat \<Rightarrow> bool) \<Rightarrow> int \<Rightarrow> nat \<Rightarrow> bytes \<Rightarrow> bool \<Rightarrow> key_cache \<Rightarrow> (key_cache \<times> bool) option" where
  "key_cache_write io file filepos buff dont_write c =
     (let (c, failed) = (if dont_write then (c, False)
                         else my_pwrite io file buff filepos (c\<lparr>kc_write := kc_write c + 1\<rparr>))
      in if failed then Some (c, True)
         else if 0 < kc_disk_blocks c then do {
           c \<leftarrow> lock_cache c;
           (c, failed) \<leftarrow> write_loop io file filepos buff dont_write (c\<lparr>kc_w_requests := kc_w_requests c + 1\<rparr>);
           Some (if failed then (c, True) else (unlock_cache c, False))
         }
         else if dont_write
         then Some (my_pwrite io file buff filepos (c\<lparr>kc_w_requests := kc_w_requests c + 1, kc_write := kc_write c + 1\<rparr>))
         else Some (c, False))"

subsection \<open>Flushing\<close>

definition free_block :: "nat \<Rightarrow> key_cache \<Rightarrow> key_cache" where
  "free_block p c =
     (let c = set_block p (\<lambda>b. b\<lparr>sl_file := - 1, sl_changed := False\<rparr>) c;
          c = c\<lparr>kc_used := (if kc_used c \<noteq> [] \<and> p = hd (kc_used c) then kc_used c else p # remove1 p (kc_used c))\<rparr>
      in unlink_block p (unlink_hash p c))"

definition cmp_sec_link :: "key_cache \<Rightarrow> nat \<Rightarrow> nat \<Rightarrow> int" where
  "cmp_sec_link c a b =
     (if sl_diskpos (kc_block c a) < sl_diskpos (kc_block c b) then - 1
      else if sl_diskpos (kc_block c b) < sl_diskpos (kc_block c a) then 1 else 0)"

primrec write_blocks :: "(nat \<Rightarrow> bool) \<Rightarrow> int \<Rightarrow> nat list \<Rightarrow> key_cache \<Rightarrow> bool \<Rightarrow> key_cache \<times> bool" where
  "write_blocks io file [] c last_errno = (c, last_errno)"
| "write_blocks io file (p # ps) c last_errno =
     (let (c, failed) = my_pwrite io file (sl_buffer (kc_block c p)) (sl_diskpos (kc_block c p)) c
      in write_blocks io file ps c (last_errno \<or> failed))"

definition flush_cached_blocks :: "(nat \<Rightarrow> bool) \<Rightarrow> int \<Rightarrow> nat list \<Rightarrow> key_cache \<Rightarrow> (key_cache \<times> bool) option" where
  "flush_cached_blocks io file cache c = do {
     cache \<leftarrow> qsort2 (cmp_sec_link c) 8 cache;
     Some (write_blocks io file cache c False)
   }"

text \<open>
  The loop over the changed blocks. \<open>pos\<close> has the blocks gathered in \<open>cache\<close>, which has room for
  \<open>cap\<close>; the results are the state, the blocks gathered and whether a write failed.
\<close>

abbreviation releases :: "flush_type \<Rightarrow> bool" where
  "releases ty \<equiv> ty \<noteq> FLUSH_KEEP \<and> ty \<noteq> FLUSH_FORCE_WRITE"

fun flush_changed :: "(nat \<Rightarrow> bool) \<Rightarrow> int \<Rightarrow> flush_type \<Rightarrow> nat \<Rightarrow> nat list \<Rightarrow> nat list \<Rightarrow> bool \<Rightarrow> key_cache \<Rightarrow>
    (key_cache \<times> nat list \<times> bool) option" where
  "flush_changed io file ty cap [] pos last_errno c = Some (c, pos, last_errno)"
| "flush_changed io file ty cap (p # ps) pos last_errno c =
     (if sl_file (kc_block c p) = file then do {
        (c, pos, last_errno) \<leftarrow>
          (if ty \<noteq> FLUSH_IGNORE_CHANGED then do {
             (c, pos, last_errno) \<leftarrow>
               (if length pos = cap
                then do { (c, failed) \<leftarrow> flush_cached_blocks io file pos c; Some (c, [], last_errno \<or> failed) }
                else Some (c, pos, last_errno));
             Some (c\<lparr>kc_write := kc_write c + 1\<rparr>, pos @ [p], last_errno)
           }
           else Some (c, pos, last_errno));
        let c = (if releases ty then free_block p (c\<lparr>kc_blocks_changed := kc_blocks_changed c - 1\<rparr>)
                 else link_changed_to_file p file c);
        flush_changed io file ty cap ps pos last_errno c
      }
      else flush_changed io file ty cap ps pos last_errno c)"

primrec free_file_blocks :: "int \<Rightarrow> flush_type \<Rightarrow> nat list \<Rightarrow> key_cache \<Rightarrow> key_cache" where
  "free_file_blocks file ty [] c = c"
| "free_file_blocks file ty (p # ps) c =
     free_file_blocks file ty ps
       (if sl_file (kc_block c p) = file \<and> (\<not> sl_changed (kc_block c p) \<or> ty = FLUSH_IGNORE_CHANGED)
        then free_block p c else c)"

text \<open>
  \<open>disable\<close> is \<open>my_disable_flush_key_blocks\<close>; \<open>alloc\<close> tells whether there is memory for more than
  \<open>FLUSH_CACHE\<close> pointers. The result is whether a write failed.
\<close>

definition flush_key_blocks :: "(nat \<Rightarrow> bool) \<Rightarrow> bool \<Rightarrow> bool \<Rightarrow> int \<Rightarrow> flush_type \<Rightarrow> key_cache \<Rightarrow> (key_cache \<times> bool) option" where
  "flush_key_blocks io alloc disable file ty c = do {
     c \<leftarrow> lock_cache c;
     if 0 < kc_disk_blocks c \<and> (\<not> disable \<or> ty \<noteq> FLUSH_KEEP) then do {
       let n = length (filter (\<lambda>p. sl_file (kc_block c p) = file) (kc_changed c (chain_of file)));
       let cap = (if ty = FLUSH_IGNORE_CHANGED then 0 else if n \<le> FLUSH_CACHE \<or> \<not> alloc then FLUSH_CACHE else n);
       (c, pos, last_errno) \<leftarrow> flush_changed io file ty cap (kc_changed c (chain_of file)) [] False c;
       (c, failed) \<leftarrow> (if pos \<noteq> [] then flush_cached_blocks io file pos c else Some (c, False));
       let c = (if releases ty then free_file_blocks file ty (kc_files c (chain_of file)) c else c);
       Some (unlock_cache c, last_errno \<or> failed)
     }
     else Some (unlock_cache c, False)
   }"

end
