(* ===== verification/KeyCacheSpec.thy ===== *)
theory KeyCacheSpec
  imports KeyCache
begin

text \<open>
  What the key cache promises: the lists hold the blocks they should, every block is in the used chain
  once, no position is in memory twice, and a block that is not changed has the bytes of the
  file. What a reader sees of the files is then independent of what is in memory.
\<close>

subsection \<open>Families of lists\<close>

text \<open>Lists without repetition: block \<open>p\<close> is in the list with the number \<open>ix p\<close>.\<close>

definition family :: "(nat \<Rightarrow> nat list) \<Rightarrow> (nat \<Rightarrow> nat option) \<Rightarrow> bool" where
  "family fam ix \<longleftrightarrow> (\<forall>i. distinct (fam i) \<and> (\<forall>p. p \<in> set (fam i) \<longleftrightarrow> ix p = Some i))"

lemma familyD: "family fam ix \<Longrightarrow> distinct (fam i)" "family fam ix \<Longrightarrow> p \<in> set (fam i) \<longleftrightarrow> ix p = Some i"
  by (simp_all add: family_def)

lemma family_remove: "family fam ix \<Longrightarrow> family (\<lambda>i. remove1 p (fam i)) (ix(p := None))"
  by (auto simp: family_def)

lemma family_add: "family fam ix \<Longrightarrow> ix p = None \<Longrightarrow> family (fam(i := p # fam i)) (ix(p := Some i))"
  by (auto simp: family_def)

lemma family_move:
  assumes "family fam ix"
  shows "family ((\<lambda>i. remove1 p (fam i))(j := p # remove1 p (fam j))) (ix(p := Some j))"
  using family_add [OF family_remove [OF assms, of p], of p j] by simp

lemma family_empty: "family (\<lambda>_. []) (\<lambda>_. None)"
  by (simp add: family_def)

subsection \<open>The invariant\<close>

definition in_memory :: "key_cache \<Rightarrow> nat \<Rightarrow> bool" where
  "in_memory c p \<longleftrightarrow> p < kc_blocks_used c \<and> sl_file (kc_block c p) \<noteq> - 1"

definition ix_hash :: "key_cache \<Rightarrow> nat \<Rightarrow> nat option" where
  "ix_hash c p = (if in_memory c p then Some (hash_chain c (sl_file (kc_block c p)) (sl_diskpos (kc_block c p))) else None)"

definition ix_changed :: "key_cache \<Rightarrow> nat \<Rightarrow> nat option" where
  "ix_changed c p = (if in_memory c p \<and> sl_changed (kc_block c p) then Some (chain_of (sl_file (kc_block c p))) else None)"

definition ix_files :: "key_cache \<Rightarrow> nat \<Rightarrow> nat option" where
  "ix_files c p = (if in_memory c p \<and> \<not> sl_changed (kc_block c p) then Some (chain_of (sl_file (kc_block c p))) else None)"

definition lists_ok :: "key_cache \<Rightarrow> bool" where
  "lists_ok c \<longleftrightarrow> family (kc_hash c) (ix_hash c) \<and> family (kc_changed c) (ix_changed c) \<and> family (kc_files c) (ix_files c) \<and>
     distinct (kc_used c) \<and> set (kc_used c) = {..<kc_blocks_used c} \<and>
     kc_blocks_changed c = card {p. in_memory c p \<and> sl_changed (kc_block c p)}"

definition numbers_ok :: "key_cache \<Rightarrow> bool" where
  "numbers_ok c \<longleftrightarrow> kc_disk_blocks_used c = kc_blocks_used c \<and> int (kc_blocks_used c) \<le> kc_disk_blocks c \<and>
     0 < kc_disk_blocks c \<and> 0 < kc_block_size c \<and> kc_block_size c = 2 ^ kc_shift c"

text \<open>The blocks in \<open>X\<close> are exempt from having the bytes of the file.\<close>

definition blocks_ok :: "nat set \<Rightarrow> key_cache \<Rightarrow> bool" where
  "blocks_ok X c \<longleftrightarrow>
     (\<forall>p. length (sl_buffer (kc_block c p)) = kc_block_size c) \<and>
     (\<forall>p < kc_blocks_used c. sl_file (kc_block c p) = - 1 \<longrightarrow> \<not> sl_changed (kc_block c p)) \<and>
     (\<forall>p. in_memory c p \<longrightarrow> kc_block_size c dvd sl_diskpos (kc_block c p)) \<and>
     (\<forall>p q. in_memory c p \<longrightarrow> in_memory c q \<longrightarrow> sl_file (kc_block c p) = sl_file (kc_block c q) \<longrightarrow>
        sl_diskpos (kc_block c p) = sl_diskpos (kc_block c q) \<longrightarrow> p = q) \<and>
     (\<forall>p. in_memory c p \<longrightarrow> \<not> sl_changed (kc_block c p) \<longrightarrow> p \<notin> X \<longrightarrow>
        (\<forall>i < kc_block_size c. kc_disk c (sl_file (kc_block c p)) (sl_diskpos (kc_block c p) + i) = Some (sl_buffer (kc_block c p) ! i)))"

definition cache_ok :: "nat set \<Rightarrow> key_cache \<Rightarrow> bool" where
  "cache_ok X c \<longleftrightarrow> lists_ok c \<and> numbers_ok c \<and> blocks_ok X c"

text \<open>What a reader of a file sees.\<close>

definition kc_view :: "key_cache \<Rightarrow> int \<Rightarrow> nat \<Rightarrow> uchar option" where
  "kc_view c file x =
     (case search_hash c file (x - x mod kc_block_size c) of
        Some p \<Rightarrow> Some (sl_buffer (kc_block c p) ! (x mod kc_block_size c))
      | None \<Rightarrow> kc_disk c file x)"

lemma search_hash_iff:
  assumes l: "lists_ok c" and b: "blocks_ok X c" and f: "file \<noteq> - 1"
  shows "search_hash c file pos = Some p \<longleftrightarrow> in_memory c p \<and> sl_file (kc_block c p) = file \<and> sl_diskpos (kc_block c p) = pos"
proof -
  have mem: "p \<in> set (kc_hash c (hash_chain c file pos)) \<longleftrightarrow> in_memory c p \<and> hash_chain c (sl_file (kc_block c p)) (sl_diskpos (kc_block c p)) = hash_chain c file pos" for p
    using l familyD(2) [of "kc_hash c" "ix_hash c"] by (simp add: lists_ok_def ix_hash_def)
  have uniq: "p = q" if "in_memory c p" "in_memory c q" "sl_file (kc_block c p) = sl_file (kc_block c q)" "sl_diskpos (kc_block c p) = sl_diskpos (kc_block c q)" for p q
    using b that unfolding blocks_ok_def by blast
  show ?thesis
  proof
    assume "search_hash c file pos = Some p"
    then obtain i where "i < length (kc_hash c (hash_chain c file pos))" "kc_hash c (hash_chain c file pos) ! i = p"
      "sl_diskpos (kc_block c p) = pos" "sl_file (kc_block c p) = file"
      by (auto simp: search_hash_def find_Some_iff)
    then show "in_memory c p \<and> sl_file (kc_block c p) = file \<and> sl_diskpos (kc_block c p) = pos" using mem nth_mem by blast
  next
    assume p: "in_memory c p \<and> sl_file (kc_block c p) = file \<and> sl_diskpos (kc_block c p) = pos"
    show "search_hash c file pos = Some p"
    proof (cases "search_hash c file pos")
      case None
      then show ?thesis using p mem [of p] by (auto simp: search_hash_def find_None_iff)
    next
      case (Some q)
      then obtain i where "i < length (kc_hash c (hash_chain c file pos))" "kc_hash c (hash_chain c file pos) ! i = q"
        "sl_diskpos (kc_block c q) = pos" "sl_file (kc_block c q) = file"
        by (auto simp: search_hash_def find_Some_iff)
      then have "in_memory c q" "q = p" using mem nth_mem p uniq by blast+
      then show ?thesis using Some by simp
    qed
  qed
qed

lemma search_hash_None_iff:
  assumes "lists_ok c" "blocks_ok X c" "file \<noteq> - 1"
  shows "search_hash c file pos = None \<longleftrightarrow> (\<forall>p. in_memory c p \<longrightarrow> sl_file (kc_block c p) = file \<longrightarrow> sl_diskpos (kc_block c p) \<noteq> pos)"
  using search_hash_iff [OF assms, of pos] by (metis not_Some_eq)

lemma view_in_use:
  assumes "lists_ok c" "blocks_ok X c" "in_memory c p" "sl_diskpos (kc_block c p) = x - x mod kc_block_size c"
  shows "kc_view c (sl_file (kc_block c p)) x = Some (sl_buffer (kc_block c p) ! (x mod kc_block_size c))"
proof -
  have "sl_file (kc_block c p) \<noteq> - 1" using assms(3) by (simp add: in_memory_def)
  from search_hash_iff [OF assms(1,2) this, of "x - x mod kc_block_size c" p] assms(3,4) show ?thesis by (simp add: kc_view_def)
qed

lemma view_disk:
  assumes "lists_ok c" "blocks_ok X c" "file \<noteq> - 1"
    "\<And>p. in_memory c p \<Longrightarrow> sl_file (kc_block c p) = file \<Longrightarrow> sl_diskpos (kc_block c p) \<noteq> x - x mod kc_block_size c"
  shows "kc_view c file x = kc_disk c file x"
  using search_hash_None_iff [OF assms(1-3), of "x - x mod kc_block_size c"] assms(4) by (simp add: kc_view_def)

subsection \<open>Blocks of a file\<close>

definition in_block :: "nat \<Rightarrow> nat \<Rightarrow> nat \<Rightarrow> bool" where
  "in_block bs d x \<longleftrightarrow> d \<le> x \<and> x < d + bs"

lemma in_block_iff:
  assumes "0 < bs" "bs dvd d"
  shows "in_block bs d x \<longleftrightarrow> x - x mod bs = d"
proof -
  obtain k where k: "d = bs * k" using assms(2) by blast
  have x: "x - x mod bs = bs * (x div bs)" by (simp add: minus_mod_eq_mult_div)
  have "in_block bs d x \<longleftrightarrow> k \<le> x div bs \<and> x div bs < k + 1"
    using assms(1) by (simp add: in_block_def k less_eq_div_iff_mult_less_eq div_less_iff_less_mult algebra_simps)
  then show ?thesis using assms(1) by (auto simp: x k)
qed

lemma in_block_offset:
  assumes "in_block bs d x" "bs dvd d"
  shows "x mod bs = x - d"
proof -
  obtain k where k: "d = bs * k" using assms(2) by blast
  define y where "y = x - d"
  have y: "x = bs * k + y" "y < bs" using assms(1) by (auto simp: in_block_def k y_def)
  have "x mod bs = y" unfolding y(1) using y(2) by simp
  then show ?thesis by (simp add: y_def)
qed

lemma pwrite_simp:
  "pwrite dk file pos bs g x = (if g = file \<and> in_block (length bs) pos x then Some (bs ! (x - pos)) else dk g x)"
  by (simp add: pwrite_def in_block_def)

subsection \<open>Taking a block for a position\<close>

definition move :: "nat \<Rightarrow> nat \<Rightarrow> (nat \<Rightarrow> nat list) \<Rightarrow> nat \<Rightarrow> nat list" where
  "move p j fam = (\<lambda>i. remove1 p (fam i))(j := p # remove1 p (fam j))"

definition dirty :: "key_cache \<Rightarrow> nat \<Rightarrow> bool" where
  "dirty c p \<longleftrightarrow> in_memory c p \<and> sl_changed (kc_block c p)"

definition same_fixed :: "key_cache \<Rightarrow> key_cache \<Rightarrow> bool" where
  "same_fixed c c' \<longleftrightarrow> kc_block_size c' = kc_block_size c \<and> kc_shift c' = kc_shift c \<and> kc_hash_blocks c' = kc_hash_blocks c \<and>
     kc_disk_blocks c' = kc_disk_blocks c \<and> kc_locked c' = kc_locked c"

text \<open>The state after block \<open>p\<close> was taken for the position \<open>d\<close> of file \<open>f\<close>.\<close>

definition taken :: "key_cache \<Rightarrow> int \<Rightarrow> nat \<Rightarrow> nat \<Rightarrow> key_cache \<Rightarrow> bool" where
  "taken c f d p c' \<longleftrightarrow>
     kc_block c' = (kc_block c)(p := (kc_block c p)\<lparr>sl_changed := False, sl_file := f, sl_diskpos := d\<rparr>) \<and>
     kc_hash c' = move p (hash_chain c f d) (kc_hash c) \<and> kc_changed c' = (\<lambda>i. remove1 p (kc_changed c i)) \<and>
     kc_files c' = move p (chain_of f) (kc_files c) \<and> distinct (kc_used c') \<and> set (kc_used c') = {..<kc_blocks_used c'} \<and>
     p \<le> kc_blocks_used c \<and> kc_blocks_used c' = max (kc_blocks_used c) (p + 1) \<and> numbers_ok c' \<and> same_fixed c c' \<and>
     kc_blocks_changed c' = kc_blocks_changed c - (if dirty c p then 1 else 0) \<and>
     kc_disk c' = (if dirty c p then pwrite (kc_disk c) (sl_file (kc_block c p)) (sl_diskpos (kc_block c p)) (sl_buffer (kc_block c p)) else kc_disk c) \<and>
     length (sl_buffer (kc_block c p)) = kc_block_size c"

lemma remove1_family: "family fam ix \<Longrightarrow> ix p = None \<Longrightarrow> remove1 p (fam i) = fam i"
  using familyD(2) [of fam ix p i] by (simp add: remove1_idem)

lemma cache_okD:
  assumes "cache_ok X c"
  shows "lists_ok c" "numbers_ok c" "blocks_ok X c" "family (kc_hash c) (ix_hash c)" "family (kc_changed c) (ix_changed c)"
    "family (kc_files c) (ix_files c)" "distinct (kc_used c)" "set (kc_used c) = {..<kc_blocks_used c}"
    "kc_blocks_changed c = card {p. dirty c p}" "length (sl_buffer (kc_block c p)) = kc_block_size c"
  using assms by (simp_all add: cache_ok_def lists_ok_def blocks_ok_def dirty_def)

lemma unchanged_block: "\<not> sl_changed b \<Longrightarrow> b\<lparr>sl_changed := False\<rparr> = b"
  by (cases b) simp

lemma find_key_block_new:
  assumes ok: "cache_ok {} c" and io: "\<forall>n. io n" and none: "search_hash c f d = None"
  shows "\<exists>c' p. find_key_block io f d c = Some (c', Some p, True) \<and> taken c f d p c'"
proof -
  note D = cache_okD [OF ok] and N = cache_okD(2) [OF ok, unfolded numbers_ok_def]
  show ?thesis
  proof (cases "int (kc_disk_blocks_used c + 1) \<le> kc_disk_blocks c")
    case True
    let ?p = "kc_blocks_used c"
    have idle: "\<not> dirty c ?p" by (simp add: in_memory_def dirty_def)
    have rm: "remove1 ?p (kc_hash c i) = kc_hash c i" "remove1 ?p (kc_changed c i) = kc_changed c i" "remove1 ?p (kc_files c i) = kc_files c i" for i
      by (rule remove1_family [OF D(4)] remove1_family [OF D(5)] remove1_family [OF D(6)];
          simp add: ix_hash_def ix_changed_def ix_files_def in_memory_def)+
    obtain c' where c': "find_key_block io f d c = Some (c', Some ?p, True)" "taken c f d ?p c'"
      using none True N idle D(7,8,10)
      by (auto simp: find_key_block_def unused_block_def link_into_file_blocks_def Let_def hash_chain_def taken_def rm move_def
        numbers_ok_def same_fixed_def lessThan_Suc)
    then show ?thesis by blast
  next
    case False
    then have n: "kc_blocks_used c \<noteq> 0" using N by auto
    then obtain p rest where u: "kc_used c = p # rest" using D(8) by (cases "kc_used c") auto
    have p: "p < kc_blocks_used c" using D(8) u by auto
    have p2: "p \<notin> set rest" "distinct rest" "insert p (set rest) = {..<kc_blocks_used c}" using D(7,8) u by auto
    let ?b = "kc_block c p"
    have iu: "in_memory c p \<longleftrightarrow> sl_file ?b \<noteq> - 1" using p by (simp add: in_memory_def)
    have nc: "sl_file ?b = - 1 \<Longrightarrow> \<not> sl_changed ?b" using D(3) p unfolding blocks_ok_def by blast
    have rm: "remove1 p (kc_changed c i) = kc_changed c i" "sl_file ?b = - 1 \<Longrightarrow> remove1 p (kc_files c i) = kc_files c i"
      if "\<not> sl_changed ?b" for i
      using that iu by (auto intro!: remove1_family [OF D(5)] remove1_family [OF D(6)] simp: ix_changed_def ix_files_def)
    consider "sl_changed ?b" | "\<not> sl_changed ?b" "sl_file ?b = - 1" | "\<not> sl_changed ?b" "sl_file ?b \<noteq> - 1" by blast
    then show ?thesis
    proof cases
      case 1
      then show ?thesis using none False N D(10) nc iu io u p p2 
        by (auto simp: find_key_block_def reuse_block_def my_pwrite_def link_changed_to_file_def link_into_file_blocks_def unlink_block_def
          unlink_hash_def Let_def hash_chain_def taken_def move_def numbers_ok_def same_fixed_def dirty_def)
    next
      case 2
      then show ?thesis using none False N D(10) nc iu io u p p2
        by (auto simp: find_key_block_def reuse_block_def link_into_file_blocks_def unchanged_block rm
          unlink_hash_def Let_def hash_chain_def taken_def move_def numbers_ok_def same_fixed_def dirty_def)
    next
      case 3
      then show ?thesis using none False N D(10) nc iu io u p p2
        by (auto simp: find_key_block_def reuse_block_def relink_into_file_blocks_def link_into_file_blocks_def unlink_block_def unchanged_block rm
          unlink_hash_def Let_def hash_chain_def taken_def move_def numbers_ok_def same_fixed_def dirty_def)
    qed
  qed
qed

lemma takenD:
  assumes "taken c f d p c'"
  shows "kc_block c' = (kc_block c)(p := (kc_block c p)\<lparr>sl_changed := False, sl_file := f, sl_diskpos := d\<rparr>)"
    "kc_hash c' = move p (hash_chain c f d) (kc_hash c)" "kc_changed c' = (\<lambda>i. remove1 p (kc_changed c i))"
    "kc_files c' = move p (chain_of f) (kc_files c)" "distinct (kc_used c')" "set (kc_used c') = {..<kc_blocks_used c'}"
    "p \<le> kc_blocks_used c" "kc_blocks_used c' = max (kc_blocks_used c) (p + 1)" "numbers_ok c'" "same_fixed c c'"
    "kc_blocks_changed c' = kc_blocks_changed c - (if dirty c p then 1 else 0)"
    "kc_disk c' = (if dirty c p then pwrite (kc_disk c) (sl_file (kc_block c p)) (sl_diskpos (kc_block c p)) (sl_buffer (kc_block c p)) else kc_disk c)"
  using assms unfolding taken_def by blast+

lemma same_fixedD:
  assumes "same_fixed c c'"
  shows "kc_block_size c' = kc_block_size c" "kc_locked c' = kc_locked c" "kc_disk_blocks c' = kc_disk_blocks c" "hash_chain c' = hash_chain c"
  using assms by (simp_all add: same_fixed_def fun_eq_iff hash_chain_def)

lemma blocks_okD:
  assumes "blocks_ok X c"
  shows "p < kc_blocks_used c \<Longrightarrow> sl_file (kc_block c p) = - 1 \<Longrightarrow> \<not> sl_changed (kc_block c p)"
    "in_memory c p \<Longrightarrow> kc_block_size c dvd sl_diskpos (kc_block c p)"
    "in_memory c p \<Longrightarrow> in_memory c q \<Longrightarrow> sl_file (kc_block c p) = sl_file (kc_block c q) \<Longrightarrow>
       sl_diskpos (kc_block c p) = sl_diskpos (kc_block c q) \<Longrightarrow> p = q"
    "in_memory c p \<Longrightarrow> \<not> sl_changed (kc_block c p) \<Longrightarrow> p \<notin> X \<Longrightarrow> i < kc_block_size c \<Longrightarrow>
       kc_disk c (sl_file (kc_block c p)) (sl_diskpos (kc_block c p) + i) = Some (sl_buffer (kc_block c p) ! i)"
  using assms unfolding blocks_ok_def by blast+

lemma finite_dirty [simp]: "finite {p. dirty c p}"
  by (rule finite_subset [of _ "{..<kc_blocks_used c}"]) (auto simp: dirty_def in_memory_def)

lemma taken_lists:
  assumes ok: "cache_ok {} c" and t: "taken c f d p c'" and f: "f \<noteq> - 1"
  shows "in_memory c' q \<longleftrightarrow> q = p \<or> in_memory c q" "dirty c' q \<longleftrightarrow> q \<noteq> p \<and> dirty c q" "lists_ok c'"
proof -
  note T = takenD [OF t] and D = cache_okD [OF ok]
  have bu: "q < kc_blocks_used c' \<longleftrightarrow> q = p \<or> q < kc_blocks_used c" for q using T(7,8) by auto
  show iu: "in_memory c' q \<longleftrightarrow> q = p \<or> in_memory c q" for q using bu f by (auto simp: in_memory_def T(1))
  show di: "dirty c' q \<longleftrightarrow> q \<noteq> p \<and> dirty c q" for q by (auto simp: dirty_def iu T(1))
  have ix: "ix_hash c' = (ix_hash c)(p := Some (hash_chain c f d))" "ix_changed c' = (ix_changed c)(p := None)"
    "ix_files c' = (ix_files c)(p := Some (chain_of f))"
    by (auto simp: fun_eq_iff ix_hash_def ix_changed_def ix_files_def iu T(1) same_fixedD(4) [OF T(10)])
  have "{q. dirty c' q} = {q. dirty c q} - {p}" by (auto simp: di)
  then have "kc_blocks_changed c' = card {q. dirty c' q}" using D(9) T(11) by (simp add: card_Diff_singleton_if)
  then show "lists_ok c'" unfolding lists_ok_def dirty_def [symmetric] ix T(2-4) move_def
    using family_move [OF D(4)] family_remove [OF D(5)] family_move [OF D(6)] T(5,6) by simp
qed

lemma block_apart:
  assumes "blocks_ok X c" "numbers_ok c" "in_memory c p" "kc_block_size c dvd d" "in_block (kc_block_size c) d x"
  shows "in_block (kc_block_size c) (sl_diskpos (kc_block c p)) x \<longleftrightarrow> sl_diskpos (kc_block c p) = d"
  using assms in_block_iff blocks_okD(2) [OF assms(1,3)] unfolding numbers_ok_def by metis

lemma taken_blocks:
  assumes ok: "cache_ok {} c" and t: "taken c f d p c'" and f: "f \<noteq> - 1" and d: "kc_block_size c dvd d" and none: "search_hash c f d = None"
  shows "blocks_ok {p} c'"
proof -
  note T = takenD [OF t] and D = cache_okD [OF ok] and B = blocks_okD [OF D(3)] and F = same_fixedD [OF T(10)]
  note iu = taken_lists(1) [OF ok t f]
  have no: "\<not> (in_memory c q \<and> sl_file (kc_block c q) = f \<and> sl_diskpos (kc_block c q) = d)" for q
    using search_hash_None_iff [OF D(1,3) f] none by blast
  have same: "kc_block c' q = kc_block c q" if "q \<noteq> p" for q using that by (simp add: T(1))
  show ?thesis unfolding blocks_ok_def F
  proof (intro conjI allI impI)
    show "length (sl_buffer (kc_block c' q)) = kc_block_size c" for q using D(10) by (simp add: T(1))
    show "\<not> sl_changed (kc_block c' q)" if "q < kc_blocks_used c'" "sl_file (kc_block c' q) = - 1" for q
      using B(1) [of q] that T(7,8) by (cases "q = p") (auto simp: T(1))
    show "kc_block_size c dvd sl_diskpos (kc_block c' q)" if "in_memory c' q" for q
      using B(2) [of q] that d by (cases "q = p") (auto simp: T(1) iu)
    show "q = r" if "in_memory c' q" "in_memory c' r" "sl_file (kc_block c' q) = sl_file (kc_block c' r)" "sl_diskpos (kc_block c' q) = sl_diskpos (kc_block c' r)" for q r
    proof -
      have fd: "sl_file (kc_block c' p) = f" "sl_diskpos (kc_block c' p) = d" by (simp_all add: T(1))
      show ?thesis using that fd no [of q] no [of r] B(3) [of q r] same [of q] same [of r] unfolding iu by metis
    qed
    fix q i assume q: "in_memory c' q" "\<not> sl_changed (kc_block c' q)" "q \<notin> {p}" "i < kc_block_size c"
    then have qp: "q \<noteq> p" "in_memory c q" "\<not> sl_changed (kc_block c q)" using iu same by auto
    have old: "kc_disk c (sl_file (kc_block c q)) (sl_diskpos (kc_block c q) + i) = Some (sl_buffer (kc_block c q) ! i)"
      using B(4) [OF qp(2,3) _ q(4)] by simp
    have "\<not> (sl_file (kc_block c q) = sl_file (kc_block c p) \<and> in_block (kc_block_size c) (sl_diskpos (kc_block c p)) (sl_diskpos (kc_block c q) + i))"
      if "dirty c p"
    proof -
      have p: "in_memory c p" using that by (simp add: dirty_def)
      have "in_block (kc_block_size c) (sl_diskpos (kc_block c q)) (sl_diskpos (kc_block c q) + i)" using q(4) by (simp add: in_block_def)
      from block_apart [OF D(3,2) p B(2) [OF qp(2)] this] show ?thesis using B(3) [OF p qp(2)] qp(1) by auto
    qed
    then show "kc_disk c' (sl_file (kc_block c' q)) (sl_diskpos (kc_block c' q) + i) = Some (sl_buffer (kc_block c' q) ! i)"
      using old D(10) [of p] unfolding same [OF qp(1)] T(12) by (cases "dirty c p") (auto simp: pwrite_simp)
  qed
qed

lemma taken_view:
  assumes ok: "cache_ok {} c" and t: "taken c f d p c'" and f: "f \<noteq> - 1" and d: "kc_block_size c dvd d" and none: "search_hash c f d = None"
  shows "g \<noteq> - 1 \<Longrightarrow> \<not> (g = f \<and> in_block (kc_block_size c) d x) \<Longrightarrow> kc_view c' g x = kc_view c g x"
    "in_block (kc_block_size c) d x \<Longrightarrow> kc_disk c' f x = kc_view c f x"
proof -
  note T = takenD [OF t] and D = cache_okD [OF ok] and B = blocks_okD [OF D(3)] and F = same_fixedD [OF T(10)]
  note L = taken_lists [OF ok t f] and B' = taken_blocks [OF assms]
  let ?bs = "kc_block_size c"
  have b0: "0 < ?bs" using D(2) by (simp add: numbers_ok_def)
  have no: "\<not> (in_memory c q \<and> sl_file (kc_block c q) = f \<and> sl_diskpos (kc_block c q) = d)" for q
    using search_hash_None_iff [OF D(1,3) f] none by blast
  have same: "kc_block c' q = kc_block c q" if "q \<noteq> p" for q using that by (simp add: T(1))
  have disk: "kc_disk c' g x = kc_disk c g x" if "\<not> (dirty c p \<and> sl_file (kc_block c p) = g \<and> sl_diskpos (kc_block c p) = x - x mod ?bs)" for g x
  proof (cases "dirty c p")
    case True
    then have "in_memory c p" by (simp add: dirty_def)
    then have "in_block ?bs (sl_diskpos (kc_block c p)) x \<longleftrightarrow> sl_diskpos (kc_block c p) = x - x mod ?bs"
      using in_block_iff [OF b0 B(2)] by metis
    then show ?thesis using that True D(10) [of p] by (auto simp: T(12) pwrite_simp)
  qed (simp add: T(12))
  show "kc_disk c' f x = kc_view c f x" if "in_block ?bs d x" for x
  proof -
    have e: "x - x mod ?bs = d" using in_block_iff [OF b0 d] that by simp
    have "kc_view c f x = kc_disk c f x" by (rule view_disk [OF D(1,3) f]) (use no e in auto)
    moreover have "kc_disk c' f x = kc_disk c f x" by (rule disk) (use no e in \<open>auto simp: dirty_def\<close>)
    ultimately show ?thesis by simp
  qed
  show "kc_view c' g x = kc_view c g x" if g: "g \<noteq> - 1" "\<not> (g = f \<and> in_block ?bs d x)" for g x
  proof -
    let ?e = "x - x mod ?bs"
    have fd: "\<not> (g = f \<and> ?e = d)" using g(2) in_block_iff [OF b0 d] by auto
    have at_p: "sl_file (kc_block c' p) = f" "sl_diskpos (kc_block c' p) = d" by (simp_all add: T(1))
    show ?thesis
    proof (cases "\<exists>q. in_memory c q \<and> sl_file (kc_block c q) = g \<and> sl_diskpos (kc_block c q) = ?e")
      case True
      then obtain q where q: "in_memory c q" "sl_file (kc_block c q) = g" "sl_diskpos (kc_block c q) = ?e" by blast
      have v: "kc_view c g x = Some (sl_buffer (kc_block c q) ! (x mod ?bs))"
        using view_in_use [OF D(1,3) q(1,3)] q(2) by simp
      show ?thesis
      proof (cases "q = p")
        case False
        then have "in_memory c' q" "sl_diskpos (kc_block c' q) = x - x mod kc_block_size c'" using q L(1) same F(1) by auto
        from view_in_use [OF L(3) B' this] same [OF False] q(2) v F(1) show ?thesis by simp
      next
        case qp: True
        have "kc_view c' g x = kc_disk c' g x"
        proof (rule view_disk [OF L(3) B' g(1)])
          fix r assume r: "in_memory c' r" "sl_file (kc_block c' r) = g"
          show "sl_diskpos (kc_block c' r) \<noteq> x - x mod kc_block_size c'"
            using r fd at_p B(3) [of r q] q qp same [of r] L(1) F(1) by (cases "r = p") auto
        qed
        moreover have "kc_disk c' g x = Some (sl_buffer (kc_block c q) ! (x mod ?bs))"
        proof (cases "dirty c p")
          case True
          have i: "in_block ?bs ?e x" using in_block_iff [OF b0 B(2) [OF q(1)]] q(3) by simp
          have "?bs dvd ?e" using B(2) [OF q(1)] q(3) by simp
          from in_block_offset [OF i this] True i q qp D(10) [of p] show ?thesis by (simp add: T(12) pwrite_simp)
        next
          case False
          then have "\<not> sl_changed (kc_block c q)" using q(1) qp by (simp add: dirty_def)
          from B(4) [OF q(1) this _ mod_less_divisor [OF b0], of x] q False show ?thesis by (simp add: T(12))
        qed
        ultimately show ?thesis using v by simp
      qed
    next
      case False
      have "kc_view c g x = kc_disk c g x" by (rule view_disk [OF D(1,3) g(1)]) (use False in auto)
      moreover have "kc_view c' g x = kc_disk c' g x"
      proof (rule view_disk [OF L(3) B' g(1)])
        fix r assume r: "in_memory c' r" "sl_file (kc_block c' r) = g"
        show "sl_diskpos (kc_block c' r) \<noteq> x - x mod kc_block_size c'"
          using r fd at_p False same [of r] L(1) F(1) by (cases "r = p") auto
      qed
      moreover have "kc_disk c' g x = kc_disk c g x" by (rule disk) (use False in \<open>auto simp: dirty_def\<close>)
      ultimately show ?thesis by simp
    qed
  qed
qed

subsection \<open>Finding a block\<close>

text \<open>The counters, the mutex and the used chain do not matter for the contents.\<close>

definition same_cache :: "key_cache \<Rightarrow> key_cache \<Rightarrow> bool" where
  "same_cache c c' \<longleftrightarrow> kc_block c' = kc_block c \<and> kc_hash c' = kc_hash c \<and> kc_changed c' = kc_changed c \<and> kc_files c' = kc_files c \<and>
     kc_blocks_used c' = kc_blocks_used c \<and> kc_disk_blocks_used c' = kc_disk_blocks_used c \<and> kc_blocks_changed c' = kc_blocks_changed c \<and>
     kc_disk c' = kc_disk c \<and> kc_block_size c' = kc_block_size c \<and> kc_shift c' = kc_shift c \<and> kc_hash_blocks c' = kc_hash_blocks c \<and>
     kc_disk_blocks c' = kc_disk_blocks c \<and> distinct (kc_used c') = distinct (kc_used c) \<and> set (kc_used c') = set (kc_used c)"

lemma same_cacheD:
  assumes "same_cache c c'"
  shows "in_memory c' = in_memory c" "cache_ok X c' \<longleftrightarrow> cache_ok X c" "kc_view c' = kc_view c"
proof -
  note S = assms [unfolded same_cache_def]
  show i: "in_memory c' = in_memory c" using S by (simp add: in_memory_def fun_eq_iff)
  have h: "hash_chain c' = hash_chain c" using S by (simp add: hash_chain_def fun_eq_iff)
  then have "search_hash c' = search_hash c" using S by (simp add: search_hash_def fun_eq_iff)
  then show "kc_view c' = kc_view c" unfolding kc_view_def fun_eq_iff using S by (simp split: option.split)
  have x: "ix_hash c' = ix_hash c" "ix_changed c' = ix_changed c" "ix_files c' = ix_files c"
    unfolding fun_eq_iff ix_hash_def ix_changed_def ix_files_def i h using S by simp_all
  have "lists_ok c' = lists_ok c" unfolding lists_ok_def x i using S by simp
  moreover have "numbers_ok c' = numbers_ok c" unfolding numbers_ok_def using S by simp
  moreover have "blocks_ok X c' = blocks_ok X c" unfolding blocks_ok_def i using S by simp
  ultimately show "cache_ok X c' \<longleftrightarrow> cache_ok X c" by (simp add: cache_ok_def)
qed

lemma same_cache_simps [simp]:
  "same_cache c (c\<lparr>kc_r_requests := n\<rparr>)" "same_cache c (c\<lparr>kc_read := n\<rparr>)" "same_cache c (c\<lparr>kc_w_requests := n\<rparr>)"
  "same_cache c (c\<lparr>kc_write := n\<rparr>)" "same_cache c (c\<lparr>kc_io := n\<rparr>)" "same_cache c (c\<lparr>kc_locked := l\<rparr>)"
  by (simp_all add: same_cache_def)

lemmas aside [simp] =
  same_cacheD(2,3) [OF same_cache_simps(1)] same_cacheD(2,3) [OF same_cache_simps(2)] same_cacheD(2,3) [OF same_cache_simps(3)]
  same_cacheD(2,3) [OF same_cache_simps(4)] same_cacheD(2,3) [OF same_cache_simps(5)] same_cacheD(2,3) [OF same_cache_simps(6)]

lemma same_fixed_simps [simp]:
  "same_fixed c c" "same_fixed c (c'\<lparr>kc_r_requests := n\<rparr>) \<longleftrightarrow> same_fixed c c'" "same_fixed c (c'\<lparr>kc_read := n\<rparr>) \<longleftrightarrow> same_fixed c c'"
  "same_fixed c (c'\<lparr>kc_io := n\<rparr>) \<longleftrightarrow> same_fixed c c'" "same_fixed (c\<lparr>kc_r_requests := n\<rparr>) c' \<longleftrightarrow> same_fixed c c'"
  by (simp_all add: same_fixed_def)

lemma same_fixed_trans: "same_fixed a b \<Longrightarrow> same_fixed b c \<Longrightarrow> same_fixed a c"
  by (simp add: same_fixed_def)

text \<open>
  The block found has the position. One that is new is exempt from having the bytes of the file,
  which has the bytes seen before at its position.
\<close>

definition found :: "key_cache \<Rightarrow> int \<Rightarrow> nat \<Rightarrow> key_cache \<Rightarrow> nat \<Rightarrow> bool \<Rightarrow> bool" where
  "found c f d c' p new \<longleftrightarrow> cache_ok (if new then {p} else {}) c' \<and> same_fixed c c' \<and>
     in_memory c' p \<and> sl_file (kc_block c' p) = f \<and> sl_diskpos (kc_block c' p) = d \<and>
     (\<forall>g x. g \<noteq> - 1 \<longrightarrow> \<not> (g = f \<and> in_block (kc_block_size c) d x) \<longrightarrow> kc_view c' g x = kc_view c g x) \<and>
     (if new then \<not> sl_changed (kc_block c' p) \<and> (\<forall>x. in_block (kc_block_size c) d x \<longrightarrow> kc_disk c' f x = kc_view c f x)
      else kc_view c' = kc_view c \<and> kc_disk c' = kc_disk c)"

lemma find_key_block_hit:
  assumes ok: "cache_ok X c" and s: "search_hash c f d = Some p" and f: "f \<noteq> - 1"
  shows "\<exists>c'. find_key_block io f d c = Some (c', Some p, False) \<and> same_cache c c' \<and> same_fixed c c'"
proof -
  note D = cache_okD [OF ok]
  have "in_memory c p" using search_hash_iff [OF D(1,3) f] s by blast
  then have "p \<in> set (kc_used c)" using D(8) by (simp add: in_memory_def)
  then show ?thesis using s D(7) by (auto simp: find_key_block_def same_cache_def same_fixed_def)
qed

lemma find_key_block_correct:
  assumes ok: "cache_ok {} c" and io: "\<forall>n. io n" and f: "f \<noteq> - 1" and d: "kc_block_size c dvd d"
  shows "\<exists>c' p new. find_key_block io f d c = Some (c', Some p, new) \<and> found c f d c' p new"
proof (cases "search_hash c f d")
  case None
  obtain c' p where c': "find_key_block io f d c = Some (c', Some p, True)" "taken c f d p c'"
    using find_key_block_new [OF ok io None] by blast
  note T = takenD [OF c'(2)] and L = taken_lists [OF ok c'(2) f] and V = taken_view [OF ok c'(2) f d None]
  have "cache_ok {p} c'" using L(3) T(9) taken_blocks [OF ok c'(2) f d None] by (simp add: cache_ok_def)
  then have "found c f d c' p True" unfolding found_def using T(10) L(1) V by (simp add: T(1))
  with c'(1) show ?thesis by blast
next
  case (Some p)
  note D = cache_okD [OF ok]
  have p: "in_memory c p" "sl_file (kc_block c p) = f" "sl_diskpos (kc_block c p) = d" using search_hash_iff [OF D(1,3) f] Some by blast+
  obtain c' where c': "find_key_block io f d c = Some (c', Some p, False)" "same_cache c c'" "same_fixed c c'"
    using find_key_block_hit [OF ok Some f] by blast
  note A = same_cacheD [OF c'(2)]
  have "kc_block c' = kc_block c" "kc_disk c' = kc_disk c" using c'(2) by (simp_all add: same_cache_def)
  then have "found c f d c' p False" unfolding found_def using A(2) [of "{}"] A(1,3) ok p c'(3) by simp
  with c'(1) show ?thesis by blast
qed

subsection \<open>Filling a block\<close>

text \<open>
  After a block is filled with \<open>bs\<close> and is marked as changed or has its bytes in the file, it is like the others.
\<close>

lemma fill_block_ok:
  assumes ok: "cache_ok X c" and X: "X \<subseteq> {p}" and p: "in_memory c p" and len: "length bs = kc_block_size c"
    and co: "sl_changed (kc_block c p) \<or> (\<forall>i < kc_block_size c. kc_disk c (sl_file (kc_block c p)) (sl_diskpos (kc_block c p) + i) = Some (bs ! i))"
  shows "cache_ok {} (fill_block p bs c)" "same_fixed c (fill_block p bs c)" "kc_disk (fill_block p bs c) = kc_disk c"
    "g \<noteq> - 1 \<Longrightarrow> kc_view (fill_block p bs c) g x =
      (if g = sl_file (kc_block c p) \<and> in_block (kc_block_size c) (sl_diskpos (kc_block c p)) x
       then Some (bs ! (x - sl_diskpos (kc_block c p))) else kc_view c g x)"
proof -
  let ?c = "fill_block p bs c"
  note D = cache_okD [OF ok] and B = blocks_okD [OF cache_okD(3) [OF ok]]
  have b: "kc_block ?c q = (if q = p then (kc_block c p)\<lparr>sl_buffer := bs\<rparr> else kc_block c q)" for q
    using len D(10) [of p] by (simp add: fill_block_def)
  have f: "sl_file (kc_block ?c q) = sl_file (kc_block c q)" "sl_diskpos (kc_block ?c q) = sl_diskpos (kc_block c q)"
    "sl_changed (kc_block ?c q) = sl_changed (kc_block c q)" for q by (simp_all add: b)
  have o: "kc_block_size ?c = kc_block_size c" "kc_blocks_used ?c = kc_blocks_used c" "kc_disk ?c = kc_disk c" by (simp_all add: fill_block_def)
  have i: "in_memory ?c = in_memory c" by (simp add: fun_eq_iff in_memory_def f o)
  have h: "hash_chain ?c = hash_chain c" by (simp add: fun_eq_iff hash_chain_def fill_block_def)
  have ix: "ix_hash ?c = ix_hash c" "ix_changed ?c = ix_changed c" "ix_files ?c = ix_files c"
    by (auto simp: fun_eq_iff ix_hash_def ix_changed_def ix_files_def i h f)
  have L: "lists_ok ?c" using D(1) unfolding lists_ok_def ix i f by (simp add: fill_block_def)
  have N: "numbers_ok ?c" using D(2) by (simp add: numbers_ok_def fill_block_def)
  have BK: "blocks_ok {} ?c" unfolding blocks_ok_def i f o
  proof (intro conjI allI impI)
    show "length (sl_buffer (kc_block ?c q)) = kc_block_size c" for q using D(10) [of q] len by (simp add: b)
    fix q j assume q: "in_memory c q" "\<not> sl_changed (kc_block c q)" "j < kc_block_size c"
    show "kc_disk c (sl_file (kc_block c q)) (sl_diskpos (kc_block c q) + j) = Some (sl_buffer (kc_block ?c q) ! j)"
      using co q B(4) [OF q(1,2) _ q(3)] X by (cases "q = p") (auto simp: b)
  qed (use B in blast)+
  show "cache_ok {} ?c" using L N BK by (simp add: cache_ok_def)
  show "same_fixed c ?c" by (simp add: same_fixed_def fill_block_def)
  show "kc_disk ?c = kc_disk c" by (rule o(3))
  show "kc_view ?c g x = (if g = sl_file (kc_block c p) \<and> in_block (kc_block_size c) (sl_diskpos (kc_block c p)) x
       then Some (bs ! (x - sl_diskpos (kc_block c p))) else kc_view c g x)" if g: "g \<noteq> - 1"
  proof -
    have s: "search_hash ?c g e = search_hash c g e" for e by (simp add: search_hash_def h f) (simp add: fill_block_def)
    have b0: "0 < kc_block_size c" using D(2) by (simp add: numbers_ok_def)
    note ib = in_block_iff [OF b0 B(2) [OF p], of x]
    show ?thesis
    proof (cases "search_hash c g (x - x mod kc_block_size c)")
      case None
      then have "\<not> (g = sl_file (kc_block c p) \<and> in_block (kc_block_size c) (sl_diskpos (kc_block c p)) x)"
        using search_hash_None_iff [OF D(1,3) g] p ib by metis
      then show ?thesis using None by (auto simp: kc_view_def s o)
    next
      case (Some q)
      then have q: "in_memory c q" "sl_file (kc_block c q) = g" "sl_diskpos (kc_block c q) = x - x mod kc_block_size c"
        using search_hash_iff [OF D(1,3) g] by blast+
      have "q = p \<longleftrightarrow> g = sl_file (kc_block c p) \<and> in_block (kc_block_size c) (sl_diskpos (kc_block c p)) x"
        using q B(3) [OF q(1) p] ib by metis
      then show ?thesis using Some in_block_offset [OF _ B(2) [OF p], of x] by (simp add: kc_view_def s o b)
    qed
  qed
qed

subsection \<open>Reading\<close>

lemma those_Some: "those xs = Some ys \<longleftrightarrow> xs = map Some ys"
  by (induction xs arbitrary: ys) (auto split: option.splits simp: map_eq_Cons_conv)

lemma pread_iff: "pread dk file pos n = Some bs \<longleftrightarrow> length bs = n \<and> (\<forall>i < n. dk file (pos + i) = Some (bs ! i))"
  unfolding pread_def those_Some list_eq_iff_nth_eq by auto

lemma read_one_correct:
  assumes ok: "cache_ok {} c" and io: "\<forall>n. io n" and f: "f \<noteq> - 1" and d: "kc_block_size c dvd d"
    and bs: "pread (kc_view c) f d (kc_block_size c) = Some bs"
  shows "\<exists>c'. read_one io f d (kc_block_size c) c = Some (c', Some bs) \<and> cache_ok {} c' \<and> same_fixed c c' \<and>
    (\<forall>g x. g \<noteq> - 1 \<longrightarrow> kc_view c' g x = kc_view c g x)"
proof -
  let ?B = "kc_block_size c"
  note pr = bs [unfolded pread_iff]
  let ?c = "c\<lparr>kc_r_requests := kc_r_requests c + 1\<rparr>"
  have "cache_ok {} ?c" using ok by simp
  from find_key_block_correct [OF this io f, of d] d obtain c1 p new where
    c1: "find_key_block io f d ?c = Some (c1, Some p, new)" "found ?c f d c1 p new" by auto
  have F: "cache_ok (if new then {p} else {}) c1" "same_fixed c c1" "in_memory c1 p" "sl_file (kc_block c1 p) = f" "sl_diskpos (kc_block c1 p) = d"
    "\<And>g x. g \<noteq> - 1 \<Longrightarrow> \<not> (g = f \<and> in_block ?B d x) \<Longrightarrow> kc_view c1 g x = kc_view c g x"
    "if new then \<not> sl_changed (kc_block c1 p) \<and> (\<forall>x. in_block ?B d x \<longrightarrow> kc_disk c1 f x = kc_view c f x) else kc_view c1 = kc_view c \<and> kc_disk c1 = kc_disk c"
    using c1(2) unfolding found_def by simp_all
  have B1: "kc_block_size c1 = ?B" "0 < ?B" using same_fixedD(1) [OF F(2)] cache_okD(2) [OF ok] by (simp_all add: numbers_ok_def)
  show ?thesis
  proof (cases new)
    case False
    note D = cache_okD [OF F(1)]
    have "take ?B (sl_buffer (kc_block c1 p)) = bs"
    proof (rule nth_equalityI)
      show "length (take ?B (sl_buffer (kc_block c1 p))) = length bs" using D(10) [of p] pr B1 by simp
      fix i assume "i < length (take ?B (sl_buffer (kc_block c1 p)))"
      then have i: "i < ?B" by simp
      then have ib: "in_block ?B d (d + i)" by (simp add: in_block_def)
      have e: "d + i - (d + i) mod ?B = d" "(d + i) mod ?B = i" using in_block_iff [OF B1(2) d] ib in_block_offset [OF ib d] by auto
      have "kc_view c1 f (d + i) = Some (sl_buffer (kc_block c1 p) ! i)"
        using view_in_use [OF D(1,3) F(3), of "d + i"] F(4,5) e B1 by simp
      then show "take ?B (sl_buffer (kc_block c1 p)) ! i = bs ! i" using pr i F(7) False by simp
    qed
    then have "read_one io f d ?B c = Some (c1, Some bs)" using c1(1) False by (simp add: read_one_def)
    then show ?thesis using F(1,2,7) False by auto
  next
    case True
    let ?c1 = "c1\<lparr>kc_io := kc_io c1 + 1\<rparr>" let ?c2 = "?c1\<lparr>kc_read := kc_read c1 + 1\<rparr>" let ?c3 = "fill_block p bs ?c2"
    have dk: "kc_disk c1 f (d + i) = Some (bs ! i)" if "i < ?B" for i using F(7) True pr that by (simp add: in_block_def)
    then have "my_pread io f ?B d c1 = (?c1, Some bs)" using io pr pread_iff [of "kc_disk c1"] by (simp add: my_pread_def)
    moreover have "take ?B (sl_buffer (kc_block ?c3 p)) = bs" using pr by (simp add: fill_block_def)
    ultimately have r: "read_one io f d ?B c = Some (?c3, Some bs)" using c1(1) True by (simp add: read_one_def)
    have ok2: "cache_ok {p} ?c2" using F(1) True by simp
    have i2: "in_memory ?c2 p" using F(3) by (simp add: in_memory_def)
    have l: "length bs = kc_block_size ?c2" using pr B1 by simp
    have co: "\<forall>i < kc_block_size ?c2. kc_disk ?c2 (sl_file (kc_block ?c2 p)) (sl_diskpos (kc_block ?c2 p) + i) = Some (bs ! i)"
      using dk F(4,5) B1 by simp
    note fb = fill_block_ok [OF ok2 subset_refl i2 l disjI2 [OF co]]
    have "kc_view ?c3 g x = kc_view c g x" if g: "g \<noteq> - 1" for g x
    proof (cases "g = f \<and> in_block ?B d x")
      case True
      then have x: "d + (x - d) = x" "x - d < ?B" by (auto simp: in_block_def)
      then have "kc_view c f x = Some (bs ! (x - d))" using pr by metis
      moreover have "kc_view ?c3 g x = Some (bs ! (x - d))" using fb(4) [OF g, of x] True F(4,5) B1 by simp
      ultimately show ?thesis using True by simp
    next
      case False
      then have "kc_view ?c3 g x = kc_view ?c2 g x" using fb(4) [OF g, of x] F(4,5) B1 by auto
      then show ?thesis using F(6) [OF g False] by simp
    qed
    moreover have "same_fixed c ?c3" using F(2) fb(2) by (simp add: same_fixed_def)
    ultimately show ?thesis using r fb(1) by blast
  qed
qed

text \<open>What all operations that do not write to the files keep.\<close>

definition same_view :: "key_cache \<Rightarrow> key_cache \<Rightarrow> bool" where
  "same_view c c' \<longleftrightarrow> same_fixed c c' \<and> (\<forall>g x. g \<noteq> - 1 \<longrightarrow> kc_view c' g x = kc_view c g x)"

lemma same_view_trans: "same_view a b \<Longrightarrow> same_view b c \<Longrightarrow> same_view a c"
  unfolding same_view_def using same_fixed_trans by metis

lemma pread_view: "same_view c c' \<Longrightarrow> f \<noteq> - 1 \<Longrightarrow> pread (kc_view c') f d n = pread (kc_view c) f d n"
  by (simp add: same_view_def pread_def)

lemma pread_append:
  assumes "pread dk f d (m + n) = Some bs"
  shows "pread dk f d m = Some (take m bs)" "pread dk f (d + m) n = Some (drop m bs)"
  using assms by (auto simp: pread_iff nth_append add.assoc)

lemma read_loop_correct:
  assumes "cache_ok {} c" "\<forall>n. io n" "f \<noteq> - 1" "kc_block_size c dvd d" "pread (kc_view c) f d (Suc k * kc_block_size c) = Some bs"
  shows "\<exists>c'. read_loop io f d (Suc k * kc_block_size c) acc c = Some (c', Some (acc @ bs)) \<and> cache_ok {} c' \<and> same_view c c'"
  using assms
proof (induction k arbitrary: d bs acc c)
  case (0 d bs acc c)
  have "pread (kc_view c) f d (kc_block_size c) = Some bs" using 0(5) by simp
  from read_one_correct [OF 0(1-4) this] show ?case by (subst read_loop.simps) (auto simp: same_view_def)
next
  case (Suc k d bs acc c)
  let ?B = "kc_block_size c"
  have n: "Suc (Suc k) * ?B = ?B + Suc k * ?B" "?B < Suc (Suc k) * ?B" using cache_okD(2) [OF Suc.prems(1)] by (simp_all add: numbers_ok_def)
  note P = pread_append [OF Suc.prems(5) [unfolded n(1)]]
  obtain c1 where c1: "read_one io f d ?B c = Some (c1, Some (take ?B bs))" "cache_ok {} c1" "same_view c c1"
    using read_one_correct [OF Suc.prems(1-4) P(1)] by (auto simp: same_view_def)
  have B1: "kc_block_size c1 = ?B" using c1(3) by (simp add: same_view_def same_fixed_def)
  have "kc_block_size c1 dvd d + ?B" using Suc.prems(4) B1 by simp
  moreover have "pread (kc_view c1) f (d + ?B) (Suc k * kc_block_size c1) = Some (drop ?B bs)"
    using P(2) pread_view [OF c1(3) Suc.prems(3)] B1 by simp
  ultimately obtain c2 where c2: "read_loop io f (d + ?B) (Suc k * ?B) (acc @ take ?B bs) c1 = Some (c2, Some ((acc @ take ?B bs) @ drop ?B bs))"
    "cache_ok {} c2" "same_view c1 c2"
    using Suc.IH [OF c1(2) Suc.prems(2,3)] B1 by metis
  have "read_loop io f d (Suc (Suc k) * ?B) acc c = read_loop io f (d + ?B) (Suc k * ?B) (acc @ take ?B bs) c1"
    using c1(1) n cache_okD(2) [OF Suc.prems(1)] by (subst read_loop.simps) (simp add: Let_def numbers_ok_def)
  then show ?case using c2 same_view_trans [OF c1(3)] by simp
qed

definition cache_wf :: "key_cache \<Rightarrow> bool" where
  "cache_wf c \<longleftrightarrow> cache_ok {} c \<and> \<not> kc_locked c"

lemma key_cache_read_correct:
  assumes wf: "cache_wf c" and io: "\<forall>n. io n" and f: "f \<noteq> - 1" and d: "kc_block_size c dvd d" and n: "kc_block_size c dvd n" "n \<noteq> 0"
    and bs: "pread (kc_view c) f d n = Some bs"
  shows "\<exists>c'. key_cache_read io f d n c = Some (c', Some bs) \<and> cache_wf c' \<and> same_view c c'"
proof -
  let ?c = "c\<lparr>kc_locked := True\<rparr>"
  obtain m where m: "n = m * kc_block_size c" using n(1) by (metis dvd_div_mult_self)
  then have "m \<noteq> 0" using n(2) by (cases m) auto
  then obtain k where k: "n = Suc k * kc_block_size c" using m not0_implies_Suc by blast
  have ok: "cache_ok {} ?c" using wf by (simp add: cache_wf_def)
  obtain c1 where c1: "read_loop io f d n [] ?c = Some (c1, Some bs)" "cache_ok {} c1" "same_view ?c c1"
    using read_loop_correct [OF ok io f, of d k bs "[]"] d bs k by auto
  have l: "kc_locked c1" using c1(3) by (simp add: same_view_def same_fixed_def)
  have "key_cache_read io f d n c = Some (unlock_cache c1, Some bs)"
    using c1(1) wf cache_okD(2) [OF ok] by (simp add: key_cache_read_def lock_cache_def cache_wf_def numbers_ok_def)
  moreover have "cache_wf (unlock_cache c1)" using c1(2) by (simp add: cache_wf_def unlock_cache_def)
  moreover have "same_view c (unlock_cache c1)" using c1(3) wf by (simp add: same_view_def same_fixed_def unlock_cache_def cache_wf_def)
  ultimately show ?thesis by blast
qed

subsection \<open>Marking a block\<close>

lemma mark_ok:
  assumes ok: "cache_ok X c" and X: "X \<subseteq> {p}" and p: "in_memory c p" and b: "b \<longleftrightarrow> \<not> sl_changed (kc_block c p)"
    and e: "kc_block c' = (kc_block c)(p := (kc_block c p)\<lparr>sl_changed := b\<rparr>)" "kc_hash c' = kc_hash c" "kc_used c' = kc_used c"
      "kc_blocks_used c' = kc_blocks_used c" "kc_disk_blocks_used c' = kc_disk_blocks_used c" "kc_disk c' = kc_disk c" "same_fixed c c'"
    and l: "kc_changed c' = (if b then move p (chain_of (sl_file (kc_block c p))) (kc_changed c) else (\<lambda>i. remove1 p (kc_changed c i)))"
      "kc_files c' = (if b then (\<lambda>i. remove1 p (kc_files c i)) else move p (chain_of (sl_file (kc_block c p))) (kc_files c))"
      "kc_blocks_changed c' = (if b then kc_blocks_changed c + 1 else kc_blocks_changed c - 1)"
  shows "cache_ok (if b then {} else {p}) c'" "kc_view c' = kc_view c" "in_memory c' = in_memory c"
proof -
  note D = cache_okD [OF ok] and B = blocks_okD [OF cache_okD(3) [OF ok]] and F = same_fixedD [OF e(7)]
  have f: "sl_file (kc_block c' q) = sl_file (kc_block c q)" "sl_diskpos (kc_block c' q) = sl_diskpos (kc_block c q)"
    "sl_buffer (kc_block c' q) = sl_buffer (kc_block c q)" "sl_changed (kc_block c' q) = (if q = p then b else sl_changed (kc_block c q))" for q
    by (simp_all add: e(1))
  show i: "in_memory c' = in_memory c" by (simp add: fun_eq_iff in_memory_def f e(4))
  have ix: "ix_hash c' = ix_hash c" "ix_changed c' = (ix_changed c)(p := if b then Some (chain_of (sl_file (kc_block c p))) else None)"
    "ix_files c' = (ix_files c)(p := if b then None else Some (chain_of (sl_file (kc_block c p))))"
    using p by (auto simp: fun_eq_iff ix_hash_def ix_changed_def ix_files_def i F(4) f)
  have dirty: "{q. dirty c' q} = (if b then insert p {q. dirty c q} else {q. dirty c q} - {p})" using p by (auto simp: dirty_def i f)
  have pd: "dirty c p \<longleftrightarrow> \<not> b" using p b by (simp add: dirty_def)
  have "kc_blocks_changed c' = card {q. dirty c' q}" using D(9) l(3) pd unfolding dirty by (simp add: card_Diff_singleton_if)
  then have "lists_ok c'" unfolding lists_ok_def dirty_def [symmetric] ix l(1,2) e(2-4) move_def
    using D(4) family_move [OF D(5)] family_remove [OF D(5)] family_move [OF D(6)] family_remove [OF D(6)] D(7,8) by simp
  moreover have "numbers_ok c'" using D(2) e by (simp add: numbers_ok_def same_fixed_def)
  moreover have "blocks_ok (if b then {} else {p}) c'" unfolding blocks_ok_def i f e(4-6) F
  proof (intro conjI allI impI)
    show "length (sl_buffer (kc_block c q)) = kc_block_size c" for q by (rule D(10))
    show "\<not> (if q = p then b else sl_changed (kc_block c q))" if "q < kc_blocks_used c" "sl_file (kc_block c q) = - 1" for q
      using B(1) [OF that] that p by (auto simp: in_memory_def)
    fix q j assume q: "in_memory c q" "\<not> (if q = p then b else sl_changed (kc_block c q))" "q \<notin> (if b then {} else {p})" "j < kc_block_size c"
    then have "q \<noteq> p" by (auto split: if_splits)
    then show "kc_disk c (sl_file (kc_block c q)) (sl_diskpos (kc_block c q) + j) = Some (sl_buffer (kc_block c q) ! j)"
      using B(4) [OF q(1) _ _ q(4)] q(2) X by auto
  qed (use B in blast)+
  ultimately show "cache_ok (if b then {} else {p}) c'" by (simp add: cache_ok_def)
  have s: "search_hash c' = search_hash c" by (simp add: fun_eq_iff search_hash_def F(4) f e(2))
  show "kc_view c' = kc_view c" unfolding kc_view_def fun_eq_iff s F e(6) by (simp add: f split: option.split)
qed

lemma mark_clean:
  assumes "cache_ok X c" "X \<subseteq> {p}" "in_memory c p" "sl_changed (kc_block c p)"
  defines "c' \<equiv> link_changed_to_file p (sl_file (kc_block c p)) c"
  shows "cache_ok {p} c'" "kc_view c' = kc_view c" "in_memory c' p" "kc_disk c' = kc_disk c" "same_fixed c c'"
    "kc_block c' p = (kc_block c p)\<lparr>sl_changed := False\<rparr>"
proof -
  have e: "kc_block c' = (kc_block c)(p := (kc_block c p)\<lparr>sl_changed := False\<rparr>)" "kc_hash c' = kc_hash c" "kc_used c' = kc_used c"
    "kc_blocks_used c' = kc_blocks_used c" "kc_disk_blocks_used c' = kc_disk_blocks_used c" "kc_disk c' = kc_disk c" "same_fixed c c'"
    "kc_changed c' = (\<lambda>i. remove1 p (kc_changed c i))" "kc_files c' = move p (chain_of (sl_file (kc_block c p))) (kc_files c)"
    "kc_blocks_changed c' = kc_blocks_changed c - 1"
    by (simp_all add: c'_def link_changed_to_file_def link_into_file_blocks_def unlink_block_def Let_def move_def same_fixed_def)
  note M = mark_ok [OF assms(1-3), where b = False and c' = c', OF _ e(1-7)]
  show "cache_ok {p} c'" "kc_view c' = kc_view c" using M(1,2) assms(4) e by simp_all
  show "in_memory c' p" using M(3) assms(3,4) e by simp
  show "kc_disk c' = kc_disk c" "same_fixed c c'" by (rule e)+
  show "kc_block c' p = (kc_block c p)\<lparr>sl_changed := False\<rparr>" by (simp add: e)
qed

lemma mark_dirty:
  assumes "cache_ok X c" "X \<subseteq> {p}" "in_memory c p" "\<not> sl_changed (kc_block c p)"
  defines "c' \<equiv> link_file_to_changed p c"
  shows "cache_ok {} c'" "kc_view c' = kc_view c" "in_memory c' p" "kc_disk c' = kc_disk c" "same_fixed c c'"
    "kc_block c' p = (kc_block c p)\<lparr>sl_changed := True\<rparr>"
proof -
  have e: "kc_block c' = (kc_block c)(p := (kc_block c p)\<lparr>sl_changed := True\<rparr>)" "kc_hash c' = kc_hash c" "kc_used c' = kc_used c"
    "kc_blocks_used c' = kc_blocks_used c" "kc_disk_blocks_used c' = kc_disk_blocks_used c" "kc_disk c' = kc_disk c" "same_fixed c c'"
    "kc_changed c' = move p (chain_of (sl_file (kc_block c p))) (kc_changed c)" "kc_files c' = (\<lambda>i. remove1 p (kc_files c i))"
    "kc_blocks_changed c' = kc_blocks_changed c + 1"
    by (simp_all add: c'_def link_file_to_changed_def unlink_block_def Let_def move_def same_fixed_def)
  note M = mark_ok [OF assms(1-3), where b = True and c' = c', OF _ e(1-7)]
  show "cache_ok {} c'" "kc_view c' = kc_view c" using M(1,2) assms(4) e by simp_all
  show "in_memory c' p" using M(3) assms(3,4) e by simp
  show "kc_disk c' = kc_disk c" "same_fixed c c'" by (rule e)+
  show "kc_block c' p = (kc_block c p)\<lparr>sl_changed := True\<rparr>" by (simp add: e)
qed

subsection \<open>Writing\<close>

lemma write_one_correct:
  assumes ok: "cache_ok {} c" and io: "\<forall>n. io n" and f: "f \<noteq> - 1" and d: "kc_block_size c dvd d" and len: "length bs = kc_block_size c"
  shows "\<exists>c'. write_one io f d bs True c = Some (c', False) \<and> cache_ok {} c' \<and> same_fixed c c' \<and>
    (\<forall>g x. g \<noteq> - 1 \<longrightarrow> kc_view c' g x = pwrite (kc_view c) f d bs g x)"
proof -
  let ?B = "kc_block_size c"
  obtain c1 p new where c1: "find_key_block io f d c = Some (c1, Some p, new)" "found c f d c1 p new"
    using find_key_block_correct [OF ok io f d] by blast
  have F: "cache_ok (if new then {p} else {}) c1" "same_fixed c c1" "in_memory c1 p" "sl_file (kc_block c1 p) = f" "sl_diskpos (kc_block c1 p) = d"
    "\<And>g x. g \<noteq> - 1 \<Longrightarrow> \<not> (g = f \<and> in_block ?B d x) \<Longrightarrow> kc_view c1 g x = kc_view c g x"
    using c1(2) unfolding found_def by simp_all
  define X where "X = (if new then {p} else {})"
  have X: "X \<subseteq> {p}" by (simp add: X_def)
  define c2 where "c2 = (if \<not> sl_changed (kc_block c1 p) then link_file_to_changed p c1 else c1)"
  have c2: "cache_ok X c2" "kc_view c2 = kc_view c1" "in_memory c2 p" "same_fixed c1 c2" "sl_changed (kc_block c2 p)"
    "sl_file (kc_block c2 p) = f" "sl_diskpos (kc_block c2 p) = d"
  proof (goal_cases)
    case 1
    have "cache_ok {} c' \<Longrightarrow> cache_ok X c'" for c' unfolding cache_ok_def blocks_ok_def by blast
    then show ?case using mark_dirty(1) [OF F(1) [folded X_def] X F(3)] F(1) [folded X_def] by (simp add: c2_def)
  qed (use mark_dirty(2-) [OF F(1) [folded X_def] X F(3)] F in \<open>simp_all add: c2_def\<close>)
  have B2: "kc_block_size c2 = ?B" using same_fixedD(1) [OF F(2)] same_fixedD(1) [OF c2(4)] by simp
  have l: "length bs = kc_block_size c2" using len B2 by simp
  note fb = fill_block_ok [OF c2(1) X c2(3) l disjI1 [OF c2(5)]]
  have "write_one io f d bs True c = Some (fill_block p bs c2, False)" using c1(1) by (simp add: write_one_def c2_def Let_def)
  moreover have "kc_view (fill_block p bs c2) g x = pwrite (kc_view c) f d bs g x" if g: "g \<noteq> - 1" for g x
    using fb(4) [OF g, of x] F(6) [OF g, of x] c2 B2 len by (auto simp: pwrite_simp)
  moreover have "same_fixed c (fill_block p bs c2)" using fb(2) c2(4) F(2) same_fixed_trans by blast
  ultimately show ?thesis using fb(1) by blast
qed

lemma pwrite_split:
  assumes "length bs = m + n"
  shows "pwrite (pwrite v f d (take m bs)) f (d + m) (drop m bs) g x = pwrite v f d bs g x"
  using assms by (auto simp: pwrite_def)

lemma pwrite_cong: "(\<And>g x. g \<noteq> - 1 \<Longrightarrow> v g x = w g x) \<Longrightarrow> g \<noteq> - 1 \<Longrightarrow> pwrite v f d bs g x = pwrite w f d bs g x"
  by (simp add: pwrite_simp)

lemma write_loop_correct:
  assumes "cache_ok {} c" "\<forall>n. io n" "f \<noteq> - 1" "kc_block_size c dvd d" "length bs = Suc k * kc_block_size c"
  shows "\<exists>c'. write_loop io f d bs True c = Some (c', False) \<and> cache_ok {} c' \<and> same_fixed c c' \<and>
    (\<forall>g x. g \<noteq> - 1 \<longrightarrow> kc_view c' g x = pwrite (kc_view c) f d bs g x)"
  using assms
proof (induction k arbitrary: d bs c)
  case (0 d bs c)
  have "length bs = kc_block_size c" using 0(5) by simp
  from write_one_correct [OF 0(1-4) this] this show ?case by (subst write_loop.simps) auto
next
  case (Suc k d bs c)
  let ?B = "kc_block_size c"
  have b0: "0 < ?B" using cache_okD(2) [OF Suc.prems(1)] by (simp add: numbers_ok_def)
  have n: "length bs = ?B + Suc k * ?B" "?B < length bs" using Suc.prems(5) b0 by simp_all
  have "length (take ?B bs) = ?B" using n by simp
  from write_one_correct [OF Suc.prems(1-4) this] obtain c1 where c1: "write_one io f d (take ?B bs) True c = Some (c1, False)"
    "cache_ok {} c1" "same_fixed c c1" "\<And>g x. g \<noteq> - 1 \<Longrightarrow> kc_view c1 g x = pwrite (kc_view c) f d (take ?B bs) g x" by blast
  have B1: "kc_block_size c1 = ?B" by (rule same_fixedD(1) [OF c1(3)])
  have "kc_block_size c1 dvd d + ?B" "length (drop ?B bs) = Suc k * kc_block_size c1" using Suc.prems(4) n B1 by simp_all
  from Suc.IH [OF c1(2) Suc.prems(2,3) this] obtain c2 where c2: "write_loop io f (d + ?B) (drop ?B bs) True c1 = Some (c2, False)"
    "cache_ok {} c2" "same_fixed c1 c2" "\<And>g x. g \<noteq> - 1 \<Longrightarrow> kc_view c2 g x = pwrite (kc_view c1) f (d + ?B) (drop ?B bs) g x" by blast
  have "kc_view c2 g x = pwrite (kc_view c) f d bs g x" if g: "g \<noteq> - 1" for g x
    using c2(4) [OF g, of x] pwrite_cong [of "kc_view c1" "pwrite (kc_view c) f d (take ?B bs)", OF c1(4) g] pwrite_split [OF n(1)] by simp
  moreover have "write_loop io f d bs True c = Some (c2, False)"
    using c1(1) c2(1) n by (subst write_loop.simps) (simp add: Let_def)
  ultimately show ?case using c2(2) same_fixed_trans [OF c1(3) c2(3)] by blast
qed

text \<open>Writing to the file first leaves at most the block of the position with other bytes.\<close>

lemma disk_written:
  assumes ok: "cache_ok Y c" and Y: "Y \<subseteq> X" and d: "kc_block_size c dvd d" and len: "length bs = kc_block_size c"
    and X: "\<And>p. in_memory c p \<Longrightarrow> sl_file (kc_block c p) = f \<Longrightarrow> sl_diskpos (kc_block c p) = d \<Longrightarrow> p \<in> X"
  defines "c' \<equiv> c\<lparr>kc_disk := pwrite (kc_disk c) f d bs\<rparr>"
  shows "cache_ok X c'" "search_hash c' = search_hash c" "in_memory c' = in_memory c"
    "\<not> (g = f \<and> in_block (kc_block_size c) d x) \<Longrightarrow> kc_view c' g x = kc_view c g x"
proof -
  note D = cache_okD [OF ok] and B = blocks_okD [OF cache_okD(3) [OF ok]]
  have h: "hash_chain c' = hash_chain c" by (simp add: fun_eq_iff hash_chain_def c'_def)
  show i: "in_memory c' = in_memory c" by (simp add: fun_eq_iff in_memory_def c'_def)
  have ix: "ix_hash c' = ix_hash c" "ix_changed c' = ix_changed c" "ix_files c' = ix_files c"
    by (auto simp: fun_eq_iff ix_hash_def ix_changed_def ix_files_def i h) (simp_all add: c'_def)
  have "lists_ok c'" using D(1) unfolding lists_ok_def ix i by (simp add: c'_def)
  moreover have "numbers_ok c'" using D(2) by (simp add: numbers_ok_def c'_def)
  moreover have "blocks_ok X c'" unfolding blocks_ok_def i
  proof (intro conjI allI impI)
    show "length (sl_buffer (kc_block c' q)) = kc_block_size c'" for q using D(10) by (simp add: c'_def)
    show "\<not> sl_changed (kc_block c' q)" if "q < kc_blocks_used c'" "sl_file (kc_block c' q) = - 1" for q
      using B(1) that by (simp add: c'_def)
    show "kc_block_size c' dvd sl_diskpos (kc_block c' q)" if "in_memory c q" for q using B(2) that by (simp add: c'_def)
    show "q = r" if "in_memory c q" "in_memory c r" "sl_file (kc_block c' q) = sl_file (kc_block c' r)" "sl_diskpos (kc_block c' q) = sl_diskpos (kc_block c' r)" for q r
      using B(3) that by (simp add: c'_def)
    fix q j assume q: "in_memory c q" "\<not> sl_changed (kc_block c' q)" "q \<notin> X" "j < kc_block_size c'"
    have j: "j < kc_block_size c" using q(4) by (simp add: c'_def)
    have "\<not> (sl_file (kc_block c q) = f \<and> in_block (kc_block_size c) d (sl_diskpos (kc_block c q) + j))"
    proof
      assume a: "sl_file (kc_block c q) = f \<and> in_block (kc_block_size c) d (sl_diskpos (kc_block c q) + j)"
      have "in_block (kc_block_size c) (sl_diskpos (kc_block c q)) (sl_diskpos (kc_block c q) + j)" using j by (simp add: in_block_def)
      then have "sl_diskpos (kc_block c q) = d" using block_apart [OF D(3,2) q(1) d] a by blast
      then show False using X q(1,3) a by blast
    qed
    then show "kc_disk c' (sl_file (kc_block c' q)) (sl_diskpos (kc_block c' q) + j) = Some (sl_buffer (kc_block c' q) ! j)"
      using B(4) [OF q(1) _ _ j] q(2,3) Y len by (auto simp: c'_def pwrite_simp)
  qed
  ultimately show "cache_ok X c'" by (simp add: cache_ok_def)
  show s: "search_hash c' = search_hash c" by (simp add: fun_eq_iff search_hash_def h) (simp add: c'_def)
  show "kc_view c' g x = kc_view c g x" if "\<not> (g = f \<and> in_block (kc_block_size c) d x)"
    using that len unfolding kc_view_def s by (auto simp: c'_def pwrite_simp split: option.split)
qed

lemma write_through_correct:
  assumes ok: "cache_ok {} c" and io: "\<forall>n. io n" and f: "f \<noteq> - 1" and d: "kc_block_size c dvd d" and len: "length bs = kc_block_size c"
  shows "\<exists>c'. write_one io f d bs False (c\<lparr>kc_disk := pwrite (kc_disk c) f d bs\<rparr>) = Some (c', False) \<and> cache_ok {} c' \<and> same_fixed c c' \<and>
    (\<forall>g x. g \<noteq> - 1 \<longrightarrow> kc_view c' g x = pwrite (kc_view c) f d bs g x) \<and>
    (\<forall>i < length bs. kc_disk c' f (d + i) = Some (bs ! i))"
proof -
  let ?B = "kc_block_size c" and ?c = "c\<lparr>kc_disk := pwrite (kc_disk c) f d bs\<rparr>"
  note D = cache_okD [OF ok] and W = disk_written [OF ok empty_subsetI d len]
  have dk: "kc_disk ?c f x = Some (bs ! (x - d))" if "in_block ?B d x" for x using that len by (simp add: pwrite_simp)
  have fin: ?thesis
    if r: "write_one io f d bs False ?c = Some (fill_block p bs c2, False)" and c2: "cache_ok {p} c2" "in_memory c2 p" "same_fixed ?c c2"
      "sl_file (kc_block c2 p) = f" "sl_diskpos (kc_block c2 p) = d" "\<And>g x. g \<noteq> - 1 \<Longrightarrow> \<not> (g = f \<and> in_block ?B d x) \<Longrightarrow> kc_view c2 g x = kc_view c g x"
      "\<And>x. in_block ?B d x \<Longrightarrow> kc_disk c2 f x = Some (bs ! (x - d))" for c2 p
  proof -
    have B2: "kc_block_size c2 = ?B" using same_fixedD(1) [OF c2(3)] by simp
    have co: "\<forall>i < kc_block_size c2. kc_disk c2 (sl_file (kc_block c2 p)) (sl_diskpos (kc_block c2 p) + i) = Some (bs ! i)"
      using c2(7) B2 c2(4,5) by (simp add: in_block_def)
    have l: "length bs = kc_block_size c2" using len B2 by simp
    note fb = fill_block_ok [OF c2(1) subset_refl c2(2) l disjI2 [OF co]]
    have "kc_view (fill_block p bs c2) g x = pwrite (kc_view c) f d bs g x" if g: "g \<noteq> - 1" for g x
      using fb(4) [OF g, of x] c2(6) [OF g, of x] c2(4,5) B2 len by (auto simp: pwrite_simp)
    moreover have "kc_disk (fill_block p bs c2) f (d + i) = Some (bs ! i)" if "i < length bs" for i
      using co that l c2(4,5) fb(3) by simp
    moreover have "same_fixed c (fill_block p bs c2)" using fb(2) c2(3) by (simp add: same_fixed_def)
    ultimately show ?thesis using r fb(1) by blast
  qed
  show ?thesis
  proof (cases "search_hash c f d")
    case None
    then have "\<not> (in_memory c p \<and> sl_file (kc_block c p) = f \<and> sl_diskpos (kc_block c p) = d)" for p
      using search_hash_None_iff [OF D(1,3) f] by blast
    then have ok1: "cache_ok {} ?c" using W(1) [of f "{}"] by blast
    have d1: "kc_block_size ?c dvd d" using d by simp
    have none: "search_hash ?c f d = None" using W(2) [of f UNIV] None by simp
    obtain c2 p where c2: "find_key_block io f d ?c = Some (c2, Some p, True)" "taken ?c f d p c2"
      using find_key_block_new [OF ok1 io none] by blast
    have "found ?c f d c2 p True"
    proof -
      obtain c3 q new where "find_key_block io f d ?c = Some (c3, Some q, new)" "found ?c f d c3 q new"
        using find_key_block_correct [OF ok1 io f d1] by blast
      with c2(1) show ?thesis by simp
    qed
    then have F: "cache_ok {p} c2" "same_fixed ?c c2" "in_memory c2 p" "sl_file (kc_block c2 p) = f" "sl_diskpos (kc_block c2 p) = d"
      "\<And>g x. g \<noteq> - 1 \<Longrightarrow> \<not> (g = f \<and> in_block ?B d x) \<Longrightarrow> kc_view c2 g x = kc_view ?c g x" "\<not> sl_changed (kc_block c2 p)"
      "\<And>x. in_block ?B d x \<Longrightarrow> kc_disk c2 f x = kc_view ?c f x"
      unfolding found_def by simp_all
    have v: "kc_view ?c f x = kc_disk ?c f x" if "in_block ?B d x" for x
    proof (rule view_disk [OF cache_okD(1,3) [OF ok1] f])
      have "0 < ?B" using D(2) by (simp add: numbers_ok_def)
      then have e: "x - x mod kc_block_size ?c = d" using in_block_iff [OF _ d] that by simp
      fix q assume "in_memory ?c q" "sl_file (kc_block ?c q) = f"
      then show "sl_diskpos (kc_block ?c q) \<noteq> x - x mod kc_block_size ?c" unfolding e
        using search_hash_None_iff [OF cache_okD(1,3) [OF ok1] f, of d] none by blast
    qed
    show ?thesis
    proof (rule fin)
      show "write_one io f d bs False ?c = Some (fill_block p bs c2, False)" using c2(1) F(7) by (simp add: write_one_def Let_def)
      show "kc_view c2 g x = kc_view c g x" if "g \<noteq> - 1" "\<not> (g = f \<and> in_block ?B d x)" for g x
        using F(6) [OF that] W(4) [of f UNIV g x] that(2) by simp
      show "kc_disk c2 f x = Some (bs ! (x - d))" if "in_block ?B d x" for x using F(8) v dk that by simp
    qed (rule F)+
  next
    case (Some p)
    have p: "in_memory c p" "sl_file (kc_block c p) = f" "sl_diskpos (kc_block c p) = d" using search_hash_iff [OF D(1,3) f] Some by blast+
    have ok1: "cache_ok {p} ?c" using W(1) [of f "{p}"] blocks_okD(3) [OF D(3)] p by blast
    have s: "search_hash ?c f d = Some p" using W(2) [of f UNIV] Some by simp
    obtain c1 where c1: "find_key_block io f d ?c = Some (c1, Some p, False)" "same_cache ?c c1" "same_fixed ?c c1"
      using find_key_block_hit [OF ok1 s f] by blast
    note S = same_cacheD [OF c1(2)]
    have e: "kc_block c1 = kc_block c" "kc_disk c1 = kc_disk ?c" using c1(2) by (simp_all add: same_cache_def)
    have ok2: "cache_ok {p} c1" using S(2) ok1 by blast
    have i1: "in_memory c1 p" using S(1) W(3) [of f UNIV] p(1) by simp
    have v1: "kc_view c1 g x = kc_view c g x" if "\<not> (g = f \<and> in_block ?B d x)" for g x using S(3) W(4) [of f UNIV g x] that by simp
    define c2 where "c2 = (if sl_changed (kc_block c1 p) then link_changed_to_file p (sl_file (kc_block c1 p)) c1 else c1)"
    note M = mark_clean [OF ok2 subset_refl i1]
    show ?thesis
    proof (rule fin)
      show "write_one io f d bs False ?c = Some (fill_block p bs c2, False)" using c1(1) by (simp add: write_one_def Let_def c2_def)
      show "cache_ok {p} c2" "in_memory c2 p" using M(1,3) ok2 i1 by (simp_all add: c2_def)
      show "same_fixed ?c c2" using M(5) c1(3) same_fixed_trans by (auto simp: c2_def)
      show "sl_file (kc_block c2 p) = f" "sl_diskpos (kc_block c2 p) = d" using M(6) p e by (simp_all add: c2_def)
      show "kc_view c2 g x = kc_view c g x" if "\<not> (g = f \<and> in_block ?B d x)" for g x using M(2) v1 [OF that] by (simp add: c2_def)
      show "kc_disk c2 f x = Some (bs ! (x - d))" if "in_block ?B d x" for x using M(4) dk [OF that] e by (simp add: c2_def)
    qed
  qed
qed

lemma key_cache_write_correct:
  assumes wf: "cache_wf c" and io: "\<forall>n. io n" and f: "f \<noteq> - 1" and d: "kc_block_size c dvd d"
    and len: "kc_block_size c dvd length bs" "bs \<noteq> []" "dont_write \<or> length bs = kc_block_size c"
  shows "\<exists>c'. key_cache_write io f d bs dont_write c = Some (c', False) \<and> cache_wf c' \<and> same_fixed c c' \<and>
    (\<forall>g x. g \<noteq> - 1 \<longrightarrow> kc_view c' g x = pwrite (kc_view c) f d bs g x) \<and>
    (\<not> dont_write \<longrightarrow> (\<forall>i < length bs. kc_disk c' f (d + i) = Some (bs ! i)))"
proof -
  have N: "0 < kc_disk_blocks c" "\<not> kc_locked c" using wf by (simp_all add: cache_wf_def cache_ok_def numbers_ok_def)
  show ?thesis
  proof (cases dont_write)
    case True
    let ?c = "c\<lparr>kc_locked := True, kc_w_requests := kc_w_requests c + 1\<rparr>"
    obtain m where m: "length bs = m * kc_block_size c" using len(1) by (metis dvd_div_mult_self)
    then have "m \<noteq> 0" using len(2) by (cases m) auto
    then obtain k where k: "length bs = Suc k * kc_block_size c" using m not0_implies_Suc by blast
    have ok: "cache_ok {} ?c" using wf by (simp add: cache_wf_def)
    obtain c1 where c1: "write_loop io f d bs True ?c = Some (c1, False)" "cache_ok {} c1" "same_fixed ?c c1"
      "\<And>g x. g \<noteq> - 1 \<Longrightarrow> kc_view c1 g x = pwrite (kc_view c) f d bs g x"
      using write_loop_correct [OF ok io f, of d bs k] d k by auto
    have "key_cache_write io f d bs dont_write c = Some (unlock_cache c1, False)"
      using c1(1) N True by (simp add: key_cache_write_def lock_cache_def)
    moreover have "cache_wf (unlock_cache c1)" using c1(2) by (simp add: cache_wf_def unlock_cache_def)
    moreover have "same_fixed c (unlock_cache c1)" using c1(3) N by (simp add: same_fixed_def unlock_cache_def)
    moreover have "kc_view (unlock_cache c1) = kc_view c1" by (simp add: unlock_cache_def)
    ultimately show ?thesis using c1(4) True by metis
  next
    case False
    then have l: "length bs = kc_block_size c" using len(3) by simp
    let ?c = "c\<lparr>kc_write := kc_write c + 1, kc_io := kc_io c + 1, kc_locked := True, kc_w_requests := kc_w_requests c + 1\<rparr>"
    have ok: "cache_ok {} ?c" using wf by (simp add: cache_wf_def)
    have l2: "length bs = kc_block_size ?c" "kc_block_size ?c dvd d" using l d by simp_all
    have v: "kc_view ?c = kc_view c" by simp
    obtain c1 where c1: "write_one io f d bs False (?c\<lparr>kc_disk := pwrite (kc_disk ?c) f d bs\<rparr>) = Some (c1, False)" "cache_ok {} c1" "same_fixed ?c c1"
      "\<And>g x. g \<noteq> - 1 \<Longrightarrow> kc_view c1 g x = pwrite (kc_view c) f d bs g x" "\<forall>i < length bs. kc_disk c1 f (d + i) = Some (bs ! i)"
      using write_through_correct [OF ok io f l2(2,1)] unfolding v by blast
    let ?c2 = "c\<lparr>kc_write := kc_write c + 1, kc_io := kc_io c + 1, kc_disk := pwrite (kc_disk c) f d bs, kc_locked := True, kc_w_requests := kc_w_requests c + 1\<rparr>"
    have "?c\<lparr>kc_disk := pwrite (kc_disk ?c) f d bs\<rparr> = ?c2" by (cases c) simp
    then have "write_one io f d bs False ?c2 = Some (c1, False)" using c1(1) by (simp only:)
    then have "write_loop io f d bs False ?c2 = Some (c1, False)" using l by (subst write_loop.simps) simp
    then have "key_cache_write io f d bs dont_write c = Some (unlock_cache c1, False)"
      using N io False by (simp add: key_cache_write_def lock_cache_def my_pwrite_def)
    moreover have "cache_wf (unlock_cache c1)" using c1(2) by (simp add: cache_wf_def unlock_cache_def)
    moreover have "same_fixed c (unlock_cache c1)" using c1(3) N by (simp add: same_fixed_def unlock_cache_def)
    moreover have "kc_view (unlock_cache c1) = kc_view c1" "kc_disk (unlock_cache c1) = kc_disk c1" by (simp_all add: unlock_cache_def)
    ultimately show ?thesis using c1(4,5) by metis
  qed
qed

subsection \<open>Freeing a block\<close>

lemma free_block_ok:
  assumes ok: "cache_ok {} c" and p: "in_memory c p"
  defines "c' \<equiv> free_block p (c\<lparr>kc_blocks_changed := kc_blocks_changed c - (if sl_changed (kc_block c p) then 1 else 0)\<rparr>)"
  shows "cache_ok {} c'" "in_memory c' q \<longleftrightarrow> in_memory c q \<and> q \<noteq> p" "q \<noteq> p \<Longrightarrow> kc_block c' q = kc_block c q" "kc_disk c' = kc_disk c" "same_fixed c c'"
    "g \<noteq> - 1 \<Longrightarrow> kc_view c' g x = (if g = sl_file (kc_block c p) \<and> in_block (kc_block_size c) (sl_diskpos (kc_block c p)) x
       then kc_disk c g x else kc_view c g x)"
proof -
  note D = cache_okD [OF ok] and B = blocks_okD [OF cache_okD(3) [OF ok]]
  have b: "kc_block c' = (kc_block c)(p := (kc_block c p)\<lparr>sl_file := - 1, sl_changed := False\<rparr>)"
    and o: "kc_hash c' = (\<lambda>h. remove1 p (kc_hash c h))" "kc_changed c' = (\<lambda>i. remove1 p (kc_changed c i))"
      "kc_files c' = (\<lambda>i. remove1 p (kc_files c i))" "kc_blocks_used c' = kc_blocks_used c" "kc_disk_blocks_used c' = kc_disk_blocks_used c"
      "kc_disk c' = kc_disk c" "kc_blocks_changed c' = kc_blocks_changed c - (if sl_changed (kc_block c p) then 1 else 0)"
      "kc_used c' = (if kc_used c \<noteq> [] \<and> p = hd (kc_used c) then kc_used c else p # remove1 p (kc_used c))"
    and sf: "same_fixed c c'"
    by (simp_all add: c'_def free_block_def unlink_block_def unlink_hash_def Let_def same_fixed_def)
  note F = same_fixedD [OF sf]
  show bq: "kc_block c' q = kc_block c q" if "q \<noteq> p" for q using that by (simp add: b)
  show i: "in_memory c' q \<longleftrightarrow> in_memory c q \<and> q \<noteq> p" for q by (auto simp: in_memory_def b o)
  show "kc_disk c' = kc_disk c" "same_fixed c c'" by (fact o sf)+
  have ix: "ix_hash c' = (ix_hash c)(p := None)" "ix_changed c' = (ix_changed c)(p := None)" "ix_files c' = (ix_files c)(p := None)"
    by (auto simp: fun_eq_iff ix_hash_def ix_changed_def ix_files_def i F(4) b)
  have pu: "p \<in> set (kc_used c)" using p D(8) by (simp add: in_memory_def)
  then have us: "distinct (kc_used c')" "set (kc_used c') = {..<kc_blocks_used c'}" using D(7,8) by (auto simp: o)
  have "{q. dirty c' q} = {q. dirty c q} - {p}" by (auto simp: dirty_def i b)
  moreover have "dirty c p \<longleftrightarrow> sl_changed (kc_block c p)" using p by (simp add: dirty_def)
  ultimately have "kc_blocks_changed c' = card {q. dirty c' q}" using D(9) by (simp add: o card_Diff_singleton_if)
  then have L: "lists_ok c'" unfolding lists_ok_def dirty_def [symmetric] ix o(1-3)
    using family_remove [OF D(4)] family_remove [OF D(5)] family_remove [OF D(6)] us by simp
  have "numbers_ok c'" using D(2) sf by (simp add: numbers_ok_def same_fixed_def o)
  moreover have BK: "blocks_ok {} c'" unfolding blocks_ok_def i F
  proof (intro conjI allI impI)
    show "length (sl_buffer (kc_block c' q)) = kc_block_size c" for q using D(10) by (simp add: b)
    show "\<not> sl_changed (kc_block c' q)" if "q < kc_blocks_used c'" "sl_file (kc_block c' q) = - 1" for q
      using B(1) [of q] that by (auto simp: b o)
    show "kc_block_size c dvd sl_diskpos (kc_block c' q)" if "in_memory c q \<and> q \<noteq> p" for q using B(2) that by (simp add: b)
    show "q = r" if "in_memory c q \<and> q \<noteq> p" "in_memory c r \<and> r \<noteq> p" "sl_file (kc_block c' q) = sl_file (kc_block c' r)"
      "sl_diskpos (kc_block c' q) = sl_diskpos (kc_block c' r)" for q r using B(3) [of q r] that by (simp add: b)
    fix q j assume "in_memory c q \<and> q \<noteq> p" "\<not> sl_changed (kc_block c' q)" "j < kc_block_size c"
    then show "kc_disk c' (sl_file (kc_block c' q)) (sl_diskpos (kc_block c' q) + j) = Some (sl_buffer (kc_block c' q) ! j)"
      using B(4) [of q j] by (simp add: b o)
  qed
  ultimately show "cache_ok {} c'" using L by (simp add: cache_ok_def)
  show "kc_view c' g x = (if g = sl_file (kc_block c p) \<and> in_block (kc_block_size c) (sl_diskpos (kc_block c p)) x
       then kc_disk c g x else kc_view c g x)" if g: "g \<noteq> - 1"
  proof -
    have b0: "0 < kc_block_size c" using D(2) by (simp add: numbers_ok_def)
    let ?e = "x - x mod kc_block_size c"
    have S: "search_hash c' g ?e = Some q \<longleftrightarrow> q \<noteq> p \<and> search_hash c g ?e = Some q" for q
      using search_hash_iff [OF L BK g, of ?e q] search_hash_iff [OF D(1,3) g, of ?e q] i [of q] bq [of q] by metis
    have P: "search_hash c g ?e = Some p \<longleftrightarrow> g = sl_file (kc_block c p) \<and> in_block (kc_block_size c) (sl_diskpos (kc_block c p)) x"
      using search_hash_iff [OF D(1,3) g, of ?e p] p in_block_iff [OF b0 B(2) [OF p], of x] by metis
    show ?thesis
    proof (cases "search_hash c g ?e")
      case None
      then have "search_hash c' g ?e = None" using S by (metis option.exhaust)
      then show ?thesis using None P by (simp add: kc_view_def F o)
    next
      case (Some q)
      show ?thesis
      proof (cases "q = p")
        case True
        then have "search_hash c' g ?e = None" using S Some by (metis option.exhaust option.inject)
        then show ?thesis using P Some True by (simp add: kc_view_def F o)
      next
        case False
        then have "search_hash c' g ?e = Some q" using S Some by blast
        then show ?thesis using P Some False by (auto simp: kc_view_def F bq)
      qed
    qed
  qed
qed

end
