(* ===== verification/KeyCacheFlush.thy ===== *)
theory KeyCacheFlush
  imports KeyCacheSpec
begin

text \<open>
  Flushing: a block may be marked clean or freed before it is written, so the invariant is stated of
  the state in which the blocks gathered have been written.
\<close>

subsection \<open>Writing a block back\<close>

lemma unexempt:
  assumes ok: "cache_ok X c" and X: "X \<subseteq> {p}" and p: "in_memory c p"
    and co: "\<And>i. i < kc_block_size c \<Longrightarrow> kc_disk c (sl_file (kc_block c p)) (sl_diskpos (kc_block c p) + i) = Some (sl_buffer (kc_block c p) ! i)"
  shows "cache_ok {} c"
proof -
  note B = blocks_okD [OF cache_okD(3) [OF ok]]
  have "blocks_ok {} c" unfolding blocks_ok_def
  proof (intro conjI allI impI)
    show "length (sl_buffer (kc_block c q)) = kc_block_size c" for q by (rule cache_okD(10) [OF ok])
    fix q i assume q: "in_memory c q" "\<not> sl_changed (kc_block c q)" "i < kc_block_size c"
    show "kc_disk c (sl_file (kc_block c q)) (sl_diskpos (kc_block c q) + i) = Some (sl_buffer (kc_block c q) ! i)"
      using B(4) [OF q(1,2) _ q(3)] co q(3) X by (cases "q = p") auto
  qed (use B in blast)+
  then show ?thesis using ok by (simp add: cache_ok_def)
qed

lemma write_back:
  assumes ok: "cache_ok {} c" and p: "in_memory c p"
  defines "c' \<equiv> c\<lparr>kc_disk := pwrite (kc_disk c) (sl_file (kc_block c p)) (sl_diskpos (kc_block c p)) (sl_buffer (kc_block c p))\<rparr>"
  shows "cache_ok {} c'" "g \<noteq> - 1 \<Longrightarrow> kc_view c' g x = kc_view c g x"
    "in_block (kc_block_size c) (sl_diskpos (kc_block c p)) x \<Longrightarrow> kc_view c' (sl_file (kc_block c p)) x = kc_disk c' (sl_file (kc_block c p)) x"
    "i < kc_block_size c \<Longrightarrow> kc_disk c' (sl_file (kc_block c p)) (sl_diskpos (kc_block c p) + i) = Some (sl_buffer (kc_block c p) ! i)"
proof -
  let ?f = "sl_file (kc_block c p)" and ?d = "sl_diskpos (kc_block c p)" and ?B = "kc_block_size c"
  note D = cache_okD [OF ok] and B = blocks_okD [OF cache_okD(3) [OF ok]]
  note W = disk_written [OF ok empty_subsetI B(2) [OF p] D(10) [of p], of ?f, folded c'_def]
  have only: "q \<in> {p}" if "in_memory c q" "sl_file (kc_block c q) = ?f" "sl_diskpos (kc_block c q) = ?d" for q
    using B(3) [OF that(1) p] that(2,3) by simp
  have k: "kc_block c' = kc_block c" "kc_block_size c' = ?B" "in_memory c' p" using p by (simp_all add: c'_def in_memory_def)
  have ok1: "cache_ok {p} c'" using W(1) only by blast
  show dk: "kc_disk c' ?f (?d + i) = Some (sl_buffer (kc_block c p) ! i)" if "i < ?B" for i
    using that D(10) [of p] by (simp add: c'_def pwrite_simp in_block_def)
  show ok2: "cache_ok {} c'" using unexempt [OF ok1 subset_refl k(3)] dk k by simp
  have b0: "0 < ?B" using D(2) by (simp add: numbers_ok_def)
  have v: "kc_view c ?f x = Some (sl_buffer (kc_block c p) ! (x mod ?B))" "kc_view c' ?f x = Some (sl_buffer (kc_block c p) ! (x mod ?B))"
    "kc_disk c' ?f x = Some (sl_buffer (kc_block c p) ! (x mod ?B))" if x: "in_block ?B ?d x" for x
  proof -
    have e: "?d = x - x mod ?B" using in_block_iff [OF b0 B(2) [OF p], of x] x by simp
    show "kc_view c ?f x = Some (sl_buffer (kc_block c p) ! (x mod ?B))" using view_in_use [OF D(1,3) p] e by simp
    show "kc_view c' ?f x = Some (sl_buffer (kc_block c p) ! (x mod ?B))"
      using view_in_use [OF cache_okD(1,3) [OF ok2] k(3)] e by (simp add: k)
    have "x mod ?B < ?B" using b0 by simp
    from dk [OF this] show "kc_disk c' ?f x = Some (sl_buffer (kc_block c p) ! (x mod ?B))" by (simp add: e)
  qed
  show "kc_view c' ?f x = kc_disk c' ?f x" if "in_block ?B ?d x" for x using v(2,3) [OF that] by simp
  show "kc_view c' g x = kc_view c g x" if "g \<noteq> - 1" for g x
  proof (cases "g = ?f \<and> in_block ?B ?d x")
    case True then show ?thesis using v(1,2) by metis
  next
    case False then show ?thesis using W(4) only by blast
  qed
qed

lemma clean_ok:
  assumes ok: "cache_ok {} c" and p: "dirty c p"
  defines "c1 \<equiv> c\<lparr>kc_disk := pwrite (kc_disk c) (sl_file (kc_block c p)) (sl_diskpos (kc_block c p)) (sl_buffer (kc_block c p))\<rparr>"
  defines "c' \<equiv> link_changed_to_file p (sl_file (kc_block c p)) c1"
  shows "cache_ok {} c'" "g \<noteq> - 1 \<Longrightarrow> kc_view c' g x = kc_view c g x"
proof -
  have i: "in_memory c p" and ch: "sl_changed (kc_block c p)" using p by (simp_all add: dirty_def)
  note W = write_back [OF ok i, folded c1_def]
  have k: "kc_block c1 = kc_block c" "in_memory c1 p" "kc_block_size c1 = kc_block_size c" using i by (simp_all add: c1_def in_memory_def)
  have "sl_changed (kc_block c1 p)" using ch k by simp
  from mark_clean [OF W(1) empty_subsetI k(2) this, unfolded k(1), folded c'_def]
  have M: "cache_ok {p} c'" "kc_view c' = kc_view c1" "in_memory c' p" "kc_disk c' = kc_disk c1" "same_fixed c1 c'"
    "kc_block c' p = (kc_block c p)\<lparr>sl_changed := False\<rparr>" by blast+
  show "cache_ok {} c'" using unexempt [OF M(1) subset_refl M(3)] W(4) M(4,6) same_fixedD(1) [OF M(5)] k(3) by simp
  show "kc_view c' g x = kc_view c g x" if "g \<noteq> - 1" using W(2) [OF that] M(2) by simp
qed

lemma release_ok:
  assumes ok: "cache_ok {} c" and p: "dirty c p"
  defines "c1 \<equiv> c\<lparr>kc_disk := pwrite (kc_disk c) (sl_file (kc_block c p)) (sl_diskpos (kc_block c p)) (sl_buffer (kc_block c p))\<rparr>"
  defines "c' \<equiv> free_block p (c1\<lparr>kc_blocks_changed := kc_blocks_changed c1 - 1\<rparr>)"
  shows "cache_ok {} c'" "g \<noteq> - 1 \<Longrightarrow> kc_view c' g x = kc_view c g x"
proof -
  have i: "in_memory c p" and ch: "sl_changed (kc_block c p)" using p by (simp_all add: dirty_def)
  note W = write_back [OF ok i, folded c1_def]
  have k: "kc_block c1 = kc_block c" "in_memory c1 p" "kc_block_size c1 = kc_block_size c" using i by (simp_all add: c1_def in_memory_def)
  have "(if sl_changed (kc_block c1 p) then 1 else 0) = (1::nat)" using ch k by simp
  note F = free_block_ok [OF W(1) k(2), unfolded this, folded c'_def]
  show "cache_ok {} c'" by (rule F(1))
  show "kc_view c' g x = kc_view c g x" if g: "g \<noteq> - 1"
    using F(6) [OF g, of x] W(2) [OF g, of x] W(3) [of x] k by (auto split: if_splits)
qed

text \<open>Freeing a block that is not changed.\<close>

lemma disk_clean:
  assumes ok: "cache_ok {} c" and p: "in_memory c p" "\<not> sl_changed (kc_block c p)" "sl_diskpos (kc_block c p) = x - x mod kc_block_size c"
  shows "kc_disk c (sl_file (kc_block c p)) x = Some (sl_buffer (kc_block c p) ! (x mod kc_block_size c))"
proof -
  have "0 < kc_block_size c" using cache_okD(2) [OF ok] by (simp add: numbers_ok_def)
  then have "x mod kc_block_size c < kc_block_size c" by simp
  from blocks_okD(4) [OF cache_okD(3) [OF ok] p(1,2) _ this] p(3) show ?thesis by simp
qed

lemma view_clean:
  assumes ok: "cache_ok {} c" and f: "f \<noteq> - 1" and n: "\<And>p. dirty c p \<Longrightarrow> sl_file (kc_block c p) \<noteq> f"
  shows "kc_view c f x = kc_disk c f x"
proof -
  note D = cache_okD [OF ok]
  let ?e = "x - x mod kc_block_size c"
  show ?thesis
  proof (cases "search_hash c f ?e")
    case (Some p)
    then have p: "in_memory c p" "sl_file (kc_block c p) = f" "sl_diskpos (kc_block c p) = ?e" using search_hash_iff [OF D(1,3) f] by blast+
    then have "\<not> sl_changed (kc_block c p)" using n by (auto simp: dirty_def)
    from disk_clean [OF ok p(1) this p(3)] show ?thesis using p(2) Some by (simp add: kc_view_def)
  qed (simp add: kc_view_def)
qed

lemma free_clean:
  assumes ok: "cache_ok {} c" and p: "in_memory c p" "\<not> sl_changed (kc_block c p)"
  defines "c' \<equiv> free_block p c"
  shows "cache_ok {} c'" "in_memory c' q \<longleftrightarrow> in_memory c q \<and> q \<noteq> p" "q \<noteq> p \<Longrightarrow> kc_block c' q = kc_block c q" "kc_disk c' = kc_disk c"
    "same_view c c'" "kc_blocks_used c' = kc_blocks_used c"
proof -
  note D = cache_okD [OF ok] and B = blocks_okD [OF cache_okD(3) [OF ok]]
  have b0: "0 < kc_block_size c" using D(2) by (simp add: numbers_ok_def)
  have "c\<lparr>kc_blocks_changed := kc_blocks_changed c - (if sl_changed (kc_block c p) then 1 else 0)\<rparr> = c" using p(2) by simp
  note F = free_block_ok [OF ok p(1), unfolded this, folded c'_def]
  show "cache_ok {} c'" "in_memory c' q \<longleftrightarrow> in_memory c q \<and> q \<noteq> p" "q \<noteq> p \<Longrightarrow> kc_block c' q = kc_block c q" "kc_disk c' = kc_disk c"
    by (rule F; assumption?)+
  show "kc_blocks_used c' = kc_blocks_used c" by (simp add: c'_def free_block_def unlink_block_def unlink_hash_def Let_def)
  have "kc_view c' g x = kc_view c g x" if g: "g \<noteq> - 1" for g x
  proof (cases "g = sl_file (kc_block c p) \<and> in_block (kc_block_size c) (sl_diskpos (kc_block c p)) x")
    case True
    then have e: "sl_diskpos (kc_block c p) = x - x mod kc_block_size c" using in_block_iff [OF b0 B(2) [OF p(1)], of x] by simp
    have "kc_disk c g x = Some (sl_buffer (kc_block c p) ! (x mod kc_block_size c))" using disk_clean [OF ok p e] True by simp
    then show ?thesis using F(6) [OF g, of x] True view_in_use [OF D(1,3) p(1) e] by simp
  next
    case False then show ?thesis using F(6) [OF g, of x] by auto
  qed
  then show "same_view c c'" using F(5) by (simp add: same_view_def)
qed

subsection \<open>Writing the blocks gathered\<close>

definition write_all :: "(nat \<Rightarrow> SEC_LINK) \<Rightarrow> int \<Rightarrow> nat list \<Rightarrow> disk \<Rightarrow> disk" where
  "write_all b f = fold (\<lambda>p dk. pwrite dk f (sl_diskpos (b p)) (sl_buffer (b p)))"

text \<open>The state in which the blocks gathered have been written.\<close>

definition pending :: "int \<Rightarrow> nat list \<Rightarrow> key_cache \<Rightarrow> key_cache" where
  "pending f pos c = c\<lparr>kc_disk := write_all (kc_block c) f pos (kc_disk c)\<rparr>"

lemma write_all_cong:
  assumes "\<And>p. p \<in> set pos \<Longrightarrow> sl_diskpos (b p) = sl_diskpos (b' p) \<and> sl_buffer (b p) = sl_buffer (b' p)"
  shows "write_all b f pos dk = write_all b' f pos dk"
  using assms unfolding write_all_def by (intro fold_cong) auto

lemma write_blocks_eq:
  "(\<forall>n. io n) \<Longrightarrow> write_blocks io f ps c e =
     (c\<lparr>kc_io := kc_io c + length ps, kc_disk := write_all (kc_block c) f ps (kc_disk c)\<rparr>, e)"
proof (induction ps arbitrary: c)
  case Nil
  show ?case by (simp add: write_all_def)
next
  case (Cons p ps)
  then show ?case by (simp add: my_pwrite_def write_all_def)
qed

text \<open>Blocks at different positions of a file.\<close>

definition separate :: "key_cache \<Rightarrow> nat set \<Rightarrow> bool" where
  "separate c A \<longleftrightarrow> inj_on (\<lambda>p. sl_diskpos (kc_block c p)) A \<and>
     (\<forall>p \<in> A. kc_block_size c dvd sl_diskpos (kc_block c p) \<and> length (sl_buffer (kc_block c p)) = kc_block_size c)"

lemma pwrite_commute:
  assumes "\<And>x. \<not> (in_block (length bs) d x \<and> in_block (length bs') d' x)"
  shows "pwrite (pwrite dk f d bs) f d' bs' = pwrite (pwrite dk f d' bs') f d bs"
  using assms by (auto simp: fun_eq_iff pwrite_simp)

lemma write_all_order:
  assumes a: "separate c (set pos)" and b0: "0 < kc_block_size c" and m: "mset ps = mset pos"
  shows "write_all (kc_block c) f ps dk = write_all (kc_block c) f pos dk"
proof -
  let ?w = "\<lambda>p dk. pwrite dk f (sl_diskpos (kc_block c p)) (sl_buffer (kc_block c p))"
  have "?w p \<circ> ?w q = ?w q \<circ> ?w p" if pq: "p \<in> set pos" "q \<in> set pos" for p q
  proof (cases "p = q")
    case False
    then have ne: "sl_diskpos (kc_block c p) \<noteq> sl_diskpos (kc_block c q)" using a pq by (auto simp: separate_def inj_on_def)
    have len: "length (sl_buffer (kc_block c r)) = kc_block_size c" "kc_block_size c dvd sl_diskpos (kc_block c r)" if "r \<in> {p, q}" for r
      using that a pq by (auto simp: separate_def)
    have "\<not> (in_block (kc_block_size c) (sl_diskpos (kc_block c q)) x \<and> in_block (kc_block_size c) (sl_diskpos (kc_block c p)) x)" for x
      using in_block_iff [OF b0] len(2) ne by (metis insert_iff)
    then have "pwrite (pwrite dk f (sl_diskpos (kc_block c q)) (sl_buffer (kc_block c q))) f (sl_diskpos (kc_block c p)) (sl_buffer (kc_block c p)) =
      pwrite (pwrite dk f (sl_diskpos (kc_block c p)) (sl_buffer (kc_block c p))) f (sl_diskpos (kc_block c q)) (sl_buffer (kc_block c q))" for dk
      by (intro pwrite_commute) (simp add: len(1))
    then show ?thesis by (intro ext) (simp only: o_apply)
  qed simp
  from fold_multiset_equiv [OF this m [symmetric]] show ?thesis unfolding write_all_def by simp
qed

lemma total_cmp_sec_link: "total_cmp (cmp_sec_link c)"
  unfolding total_cmp_def cmp_sec_link_def by auto

lemma flush_cached_ok:
  assumes io: "\<forall>n. io n" and a: "separate c (set pos)" and b0: "0 < kc_block_size c" and n: "int (length pos) < 2 ^ 28"
  shows "flush_cached_blocks io f pos c = Some ((pending f pos c)\<lparr>kc_io := kc_io c + length pos\<rparr>, False)"
proof -
  have "int (length pos) * int 8 < 2 ^ 31" using n by simp
  from qsort2_correct [OF total_cmp_sec_link [of c] _ this]
  obtain ps where q: "qsort2 (cmp_sec_link c) 8 pos = Some ps" and m: "mset ps = mset pos" by auto
  have "length ps = length pos" using m mset_eq_length by blast
  then show ?thesis using q write_blocks_eq [OF io] write_all_order [OF a b0 m]
    by (simp add: flush_cached_blocks_def pending_def)
qed

subsection \<open>The changed blocks\<close>

lemma same_fixed_aside [simp]:
  "same_fixed c (c'\<lparr>kc_write := n\<rparr>) \<longleftrightarrow> same_fixed c c'" "same_fixed (c\<lparr>kc_locked := l\<rparr>) c' \<Longrightarrow> l = kc_locked c \<Longrightarrow> same_fixed c c'"
  by (simp_all add: same_fixed_def)

text \<open>
  The changed blocks \<open>ps\<close> are still to do, those in \<open>pos\<close> are gathered: with these written, the cache has its
  invariant and shows what it showed at first.
\<close>

definition flushing :: "int \<Rightarrow> key_cache \<Rightarrow> nat list \<Rightarrow> nat list \<Rightarrow> key_cache \<Rightarrow> bool" where
  "flushing f c0 pos ps c \<longleftrightarrow> cache_ok {} (pending f pos c) \<and> same_view c0 (pending f pos c) \<and>
     separate c (set pos \<union> {p. dirty c p \<and> sl_file (kc_block c p) = f}) \<and> distinct pos \<and>
     (\<forall>p \<in> set pos. p < kc_blocks_used c \<and> \<not> dirty c p) \<and> distinct ps \<and>
     (\<forall>p. sl_file (kc_block c p) = f \<longrightarrow> (p \<in> set ps \<longleftrightarrow> dirty c p))"

lemma flushingD:
  assumes "flushing f c0 pos ps c"
  shows "cache_ok {} (pending f pos c)" "same_view c0 (pending f pos c)"
    "separate c (set pos \<union> {p. dirty c p \<and> sl_file (kc_block c p) = f})" "distinct pos"
    "p \<in> set pos \<Longrightarrow> p < kc_blocks_used c" "p \<in> set pos \<Longrightarrow> \<not> dirty c p" "distinct ps"
    "sl_file (kc_block c p) = f \<Longrightarrow> p \<in> set ps \<longleftrightarrow> dirty c p"
  using assms unfolding flushing_def by blast+

lemma separate_subset: "separate c A \<Longrightarrow> B \<subseteq> A \<Longrightarrow> separate c B"
  unfolding separate_def by (meson inj_on_subset subsetD)

lemma pending_simps [simp]:
  "kc_block (pending f pos c) = kc_block c" "kc_blocks_used (pending f pos c) = kc_blocks_used c" "dirty (pending f pos c) = dirty c"
  "kc_block_size (pending f pos c) = kc_block_size c" "kc_disk_blocks (pending f pos c) = kc_disk_blocks c"
  "kc_io (pending f pos c) = kc_io c" "pending f [] c = c" "pending f pos (c\<lparr>kc_write := n\<rparr>) = (pending f pos c)\<lparr>kc_write := n\<rparr>"
  by (simp_all add: pending_def dirty_def in_memory_def fun_eq_iff write_all_def)

lemma dirty_simps [simp]: "dirty (c\<lparr>kc_write := n\<rparr>) = dirty c" "dirty (c\<lparr>kc_io := n\<rparr>) = dirty c"
  by (simp_all add: dirty_def in_memory_def fun_eq_iff)

lemma flushing_length:
  assumes F: "flushing f c0 pos ps c" and n: "kc_disk_blocks c0 < 2 ^ 28"
  shows "int (length pos) < 2 ^ 28"
proof -
  have "length pos = card (set pos)" using flushingD(4) [OF F] by (simp add: distinct_card)
  also have "\<dots> \<le> card {..<kc_blocks_used c}" using flushingD(5) [OF F] by (intro card_mono) auto
  finally have "length pos \<le> kc_blocks_used c" by simp
  moreover have "int (kc_blocks_used c) \<le> kc_disk_blocks c"
    using cache_okD(2) [OF flushingD(1) [OF F]] by (simp add: numbers_ok_def)
  moreover have "kc_disk_blocks c = kc_disk_blocks c0"
    using flushingD(2) [OF F] by (simp add: same_view_def same_fixed_def)
  ultimately show ?thesis using n by linarith
qed

text \<open>The blocks gathered are written.\<close>

lemma flushing_write:
  assumes F: "flushing f c0 pos ps c" and io: "\<forall>n. io n" and n: "kc_disk_blocks c0 < 2 ^ 28"
  shows "\<exists>c'. flush_cached_blocks io f pos c = Some (c', False) \<and> flushing f c0 [] ps c'"
proof -
  note D = flushingD [OF F]
  have b0: "0 < kc_block_size c" using cache_okD(2) [OF D(1)] by (simp add: numbers_ok_def)
  let ?c = "(pending f pos c)\<lparr>kc_io := kc_io c + length pos\<rparr>"
  have "flush_cached_blocks io f pos c = Some (?c, False)"
    using flush_cached_ok [OF io separate_subset [OF D(3)] b0 flushing_length [OF F n]] by simp
  moreover have "flushing f c0 [] ps ?c"
    using D(1,2,7,8) separate_subset [OF D(3), of "{p. dirty c p \<and> sl_file (kc_block c p) = f}"]
    by (simp add: flushing_def same_view_def separate_def)
  ultimately show ?thesis by blast
qed

text \<open>A block is gathered, and then marked clean or freed.\<close>

lemma flushing_step:
  assumes F: "flushing f c0 pos (p # ps) c" and p: "sl_file (kc_block c p) = f"
    and e: "\<And>q. q \<noteq> p \<Longrightarrow> kc_block c' q = kc_block c q" "sl_diskpos (kc_block c' p) = sl_diskpos (kc_block c p)"
      "sl_buffer (kc_block c' p) = sl_buffer (kc_block c p)" "\<not> sl_changed (kc_block c' p)" "kc_blocks_used c' = kc_blocks_used c" "same_fixed c c'"
    and ok: "cache_ok {} (pending f (pos @ [p]) c')"
    and view: "\<And>g x. g \<noteq> - 1 \<Longrightarrow> kc_view (pending f (pos @ [p]) c') g x = kc_view (pending f pos c) g x"
  shows "flushing f c0 (pos @ [p]) ps c'"
proof -
  note D = flushingD [OF F]
  have b: "sl_diskpos (kc_block c' q) = sl_diskpos (kc_block c q)" "sl_buffer (kc_block c' q) = sl_buffer (kc_block c q)" for q
    using e(1-3) by (cases "q = p"; simp)+
  have d: "dirty c' q \<longleftrightarrow> dirty c q \<and> q \<noteq> p" for q using e(1,4,5) by (cases "q = p") (simp_all add: dirty_def in_memory_def)
  have dp: "dirty c p" "p \<notin> set pos" "p < kc_blocks_used c" using D(8) [of p] D(6) [of p] p by (auto simp: dirty_def in_memory_def)
  let ?A = "set pos \<union> {q. dirty c q \<and> sl_file (kc_block c q) = f}"
  have sub: "set (pos @ [p]) \<union> {q. dirty c' q \<and> sl_file (kc_block c' q) = f} \<subseteq> ?A" using dp(1) p e(1) d by auto
  have "separate c' A = separate c A" for A using e(6) by (simp add: separate_def b same_fixed_def)
  then have "separate c' (set (pos @ [p]) \<union> {q. dirty c' q \<and> sl_file (kc_block c' q) = f})" using separate_subset [OF D(3) sub] by simp
  moreover have "same_view c0 (pending f (pos @ [p]) c')"
    using D(2) view e(6) by (simp add: same_view_def same_fixed_def pending_def)
  moreover have "q \<in> set ps \<longleftrightarrow> dirty c' q" if "sl_file (kc_block c' q) = f" for q
    using D(7) D(8) [of q] e(1) [of q] that by (cases "q = p") (auto simp: d)
  ultimately show ?thesis using ok D(4-7) dp e(5) unfolding flushing_def d by auto
qed

lemma write_all_snoc: "write_all b f (pos @ [p]) dk = pwrite (write_all b f pos dk) f (sl_diskpos (b p)) (sl_buffer (b p))"
  by (simp add: write_all_def)

lemma pending_link:
  "pending f (pos @ [p]) (link_changed_to_file p f c) =
     link_changed_to_file p f ((pending f pos c)\<lparr>kc_disk := pwrite (kc_disk (pending f pos c)) f (sl_diskpos (kc_block c p)) (sl_buffer (kc_block c p))\<rparr>)"
proof -
  have "write_all (kc_block (link_changed_to_file p f c)) f pos dk = write_all (kc_block c) f pos dk" for pos dk
    by (rule write_all_cong) (simp add: link_changed_to_file_def link_into_file_blocks_def unlink_block_def Let_def)
  then show ?thesis unfolding pending_def
    by (simp add: link_changed_to_file_def link_into_file_blocks_def unlink_block_def Let_def write_all_snoc)
qed

lemma pending_free:
  "pending f (pos @ [p]) (free_block p (c\<lparr>kc_blocks_changed := n\<rparr>)) =
     free_block p ((pending f pos c)\<lparr>kc_disk := pwrite (kc_disk (pending f pos c)) f (sl_diskpos (kc_block c p)) (sl_buffer (kc_block c p)),
       kc_blocks_changed := n\<rparr>)"
proof -
  have "write_all (kc_block (free_block p (c\<lparr>kc_blocks_changed := n\<rparr>))) f pos dk = write_all (kc_block c) f pos dk" for pos dk
    by (rule write_all_cong) (simp add: free_block_def unlink_hash_def unlink_block_def Let_def)
  then show ?thesis unfolding pending_def
    by (simp add: free_block_def unlink_hash_def unlink_block_def Let_def write_all_snoc)
qed

lemma flushing_keep:
  assumes F: "flushing f c0 pos (p # ps) c" and p: "sl_file (kc_block c p) = f"
  shows "flushing f c0 (pos @ [p]) ps (link_changed_to_file p f c)"
proof -
  note D = flushingD [OF F]
  have d: "dirty (pending f pos c) p" using D(8) [OF p] by simp
  note C = clean_ok [OF D(1) d, unfolded pending_simps p, folded pending_link]
  show ?thesis
    by (rule flushing_step [OF F p _ _ _ _ _ _ C])
      (simp_all add: link_changed_to_file_def link_into_file_blocks_def unlink_block_def Let_def same_fixed_def)
qed

lemma flushing_release:
  assumes F: "flushing f c0 pos (p # ps) c" and p: "sl_file (kc_block c p) = f"
  shows "flushing f c0 (pos @ [p]) ps (free_block p (c\<lparr>kc_blocks_changed := kc_blocks_changed c - 1\<rparr>))"
proof -
  note D = flushingD [OF F]
  have d: "dirty (pending f pos c) p" using D(8) [OF p] by simp
  have n: "kc_blocks_changed ((pending f pos c)\<lparr>kc_disk := dk\<rparr>) = kc_blocks_changed c" for dk by (simp add: pending_def)
  note C = release_ok [OF D(1) d, unfolded n pending_simps p, folded pending_free]
  show ?thesis
    by (rule flushing_step [OF F p _ _ _ _ _ _ C])
      (simp_all add: free_block_def unlink_hash_def unlink_block_def Let_def same_fixed_def)
qed

lemma flushing_other:
  assumes F: "flushing f c0 pos (p # ps) c" and p: "sl_file (kc_block c p) \<noteq> f"
  shows "flushing f c0 pos ps c"
  using F p unfolding flushing_def by auto

lemma flushing_counted: "flushing f c0 pos ps (c\<lparr>kc_write := n\<rparr>) \<longleftrightarrow> flushing f c0 pos ps c"
  by (simp add: flushing_def same_view_def separate_def)

lemma flush_changed_ok:
  assumes io: "\<forall>n. io n" and n: "kc_disk_blocks c0 < 2 ^ 28" and ty: "ty \<noteq> FLUSH_IGNORE_CHANGED"
  shows "flushing f c0 pos ps c \<Longrightarrow>
    \<exists>c' pos'. flush_changed io f ty cap ps pos False c = Some (c', pos', False) \<and> flushing f c0 pos' [] c'"
proof (induction ps arbitrary: pos c)
  case Nil
  then show ?case by auto
next
  case (Cons p ps)
  show ?case
  proof (cases "sl_file (kc_block c p) = f")
    case False
    then show ?thesis using Cons.IH [OF flushing_other [OF Cons.prems False]] by simp
  next
    case True
    obtain c1 pos1 where s: "(if length pos = cap
        then do { (c, failed) \<leftarrow> flush_cached_blocks io f pos c; Some (c, [], False \<or> failed) } else Some (c, pos, False)) = Some (c1, pos1, False)"
      and F1: "flushing f c0 pos1 (p # ps) c1" and p1: "sl_file (kc_block c1 p) = f"
    proof (cases "length pos = cap")
      case full: True
      obtain c1 where c1: "flush_cached_blocks io f pos c = Some (c1, False)" "flushing f c0 [] (p # ps) c1"
        using flushing_write [OF Cons.prems io n] by blast
      have "kc_block c1 = kc_block c"
      proof -
        have b0: "0 < kc_block_size c" using cache_okD(2) [OF flushingD(1) [OF Cons.prems]] by (simp add: numbers_ok_def)
        show ?thesis using flush_cached_ok [OF io separate_subset [OF flushingD(3) [OF Cons.prems]] b0 flushing_length [OF Cons.prems n]] c1(1) by auto
      qed
      then show ?thesis using that [of c1 "[]"] c1 True full by simp
    next
      case False
      then show ?thesis using that [of c pos] Cons.prems True by simp
    qed
    let ?c = "c1\<lparr>kc_write := kc_write c1 + 1\<rparr>"
    have F2: "flushing f c0 pos1 (p # ps) ?c" using F1 by (simp only: flushing_counted)
    have p2: "sl_file (kc_block ?c p) = f" using p1 by simp
    define c2 where "c2 = (if releases ty then free_block p (?c\<lparr>kc_blocks_changed := kc_blocks_changed ?c - 1\<rparr>) else link_changed_to_file p f ?c)"
    have "flushing f c0 (pos1 @ [p]) ps c2" using flushing_keep [OF F2 p2] flushing_release [OF F2 p2] by (simp only: c2_def split: if_split) blast
    from Cons.IH [OF this] obtain c' pos' where
      "flush_changed io f ty cap ps (pos1 @ [p]) False c2 = Some (c', pos', False)" "flushing f c0 pos' [] c'" by blast
    moreover have "flush_changed io f ty cap (p # ps) pos False c = flush_changed io f ty cap ps (pos1 @ [p]) False c2"
      by (simp only: flush_changed.simps True s [simplified simp_thms] if_True ty not_False_eq_True Option.bind.bind_lunit prod.case c2_def Let_def simp_thms)
    ultimately show ?thesis by simp
  qed
qed

text \<open>The blocks of the file that are not changed are freed.\<close>

lemma free_file_blocks_ok:
  assumes f: "f \<noteq> - 1"
  shows "\<lbrakk>cache_ok {} c; distinct ps; set ps \<subseteq> {..<kc_blocks_used c}; \<And>p. in_memory c p \<Longrightarrow> sl_file (kc_block c p) = f \<Longrightarrow> \<not> sl_changed (kc_block c p)\<rbrakk> \<Longrightarrow>
    cache_ok {} (free_file_blocks f ty ps c) \<and> same_view c (free_file_blocks f ty ps c) \<and> kc_disk (free_file_blocks f ty ps c) = kc_disk c \<and>
    (\<forall>q. in_memory (free_file_blocks f ty ps c) q \<longleftrightarrow> in_memory c q \<and> \<not> (q \<in> set ps \<and> sl_file (kc_block c q) = f)) \<and>
    (\<forall>q. in_memory (free_file_blocks f ty ps c) q \<longrightarrow> kc_block (free_file_blocks f ty ps c) q = kc_block c q)"
proof (induction ps arbitrary: c)
  case Nil
  then show ?case by (simp add: same_view_def)
next
  case (Cons p ps)
  show ?case
  proof (cases "sl_file (kc_block c p) = f")
    case False
    then show ?thesis using Cons.IH [OF Cons.prems(1)] Cons.prems(2-4) by auto
  next
    case True
    have p: "in_memory c p" using True f Cons.prems(3) by (simp add: in_memory_def)
    have cl: "\<not> sl_changed (kc_block c p)" using Cons.prems(4) [OF p True] .
    note F = free_clean [OF Cons.prems(1) p cl]
    let ?c = "free_block p c"
    have sub: "set ps \<subseteq> {..<kc_blocks_used ?c}" using Cons.prems(3) F(6) by simp
    have n: "\<not> sl_changed (kc_block ?c q)" if "in_memory ?c q" "sl_file (kc_block ?c q) = f" for q
      using Cons.prems(4) [of q] F(2,3) [of q] that by auto
    have ds: "distinct ps" "p \<notin> set ps" using Cons.prems(2) by auto
    define c' where "c' = free_file_blocks f ty ps ?c"
    have I: "cache_ok {} c'" "same_view ?c c'" "kc_disk c' = kc_disk ?c"
      "in_memory c' q \<longleftrightarrow> in_memory ?c q \<and> \<not> (q \<in> set ps \<and> sl_file (kc_block ?c q) = f)" "in_memory c' q \<Longrightarrow> kc_block c' q = kc_block ?c q" for q
      using Cons.IH [OF F(1) ds(1) sub n] unfolding c'_def by blast+
    have e: "free_file_blocks f ty (p # ps) c = c'" using True cl by (simp add: c'_def)
    have iu: "in_memory c' q \<longleftrightarrow> in_memory c q \<and> \<not> (q \<in> set (p # ps) \<and> sl_file (kc_block c q) = f)" for q
      using I(4) [of q] F(2,3) [of q] True by (cases "q = p") simp_all
    have "kc_block c' q = kc_block c q" if "in_memory c' q" for q
    proof -
      have "q \<noteq> p" using iu [of q] that True by auto
      then show ?thesis using I(5) [OF that] F(3) by simp
    qed
    then show ?thesis unfolding e using I(1,3) F(4) same_view_trans [OF F(5) I(2)] iu by simp
  qed
qed

subsection \<open>The whole flush\<close>

lemma flushing_start:
  assumes ok: "cache_ok {} c"
  shows "flushing f c [] (kc_changed c (chain_of f)) c"
proof -
  note D = cache_okD [OF ok] and B = blocks_okD [OF cache_okD(3) [OF ok]]
  have m: "p \<in> set (kc_changed c i) \<longleftrightarrow> dirty c p \<and> chain_of (sl_file (kc_block c p)) = i" "distinct (kc_changed c i)" for p i
    using familyD(1) [OF D(5), of i] familyD(2) [OF D(5), of p i] by (auto simp: ix_changed_def dirty_def)
  have "separate c {p. dirty c p \<and> sl_file (kc_block c p) = f}" unfolding separate_def
  proof (intro conjI ballI inj_onI)
    fix p q assume "p \<in> {p. dirty c p \<and> sl_file (kc_block c p) = f}" "q \<in> {p. dirty c p \<and> sl_file (kc_block c p) = f}"
      "sl_diskpos (kc_block c p) = sl_diskpos (kc_block c q)"
    then show "p = q" using B(3) [of p q] by (simp add: dirty_def)
  next
    fix p assume "p \<in> {p. dirty c p \<and> sl_file (kc_block c p) = f}"
    then show "kc_block_size c dvd sl_diskpos (kc_block c p)" using B(2) [of p] by (simp add: dirty_def)
    show "length (sl_buffer (kc_block c p)) = kc_block_size c" by (rule D(10))
  qed
  then show ?thesis using ok m by (simp add: flushing_def same_view_def)
qed

lemma flush_key_blocks_correct:
  assumes wf: "cache_wf c" and io: "\<forall>n. io n" and f: "f \<noteq> - 1" and n: "kc_disk_blocks c < 2 ^ 28"
    and ty: "ty \<noteq> FLUSH_IGNORE_CHANGED" "\<not> disable \<or> ty \<noteq> FLUSH_KEEP"
  shows "\<exists>c'. flush_key_blocks io alloc disable f ty c = Some (c', False) \<and> cache_wf c' \<and> same_view c c' \<and>
    (\<forall>x. kc_disk c' f x = kc_view c f x) \<and>
    (\<forall>p. in_memory c' p \<longrightarrow> sl_file (kc_block c' p) = f \<longrightarrow> \<not> sl_changed (kc_block c' p) \<and> \<not> releases ty)"
proof -
  let ?c = "c\<lparr>kc_locked := True\<rparr>"
  have ok: "cache_ok {} ?c" and lk: "\<not> kc_locked c" using wf by (simp_all add: cache_wf_def)
  have N: "0 < kc_disk_blocks c" using wf by (simp add: cache_wf_def cache_ok_def numbers_ok_def)
  let ?n = "length (filter (\<lambda>p. sl_file (kc_block ?c p) = f) (kc_changed ?c (chain_of f)))"
  define cap where "cap = (if ty = FLUSH_IGNORE_CHANGED then 0 else if ?n \<le> FLUSH_CACHE \<or> \<not> alloc then FLUSH_CACHE else ?n)"
  have n1: "kc_disk_blocks ?c < 2 ^ 28" using n by simp
  obtain c1 pos where c1: "flush_changed io f ty cap (kc_changed ?c (chain_of f)) [] False ?c = Some (c1, pos, False)" and F1: "flushing f ?c pos [] c1"
    using flush_changed_ok [OF io n1 ty(1) flushing_start [OF ok]] by blast
  obtain c2 where c2: "(if pos \<noteq> [] then flush_cached_blocks io f pos c1 else Some (c1, False)) = Some (c2, False)" and F2: "flushing f ?c [] [] c2"
    using flushing_write [OF F1 io n1] F1 by (cases "pos = []") auto
  note D = flushingD [OF F2, unfolded pending_simps]
  have cl: "\<not> sl_changed (kc_block c2 p)" if "in_memory c2 p" "sl_file (kc_block c2 p) = f" for p
    using D(8) [OF that(2)] that(1) by (simp add: dirty_def)
  define c3 where "c3 = (if releases ty then free_file_blocks f ty (kc_files c2 (chain_of f)) c2 else c2)"
  have m: "p \<in> set (kc_files c2 i) \<longleftrightarrow> in_memory c2 p \<and> \<not> sl_changed (kc_block c2 p) \<and> chain_of (sl_file (kc_block c2 p)) = i"
    and ds: "distinct (kc_files c2 i)" for p i
    using familyD(1) [OF cache_okD(6) [OF D(1)], of i] familyD(2) [OF cache_okD(6) [OF D(1)], of p i] by (auto simp: ix_files_def)
  have sub: "set (kc_files c2 (chain_of f)) \<subseteq> {..<kc_blocks_used c2}" using m by (auto simp: in_memory_def)
  note R = free_file_blocks_ok [OF f D(1) ds [of "chain_of f"] sub cl, of ty]
  have C3: "cache_ok {} c3" "same_view c2 c3" "kc_disk c3 = kc_disk c2" using D(1) R by (simp_all add: c3_def same_view_def)
  have gone: "\<not> sl_changed (kc_block c3 p) \<and> \<not> releases ty" if p: "in_memory c3 p" "sl_file (kc_block c3 p) = f" for p
  proof (cases "releases ty")
    case False
    have "c3 = c2" unfolding c3_def using False by (rule if_not_P)
    then show ?thesis using p cl False by simp
  next
    case True
    then have "c3 = free_file_blocks f ty (kc_files c2 (chain_of f)) c2" by (simp add: c3_def)
    then have "in_memory c2 p" "sl_file (kc_block c2 p) = f" "p \<notin> set (kc_files c2 (chain_of f))" using R p by auto
    then show ?thesis using m cl by blast
  qed
  have sv: "same_view ?c c3" using same_view_trans [OF D(2) C3(2)] .
  let ?r = "unlock_cache c3"
  have "flush_key_blocks io alloc disable f ty c = Some (?r, False)"
  proof -
    have cond: "0 < kc_disk_blocks ?c \<and> (\<not> disable \<or> ty \<noteq> FLUSH_KEEP)" using N ty(2) by simp
    show ?thesis
      by (simp only: flush_key_blocks_def lock_cache_def lk if_False Option.bind.bind_lunit cond if_True Let_def cap_def [symmetric] c1
        prod.case c2 c3_def [symmetric] simp_thms)
  qed
  moreover have "cache_wf ?r" using C3(1) by (simp add: cache_wf_def unlock_cache_def)
  moreover have "same_view c ?r" using sv lk by (simp add: same_view_def same_fixed_def unlock_cache_def)
  moreover have "kc_disk ?r f x = kc_view c f x" for x
  proof -
    have "kc_view c3 f x = kc_disk c3 f x" by (rule view_clean [OF C3(1) f]) (use gone in \<open>auto simp: dirty_def\<close>)
    then show ?thesis using sv f by (simp add: same_view_def unlock_cache_def)
  qed
  moreover have "\<not> sl_changed (kc_block ?r p) \<and> \<not> releases ty" if "in_memory ?r p" "sl_file (kc_block ?r p) = f" for p
    using gone [of p] that by (simp add: in_memory_def unlock_cache_def)
  ultimately show ?thesis by blast
qed

text \<open>Forgetting what was not written: the file is then seen as it is on disk.\<close>

lemma forget_changed:
  assumes io: "\<forall>n. io n" and f: "f \<noteq> - 1"
  shows "\<lbrakk>cache_ok {} c; distinct ps; \<And>p. sl_file (kc_block c p) = f \<Longrightarrow> p \<in> set ps \<longleftrightarrow> dirty c p\<rbrakk> \<Longrightarrow>
    \<exists>c'. flush_changed io f FLUSH_IGNORE_CHANGED cap ps [] False c = Some (c', [], False) \<and> cache_ok {} c' \<and> same_fixed c c' \<and>
      kc_disk c' = kc_disk c \<and> (\<forall>g x. g \<noteq> - 1 \<longrightarrow> g \<noteq> f \<longrightarrow> kc_view c' g x = kc_view c g x) \<and>
      (\<forall>p. sl_file (kc_block c' p) = f \<longrightarrow> \<not> dirty c' p)"
proof (induction ps arbitrary: c)
  case Nil
  then show ?case by simp
next
  case (Cons p ps)
  show ?case
  proof (cases "sl_file (kc_block c p) = f")
    case False
    have "q \<in> set ps \<longleftrightarrow> dirty c q" if "sl_file (kc_block c q) = f" for q using Cons.prems(3) [OF that] False that by auto
    then show ?thesis using Cons.IH [OF Cons.prems(1)] Cons.prems(2) False by simp
  next
    case True
    have p: "in_memory c p" "sl_changed (kc_block c p)" using Cons.prems(3) [OF True] by (simp_all add: dirty_def)
    have one: "(if sl_changed (kc_block c p) then 1 else 0) = (1::nat)" using p(2) by simp
    define c1 where "c1 = free_block p (c\<lparr>kc_blocks_changed := kc_blocks_changed c - 1\<rparr>)"
    note F = free_block_ok [OF Cons.prems(1) p(1), unfolded one, folded c1_def]
    have bp: "sl_file (kc_block c1 p) = - 1" by (simp add: c1_def free_block_def unlink_hash_def unlink_block_def Let_def)
    have bu: "dirty c1 q \<longleftrightarrow> dirty c q \<and> q \<noteq> p" for q using F(2,3) [of q] by (cases "q = p") (simp_all add: dirty_def)
    have ds: "distinct ps" "p \<notin> set ps" using Cons.prems(2) by simp_all
    have m: "q \<in> set ps \<longleftrightarrow> dirty c1 q" if "sl_file (kc_block c1 q) = f" for q
    proof (cases "q = p")
      case False
      then show ?thesis using Cons.prems(3) [of q] F(3) [OF False] that by (simp add: bu)
    qed (use that bp f in simp)
    obtain c' where c': "flush_changed io f FLUSH_IGNORE_CHANGED cap ps [] False c1 = Some (c', [], False)" "cache_ok {} c'" "same_fixed c1 c'"
      "kc_disk c' = kc_disk c1" "\<And>g x. g \<noteq> - 1 \<Longrightarrow> g \<noteq> f \<Longrightarrow> kc_view c' g x = kc_view c1 g x" "\<And>p. sl_file (kc_block c' p) = f \<Longrightarrow> \<not> dirty c' p"
      using Cons.IH [OF F(1) ds(1) m] by blast
    have "flush_changed io f FLUSH_IGNORE_CHANGED cap (p # ps) [] False c = Some (c', [], False)"
      using c'(1) True by (simp add: c1_def)
    moreover have "kc_view c' g x = kc_view c g x" if g: "g \<noteq> - 1" "g \<noteq> f" for g x
      using c'(5) [OF g, of x] F(6) [OF g(1), of x] g(2) True by simp
    moreover have "same_fixed c c'" using same_fixed_trans [OF F(5) c'(3)] .
    moreover have "kc_disk c' = kc_disk c" using c'(4) F(4) by simp
    ultimately show ?thesis using c'(2,6) by blast
  qed
qed

lemma flush_ignore_correct:
  assumes wf: "cache_wf c" and io: "\<forall>n. io n" and f: "f \<noteq> - 1"
  shows "\<exists>c'. flush_key_blocks io alloc disable f FLUSH_IGNORE_CHANGED c = Some (c', False) \<and> cache_wf c' \<and> same_fixed c c' \<and>
    kc_disk c' = kc_disk c \<and> (\<forall>g x. g \<noteq> - 1 \<longrightarrow> kc_view c' g x = (if g = f then kc_disk c f x else kc_view c g x))"
proof -
  let ?c = "c\<lparr>kc_locked := True\<rparr>" and ?ty = FLUSH_IGNORE_CHANGED
  have ok: "cache_ok {} ?c" and lk: "\<not> kc_locked c" using wf by (simp_all add: cache_wf_def)
  have N: "0 < kc_disk_blocks c" using wf by (simp add: cache_wf_def cache_ok_def numbers_ok_def)
  note S = flushingD(7,8) [OF flushing_start [OF ok, of f]]
  obtain c2 where c2: "flush_changed io f ?ty 0 (kc_changed ?c (chain_of f)) [] False ?c = Some (c2, [], False)" "cache_ok {} c2" "same_fixed ?c c2"
    "kc_disk c2 = kc_disk ?c" "\<And>g x. g \<noteq> - 1 \<Longrightarrow> g \<noteq> f \<Longrightarrow> kc_view c2 g x = kc_view ?c g x" "\<And>p. sl_file (kc_block c2 p) = f \<Longrightarrow> \<not> dirty c2 p"
    using forget_changed [OF io f ok S] by blast
  have cl: "\<not> sl_changed (kc_block c2 p)" if "in_memory c2 p" "sl_file (kc_block c2 p) = f" for p
    using c2(6) [OF that(2)] that(1) by (simp add: dirty_def)
  define c3 where "c3 = free_file_blocks f ?ty (kc_files c2 (chain_of f)) c2"
  have m: "p \<in> set (kc_files c2 i) \<longleftrightarrow> in_memory c2 p \<and> \<not> sl_changed (kc_block c2 p) \<and> chain_of (sl_file (kc_block c2 p)) = i"
    and ds: "distinct (kc_files c2 i)" for p i
    using familyD(1) [OF cache_okD(6) [OF c2(2)], of i] familyD(2) [OF cache_okD(6) [OF c2(2)], of p i] by (auto simp: ix_files_def)
  have sub: "set (kc_files c2 (chain_of f)) \<subseteq> {..<kc_blocks_used c2}" using m by (auto simp: in_memory_def)
  note R = free_file_blocks_ok [OF f c2(2) ds [of "chain_of f"] sub cl, of ?ty, folded c3_def]
  have C3: "cache_ok {} c3" "same_view c2 c3" "kc_disk c3 = kc_disk c2" using R by simp_all
  have n3: "sl_file (kc_block c3 p) \<noteq> f" if "dirty c3 p" for p
  proof -
    have i: "in_memory c3 p" using that by (simp add: dirty_def)
    then have "kc_block c3 p = kc_block c2 p" "in_memory c2 p" using R by auto
    then show ?thesis using cl [of p] that by (auto simp: dirty_def)
  qed
  let ?r = "unlock_cache c3"
  have fl: "flush_key_blocks io alloc disable f ?ty c = Some (?r, False)"
    using lk N c2(1) unfolding flush_key_blocks_def lock_cache_def by (simp add: c3_def)
  have "kc_view ?r g x = (if g = f then kc_disk c f x else kc_view c g x)" if g: "g \<noteq> - 1" for g x
  proof (cases "g = f")
    case True
    have "kc_view c3 f x = kc_disk c3 f x" by (rule view_clean [OF C3(1) f]) (use n3 in simp)
    then show ?thesis using True C3(3) c2(4) by (simp add: unlock_cache_def)
  next
    case False
    then show ?thesis using C3(2) c2(5) [OF g False, of x] g by (simp add: same_view_def unlock_cache_def)
  qed
  moreover have "cache_wf ?r" using C3(1) by (simp add: cache_wf_def unlock_cache_def)
  moreover have "same_fixed c ?r" using c2(3) C3(2) lk by (simp add: same_view_def same_fixed_def unlock_cache_def)
  moreover have "kc_disk ?r = kc_disk c" using C3(3) c2(4) by (simp add: unlock_cache_def)
  ultimately show ?thesis using fl by blast
qed

end
