(* ===== verification/KeyCacheStart.thy ===== *)
theory KeyCacheStart
  imports KeyCacheFlush
begin

text \<open>
  Starting the key cache, an example of a cache, and what the cache does when a call of the
  operating system fails.
\<close>

subsection \<open>The number of blocks\<close>

lemma my_bit_log2_le: "0 < n \<Longrightarrow> 2 ^ my_bit_log2 n \<le> n"
proof (induction n rule: my_bit_log2.induct)
  case (1 n)
  show ?case
  proof (cases "1 < n")
    case True
    then have "0 < n div 2" by (simp add: div_greater_zero_iff)
    with 1 True have "2 ^ my_bit_log2 (n div 2) \<le> n div 2" by blast
    then have "2 * 2 ^ my_bit_log2 (n div 2) \<le> n" by linarith
    then show ?thesis using True by (subst my_bit_log2.simps) simp
  next
    case False
    then show ?thesis using 1(2) by (subst my_bit_log2.simps) simp
  qed
qed

lemma my_bit_log2_pow: "my_bit_log2 (2 ^ k) = k"
proof (induction k)
  case 0
  show ?case by (subst my_bit_log2.simps) simp
next
  case (Suc k)
  have "1 < (2::nat) ^ Suc k" by (rule one_less_power) simp_all
  then show ?case using Suc half_pow2 [of k] by (subst my_bit_log2.simps) (simp del: power_Suc)
qed

lemma fit_blocks_fits: "0 < fit_blocks m s h b \<Longrightarrow> fit_blocks m s h b * 80 + 8 * h + fit_blocks m s h b * 2 ^ s \<le> m"
  by (induction b) auto

lemma fit_blocks_ge: "k \<le> b \<Longrightarrow> k * 80 + 8 * h + k * 2 ^ s \<le> m \<Longrightarrow> k \<le> fit_blocks m s h b"
proof (induction b)
  case (Suc b)
  show ?case
  proof (cases "m < Suc b * 80 + 8 * h + Suc b * 2 ^ s")
    case True
    then have "k \<noteq> Suc b" using Suc.prems(2) by auto
    then have "k \<le> fit_blocks m s h b" using Suc by simp
    then show ?thesis using True by simp
  next
    case False
    then show ?thesis using Suc.prems(1) by simp
  qed
qed simp

text \<open>The chains of the hash take at most 20 bytes for a block, so half of the blocks fit.\<close>

lemma alloc_blocks_fit:
  "\<lbrakk>alloc_blocks alloc m s n b = Some (blocks, h); b * (90 + 2 ^ s) \<le> m; 6 \<le> b\<rbrakk> \<Longrightarrow>
    3 \<le> blocks \<and> blocks * 80 + 8 * h + blocks * 2 ^ s \<le> m \<and> blocks \<le> b"
proof (induction alloc m s n b rule: alloc_blocks.induct)
  case (1 alloc m s n b)
  define hb where "hb = (2::nat) ^ (my_bit_log2 (b * 5 div 4) + 1)"
  define k where "k = b div 2"
  define f where "f = fit_blocks m s hb b"
  have "2 ^ my_bit_log2 (b * 5 div 4) \<le> b * 5 div 4" using 1(4) by (intro my_bit_log2_le) simp
  then have h: "8 * hb \<le> 20 * b" by (simp add: hb_def)
  have "k * 80 \<le> 40 * b" "k * 2 ^ s \<le> b * 2 ^ s" by (simp_all add: k_def)
  moreover have "b * (90 + 2 ^ s) = 90 * b + b * 2 ^ s" by (simp add: algebra_simps)
  ultimately have "k * 80 + 8 * hb + k * 2 ^ s \<le> m" using h 1(3) by linarith
  then have kf: "k \<le> f" unfolding f_def by (intro fit_blocks_ge) (simp_all add: k_def)
  have k3: "3 \<le> k" using 1(4) by (simp add: k_def)
  have fb: "f \<le> b" by (simp add: f_def fit_blocks_le)
  show ?case
  proof (cases "alloc n")
    case True
    then have "blocks = f" "h = hb" using 1(2) by (subst (asm) alloc_blocks.simps, simp add: Let_def f_def hb_def)+
    then show ?thesis using kf k3 fb fit_blocks_fits [of m s hb b] by (simp add: f_def)
  next
    case False
    have n8: "\<not> f < 8" and r: "alloc_blocks alloc m s (n + 1) (f div 4 * 3) = Some (blocks, h)"
      using 1(2) False by (subst (asm) alloc_blocks.simps, simp add: Let_def f_def hb_def split: if_splits)+
    have "f div 4 * 3 * (90 + 2 ^ s) \<le> b * (90 + 2 ^ s)" using fb by (intro mult_le_mono1) linarith
    then have "f div 4 * 3 * (90 + 2 ^ s) \<le> m" using 1(3) by (rule order_trans)
    moreover have "6 \<le> f div 4 * 3" using n8 by presburger
    ultimately have "3 \<le> blocks \<and> blocks * 80 + 8 * h + blocks * 2 ^ s \<le> m \<and> blocks \<le> f div 4 * 3"
      by (rule 1(1) [OF hb_def f_def False n8 r])
    then show ?thesis using fb by linarith
  qed
qed

text \<open>
  A cache that is started with its block size a power of two has room for at least three blocks, takes no more
  memory than it was given, and has its invariant, with nothing in memory.
\<close>

lemma init_key_cache_ok:
  assumes c: "\<not> kc_inited c" "\<not> kc_locked c" "kc_block_size c = 2 ^ k" "\<And>p. length (sl_buffer (kc_block c p)) = 2 ^ k"
    and i: "init_key_cache alloc use_mem c = (c', n)" and n: "0 < kc_disk_blocks c'"
  shows "cache_wf c'" "kc_view c' = kc_disk c" "kc_disk c' = kc_disk c" "3 \<le> n" "n = kc_disk_blocks c'"
    "n * (80 + 2 ^ k) + 8 * int (kc_hash_blocks c') \<le> int use_mem" "kc_block_size c' = 2 ^ k"
proof -
  let ?b = "use_mem div (80 + 8 * 5 div 4 + kc_block_size c)"
  have b: "8 \<le> ?b" and a: "alloc_blocks alloc use_mem k 0 ?b \<noteq> None"
    using i n c(1,3) by (auto simp: init_key_cache_def Let_def my_bit_log2_pow split: if_splits option.splits)
  obtain bl h where bl: "alloc_blocks alloc use_mem k 0 ?b = Some (bl, h)" using a by auto
  have "?b * (90 + 2 ^ k) \<le> use_mem" using div_times_less_eq_dividend [of use_mem "90 + 2 ^ k"] c(3) by simp
  from alloc_blocks_fit [OF bl this] b have A: "3 \<le> bl" "bl * 80 + 8 * h + bl * 2 ^ k \<le> use_mem" by auto
  have e: "c' = c\<lparr>kc_inited := True, kc_disk_blocks := int bl, kc_shift := k, kc_hash_blocks := h, kc_hash := \<lambda>_. [], kc_used := [],
                    kc_blocks_used := 0, kc_disk_blocks_used := 0, kc_blocks_changed := 0,
                    kc_w_requests := 0, kc_r_requests := 0, kc_read := 0, kc_write := 0,
                    kc_changed := \<lambda>_. [], kc_files := \<lambda>_. []\<rparr>" "n = int bl"
    using i b bl c(1,3) by (auto simp: init_key_cache_def Let_def my_bit_log2_pow)
  have iu: "in_memory c' p \<longleftrightarrow> False" for p by (simp add: in_memory_def e)
  have ix: "ix_hash c' = (\<lambda>_. None)" "ix_changed c' = (\<lambda>_. None)" "ix_files c' = (\<lambda>_. None)"
    by (simp_all add: fun_eq_iff ix_hash_def ix_changed_def ix_files_def iu)
  have "lists_ok c'" unfolding lists_ok_def ix iu by (simp add: e family_empty)
  moreover have "numbers_ok c'" using A(1) c(3) by (simp add: numbers_ok_def e)
  moreover have "blocks_ok {} c'" using c(3,4) by (simp add: blocks_ok_def iu) (simp add: e)
  ultimately show "cache_wf c'" using c(2) by (simp add: cache_wf_def cache_ok_def e)
  have "search_hash c' = (\<lambda>_ _. None)" by (simp add: fun_eq_iff search_hash_def e)
  then show "kc_view c' = kc_disk c" by (simp add: fun_eq_iff kc_view_def) (simp add: e)
  show "kc_disk c' = kc_disk c" "3 \<le> n" "n = kc_disk_blocks c'" "kc_block_size c' = 2 ^ k" using A(1) c(3) by (simp_all add: e)
  have "int (bl * 80 + 8 * h + bl * 2 ^ k) \<le> int use_mem" using A(2) by (simp only: of_nat_le_iff)
  then show "n * (80 + 2 ^ k) + 8 * int (kc_hash_blocks c') \<le> int use_mem" by (simp add: e algebra_simps)
qed

subsection \<open>Errors\<close>

lemma find_key_block_fixed: "find_key_block io f d c = Some (c', r) \<Longrightarrow> same_fixed c c'"
  unfolding find_key_block_def reuse_block_def unused_block_def my_pwrite_def link_changed_to_file_def link_into_file_blocks_def
    relink_into_file_blocks_def unlink_block_def unlink_hash_def Let_def
  by (auto simp: same_fixed_def split: option.splits list.splits if_splits bind_splits)

lemma mark_fixed:
  "same_fixed c (link_changed_to_file p f c)" "same_fixed c (link_file_to_changed p c)" "same_fixed c (fill_block p bs c)"
  by (simp_all add: same_fixed_def fill_block_def link_changed_to_file_def link_into_file_blocks_def link_file_to_changed_def unlink_block_def Let_def)

lemma write_one_fixed:
  assumes "write_one io f d bs dw c = Some (c', r)"
  shows "same_fixed c c'"
proof -
  obtain c1 np new where c1: "find_key_block io f d c = Some (c1, np, new)"
    using assms by (auto simp: write_one_def bind_eq_Some_conv)
  note F = find_key_block_fixed [OF c1]
  show ?thesis
  proof (cases np)
    case None
    then show ?thesis using assms c1 F by (simp add: write_one_def)
  next
    case (Some p)
    define c2 where "c2 = (if \<not> dw then if sl_changed (kc_block c1 p) then link_changed_to_file p (sl_file (kc_block c1 p)) c1 else c1
      else if \<not> sl_changed (kc_block c1 p) then link_file_to_changed p c1 else c1)"
    have "same_fixed c1 c2" by (simp add: c2_def mark_fixed)
    moreover have "c' = fill_block p bs c2" using assms c1 Some by (simp add: write_one_def Let_def c2_def)
    ultimately show ?thesis using F mark_fixed(3) same_fixed_trans by blast
  qed
qed

lemma write_loop_fixed:
  assumes "write_loop io f d bs dw c = Some y"
  shows "same_fixed c (fst y)"
proof (rule write_loop.raw_induct [where P = "\<lambda>io f d bs dw c y. same_fixed c (fst y)", OF _ assms])
  fix loop io f d bs dw c y
  assume IH: "\<And>io f d bs dw c y. loop io f d bs dw c = Some y \<Longrightarrow> same_fixed c (fst y)"
    and body: "(let read_length = if kc_block_size c < length bs then kc_block_size c else length bs
      in write_one io f d (take read_length bs) dw c \<bind>
         (\<lambda>(c, failed). if failed then Some (c, True)
            else if length bs - read_length \<noteq> 0 then loop io f (d + read_length) (drop read_length bs) dw c else Some (c, False))) = Some y"
  obtain c1 failed where c1: "write_one io f d (take (if kc_block_size c < length bs then kc_block_size c else length bs) bs) dw c = Some (c1, failed)"
    using body by (auto simp: Let_def bind_eq_Some_conv)
  note F = write_one_fixed [OF c1]
  have "fst y = c1 \<or> (\<exists>d bs. loop io f d bs dw c1 = Some y)"
    using body c1 by (auto simp: Let_def split: if_splits)
  then show "same_fixed c (fst y)" using IH [of io f _ _ dw c1 y] F same_fixed_trans [OF F] by auto
qed

text \<open>After an error in a write to the cache, no function of the cache returns.\<close>

lemma write_error_locks:
  assumes w: "key_cache_write io f d bs dw c = Some (c', True)" and n: "0 < kc_disk_blocks c" and dw: "dw"
  shows "kc_locked c'" "0 < kc_disk_blocks c'"
proof -
  let ?c = "c\<lparr>kc_locked := True, kc_w_requests := kc_w_requests c + 1\<rparr>"
  have "\<not> kc_locked c" and "write_loop io f d bs True ?c = Some (c', True)"
    using w n dw by (auto simp: key_cache_write_def lock_cache_def bind_eq_Some_conv split: if_splits)
  from write_loop_fixed [OF this(2), unfolded fst_conv] show "kc_locked c'" "0 < kc_disk_blocks c'" using n by (simp_all add: same_fixed_def)
qed

lemma stuck:
  assumes l: "kc_locked c" and n: "0 < kc_disk_blocks c"
  shows "key_cache_read io f d len c = None" "key_cache_write io f d bs True c = None" "flush_key_blocks io alloc disable f ty c = None"
  using assms by (simp_all add: key_cache_read_def key_cache_write_def flush_key_blocks_def lock_cache_def)

text \<open>A block that could not be read stays in the hash: the next read of it returns what its buffer had.\<close>

lemma failed_read_stays:
  assumes wf: "cache_wf c" and f: "f \<noteq> - 1" and d: "kc_block_size c dvd d" and none: "search_hash c f d = None"
    and free: "int (kc_disk_blocks_used c + 1) \<le> kc_disk_blocks c" and io: "\<not> io (kc_io c)"
  shows "\<exists>c'. key_cache_read io f d (kc_block_size c) c = Some (c', None) \<and>
    (\<forall>io'. \<exists>c''. key_cache_read io' f d (kc_block_size c) c' = Some (c'', Some (sl_buffer (kc_block c (kc_blocks_used c)))))"
proof -
  let ?B = "kc_block_size c" and ?c = "c\<lparr>kc_locked := True, kc_r_requests := kc_r_requests c + 1\<rparr>" and ?p = "kc_blocks_used c"
  have ok: "cache_ok {} ?c" and lk: "\<not> kc_locked c" and N: "0 < kc_disk_blocks c"
    using wf free by (simp_all add: cache_wf_def)
  have sh: "search_hash (c\<lparr>kc_locked := l, kc_r_requests := n\<rparr>) = search_hash c" for l n by (simp add: search_hash_def hash_chain_def fun_eq_iff)
  obtain c1 p where c1: "find_key_block (\<lambda>_. True) f d ?c = Some (c1, Some p, True)" "taken ?c f d p c1"
    using find_key_block_new [OF ok, of "\<lambda>_. True" f d] none sh by auto
  have io1: "find_key_block io f d ?c = Some (c1, Some p, True)" and p: "p = ?p" and i1: "kc_io c1 = kc_io c"
    using c1(1) free none sh by (auto simp: find_key_block_def unused_block_def link_into_file_blocks_def Let_def)
  have T: "kc_block c1 p = (kc_block c p)\<lparr>sl_changed := False, sl_file := f, sl_diskpos := d\<rparr>" "kc_block_size c1 = ?B" "kc_disk_blocks c1 = kc_disk_blocks c"
    "kc_locked c1"
    using takenD [OF c1(2)] by (simp_all add: same_fixed_def)
  let ?c1 = "unlock_cache (c1\<lparr>kc_io := kc_io c1 + 1\<rparr>)"
  have "read_one io f d ?B (c\<lparr>kc_locked := True\<rparr>) = Some (c1\<lparr>kc_io := kc_io c1 + 1\<rparr>, None)"
    using io1 io i1 by (simp add: read_one_def my_pread_def)
  then have "read_loop io f d ?B [] (c\<lparr>kc_locked := True\<rparr>) = Some (c1\<lparr>kc_io := kc_io c1 + 1\<rparr>, None)"
    by (subst read_loop.simps) simp
  then have r1: "key_cache_read io f d ?B c = Some (?c1, None)"
    using N lk by (simp add: key_cache_read_def lock_cache_def)
  show ?thesis
  proof (rule exI, rule conjI, rule r1, rule allI)
    fix io' :: "nat \<Rightarrow> bool"
    let ?c2 = "(c1\<lparr>kc_io := kc_io c1 + 1, kc_locked := True, kc_r_requests := kc_r_requests c1 + 1\<rparr>)"
    have F: "found ?c f d c1 p True"
    proof -
      have d1: "kc_block_size ?c dvd d" using d by simp
      obtain c3 q new where "find_key_block (\<lambda>_. True) f d ?c = Some (c3, Some q, new)" "found ?c f d c3 q new"
        using find_key_block_correct [OF ok _ f d1, of "\<lambda>_. True"] by auto
      with c1(1) show ?thesis by simp
    qed
    then have ok1: "cache_ok {p} c1" "in_memory c1 p" unfolding found_def by simp_all
    then have "search_hash c1 f d = Some p" using search_hash_iff [OF cache_okD(1,3) [OF ok1(1)] f] T(1) by simp
    then have s2: "search_hash ?c2 f d = Some p" by (simp add: search_hash_def hash_chain_def)
    have ok2: "cache_ok {p} ?c2" using ok1 by simp
    obtain c3 where c3: "find_key_block io' f d ?c2 = Some (c3, Some p, False)" "same_cache ?c2 c3"
      using find_key_block_hit [OF ok2 s2 f] by blast
    have "kc_block c3 p = kc_block c1 p" using c3(2) by (simp add: same_cache_def)
    moreover have "length (sl_buffer (kc_block c p)) = ?B" using wf cache_okD(10) by (auto simp: cache_wf_def)
    ultimately have o: "read_one io' f d ?B (c1\<lparr>kc_io := kc_io c1 + 1, kc_locked := True\<rparr>) = Some (c3, Some (sl_buffer (kc_block c p)))"
      using c3(1) T by (simp add: read_one_def)
    have "read_loop io' f d ?B [] (c1\<lparr>kc_io := kc_io c1 + 1, kc_locked := True\<rparr>) = Some (c3, Some (sl_buffer (kc_block c p)))"
      using o T(2) by (subst read_loop.simps) simp
    moreover have "key_cache_read io' f d ?B ?c1 = do { (c, bs) \<leftarrow> read_loop io' f d ?B [] (c1\<lparr>kc_io := kc_io c1 + 1, kc_locked := True\<rparr>); Some (unlock_cache c, bs) }"
      using N T(3) by (simp add: key_cache_read_def lock_cache_def unlock_cache_def)
    ultimately have "key_cache_read io' f d ?B ?c1 = Some (unlock_cache c3, Some (sl_buffer (kc_block c ?p)))" by (simp add: p)
    then show "\<exists>c''. key_cache_read io' f d ?B ?c1 = Some (c'', Some (sl_buffer (kc_block c ?p)))" by blast
  qed
qed

text \<open>When the writes of a flush fail, the blocks are freed all the same, and what was in them is lost.\<close>

lemma write_blocks_failed: "write_blocks (\<lambda>_. False) f ps c e = (c\<lparr>kc_io := kc_io c + length ps\<rparr>, e \<or> ps \<noteq> [])"
  by (induction ps arbitrary: c e) (simp_all add: my_pwrite_def)

lemma flush_cached_failed:
  assumes "int (length pos) < 2 ^ 28"
  shows "\<exists>e. flush_cached_blocks (\<lambda>_. False) f pos c = Some (c\<lparr>kc_io := kc_io c + length pos\<rparr>, e)"
proof -
  have "int (length pos) * int 8 < 2 ^ 31" using assms by simp
  from qsort2_correct [OF total_cmp_sec_link [of c] _ this]
  obtain ps where "qsort2 (cmp_sec_link c) 8 pos = Some ps" "mset ps = mset pos" by auto
  moreover from this have "length ps = length pos" using mset_eq_length by blast
  ultimately show ?thesis by (simp add: flush_cached_blocks_def write_blocks_failed)
qed

lemma lose_changed:
  assumes f: "f \<noteq> - 1"
  shows "\<lbrakk>cache_ok {} c; distinct ps; \<And>p. sl_file (kc_block c p) = f \<Longrightarrow> p \<in> set ps \<longleftrightarrow> dirty c p; int (length pos + length ps) < 2 ^ 28\<rbrakk> \<Longrightarrow>
    \<exists>c' pos' e'. flush_changed (\<lambda>_. False) f FLUSH_RELEASE cap ps pos e c = Some (c', pos', e') \<and> cache_ok {} c' \<and> same_fixed c c' \<and>
      kc_disk c' = kc_disk c \<and> int (length pos') < 2 ^ 28 \<and> (\<forall>p. sl_file (kc_block c' p) = f \<longrightarrow> \<not> dirty c' p)"
proof (induction ps arbitrary: c pos e)
  case Nil
  then show ?case by simp
next
  case (Cons p ps)
  show ?case
  proof (cases "sl_file (kc_block c p) = f")
    case False
    have m: "q \<in> set ps \<longleftrightarrow> dirty c q" if "sl_file (kc_block c q) = f" for q using Cons.prems(3) [OF that] False that by auto
    have "distinct ps" "int (length pos + length ps) < 2 ^ 28" using Cons.prems(2,4) by simp_all
    then show ?thesis using Cons.IH [OF Cons.prems(1) _ m, of pos e] False by simp
  next
    case True
    have p: "in_memory c p" "sl_changed (kc_block c p)" using Cons.prems(3) [OF True] by (simp_all add: dirty_def)
    obtain io pos1 e1 where s: "(if length pos = cap
        then do { (c, failed) \<leftarrow> flush_cached_blocks (\<lambda>_. False) f pos c; Some (c, [], e \<or> failed) } else Some (c, pos, e)) =
        Some (c\<lparr>kc_io := io\<rparr>, pos1, e1)" and n1: "length pos1 \<le> length pos"
    proof (cases "length pos = cap")
      case full: True
      have "int (length pos) < 2 ^ 28" using Cons.prems(4) by simp
      from flush_cached_failed [OF this, of f c] obtain e2 where
        "flush_cached_blocks (\<lambda>_. False) f pos c = Some (c\<lparr>kc_io := kc_io c + length pos\<rparr>, e2)" by blast
      then show ?thesis using that [of "kc_io c + length pos" "[]" "e \<or> e2"] full by simp
    next
      case False
      then show ?thesis using that [of "kc_io c" pos e] by simp
    qed
    let ?c = "c\<lparr>kc_io := io, kc_write := kc_write c + 1\<rparr>"
    have ok: "cache_ok {} ?c" and pu: "in_memory ?c p" using Cons.prems(1) p(1) by (simp_all add: in_memory_def)
    have one: "(if sl_changed (kc_block ?c p) then 1 else 0) = (1::nat)" using p(2) by simp
    define c1 where "c1 = free_block p (?c\<lparr>kc_blocks_changed := kc_blocks_changed ?c - 1\<rparr>)"
    note F = free_block_ok [OF ok pu, unfolded one, folded c1_def]
    have bp: "sl_file (kc_block c1 p) = - 1" by (simp add: c1_def free_block_def unlink_hash_def unlink_block_def Let_def)
    have same: "in_memory ?c = in_memory c" "kc_block ?c = kc_block c" by (simp_all add: in_memory_def fun_eq_iff)
    have bu: "dirty c1 q \<longleftrightarrow> dirty c q \<and> q \<noteq> p" for q using F(2,3) [of q] same by (cases "q = p") (simp_all add: dirty_def)
    have ds: "distinct ps" "p \<notin> set ps" and n2: "int (length (pos1 @ [p]) + length ps) < 2 ^ 28" using Cons.prems(2,4) n1 by simp_all
    have m: "q \<in> set ps \<longleftrightarrow> dirty c1 q" if "sl_file (kc_block c1 q) = f" for q
    proof (cases "q = p")
      case False
      then show ?thesis using Cons.prems(3) [of q] F(3) [OF False] that same by (simp add: bu)
    qed (use that bp f in simp)
    obtain c' pos' e' where c': "flush_changed (\<lambda>_. False) f FLUSH_RELEASE cap ps (pos1 @ [p]) e1 c1 = Some (c', pos', e')" "cache_ok {} c'"
      "same_fixed c1 c'" "kc_disk c' = kc_disk c1" "int (length pos') < 2 ^ 28" "\<forall>p. sl_file (kc_block c' p) = f \<longrightarrow> \<not> dirty c' p"
      using Cons.IH [OF F(1) ds(1) m n2] by blast
    have "flush_changed (\<lambda>_. False) f FLUSH_RELEASE cap (p # ps) pos e c = flush_changed (\<lambda>_. False) f FLUSH_RELEASE cap ps (pos1 @ [p]) e1 c1"
      by (simp add: True s c1_def)
    moreover have "same_fixed c c'" using same_fixed_trans [OF F(5) c'(3)] by (simp add: same_fixed_def)
    ultimately show ?thesis using c' F(4) by auto
  qed
qed

lemma failed_flush_loses:
  assumes wf: "cache_wf c" and f: "f \<noteq> - 1" and n: "kc_disk_blocks c < 2 ^ 28"
  shows "\<exists>c' e c''. flush_key_blocks (\<lambda>_. False) True False f FLUSH_RELEASE c = Some (c', e) \<and>
    flush_key_blocks (\<lambda>_. True) True False f FLUSH_RELEASE c' = Some (c'', False) \<and> kc_disk c'' f = kc_disk c f"
proof -
  let ?c = "c\<lparr>kc_locked := True\<rparr>" and ?ty = FLUSH_RELEASE
  have ok: "cache_ok {} ?c" and lk: "\<not> kc_locked c" using wf by (simp_all add: cache_wf_def)
  have N: "0 < kc_disk_blocks ?c" using wf by (simp add: cache_wf_def cache_ok_def numbers_ok_def)
  note S = flushingD(7,8) [OF flushing_start [OF ok, of f]]
  let ?ps = "kc_changed ?c (chain_of f)"
  have "set ?ps \<subseteq> {..<kc_blocks_used c}"
    using familyD(2) [OF cache_okD(5) [OF ok]] by (auto simp: ix_changed_def in_memory_def split: if_splits)
  then have "card (set ?ps) \<le> kc_blocks_used c" using card_mono [of "{..<kc_blocks_used c}"] by simp
  then have "int (length ?ps) \<le> kc_disk_blocks c"
    using distinct_card [OF S(1)] cache_okD(2) [OF ok] by (simp add: numbers_ok_def)
  then have n0: "int (length ([]::nat list) + length ?ps) < 2 ^ 28" using n by simp
  let ?n = "length (filter (\<lambda>p. sl_file (kc_block ?c p) = f) ?ps)"
  define cap where "cap = (if ?ty = FLUSH_IGNORE_CHANGED then 0 else if ?n \<le> FLUSH_CACHE \<or> \<not> True then FLUSH_CACHE else ?n)"
  obtain c1 pos e where c1: "flush_changed (\<lambda>_. False) f ?ty cap ?ps [] False ?c = Some (c1, pos, e)" "cache_ok {} c1" "same_fixed ?c c1"
    "kc_disk c1 = kc_disk ?c" "int (length pos) < 2 ^ 28" "\<And>p. sl_file (kc_block c1 p) = f \<Longrightarrow> \<not> dirty c1 p"
    using lose_changed [OF f ok S n0] by blast
  obtain c2 e2 where c2: "(if pos \<noteq> [] then flush_cached_blocks (\<lambda>_. False) f pos c1 else Some (c1, False)) = Some (c2, e2)"
    "cache_ok {} c2" "same_fixed c1 c2" "kc_disk c2 = kc_disk c1" "dirty c2 = dirty c1" "kc_block c2 = kc_block c1"
  proof (cases "pos = []")
    case True
    then show ?thesis using that [of c1 False] c1(2) by simp
  next
    case False
    obtain e3 where "flush_cached_blocks (\<lambda>_. False) f pos c1 = Some (c1\<lparr>kc_io := kc_io c1 + length pos\<rparr>, e3)"
      using flush_cached_failed [OF c1(5)] by blast
    then show ?thesis using that [of "c1\<lparr>kc_io := kc_io c1 + length pos\<rparr>" e3] c1(2) False by simp
  qed
  have cl: "\<not> sl_changed (kc_block c2 p)" if "in_memory c2 p" "sl_file (kc_block c2 p) = f" for p
    using c1(6) [of p] that c2(5,6) by (auto simp: dirty_def fun_eq_iff)
  define c3 where "c3 = (if releases ?ty then free_file_blocks f ?ty (kc_files c2 (chain_of f)) c2 else c2)"
  have sub: "set (kc_files c2 (chain_of f)) \<subseteq> {..<kc_blocks_used c2}" and ds: "distinct (kc_files c2 (chain_of f))"
    using familyD [OF cache_okD(6) [OF c2(2)]] by (auto simp: ix_files_def in_memory_def split: if_splits)
  have "c3 = free_file_blocks f ?ty (kc_files c2 (chain_of f)) c2" by (simp add: c3_def)
  with free_file_blocks_ok [OF f c2(2) ds sub cl, of ?ty]
  have C3: "cache_ok {} c3" "same_view c2 c3" "kc_disk c3 = kc_disk c2" by simp_all
  let ?r = "unlock_cache c3"
  have fl: "flush_key_blocks (\<lambda>_. False) True False f ?ty c = Some (?r, e \<or> e2)"
    by (simp only: flush_key_blocks_def lock_cache_def lk if_False Option.bind.bind_lunit N if_True Let_def simp_thms
        cap_def [symmetric, simplified simp_thms] c1(1) prod.case c2(1) c3_def [symmetric])
  have wf3: "cache_wf ?r" using C3(1) by (simp add: cache_wf_def unlock_cache_def)
  have n3: "kc_disk_blocks ?r < 2 ^ 28" using C3(2) c2(3) c1(3) n by (simp add: same_view_def same_fixed_def unlock_cache_def)
  obtain c'' where c'': "flush_key_blocks (\<lambda>_. True) True False f ?ty ?r = Some (c'', False)" "\<And>x. kc_disk c'' f x = kc_view ?r f x"
    using flush_key_blocks_correct [OF wf3 _ f n3, of "\<lambda>_. True" ?ty False True] by auto
  have "kc_view ?r f x = kc_disk c f x" for x
  proof -
    have "kc_view c2 f x = kc_disk c2 f x" by (rule view_clean [OF c2(2) f]) (use cl in \<open>auto simp: dirty_def\<close>)
    then show ?thesis using C3(2) f c2(4) c1(4) by (simp add: same_view_def unlock_cache_def)
  qed
  then have "kc_disk c'' f = kc_disk c f" using c''(2) by (simp add: fun_eq_iff)
  with fl c''(1) show ?thesis by blast
qed

end
