(* ===== verification/KeyCacheStore.thy ===== *)
theory KeyCacheStore
  imports KeyCacheStart
begin

text \<open>
  The key cache as its callers see it: a store of files in which a read returns the bytes of the last writes,
  whatever is in memory. The contract is a locale; the key cache is an instance of it.
\<close>

subsection \<open>Sequences of calls\<close>

datatype request =
    Read int nat nat
  | Write int nat bytes bool
  | Flush int flush_type

text \<open>The calls on plain files, where a flush does nothing.\<close>

primrec plain_step :: "request \<Rightarrow> disk \<Rightarrow> disk \<times> bytes option" where
  "plain_step (Read f d n) dk = (dk, pread dk f d n)"
| "plain_step (Write f d bs dont_write) dk = (pwrite dk f d bs, Some [])"
| "plain_step (Flush f ty) dk = (dk, Some [])"

primrec plain_run :: "request list \<Rightarrow> disk \<Rightarrow> disk \<times> bytes option list" where
  "plain_run [] dk = (dk, [])"
| "plain_run (r # rs) dk =
     (let (dk, a) = plain_step r dk; (dk, as) = plain_run rs dk in (dk, a # as))"

text \<open>The calls on a store; a write and a flush return nothing when they succeed, and None otherwise.\<close>

primrec store_step ::
  "(int \<Rightarrow> nat \<Rightarrow> nat \<Rightarrow> 's \<Rightarrow> ('s \<times> bytes option) option) \<Rightarrow> (int \<Rightarrow> nat \<Rightarrow> bytes \<Rightarrow> bool \<Rightarrow> 's \<Rightarrow> ('s \<times> bool) option) \<Rightarrow>
     (int \<Rightarrow> flush_type \<Rightarrow> 's \<Rightarrow> ('s \<times> bool) option) \<Rightarrow> request \<Rightarrow> 's \<Rightarrow> ('s \<times> bytes option) option" where
  "store_step rd wr fl (Read f d n) s = rd f d n s"
| "store_step rd wr fl (Write f d bs dont_write) s = map_option (map_prod id (\<lambda>e. if e then None else Some [])) (wr f d bs dont_write s)"
| "store_step rd wr fl (Flush f ty) s = map_option (map_prod id (\<lambda>e. if e then None else Some [])) (fl f ty s)"

primrec store_run ::
  "(int \<Rightarrow> nat \<Rightarrow> nat \<Rightarrow> 's \<Rightarrow> ('s \<times> bytes option) option) \<Rightarrow> (int \<Rightarrow> nat \<Rightarrow> bytes \<Rightarrow> bool \<Rightarrow> 's \<Rightarrow> ('s \<times> bool) option) \<Rightarrow>
     (int \<Rightarrow> flush_type \<Rightarrow> 's \<Rightarrow> ('s \<times> bool) option) \<Rightarrow> request list \<Rightarrow> 's \<Rightarrow> ('s \<times> bytes option list) option" where
  "store_run rd wr fl [] s = Some (s, [])"
| "store_run rd wr fl (r # rs) s = do {
     (s, a) \<leftarrow> store_step rd wr fl r s;
     (s, as) \<leftarrow> store_run rd wr fl rs s;
     Some (s, a # as)
   }"

definition cache_run :: "(nat \<Rightarrow> bool) \<Rightarrow> request list \<Rightarrow> key_cache \<Rightarrow> (key_cache \<times> bytes option list) option" where
  "cache_run io = store_run (key_cache_read io) (key_cache_write io) (flush_key_blocks io True False)"

text \<open>
  The calls the tables make: whole blocks, at positions that are multiples of the block size; a read is of
  bytes that are there, and one block at a time is written through.
\<close>

definition block_range :: "nat \<Rightarrow> int \<Rightarrow> nat \<Rightarrow> nat \<Rightarrow> bool" where
  "block_range bs f d n \<longleftrightarrow> f \<noteq> - 1 \<and> bs dvd d \<and> bs dvd n \<and> n \<noteq> 0"

primrec valid :: "nat \<Rightarrow> disk \<Rightarrow> request \<Rightarrow> bool" where
  "valid bs dk (Read f d n) \<longleftrightarrow> block_range bs f d n \<and> pread dk f d n \<noteq> None"
| "valid bs dk (Write f d xs dont_write) \<longleftrightarrow> block_range bs f d (length xs) \<and> (dont_write \<or> length xs = bs)"
| "valid bs dk (Flush f ty) \<longleftrightarrow> f \<noteq> - 1 \<and> ty \<noteq> FLUSH_IGNORE_CHANGED"

primrec valid_run :: "nat \<Rightarrow> disk \<Rightarrow> request list \<Rightarrow> bool" where
  "valid_run bs dk [] \<longleftrightarrow> True"
| "valid_run bs dk (r # rs) \<longleftrightarrow> valid bs dk r \<and> valid_run bs (fst (plain_step r dk)) rs"

definition agree :: "disk \<Rightarrow> disk \<Rightarrow> bool" where
  "agree v dk \<longleftrightarrow> (\<forall>g x. g \<noteq> - 1 \<longrightarrow> v g x = dk g x)"

lemma agree_pread: "agree v dk \<Longrightarrow> f \<noteq> - 1 \<Longrightarrow> pread v f d n = pread dk f d n"
  by (simp add: agree_def pread_def)

lemma agree_pwrite: "agree v dk \<Longrightarrow> agree (pwrite v f d xs) (pwrite dk f d xs)"
  by (simp add: agree_def pwrite_simp)

lemma agree_trans: "agree u v \<Longrightarrow> agree v w \<Longrightarrow> agree u w"
  by (simp add: agree_def)

subsection \<open>The contract\<close>

locale block_store =
  fixes bs :: nat
    and inv :: "'s \<Rightarrow> bool"
    and view :: "'s \<Rightarrow> disk"
    and rd :: "int \<Rightarrow> nat \<Rightarrow> nat \<Rightarrow> 's \<Rightarrow> ('s \<times> bytes option) option"
    and wr :: "int \<Rightarrow> nat \<Rightarrow> bytes \<Rightarrow> bool \<Rightarrow> 's \<Rightarrow> ('s \<times> bool) option"
    and fl :: "int \<Rightarrow> flush_type \<Rightarrow> 's \<Rightarrow> ('s \<times> bool) option"
  assumes read_law: "inv s \<Longrightarrow> block_range bs f d n \<Longrightarrow> pread (view s) f d n = Some xs \<Longrightarrow>
      \<exists>s'. rd f d n s = Some (s', Some xs) \<and> inv s' \<and> agree (view s') (view s)"
    and write_law: "inv s \<Longrightarrow> block_range bs f d (length xs) \<Longrightarrow> dont_write \<or> length xs = bs \<Longrightarrow>
      \<exists>s'. wr f d xs dont_write s = Some (s', False) \<and> inv s' \<and> agree (view s') (pwrite (view s) f d xs)"
    and flush_law: "inv s \<Longrightarrow> f \<noteq> - 1 \<Longrightarrow> ty \<noteq> FLUSH_IGNORE_CHANGED \<Longrightarrow>
      \<exists>s'. fl f ty s = Some (s', False) \<and> inv s' \<and> agree (view s') (view s)"
begin

lemma step_simulates:
  assumes "inv s" "agree (view s) dk" "valid bs dk r"
  shows "\<exists>s'. store_step rd wr fl r s = Some (s', snd (plain_step r dk)) \<and> inv s' \<and> agree (view s') (fst (plain_step r dk))"
proof (cases r)
  case (Read f d n)
  then obtain xs where "block_range bs f d n" "pread dk f d n = Some xs" using assms(3) by auto
  moreover from this have "pread (view s) f d n = Some xs" using agree_pread [OF assms(2)] by (simp add: block_range_def)
  ultimately show ?thesis using read_law [OF assms(1), of f d n xs] agree_trans [OF _ assms(2)] Read by auto
next
  case (Write f d xs dw)
  then show ?thesis using write_law [OF assms(1), of f d xs dw] assms(3) agree_trans [OF _ agree_pwrite [OF assms(2)]] by fastforce
next
  case (Flush f ty)
  then show ?thesis using flush_law [OF assms(1), of f ty] assms(3) agree_trans [OF _ assms(2)] by fastforce
qed

lemma run_simulates:
  "\<lbrakk>inv s; agree (view s) dk; valid_run bs dk rs\<rbrakk> \<Longrightarrow>
    \<exists>s'. store_run rd wr fl rs s = Some (s', snd (plain_run rs dk)) \<and> inv s' \<and> agree (view s') (fst (plain_run rs dk))"
proof (induction rs arbitrary: s dk)
  case Nil
  then show ?case by simp
next
  case (Cons r rs)
  then have v: "valid bs dk r" "valid_run bs (fst (plain_step r dk)) rs" by simp_all
  obtain s1 where s1: "store_step rd wr fl r s = Some (s1, snd (plain_step r dk))" "inv s1" "agree (view s1) (fst (plain_step r dk))"
    using step_simulates [OF Cons.prems(1,2) v(1)] by blast
  from Cons.IH [OF s1(2,3) v(2)] show ?case using s1(1) by (auto simp: case_prod_unfold Let_def)
qed

end

definition cache_inv :: "nat \<Rightarrow> key_cache \<Rightarrow> bool" where
  "cache_inv bs c \<longleftrightarrow> cache_wf c \<and> kc_block_size c = bs \<and> kc_disk_blocks c < 2 ^ 28"

interpretation kc: block_store bs "cache_inv bs" kc_view "key_cache_read (\<lambda>_. True)" "key_cache_write (\<lambda>_. True)"
  "flush_key_blocks (\<lambda>_. True) True False" for bs
proof (unfold_locales, goal_cases)
  case (1 c f d n xs)
  then show ?case using key_cache_read_correct [of c "\<lambda>_. True" f d n xs]
    by (auto simp: cache_inv_def block_range_def same_view_def same_fixed_def agree_def)
next
  case (2 c f d xs dw)
  then show ?case using key_cache_write_correct [of c "\<lambda>_. True" f d xs dw]
    by (auto simp: cache_inv_def block_range_def same_fixed_def agree_def)
next
  case (3 c f ty)
  then show ?case using flush_key_blocks_correct [of c "\<lambda>_. True" f ty False True]
    by (auto simp: cache_inv_def same_view_def same_fixed_def agree_def)
qed

lemma cache_run_correct:
  assumes c: "cache_wf c" "kc_disk_blocks c < 2 ^ 28" and v: "valid_run (kc_block_size c) (kc_view c) rs"
  shows "\<exists>c'. cache_run (\<lambda>_. True) rs c = Some (c', snd (plain_run rs (kc_view c))) \<and> cache_wf c' \<and>
    agree (kc_view c') (fst (plain_run rs (kc_view c)))"
  using kc.run_simulates [of "kc_block_size c" c "kc_view c" rs] assms by (auto simp: cache_inv_def agree_def cache_run_def)

text \<open>After a flush of a file, the file itself has what plain files would have.\<close>

lemma cache_run_flush_correct:
  assumes c: "cache_wf c" "kc_disk_blocks c < 2 ^ 28" and v: "valid_run (kc_block_size c) (kc_view c) rs"
    and f: "f \<noteq> - 1" "ty \<noteq> FLUSH_IGNORE_CHANGED"
  shows "\<exists>c' c''. cache_run (\<lambda>_. True) rs c = Some (c', snd (plain_run rs (kc_view c))) \<and>
    flush_key_blocks (\<lambda>_. True) True False f ty c' = Some (c'', False) \<and> kc_disk c'' f = fst (plain_run rs (kc_view c)) f"
proof -
  obtain c' where c': "cache_run (\<lambda>_. True) rs c = Some (c', snd (plain_run rs (kc_view c)))" "cache_inv (kc_block_size c) c'"
    "agree (kc_view c') (fst (plain_run rs (kc_view c)))"
    using kc.run_simulates [of "kc_block_size c" c "kc_view c" rs] assms by (auto simp: cache_inv_def agree_def cache_run_def)
  have wf: "cache_wf c'" "kc_disk_blocks c' < 2 ^ 28" using c'(2) by (simp_all add: cache_inv_def)
  obtain c'' where "flush_key_blocks (\<lambda>_. True) True False f ty c' = Some (c'', False)" "\<forall>x. kc_disk c'' f x = kc_view c' f x"
    using flush_key_blocks_correct [OF wf(1) _ f(1) wf(2) f(2), of "\<lambda>_. True" False True] by auto
  then show ?thesis using c'(1,3) f(1) by (auto simp: agree_def fun_eq_iff)
qed

subsection \<open>An example\<close>

text \<open>A cache of eight blocks of one byte, for files of 100 bytes.\<close>

definition memory :: key_cache where
  "memory = \<lparr>kc_inited = False, kc_disk_blocks = 0, kc_disk_blocks_used = 0, kc_blocks_used = 0, kc_hash_blocks = 0, kc_shift = 0,
     kc_block_size = 1, kc_block = (\<lambda>_. \<lparr>sl_file = 0, sl_diskpos = 0, sl_buffer = [0], sl_changed = False\<rparr>), kc_hash = (\<lambda>_. []), kc_used = [],
     kc_changed = (\<lambda>_. []), kc_files = (\<lambda>_. []), kc_blocks_changed = 0, kc_w_requests = 0, kc_write = 0, kc_r_requests = 0, kc_read = 0,
     kc_locked = False, kc_disk = (\<lambda>f i. if i < 100 then Some (word_of_nat i) else None), kc_io = 0\<rparr>"

definition started :: key_cache where
  "started = fst (init_key_cache (\<lambda>_. True) 800 memory)"

lemma started_blocks: "kc_disk_blocks started = 8" "snd (init_key_cache (\<lambda>_. True) 800 memory) = 8"
  by code_simp+

lemma started_ok: "cache_wf started" "kc_block_size started = 1" "kc_view started = kc_disk memory" "kc_disk started = kc_disk memory"
proof -
  have m: "\<not> kc_inited memory" "\<not> kc_locked memory" "kc_block_size memory = 2 ^ 0" "length (sl_buffer (kc_block memory p)) = 2 ^ 0" for p
    by (simp_all add: memory_def)
  have i: "init_key_cache (\<lambda>_. True) 800 memory = (started, 8)" using started_blocks(2) by (simp add: started_def prod_eq_iff)
  have n: "0 < kc_disk_blocks started" using started_blocks by simp
  note S = init_key_cache_ok [OF m i n]
  show "cache_wf started" "kc_block_size started = 1" "kc_view started = kc_disk memory" "kc_disk started = kc_disk memory"
    using S(1-3,7) by simp_all
qed

text \<open>The cache with a changed block in each place, the oldest at position 1.\<close>

definition filled :: key_cache where
  "filled = fst (the (key_cache_write (\<lambda>_. True) 3 1 [71, 72, 73, 74, 75, 76, 77, 78] True started))"

lemma filled_blocks: "kc_disk_blocks filled = 8" "kc_blocks_used filled = 8"
  "map_option snd (key_cache_write (\<lambda>_. True) 3 1 [71, 72, 73, 74, 75, 76, 77, 78] True started) = Some False"
  by code_simp+

lemma filled_ok: "cache_wf filled" "kc_view filled 3 1 = Some 71" "kc_disk filled 3 1 = Some 1"
proof -
  have "block_range 1 3 1 8" by (simp add: block_range_def)
  then obtain c where c: "key_cache_write (\<lambda>_. True) 3 1 [71, 72, 73, 74, 75, 76, 77, 78] True started = Some (c, False)" "cache_wf c"
    "\<forall>g x. g \<noteq> - 1 \<longrightarrow> kc_view c g x = pwrite (kc_view started) 3 1 [71, 72, 73, 74, 75, 76, 77, 78] g x"
    using key_cache_write_correct [OF started_ok(1), of "\<lambda>_. True" 3 1 "[71, 72, 73, 74, 75, 76, 77, 78]" True] started_ok(2) by auto
  then have "filled = c" by (simp add: filled_def)
  with c show "cache_wf filled" "kc_view filled 3 1 = Some 71" by (simp_all add: pwrite_def)
  show "kc_disk filled 3 1 = Some 1" by code_simp
qed

text \<open>With the disk failing, the next write has to write out the oldest block, and cannot.\<close>

lemma filled_write_fails: "map_option snd (key_cache_write (\<lambda>_. False) 3 9 [79] True filled) = Some True"
  by code_simp

text \<open>
  A changed block of position 1 is the oldest when two blocks are written through at 0: the file gets both, then
  the old block is written out over the second to make room for the first, and the new byte 89 is only in memory,
  in a block that is not changed. After a flush that succeeds the file has the old byte 77.
\<close>

lemma write_through_overwritten:
  "do { (c, _) \<leftarrow> key_cache_write (\<lambda>_. True) 3 1 [77] True started; (c, _) \<leftarrow> key_cache_read (\<lambda>_. True) 3 10 7 c;
     (c, failed) \<leftarrow> key_cache_write (\<lambda>_. True) 3 0 [88, 89] False c; (c, failed') \<leftarrow> flush_key_blocks (\<lambda>_. True) True False 3 FLUSH_RELEASE c;
     Some (failed, failed', kc_disk c 3 0, kc_disk c 3 1) } = Some (False, False, Some 88, Some 77)"
  by code_simp

end
