(* ===== verification/IntConv.thy ===== *)
theory IntConv
  imports Prelude "HOL-Library.Signed_Division"
begin

text \<open>
  Integers as text: \<open>int2str\<close> and \<open>int10_to_str\<close> (strings/int2str.c) and \<open>str2int\<close> (strings/str2int.c).

  A \<open>long\<close> has 64 bits; it is an int, and the result of arithmetic that may leave its range is brought
  back by \<open>long_of\<close>. A string that ends with a null byte is the list of the bytes before it; reading at
  its end gives a byte that is no digit, sign or space. \<open>isspace\<close> is the test of the character set.
\<close>

definition long_of :: "int \<Rightarrow> int" where
  "long_of v = sint (word_of_int v :: ulong)"

definition ulong_of :: "int \<Rightarrow> nat" where
  "ulong_of v = unat (word_of_int v :: ulong)"

definition LONG_MAX :: int where "LONG_MAX = 9223372036854775807"

definition LONG_MIN :: int where "LONG_MIN = - 9223372036854775808"

subsection \<open>Writing\<close>

definition dig_vec :: "uchar list" where
  "dig_vec = map of_nat ([48..<58] @ [65..<91])"

text \<open>
  The loop \<open>while (val != 0)\<close>, which puts digits in front of those in the buffer. The first division makes
  \<open>val\<close> positive as a \<open>long\<close>; the radix is at least 2.
\<close>

function digits_loop :: "nat \<Rightarrow> nat \<Rightarrow> uchar list \<Rightarrow> uchar list" where
  "digits_loop radix val p =
     (if val \<noteq> 0 \<and> 2 \<le> radix
      then (let new_val = val div radix in digits_loop radix new_val (dig_vec ! (val - new_val * radix) # p))
      else p)"
  by pat_completeness auto
termination by (relation "measure (\<lambda>(_, val, _). val)") auto

declare digits_loop.simps [simp del]

text \<open>The result is what is written before the null byte, or null.\<close>

definition int2str :: "int \<Rightarrow> int \<Rightarrow> uchar list option" where
  "int2str val radix =
     (if radix < 0 \<and> (radix < - 36 \<or> - 2 < radix) then None
      else if \<not> radix < 0 \<and> (36 < radix \<or> radix < 2) then None
      else (let (dst, val) = (if radix < 0 \<and> val < 0 then ([45], long_of (- val)) else ([], val));
                radix = nat (if radix < 0 then - radix else radix);
                new_val = ulong_of val div radix
            in Some (dst @ digits_loop radix new_val [dig_vec ! (ulong_of val - new_val * radix)])))"

text \<open>The loop of \<open>int10_to_str\<close>, which makes a digit by adding to \<open>'0'\<close>.\<close>

fun digits10_loop :: "nat \<Rightarrow> uchar list \<Rightarrow> uchar list" where
  "digits10_loop val p =
     (if val \<noteq> 0 then (let new_val = val div 10 in digits10_loop new_val ((48 + of_nat (val - new_val * 10)) # p)) else p)"

declare digits10_loop.simps [simp del]

definition int10_to_str :: "int \<Rightarrow> int \<Rightarrow> uchar list" where
  "int10_to_str val radix =
     (let (dst, val) = (if radix < 0 \<and> val < 0 then ([45], long_of (- val)) else ([], val));
          new_val = ulong_of val div 10
      in dst @ digits10_loop new_val [48 + of_nat (ulong_of val - new_val * 10)])"

text \<open>
  \<open>longlong2str\<close> and \<open>longlong10_to_str\<close> (strings/longlong2str.c), which divide as unsigned numbers until the rest is a
  positive \<open>long\<close>.
\<close>

function longlong_loop :: "nat \<Rightarrow> nat \<Rightarrow> uchar list \<Rightarrow> uchar list" where
  "longlong_loop radix val p =
     (if LONG_MAX < int val \<and> 2 \<le> radix
      then (let quo = val div radix; rem = val - quo * radix in longlong_loop radix quo (dig_vec ! rem # p))
      else digits_loop radix val p)"
  by pat_completeness auto
termination by (relation "measure (\<lambda>(_, val, _). val)") (auto simp: LONG_MAX_def)

declare longlong_loop.simps [simp del]

definition longlong2str :: "int \<Rightarrow> int \<Rightarrow> uchar list option" where
  "longlong2str val radix =
     (if radix < 0 \<and> (radix < - 36 \<or> - 2 < radix) then None
      else if \<not> radix < 0 \<and> (36 < radix \<or> radix < 2) then None
      else (let (dst, val) = (if radix < 0 \<and> val < 0 then ([45], long_of (- val)) else ([], val));
                radix = nat (if radix < 0 then - radix else radix)
            in Some (if val = 0 then dst @ [48] else dst @ longlong_loop radix (ulong_of val) [])))"

definition longlong10_to_str :: "int \<Rightarrow> int \<Rightarrow> uchar list" where
  "longlong10_to_str val radix =
     (let (dst, val) = (if radix < 0 \<and> val < 0 then ([45], long_of (- val)) else ([], val))
      in if val = 0 then dst @ [48] else dst @ longlong_loop 10 (ulong_of val) [])"

definition llstr :: "int \<Rightarrow> uchar list option" where
  "llstr val = longlong2str val (- 10)"

text \<open>The interface of \<open>itoa\<close>: radix 10 is signed, any other is not.\<close>

definition my_itoa :: "int \<Rightarrow> int \<Rightarrow> uchar list option" where
  "my_itoa val radix = int2str val (if radix = 10 then - 10 else radix)"

definition my_ltoa :: "int \<Rightarrow> int \<Rightarrow> uchar list option" where
  "my_ltoa val radix = int2str val (if radix = 10 then - 10 else radix)"

subsection \<open>Reading\<close>

datatype errno = EDOM | ERANGE

definition char_val :: "uchar \<Rightarrow> int" where
  "char_val X =
     (if 48 \<le> X \<and> X \<le> 57 then uint X - 48
      else if 65 \<le> X \<and> X \<le> 90 then uint X - 65 + 10
      else if 97 \<le> X \<and> X \<le> 122 then uint X - 97 + 10
      else 127)"

text \<open>The loop over the digits, at most 20; the result has their values and the rest of the string.\<close>

fun read_digits :: "int \<Rightarrow> nat \<Rightarrow> uchar list \<Rightarrow> int list \<times> uchar list" where
  "read_digits radix n [] = ([], [])"
| "read_digits radix n (c # src) =
     (if char_val c < radix \<and> n < 20
      then (let (ds, src) = read_digits radix (n + 1) src in (char_val c # ds, src))
      else ([], c # src))"

text \<open>
  The loop over the values from the last to the first, and the first after it. The division rounds
  to zero, as that of C.
\<close>

fun convert :: "int \<Rightarrow> int list \<Rightarrow> int \<Rightarrow> int \<Rightarrow> int \<Rightarrow> int option" where
  "convert radix [] limit sofar scale = Some sofar"
| "convert radix [d] limit sofar scale = (if - d < limit then None else Some (long_of (sofar + d * scale)))"
| "convert radix (d # ds) limit sofar scale =
     (if - d < limit then None
      else convert radix ds ((limit + d) sdiv radix) (long_of (sofar + d * scale)) (long_of (scale * radix)))"

definition str2int :: "(uchar \<Rightarrow> bool) \<Rightarrow> uchar list \<Rightarrow> int \<Rightarrow> int \<Rightarrow> int \<Rightarrow> errno + int \<times> uchar list" where
  "str2int isspace src radix lower upper =
     (if radix < 2 \<or> 36 < radix then Inl EDOM
      else (let limit = (if 0 < lower then - lower else lower);
                scale = (if 0 < upper then - upper else upper);
                limit = (if scale < limit then scale else limit);
                src = dropWhile isspace src;
                (sign, src) = (case src of
                    [] \<Rightarrow> (- 1, [])
                  | c # s \<Rightarrow> if c = 43 then (- 1, s) else if c = 45 then (1 :: int, s) else (- 1, c # s));
                start = src;
                src = dropWhile (\<lambda>c. c = 48) src;
                (digits, src) = read_digits radix 0 src
            in if length start = length src then Inl EDOM
               else (case convert radix (rev digits) limit 0 (- 1) of
                   None \<Rightarrow> Inl ERANGE
                 | Some sofar \<Rightarrow>
                     if sign < 0
                     then if sofar < - LONG_MAX \<or> upper < - sofar then Inl ERANGE else Inr (- sofar, src)
                     else if sofar < lower then Inl ERANGE else Inr (sofar, src))))"

text \<open>\<open>atoi\<close> and \<open>atol\<close>, with 0 for what is not a number in range.\<close>

definition my_atoi :: "(uchar \<Rightarrow> bool) \<Rightarrow> uchar list \<Rightarrow> int" where
  "my_atoi isspace src = (case str2int isspace src 10 (- 2147483648) 2147483647 of Inl _ \<Rightarrow> 0 | Inr (val, _) \<Rightarrow> val)"

definition my_atol :: "(uchar \<Rightarrow> bool) \<Rightarrow> uchar list \<Rightarrow> int" where
  "my_atol isspace src = (case str2int isspace src 10 LONG_MIN LONG_MAX of Inl _ \<Rightarrow> 0 | Inr (val, _) \<Rightarrow> val)"

subsection \<open>The value of digits\<close>

definition num_value :: "int \<Rightarrow> int list \<Rightarrow> int" where
  "num_value radix ds = foldl (\<lambda>a d. a * radix + d) 0 ds"

definition low_value :: "int \<Rightarrow> int list \<Rightarrow> int" where
  "low_value radix ds = foldr (\<lambda>d a. d + radix * a) ds 0"

lemma low_value_simps [simp]:
  "low_value radix [] = 0" "low_value radix (d # ds) = d + radix * low_value radix ds"
  by (simp_all add: low_value_def)

lemma low_value_rev: "low_value radix (rev ds) = num_value radix ds"
  unfolding low_value_def num_value_def foldr_conv_foldl rev_rev_ident by (intro foldl_cong refl) simp

lemma low_value_nonneg: "0 \<le> radix \<Longrightarrow> \<forall>d \<in> set ds. 0 \<le> d \<Longrightarrow> 0 \<le> low_value radix ds"
  by (induction ds) auto

lemma long_of_mod: "long_of v mod 2 ^ 64 = v mod 2 ^ 64"
  unfolding long_of_def sint_sbintrunc' by (simp add: signed_take_bit_eq_take_bit_minus flip: take_bit_eq_mod) (simp add: take_bit_diff [symmetric] take_bit_eq_mod mod_diff_left_eq)

lemma long_of_id: "- (2 ^ 63) \<le> v \<Longrightarrow> v < 2 ^ 63 \<Longrightarrow> long_of v = v"
  unfolding long_of_def sint_sbintrunc' by (intro signed_take_bit_int_eq_self) simp_all

lemma long_of_cong: "v mod 2 ^ 64 = w mod 2 ^ 64 \<Longrightarrow> long_of v = long_of w"
proof -
  assume "v mod 2 ^ 64 = w mod 2 ^ 64"
  then have "word_of_int v = (word_of_int w :: ulong)" by (simp add: word_of_int_eq_iff take_bit_eq_mod)
  then show ?thesis by (simp add: long_of_def)
qed

lemma long_of_arith: "long_of (long_of a + d * long_of b) = long_of (a + d * b)" "long_of (long_of a * r) = long_of (a * r)"
proof -
  show "long_of (long_of a + d * long_of b) = long_of (a + d * b)"
    by (rule long_of_cong) (metis long_of_mod mod_add_cong mod_mult_right_eq)
  show "long_of (long_of a * r) = long_of (a * r)"
    by (rule long_of_cong) (metis long_of_mod mod_mult_left_eq)
qed

lemma sdiv_nonpos: "a \<le> 0 \<Longrightarrow> 0 < r \<Longrightarrow> a sdiv r = - ((- a) div (r::int))"
  by (cases "a = 0") (simp_all add: signed_divide_int_def)

lemma le_div_int:
  assumes r: "0 < (r::int)"
  shows "a \<le> x div r \<longleftrightarrow> a * r \<le> x"
proof
  assume "a \<le> x div r"
  then have "a * r \<le> x div r * r" using r by (intro mult_right_mono) simp_all
  also have "\<dots> \<le> x" using r pos_mod_sign [OF r, of x] div_mult_mod_eq [of x r] by linarith
  finally show "a * r \<le> x" .
next
  assume "a * r \<le> x"
  then have "a * r div r \<le> x div r" using r by (intro zdiv_mono1)
  then show "a \<le> x div r" using r by simp
qed

text \<open>The conversion is exact and fails exactly when the value is beyond the limit.\<close>

lemma convert_correct:
  assumes r: "2 \<le> radix"
  shows "\<lbrakk>\<forall>d \<in> set ds. 0 \<le> d; limit \<le> 0\<rbrakk> \<Longrightarrow>
    convert radix ds limit (long_of a) (long_of b) = (if low_value radix ds \<le> - limit then Some (long_of (a + low_value radix ds * b)) else None)"
proof (induction ds arbitrary: limit a b)
  case Nil
  then show ?case by simp
next
  case (Cons d ds)
  show ?case
  proof (cases ds)
    case Nil
    then show ?thesis by (auto simp: long_of_arith)
  next
    case (Cons d' ds')
    let ?L = "low_value radix ds"
    have L: "0 \<le> ?L" using Cons.prems(1) r low_value_nonneg [of radix ds] by simp
    then have rL: "0 \<le> radix * ?L" using r by simp
    show ?thesis
    proof (cases "- d < limit")
      case True
      then have "\<not> d + radix * ?L \<le> - limit" using rL by linarith
      then show ?thesis using True Cons by simp
    next
      case False
      then have neg: "limit + d \<le> 0" by simp
      have "(limit + d) sdiv radix \<le> 0" using sdiv_nonpos [OF neg, of radix] r neg by (simp add: pos_imp_zdiv_nonneg_iff)
      moreover have "\<forall>d \<in> set ds. 0 \<le> d" using Cons.prems(1) by simp
      ultimately have I: "convert radix ds ((limit + d) sdiv radix) (long_of (a + d * b)) (long_of (b * radix)) =
          (if ?L \<le> - ((limit + d) sdiv radix) then Some (long_of (a + d * b + ?L * (b * radix))) else None)"
        by (intro Cons.IH)
      have "?L \<le> - ((limit + d) sdiv radix) \<longleftrightarrow> ?L \<le> (- (limit + d)) div radix" using sdiv_nonpos [OF neg, of radix] r by simp
      also have "\<dots> \<longleftrightarrow> ?L * radix \<le> - (limit + d)" using r by (intro le_div_int) simp
      also have "\<dots> \<longleftrightarrow> d + radix * ?L \<le> - limit" by (simp add: algebra_simps) linarith
      finally have iff: "?L \<le> - ((limit + d) sdiv radix) \<longleftrightarrow> d + radix * ?L \<le> - limit" .
      have e: "a + d * b + ?L * (b * radix) = a + (d + radix * ?L) * b" by (simp add: algebra_simps)
      have "convert radix (d # ds) limit (long_of a) (long_of b) =
          convert radix ds ((limit + d) sdiv radix) (long_of (a + d * b)) (long_of (b * radix))"
        using False by (simp add: Cons long_of_arith)
      then show ?thesis unfolding low_value_simps by (simp only: I iff e)
    qed
  qed
qed

subsection \<open>Reading a number\<close>

text \<open>What a string says: the value and the rest of the string, or None if there are no digits.\<close>

definition split_sign :: "uchar list \<Rightarrow> int \<times> uchar list" where
  "split_sign s = (case s of [] \<Rightarrow> (1, []) | c # s' \<Rightarrow> if c = 43 then (1, s') else if c = 45 then (- 1, s') else (1, s))"

definition parse_number :: "(uchar \<Rightarrow> bool) \<Rightarrow> int \<Rightarrow> uchar list \<Rightarrow> (int \<times> uchar list) option" where
  "parse_number isspace radix src =
     (let (sg, s) = split_sign (dropWhile isspace src); digit = (\<lambda>c. char_val c < radix)
      in if takeWhile digit s = [] then None
         else Some (sg * num_value radix (map char_val (takeWhile digit s)), dropWhile digit s))"

lemma char_val_nonneg: "0 \<le> char_val c"
  by (auto simp: char_val_def word_le_def)

lemma char_val_zero: "char_val c = 0 \<longleftrightarrow> c = 48"
  by (auto simp: char_val_def word_le_def) (simp add: word_uint_eq_iff)

lemma read_digits_eq:
  "read_digits radix n src =
     (let ds = take (20 - n) (takeWhile (\<lambda>c. char_val c < radix) src) in (map char_val ds, drop (length ds) src))"
proof (induction radix n src rule: read_digits.induct)
  case (2 radix n c src)
  have "n < 20 \<Longrightarrow> 20 - n = Suc (19 - n)" by simp
  then show ?case using 2 by (auto simp: Let_def)
qed simp

lemma num_value_simps:
  "num_value radix [] = 0" "num_value radix (ds @ [d]) = num_value radix ds * radix + d"
  by (simp_all add: num_value_def)

lemma num_value_append: "num_value radix (ds @ es) = num_value radix ds * radix ^ length es + num_value radix es"
proof (induction es rule: rev_induct)
  case (snoc e es)
  show ?case unfolding append_assoc [symmetric] num_value_simps snoc by (simp add: algebra_simps)
qed (simp add: num_value_simps)

lemma num_value_nonneg: "0 \<le> radix \<Longrightarrow> \<forall>d \<in> set ds. 0 \<le> d \<Longrightarrow> 0 \<le> num_value radix ds"
  by (induction ds rule: rev_induct) (simp_all add: num_value_simps)

lemma num_value_zeros: "\<forall>d \<in> set ds. d = 0 \<Longrightarrow> num_value radix (ds @ es) = num_value radix es"
proof -
  assume "\<forall>d \<in> set ds. d = 0"
  then have "num_value radix ds = 0" by (induction ds rule: rev_induct) (simp_all add: num_value_simps)
  then show ?thesis by (simp add: num_value_append)
qed

lemma num_value_big:
  assumes "0 < radix" "0 < d" "\<forall>d \<in> set ds. 0 \<le> d"
  shows "radix ^ length ds \<le> num_value radix (d # ds)"
proof -
  have "num_value radix (d # ds) = d * radix ^ length ds + num_value radix ds"
    using num_value_append [of radix "[d]" ds] by (simp add: num_value_def)
  moreover have "1 * radix ^ length ds \<le> d * radix ^ length ds" using assms by (intro mult_right_mono) simp_all
  moreover have "0 \<le> num_value radix ds" using num_value_nonneg assms by simp
  ultimately show ?thesis by simp
qed

text \<open>The digits read, at most 20, decide the number: with more, it is beyond every limit.\<close>

lemma many_digits:
  assumes r: "10 \<le> radix" and c: "char_val c \<noteq> 0" and n: "20 \<le> length (c # cs)"
  shows "2 ^ 63 < num_value radix (map char_val (take 20 (c # cs)))" "2 ^ 63 < num_value radix (map char_val (c # cs))"
proof -
  have pos: "0 < char_val c" using c char_val_nonneg [of c] by simp
  have big: "2 ^ 63 < num_value radix (map char_val (c # s))" if "19 \<le> length s" for s
  proof -
    have "(2::int) ^ 63 < 10 ^ 19" by simp
    also have "(10::int) ^ 19 \<le> radix ^ 19" using r by (intro power_mono) simp_all
    also have "\<dots> \<le> radix ^ length (map char_val s)" using r that by (intro power_increasing) simp_all
    also have "\<dots> \<le> num_value radix (char_val c # map char_val s)"
      using r pos char_val_nonneg by (intro num_value_big) auto
    finally show ?thesis by simp
  qed
  from big [of "take 19 cs"] n show "2 ^ 63 < num_value radix (map char_val (take 20 (c # cs)))" by (simp add: numeral_eq_Suc)
  from big [of cs] n show "2 ^ 63 < num_value radix (map char_val (c # cs))" by simp
qed

lemma convert_value:
  assumes r: "2 \<le> radix" and l: "limit \<le> 0" "- (2 ^ 63) \<le> limit"
  shows "convert radix (rev (map char_val cs)) limit 0 (- 1) =
    (if num_value radix (map char_val cs) \<le> - limit then Some (- num_value radix (map char_val cs)) else None)"
proof -
  have nn: "\<forall>d \<in> set (rev (map char_val cs)). 0 \<le> d" using char_val_nonneg by auto
  have id: "long_of 0 = 0" "long_of (- 1) = - 1" by (simp_all add: long_of_id)
  have "0 \<le> num_value radix (map char_val cs)" using num_value_nonneg [of radix] r char_val_nonneg by auto
  then show ?thesis using convert_correct [OF r nn l(1), of 0 "- 1"] l(2) by (simp add: id low_value_rev long_of_id)
qed

lemma zeros_skipped:
  assumes "0 < radix"
  shows "num_value radix (map char_val (takeWhile (\<lambda>c. char_val c < radix) s)) =
      num_value radix (map char_val (takeWhile (\<lambda>c. char_val c < radix) (dropWhile (\<lambda>c. c = 48) s)))"
    "dropWhile (\<lambda>c. char_val c < radix) s = dropWhile (\<lambda>c. char_val c < radix) (dropWhile (\<lambda>c. c = 48) s)"
    "takeWhile (\<lambda>c. char_val c < radix) s = [] \<longleftrightarrow> dropWhile (\<lambda>c. c = 48) s = s \<and> takeWhile (\<lambda>c. char_val c < radix) (dropWhile (\<lambda>c. c = 48) s) = []"
proof -
  have z: "char_val 48 = 0" using char_val_zero by blast
  show "num_value radix (map char_val (takeWhile (\<lambda>c. char_val c < radix) s)) =
      num_value radix (map char_val (takeWhile (\<lambda>c. char_val c < radix) (dropWhile (\<lambda>c. c = 48) s)))"
  proof (induction s)
    case (Cons c s)
    show ?case
    proof (cases "c = 48")
      case True
      then show ?thesis using Cons assms z num_value_zeros [of "[0]" radix] by simp
    qed simp
  qed simp
  show "dropWhile (\<lambda>c. char_val c < radix) s = dropWhile (\<lambda>c. char_val c < radix) (dropWhile (\<lambda>c. c = 48) s)"
    using assms z by (induction s) auto
  show "takeWhile (\<lambda>c. char_val c < radix) s = [] \<longleftrightarrow> dropWhile (\<lambda>c. c = 48) s = s \<and> takeWhile (\<lambda>c. char_val c < radix) (dropWhile (\<lambda>c. c = 48) s) = []"
  proof (cases s)
    case (Cons c s')
    have "dropWhile (\<lambda>c. c = 48) s' \<noteq> c # s'" using length_dropWhile_le [of "\<lambda>c. c = 48" s'] by auto
    then show ?thesis using Cons assms z by auto
  qed simp
qed

text \<open>
  A limit on both sides of 0 is kept, and every string of a radix from 10 is read as it should be; with a smaller
  radix a number may have more than 20 digits.
\<close>

lemma str2int_correct:
  assumes r: "10 \<le> radix" "radix \<le> 36" and l: "LONG_MIN \<le> lower" "lower \<le> 0" and u: "0 \<le> upper" "upper \<le> LONG_MAX"
  shows "str2int isspace src radix lower upper =
    (case parse_number isspace radix src of
       None \<Rightarrow> Inl EDOM
     | Some (v, rest) \<Rightarrow> if lower \<le> v \<and> v \<le> upper then Inr (v, rest) else Inl ERANGE)"
proof -
  let ?P = "\<lambda>c. char_val c < radix"
  obtain sg s where sg: "split_sign (dropWhile isspace src) = (sg, s)" by (cases "split_sign (dropWhile isspace src)")
  have sg1: "sg = 1 \<or> sg = - 1" using sg by (auto simp: split_sign_def split: list.splits if_splits)
  define t where "t = dropWhile (\<lambda>c. c = 48) s"
  define ds where "ds = takeWhile ?P t"
  define N where "N = num_value radix (map char_val ds)"
  define limit where "limit = (if - upper < lower then - upper else lower)"
  have lim: "limit \<le> 0" "- (2 ^ 63) \<le> limit" using l u by (auto simp: limit_def LONG_MIN_def LONG_MAX_def)
  have lim2: "- limit = max (- lower) upper" by (auto simp: limit_def)
  have r0: "0 < radix" "2 \<le> radix" using r by simp_all
  note Z = zeros_skipped [OF r0(1), of s, folded t_def, folded ds_def, folded N_def]
  have N0: "0 \<le> N" unfolding N_def using num_value_nonneg [of radix] r char_val_nonneg by auto
  have P: "parse_number isspace radix src = (if takeWhile ?P s = [] then None else Some (sg * N, dropWhile ?P t))"
    using sg Z(1,2) by (simp add: parse_number_def)
  define t1 where "t1 = take 20 ds"
  have rd: "read_digits radix 0 t = (map char_val t1, drop (length t1) t)" by (simp add: read_digits_eq Let_def ds_def t1_def)
  have start: "length s = length (drop (length t1) t) \<longleftrightarrow> takeWhile ?P s = []"
  proof -
    have "length t \<le> length s" unfolding t_def by (rule length_dropWhile_le)
    moreover have "length t1 \<le> length t" using length_takeWhile_le [of ?P t] by (simp add: t1_def ds_def)
    ultimately have "length s = length t - length t1 \<longleftrightarrow> length t = length s \<and> length t1 = 0" by presburger
    then have "length s = length (drop (length t1) t) \<longleftrightarrow> length t = length s \<and> t1 = []" by simp
    also have "length t = length s \<longleftrightarrow> t = s"
      using takeWhile_dropWhile_id [of "\<lambda>c. c = 48" s, folded t_def] by (metis append_Nil append_eq_append_conv length_0_conv self_append_conv2)
    finally show ?thesis using Z(3) by (simp add: t1_def)
  qed
  have S: "str2int isspace src radix lower upper =
      (if takeWhile ?P s = [] then Inl EDOM
       else (case convert radix (rev (map char_val t1)) limit 0 (- 1) of
           None \<Rightarrow> Inl ERANGE
         | Some sofar \<Rightarrow>
             if sg = 1 then if sofar < - LONG_MAX \<or> upper < - sofar then Inl ERANGE else Inr (- sofar, drop (length t1) t)
             else if sofar < lower then Inl ERANGE else Inr (sofar, drop (length t1) t)))"
  proof -
    have "(case w of [] \<Rightarrow> (- 1, []) | c # s \<Rightarrow> if c = 43 then (- 1, s) else if c = 45 then (1, s) else (- 1, c # s)) = (- sg, s)"
      if "split_sign w = (sg, s)" for w using that by (cases w) (auto simp: split_sign_def split: if_splits)
    note split = this [OF sg]
    have "(if 0 < lower then - lower else lower) = lower" "(if 0 < upper then - upper else upper) = - upper" using l u by auto
    then show ?thesis
      unfolding str2int_def split Let_def prod.case t_def [symmetric] rd start limit_def using r sg1 by (auto split: option.splits)
  qed
  show ?thesis
  proof (cases "takeWhile ?P s = []")
    case True
    then show ?thesis using S P by simp
  next
    case nonempty: False
    show ?thesis
    proof (cases "length ds \<le> 20")
      case True
      then have t1: "t1 = ds" by (simp add: t1_def)
      have dr: "drop (length ds) t = dropWhile ?P t" unfolding ds_def by (simp add: dropWhile_eq_drop)
      note C = convert_value [OF r0(2) lim, of t1, unfolded t1, folded N_def]
      show ?thesis using S P nonempty sg1 N0 lim2 l u unfolding t1 C dr by (auto simp: LONG_MAX_def)
    next
      case False
      then obtain c cs where ds: "ds = c # cs" by (cases ds) auto
      then obtain t' where "t = c # t'" by (cases t) (auto simp: ds_def split: if_splits)
      then have "c \<noteq> 48" using hd_dropWhile [of "\<lambda>c. c = 48" s] unfolding t_def by (metis list.discI list.sel(1))
      then have "char_val c \<noteq> 0" by (simp add: char_val_zero)
      from many_digits [OF r(1) this, of cs] have big: "2 ^ 63 < num_value radix (map char_val t1)" "2 ^ 63 < N"
        using False ds by (simp_all add: t1_def N_def)
      have "convert radix (rev (map char_val t1)) limit 0 (- 1) = None" using convert_value [OF r0(2) lim, of t1] big(1) lim by simp
      moreover have "\<not> (lower \<le> sg * N \<and> sg * N \<le> upper)" using big(2) sg1 l u by (auto simp: LONG_MIN_def LONG_MAX_def)
      ultimately show ?thesis using S P nonempty by simp
    qed
  qed
qed

subsection \<open>Writing a number\<close>

lemma dig_vec_digit: "d < 36 \<Longrightarrow> char_val (dig_vec ! d) = int d"
proof -
  have "\<forall>d \<in> set [0..<36]. char_val (dig_vec ! d) = int d" by code_simp
  then show "d < 36 \<Longrightarrow> char_val (dig_vec ! d) = int d" by simp
qed

lemma dig_vec_mod:
  assumes "2 \<le> radix" "radix \<le> 36"
  shows "char_val (dig_vec ! (u - u div radix * radix)) = int (u mod radix)"
proof -
  have "u mod radix < radix" using assms by simp
  then have "u mod radix < 36" using assms(2) by (rule order_less_le_trans)
  then show ?thesis using dig_vec_digit [of "u mod radix"] by (simp add: minus_div_mult_eq_mod)
qed

lemma digits_loop_value:
  assumes r: "2 \<le> radix" "radix \<le> 36"
  shows "num_value (int radix) (map char_val (digits_loop radix v p)) = int v * int radix ^ length p + num_value (int radix) (map char_val p)"
proof (induction v arbitrary: p rule: less_induct)
  case (less v)
  show ?case
  proof (cases "v = 0")
    case True
    then show ?thesis by (subst digits_loop.simps) simp
  next
    case False
    let ?c = "dig_vec ! (v - v div radix * radix)"
    have c: "char_val ?c = int (v mod radix)" by (rule dig_vec_mod [OF r])
    have "v div radix < v" using False r by simp
    from less.IH [OF this, of "?c # p"] c
    have "num_value (int radix) (map char_val (digits_loop radix (v div radix) (?c # p))) =
        int (v div radix) * int radix ^ (length p + 1) + (int (v mod radix) * int radix ^ length p + num_value (int radix) (map char_val p))"
      using num_value_append [of "int radix" "[char_val ?c]" "map char_val p"] by (simp add: num_value_def)
    also have "\<dots> = (int (v div radix) * int radix + int (v mod radix)) * int radix ^ length p + num_value (int radix) (map char_val p)"
      by (simp add: algebra_simps)
    also have "int (v div radix) * int radix + int (v mod radix) = int v" by (metis of_nat_add of_nat_mult div_mult_mod_eq)
    finally show ?thesis using False r by (subst digits_loop.simps) (simp add: Let_def)
  qed
qed

lemma digits_loop_digits:
  assumes r: "2 \<le> radix" "radix \<le> 36" and p: "\<forall>c \<in> set p. char_val c < int radix"
  shows "\<forall>c \<in> set (digits_loop radix v p). char_val c < int radix"
  using p
proof (induction v arbitrary: p rule: less_induct)
  case (less v)
  show ?case
  proof (cases "v = 0")
    case True
    then show ?thesis using less.prems by (subst digits_loop.simps) simp
  next
    case False
    let ?c = "dig_vec ! (v - v div radix * radix)"
    have c: "char_val ?c = int (v mod radix)" by (rule dig_vec_mod [OF r])
    have "v div radix < v" using False r by simp
    from less.IH [OF this, of "?c # p"] c r less.prems show ?thesis using False by (subst digits_loop.simps) (simp add: Let_def)
  qed
qed

lemma digits_loop_length:
  assumes r: "2 \<le> radix"
  shows "v < radix ^ k \<Longrightarrow> length (digits_loop radix v p) \<le> length p + k"
proof (induction k arbitrary: v p)
  case 0
  then show ?case by (subst digits_loop.simps) simp
next
  case (Suc k)
  have "v div radix < radix ^ k" using Suc.prems r by (simp add: less_mult_imp_div_less mult.commute)
  then show ?case using Suc.IH [of "v div radix" "dig_vec ! (v - v div radix * radix) # p"] by (subst digits_loop.simps) (auto simp: Let_def)
qed

lemma digits_loop_nonempty: "p \<noteq> [] \<Longrightarrow> digits_loop radix v p \<noteq> []"
proof (induction radix v p rule: digits_loop.induct)
  case (1 radix v p)
  then show ?case by (subst digits_loop.simps) (auto simp: Let_def)
qed

text \<open>The digits \<open>int2str\<close> writes: at most 64, so they fit into its buffer of 65 bytes.\<close>

definition digits_of :: "nat \<Rightarrow> nat \<Rightarrow> uchar list" where
  "digits_of radix u = digits_loop radix (u div radix) [dig_vec ! (u - u div radix * radix)]"

lemma digits_of_correct:
  assumes r: "2 \<le> radix" "radix \<le> 36"
  shows "num_value (int radix) (map char_val (digits_of radix u)) = int u" "\<forall>c \<in> set (digits_of radix u). char_val c < int radix"
    "digits_of radix u \<noteq> []" "u < 2 ^ 64 \<Longrightarrow> length (digits_of radix u) \<le> 64"
proof -
  let ?p = "[dig_vec ! (u - u div radix * radix)]"
  have c: "char_val (dig_vec ! (u - u div radix * radix)) = int (u mod radix)" by (rule dig_vec_mod [OF r])
  have "num_value (int radix) (map char_val (digits_of radix u)) = int (u div radix) * int radix + int (u mod radix)"
    unfolding digits_of_def digits_loop_value [OF r] using c by (simp add: num_value_def)
  also have "\<dots> = int u" by (metis of_nat_add of_nat_mult div_mult_mod_eq)
  finally show "num_value (int radix) (map char_val (digits_of radix u)) = int u" .
  show "\<forall>c \<in> set (digits_of radix u). char_val c < int radix"
    unfolding digits_of_def using c r by (intro digits_loop_digits) simp_all
  show "digits_of radix u \<noteq> []" by (simp add: digits_of_def digits_loop_nonempty)
  show "length (digits_of radix u) \<le> 64" if "u < 2 ^ 64"
  proof -
    have "u div radix \<le> u div 2" using r by (intro div_le_mono2) simp_all
    also have "\<dots> < 2 ^ 63" using that by simp
    also have "(2::nat) ^ 63 \<le> radix ^ 63" using r by (intro power_mono) simp_all
    finally show ?thesis using digits_loop_length [OF r(1), of "u div radix" 63 ?p] by (simp add: digits_of_def)
  qed
qed

lemma ulong_of_eq: "ulong_of v = nat (v mod 2 ^ 64)"
  by (simp add: ulong_of_def unat_eq_nat_uint uint_word_of_int)

lemma int2str_signed:
  assumes v: "LONG_MIN \<le> val" "val \<le> LONG_MAX" and r: "2 \<le> radix" "radix \<le> 36"
  shows "int2str val (- int radix) = Some ((if val < 0 then [45] else []) @ digits_of radix (nat \<bar>val\<bar>))"
proof -
  have "ulong_of (long_of (- val)) = nat (- val)" if "val < 0"
    unfolding ulong_of_eq long_of_mod using that v by (simp add: LONG_MIN_def)
  moreover have "ulong_of val = nat val" if "\<not> val < 0" unfolding ulong_of_eq using that v by (simp add: LONG_MAX_def)
  ultimately show ?thesis using r by (auto simp: int2str_def digits_of_def Let_def)
qed

text \<open>What \<open>int2str\<close> writes, \<open>str2int\<close> reads back, with anything behind it that is not a digit.\<close>

lemma int2str_str2int_correct:
  assumes v: "LONG_MIN \<le> val" "val \<le> LONG_MAX" and r: "10 \<le> radix" "radix \<le> 36"
    and sp: "\<And>c. isspace c \<Longrightarrow> c \<noteq> 45 \<and> char_val c = 127" and rest: "rest = [] \<or> int radix \<le> char_val (hd rest)"
  shows "\<exists>s. int2str val (- int radix) = Some s \<and> length s \<le> 65 \<and>
    str2int isspace (s @ rest) (int radix) LONG_MIN LONG_MAX = Inr (val, rest)"
proof -
  have r2: "2 \<le> radix" using r by simp
  let ?P = "\<lambda>c. char_val c < int radix" and ?ds = "digits_of radix (nat \<bar>val\<bar>)" and ?sg = "if val < 0 then [45] else [] :: uchar list"
  note D = digits_of_correct [OF r2 r(2), of "nat \<bar>val\<bar>"]
  obtain c cs where ds: "?ds = c # cs" using D(3) by (cases ?ds) auto
  have c: "char_val c < int radix" using D(2) ds by simp
  have nd: "c \<noteq> 45" "c \<noteq> 43" "\<not> isspace c" using c r sp [of c] by (auto simp: char_val_def)
  have "\<not> isspace 45" using sp by blast
  then have "split_sign (dropWhile isspace ((?sg @ ?ds) @ rest)) = (if val < 0 then - 1 else 1, ?ds @ rest)"
    using nd by (simp add: ds split_sign_def)
  moreover have "takeWhile ?P rest = []" "dropWhile ?P rest = rest" using rest by (cases rest; simp)+
  then have "takeWhile ?P (?ds @ rest) = ?ds" "dropWhile ?P (?ds @ rest) = rest" using D(2) by (simp_all add: takeWhile_append dropWhile_append)
  ultimately have "parse_number isspace (int radix) ((?sg @ ?ds) @ rest) = Some (val, rest)"
    using D(1,3) by (simp add: parse_number_def)
  then have again: "str2int isspace ((?sg @ ?ds) @ rest) (int radix) LONG_MIN LONG_MAX = Inr (val, rest)"
    using str2int_correct [of "int radix" LONG_MIN LONG_MAX isspace "(?sg @ ?ds) @ rest"] r v by (simp add: LONG_MIN_def LONG_MAX_def)
  have "nat \<bar>val\<bar> < 2 ^ 64" using v by (simp add: LONG_MIN_def LONG_MAX_def)
  then have "length ?ds \<le> 64" by (rule D(4))
  moreover have "length ?sg \<le> 1" by simp
  ultimately have len: "length (?sg @ ?ds) \<le> 65" unfolding length_append by linarith
  then show ?thesis using int2str_signed [OF v r2 r(2)] again by metis
qed

text \<open>\<open>int10_to_str\<close> is \<open>int2str\<close> for radix 10.\<close>

lemma dig_vec_10: "d < 10 \<Longrightarrow> dig_vec ! d = 48 + of_nat d"
proof -
  have "\<forall>d \<in> set [0..<10]. dig_vec ! d = 48 + of_nat d" by code_simp
  then show "d < 10 \<Longrightarrow> dig_vec ! d = 48 + of_nat d" by simp
qed

lemma digits10_eq: "digits10_loop v p = digits_loop 10 v p"
proof (induction v p rule: digits10_loop.induct)
  case (1 v p)
  have "v - v div 10 * 10 < 10" by (simp add: minus_div_mult_eq_mod)
  then show ?case using 1 by (subst digits10_loop.simps, subst digits_loop.simps) (simp add: Let_def dig_vec_10)
qed

lemma int10_to_str_eq:
  "Some (int10_to_str val (- 10)) = int2str val (- 10)" "Some (int10_to_str val 10) = int2str val 10"
proof -
  have "u - u div 10 * 10 < 10" for u :: nat by (simp add: minus_div_mult_eq_mod)
  then show "Some (int10_to_str val (- 10)) = int2str val (- 10)" "Some (int10_to_str val 10) = int2str val 10"
    by (simp_all add: int10_to_str_def int2str_def Let_def digits10_eq dig_vec_10)
qed

lemma longlong_loop_eq: "longlong_loop radix val p = digits_loop radix val p"
proof (induction radix val p rule: longlong_loop.induct)
  case (1 radix val p)
  show ?case
  proof (cases "LONG_MAX < int val \<and> 2 \<le> radix")
    case True
    then have "val \<noteq> 0" by (auto simp: LONG_MAX_def)
    then show ?thesis using True 1 [OF True refl refl] by (subst longlong_loop.simps, subst digits_loop.simps) (simp add: Let_def)
  next
    case False
    then show ?thesis by (subst longlong_loop.simps) (rule if_not_P)
  qed
qed

lemma digits_loop_start:
  assumes "2 \<le> radix"
  shows "u \<noteq> 0 \<Longrightarrow> digits_loop radix (u div radix) [dig_vec ! (u - u div radix * radix)] = digits_loop radix u []"
    "digits_loop radix (0 div radix) [dig_vec ! (0 - 0 div radix * radix)] = [48]"
proof -
  show "digits_loop radix (u div radix) [dig_vec ! (u - u div radix * radix)] = digits_loop radix u []" if "u \<noteq> 0"
    using assms that by (subst (2) digits_loop.simps) (simp add: Let_def)
  have "dig_vec ! 0 = 48" by code_simp
  then show "digits_loop radix (0 div radix) [dig_vec ! (0 - 0 div radix * radix)] = [48]" by (subst digits_loop.simps) simp
qed

lemma ulong_of_zero: "LONG_MIN \<le> val \<Longrightarrow> val \<le> LONG_MAX \<Longrightarrow> ulong_of val = 0 \<longleftrightarrow> val = 0"
proof -
  assume v: "LONG_MIN \<le> val" "val \<le> LONG_MAX"
  have "val mod 2 ^ 64 = 0 \<longleftrightarrow> val = 0"
  proof
    assume "val mod 2 ^ 64 = 0"
    then have "long_of val = long_of 0" by (intro long_of_cong) simp
    then show "val = 0" using v by (simp add: long_of_id LONG_MIN_def LONG_MAX_def)
  qed simp
  then show ?thesis by (simp add: ulong_of_eq) (smt (verit) pos_mod_sign)
qed

lemma long_of_range: "LONG_MIN \<le> long_of v" "long_of v \<le> LONG_MAX"
  using sint_greater_eq [of "word_of_int v :: ulong"] sint_less [of "word_of_int v :: ulong"] by (simp_all add: long_of_def LONG_MIN_def LONG_MAX_def)

text \<open>\<open>longlong2str\<close> is \<open>int2str\<close> where a \<open>long\<close> has 64 bits.\<close>

lemma longlong2str_eq:
  assumes v: "LONG_MIN \<le> val" "val \<le> LONG_MAX"
  shows "longlong2str val radix = int2str val radix"
proof (cases "(radix < 0 \<and> (radix < - 36 \<or> - 2 < radix)) \<or> (\<not> radix < 0 \<and> (36 < radix \<or> radix < 2))")
  case True
  then show ?thesis by (auto simp: longlong2str_def int2str_def)
next
  case False
  then have r: "2 \<le> nat (if radix < 0 then - radix else radix)" by auto
  have "(if w = 0 then [48] else longlong_loop n (ulong_of w) []) =
      digits_loop n (ulong_of w div n) [dig_vec ! (ulong_of w - ulong_of w div n * n)]" if "LONG_MIN \<le> w" "w \<le> LONG_MAX" "2 \<le> n" for w n
    using digits_loop_start [OF that(3)] ulong_of_zero [OF that(1,2)] by (auto simp: longlong_loop_eq)
  note E = this [OF _ _ r]
  show ?thesis using False E [OF v] E [OF long_of_range, of "- val"] by (auto simp: longlong2str_def int2str_def Let_def split: if_splits)
qed

text \<open>Where the code does less than its comments say.\<close>

lemma dig_vec_01: "dig_vec ! 0 = 48" "dig_vec ! Suc 0 = 49"
  by code_simp+

lemma str2int_binary:
  "\<exists>s. int2str 1048576 2 = Some s \<and> length s = 21 \<and> str2int (\<lambda>c. c = 32) s 2 LONG_MIN LONG_MAX = Inr (524288, [48])"
proof (intro exI conjI)
  show "int2str 1048576 2 = Some [49, 48, 48, 48, 48, 48, 48, 48, 48, 48, 48, 48, 48, 48, 48, 48, 48, 48, 48, 48, 48]"
    by (simp add: int2str_def ulong_of_def Let_def digits_loop.simps dig_vec_01)
  show "str2int (\<lambda>c. c = 32) [49, 48, 48, 48, 48, 48, 48, 48, 48, 48, 48, 48, 48, 48, 48, 48, 48, 48, 48, 48, 48] 2 LONG_MIN LONG_MAX = Inr (524288, [48])" by code_simp
qed simp

lemma str2int_below_lower: "str2int (\<lambda>c. c = 32) [51] 10 5 10 = Inr (3, [])"
  by code_simp

end
