(* ===== verification/WildCompare.thy ===== *)
theory WildCompare
  imports Prelude
begin

text \<open>
  Comparison with wild cards (mysys/mf_wcomp.c). The characters \<open>wild_many\<close>, \<open>wild_one\<close> and
  \<open>wild_prefix\<close> are parameters, as they are variables of the code. A string that ends with a null byte is
  the list of the bytes before it. The result is True where the code returns 1.
\<close>

subsection \<open>The code\<close>

text \<open>
  The first inner loop, up to a wild card or the end of \<open>wildstr\<close>; None is the return of 1. At the end of \<open>str\<close> its
  null byte differs from the byte of \<open>wildstr\<close>.
\<close>

function literal_loop :: "uchar \<Rightarrow> uchar \<Rightarrow> uchar \<Rightarrow> uchar list \<Rightarrow> uchar list \<Rightarrow> (uchar list \<times> uchar list) option" where
  "literal_loop many one prefix str [] = Some (str, [])"
| "literal_loop many one prefix str (w # wildstr) =
     (if w \<noteq> many \<and> w \<noteq> one
      then (let (w, wildstr) = (if w = prefix \<and> wildstr \<noteq> [] then (hd wildstr, tl wildstr) else (w, wildstr))
            in case str of [] \<Rightarrow> None | c # str \<Rightarrow> if w \<noteq> c then None else literal_loop many one prefix str wildstr)
      else Some (str, w # wildstr))"
  by pat_completeness auto
termination by (relation "measure (\<lambda>(_, _, _, _, w). length w)") (auto split: if_splits)

declare literal_loop.simps(2) [simp del]

text \<open>One step of the loop, at a character that is no wild card.\<close>

definition next_literal :: "uchar \<Rightarrow> uchar \<Rightarrow> uchar list \<Rightarrow> uchar \<times> uchar list" where
  "next_literal prefix w wildstr = (if w = prefix \<and> wildstr \<noteq> [] then (hd wildstr, tl wildstr) else (w, wildstr))"

lemma next_literal_length: "length (snd (next_literal prefix w wildstr)) \<le> length wildstr"
  by (simp add: next_literal_def)

lemma literal_loop_step:
  "literal_loop many one prefix str (w # wildstr) =
     (if w = many \<or> w = one then Some (str, w # wildstr)
      else (case str of [] \<Rightarrow> None
        | c # str \<Rightarrow> if fst (next_literal prefix w wildstr) = c then literal_loop many one prefix str (snd (next_literal prefix w wildstr)) else None))"
  by (subst literal_loop.simps) (auto simp: next_literal_def split: list.splits)

lemma literal_loop_length: "literal_loop many one prefix str wildstr = Some (str', wildstr') \<Longrightarrow> length wildstr' \<le> length wildstr"
proof (induction "length wildstr" arbitrary: str wildstr rule: less_induct)
  case less
  show ?case
  proof (cases wildstr)
    case (Cons w ws)
    have n: "length (snd (next_literal prefix w ws)) \<le> length ws" by (rule next_literal_length)
    show ?thesis
    proof (cases "w = many \<or> w = one")
      case False
      then obtain c cs where "literal_loop many one prefix cs (snd (next_literal prefix w ws)) = Some (str', wildstr')"
        using less.prems Cons by (auto simp: literal_loop_step split: list.splits if_splits)
      with less.hyps [of "snd (next_literal prefix w ws)"] n Cons show ?thesis by fastforce
    qed (use less.prems Cons in \<open>auto simp: literal_loop_step\<close>)
  qed (use less.prems in auto)
qed

text \<open>
  The function itself: \<open>star_loop\<close> is the loop after a \<open>wild_many\<close>, with \<open>flag\<close>; going on with the outer
  loop after a \<open>wild_one\<close> is a call with the rest of both strings.
\<close>

definition first_char :: "uchar \<Rightarrow> uchar list \<Rightarrow> uchar" where
  "first_char prefix wildstr = (if hd wildstr = prefix \<and> tl wildstr \<noteq> [] then wildstr ! 1 else hd wildstr)"

lemma dropWhile_shorter:
  "length (dropWhile P xs) \<noteq> length xs \<Longrightarrow> length (dropWhile P xs) < length xs"
  "x # ys = dropWhile P xs \<Longrightarrow> length ys < length xs"
  using length_dropWhile_le [of P xs] by (auto dest: arg_cong [of _ _ length])

function wild_compare :: "uchar \<Rightarrow> uchar \<Rightarrow> uchar \<Rightarrow> uchar list \<Rightarrow> uchar list \<Rightarrow> bool"
  and star_loop :: "uchar \<Rightarrow> uchar \<Rightarrow> uchar \<Rightarrow> bool \<Rightarrow> uchar list \<Rightarrow> uchar list \<Rightarrow> bool" where
  "wild_compare many one prefix str wildstr =
     (if wildstr = [] then str \<noteq> []
      else (case literal_loop many one prefix str wildstr of
          None \<Rightarrow> True
        | Some (str, []) \<Rightarrow> str \<noteq> []
        | Some (str, w # wildstr) \<Rightarrow>
            if w = one then (case str of [] \<Rightarrow> True | c # str \<Rightarrow> wild_compare many one prefix str wildstr)
            else if wildstr = [] then False
            else star_loop many one prefix (hd wildstr \<noteq> many \<and> hd wildstr \<noteq> one) str wildstr))"
| "star_loop many one prefix flag str wildstr =
     (let str = (if flag then dropWhile (\<lambda>c. c \<noteq> first_char prefix wildstr) str else str)
      in if flag \<and> str = [] then True
         else if \<not> wild_compare many one prefix str wildstr then False
         else (case str of
             [] \<Rightarrow> True
           | c # str \<Rightarrow> if hd wildstr \<noteq> many then star_loop many one prefix flag str wildstr else True))"
  by pat_completeness auto
termination
proof (relation "inv_image (less_than <*lex*> less_than <*lex*> less_than)
    (\<lambda>x. case x of Inl (_, _, _, s, w) \<Rightarrow> (length w, length s, 0) | Inr (_, _, _, _, s, w) \<Rightarrow> (length w, length s, 1::nat))", goal_cases)
  case 1
  show ?case by (intro wf_inv_image wf_lex_prod wf_less_than)
qed (auto simp: le_imp_less_or_eq Let_def dropWhile_shorter(1) dest!: literal_loop_length dest: dropWhile_shorter(2) split: if_splits)

declare wild_compare.simps [simp del] star_loop.simps [simp del]

subsection \<open>What a pattern means\<close>

datatype token = Many | One | Literal uchar

function tokens :: "uchar \<Rightarrow> uchar \<Rightarrow> uchar \<Rightarrow> uchar list \<Rightarrow> token list" where
  "tokens many one prefix [] = []"
| "tokens many one prefix (w # wildstr) =
     (if w = one then One # tokens many one prefix wildstr
      else if w = many then Many # tokens many one prefix wildstr
      else Literal (fst (next_literal prefix w wildstr)) # tokens many one prefix (snd (next_literal prefix w wildstr)))"
  by pat_completeness auto
termination by (relation "measure (\<lambda>(_, _, _, w). length w)") (auto simp: next_literal_length less_Suc_eq_le)

declare tokens.simps(2) [simp del]

text \<open>A string is matched by tokens: \<open>Many\<close> stands for any characters, \<open>One\<close> for one.\<close>

fun wild_match :: "uchar list \<Rightarrow> token list \<Rightarrow> bool" where
  "wild_match s [] \<longleftrightarrow> s = []"
| "wild_match s (Literal c # ts) \<longleftrightarrow> s \<noteq> [] \<and> hd s = c \<and> wild_match (tl s) ts"
| "wild_match s (One # ts) \<longleftrightarrow> s \<noteq> [] \<and> wild_match (tl s) ts"
| "wild_match s (Many # ts) \<longleftrightarrow> (\<exists>n \<le> length s. wild_match (drop n s) ts)"

lemma literal_loop_match:
  "literal_loop many one prefix str wildstr = r \<Longrightarrow>
    (case r of None \<Rightarrow> \<not> wild_match str (tokens many one prefix wildstr)
     | Some (str', wildstr') \<Rightarrow> wild_match str (tokens many one prefix wildstr) = wild_match str' (tokens many one prefix wildstr') \<and>
         (wildstr' = [] \<or> hd wildstr' = many \<or> hd wildstr' = one))"
proof (induction "length wildstr" arbitrary: str wildstr rule: less_induct)
  case less
  show ?case
  proof (cases wildstr)
    case Nil
    then show ?thesis using less.prems by auto
  next
    case (Cons w ws)
    let ?n = "next_literal prefix w ws"
    have n: "length (snd ?n) < length wildstr" using next_literal_length [of prefix w ws] Cons by simp
    show ?thesis
    proof (cases "w = many \<or> w = one")
      case True
      then show ?thesis using less.prems Cons by (auto simp: literal_loop_step)
    next
      case False
      then have T: "tokens many one prefix wildstr = Literal (fst ?n) # tokens many one prefix (snd ?n)" using Cons by (simp add: tokens.simps)
      show ?thesis
      proof (cases "str \<noteq> [] \<and> hd str = fst ?n")
        case True
        then have "literal_loop many one prefix (tl str) (snd ?n) = r"
          using less.prems Cons False by (cases str) (simp_all add: literal_loop_step)
        from less.hyps [OF n this] show ?thesis using T True by (auto split: option.splits)
      next
        case no: False
        then have "r = None" using less.prems Cons False by (cases str) (auto simp: literal_loop_step)
        then show ?thesis using T no by auto
      qed
    qed
  qed
qed

text \<open>Characters other than the first literal of the pattern may be skipped.\<close>

lemma match_suffixes:
  "(\<exists>n \<le> length s. wild_match (drop n s) ts) \<longleftrightarrow> wild_match s ts \<or> (s \<noteq> [] \<and> (\<exists>n \<le> length (tl s). wild_match (drop n (tl s)) ts))"
proof (cases s)
  case (Cons c cs)
  have "(\<exists>n \<le> length (c # cs). wild_match (drop n (c # cs)) ts) \<longleftrightarrow> wild_match (c # cs) ts \<or> (\<exists>n \<le> length cs. wild_match (drop n cs) ts)"
    by (metis drop0 drop_Suc_Cons le0 length_Cons not0_implies_Suc Suc_le_mono)
  then show ?thesis using Cons by simp
qed simp

lemma skip_characters:
  assumes "ts = Literal c # ts'"
  shows "(\<exists>n \<le> length s. wild_match (drop n s) ts) \<longleftrightarrow>
    (\<exists>n \<le> length (dropWhile (\<lambda>x. x \<noteq> c) s). wild_match (drop n (dropWhile (\<lambda>x. x \<noteq> c) s)) ts)"
proof (induction s)
  case (Cons x s)
  show ?case
  proof (cases "x = c")
    case False
    then have "\<not> wild_match (x # s) ts" using assms by simp
    then show ?thesis using Cons False match_suffixes [of "x # s" ts] by simp
  qed simp
qed simp

lemma first_char_token:
  assumes "wildstr \<noteq> []" "hd wildstr \<noteq> many" "hd wildstr \<noteq> one"
  shows "\<exists>ts. tokens many one prefix wildstr = Literal (first_char prefix wildstr) # ts"
  using assms by (cases wildstr) (auto simp: tokens.simps first_char_def next_literal_def nth_Cons' hd_conv_nth split: if_splits)

lemma no_match_later:
  assumes "\<not> wild_match s (Many # ts)" shows "\<not> (\<exists>n \<le> length s. wild_match (drop n s) (Many # ts))"
proof
  assume "\<exists>n \<le> length s. wild_match (drop n s) (Many # ts)"
  then obtain n k where "n \<le> length s" "k \<le> length s - n" "wild_match (drop k (drop n s)) ts" by auto
  then have "n + k \<le> length s" "wild_match (drop (n + k) s) ts" by (auto simp: add.commute)
  then show False using assms by auto
qed

text \<open>\<open>wild_compare\<close> returns 0 exactly for the strings the pattern matches.\<close>

lemma wild_compare_correct:
  "many \<noteq> one \<Longrightarrow> wild_compare many one prefix str wildstr \<longleftrightarrow> \<not> wild_match str (tokens many one prefix wildstr)"
  "many \<noteq> one \<Longrightarrow> wildstr' \<noteq> [] \<Longrightarrow> flag = (hd wildstr' \<noteq> many \<and> hd wildstr' \<noteq> one) \<Longrightarrow>
    star_loop many one prefix flag str' wildstr' \<longleftrightarrow> \<not> (\<exists>n \<le> length str'. wild_match (drop n str') (tokens many one prefix wildstr'))"
proof (induction many one prefix str wildstr and many one prefix flag str' wildstr' rule: wild_compare_star_loop.induct)
  case (1 many one prefix str wildstr)
  show ?case
  proof (cases "wildstr = []")
    case True
    then show ?thesis by (subst wild_compare.simps) simp
  next
    case ne: False
    show ?thesis
    proof (cases "literal_loop many one prefix str wildstr")
      case None
      then show ?thesis using literal_loop_match [OF None] ne by (subst wild_compare.simps) simp
    next
      case (Some r)
      obtain s w where r: "literal_loop many one prefix str wildstr = Some (s, w)" using Some by (cases r) simp
      note M = literal_loop_match [OF r, simplified]
      show ?thesis
      proof (cases w)
        case Nil
        then show ?thesis using M r ne by (subst wild_compare.simps) simp
      next
        case (Cons v ws)
        show ?thesis
        proof (cases "v = one")
          case True
          have "s = c # s' \<Longrightarrow> wild_compare many one prefix s' ws \<longleftrightarrow> \<not> wild_match s' (tokens many one prefix ws)" for c s'
            using 1(1) [OF ne r refl Cons True _ 1(3)] by blast
          then show ?thesis using M r ne Cons True by (subst wild_compare.simps) (auto simp: tokens.simps split: list.splits)
        next
          case False
          then have T: "tokens many one prefix w = Many # tokens many one prefix ws" using M Cons by (auto simp: tokens.simps)
          show ?thesis
          proof (cases "ws = []")
            case True
            have "wild_match s [Many]" by (auto intro: exI [of _ "length s"])
            then show ?thesis using M r ne Cons True False T by (subst wild_compare.simps) simp
          next
            case ws: False
            note S = 1(2) [OF ne r refl Cons False ws 1(3) ws refl]
            show ?thesis unfolding M [THEN conjunct1] T wild_match.simps S [symmetric]
              using r ne Cons False ws by (subst wild_compare.simps) simp
          qed
        qed
      qed
    qed
  qed
next
  case (2 many one prefix flag str wildstr)
  let ?ts = "tokens many one prefix wildstr"
  define s where "s = (if flag then dropWhile (\<lambda>c. c \<noteq> first_char prefix wildstr) str else str)"
  have S: "star_loop many one prefix flag str wildstr \<longleftrightarrow>
      (if flag \<and> s = [] then True else if \<not> wild_compare many one prefix s wildstr then False
       else (case s of [] \<Rightarrow> True | c # s \<Rightarrow> if hd wildstr \<noteq> many then star_loop many one prefix flag s wildstr else True))"
    by (subst star_loop.simps) (simp only: s_def Let_def)
  have skip: "(\<exists>n \<le> length str. wild_match (drop n str) ?ts) \<longleftrightarrow> (\<exists>n \<le> length s. wild_match (drop n s) ?ts)"
  proof (cases flag)
    case True
    then obtain ts where "?ts = Literal (first_char prefix wildstr) # ts" using 2(4,5) first_char_token by blast
    from skip_characters [OF this] show ?thesis using True by (simp add: s_def)
  qed (simp add: s_def)
  show ?case
  proof (cases "flag \<and> s = []")
    case True
    then obtain ts where "?ts = Literal (first_char prefix wildstr) # ts" using 2(4,5) first_char_token by blast
    then have "\<not> (\<exists>n \<le> length s. wild_match (drop n s) ?ts)" using True by simp
    then show ?thesis unfolding skip S if_P [OF True] by simp
  next
    case False
    note C = 2(1) [OF s_def False 2(3)]
    show ?thesis
    proof (cases "wild_compare many one prefix s wildstr")
      case nm: False
      then have "\<exists>n \<le> length s. wild_match (drop n s) ?ts" using C match_suffixes [of s ?ts] by blast
      then show ?thesis unfolding skip S using False nm by simp
    next
      case True
      then have no: "\<not> wild_match s ?ts" using C by blast
      show ?thesis
      proof (cases s)
        case Nil
        then show ?thesis unfolding skip S using False True no by simp
      next
        case (Cons c cs)
        show ?thesis
        proof (cases "hd wildstr \<noteq> many")
          case hd: True
          have "star_loop many one prefix flag cs wildstr \<longleftrightarrow> \<not> (\<exists>n \<le> length cs. wild_match (drop n cs) ?ts)"
            using 2(2) [OF s_def False _ Cons hd 2(3-5)] True by simp
          then show ?thesis unfolding skip S using match_suffixes [of s ?ts] no Cons False True hd by simp
        next
          case many: False
          then obtain ts where "?ts = Many # ts" using 2(3,4) by (cases wildstr) (auto simp: tokens.simps)
          then have "\<not> (\<exists>n \<le> length s. wild_match (drop n s) ?ts)" using no_match_later no by simp
          then show ?thesis unfolding skip S using Cons False True many by simp
        qed
      qed
    qed
  qed
qed

text \<open>With a prefix before it a wild card stands for itself.\<close>

lemma prefix_escapes:
  assumes "prefix \<noteq> many" "prefix \<noteq> one" "many \<noteq> one"
  shows "wild_compare many one prefix str [prefix, many] \<longleftrightarrow> str \<noteq> [many]"
  unfolding wild_compare_correct(1) [OF assms(3)]
  using assms by (cases str) (auto simp: tokens.simps next_literal_def)

end
